(* ===== verification/Prelude.thy ===== *)
theory Prelude
  imports Complex_Main
begin

text \<open>
  What every component of the development shares: the names of the numeric types, the
  collections of facts that the component proofs feed to the simplifier, the generic
  lemmas on lists, ring buffers and event runs, and the shape of a run over a list of
  events.

  Python's unbounded \<open>int\<close> is \<open>int\<close>.  A Python \<open>float\<close> or \<open>Decimal\<close> is
  \<^typ>\<open>real\<close>: a finite float or decimal is a real number, and the model takes the exact
  result of each arithmetic operation where the machine rounds it.  NaN and infinity are
  options or constructors of their own where the code produces them.  A numpy array of a
  fixed length is a list of that length.
\<close>

section \<open>Names\<close>

type_synonym flt = real
type_synonym symbol = string
type_synonym time = real

named_theorems inv_intros \<open>introduction rules for the components' invariants\<close>
named_theorems frame_simps \<open>fields an operation leaves unchanged\<close>

text \<open>The exceptions the modelled code raises on purpose.\<close>

datatype py_error =
    ValueError string
  | IndexError
  | ConnectionError string
  | SnapshotIsolationError int string

section \<open>Lists\<close>

definition lastn :: "nat \<Rightarrow> 'a list \<Rightarrow> 'a list" where
  "lastn n xs = drop (length xs - n) xs"

lemma length_lastn [simp]: "length (lastn n xs) = min n (length xs)"
  by (simp add: lastn_def)

lemma lastn_0 [simp]: "lastn 0 xs = []"
  by (simp add: lastn_def)

lemma lastn_all [simp]: "length xs \<le> n \<Longrightarrow> lastn n xs = xs"
  by (simp add: lastn_def)

lemma lastn_append: "lastn n (xs @ ys) = lastn (n - length ys) xs @ lastn n ys"
  by (cases "length ys \<le> n") (auto simp: lastn_def)

lemma lastn_lastn_append: "lastn n (lastn n xs @ ys) = lastn n (xs @ ys)"
proof (cases "n \<le> length xs")
  case True
  then have "length xs + length ys - n = (n + length ys - n) + (length xs - n)" by simp
  with True show ?thesis by (auto simp: lastn_def)
next
  case False
  then show ?thesis by simp
qed

lemma lastn_snoc: "0 < n \<Longrightarrow> lastn n (xs @ [x]) = lastn (n - 1) xs @ [x]"
  by (simp add: lastn_append)

lemma lastn_lastn_less: "m \<le> n \<Longrightarrow> lastn m (lastn n xs) = lastn m xs"
  by (cases "n \<le> length xs") (simp_all add: lastn_def)

lemma set_lastn: "set (lastn n xs) \<subseteq> set xs"
  by (simp add: lastn_def set_drop_subset)

lemma lastn_snoc_full:
  "length xs = n \<Longrightarrow> 0 < n \<Longrightarrow> lastn n (xs @ [x]) = tl xs @ [x]"
  by (cases xs) (auto simp: lastn_def)

lemma last_lastn: "0 < n \<Longrightarrow> xs \<noteq> [] \<Longrightarrow> last (lastn n xs) = last xs"
  by (simp add: lastn_def last_drop)

lemma find_key: "distinct (map f xs) \<Longrightarrow> x \<in> set xs \<Longrightarrow> List.find (\<lambda>y. f y = f x) xs = Some x"
  by (induction xs) (auto simp: rev_image_eqI)

lemma sum_list_update_group:
  fixes xs :: "'a::ab_group_add list"
  shows "i < length xs \<Longrightarrow> sum_list (xs[i := v]) = sum_list xs + v - xs ! i"
  by (induction xs arbitrary: i) (auto split: nat.split simp: algebra_simps)

lemma sum_list_map_update:
  fixes f :: "'a \<Rightarrow> 'b::ab_group_add"
  shows "i < length xs \<Longrightarrow>
    sum_list (map f (xs[i := v])) = sum_list (map f xs) + f v - f (xs ! i)"
  using sum_list_update_group [of i "map f xs" "f v"] by (simp add: map_update)

lemma count_update:
  assumes "i < length cs"
  shows "length (filter P (cs[i := p])) + (if P (cs ! i) then 1 else 0) = length (filter P cs) + (if P p then 1 else 0)"
proof -
  have "length (filter P cs) = length (filter P (take i cs @ cs ! i # drop (Suc i) cs))"
    using id_take_nth_drop [OF assms] by simp
  then show ?thesis using upd_conv_take_nth_drop [OF assms, of p] by simp
qed

lemma sum_list_scale:
  fixes c :: "'a::semiring_0"
  shows "sum_list (map (\<lambda>x. x * c) xs) = sum_list xs * c"
  by (induction xs) (auto simp: distrib_right)

lemma sum_list_bound:
  fixes xs :: "real list"
  shows "(\<forall>x \<in> set xs. x \<le> b) \<Longrightarrow> sum_list xs \<le> b * real (length xs)"
  by (induction xs) (auto simp: algebra_simps)

lemma sum_list_replicate_zero [simp]: "sum_list (replicate n (0::'a::comm_monoid_add)) = 0"
  by (induction n) auto

text \<open>\<open>xs[i:j] = ys\<close> for a slice assignment of equal length, as numpy does it.\<close>

definition slice_assign :: "'a list \<Rightarrow> nat \<Rightarrow> nat \<Rightarrow> 'a list \<Rightarrow> 'a list" where
  "slice_assign xs i j ys = take i xs @ ys @ drop j xs"

definition slice :: "'a list \<Rightarrow> nat \<Rightarrow> nat \<Rightarrow> 'a list" where
  "slice xs i j = take (j - i) (drop i xs)"

lemma length_slice [simp]: "j \<le> length xs \<Longrightarrow> length (slice xs i j) = j - i"
  by (simp add: slice_def)

lemma length_slice_assign [simp]:
  "i \<le> j \<Longrightarrow> j \<le> length xs \<Longrightarrow> length ys = j - i \<Longrightarrow> length (slice_assign xs i j ys) = length xs"
  by (simp add: slice_assign_def)

section \<open>Text and rounding\<close>

text \<open>\<open>int()\<close> of a float truncates towards zero.\<close>

definition py_int :: "real \<Rightarrow> int" where
  "py_int x = (if 0 \<le> x then \<lfloor>x\<rfloor> else \<lceil>x\<rceil>)"

text \<open>Python's case mappings on ASCII, \<open>p in s\<close>, and \<open>round\<close> with its ties to even.\<close>

definition upper_char :: "char \<Rightarrow> char" where
  "upper_char c = (if 97 \<le> (of_char c :: nat) \<and> (of_char c :: nat) \<le> 122 then char_of (of_char c - 32 :: nat) else c)"

definition lower_char :: "char \<Rightarrow> char" where
  "lower_char c = (if 65 \<le> (of_char c :: nat) \<and> (of_char c :: nat) \<le> 90 then char_of (of_char c + 32 :: nat) else c)"

definition py_upper :: "string \<Rightarrow> string" where
  "py_upper s = map upper_char s"

definition py_lower :: "string \<Rightarrow> string" where
  "py_lower s = map lower_char s"

fun contains :: "string \<Rightarrow> string \<Rightarrow> bool" where
  "contains p [] \<longleftrightarrow> p = []"
| "contains p (c # cs) \<longleftrightarrow> take (length p) (c # cs) = p \<or> contains p cs"

fun nat_text :: "nat \<Rightarrow> string" where
  "nat_text n = (if n < 10 then [] else nat_text (n div 10)) @ [char_of (48 + n mod 10)]"

declare nat_text.simps [simp del]

definition int_text :: "int \<Rightarrow> string" where
  "int_text k = (if k < 0 then ''-'' @ nat_text (nat (- k)) else nat_text (nat k))"

definition round_half_even :: "flt \<Rightarrow> int" where
  "round_half_even x =
     (let f = \<lfloor>x\<rfloor>; d = x - of_int f
      in if d < 1/2 then f else if 1/2 < d then f + 1 else if even f then f else f + 1)"

definition round_to :: "nat \<Rightarrow> flt \<Rightarrow> flt" where
  "round_to n x = of_int (round_half_even (x * 10 ^ n)) / 10 ^ n"

text \<open>The digits of a number read back, and no digit is anything else.\<close>

definition text_nat :: "string \<Rightarrow> nat" where
  "text_nat s = foldl (\<lambda>v c. 10 * v + (of_char c - 48)) 0 s"

lemma text_nat_inverse: "text_nat (nat_text n) = n"
proof (induction n rule: nat_text.induct)
  case (1 n)
  have "(of_char (char_of (48 + n mod 10) :: char) :: nat) = 48 + n mod 10"
    by (simp add: of_char_of take_bit_eq_mod)
  then show ?case using 1 by (subst nat_text.simps) (auto simp: text_nat_def)
qed

lemma nat_text_digits: "c \<in> set (nat_text n) \<Longrightarrow> (of_char c :: nat) \<in> {48..57}"
proof (induction n rule: nat_text.induct)
  case (1 n)
  have "(of_char (char_of (48 + n mod 10) :: char) :: nat) = 48 + n mod 10"
    by (simp add: of_char_of take_bit_eq_mod)
  with 1 show ?case by (subst (asm) nat_text.simps) (auto split: if_splits)
qed

lemma nat_text_inj: "nat_text m = nat_text n \<longleftrightarrow> m = n"
  by (metis text_nat_inverse)

lemma nat_text_no_sign: "nat_text n \<noteq> CHR ''-'' # s"
  using nat_text_digits [of "CHR ''-''" n] by auto

lemma int_text_inj: "int_text j = int_text k \<longleftrightarrow> j = k"
  by (auto simp: int_text_def nat_text_inj nat_text_no_sign nat_text_no_sign [symmetric])

lemma round_half_even_mono: "x \<le> y \<Longrightarrow> round_half_even x \<le> round_half_even y"
proof -
  assume "x \<le> y"
  then have "\<lfloor>x\<rfloor> \<le> \<lfloor>y\<rfloor>" by (rule floor_mono)
  then consider "\<lfloor>x\<rfloor> = \<lfloor>y\<rfloor>" | "\<lfloor>x\<rfloor> + 1 \<le> \<lfloor>y\<rfloor>" by linarith
  then show ?thesis
    using \<open>x \<le> y\<close> by cases (auto simp: round_half_even_def Let_def)
qed

lemma round_half_even_int [simp]: "round_half_even (of_int k) = k"
  by (simp add: round_half_even_def)

section \<open>Ring buffers\<close>

text \<open>
  \<open>ring_list buf i\<close> reads a full ring from its oldest element, the one at the write
  index, to its newest.  A write at the index followed by the index's advance drops the
  oldest element and appends the new one.
\<close>

definition ring_list :: "'a list \<Rightarrow> nat \<Rightarrow> 'a list" where
  "ring_list buf i = drop i buf @ take i buf"

definition ring_next :: "nat \<Rightarrow> nat \<Rightarrow> nat" where
  "ring_next n i = (if n \<le> Suc i then 0 else Suc i)"

lemma ring_next_less [simp]: "0 < n \<Longrightarrow> ring_next n i < n"
  by (simp add: ring_next_def)

lemma ring_next_mod: "i < n \<Longrightarrow> ring_next n i = Suc i mod n"
  by (cases "Suc i = n") (auto simp: ring_next_def)

lemma length_ring_list [simp]: "i \<le> length buf \<Longrightarrow> length (ring_list buf i) = length buf"
  by (simp add: ring_list_def)

lemma set_ring_list [simp]: "set (ring_list buf i) = set buf"
proof -
  have "set buf = set (take i buf @ drop i buf)" by simp
  then show ?thesis unfolding ring_list_def set_append by blast
qed

lemma sum_list_ring_list [simp]:
  fixes buf :: "'a::ab_group_add list"
  shows "sum_list (ring_list buf i) = sum_list buf"
proof -
  have "sum_list (take i buf) + sum_list (drop i buf) = sum_list buf"
    by (metis append_take_drop_id sum_list_append)
  then show ?thesis by (simp add: ring_list_def add.commute)
qed

lemma ring_list_0 [simp]: "ring_list buf 0 = buf"
  by (simp add: ring_list_def)

lemma ring_list_push:
  assumes "i < length buf"
  shows "ring_list (buf[i := x]) (ring_next (length buf) i) = tl (ring_list buf i) @ [x]"
proof (cases "length buf \<le> Suc i")
  case True
  with assms have i: "Suc i = length buf" by simp
  have "buf[i := x] = take i buf @ [x]"
    using assms i by (simp add: upd_conv_take_nth_drop)
  moreover have "drop i buf = [buf ! i]"
    using Cons_nth_drop_Suc [OF assms] i by simp
  ultimately show ?thesis
    using True by (simp add: ring_list_def ring_next_def)
next
  case False
  have "drop i buf = buf ! i # drop (Suc i) buf"
    using assms by (simp add: Cons_nth_drop_Suc)
  with False assms show ?thesis
    by (simp add: ring_list_def ring_next_def take_Suc_conv_app_nth)
qed

lemma ring_list_hd: "i < length buf \<Longrightarrow> hd (ring_list buf i) = buf ! i"
  by (simp add: ring_list_def hd_append hd_drop_conv_nth)

section \<open>Runs over a list of events\<close>

text \<open>
  A component that consumes one event and may answer is a step function from state and
  event to state and answer.  \<open>run_final\<close> is the state after a list of events and
  \<open>run_log\<close> the list of the events paired with the component's answers.
\<close>

fun run_final :: "('s \<Rightarrow> 'e \<Rightarrow> 's \<times> 'a) \<Rightarrow> 's \<Rightarrow> 'e list \<Rightarrow> 's" where
  "run_final step s [] = s"
| "run_final step s (e # es) = run_final step (fst (step s e)) es"

fun run_log :: "('s \<Rightarrow> 'e \<Rightarrow> 's \<times> 'a) \<Rightarrow> 's \<Rightarrow> 'e list \<Rightarrow> ('e \<times> 'a) list" where
  "run_log step s [] = []"
| "run_log step s (e # es) = (e, snd (step s e)) # run_log step (fst (step s e)) es"

lemma run_final_inv:
  assumes "P s" and "\<And>s e. P s \<Longrightarrow> e \<in> set es \<Longrightarrow> P (fst (step s e))"
  shows "P (run_final step s es)"
  using assms by (induction es arbitrary: s) auto

lemma run_final_append [simp]:
  "run_final step s (xs @ ys) = run_final step (run_final step s xs) ys"
  by (induction xs arbitrary: s) auto

lemma length_run_log [simp]: "length (run_log step s es) = length es"
  by (induction es arbitrary: s) auto

lemma run_log_append [simp]:
  "run_log step s (xs @ ys) = run_log step s xs @ run_log step (run_final step s xs) ys"
  by (induction xs arbitrary: s) auto

lemma fold_inv: "P s \<Longrightarrow> (\<And>s x. P s \<Longrightarrow> x \<in> set xs \<Longrightarrow> P (f x s)) \<Longrightarrow> P (fold f xs s)"
  by (induction xs arbitrary: s) auto

end
