(* ===== verification/Book_Side.thy ===== *)
theory Book_Side
  imports Prelude
begin

text \<open>
  One side of the order book (\<open>NdOrderBookStateMachine\<close> in
  \<open>src/src/infrastructure/gektor_l2/nd_orderbook.py\<close>): two arrays of fixed length and a
  count, kept sorted by a key (the price of an ask, the negated price of a bid).  The
  array operations are the code's slice assignments.  The lemmas show that the arrays stay
  sorted and that a side is the map from keys to quantities it stands for.

  numpy is a parameter: a record of the functions the code calls, with what their
  documentation says of them as the predicate \<open>numpy_ok\<close>.
\<close>

section \<open>numpy\<close>

record numpy =
  np_searchsorted :: "int list \<Rightarrow> int \<Rightarrow> nat"
  np_argsort :: "int list \<Rightarrow> nat list"
  np_exp :: "real \<Rightarrow> real"
  np_sign :: "real \<Rightarrow> real"

definition numpy_ok :: "numpy \<Rightarrow> bool" where
  "numpy_ok np \<longleftrightarrow>
     (\<forall>xs v. sorted xs \<longrightarrow> np_searchsorted np xs v = length (takeWhile (\<lambda>x. x < v) xs))
   \<and> (\<forall>xs. np_argsort np xs = sort_key (\<lambda>i. xs ! i) [0 ..< length xs])
   \<and> (\<forall>x. 0 < np_exp np x) \<and> (\<forall>x \<le> 0. np_exp np x \<le> 1)
   \<and> (\<forall>x. np_sign np x = sgn x)"

definition numpy_ref :: numpy where
  "numpy_ref = \<lparr>np_searchsorted = (\<lambda>xs v. length (takeWhile (\<lambda>x. x < v) xs)),
                np_argsort = (\<lambda>xs. sort_key (\<lambda>i. xs ! i) [0 ..< length xs]),
                np_exp = exp, np_sign = sgn\<rparr>"

lemma numpy_ref_ok: "numpy_ok numpy_ref"
  by (simp add: numpy_ok_def numpy_ref_def)

section \<open>The arrays\<close>

record book_side =
  bs_px :: "int list"
  bs_q :: "int list"
  bs_n :: nat

definition side_init :: "nat \<Rightarrow> book_side" where
  "side_init L = \<lparr>bs_px = replicate L 0, bs_q = replicate L 0, bs_n = 0\<rparr>"

definition side_clear :: "book_side \<Rightarrow> book_side" where
  "side_clear s = \<lparr>bs_px = replicate (length (bs_px s)) 0, bs_q = replicate (length (bs_q s)) 0, bs_n = 0\<rparr>"

definition side_insert :: "nat \<Rightarrow> nat \<Rightarrow> int \<Rightarrow> int \<Rightarrow> book_side \<Rightarrow> book_side" where
  "side_insert L idx key qty s =
     (let n = bs_n s
      in if L \<le> n then s
         else
           let px = (if idx < n then slice_assign (bs_px s) (idx + 1) (n + 1) (slice (bs_px s) idx n) else bs_px s);
               q = (if idx < n then slice_assign (bs_q s) (idx + 1) (n + 1) (slice (bs_q s) idx n) else bs_q s)
           in s\<lparr>bs_px := px[idx := key], bs_q := q[idx := qty], bs_n := n + 1\<rparr>)"

definition side_remove :: "nat \<Rightarrow> book_side \<Rightarrow> book_side" where
  "side_remove idx s =
     (let n = bs_n s
      in if n \<le> idx then s
         else
           let px = (if idx < n - 1 then slice_assign (bs_px s) idx (n - 1) (slice (bs_px s) (idx + 1) n) else bs_px s);
               q = (if idx < n - 1 then slice_assign (bs_q s) idx (n - 1) (slice (bs_q s) (idx + 1) n) else bs_q s)
           in s\<lparr>bs_n := n - 1, bs_px := px[n - 1 := 0], bs_q := q[n - 1 := 0]\<rparr>)"

definition side_apply :: "numpy \<Rightarrow> nat \<Rightarrow> int \<Rightarrow> int \<Rightarrow> book_side \<Rightarrow> book_side" where
  "side_apply np L key qty s =
     (let idx = np_searchsorted np (take (bs_n s) (bs_px s)) key;
          exists = (idx < bs_n s \<and> bs_px s ! idx = key)
      in if qty \<le> 0 then (if exists then side_remove idx s else s)
         else if exists then s\<lparr>bs_q := (bs_q s)[idx := qty]\<rparr>
         else side_insert L idx key qty s)"

text \<open>The rows of a snapshot: positive quantities only, the first \<open>L\<close> of them, sorted by key;
  the rest of the arrays keeps what it held.\<close>

fun take_rows :: "nat \<Rightarrow> (int \<times> int) list \<Rightarrow> (int \<times> int) list" where
  "take_rows L [] = []"
| "take_rows L ((price, qty) # rows) =
     (if qty \<le> 0 then take_rows L rows
      else (price, qty) # (if L \<le> 1 then [] else take_rows (L - 1) rows))"

definition fill_side :: "numpy \<Rightarrow> nat \<Rightarrow> (int \<Rightarrow> int) \<Rightarrow> (int \<times> int) list \<Rightarrow> book_side \<Rightarrow> book_side" where
  "fill_side np L to_key rows s =
     (let good = take_rows L rows;
          view_px = map (\<lambda>r. to_key (fst r)) good;
          view_q = map snd good;
          order = np_argsort np view_px;
          k = length good
      in if k = 0 then s
         else s\<lparr>bs_px := slice_assign (bs_px s) 0 k (map (\<lambda>i. view_px ! i) order),
                bs_q := slice_assign (bs_q s) 0 k (map (\<lambda>i. view_q ! i) order),
                bs_n := k\<rparr>)"

section \<open>Rows\<close>

definition side_rows :: "book_side \<Rightarrow> (int \<times> int) list" where
  "side_rows s = zip (take (bs_n s) (bs_px s)) (take (bs_n s) (bs_q s))"

definition side_map :: "book_side \<Rightarrow> int \<rightharpoonup> int" where
  "side_map s = map_of (side_rows s)"

definition rows_ok :: "(int \<times> int) list \<Rightarrow> bool" where
  "rows_ok rows \<longleftrightarrow> sorted_wrt (<) (map fst rows) \<and> (\<forall>r \<in> set rows. 0 < snd r)"

definition side_shape :: "nat \<Rightarrow> book_side \<Rightarrow> bool" where
  "side_shape L s \<longleftrightarrow> length (bs_px s) = L \<and> length (bs_q s) = L \<and> bs_n s \<le> L"

definition side_ok :: "nat \<Rightarrow> book_side \<Rightarrow> bool" where
  "side_ok L s \<longleftrightarrow> side_shape L s \<and> rows_ok (side_rows s)"

lemma side_rows_length [simp]: "side_shape L s \<Longrightarrow> length (side_rows s) = bs_n s"
  by (simp add: side_rows_def side_shape_def)

lemma side_rows_keys: "side_shape L s \<Longrightarrow> map fst (side_rows s) = take (bs_n s) (bs_px s)"
  by (simp add: side_rows_def side_shape_def)

lemma side_rows_qtys: "side_shape L s \<Longrightarrow> map snd (side_rows s) = take (bs_n s) (bs_q s)"
  by (simp add: side_rows_def side_shape_def)

lemma side_rows_nth:
  "side_shape L s \<Longrightarrow> i < bs_n s \<Longrightarrow> side_rows s ! i = (bs_px s ! i, bs_q s ! i)"
  by (simp add: side_rows_def side_shape_def)

lemma side_init_ok [inv_intros]: "side_ok L (side_init L)"
  by (simp add: side_ok_def side_init_def side_shape_def side_rows_def rows_ok_def)

lemma side_clear_ok [inv_intros]: "side_shape L s \<Longrightarrow> side_ok L (side_clear s)"
  by (simp add: side_ok_def side_clear_def side_shape_def side_rows_def rows_ok_def)

text \<open>The slice assignments, on the filled part of one array.\<close>

lemma take_insert_slice:
  assumes "idx \<le> n" and "n < length xs"
  shows "take (Suc n) ((if idx < n then slice_assign xs (idx + 1) (n + 1) (slice xs idx n) else xs)[idx := x])
       = take idx xs @ x # drop idx (take n xs)"
proof (cases "idx < n")
  case False
  with assms have "idx = n" by simp
  then show ?thesis using assms by (simp add: take_Suc_conv_app_nth)
next
  case True
  have len: "length (slice xs idx n) = n - idx" using assms by simp
  have take1: "take (Suc idx) xs = take idx xs @ [xs ! idx]"
    using True assms by (simp add: take_Suc_conv_app_nth)
  have "(slice_assign xs (idx + 1) (n + 1) (slice xs idx n))[idx := x]
      = take idx xs @ x # slice xs idx n @ drop (n + 1) xs"
    using True assms by (simp add: slice_assign_def take1 list_update_append)
  then show ?thesis
    using True assms len by (simp add: slice_def drop_take Suc_diff_le)
qed

lemma take_remove_slice:
  assumes "idx < n" and "n \<le> length xs"
  shows "take (n - 1) ((if idx < n - 1 then slice_assign xs idx (n - 1) (slice xs (idx + 1) n) else xs)[n - 1 := y])
       = take idx xs @ drop (Suc idx) (take n xs)"
proof (cases "idx < n - 1")
  case False
  with assms have "n = Suc idx" by simp
  then show ?thesis using assms by simp
next
  case True
  then show ?thesis
    using assms by (simp add: slice_assign_def slice_def drop_take take_update_cancel)
qed

lemma length_insert_slice:
  "idx \<le> n \<Longrightarrow> n < length xs \<Longrightarrow>
     length ((if idx < n then slice_assign xs (idx + 1) (n + 1) (slice xs idx n) else xs)[idx := x]) = length xs"
  by simp

lemma length_remove_slice:
  "idx < n \<Longrightarrow> n \<le> length xs \<Longrightarrow>
     length ((if idx < n - 1 then slice_assign xs idx (n - 1) (slice xs (idx + 1) n) else xs)[n - 1 := y]) = length xs"
  by simp

lemma side_insert_rows:
  assumes "side_shape L s" and "idx \<le> bs_n s" and "bs_n s < L"
  shows "side_shape L (side_insert L idx key qty s)
    \<and> side_rows (side_insert L idx key qty s) = take idx (side_rows s) @ (key, qty) # drop idx (side_rows s)"
  using assms take_insert_slice [of idx "bs_n s" "bs_px s" key] take_insert_slice [of idx "bs_n s" "bs_q s" qty]
  by (simp add: side_insert_def side_shape_def side_rows_def Let_def take_zip drop_zip zip_append min_absorb1)

lemma side_remove_rows:
  assumes "side_shape L s" and "idx < bs_n s"
  shows "side_shape L (side_remove idx s)
    \<and> side_rows (side_remove idx s) = take idx (side_rows s) @ drop (Suc idx) (side_rows s)"
proof -
  let ?n = "bs_n s"
  have n: "?n \<le> length (bs_px s)" "?n \<le> length (bs_q s)" using assms by (simp_all add: side_shape_def)
  define px where "px = (if idx < ?n - 1 then slice_assign (bs_px s) idx (?n - 1) (slice (bs_px s) (idx + 1) ?n) else bs_px s)[?n - 1 := 0]"
  define q where "q = (if idx < ?n - 1 then slice_assign (bs_q s) idx (?n - 1) (slice (bs_q s) (idx + 1) ?n) else bs_q s)[?n - 1 := 0]"
  have px: "take (?n - 1) px = take idx (bs_px s) @ drop (Suc idx) (take ?n (bs_px s))" "length px = length (bs_px s)"
    unfolding px_def by (rule take_remove_slice [OF assms(2) n(1)], rule length_remove_slice [OF assms(2) n(1)])
  have q: "take (?n - 1) q = take idx (bs_q s) @ drop (Suc idx) (take ?n (bs_q s))" "length q = length (bs_q s)"
    unfolding q_def by (rule take_remove_slice [OF assms(2) n(2)], rule length_remove_slice [OF assms(2) n(2)])
  have eq: "side_remove idx s = s\<lparr>bs_n := ?n - 1, bs_px := px, bs_q := q\<rparr>"
    using assms by (simp add: side_remove_def Let_def px_def q_def)
  have "?n - 1 \<le> L" using assms(1) unfolding side_shape_def by arith
  then show ?thesis
    using assms px q by (simp add: eq side_shape_def side_rows_def take_zip drop_zip zip_append min_absorb1)
qed

lemma side_update_rows:
  assumes "side_shape L s" and "idx < bs_n s"
  shows "side_shape L (s\<lparr>bs_q := (bs_q s)[idx := qty]\<rparr>)
    \<and> side_rows (s\<lparr>bs_q := (bs_q s)[idx := qty]\<rparr>) = (side_rows s)[idx := (bs_px s ! idx, qty)]"
proof -
  let ?k = "take (bs_n s) (bs_px s)"
  have "?k[idx := bs_px s ! idx] = ?k"
    using list_update_id [of ?k idx] assms by simp
  with assms show ?thesis
    by (simp add: side_shape_def side_rows_def take_update_swap update_zip)
qed

section \<open>A side is a map\<close>

text \<open>Where the search splits sorted rows.\<close>

lemma takeWhile_take_drop:
  "take (length (takeWhile P xs)) xs = takeWhile P xs" "drop (length (takeWhile P xs)) xs = dropWhile P xs"
  by (induction xs) auto

lemma rows_ok_append:
  "rows_ok (a @ b) \<longleftrightarrow> rows_ok a \<and> rows_ok b \<and> (\<forall>x \<in> set a. \<forall>y \<in> set b. fst x < fst y)"
  by (auto simp: rows_ok_def sorted_wrt_append)

lemma rows_ok_Cons:
  "rows_ok (r # b) \<longleftrightarrow> 0 < snd r \<and> rows_ok b \<and> (\<forall>y \<in> set b. fst r < fst y)"
  by (auto simp: rows_ok_def)

lemma rows_ok_Nil [simp]: "rows_ok []"
  by (simp add: rows_ok_def)

lemma rows_split:
  assumes "rows_ok rows"
  shows "\<forall>r \<in> set (takeWhile (\<lambda>r. fst r < key) rows). fst r < key"
    and "\<forall>r \<in> set (dropWhile (\<lambda>r. fst r < key) rows). key \<le> fst r"
proof -
  show "\<forall>r \<in> set (takeWhile (\<lambda>r. fst r < key) rows). fst r < key" by (auto dest: set_takeWhileD)
  show "\<forall>r \<in> set (dropWhile (\<lambda>r. fst r < key) rows). key \<le> fst r"
  proof (cases "dropWhile (\<lambda>r. fst r < key) rows")
    case (Cons r b)
    then have "key \<le> fst r" using hd_dropWhile [of "\<lambda>r. fst r < key" rows] by force
    moreover have "rows_ok (r # b)"
      using assms takeWhile_dropWhile_id [of "\<lambda>r. fst r < key" rows] Cons
      by (metis rows_ok_append)
    ultimately show ?thesis using Cons by (force simp: rows_ok_Cons)
  next
    case Nil
    show ?thesis unfolding Nil by simp
  qed
qed

lemma map_of_below: "\<forall>r \<in> set a. fst r < key \<Longrightarrow> map_of a key = None"
  for a :: "(int \<times> int) list"
  by (force simp: map_of_eq_None_iff)

lemma map_of_above: "\<forall>r \<in> set a. key < fst r \<Longrightarrow> map_of a key = None"
  for a :: "(int \<times> int) list"
  by (force simp: map_of_eq_None_iff)

text \<open>The rows after an update, and the map they stand for.\<close>

definition upd_rows :: "nat \<Rightarrow> int \<Rightarrow> int \<Rightarrow> (int \<times> int) list \<Rightarrow> (int \<times> int) list" where
  "upd_rows L key qty rows =
     (let a = takeWhile (\<lambda>r. fst r < key) rows; b = dropWhile (\<lambda>r. fst r < key) rows;
          exists = (b \<noteq> [] \<and> fst (hd b) = key)
      in if qty \<le> 0 then (if exists then a @ tl b else rows)
         else if exists then a @ (key, qty) # tl b
         else if L \<le> length rows then rows else a @ (key, qty) # b)"

definition upd_map :: "nat \<Rightarrow> nat \<Rightarrow> int \<Rightarrow> int \<Rightarrow> (int \<rightharpoonup> int) \<Rightarrow> (int \<rightharpoonup> int)" where
  "upd_map L n key qty m =
     (if qty \<le> 0 then m(key := None)
      else if key \<in> dom m \<or> n < L then m(key \<mapsto> qty) else m)"

lemma upd_rows_ok:
  assumes "rows_ok rows"
  shows "rows_ok (upd_rows L key qty rows)"
    and "map_of (upd_rows L key qty rows) = upd_map L (length rows) key qty (map_of rows)"
proof -
  define a where "a = takeWhile (\<lambda>r. fst r < key) rows"
  define b where "b = dropWhile (\<lambda>r. fst r < key) rows"
  have rows: "rows = a @ b" by (simp add: a_def b_def)
  have ab: "rows_ok a" "rows_ok b" "\<forall>x \<in> set a. \<forall>y \<in> set b. fst x < fst y"
    using assms rows by (auto simp: rows_ok_append)
  have below: "\<forall>r \<in> set a. fst r < key" and above: "\<forall>r \<in> set b. key \<le> fst r"
    using rows_split [OF assms, of key] by (simp_all add: a_def b_def)
  have an: "map_of a key = None" using below by (rule map_of_below)
  show "rows_ok (upd_rows L key qty rows)"
  proof (cases "b \<noteq> [] \<and> fst (hd b) = key")
    case True
    then obtain r b' where b: "b = r # b'" "fst r = key" by (cases b) auto
    then show ?thesis
      using ab below assms
      by (auto simp: upd_rows_def Let_def a_def [symmetric] b_def [symmetric] rows_ok_append rows_ok_Cons)
  next
    case False
    then have strict: "\<forall>r \<in> set b. key < fst r"
      using above ab(2) by (cases b) (force simp: rows_ok_Cons)+
    then show ?thesis
      using False ab below assms
      by (auto simp: upd_rows_def Let_def a_def [symmetric] b_def [symmetric] rows_ok_append rows_ok_Cons)
  qed
  show "map_of (upd_rows L key qty rows) = upd_map L (length rows) key qty (map_of rows)"
  proof (cases "b \<noteq> [] \<and> fst (hd b) = key")
    case True
    then obtain q b' where b: "b = (key, q) # b'" by (cases b) auto
    have bn: "map_of b' key = None"
      using ab(2) b by (intro map_of_above) (auto simp: rows_ok_Cons)
    have m: "map_of rows = (map_of (a @ b'))(key \<mapsto> q)"
      using an by (auto simp: rows b map_add_def fun_eq_iff split: option.split)
    have m2: "map_of (a @ b') key = None" using an bn by (simp add: map_add_None)
    have "map_of (a @ (key, qty) # b') = (map_of (a @ b'))(key \<mapsto> qty)"
      using an bn by (auto simp: map_add_def fun_eq_iff split: option.split)
    moreover have "(map_of (a @ b'))(key := None) = map_of (a @ b')"
      using m2 by (rule fun_upd_idem)
    ultimately show ?thesis
      using True b
      by (simp add: upd_rows_def upd_map_def Let_def a_def [symmetric] b_def [symmetric] m del: map_of_append)
  next
    case False
    then have "\<forall>r \<in> set b. key < fst r"
      using above ab(2) by (cases b) (force simp: rows_ok_Cons)+
    then have bn: "map_of b key = None" by (rule map_of_above)
    have m: "map_of rows key = None" using an bn by (simp add: rows map_add_def)
    have "map_of (a @ (key, qty) # b) = (map_of rows)(key \<mapsto> qty)"
      using an bn by (auto simp: rows map_add_def fun_eq_iff split: option.split)
    moreover have "(map_of rows)(key := None) = map_of rows" using m by (rule fun_upd_idem)
    moreover have "key \<notin> dom (map_of rows)" using m by (simp add: domIff)
    ultimately show ?thesis
      using False
      by (auto simp: upd_rows_def upd_map_def Let_def a_def [symmetric] b_def [symmetric] simp del: map_of_append)
  qed
qed

lemma side_apply_rows:
  assumes "numpy_ok np" and "side_ok L s"
  shows "side_shape L (side_apply np L key qty s)
    \<and> side_rows (side_apply np L key qty s) = upd_rows L key qty (side_rows s)"
proof -
  let ?rows = "side_rows s"
  define a where "a = takeWhile (\<lambda>r. fst r < key) ?rows"
  define b where "b = dropWhile (\<lambda>r. fst r < key) ?rows"
  define idx where "idx = np_searchsorted np (take (bs_n s) (bs_px s)) key"
  have sh: "side_shape L s" and ok: "rows_ok ?rows" using assms(2) by (simp_all add: side_ok_def)
  have "sorted (take (bs_n s) (bs_px s))"
    using ok side_rows_keys [OF sh] by (simp add: rows_ok_def strict_sorted_iff)
  then have "idx = length (takeWhile (\<lambda>k. k < key) (map fst ?rows))"
    using assms(1) side_rows_keys [OF sh] by (simp add: numpy_ok_def idx_def)
  then have idx: "idx = length a" by (simp add: a_def takeWhile_map o_def)
  have rows: "?rows = a @ b" by (simp add: a_def b_def)
  have n: "bs_n s = length a + length b" using rows sh by (metis length_append side_rows_length)
  have td: "take idx ?rows = a" "drop idx ?rows = b" "drop (Suc idx) ?rows = tl b"
    by (simp_all add: rows idx drop_Suc)
  have ex: "(idx < bs_n s \<and> bs_px s ! idx = key) = (b \<noteq> [] \<and> fst (hd b) = key)"
  proof (cases b)
    case Nil
    then show ?thesis using n idx by simp
  next
    case (Cons r b')
    then have "idx < bs_n s" using n idx by simp
    then have "bs_px s ! idx = fst r"
      using side_rows_nth [OF sh, of idx] rows idx Cons by simp
    with Cons \<open>idx < bs_n s\<close> show ?thesis by simp
  qed
  have upd: "upd_rows L key qty ?rows =
     (if qty \<le> 0 then (if b \<noteq> [] \<and> fst (hd b) = key then a @ tl b else ?rows)
      else if b \<noteq> [] \<and> fst (hd b) = key then a @ (key, qty) # tl b
      else if L \<le> bs_n s then ?rows else a @ (key, qty) # b)"
    using sh by (simp add: upd_rows_def Let_def a_def [symmetric] b_def [symmetric])
  have app: "side_apply np L key qty s =
     (if qty \<le> 0 then (if b \<noteq> [] \<and> fst (hd b) = key then side_remove idx s else s)
      else if b \<noteq> [] \<and> fst (hd b) = key then s\<lparr>bs_q := (bs_q s)[idx := qty]\<rparr>
      else side_insert L idx key qty s)"
    by (simp add: side_apply_def Let_def idx_def [symmetric] ex)
  show ?thesis
  proof (cases "b \<noteq> [] \<and> fst (hd b) = key")
    case True
    then have lt: "idx < bs_n s" using ex by simp
    have "(side_rows s)[idx := (bs_px s ! idx, qty)] = a @ (key, qty) # tl b"
      using True ex rows idx by (cases b) (auto simp: list_update_append)
    with True side_remove_rows [OF sh lt] side_update_rows [OF sh lt, of qty] sh show ?thesis
      unfolding app upd by (simp add: td)
  next
    case False
    have "idx \<le> bs_n s" using n idx by simp
    with False side_insert_rows [OF sh this, of key qty] sh show ?thesis
      unfolding app upd by (auto simp: td side_insert_def)
  qed
qed

lemma side_apply_ok [inv_intros]:
  "numpy_ok np \<Longrightarrow> side_ok L s \<Longrightarrow> side_ok L (side_apply np L key qty s)"
  using side_apply_rows [of np L s key qty] upd_rows_ok(1) [of "side_rows s" L key qty]
  by (simp add: side_ok_def)

lemma side_apply_map:
  "numpy_ok np \<Longrightarrow> side_ok L s \<Longrightarrow>
     side_map (side_apply np L key qty s) = upd_map L (bs_n s) key qty (side_map s)"
  using side_apply_rows [of np L s key qty] upd_rows_ok(2) [of "side_rows s" L key qty]
    side_rows_length [of L s]
  by (simp add: side_ok_def side_map_def)

section \<open>Snapshot rows\<close>

lemma map_insort_key: "map f (insort_key (\<lambda>x. g (f x)) x xs) = insort_key g (f x) (map f xs)"
  by (induction xs) auto

lemma map_sort_key: "map f (sort_key (\<lambda>x. g (f x)) xs) = sort_key g (map f xs)"
  by (induction xs) (auto simp: map_insort_key)

lemma length_take_rows: "0 < L \<Longrightarrow> length (take_rows L rows) \<le> L"
  by (induction L rows rule: take_rows.induct) auto

lemma take_rows_positive: "r \<in> set (take_rows L rows) \<Longrightarrow> 0 < snd r \<and> r \<in> set rows"
  by (induction L rows rule: take_rows.induct) (auto split: if_splits)

lemma take_rows_eq: "length (filter (\<lambda>r. 0 < snd r) rows) \<le> L \<Longrightarrow> take_rows L rows = filter (\<lambda>r. 0 < snd r) rows"
proof (induction L rows rule: take_rows.induct)
  case (2 L price qty rows)
  show ?case
  proof (cases "qty \<le> 0 \<or> \<not> L \<le> 1")
    case True
    with 2 show ?thesis by (auto simp: not_le)
  next
    case False
    with 2(3) have "Suc (length (filter (\<lambda>r. 0 < snd r) rows)) \<le> L" "L \<le> 1" by simp_all
    then have "length (filter (\<lambda>r. 0 < snd r) rows) = 0" by linarith
    then have "filter (\<lambda>r. 0 < snd r) rows = []" by (rule length_0_conv [THEN iffD1])
    with False show ?thesis by simp
  qed
qed simp

lemma distinct_take_rows:
  "distinct (map fst rows) \<Longrightarrow> distinct (map fst (take_rows L rows))"
  by (induction L rows rule: take_rows.induct)
    (auto dest!: take_rows_positive simp: image_iff)

definition keyed_rows :: "(int \<Rightarrow> int) \<Rightarrow> (int \<times> int) list \<Rightarrow> (int \<times> int) list" where
  "keyed_rows to_key rows = map (\<lambda>r. (to_key (fst r), snd r)) rows"

lemma fill_side_rows:
  assumes "numpy_ok np" and "0 < L" and "side_shape L s" and "bs_n s = 0"
  shows "side_shape L (fill_side np L to_key rows s)
    \<and> side_rows (fill_side np L to_key rows s) = sort_key fst (keyed_rows to_key (take_rows L rows))"
proof (cases "take_rows L rows = []")
  case True
  then show ?thesis
    using assms by (simp add: fill_side_def Let_def side_rows_def keyed_rows_def)
next
  case False
  let ?good = "take_rows L rows" and ?s = "fill_side np L to_key rows s"
  let ?px = "map (\<lambda>r. to_key (fst r)) ?good" and ?q = "map snd ?good"
  let ?k = "length ?good"
  define order where "order = sort_key (\<lambda>i. ?px ! i) [0 ..< ?k]"
  have len: "?k \<le> L" using length_take_rows [OF assms(2)] .
  have arg: "np_argsort np ?px = order" using assms(1) by (simp add: numpy_ok_def order_def)
  have eq: "?s = s\<lparr>bs_px := map (\<lambda>i. ?px ! i) order @ drop ?k (bs_px s),
      bs_q := map (\<lambda>i. ?q ! i) order @ drop ?k (bs_q s), bs_n := ?k\<rparr>"
    using False by (simp add: fill_side_def Let_def arg slice_assign_def)
  have ol: "length order = ?k" by (simp add: order_def)
  have "side_rows ?s = map (\<lambda>i. (?px ! i, ?q ! i)) order"
    using ol by (simp add: eq side_rows_def zip_map_map zip_same_conv_map)
  also have "\<dots> = sort_key fst (map (\<lambda>i. (?px ! i, ?q ! i)) [0 ..< ?k])"
    unfolding order_def using map_sort_key [of "\<lambda>i. (?px ! i, ?q ! i)" fst "[0 ..< ?k]"] by simp
  also have "map (\<lambda>i. (?px ! i, ?q ! i)) [0 ..< ?k] = keyed_rows to_key ?good"
    by (rule nth_equalityI) (simp_all add: keyed_rows_def)
  finally have "side_rows ?s = sort_key fst (keyed_rows to_key ?good)" .
  moreover have "side_shape L ?s" using assms(3) ol len by (simp add: eq side_shape_def)
  ultimately show ?thesis by simp
qed

lemma fill_side_ok [inv_intros]:
  assumes "numpy_ok np" and "0 < L" and "side_shape L s" and "bs_n s = 0"
    and "inj to_key" and "distinct (map fst rows)"
  shows "side_ok L (fill_side np L to_key rows s)"
    and "side_map (fill_side np L to_key rows s) = map_of (keyed_rows to_key (take_rows L rows))"
proof -
  let ?r = "keyed_rows to_key (take_rows L rows)"
  note f = fill_side_rows [OF assms(1-4), of to_key rows]
  have d: "distinct (map fst ?r)"
    using distinct_take_rows [OF assms(6), of L] assms(5)
    by (auto simp: keyed_rows_def o_def distinct_map inj_on_def)
  have "distinct (map fst (sort_key fst ?r))"
    using d by (simp add: distinct_map)
  then have "sorted_wrt (<) (map fst (sort_key fst ?r))"
    by (simp add: strict_sorted_iff)
  moreover have "\<forall>r \<in> set (sort_key fst ?r). 0 < snd r"
    by (auto simp: keyed_rows_def dest: take_rows_positive)
  ultimately show "side_ok L (fill_side np L to_key rows s)"
    using f by (simp add: side_ok_def rows_ok_def)
  show "side_map (fill_side np L to_key rows s) = map_of ?r"
    using f d by (simp add: side_map_def) (metis map_of_eqI distinct_map dom_map_of_conv_image_fst map_of_inject_set
        set_sort \<open>distinct (map fst (sort_key fst ?r))\<close>)
qed

end
