(* ===== verification/Interfaces.thy ===== *)
theory Interfaces
  imports Prelude
begin

text \<open>
  The contracts that several components share, as locales: a bounded log (a ring buffer
  read as the last elements pushed into it) and a cooldown gate (a component that answers
  at most once per key and cooldown).  The theories of the components that provide them
  interpret them on the model's own definitions; the lemmas here are what those
  components' properties rest on.
\<close>

section \<open>Bounded logs\<close>

locale bounded_log =
  fixes push :: "'a \<Rightarrow> 's \<Rightarrow> 's"
    and view :: "'s \<Rightarrow> 'a list"
    and cap :: "'s \<Rightarrow> nat"
    and ok :: "'s \<Rightarrow> bool"
  assumes ok_push: "ok s \<Longrightarrow> ok (push x s)"
    and cap_push: "ok s \<Longrightarrow> cap (push x s) = cap s"
    and view_push: "ok s \<Longrightarrow> view (push x s) = lastn (cap s) (view s @ [x])"
    and view_cap: "ok s \<Longrightarrow> length (view s) \<le> cap s"
begin

lemma ok_pushes: "ok s \<Longrightarrow> ok (fold push xs s)"
  by (induction xs arbitrary: s) (auto simp: ok_push)

lemma cap_pushes: "ok s \<Longrightarrow> cap (fold push xs s) = cap s"
  by (induction xs arbitrary: s) (auto simp: ok_push cap_push)

lemma view_pushes: "ok s \<Longrightarrow> view (fold push xs s) = lastn (cap s) (view s @ xs)"
proof (induction xs arbitrary: s)
  case Nil
  then show ?case using view_cap by simp
next
  case (Cons x xs)
  have "view (fold push xs (push x s)) = lastn (cap s) (lastn (cap s) (view s @ [x]) @ xs)"
    using Cons by (simp add: ok_push cap_push view_push)
  then show ?case by (simp add: lastn_lastn_append)
qed

end

section \<open>Cooldown gates\<close>

text \<open>
  The detectors and the rate limiter keep, per key, the time of the last answer, and
  answer only when that is at least the cooldown ago.  Two consecutive answers for one
  key are then at least the cooldown apart, whatever events come between.
\<close>

definition spaced :: "real \<Rightarrow> real list \<Rightarrow> bool" where
  "spaced c ts \<longleftrightarrow> successively (\<lambda>a b. c \<le> b - a) ts"

lemma spaced_simps [simp]:
  "spaced c []"
  "spaced c [t]"
  "spaced c (t # u # ts) \<longleftrightarrow> c \<le> u - t \<and> spaced c (u # ts)"
  by (auto simp: spaced_def)

definition answered :: "('e \<times> 'a option) list \<Rightarrow> 'e list" where
  "answered tr = map fst (filter (\<lambda>(_, a). a \<noteq> None) tr)"

definition fire_times ::
  "('s \<Rightarrow> 'e \<Rightarrow> 's \<times> 'a option) \<Rightarrow> ('e \<Rightarrow> 'k) \<Rightarrow> ('e \<Rightarrow> real) \<Rightarrow> 'k \<Rightarrow> 's \<Rightarrow> 'e list \<Rightarrow> real list" where
  "fire_times step key stamp k s es =
     map stamp (filter (\<lambda>e. key e = k) (answered (run_log step s es)))"

lemma fire_times_Nil [simp]: "fire_times step key stamp k s [] = []"
  by (simp add: fire_times_def answered_def)

lemma fire_times_Cons [simp]:
  "fire_times step key stamp k s (e # es) =
     (if snd (step s e) \<noteq> None \<and> key e = k then [stamp e] else [])
       @ fire_times step key stamp k (fst (step s e)) es"
  by (simp add: fire_times_def answered_def)

locale cooldown_gate =
  fixes step :: "'s \<Rightarrow> 'e \<Rightarrow> 's \<times> 'a option"
    and key :: "'e \<Rightarrow> 'k"
    and stamp :: "'e \<Rightarrow> real"
    and lasts :: "'s \<Rightarrow> 'k \<Rightarrow> real option"
    and cooldown :: "'s \<Rightarrow> real"
  assumes cooldown_step: "cooldown (fst (step s e)) = cooldown s"
    and silent: "snd (step s e) = None \<Longrightarrow> lasts (fst (step s e)) = lasts s"
    and fires: "snd (step s e) \<noteq> None \<Longrightarrow> lasts (fst (step s e)) = (lasts s)(key e \<mapsto> stamp e)"
    and fires_late: "snd (step s e) \<noteq> None \<Longrightarrow> lasts s (key e) = Some t \<Longrightarrow> cooldown s \<le> stamp e - t"
begin

lemma spaced_from_last:
  "spaced (cooldown s) ((case lasts s k of None \<Rightarrow> [] | Some t \<Rightarrow> [t]) @ fire_times step key stamp k s es)"
proof (induction es arbitrary: s)
  case Nil
  then show ?case by (simp split: option.split)
next
  case (Cons e es)
  let ?s = "fst (step s e)"
  have ih: "spaced (cooldown s) ((case lasts ?s k of None \<Rightarrow> [] | Some t \<Rightarrow> [t]) @ fire_times step key stamp k ?s es)"
    using Cons [of ?s] by (simp add: cooldown_step)
  show ?case
  proof (cases "snd (step s e) \<noteq> None \<and> key e = k")
    case True
    then have "lasts ?s k = Some (stamp e)" using fires [of s e] by simp
    with ih True fires_late [of s e] show ?thesis by (simp split: option.split)
  next
    case False
    have "lasts ?s k = lasts s k"
      using False fires [of s e] silent [of s e] by (cases "snd (step s e) = None") auto
    with ih False show ?thesis by auto
  qed
qed

theorem fires_spaced: "spaced (cooldown s) (fire_times step key stamp k s es)"
  using spaced_from_last [of s k es] by (auto split: option.splits simp: spaced_def successively_Cons)

end

section \<open>Isolation of keys\<close>

text \<open>
  A component that keeps its state per symbol answers an event of one symbol from that
  symbol's state alone.  \<open>agree k s s'\<close> says that two states hold the same for the key
  \<open>k\<close>; the answers for a key in any interleaving are then the answers to that key's
  events alone.
\<close>

locale isolated =
  fixes step :: "'s \<Rightarrow> 'e \<Rightarrow> 's \<times> 'a"
    and key :: "'e \<Rightarrow> 'k"
    and agree :: "'k \<Rightarrow> 's \<Rightarrow> 's \<Rightarrow> bool"
  assumes agree_refl: "agree k s s"
    and same_answer: "agree (key e) s s' \<Longrightarrow> snd (step s e) = snd (step s' e)"
    and same_state: "agree (key e) s s' \<Longrightarrow> agree (key e) (fst (step s e)) (fst (step s' e))"
    and other_state: "key e \<noteq> k \<Longrightarrow> agree k s s' \<Longrightarrow> agree k (fst (step s e)) s'"
begin

lemma run_agree: "agree k s s' \<Longrightarrow>
    agree k (run_final step s es) (run_final step s' (filter (\<lambda>e. key e = k) es))"
  by (induction es arbitrary: s s') (auto intro: same_state other_state)

lemma log_agree: "agree k s s' \<Longrightarrow>
    filter (\<lambda>(e, a). key e = k) (run_log step s es) = run_log step s' (filter (\<lambda>e. key e = k) es)"
  by (induction es arbitrary: s s') (auto intro: same_answer same_state other_state)

theorem answers_isolated:
  "filter (\<lambda>(e, a). key e = k) (run_log step s es) = run_log step s (filter (\<lambda>e. key e = k) es)"
  by (rule log_agree [OF agree_refl])

end

end
