(* ===== verification/Delta_Ring.thy ===== *)
theory Delta_Ring
  imports Interfaces "HOL-Library.Word"
begin

unbundle bit_operations_syntax

text \<open>
  The two rings of the L2 engine: the shared-memory ring of delta frames with its seqlock
  (\<open>SHMDeltaRingBuffer\<close> in \<open>src/src/infrastructure/gektor_l2/nd_orderbook.py\<close>) and the
  blind top-of-book ring (\<open>src/src/infrastructure/gektor_l2/conflation.py\<close>).  The ctypes
  fields keep their width: 64-bit words for ids, indices and the epoch, 32-bit words for
  the counts, two's complement for the signed ones.  A writer is the list of its single
  stores, so that a reader may look at the memory between any two of them.
\<close>

section \<open>Frames\<close>

type_synonym level = "64 word \<times> 64 word"

record delta_frame =
  fr_u :: "64 word"
  fr_range :: "64 word"
  fr_seq :: "64 word"
  fr_bid_count :: "32 word"
  fr_ask_count :: "32 word"
  fr_bids :: "level list"
  fr_asks :: "level list"

record delta_ring =
  rg_epoch :: "64 word"
  rg_head :: "64 word"
  rg_tail :: "64 word"
  rg_frames :: "nat \<Rightarrow> delta_frame"

text \<open>What a caller hands to the ring and what it reads back.\<close>

record delta_msg =
  dm_u :: int
  dm_range :: "int option"
  dm_seq :: "int option"
  dm_bids :: "(int \<times> int) list"
  dm_asks :: "(int \<times> int) list"

definition ring_capacity :: nat where "ring_capacity = 65536"

text \<open>\<open>index & BUFFER_MASK\<close>\<close>

definition slot :: "64 word \<Rightarrow> nat" where
  "slot i = unat (i AND 65535)"

definition blank_frame :: delta_frame where
  "blank_frame = \<lparr>fr_u = 0, fr_range = 0, fr_seq = 0, fr_bid_count = 0, fr_ask_count = 0,
                  fr_bids = replicate 50 (0, 0), fr_asks = replicate 50 (0, 0)\<rparr>"

definition empty_ring :: delta_ring where
  "empty_ring = \<lparr>rg_epoch = 0, rg_head = 0, rg_tail = 0, rg_frames = (\<lambda>_. blank_frame)\<rparr>"

section \<open>Writing\<close>

definition to_level :: "int \<times> int \<Rightarrow> level" where
  "to_level row = (word_of_int (fst row), word_of_int (snd row))"

text \<open>The first fifty rows overwrite the frame's array from its start.\<close>

definition put_levels :: "(int \<times> int) list \<Rightarrow> level list \<Rightarrow> level list" where
  "put_levels rows old = map to_level (take 50 rows) @ drop (min (length rows) 50) old"

definition on_frame :: "64 word \<Rightarrow> (delta_frame \<Rightarrow> delta_frame) \<Rightarrow> delta_ring \<Rightarrow> delta_ring" where
  "on_frame h f r = r\<lparr>rg_frames := (rg_frames r)(slot h := f (rg_frames r (slot h)))\<rparr>"

definition bump_epoch :: "delta_ring \<Rightarrow> delta_ring" where
  "bump_epoch r = r\<lparr>rg_epoch := rg_epoch r + 1\<rparr>"

text \<open>The stores of \<open>write_frame\<close> between its two bumps of the epoch; \<open>head\<close> and \<open>tail\<close> are
  the values it read before them.\<close>

definition frame_stores :: "64 word \<Rightarrow> 64 word \<Rightarrow> delta_msg \<Rightarrow> (delta_ring \<Rightarrow> delta_ring) list" where
  "frame_stores head tail m =
     [\<lambda>r. if int ring_capacity \<le> uint head - uint tail then r\<lparr>rg_tail := tail + 1\<rparr> else r,
      on_frame head (\<lambda>f. f\<lparr>fr_u := word_of_int (dm_u m)\<rparr>),
      on_frame head (\<lambda>f. f\<lparr>fr_range := (case dm_range m of None \<Rightarrow> -1 | Some x \<Rightarrow> word_of_int x)\<rparr>),
      on_frame head (\<lambda>f. f\<lparr>fr_seq := (case dm_seq m of None \<Rightarrow> 0 | Some x \<Rightarrow> word_of_int x)\<rparr>),
      on_frame head (\<lambda>f. f\<lparr>fr_bid_count := word_of_nat (min (length (dm_bids m)) 50)\<rparr>),
      on_frame head (\<lambda>f. f\<lparr>fr_bids := put_levels (dm_bids m) (fr_bids f)\<rparr>),
      on_frame head (\<lambda>f. f\<lparr>fr_ask_count := word_of_nat (min (length (dm_asks m)) 50)\<rparr>),
      on_frame head (\<lambda>f. f\<lparr>fr_asks := put_levels (dm_asks m) (fr_asks f)\<rparr>),
      \<lambda>r. r\<lparr>rg_head := head + 1\<rparr>]"

definition write_stores :: "delta_ring \<Rightarrow> delta_msg \<Rightarrow> (delta_ring \<Rightarrow> delta_ring) list" where
  "write_stores r m = bump_epoch # frame_stores (rg_head r) (rg_tail r) m @ [bump_epoch]"

definition write_frame :: "delta_msg \<Rightarrow> delta_ring \<Rightarrow> delta_ring" where
  "write_frame m r = fold (\<lambda>f. f) (write_stores r m) r"

section \<open>Reading\<close>

definition from_level :: "level \<Rightarrow> int \<times> int" where
  "from_level l = (sint (fst l), sint (snd l))"

definition read_msg :: "delta_frame \<Rightarrow> delta_msg" where
  "read_msg f =
     \<lparr>dm_u = uint (fr_u f),
      dm_range = (if sint (fr_range f) \<noteq> -1 then Some (sint (fr_range f)) else None),
      dm_seq = (if fr_seq f \<noteq> 0 then Some (uint (fr_seq f)) else None),
      dm_bids = map from_level (take (unat (fr_bid_count f)) (fr_bids f)),
      dm_asks = map from_level (take (unat (fr_ask_count f)) (fr_asks f))\<rparr>"

text \<open>
  One round of the bounded spin of \<open>read_next_frame\<close> with no writer in between: an odd
  epoch never yields; otherwise the round returns.
\<close>

definition read_next_frame :: "delta_ring \<Rightarrow> delta_ring \<times> delta_msg option" where
  "read_next_frame r =
     (if odd (uint (rg_epoch r)) then (r, None)
      else if rg_tail r = rg_head r then (r, None)
      else (r\<lparr>rg_tail := rg_tail r + 1\<rparr>, Some (read_msg (rg_frames r (slot (rg_tail r))))))"

text \<open>The scan of \<open>fast_forward_splice\<close> from the tail; \<open>n\<close> frames are left.\<close>

fun find_frame :: "delta_ring \<Rightarrow> int \<Rightarrow> 64 word \<Rightarrow> nat \<Rightarrow> 64 word option" where
  "find_frame r u cur 0 = None"
| "find_frame r u cur (Suc n) =
     (if u \<le> uint (fr_u (rg_frames r (slot cur))) then Some cur else find_frame r u (cur + 1) n)"

definition fast_forward_splice :: "int \<Rightarrow> delta_ring \<Rightarrow> delta_ring \<times> bool" where
  "fast_forward_splice u r =
     (if odd (uint (rg_epoch r)) then (r, False)
      else if rg_head r = rg_tail r then (r, False)
      else if u < uint (fr_u (rg_frames r (slot (rg_tail r)))) then (r, False)
      else if uint (fr_u (rg_frames r (slot (rg_head r - 1)))) < u then (r, False)
      else (case find_frame r u (rg_tail r) (unat (rg_head r - rg_tail r)) of
              None \<Rightarrow> (r, False)
            | Some t \<Rightarrow> (r\<lparr>rg_tail := t\<rparr>, True)))"

section \<open>Single-threaded behaviour\<close>

lemma slot_mod: "slot w = unat w mod ring_capacity"
proof -
  have "w AND 65535 = take_bit 16 w" by (simp add: take_bit_eq_mask mask_eq_exp_minus_1)
  then have "slot w = take_bit 16 (unat w)" by (simp only: slot_def unsigned_take_bit_eq)
  then show ?thesis by (simp add: ring_capacity_def take_bit_eq_mod)
qed

lemma slot_less: "slot w < ring_capacity"
  by (simp add: slot_mod ring_capacity_def)

definition stored_frame :: "delta_msg \<Rightarrow> delta_frame \<Rightarrow> delta_frame" where
  "stored_frame m f =
     f\<lparr>fr_u := word_of_int (dm_u m),
       fr_range := (case dm_range m of None \<Rightarrow> -1 | Some x \<Rightarrow> word_of_int x),
       fr_seq := (case dm_seq m of None \<Rightarrow> 0 | Some x \<Rightarrow> word_of_int x),
       fr_bid_count := word_of_nat (min (length (dm_bids m)) 50),
       fr_bids := put_levels (dm_bids m) (fr_bids f),
       fr_ask_count := word_of_nat (min (length (dm_asks m)) 50),
       fr_asks := put_levels (dm_asks m) (fr_asks f)\<rparr>"

lemma write_frame_eq:
  "write_frame m r =
     r\<lparr>rg_epoch := rg_epoch r + 2,
       rg_tail := (if int ring_capacity \<le> uint (rg_head r) - uint (rg_tail r) then rg_tail r + 1 else rg_tail r),
       rg_head := rg_head r + 1,
       rg_frames := (rg_frames r)(slot (rg_head r) := stored_frame m (rg_frames r (slot (rg_head r))))\<rparr>"
  by (simp add: write_frame_def write_stores_def frame_stores_def bump_epoch_def on_frame_def stored_frame_def)

text \<open>What survives a trip through a frame: fifty rows a side, each value in two's complement,
  and no range of -1 or sequence number 0.\<close>

definition wrap64 :: "int \<Rightarrow> int" where
  "wrap64 x = sint (word_of_int x :: 64 word)"

definition msg_fits :: "delta_msg \<Rightarrow> bool" where
  "msg_fits m \<longleftrightarrow> 0 \<le> dm_u m \<and> dm_u m < 2 ^ 64
     \<and> (\<forall>x. dm_range m = Some x \<longrightarrow> 0 \<le> x \<and> x < 2 ^ 63)
     \<and> (\<forall>x. dm_seq m = Some x \<longrightarrow> 0 < x \<and> x < 2 ^ 64)
     \<and> list_all (\<lambda>(p, v). - (2 ^ 63) \<le> p \<and> p < 2 ^ 63 \<and> - (2 ^ 63) \<le> v \<and> v < 2 ^ 63) (dm_bids m @ dm_asks m)"

definition clipped :: "delta_msg \<Rightarrow> delta_msg" where
  "clipped m = m\<lparr>dm_bids := take 50 (dm_bids m), dm_asks := take 50 (dm_asks m)\<rparr>"

lemma sint_word_of_int_64: "- (2 ^ 63) \<le> x \<Longrightarrow> x < 2 ^ 63 \<Longrightarrow> sint (word_of_int x :: 64 word) = x"
  by (simp add: signed_of_int signed_take_bit_int_eq_self)

lemma uint_word_of_int_64: "0 \<le> x \<Longrightarrow> x < 2 ^ 64 \<Longrightarrow> uint (word_of_int x :: 64 word) = x"
  by (simp add: uint_word_of_int take_bit_int_eq_self)

lemma unat_count: "unat (word_of_nat (min n 50) :: 32 word) = min n 50"
  by (simp add: unat_of_nat take_bit_nat_eq_self)

lemma from_to_level:
  "- (2 ^ 63) \<le> fst row \<Longrightarrow> fst row < 2 ^ 63 \<Longrightarrow> - (2 ^ 63) \<le> snd row \<Longrightarrow> snd row < 2 ^ 63 \<Longrightarrow>
     from_level (to_level row) = row"
  by (simp add: from_level_def to_level_def sint_word_of_int_64 prod_eq_iff)

lemma read_put_levels:
  assumes "list_all (\<lambda>(p, v). - (2 ^ 63) \<le> p \<and> p < 2 ^ 63 \<and> - (2 ^ 63) \<le> v \<and> v < 2 ^ 63) rows"
  shows "map from_level (take (min (length rows) 50) (put_levels rows old)) = take 50 rows"
proof -
  have "map (from_level \<circ> to_level) (take 50 rows) = take 50 rows"
    using assms by (intro map_idI) (auto simp: list_all_iff from_to_level dest!: in_set_takeD)
  then show ?thesis by (simp add: put_levels_def)
qed

lemma read_stored_frame: "msg_fits m \<Longrightarrow> read_msg (stored_frame m f) = clipped m"
  unfolding msg_fits_def list_all_append
  by (cases m)
    (auto simp: read_msg_def stored_frame_def clipped_def uint_word_of_int_64 sint_word_of_int_64 unat_count
      read_put_levels word_of_int_eq_0_iff split: option.split dest: zdvd_imp_le)

section \<open>The ring is a bounded queue\<close>

definition pending :: "delta_ring \<Rightarrow> delta_msg list" where
  "pending r = map (\<lambda>i. read_msg (rg_frames r (i mod ring_capacity))) [unat (rg_tail r) ..< unat (rg_head r)]"

definition ring_ok :: "delta_ring \<Rightarrow> bool" where
  "ring_ok r \<longleftrightarrow> even (uint (rg_epoch r)) \<and> rg_tail r \<le> rg_head r
     \<and> unat (rg_head r) - unat (rg_tail r) \<le> ring_capacity"

lemma ring_capacity_pos [simp]: "0 < ring_capacity"
  by (simp add: ring_capacity_def)

lemma slot_apart: "i < h \<Longrightarrow> h - i < ring_capacity \<Longrightarrow> i mod ring_capacity \<noteq> h mod ring_capacity"
  by (metis mod_eq_dvd_iff_nat less_imp_le nat_dvd_not_less zero_less_diff)

lemma unat_Suc: "unat w + 1 < 2 ^ 64 \<Longrightarrow> unat (w + 1) = Suc (unat w)" for w :: "64 word"
  by (simp add: unat_word_ariths)

lemma even_epoch_step: "even (uint (w + 2)) = even (uint w)" for w :: "64 word"
  by (simp add: uint_word_ariths dvd_mod_iff)

lemma lastn_map_upt: "t \<le> h \<Longrightarrow> lastn n (map f [t ..< h]) = map f [max t (h - n) ..< h]"
proof -
  assume "t \<le> h"
  then have "t + (h - t - n) = max t (h - n)" by arith
  then show ?thesis by (simp add: lastn_def drop_map drop_upt)
qed

lemma write_frame_pending:
  assumes "ring_ok r" and "unat (rg_head r) + 1 < 2 ^ 64" and "msg_fits m"
  shows "pending (write_frame m r) = lastn ring_capacity (pending r @ [clipped m])
    \<and> ring_ok (write_frame m r) \<and> unat (rg_head (write_frame m r)) = Suc (unat (rg_head r))"
proof -
  let ?h = "unat (rg_head r)" and ?t = "unat (rg_tail r)"
  define t' where "t' = (if ring_capacity \<le> ?h - ?t then Suc ?t else ?t)"
  have th: "?t \<le> ?h" "?h - ?t \<le> ring_capacity"
    using assms(1) by (auto simp: ring_ok_def word_le_nat_alt)
  have full: "int ring_capacity \<le> uint (rg_head r) - uint (rg_tail r) \<longleftrightarrow> ring_capacity \<le> ?h - ?t"
  proof -
    have "uint (rg_head r) - uint (rg_tail r) = int (?h - ?t)"
      using th(1) by (simp add: of_nat_diff)
    then show ?thesis by (simp only: of_nat_le_iff)
  qed
  have tail: "unat (rg_tail (write_frame m r)) = t'"
    using assms(2) th full by (auto simp: write_frame_eq t'_def unat_Suc)
  have head: "unat (rg_head (write_frame m r)) = Suc ?h"
    using assms(2) by (simp add: write_frame_eq unat_Suc)
  have t': "?t \<le> t'" "t' \<le> ?h" "?h - t' < ring_capacity" "t' = max ?t (Suc ?h - ring_capacity)"
    using th by (auto simp: t'_def ring_capacity_def)
  have old: "read_msg (rg_frames (write_frame m r) (i mod ring_capacity)) = read_msg (rg_frames r (i mod ring_capacity))"
    if "t' \<le> i" "i < ?h" for i
  proof -
    have "i mod ring_capacity \<noteq> ?h mod ring_capacity"
      using that t'(3) by (intro slot_apart) linarith+
    then show ?thesis by (simp add: write_frame_eq slot_mod)
  qed
  have new: "read_msg (rg_frames (write_frame m r) (?h mod ring_capacity)) = clipped m"
    by (simp add: write_frame_eq slot_mod read_stored_frame assms(3))
  have "pending (write_frame m r)
      = map (\<lambda>i. read_msg (rg_frames r (i mod ring_capacity))) [t' ..< ?h] @ [clipped m]"
    unfolding pending_def tail head using t' old new by simp
  also have "map (\<lambda>i. read_msg (rg_frames r (i mod ring_capacity))) [t' ..< ?h]
      = lastn (ring_capacity - 1) (pending r)"
    using th by (simp add: pending_def lastn_map_upt t' Suc_diff_le le_SucI ring_capacity_def)
  finally have "pending (write_frame m r) = lastn ring_capacity (pending r @ [clipped m])"
    by (simp add: lastn_append ring_capacity_def)
  moreover have "ring_ok (write_frame m r)"
  proof -
    have "Suc ?h - t' \<le> ring_capacity" "t' \<le> Suc ?h" using t'(2,3) by linarith+
    moreover have "even (uint (rg_epoch (write_frame m r)))"
      using assms(1) by (simp add: ring_ok_def even_epoch_step write_frame_eq)
    ultimately show ?thesis using tail head by (simp add: ring_ok_def word_le_nat_alt)
  qed
  ultimately show ?thesis using head by simp
qed

lemma read_next_frame_pending:
  assumes "ring_ok r"
  shows "case pending r of
      [] \<Rightarrow> read_next_frame r = (r, None)
    | m # ms \<Rightarrow> snd (read_next_frame r) = Some m \<and> pending (fst (read_next_frame r)) = ms
        \<and> ring_ok (fst (read_next_frame r)) \<and> rg_head (fst (read_next_frame r)) = rg_head r"
proof (cases "rg_tail r = rg_head r")
  case True
  then show ?thesis using assms by (simp add: pending_def read_next_frame_def)
next
  case False
  then have "rg_tail r < rg_head r"
    using assms by (simp add: ring_ok_def order.not_eq_order_implies_strict)
  then have lt: "unat (rg_tail r) < unat (rg_head r)" by (simp add: word_less_nat_alt)
  then have "unat (rg_tail r) + 1 < 2 ^ 64"
  proof -
    have "unat (rg_head r) < 2 ^ LENGTH(64)" by (rule unsigned_less)
    with lt show ?thesis by simp
  qed
  then have tl: "unat (rg_tail r + 1) = Suc (unat (rg_tail r))" by (rule unat_Suc)
  have "[unat (rg_tail r) ..< unat (rg_head r)] = unat (rg_tail r) # [Suc (unat (rg_tail r)) ..< unat (rg_head r)]"
    using lt by (simp add: upt_conv_Cons)
  then show ?thesis
    using False lt assms
    by (auto simp: pending_def read_next_frame_def ring_ok_def tl slot_mod word_le_nat_alt)
qed

text \<open>The queue the ring implements: a write appends, and drops the oldest of a full queue.\<close>

datatype ring_op = WriteOp delta_msg | ReadOp

fun ring_step :: "delta_ring \<Rightarrow> ring_op \<Rightarrow> delta_ring \<times> delta_msg option" where
  "ring_step r (WriteOp m) = (write_frame m r, None)"
| "ring_step r ReadOp = read_next_frame r"

fun queue_step :: "delta_msg list \<Rightarrow> ring_op \<Rightarrow> delta_msg list \<times> delta_msg option" where
  "queue_step ms (WriteOp m) = (lastn ring_capacity (ms @ [clipped m]), None)"
| "queue_step [] ReadOp = ([], None)"
| "queue_step (m # ms) ReadOp = (ms, Some m)"

fun op_fits :: "ring_op \<Rightarrow> bool" where
  "op_fits (WriteOp m) = msg_fits m"
| "op_fits ReadOp = True"

lemma ring_step_sim:
  assumes "ring_ok r" and "unat (rg_head r) + 1 < 2 ^ 64" and "op_fits op"
  shows "snd (ring_step r op) = snd (queue_step (pending r) op)
    \<and> pending (fst (ring_step r op)) = fst (queue_step (pending r) op)
    \<and> ring_ok (fst (ring_step r op)) \<and> unat (rg_head (fst (ring_step r op))) \<le> Suc (unat (rg_head r))"
proof (cases op)
  case (WriteOp m)
  with write_frame_pending [OF assms(1,2), of m] assms(3) show ?thesis by simp
next
  case ReadOp
  with read_next_frame_pending [OF assms(1)] assms(1) show ?thesis
    by (auto split: list.splits)
qed

lemma ring_run_sim:
  assumes "ring_ok r" and "unat (rg_head r) + length ops < 2 ^ 64" and "list_all op_fits ops"
  shows "map snd (run_log ring_step r ops) = map snd (run_log queue_step (pending r) ops)
    \<and> pending (run_final ring_step r ops) = run_final queue_step (pending r) ops"
  using assms
proof (induction ops arbitrary: r)
  case (Cons op ops)
  from Cons.prems have "unat (rg_head r) + 1 < 2 ^ 64" by simp
  from ring_step_sim [OF Cons.prems(1) this, of op] Cons.prems Cons.IH [of "fst (ring_step r op)"]
  show ?case by simp
qed simp

text \<open>C14: for fewer than 2^64 operations on values that fit their fields, the shared-memory
  ring is a bounded queue: every read gets the oldest message still held, in order, cut to
  fifty levels a side, and a write on a full ring drops the oldest.\<close>

theorem delta_ring_is_queue:
  assumes "length ops < 2 ^ 64" and "list_all op_fits ops"
  shows "map snd (run_log ring_step empty_ring ops) = map snd (run_log queue_step [] ops)"
proof -
  have "pending empty_ring = []" "ring_ok empty_ring"
    by (simp_all add: pending_def ring_ok_def empty_ring_def)
  then show ?thesis
    using ring_run_sim [of empty_ring ops] assms by (simp add: empty_ring_def)
qed

definition demo_msg :: "int \<Rightarrow> delta_msg" where
  "demo_msg u = \<lparr>dm_u = u, dm_range = Some u, dm_seq = None, dm_bids = [(10, 5)], dm_asks = [(-3, 0)]\<rparr>"

theorem delta_ring_is_queue_witness:
  "map snd (run_log ring_step empty_ring [WriteOp (demo_msg 7), WriteOp (demo_msg 8), ReadOp, ReadOp, ReadOp])
   = [None, None, Some (demo_msg 7), Some (demo_msg 8), None]"
  using delta_ring_is_queue [of "[WriteOp (demo_msg 7), WriteOp (demo_msg 8), ReadOp, ReadOp, ReadOp]"]
  by (simp add: demo_msg_def msg_fits_def clipped_def lastn_def ring_capacity_def)

section \<open>A reader between the writer's stores\<close>

text \<open>
  The memory a reader can see while a writer writes messages one after the other: the
  state before and after every single store.
\<close>

fun store_trace :: "(delta_ring \<Rightarrow> delta_ring) list \<Rightarrow> delta_ring \<Rightarrow> delta_ring list" where
  "store_trace [] r = []"
| "store_trace (f # fs) r = r # store_trace fs (f r)"

fun writer_trace :: "delta_ring \<Rightarrow> delta_msg list \<Rightarrow> delta_ring list" where
  "writer_trace r [] = [r]"
| "writer_trace r (m # ms) = store_trace (write_stores r m) r @ writer_trace (write_frame m r) ms"

text \<open>
  One round of the reader's spin, each group of loads at a moment of its own: the epoch,
  the indices, the scalar fields, the two arrays and the epoch again.
\<close>

definition spin_round ::
  "delta_ring \<Rightarrow> delta_ring \<Rightarrow> delta_ring \<Rightarrow> delta_ring \<Rightarrow> delta_ring \<Rightarrow> delta_ring \<Rightarrow> delta_msg option" where
  "spin_round s1 s2 s3 s4 s5 s6 =
     (if odd (uint (rg_epoch s1)) then None
      else if rg_tail s2 = rg_head s2 then None
      else
        let i = slot (rg_tail s2); f = rg_frames s3 i;
            msg = read_msg (f\<lparr>fr_bids := fr_bids (rg_frames s4 i), fr_asks := fr_asks (rg_frames s5 i)\<rparr>)
        in if rg_epoch s6 = rg_epoch s1 then Some msg else None)"

fun epoch_seq :: "int \<Rightarrow> nat \<Rightarrow> int list" where
  "epoch_seq e 0 = [e]"
| "epoch_seq e (Suc n) = e # replicate 10 (e + 1) @ epoch_seq (e + 2) n"

lemma uint_plus_small: "uint w + int k < 2 ^ 64 \<Longrightarrow> uint (w + word_of_nat k) = uint w + int k" for w :: "64 word"
proof -
  assume a: "uint w + int k < 2 ^ 64"
  have "0 \<le> uint w" by simp
  with a have "int k < 2 ^ 64" by linarith
  then have "k < 2 ^ 64" by simp
  with a show ?thesis by (simp add: uint_word_ariths unsigned_of_nat take_bit_eq_mod)
qed

lemma write_trace_epochs:
  assumes "uint (rg_epoch r) + 1 < 2 ^ 64"
  shows "map (\<lambda>s. uint (rg_epoch s)) (store_trace (write_stores r m) r)
       = uint (rg_epoch r) # replicate 10 (uint (rg_epoch r) + 1)"
  using uint_plus_small [of "rg_epoch r" 1] assms
  by (simp add: write_stores_def frame_stores_def bump_epoch_def on_frame_def numeral_eq_Suc)

lemma writer_trace_epochs:
  "uint (rg_epoch r) + 2 * int (length ms) < 2 ^ 64 \<Longrightarrow>
     map (\<lambda>s. uint (rg_epoch s)) (writer_trace r ms) = epoch_seq (uint (rg_epoch r)) (length ms)"
proof (induction ms arbitrary: r)
  case (Cons m ms)
  have "uint (rg_epoch (write_frame m r)) = uint (rg_epoch r) + 2"
    using uint_plus_small [of "rg_epoch r" 2] Cons.prems by (simp add: write_frame_eq)
  moreover from this have "map (\<lambda>s. uint (rg_epoch s)) (writer_trace (write_frame m r) ms)
      = epoch_seq (uint (rg_epoch r) + 2) (length ms)"
    using Cons.IH [of "write_frame m r"] Cons.prems by simp
  ultimately show ?case
    using write_trace_epochs [of r m] Cons.prems by simp
qed simp

lemma epoch_seq_ge: "x \<in> set (epoch_seq e n) \<Longrightarrow> e \<le> x"
  by (induction e n rule: epoch_seq.induct) auto

lemma epoch_seq_even_unique:
  assumes "even e" and "i \<le> j" and "j < length (epoch_seq e n)"
    and "even (epoch_seq e n ! i)" and "epoch_seq e n ! j = epoch_seq e n ! i"
  shows "i = j"
  using assms
proof (induction e n arbitrary: i j rule: epoch_seq.induct)
  case (2 e n)
  have later: "e < epoch_seq e (Suc n) ! k" if "0 < k" "k < length (epoch_seq e (Suc n))" for k
  proof -
    let ?rest = "replicate 10 (e + 1) @ epoch_seq (e + 2) n"
    have "epoch_seq e (Suc n) ! k = ?rest ! (k - 1)" using that(1) by (simp add: nth_Cons')
    moreover have "k - 1 < length ?rest" using that by simp
    ultimately have "epoch_seq e (Suc n) ! k \<in> set ?rest" by (metis nth_mem)
    then show ?thesis using epoch_seq_ge [of _ "e + 2" n] by fastforce
  qed
  consider "i = 0" | "0 < i" "i < 11" | "11 \<le> i" by linarith
  then show ?case
  proof cases
    case 1
    with later [of j] 2 show ?thesis by (cases "j = 0") auto
  next
    case 2
    then have "i - 1 < 10" by arith
    with 2 have "epoch_seq e (Suc n) ! i = e + 1"
      by (simp add: nth_append nth_Cons' del: replicate.simps)
    with \<open>even (epoch_seq e (Suc n) ! i)\<close> \<open>even e\<close> show ?thesis by simp
  next
    case 3
    then have nth: "epoch_seq e (Suc n) ! k = epoch_seq (e + 2) n ! (k - 11)" if "11 \<le> k" for k
  proof -
    have "\<not> k - 1 < 10" "k - 1 - 10 = k - 11" "k \<noteq> 0" using that by arith+
    then show ?thesis by (simp add: nth_append nth_Cons' del: replicate.simps)
  qed
    have "i - 11 = j - 11"
      using 2 3 nth by (intro "2.IH") auto
    with 3 \<open>i \<le> j\<close> show ?thesis by simp
  qed
qed simp



section \<open>The splice\<close>

definition msgs_from :: "delta_ring \<Rightarrow> nat \<Rightarrow> delta_msg list" where
  "msgs_from r i = map (\<lambda>i. read_msg (rg_frames r (i mod ring_capacity))) [i ..< unat (rg_head r)]"

lemma pending_msgs_from: "pending r = msgs_from r (unat (rg_tail r))"
  by (simp add: pending_def msgs_from_def)

lemma msgs_from_Cons:
  "i < unat (rg_head r) \<Longrightarrow> msgs_from r i = read_msg (rg_frames r (i mod ring_capacity)) # msgs_from r (Suc i)"
  by (simp add: msgs_from_def upt_conv_Cons)

lemma read_msg_u [simp]: "dm_u (read_msg f) = uint (fr_u f)"
  by (simp add: read_msg_def)

lemma unat_Suc_less: "unat w < unat v \<Longrightarrow> unat (w + 1) = Suc (unat w)" for w v :: "64 word"
proof -
  assume lt: "unat w < unat v"
  have "unat v < 2 ^ LENGTH(64)" by (rule unsigned_less)
  with lt show ?thesis by (intro unat_Suc) simp
qed

lemma find_frame_Some:
  assumes "find_frame r u cur n = Some t" and "unat cur + n = unat (rg_head r)"
  shows "unat t \<le> unat (rg_head r) \<and> unat cur \<le> unat t
    \<and> msgs_from r (unat t) = dropWhile (\<lambda>m. dm_u m < u) (msgs_from r (unat cur))"
  using assms
proof (induction n arbitrary: cur)
  case (Suc n)
  then have lt: "unat cur < unat (rg_head r)" by simp
  note step = unat_Suc_less [OF lt]
  show ?case
  proof (cases "u \<le> uint (fr_u (rg_frames r (slot cur)))")
    case True
    with Suc.prems lt show ?thesis by (simp add: msgs_from_Cons slot_mod)
  next
    case False
    with Suc.prems have "find_frame r u (cur + 1) n = Some t" by simp
    from Suc.IH [OF this] Suc.prems(2) False lt show ?thesis
      by (auto simp: step msgs_from_Cons slot_mod not_le)
  qed
qed simp

lemma unat_diff: "w \<le> v \<Longrightarrow> unat (v - w) = unat v - unat w" for v w :: "64 word"
  by (rule unat_sub)

lemma splice_drops_older_aux:
  assumes "ring_ok r"
  shows "case fast_forward_splice u r of
      (r', True) \<Rightarrow> pending r' = dropWhile (\<lambda>m. dm_u m < u) (pending r) \<and> ring_ok r'
         \<and> rg_frames r' = rg_frames r \<and> rg_head r' = rg_head r
    | (r', False) \<Rightarrow> r' = r"
proof (cases "snd (fast_forward_splice u r)")
  case False
  then show ?thesis by (auto simp: fast_forward_splice_def split: if_splits option.splits)
next
  case True
  let ?n = "unat (rg_head r - rg_tail r)"
  obtain t where t: "find_frame r u (rg_tail r) ?n = Some t" "fast_forward_splice u r = (r\<lparr>rg_tail := t\<rparr>, True)"
    using True by (auto simp: fast_forward_splice_def split: if_splits option.splits)
  have le: "rg_tail r \<le> rg_head r" using assms by (simp add: ring_ok_def)
  have "unat (rg_tail r) + ?n = unat (rg_head r)"
    using le by (simp add: unat_diff word_le_nat_alt)
  note f = find_frame_Some [OF t(1) this]
  have "ring_ok (r\<lparr>rg_tail := t\<rparr>)"
    using f assms by (auto simp: ring_ok_def word_le_nat_alt)
  moreover have "pending (r\<lparr>rg_tail := t\<rparr>) = dropWhile (\<lambda>m. dm_u m < u) (pending r)"
    using f by (simp add: pending_msgs_from) (simp add: msgs_from_def)
  ultimately show ?thesis by (simp add: t(2))
qed

text \<open>The splice moves nothing but the tail and only drops messages older than the
  snapshot; when it refuses, the ring is as it was.\<close>

theorem splice_drops_older:
  assumes "ring_ok r"
  shows "case fast_forward_splice u r of
      (r', True) \<Rightarrow> pending r' = dropWhile (\<lambda>m. dm_u m < u) (pending r) \<and> ring_ok r'
         \<and> rg_frames r' = rg_frames r \<and> rg_head r' = rg_head r
    | (r', False) \<Rightarrow> r' = r"
  using assms by (rule splice_drops_older_aux)

theorem splice_drops_older_witness:
  "case fast_forward_splice 8 (write_frame (demo_msg 8) (write_frame (demo_msg 7) empty_ring)) of
      (r', True) \<Rightarrow> pending r' = [demo_msg 8] | (r', False) \<Rightarrow> r' = write_frame (demo_msg 8) (write_frame (demo_msg 7) empty_ring)"
proof -
  let ?r1 = "write_frame (demo_msg 7) empty_ring"
  have e: "ring_ok empty_ring" "pending empty_ring = []" "unat (rg_head empty_ring) = 0"
    by (simp_all add: ring_ok_def empty_ring_def pending_def)
  have fits: "msg_fits (demo_msg 7)" "msg_fits (demo_msg 8)" by (simp_all add: demo_msg_def msg_fits_def)
  have c: "clipped (demo_msg u) = demo_msg u" for u by (simp add: clipped_def demo_msg_def)
  have r1: "ring_ok ?r1" "pending ?r1 = [demo_msg 7]" "unat (rg_head ?r1) = 1"
    using write_frame_pending [OF e(1) _ fits(1)] e by (simp_all add: c lastn_def ring_capacity_def)
  have r2: "ring_ok (write_frame (demo_msg 8) ?r1)" "pending (write_frame (demo_msg 8) ?r1) = [demo_msg 7, demo_msg 8]"
    using write_frame_pending [OF r1(1) _ fits(2)] r1 by (simp_all add: c lastn_def ring_capacity_def)
  have d: "dm_u (demo_msg u) = u" for u by (simp add: demo_msg_def)
  from splice_drops_older [OF r2(1), of 8] show ?thesis
    by (auto simp: r2(2) d split: prod.splits bool.splits)
qed

section \<open>The blind top-of-book ring\<close>

record top_state =
  ts_timestamp :: "64 word"
  ts_best_bid :: "64 word"
  ts_best_ask :: "64 word"

record top_ring =
  tr_capacity :: nat
  tr_head :: nat
  tr_buffer :: "top_state list"

definition top_ring_init :: "nat \<Rightarrow> top_ring" where
  "top_ring_init cap =
     \<lparr>tr_capacity = cap, tr_head = 0,
      tr_buffer = replicate cap \<lparr>ts_timestamp = 0, ts_best_bid = 0, ts_best_ask = 0\<rparr>\<rparr>"

definition ingest_blindly :: "top_state \<Rightarrow> top_ring \<Rightarrow> top_ring" where
  "ingest_blindly x r =
     r\<lparr>tr_buffer := (tr_buffer r)[tr_head r mod tr_capacity r := x], tr_head := Suc (tr_head r)\<rparr>"

text \<open>\<open>(head - 1) % capacity\<close> on Python integers: the last slot when nothing was written.\<close>

definition latest_causal_state :: "top_ring \<Rightarrow> top_state" where
  "latest_causal_state r = tr_buffer r ! nat ((int (tr_head r) - 1) mod int (tr_capacity r))"

definition top_ok :: "top_ring \<Rightarrow> bool" where
  "top_ok r \<longleftrightarrow> 0 < tr_capacity r \<and> length (tr_buffer r) = tr_capacity r"

definition top_view :: "top_ring \<Rightarrow> top_state list" where
  "top_view r = map (\<lambda>i. tr_buffer r ! (i mod tr_capacity r)) [tr_head r - tr_capacity r ..< tr_head r]"

lemma mod_apart: "i < h \<Longrightarrow> h - i < n \<Longrightarrow> i mod n \<noteq> h mod n" for i h n :: nat
  by (metis mod_eq_dvd_iff_nat less_imp_le nat_dvd_not_less zero_less_diff)

lemma ingest_view:
  assumes "top_ok r"
  shows "top_view (ingest_blindly x r) = lastn (tr_capacity r) (top_view r @ [x])"
proof -
  let ?h = "tr_head r" and ?n = "tr_capacity r"
  let ?b = "(tr_buffer r)[?h mod ?n := x]"
  have n: "0 < ?n" "?h mod ?n < length (tr_buffer r)" using assms by (simp_all add: top_ok_def)
  have keep: "?b ! (i mod ?n) = tr_buffer r ! (i mod ?n)" if "Suc ?h - ?n \<le> i" "i < ?h" for i
  proof -
    have "i mod ?n \<noteq> ?h mod ?n" using that by (intro mod_apart) linarith+
    then show ?thesis by simp
  qed
  have "top_view (ingest_blindly x r)
      = map (\<lambda>i. tr_buffer r ! (i mod ?n)) [Suc ?h - ?n ..< ?h] @ [x]"
    using n keep by (simp add: top_view_def ingest_blindly_def Suc_diff_le)
  also have "map (\<lambda>i. tr_buffer r ! (i mod ?n)) [Suc ?h - ?n ..< ?h] = lastn (?n - 1) (top_view r)"
    using n(1) by (simp add: top_view_def lastn_map_upt max_def)
  finally show ?thesis using n(1) by (simp add: lastn_append)
qed

interpretation top_log: bounded_log ingest_blindly top_view tr_capacity top_ok
proof unfold_locales
  show "top_ok s \<Longrightarrow> top_ok (ingest_blindly x s)" for s x by (simp add: top_ok_def ingest_blindly_def)
  show "tr_capacity (ingest_blindly x s) = tr_capacity s" for s x by (simp add: ingest_blindly_def)
  show "length (top_view s) \<le> tr_capacity s" for s by (simp add: top_view_def)
qed (rule ingest_view)

lemma latest_is_last: "0 < tr_head r \<Longrightarrow> 0 < tr_capacity r \<Longrightarrow> latest_causal_state r = last (top_view r)"
proof -
  assume h: "0 < tr_head r" and c: "0 < tr_capacity r"
  let ?k = "tr_head r - 1"
  have "int (tr_head r) - 1 = int ?k" using h by simp
  then have "nat ((int (tr_head r) - 1) mod int (tr_capacity r)) = ?k mod tr_capacity r"
    by (metis nat_int of_nat_mod)
  moreover have "[tr_head r - tr_capacity r ..< tr_head r] = [tr_head r - tr_capacity r ..< ?k] @ [?k]"
    using h c upt_Suc_append [of "tr_head r - tr_capacity r" ?k] by simp
  ultimately show ?thesis by (simp add: latest_causal_state_def top_view_def)
qed

text \<open>The ring of tops of book holds exactly the last \<open>capacity\<close> states written, oldest
  first, and its causal read is the newest of them.\<close>

theorem top_ring_latest:
  assumes "0 < cap" and "xs \<noteq> []"
  shows "top_view (fold ingest_blindly xs (top_ring_init cap)) = lastn cap xs
    \<and> latest_causal_state (fold ingest_blindly xs (top_ring_init cap)) = last xs"
proof -
  let ?init = "top_ring_init cap" and ?r = "fold ingest_blindly xs (top_ring_init cap)"
  have ok: "top_ok ?init" "top_view ?init = []" "tr_capacity ?init = cap"
    using assms(1) by (simp_all add: top_ok_def top_ring_init_def top_view_def)
  have v: "top_view ?r = lastn cap xs" using top_log.view_pushes [OF ok(1), of xs] ok by simp
  have "tr_capacity ?r = cap" using top_log.cap_pushes [OF ok(1), of xs] ok by simp
  moreover have "0 < length (top_view ?r)" using v assms by simp
  then have "0 < tr_head ?r" by (auto simp: top_view_def)
  ultimately show ?thesis
    using v assms latest_is_last [of ?r] by (simp add: last_lastn)
qed

theorem top_ring_latest_witness:
  "latest_causal_state (fold ingest_blindly
     [\<lparr>ts_timestamp = 1, ts_best_bid = 10, ts_best_ask = 11\<rparr>, \<lparr>ts_timestamp = 2, ts_best_bid = 12, ts_best_ask = 13\<rparr>,
      \<lparr>ts_timestamp = 3, ts_best_bid = 14, ts_best_ask = 15\<rparr>] (top_ring_init 2))
   = \<lparr>ts_timestamp = 3, ts_best_bid = 14, ts_best_ask = 15\<rparr>"
  using top_ring_latest [of 2 "[\<lparr>ts_timestamp = 1, ts_best_bid = 10, ts_best_ask = 11\<rparr>,
      \<lparr>ts_timestamp = 2, ts_best_bid = 12, ts_best_ask = 13\<rparr>, \<lparr>ts_timestamp = 3, ts_best_bid = 14, ts_best_ask = 15\<rparr>]"]
  by simp

end
