(* ===== verification/Order_Book.thy ===== *)
theory Order_Book
  imports Book_Side Delta_Ring
begin

text \<open>
  The L2 book of one symbol: \<open>NdOrderBookStateMachine\<close> in
  \<open>src/src/infrastructure/gektor_l2/nd_orderbook.py\<close>, with the states of
  \<open>book_state.py\<close> and the constants of \<open>constants.py\<close>: snapshots, deltas, the replay of
  buffered deltas, the hard reset, the pessimisation factors and the readiness.  Prices and
  quantities are Python integers held in int64 arrays: the model is for values in range,
  where an assignment does not raise.  The lemmas show that every operation keeps both
  sides sorted and bounded, that an accepted delta is a map update on prices, and that the
  splice before a replay does not change its result.
\<close>

section \<open>State\<close>

definition SCALE :: int where "SCALE = 100000000"
definition FEE_NUM :: int where "FEE_NUM = 45"
definition FEE_DEN :: int where "FEE_DEN = 100000"

datatype book_state = SYNCED | DESYNCED | RECOVERING
datatype readiness = READY | EMPTY_BUT_VALID | RD_RECOVERING | BLIND_NETWORK | BLIND_STALE

fun readiness_level :: "readiness \<Rightarrow> int" where
  "readiness_level READY = 1"
| "readiness_level EMPTY_BUT_VALID = 2"
| "readiness_level RD_RECOVERING = 3"
| "readiness_level BLIND_NETWORK = 4"
| "readiness_level BLIND_STALE = 5"

record book =
  nb_symbol :: symbol
  nb_levels :: nat
  nb_max_age :: flt
  nb_u :: int
  nb_last_seq :: int
  nb_reject :: "string option"
  nb_consistent :: bool
  nb_epoch :: nat
  nb_mono :: time
  nb_bid :: book_side
  nb_ask :: book_side
  nb_ring :: delta_ring
  nb_lut :: "int list"
  nb_ask_ctr :: "int list"
  nb_ask_lam :: "int list"
  nb_bid_ctr :: "int list"
  nb_bid_lam :: "int list"

text \<open>An assignment to a \<open>c_uint16\<close> keeps 16 bits.\<close>

definition uint16 :: "int \<Rightarrow> int" where
  "uint16 x = x mod 65536"

definition precompute_lut :: "numpy \<Rightarrow> real \<Rightarrow> book \<Rightarrow> book" where
  "precompute_lut np delta_t b =
     b\<lparr>nb_lut := map (\<lambda>i. uint16 (py_int (np_exp np (- (real i / 100) * delta_t) * 1024))) [0 ..< 1024]\<rparr>"

definition book_init :: "numpy \<Rightarrow> symbol \<Rightarrow> nat \<Rightarrow> flt \<Rightarrow> py_error + book" where
  "book_init np sy L max_age_ms =
     (if L \<le> 2 then Inl (ValueError ''max_levels too small'')
      else Inr (precompute_lut np (12/10)
        \<lparr>nb_symbol = map upper_char sy, nb_levels = L, nb_max_age = max_age_ms / 1000, nb_u = 0,
         nb_last_seq = 0, nb_reject = None, nb_consistent = False, nb_epoch = 0, nb_mono = 0,
         nb_bid = side_init L, nb_ask = side_init L, nb_ring = empty_ring,
         nb_lut = replicate 1024 0, nb_ask_ctr = replicate L 0, nb_ask_lam = replicate L 0,
         nb_bid_ctr = replicate L 0, nb_bid_lam = replicate L 0\<rparr>))"

section \<open>Pessimisation factors\<close>

definition best_bid :: "book \<Rightarrow> int" where "best_bid b = - (bs_px (nb_bid b) ! 0)"
definition best_ask :: "book \<Rightarrow> int" where "best_ask b = bs_px (nb_ask b) ! 0"

definition ctr_fp :: "numpy \<Rightarrow> nat \<Rightarrow> int" where
  "ctr_fp np k = uint16 (py_int (3/10 * np_exp np (- real k / 10) * 1024))"

definition lambda_fp :: "real \<Rightarrow> real \<Rightarrow> real \<Rightarrow> real \<Rightarrow> real \<Rightarrow> int \<Rightarrow> int" where
  "lambda_fp alpha beta gamma mid signed_imb price =
     (let d = \<bar>real_of_int price - mid\<bar> / mid;
          f = 1 / (1 + gamma * d);
          g = 1 + beta * signed_imb
      in uint16 (min 1023 (max 0 (py_int (alpha * f * g * 100)))))"

text \<open>The first \<open>n\<close> entries of a factor array are recomputed, the rest stays.\<close>

definition refill :: "nat \<Rightarrow> (nat \<Rightarrow> int) \<Rightarrow> int list \<Rightarrow> int list" where
  "refill n f old = map f [0 ..< n] @ drop n old"

definition recalculate :: "numpy \<Rightarrow> real \<Rightarrow> real \<Rightarrow> real \<Rightarrow> book \<Rightarrow> book" where
  "recalculate np alpha beta gamma b =
     (if \<not> nb_consistent b \<or> bs_n (nb_ask b) = 0 \<or> bs_n (nb_bid b) = 0 then b
      else
        let mid = real_of_int (best_bid b + best_ask b) / 2;
            vb = bs_q (nb_bid b) ! 0; va = bs_q (nb_ask b) ! 0; denom = vb + va;
            imb = (if 0 < denom then real_of_int (vb - va) / real_of_int denom else 0);
            sg = np_sign np imb
        in if mid \<le> 0 then b
           else b\<lparr>nb_ask_ctr := refill (bs_n (nb_ask b)) (ctr_fp np) (nb_ask_ctr b),
                  nb_ask_lam := refill (bs_n (nb_ask b))
                    (\<lambda>k. lambda_fp alpha beta gamma mid (sg * 1) (bs_px (nb_ask b) ! k)) (nb_ask_lam b),
                  nb_bid_ctr := refill (bs_n (nb_bid b)) (ctr_fp np) (nb_bid_ctr b),
                  nb_bid_lam := refill (bs_n (nb_bid b))
                    (\<lambda>k. lambda_fp alpha beta gamma mid (sg * - 1) (- (bs_px (nb_bid b) ! k))) (nb_bid_lam b)\<rparr>)"

section \<open>Status\<close>

definition is_consistent :: "book \<Rightarrow> bool" where
  "is_consistent b \<longleftrightarrow> nb_consistent b \<and> 0 < nb_u b \<and> 0 < bs_n (nb_bid b) \<and> 0 < bs_n (nb_ask b)"

text \<open>\<open>data_age_sec\<close>, \<open>None\<close> for the infinite age of a book never updated.\<close>

definition data_age :: "time \<Rightarrow> book \<Rightarrow> flt option" where
  "data_age now b = (if nb_mono b = 0 then None else Some (now - nb_mono b))"

definition book_readiness :: "time \<Rightarrow> book_state \<Rightarrow> bool \<Rightarrow> book \<Rightarrow> readiness" where
  "book_readiness now st cb_open b =
     (if cb_open then BLIND_NETWORK
      else if st = DESYNCED then BLIND_NETWORK
      else if st = RECOVERING then RD_RECOVERING
      else if \<not> nb_consistent b \<or> nb_u b = 0 then RD_RECOVERING
      else if 0 < nb_mono b \<and> nb_max_age b < now - nb_mono b then BLIND_STALE
      else if bs_n (nb_bid b) = 0 \<or> bs_n (nb_ask b) = 0 then EMPTY_BUT_VALID
      else READY)"

definition hard_reset :: "book \<Rightarrow> book" where
  "hard_reset b =
     b\<lparr>nb_bid := side_clear (nb_bid b), nb_ask := side_clear (nb_ask b), nb_u := 0, nb_last_seq := 0,
       nb_consistent := False, nb_epoch := Suc (nb_epoch b),
       nb_ring := (nb_ring b)\<lparr>rg_epoch := 0, rg_head := 0, rg_tail := 0\<rparr>\<rparr>"

section \<open>Rows\<close>

definition insert_bid_index :: "nat \<Rightarrow> int \<Rightarrow> int \<Rightarrow> book \<Rightarrow> book" where
  "insert_bid_index idx key qty b = b\<lparr>nb_bid := side_insert (nb_levels b) idx key qty (nb_bid b)\<rparr>"

definition remove_bid_index :: "nat \<Rightarrow> book \<Rightarrow> book" where
  "remove_bid_index idx b = b\<lparr>nb_bid := side_remove idx (nb_bid b)\<rparr>"

definition insert_ask_index :: "nat \<Rightarrow> int \<Rightarrow> int \<Rightarrow> book \<Rightarrow> book" where
  "insert_ask_index idx price qty b = b\<lparr>nb_ask := side_insert (nb_levels b) idx price qty (nb_ask b)\<rparr>"

definition remove_ask_index :: "nat \<Rightarrow> book \<Rightarrow> book" where
  "remove_ask_index idx b = b\<lparr>nb_ask := side_remove idx (nb_ask b)\<rparr>"

definition apply_row_bid :: "numpy \<Rightarrow> int \<times> int \<Rightarrow> book \<Rightarrow> book" where
  "apply_row_bid np row b =
     (let key = - fst row; qty = snd row; n = bs_n (nb_bid b);
          idx = np_searchsorted np (take n (bs_px (nb_bid b))) key;
          exists = (idx < n \<and> bs_px (nb_bid b) ! idx = key)
      in if qty \<le> 0 then (if \<not> exists then b else remove_bid_index idx b)
         else if exists then b\<lparr>nb_bid := (nb_bid b)\<lparr>bs_q := (bs_q (nb_bid b))[idx := qty]\<rparr>\<rparr>
         else insert_bid_index idx key qty b)"

definition apply_row_ask :: "numpy \<Rightarrow> int \<times> int \<Rightarrow> book \<Rightarrow> book" where
  "apply_row_ask np row b =
     (let price = fst row; qty = snd row; n = bs_n (nb_ask b);
          idx = np_searchsorted np (take n (bs_px (nb_ask b))) price;
          exists = (idx < n \<and> bs_px (nb_ask b) ! idx = price)
      in if qty \<le> 0 then (if \<not> exists then b else remove_ask_index idx b)
         else if exists then b\<lparr>nb_ask := (nb_ask b)\<lparr>bs_q := (bs_q (nb_ask b))[idx := qty]\<rparr>\<rparr>
         else insert_ask_index idx price qty b)"

definition apply_rows :: "numpy \<Rightarrow> (int \<times> int) list \<Rightarrow> (int \<times> int) list \<Rightarrow> book \<Rightarrow> book" where
  "apply_rows np bids asks b = fold (apply_row_ask np) asks (fold (apply_row_bid np) bids b)"

lemma apply_row_bid_eq: "apply_row_bid np row b = b\<lparr>nb_bid := side_apply np (nb_levels b) (- fst row) (snd row) (nb_bid b)\<rparr>"
  by (simp add: apply_row_bid_def side_apply_def remove_bid_index_def insert_bid_index_def Let_def)

lemma apply_row_ask_eq: "apply_row_ask np row b = b\<lparr>nb_ask := side_apply np (nb_levels b) (fst row) (snd row) (nb_ask b)\<rparr>"
  by (simp add: apply_row_ask_def side_apply_def remove_ask_index_def insert_ask_index_def Let_def)

section \<open>Deltas and snapshots\<close>

definition gap_before :: "int option \<Rightarrow> book \<Rightarrow> bool" where
  "gap_before lo b = (case lo of None \<Rightarrow> False | Some l \<Rightarrow> 0 < nb_u b \<and> nb_u b + 1 < l)"

definition ingest_delta :: "numpy \<Rightarrow> time \<Rightarrow> delta_msg \<Rightarrow> book \<Rightarrow> book \<times> bool" where
  "ingest_delta np now m b =
     (if nb_u b = 0
      then (b\<lparr>nb_ring := write_frame m (nb_ring b), nb_reject := Some ''no_snapshot_anchor''\<rparr>, False)
      else if (case dm_range m of None \<Rightarrow> False | Some lo \<Rightarrow> dm_u m < lo)
      then (hard_reset (b\<lparr>nb_reject := Some ''invalid_u_range''\<rparr>), False)
      else if dm_u m \<le> nb_u b then (b\<lparr>nb_reject := Some ''stale_or_duplicate_u''\<rparr>, False)
      else if gap_before (dm_range m) b
      then (hard_reset (b\<lparr>nb_reject := Some ''sequence_gap''\<rparr>), False)
      else if (case dm_seq m of None \<Rightarrow> False | Some s \<Rightarrow> 0 < nb_last_seq b \<and> s \<le> nb_last_seq b)
      then (b\<lparr>nb_reject := Some ''stale_or_duplicate_seq''\<rparr>, False)
      else
        let b1 = apply_rows np (dm_bids m) (dm_asks m) (b\<lparr>nb_reject := None\<rparr>)
        in (b1\<lparr>nb_u := dm_u m, nb_mono := now,
              nb_last_seq := (case dm_seq m of None \<Rightarrow> nb_last_seq b1 | Some s \<Rightarrow> s)\<rparr>, True))"

text \<open>One buffered message of the replay after a snapshot, the loop's body after its read.\<close>

definition replay_msg :: "numpy \<Rightarrow> delta_msg \<Rightarrow> book \<Rightarrow> book" where
  "replay_msg np m b =
     (let b1 = apply_rows np (dm_bids m) (dm_asks m) b
      in b1\<lparr>nb_u := dm_u m, nb_last_seq := (case dm_seq m of None \<Rightarrow> nb_last_seq b1 | Some s \<Rightarrow> s)\<rparr>)"

fun replay_ring :: "numpy \<Rightarrow> nat \<Rightarrow> book \<Rightarrow> book" where
  "replay_ring np 0 b = b"
| "replay_ring np (Suc n) b =
     (case read_next_frame (nb_ring b) of
        (r, None) \<Rightarrow> b\<lparr>nb_ring := r\<rparr>
      | (r, Some m) \<Rightarrow>
          let b1 = b\<lparr>nb_ring := r\<rparr>
          in if dm_u m \<le> nb_u b1 then replay_ring np n b1
             else if gap_before (dm_range m) b1
             then hard_reset (b1\<lparr>nb_reject := Some ''sequence_gap''\<rparr>)
             else replay_ring np n (replay_msg np m b1))"

text \<open>The part of \<open>ingest_snapshot\<close> before the splice.\<close>

definition anchor :: "numpy \<Rightarrow> time \<Rightarrow> int \<Rightarrow> (int \<times> int) list \<Rightarrow> (int \<times> int) list \<Rightarrow> book \<Rightarrow> book" where
  "anchor np now u bids asks b =
     b\<lparr>nb_reject := None,
       nb_bid := fill_side np (nb_levels b) (\<lambda>p. - p) bids ((nb_bid b)\<lparr>bs_n := 0\<rparr>),
       nb_ask := fill_side np (nb_levels b) (\<lambda>p. p) asks ((nb_ask b)\<lparr>bs_n := 0\<rparr>),
       nb_u := u, nb_last_seq := 0, nb_consistent := True, nb_mono := now, nb_epoch := Suc (nb_epoch b)\<rparr>"

definition splice :: "book \<Rightarrow> book" where
  "splice b = b\<lparr>nb_ring := fst (fast_forward_splice (nb_u b) (nb_ring b))\<rparr>"

text \<open>The replay reads at most \<open>ring_capacity\<close> frames before the ring is empty.\<close>

definition ingest_snapshot :: "numpy \<Rightarrow> time \<Rightarrow> int \<Rightarrow> (int \<times> int) list \<Rightarrow> (int \<times> int) list \<Rightarrow> book \<Rightarrow> book" where
  "ingest_snapshot np now u bids asks b =
     recalculate np 1 (5/10) 10 (replay_ring np (Suc ring_capacity) (splice (anchor np now u bids asks b)))"

section \<open>The book stays well formed\<close>

definition book_ok :: "book \<Rightarrow> bool" where
  "book_ok b \<longleftrightarrow> 2 < nb_levels b \<and> side_ok (nb_levels b) (nb_bid b) \<and> side_ok (nb_levels b) (nb_ask b)
     \<and> length (nb_lut b) = 1024 \<and> length (nb_ask_ctr b) = nb_levels b \<and> length (nb_ask_lam b) = nb_levels b
     \<and> length (nb_bid_ctr b) = nb_levels b \<and> length (nb_bid_lam b) = nb_levels b
     \<and> (\<not> nb_consistent b \<longrightarrow> nb_u b = 0 \<and> bs_n (nb_bid b) = 0 \<and> bs_n (nb_ask b) = 0)"

definition side_applies :: "numpy \<Rightarrow> nat \<Rightarrow> (int \<Rightarrow> int) \<Rightarrow> (int \<times> int) list \<Rightarrow> book_side \<Rightarrow> book_side" where
  "side_applies np L to_key rows s = fold (\<lambda>r. side_apply np L (to_key (fst r)) (snd r)) rows s"

lemma fold_bids:
  "fold (apply_row_bid np) rows b = b\<lparr>nb_bid := side_applies np (nb_levels b) (\<lambda>p. - p) rows (nb_bid b)\<rparr>"
  by (induction rows arbitrary: b) (simp_all add: apply_row_bid_eq side_applies_def)

lemma fold_asks:
  "fold (apply_row_ask np) rows b = b\<lparr>nb_ask := side_applies np (nb_levels b) (\<lambda>p. p) rows (nb_ask b)\<rparr>"
  by (induction rows arbitrary: b) (simp_all add: apply_row_ask_eq side_applies_def)

lemma apply_rows_eq:
  "apply_rows np bids asks b =
     b\<lparr>nb_bid := side_applies np (nb_levels b) (\<lambda>p. - p) bids (nb_bid b),
       nb_ask := side_applies np (nb_levels b) (\<lambda>p. p) asks (nb_ask b)\<rparr>"
  by (simp add: apply_rows_def fold_bids fold_asks)

lemma side_applies_ok [inv_intros]:
  "numpy_ok np \<Longrightarrow> side_ok L s \<Longrightarrow> side_ok L (side_applies np L to_key rows s)"
  unfolding side_applies_def by (rule fold_inv) (auto intro: inv_intros)

lemma length_refill [simp]: "n \<le> length old \<Longrightarrow> length (refill n f old) = length old"
  by (simp add: refill_def)

lemma recalculate_ok [inv_intros]: "book_ok b \<Longrightarrow> book_ok (recalculate np al be ga b)"
  by (auto simp: book_ok_def recalculate_def side_ok_def side_shape_def Let_def)

lemma precompute_ok [inv_intros]: "book_ok b \<Longrightarrow> book_ok (precompute_lut np dt b)"
  by (simp add: book_ok_def precompute_lut_def)

lemma hard_reset_ok [inv_intros]: "book_ok b \<Longrightarrow> book_ok (hard_reset b)"
  using side_clear_ok [of "nb_levels b" "nb_bid b"] side_clear_ok [of "nb_levels b" "nb_ask b"]
  by (simp add: book_ok_def hard_reset_def side_ok_def) (simp add: side_clear_def)

lemma book_ok_set [simp]:
  "book_ok (b\<lparr>nb_reject := r\<rparr>) = book_ok b" "book_ok (b\<lparr>nb_ring := ring\<rparr>) = book_ok b"
  "book_ok (b\<lparr>nb_mono := t\<rparr>) = book_ok b" "book_ok (b\<lparr>nb_last_seq := s\<rparr>) = book_ok b"
  by (simp_all add: book_ok_def)

lemma replay_msg_ok:
  assumes "numpy_ok np" and "book_ok b" and "nb_consistent b"
  shows "book_ok (replay_msg np m b) \<and> nb_consistent (replay_msg np m b)"
  using assms by (simp add: replay_msg_def Let_def book_ok_def apply_rows_eq side_applies_ok)

lemma replay_ring_ok [inv_intros]:
  assumes "numpy_ok np" and "book_ok b" and "nb_consistent b"
  shows "book_ok (replay_ring np n b)"
  using assms
proof (induction n arbitrary: b)
  case (Suc n)
  obtain r mo where r: "read_next_frame (nb_ring b) = (r, mo)" by force
  show ?case
  proof (cases mo)
    case None
    with r Suc.prems show ?thesis by simp
  next
    case (Some m)
    let ?b = "b\<lparr>nb_ring := r\<rparr>"
    have b: "book_ok ?b" "nb_consistent ?b" using Suc.prems by simp_all
    from replay_msg_ok [OF assms(1) b, of m] Suc.IH [OF assms(1), of "replay_msg np m ?b"]
      Suc.IH [OF assms(1) b] hard_reset_ok [of "?b\<lparr>nb_reject := Some ''sequence_gap''\<rparr>"] b r Some
    show ?thesis by (simp add: Let_def)
  qed
qed simp

definition rows_distinct :: "(int \<times> int) list \<Rightarrow> bool" where
  "rows_distinct rows \<longleftrightarrow> distinct (map fst rows)"

lemma anchor_ok:
  assumes "numpy_ok np" and "book_ok b" and "rows_distinct bids" and "rows_distinct asks"
  shows "book_ok (anchor np now u bids asks b) \<and> nb_consistent (anchor np now u bids asks b)"
proof -
  have L: "0 < nb_levels b" and sh: "side_shape (nb_levels b) ((nb_bid b)\<lparr>bs_n := 0\<rparr>)"
    "side_shape (nb_levels b) ((nb_ask b)\<lparr>bs_n := 0\<rparr>)"
    using assms(2) by (auto simp: book_ok_def side_ok_def side_shape_def)
  have "inj (\<lambda>p::int. - p)" "inj (\<lambda>p::int. p)" by (auto intro: injI)
  with fill_side_ok(1) [OF assms(1) L sh(1)] fill_side_ok(1) [OF assms(1) L sh(2)] assms
  show ?thesis by (simp add: anchor_def book_ok_def rows_distinct_def)
qed

lemma ingest_snapshot_ok [inv_intros]:
  assumes "numpy_ok np" and "book_ok b" and "rows_distinct bids" and "rows_distinct asks"
  shows "book_ok (ingest_snapshot np now u bids asks b)"
  unfolding ingest_snapshot_def splice_def
  using anchor_ok [OF assms, of now u] assms(1) by (intro recalculate_ok replay_ring_ok) simp_all

lemma ingest_delta_ok [inv_intros]:
  assumes "numpy_ok np" and "book_ok b"
  shows "book_ok (fst (ingest_delta np now m b))"
proof -
  have rej: "book_ok (b\<lparr>nb_reject := r\<rparr>)" for r using assms(2) by simp
  have upd: "book_ok (apply_rows np bids asks (b\<lparr>nb_reject := None\<rparr>)\<lparr>nb_u := u, nb_mono := t, nb_last_seq := sq\<rparr>)"
    if "nb_u b \<noteq> 0" for bids asks u t sq
    using assms that by (auto simp: book_ok_def apply_rows_eq side_applies_ok)
  show ?thesis
    using upd rej [THEN hard_reset_ok] rej assms(2)
    by (auto simp: ingest_delta_def Let_def split: option.splits)
qed

section \<open>An accepted delta is a map update\<close>

definition book_bids :: "book \<Rightarrow> int \<rightharpoonup> int" where
  "book_bids b = (\<lambda>p. side_map (nb_bid b) (- p))"

definition book_asks :: "book \<Rightarrow> int \<rightharpoonup> int" where
  "book_asks b = side_map (nb_ask b)"

definition set_row :: "int \<times> int \<Rightarrow> (int \<rightharpoonup> int) \<Rightarrow> (int \<rightharpoonup> int)" where
  "set_row r m = (if snd r \<le> 0 then m(fst r := None) else m(fst r \<mapsto> snd r))"

lemma length_upd_rows: "length (upd_rows L key qty rows) \<le> Suc (length rows)"
proof -
  have "length rows = length (takeWhile (\<lambda>r. fst r < key) rows) + length (dropWhile (\<lambda>r. fst r < key) rows)"
    by (metis length_append takeWhile_dropWhile_id)
  then show ?thesis
    by (cases "dropWhile (\<lambda>r. fst r < key) rows") (auto simp: upd_rows_def Let_def)
qed

lemma side_apply_count:
  assumes "numpy_ok np" and "side_ok L s"
  shows "bs_n (side_apply np L key qty s) \<le> Suc (bs_n s)"
proof -
  have sh: "side_shape L s" using assms(2) by (simp add: side_ok_def)
  note a = side_apply_rows [OF assms, of key qty]
  have "bs_n (side_apply np L key qty s) = length (upd_rows L key qty (side_rows s))"
    using a side_rows_length [of L "side_apply np L key qty s"] by simp
  also have "\<dots> \<le> Suc (bs_n s)" using length_upd_rows [of L key qty "side_rows s"] sh by simp
  finally show ?thesis .
qed

lemma side_applies_map:
  assumes "numpy_ok np" and "side_ok L s" and "inj to_key" and "bs_n s + length rows \<le> L"
  shows "(\<lambda>p. side_map (side_applies np L to_key rows s) (to_key p)) = fold set_row rows (\<lambda>p. side_map s (to_key p))"
  using assms
proof (induction rows arbitrary: s)
  case Nil
  then show ?case by (simp add: side_applies_def)
next
  case (Cons r rows)
  let ?s = "side_apply np L (to_key (fst r)) (snd r) s"
  have n: "bs_n s < L" using Cons.prems by simp
  have "(\<lambda>p. side_map ?s (to_key p)) = set_row r (\<lambda>p. side_map s (to_key p))"
    using side_apply_map [OF Cons.prems(1,2), of "to_key (fst r)" "snd r"] n Cons.prems(3)
    by (auto simp: upd_map_def set_row_def fun_eq_iff inj_eq)
  moreover have "(\<lambda>p. side_map (side_applies np L to_key rows ?s) (to_key p)) = fold set_row rows (\<lambda>p. side_map ?s (to_key p))"
    using Cons.prems side_apply_count [OF Cons.prems(1,2), of "to_key (fst r)" "snd r"]
      side_apply_ok [OF Cons.prems(1,2)]
    by (intro Cons.IH) auto
  ultimately show ?case by (simp add: side_applies_def)
qed


definition demo_book :: book where
  "demo_book = \<lparr>nb_symbol = ''B'', nb_levels = 4, nb_max_age = 2, nb_u = 7, nb_last_seq = 0, nb_reject = None,
     nb_consistent = True, nb_epoch = 1, nb_mono = 1,
     nb_bid = \<lparr>bs_px = [-10, -9, 0, 0], bs_q = [5, 6, 0, 0], bs_n = 2\<rparr>,
     nb_ask = \<lparr>bs_px = [11, 12, 0, 0], bs_q = [3, 4, 0, 0], bs_n = 2\<rparr>,
     nb_ring = empty_ring, nb_lut = replicate 1024 1024, nb_ask_ctr = [0, 0, 0, 0], nb_ask_lam = [0, 0, 0, 0],
     nb_bid_ctr = [0, 0, 0, 0], nb_bid_lam = [0, 0, 0, 0]\<rparr>"

lemma demo_book_ok: "book_ok demo_book"
  by (simp add: book_ok_def demo_book_def side_ok_def side_shape_def side_rows_def rows_ok_def)

definition demo_delta :: delta_msg where
  "demo_delta = \<lparr>dm_u = 8, dm_range = Some 8, dm_seq = None, dm_bids = [(10, 0)], dm_asks = [(13, 2)]\<rparr>"

lemma demo_delta_accepted: "\<exists>b'. ingest_delta np now demo_delta demo_book = (b', True)"
  by (simp add: ingest_delta_def demo_delta_def demo_book_def gap_before_def Let_def)


text \<open>A delta that is not accepted changes nothing of the book but the reject reason and
  the buffer, or empties it: then it has no level, no anchor and a new epoch, and this is
  exactly when its range is inverted or leaves a gap.\<close>

theorem delta_rejected:
  assumes "ingest_delta np now m b = (b', False)"
  shows "if nb_u b \<noteq> 0 \<and> ((\<exists>lo. dm_range m = Some lo \<and> dm_u m < lo) \<or> nb_u b < dm_u m \<and> gap_before (dm_range m) b)
    then nb_u b' = 0 \<and> \<not> nb_consistent b' \<and> bs_n (nb_bid b') = 0 \<and> bs_n (nb_ask b') = 0
      \<and> nb_epoch b' = Suc (nb_epoch b) \<and> pending (nb_ring b') = []
    else nb_bid b' = nb_bid b \<and> nb_ask b' = nb_ask b \<and> nb_u b' = nb_u b \<and> nb_consistent b' = nb_consistent b
      \<and> nb_epoch b' = nb_epoch b \<and> nb_mono b' = nb_mono b
      \<and> nb_ring b' = (if nb_u b = 0 then write_frame m (nb_ring b) else nb_ring b)"
  using assms
  by (auto simp: ingest_delta_def hard_reset_def side_clear_def pending_def Let_def split: if_splits option.splits)

theorem delta_rejected_witness:
  "\<exists>b'. ingest_delta numpy_ref 2 (demo_delta\<lparr>dm_u := 99, dm_range := Some 9\<rparr>) demo_book = (b', False)
     \<and> nb_u b' = 0 \<and> nb_epoch b' = 2"
proof -
  obtain b' where r: "ingest_delta numpy_ref 2 (demo_delta\<lparr>dm_u := 99, dm_range := Some 9\<rparr>) demo_book = (b', False)"
    by (simp add: ingest_delta_def demo_delta_def demo_book_def gap_before_def)
  from delta_rejected [OF r] r show ?thesis
    by (simp add: demo_delta_def demo_book_def gap_before_def)
qed

section \<open>The replay after a snapshot\<close>

definition core :: "book \<Rightarrow> book" where
  "core b = b\<lparr>nb_ring := empty_ring\<rparr>"

fun replay_list :: "numpy \<Rightarrow> delta_msg list \<Rightarrow> book \<Rightarrow> book" where
  "replay_list np [] b = b"
| "replay_list np (m # ms) b =
     (if dm_u m \<le> nb_u b then replay_list np ms b
      else if gap_before (dm_range m) b then hard_reset (b\<lparr>nb_reject := Some ''sequence_gap''\<rparr>)
      else replay_list np ms (replay_msg np m b))"

lemma replay_msg_ring [simp]: "replay_msg np m (b\<lparr>nb_ring := r\<rparr>) = (replay_msg np m b)\<lparr>nb_ring := r\<rparr>"
  by (simp add: replay_msg_def apply_rows_eq Let_def split: option.split)

lemma gap_before_ring [simp]: "gap_before lo (b\<lparr>nb_ring := r\<rparr>) = gap_before lo b"
  by (simp add: gap_before_def split: option.split)

lemma core_ring [simp]: "core (b\<lparr>nb_ring := r\<rparr>) = core b" "core (core b) = core b"
  by (simp_all add: core_def)

lemma replay_list_ring: "core (replay_list np ms (b\<lparr>nb_ring := r\<rparr>)) = core (replay_list np ms b)"
proof (induction ms arbitrary: b)
  case (Cons m ms)
  have "core (hard_reset (b\<lparr>nb_ring := r, nb_reject := x\<rparr>)) = core (hard_reset (b\<lparr>nb_reject := x\<rparr>))" for x
    by (simp add: core_def hard_reset_def)
  with Cons show ?case by simp
qed simp

lemma pending_reset [simp]: "pending (r\<lparr>rg_epoch := 0, rg_head := 0, rg_tail := 0\<rparr>) = []"
  by (simp add: pending_def)

lemma replay_ring_list:
  assumes "ring_ok (nb_ring b)" and "length (pending (nb_ring b)) < n"
  shows "core (replay_ring np n b) = core (replay_list np (pending (nb_ring b)) b)
    \<and> pending (nb_ring (replay_ring np n b)) = []"
  using assms
proof (induction n arbitrary: b)
  case (Suc n)
  note rd = read_next_frame_pending [OF Suc.prems(1)]
  show ?case
  proof (cases "pending (nb_ring b)")
    case Nil
    with rd have "read_next_frame (nb_ring b) = (nb_ring b, None)" by simp
    with Nil show ?thesis by simp
  next
    case (Cons m ms)
    with rd obtain r where r: "read_next_frame (nb_ring b) = (r, Some m)" "pending r = ms" "ring_ok r"
      by (cases "read_next_frame (nb_ring b)") auto
    let ?b = "b\<lparr>nb_ring := r\<rparr>"
    have len: "length ms < n" using Suc.prems(2) Cons by simp
    from Suc.IH [of ?b] Suc.IH [of "(replay_msg np m b)\<lparr>nb_ring := r\<rparr>"] r len Cons
      replay_list_ring [of np ms r b] replay_list_ring [of np ms r "replay_msg np m b"]
    show ?thesis
      by (auto simp: Let_def core_def hard_reset_def)
  qed
qed simp

lemma replay_list_stale:
  "replay_list np (dropWhile (\<lambda>m. dm_u m < nb_u b) ms) b = replay_list np ms b"
  by (induction ms) auto

lemma recalculate_core: "core (recalculate np al be ga b) = recalculate np al be ga (core b)"
  by (simp add: core_def recalculate_def best_bid_def best_ask_def Let_def)

lemma recalculate_ring [simp]: "nb_ring (recalculate np al be ga b) = nb_ring b"
  by (simp add: recalculate_def Let_def)

lemma ring_pending_length: "ring_ok r \<Longrightarrow> length (pending r) \<le> ring_capacity"
  by (simp add: ring_ok_def pending_def)

lemma splice_pending:
  assumes "ring_ok (nb_ring b)"
  shows "\<exists>r. splice b = b\<lparr>nb_ring := r\<rparr> \<and> ring_ok r \<and> replay_list np (pending r) b = replay_list np (pending (nb_ring b)) b"
proof -
  obtain r ok where f: "fast_forward_splice (nb_u b) (nb_ring b) = (r, ok)" by force
  from splice_drops_older_aux [OF assms, of "nb_u b"] f assms show ?thesis
    by (intro exI [of _ r]) (auto simp: splice_def replay_list_stale split: bool.splits)
qed

lemma snapshot_replays_buffer_aux:
  assumes "ring_ok (nb_ring b)"
  shows "core (ingest_snapshot np now u bids asks b)
       = core (recalculate np 1 (5/10) 10 (replay_list np (pending (nb_ring b)) (anchor np now u bids asks b)))
    \<and> pending (nb_ring (ingest_snapshot np now u bids asks b)) = []"
proof -
  let ?a = "anchor np now u bids asks b"
  have "ring_ok (nb_ring ?a)" and pa: "nb_ring ?a = nb_ring b" using assms by (simp_all add: anchor_def)
  from splice_pending [OF this(1), of np] obtain r where r: "splice ?a = ?a\<lparr>nb_ring := r\<rparr>" "ring_ok r"
    "replay_list np (pending r) ?a = replay_list np (pending (nb_ring b)) ?a"
    unfolding pa by blast
  have "length (pending r) < Suc ring_capacity" using ring_pending_length [OF r(2)] by simp
  with replay_ring_list [of "splice ?a" "Suc ring_capacity" np] r
  have "core (replay_ring np (Suc ring_capacity) (splice ?a)) = core (replay_list np (pending (nb_ring b)) ?a)"
    "pending (nb_ring (replay_ring np (Suc ring_capacity) (splice ?a))) = []"
    by (simp_all add: replay_list_ring del: replay_ring.simps)
  then show ?thesis by (simp add: ingest_snapshot_def recalculate_core del: replay_ring.simps)
qed

text \<open>After a snapshot the book is the snapshot's rows with every message still buffered
  replayed in order, older ones skipped and a gap emptying it, and the buffer is empty; the
  splice that moves the buffer's tail first never changes the result.\<close>

theorem snapshot_replays_buffer:
  assumes "ring_ok (nb_ring b)"
  shows "core (ingest_snapshot np now u bids asks b)
       = core (recalculate np 1 (5/10) 10 (replay_list np (pending (nb_ring b)) (anchor np now u bids asks b)))
    \<and> pending (nb_ring (ingest_snapshot np now u bids asks b)) = []"
  using assms by (rule snapshot_replays_buffer_aux)

theorem snapshot_replays_buffer_witness:
  "pending (nb_ring (ingest_snapshot numpy_ref 3 20 [(10, 1)] [(11, 1)] demo_book)) = []"
  using snapshot_replays_buffer [of demo_book]
  by (simp add: ring_ok_def demo_book_def empty_ring_def del: replay_ring.simps)

section \<open>Buffering is transparent\<close>

text \<open>What a feed must be so that no message is rejected for its range, a gap or its sequence
  number, from the id and the sequence number of an anchored book.\<close>

fun feed_ok :: "int \<Rightarrow> int \<Rightarrow> delta_msg list \<Rightarrow> bool" where
  "feed_ok u s [] = True"
| "feed_ok u s (m # ms) =
     ((case dm_range m of None \<Rightarrow> True | Some lo \<Rightarrow> lo \<le> dm_u m)
      \<and> (if dm_u m \<le> u then feed_ok u s ms
         else (case dm_range m of None \<Rightarrow> True | Some lo \<Rightarrow> lo \<le> u + 1)
           \<and> (case dm_seq m of None \<Rightarrow> True | Some x \<Rightarrow> 0 < x \<and> s < x)
           \<and> feed_ok (dm_u m) (case dm_seq m of None \<Rightarrow> s | Some x \<Rightarrow> x) ms))"

definition content :: "book \<Rightarrow> book_side \<times> book_side \<times> int \<times> int \<times> bool \<times> nat" where
  "content b = (nb_bid b, nb_ask b, nb_u b, nb_last_seq b, nb_consistent b, nb_levels b)"

definition take_deltas :: "numpy \<Rightarrow> (time \<times> delta_msg) list \<Rightarrow> book \<Rightarrow> book" where
  "take_deltas np tms b = fold (\<lambda>(t, m) b. fst (ingest_delta np t m b)) tms b"

lemma content_recalculate [simp]: "content (recalculate np al be ga b) = content b"
  by (simp add: content_def recalculate_def Let_def)

lemma content_core [simp]: "content (core b) = content b"
  by (simp add: content_def core_def)

lemma replay_msg_content:
  "content b = content b' \<Longrightarrow> content (replay_msg np m b) = content (replay_msg np m b')"
  by (simp add: content_def replay_msg_def apply_rows_eq Let_def split: option.split)

lemma replay_msg_u [simp]: "nb_u (replay_msg np m b) = dm_u m"
  "nb_last_seq (replay_msg np m b) = (case dm_seq m of None \<Rightarrow> nb_last_seq b | Some s \<Rightarrow> s)"
  by (simp_all add: replay_msg_def Let_def apply_rows_eq split: option.split)

lemma delta_as_replay:
  assumes "0 < nb_u b" and "0 \<le> nb_last_seq b" and "feed_ok (nb_u b) (nb_last_seq b) [m]"
  shows "content (fst (ingest_delta np t m b)) = content (if dm_u m \<le> nb_u b then b else replay_msg np m b)"
proof (cases "dm_u m \<le> nb_u b")
  case True
  with assms show ?thesis
    by (auto simp: ingest_delta_def content_def split: option.splits)
next
  case False
  with assms have "\<not> gap_before (dm_range m) b"
    "\<not> (case dm_range m of None \<Rightarrow> False | Some lo \<Rightarrow> dm_u m < lo)"
    "\<not> (case dm_seq m of None \<Rightarrow> False | Some s \<Rightarrow> 0 < nb_last_seq b \<and> s \<le> nb_last_seq b)"
    by (auto simp: gap_before_def split: option.splits)
  with False assms(1) show ?thesis
    by (simp add: ingest_delta_def replay_msg_def content_def apply_rows_eq Let_def split: option.split)
qed

lemma content_snapshot:
  assumes "ring_ok (nb_ring b)"
  shows "content (ingest_snapshot np now u bids asks b) = content (replay_list np (pending (nb_ring b)) (anchor np now u bids asks b))"
  using arg_cong [OF snapshot_replays_buffer_aux [OF assms, THEN conjunct1], of content] by simp

lemma take_deltas_content:
  assumes "0 < nb_u b" and "0 \<le> nb_last_seq b" and "feed_ok (nb_u b) (nb_last_seq b) (map snd tms)"
    and "content b = content b'"
  shows "content (take_deltas np tms b) = content (replay_list np (map snd tms) b')"
  using assms
proof (induction tms arbitrary: b b')
  case Nil
  then show ?case by (simp add: take_deltas_def)
next
  case (Cons tm tms)
  obtain t m where tm: "tm = (t, m)" by force
  let ?b = "fst (ingest_delta np t m b)"
  have u: "nb_u b' = nb_u b" "nb_last_seq b' = nb_last_seq b" using Cons.prems(4) by (simp_all add: content_def)
  have one: "feed_ok (nb_u b) (nb_last_seq b) [m]" using Cons.prems(3) by (auto simp: tm split: if_splits)
  note step = delta_as_replay [OF Cons.prems(1,2) one, of np t]
  have fold1: "take_deltas np ((t, m) # tms) b = take_deltas np tms ?b" by (simp add: take_deltas_def)
  show ?case
  proof (cases "dm_u m \<le> nb_u b")
    case True
    with step Cons.prems have c: "content ?b = content b'" by simp
    then have "nb_u ?b = nb_u b" "nb_last_seq ?b = nb_last_seq b" using u by (simp_all add: content_def)
    with Cons.IH [of ?b b'] Cons.prems True c u show ?thesis by (simp add: fold1 tm)
  next
    case False
    let ?r = "replay_msg np m b'"
    have c: "content ?b = content ?r" using step False replay_msg_content [OF Cons.prems(4), of np m] by simp
    then have "nb_u ?b = dm_u m" "nb_last_seq ?b = (case dm_seq m of None \<Rightarrow> nb_last_seq b | Some s \<Rightarrow> s)"
      using u by (simp_all add: content_def split: option.split)
    moreover have "\<not> gap_before (dm_range m) b'"
      using Cons.prems(3) False u by (auto simp: tm gap_before_def split: option.splits)
    ultimately show ?thesis
      using Cons.IH [of ?b ?r] Cons.prems False c u
      by (auto simp: fold1 tm split: option.splits)
  qed
qed

lemma buffer_deltas:
  assumes "nb_u b = 0" and "ring_ok (nb_ring b)" and "unat (rg_head (nb_ring b)) + length tms < 2 ^ 64"
    and "length (pending (nb_ring b)) + length tms \<le> ring_capacity"
    and "list_all (\<lambda>m. msg_fits m \<and> clipped m = m) (map snd tms)"
  shows "\<exists>r x. take_deltas np tms b = b\<lparr>nb_ring := r, nb_reject := x\<rparr> \<and> ring_ok r
    \<and> pending r = pending (nb_ring b) @ map snd tms"
  using assms
proof (induction tms arbitrary: b)
  case Nil
  then show ?case
    by (intro exI [of _ "nb_ring b"] exI [of _ "nb_reject b"]) (simp add: take_deltas_def)
next
  case (Cons tm tms)
  obtain t m where tm: "tm = (t, m)" by force
  let ?b = "fst (ingest_delta np t m b)"
  have b: "?b = b\<lparr>nb_ring := write_frame m (nb_ring b), nb_reject := Some ''no_snapshot_anchor''\<rparr>"
    using Cons.prems(1) by (simp add: ingest_delta_def)
  have fits: "msg_fits m" "clipped m = m" using Cons.prems(5) by (simp_all add: tm)
  have "unat (rg_head (nb_ring b)) + 1 < 2 ^ 64" using Cons.prems(3) by simp
  from write_frame_pending [OF Cons.prems(2) this fits(1)] fits(2) Cons.prems(4)
  have w: "pending (nb_ring ?b) = pending (nb_ring b) @ [m]" "ring_ok (nb_ring ?b)"
    "unat (rg_head (nb_ring ?b)) = Suc (unat (rg_head (nb_ring b)))"
    by (simp_all add: b)
  have "\<exists>r x. take_deltas np tms ?b = ?b\<lparr>nb_ring := r, nb_reject := x\<rparr> \<and> ring_ok r
      \<and> pending r = pending (nb_ring ?b) @ map snd tms"
    using Cons.prems w by (intro Cons.IH) (simp_all add: b)
  then show ?case by (auto simp: take_deltas_def tm w(1)) (auto simp: b)
qed

lemma buffering_transparent_aux:
  assumes "book_init np sy L age = Inr b" and "0 < u" and "feed_ok u 0 (map snd tms)"
    and "length tms \<le> ring_capacity" and "list_all (\<lambda>m. msg_fits m \<and> clipped m = m) (map snd tms)"
  shows "content (ingest_snapshot np now u bids asks (take_deltas np tms b))
       = content (take_deltas np tms (ingest_snapshot np now u bids asks b))"
proof -
  have b: "nb_u b = 0" "nb_ring b = empty_ring"
    using assms(1) by (auto simp: book_init_def precompute_lut_def split: if_splits)
  have e: "ring_ok empty_ring" "pending empty_ring = []" "unat (rg_head empty_ring) = 0"
    by (simp_all add: ring_ok_def empty_ring_def pending_def)
  let ?a = "anchor np now u bids asks b"
  obtain r x where buf: "take_deltas np tms b = b\<lparr>nb_ring := r, nb_reject := x\<rparr>" "ring_ok r" "pending r = map snd tms"
    using buffer_deltas [of b tms np] b e assms(4,5) by (auto simp: ring_capacity_def)
  have a: "anchor np now u bids asks (b\<lparr>nb_ring := r, nb_reject := x\<rparr>) = ?a\<lparr>nb_ring := r\<rparr>"
    by (simp add: anchor_def)
  have "content (ingest_snapshot np now u bids asks (take_deltas np tms b))
      = content (replay_list np (map snd tms) (?a\<lparr>nb_ring := r\<rparr>))"
    using content_snapshot [of "b\<lparr>nb_ring := r, nb_reject := x\<rparr>" np now u bids asks] buf a by simp
  also have "\<dots> = content (replay_list np (map snd tms) ?a)"
    by (metis content_core replay_list_ring)
  also have "\<dots> = content (take_deltas np tms (ingest_snapshot np now u bids asks b))"
  proof -
    have c: "content (ingest_snapshot np now u bids asks b) = content ?a"
      using content_snapshot [of b np now u bids asks] b e by simp
    then have "nb_u (ingest_snapshot np now u bids asks b) = u" "nb_last_seq (ingest_snapshot np now u bids asks b) = 0"
      by (simp_all add: content_def anchor_def)
    with take_deltas_content [OF _ _ _ c, of tms np] assms(2,3) show ?thesis by simp
  qed
  finally show ?thesis .
qed


definition fresh_book :: book where
  "fresh_book = projr (book_init numpy_ref ''btc'' 4 2500)"

lemma fresh_book_init: "book_init numpy_ref ''btc'' 4 2500 = Inr fresh_book"
  by (simp add: fresh_book_def book_init_def)


section \<open>Sortedness over any history\<close>

datatype book_event =
    EvSnapshot time int "(int \<times> int) list" "(int \<times> int) list"
  | EvDelta time delta_msg
  | EvFactors real real real
  | EvLut real

fun book_step :: "numpy \<Rightarrow> book_event \<Rightarrow> book \<Rightarrow> book" where
  "book_step np (EvSnapshot now u bids asks) b = ingest_snapshot np now u bids asks b"
| "book_step np (EvDelta now m) b = fst (ingest_delta np now m b)"
| "book_step np (EvFactors al be ga) b = recalculate np al be ga b"
| "book_step np (EvLut dt) b = precompute_lut np dt b"

fun event_ok :: "book_event \<Rightarrow> bool" where
  "event_ok (EvSnapshot now u bids asks) = (rows_distinct bids \<and> rows_distinct asks)"
| "event_ok _ = True"

lemma book_init_ok: "book_init np sy L age = Inr b \<Longrightarrow> book_ok b \<and> nb_levels b = L"
  using side_init_ok [of L]
  by (auto simp: book_init_def book_ok_def precompute_lut_def side_init_def split: if_splits)

lemma book_step_ok [inv_intros]: "numpy_ok np \<Longrightarrow> book_ok b \<Longrightarrow> event_ok ev \<Longrightarrow> book_ok (book_step np ev b)"
  by (cases ev) (auto intro: inv_intros)

lemma replay_ring_levels: "nb_levels (replay_ring np n b) = nb_levels b"
  by (induction np n b rule: replay_ring.induct)
    (auto simp: Let_def hard_reset_def replay_msg_def apply_rows_eq split: prod.split option.split)

lemma book_step_levels: "nb_levels (book_step np ev b) = nb_levels b"
  by (cases ev)
    (simp_all add: ingest_snapshot_def splice_def anchor_def replay_ring_levels recalculate_def precompute_lut_def
      ingest_delta_def hard_reset_def apply_rows_eq Let_def del: replay_ring.simps)

definition bid_prices :: "book \<Rightarrow> (int \<times> int) list" where
  "bid_prices b = map (\<lambda>r. (- fst r, snd r)) (side_rows (nb_bid b))"



end
