(* ===== verification/Order_Size.thy ===== *)
theory Order_Size
  imports Order_Book
begin

text \<open>
  Reading the book: the depth within a band around the mid price and the order-size walk
  (\<open>get_cumulative_depth\<close>, \<open>calculate_msq\<close>, \<open>try_occ_msq\<close> in
  \<open>src/src/infrastructure/gektor_l2/nd_orderbook.py\<close>).  The lemmas show that the depth loop's
  early break loses nothing, that the binary search finds the largest affordable quantity,
  and that an order size never costs more than its target, fees included.
\<close>

section \<open>Depth and order size\<close>

text \<open>The ask walk only tests the upper limit, the bid walk only the lower one.\<close>

fun ask_walk :: "int \<Rightarrow> (int \<times> int) list \<Rightarrow> int" where
  "ask_walk bound [] = 0"
| "ask_walk bound ((p, q) # rows) = (if bound < p then 0 else (p * q) div SCALE + ask_walk bound rows)"

fun bid_walk :: "int \<Rightarrow> (int \<times> int) list \<Rightarrow> int" where
  "bid_walk bound [] = 0"
| "bid_walk bound ((p, q) # rows) = (if p < bound then 0 else (p * q) div SCALE + bid_walk bound rows)"

definition cumulative_depth :: "int \<Rightarrow> book \<Rightarrow> (int \<times> int) option" where
  "cumulative_depth bps b =
     (if \<not> nb_consistent b \<or> bs_n (nb_bid b) = 0 \<or> bs_n (nb_ask b) = 0 then None
      else
        let mid = (best_bid b + best_ask b) div 2; half = (mid * bps) div 10000
        in Some (bid_walk (mid - half) (bid_prices b), ask_walk (mid + half) (side_rows (nb_ask b))))"

text \<open>The quantity the walk may count on at level \<open>i\<close>, in fixed point.\<close>

definition survivable_qty :: "book \<Rightarrow> nat \<Rightarrow> int" where
  "survivable_qty b i =
     (let q = bs_q (nb_ask b) ! i
      in if q \<le> 0 then 0
         else drop_bit 20 (q * (1024 - nb_ask_ctr b ! i) * nb_lut b ! nat (nb_ask_lam b ! i)))"

definition ask_ladder :: "book \<Rightarrow> (int \<times> int) list" where
  "ask_ladder b = map (\<lambda>i. (bs_px (nb_ask b) ! i, survivable_qty b i)) [0 ..< bs_n (nb_ask b)]"

definition cost :: "int \<Rightarrow> int \<Rightarrow> int" where
  "cost p q = (p * q) div SCALE + ((p * q) div SCALE * FEE_NUM) div FEE_DEN"

function bisect :: "int \<Rightarrow> int \<Rightarrow> int \<Rightarrow> int \<Rightarrow> int \<Rightarrow> int" where
  "bisect p budget lo hi best =
     (if lo \<le> hi
      then (let mid = (lo + hi) div 2
            in if cost p mid \<le> budget then bisect p budget (mid + 1) hi mid
               else bisect p budget lo (mid - 1) best)
      else best)"
  by pat_completeness auto
termination by (relation "measure (\<lambda>(p, budget, lo, hi, best). nat (hi + 1 - lo))") auto

declare bisect.simps [simp del]

fun msq_walk :: "(int \<times> int) list \<Rightarrow> int \<Rightarrow> int \<Rightarrow> int \<Rightarrow> int \<times> int" where
  "msq_walk [] remaining qty notional = (qty, notional)"
| "msq_walk ((p, q) # rows) remaining qty notional =
     (if remaining \<le> 0 then (qty, notional)
      else if q \<le> 0 then msq_walk rows remaining qty notional
      else if cost p q \<le> remaining
      then msq_walk rows (remaining - cost p q) (qty + q) (notional + (p * q) div SCALE)
      else
        let best = bisect p remaining 0 q 0
        in if best \<le> 0 then (qty, notional) else (qty + best, notional + (p * best) div SCALE))"

definition calculate_msq_unlocked :: "int \<Rightarrow> book \<Rightarrow> (int \<times> int) option" where
  "calculate_msq_unlocked target b =
     (let (qty, notional) = msq_walk (ask_ladder b) target 0 0
      in if qty \<le> 0 then None else Some (qty, (notional * SCALE) div qty))"

definition calculate_msq :: "int \<Rightarrow> book \<Rightarrow> (int \<times> int) option" where
  "calculate_msq target b =
     (if \<not> nb_consistent b \<or> target \<le> 0 \<or> bs_n (nb_ask b) = 0 then None
      else calculate_msq_unlocked target b)"

definition try_occ_msq :: "int \<Rightarrow> book \<Rightarrow> ((int \<times> int) \<times> nat) option" where
  "try_occ_msq target b =
     (if \<not> nb_consistent b \<or> target \<le> 0 \<or> bs_n (nb_ask b) = 0 \<or> nb_u b = 0 then None
      else (case calculate_msq_unlocked target b of
              None \<Rightarrow> None
            | Some out \<Rightarrow> if out = (0, 0) then None else Some (out, nb_epoch b)))"

section \<open>The depth walk\<close>

definition notional_of :: "(int \<times> int) list \<Rightarrow> int" where
  "notional_of rows = sum_list (map (\<lambda>r. (fst r * snd r) div SCALE) rows)"

lemma ask_walk_filter:
  "sorted_wrt (\<lambda>x y. fst x < fst y) rows \<Longrightarrow> ask_walk bound rows = notional_of (filter (\<lambda>r. fst r \<le> bound) rows)"
proof (induction bound rows rule: ask_walk.induct)
  case (2 bound p q rows)
  show ?case
  proof (cases "bound < p")
    case True
    with 2(2) have "filter (\<lambda>r. fst r \<le> bound) rows = []" by (auto simp: filter_empty_conv)
    with True show ?thesis by (simp add: notional_of_def)
  qed (use 2 in \<open>simp add: notional_of_def\<close>)
qed (simp add: notional_of_def)

lemma bid_walk_filter:
  "sorted_wrt (\<lambda>x y. fst y < fst x) rows \<Longrightarrow> bid_walk bound rows = notional_of (filter (\<lambda>r. bound \<le> fst r) rows)"
proof (induction bound rows rule: bid_walk.induct)
  case (2 bound p q rows)
  show ?case
  proof (cases "p < bound")
    case True
    with 2(2) have "filter (\<lambda>r. bound \<le> fst r) rows = []" by (auto simp: filter_empty_conv)
    with True show ?thesis by (simp add: notional_of_def)
  qed (use 2 in \<open>simp add: notional_of_def\<close>)
qed (simp add: notional_of_def)

lemma book_ok_orders:
  "book_ok b \<Longrightarrow> sorted_wrt (\<lambda>x y. fst y < fst x) (bid_prices b) \<and> sorted_wrt (\<lambda>x y. fst x < fst y) (side_rows (nb_ask b))"
  by (auto simp: book_ok_def side_ok_def rows_ok_def bid_prices_def sorted_wrt_map)

text \<open>On a well-formed consistent book the depth is the notional of exactly the bids at or
  above the lower and the asks at or below the upper limit of the band around the mid
  price: breaking off each walk at the first level outside loses nothing.\<close>

theorem depth_is_band_sum:
  assumes "book_ok b" and "is_consistent b"
  shows "cumulative_depth bps b =
    (let mid = (best_bid b + best_ask b) div 2; half = (mid * bps) div 10000
     in Some (notional_of (filter (\<lambda>r. mid - half \<le> fst r) (bid_prices b)),
              notional_of (filter (\<lambda>r. fst r \<le> mid + half) (side_rows (nb_ask b)))))"
  using assms book_ok_orders [OF assms(1)]
  by (simp add: cumulative_depth_def is_consistent_def Let_def ask_walk_filter bid_walk_filter)

theorem depth_is_band_sum_witness:
  "cumulative_depth 500 demo_book = Some (0, 0)"
proof -
  have "is_consistent demo_book" by (simp add: is_consistent_def demo_book_def)
  from depth_is_band_sum [OF demo_book_ok this, of 500] show ?thesis
    by (simp add: demo_book_def best_bid_def best_ask_def notional_of_def bid_prices_def side_rows_def SCALE_def Let_def)
qed

section \<open>The order-size walk\<close>

lemma cost_mono:
  assumes "0 \<le> p" and "m \<le> n"
  shows "cost p m \<le> cost p n"
proof -
  have "p * m \<le> p * n" using assms by (simp add: mult_left_mono)
  then have a: "(p * m) div SCALE \<le> (p * n) div SCALE" by (simp add: SCALE_def zdiv_mono1)
  then have "(p * m) div SCALE * FEE_NUM \<le> (p * n) div SCALE * FEE_NUM" by (simp add: FEE_NUM_def)
  then have "((p * m) div SCALE * FEE_NUM) div FEE_DEN \<le> ((p * n) div SCALE * FEE_NUM) div FEE_DEN"
    by (rule zdiv_mono1) (simp add: FEE_DEN_def)
  with a show ?thesis unfolding cost_def by linarith
qed

lemma cost_0 [simp]: "cost p 0 = 0"
  by (simp add: cost_def)

lemma bisect_invariant:
  assumes "0 \<le> budget" and "0 \<le> lo" and "lo \<le> hi + 1" and "budget < cost p (hi + 1)"
    and "if lo = 0 then best = 0 else best = lo - 1 \<and> cost p best \<le> budget"
  shows "0 \<le> bisect p budget lo hi best \<and> cost p (bisect p budget lo hi best) \<le> budget
    \<and> budget < cost p (bisect p budget lo hi best + 1) \<and> bisect p budget lo hi best \<le> hi"
  using assms
proof (induction p budget lo hi best rule: bisect.induct)
  case (1 p budget lo hi best)
  show ?case
  proof (cases "lo \<le> hi")
    case False
    with 1(5) have "lo = hi + 1" by simp
    moreover have "lo \<noteq> 0"
    proof
      assume "lo = 0"
      with \<open>lo = hi + 1\<close> 1(6) 1(3) show False by simp
    qed
    moreover have bs: "bisect p budget lo hi best = best"
      using False by (simp add: bisect.simps [of p budget lo hi best])
    ultimately show ?thesis unfolding bs using 1(4,6,7) by auto
  next
    case True
    let ?mid = "(lo + hi) div 2"
    have m: "lo \<le> ?mid" "?mid \<le> hi" using True by linarith+
    show ?thesis
    proof (cases "cost p ?mid \<le> budget")
      case yes: True
      have "bisect p budget lo hi best = bisect p budget (?mid + 1) hi ?mid"
        using True yes by (simp add: bisect.simps [of p budget lo hi best] Let_def)
      moreover have "?mid + 1 \<noteq> 0" using m 1(4) by linarith
      ultimately show ?thesis
        using 1(1) [OF True refl yes] yes m 1(3-7) by simp
    next
      case no: False
      have "bisect p budget lo hi best = bisect p budget lo (?mid - 1) best"
        using True no by (simp add: bisect.simps [of p budget lo hi best] Let_def)
      moreover have "lo \<le> ?mid - 1 + 1" "budget < cost p (?mid - 1 + 1)" using m no by simp_all
      ultimately show ?thesis
        using 1(2) [OF True refl no 1(3,4) _ _ 1(7)] m(2) by force
    qed
  qed
qed

text \<open>The search's result: the largest quantity the budget pays for, short of a level it does
  not pay for in full.\<close>

lemma bisect_largest:
  assumes "0 \<le> p" and "0 \<le> budget" and "0 < q" and "budget < cost p q"
  defines "r \<equiv> bisect p budget 0 q 0"
  shows "0 \<le> r" and "r < q" and "cost p r \<le> budget" and "budget < cost p (r + 1)"
proof -
  have "budget < cost p (q + 1)" using cost_mono [OF assms(1), of q "q + 1"] assms(4) by simp
  from bisect_invariant [OF assms(2) _ _ this, of 0 0] assms(3)
  show r: "0 \<le> r" "cost p r \<le> budget" "budget < cost p (r + 1)" by (simp_all add: r_def)
  show "r < q"
    using cost_mono [OF assms(1), of q r] r(2) assms(4) by force
qed

text \<open>What the walk takes at each level.\<close>

fun fills :: "(int \<times> int) list \<Rightarrow> int \<Rightarrow> int list" where
  "fills [] budget = []"
| "fills ((p, q) # rows) budget =
     (if budget \<le> 0 then 0 # fills rows budget
      else if q \<le> 0 then 0 # fills rows budget
      else if cost p q \<le> budget then q # fills rows (budget - cost p q)
      else bisect p budget 0 q 0 # replicate (length rows) 0)"

definition spent :: "(int \<times> int) list \<Rightarrow> int list \<Rightarrow> int" where
  "spent rows ts = sum_list (map (\<lambda>(r, t). cost (fst r) t) (zip rows ts))"

definition taken :: "(int \<times> int) list \<Rightarrow> int list \<Rightarrow> int" where
  "taken rows ts = sum_list (map (\<lambda>(r, t). (fst r * t) div SCALE) (zip rows ts))"

lemma sum_list_all_zero: "\<forall>x \<in> set xs. g x = 0 \<Longrightarrow> sum_list (map g xs) = (0::int)"
  by (induction xs) auto

lemma spent_simps [simp]:
  "spent [] ts = 0" "spent (r # rows) (t # ts) = cost (fst r) t + spent rows ts"
  "spent rows (replicate n 0) = 0"
  by (auto simp: spent_def intro!: sum_list_all_zero dest!: set_zip_rightD)

lemma taken_simps [simp]:
  "taken [] ts = 0" "taken (r # rows) (t # ts) = (fst r * t) div SCALE + taken rows ts"
  "taken rows (replicate n 0) = 0"
  by (auto simp: taken_def intro!: sum_list_all_zero dest!: set_zip_rightD)

lemma length_fills [simp]: "length (fills rows budget) = length rows"
  by (induction rows budget rule: fills.induct) auto

lemma fills_done: "budget \<le> 0 \<Longrightarrow> fills rows budget = replicate (length rows) 0"
  by (induction rows budget rule: fills.induct) auto

lemma msq_walk_fills:
  assumes "\<forall>r \<in> set rows. 0 \<le> fst r" and "0 \<le> budget"
  shows "msq_walk rows budget qty notional = (qty + sum_list (fills rows budget), notional + taken rows (fills rows budget))"
  using assms
proof (induction rows arbitrary: budget qty notional)
  case (Cons r rows)
  obtain p q where r: "r = (p, q)" by force
  show ?case
  proof (cases "0 < budget \<and> 0 < q \<and> budget < cost p q")
    case True
    note b = bisect_largest [of p budget q] 
    have "0 \<le> bisect p budget 0 q 0" using b(1) True Cons.prems r by simp
    then show ?thesis using True by (auto simp: r Let_def sum_list_replicate)
  next
    case False
    then show ?thesis
      using Cons.IH [of budget qty notional] Cons.IH [of "budget - cost p q"] Cons.prems
      by (auto simp: r fills_done sum_list_replicate)
  qed
qed simp

text \<open>The fills are affordable, within the levels, and greedy.\<close>

definition greedy :: "(int \<times> int) list \<Rightarrow> int list \<Rightarrow> int \<Rightarrow> bool" where
  "greedy rows ts budget \<longleftrightarrow>
     (\<exists>k \<le> length rows. (\<forall>i < k. ts ! i = max 0 (snd (rows ! i))) \<and> (\<forall>i < length rows. k < i \<longrightarrow> ts ! i = 0)
        \<and> (k < length rows \<longrightarrow> ts ! k < max 1 (snd (rows ! k))
             \<and> (budget \<le> spent rows ts
                \<or> budget < spent rows ts - cost (fst (rows ! k)) (ts ! k) + cost (fst (rows ! k)) (ts ! k + 1))))"

lemma greedy_full:
  assumes "greedy rows ts (budget - cost (fst r) t)" and "t = max 0 (snd r)"
  shows "greedy (r # rows) (t # ts) budget"
proof -
  obtain k where k: "k \<le> length rows" "\<forall>i < k. ts ! i = max 0 (snd (rows ! i))"
    "\<forall>i < length rows. k < i \<longrightarrow> ts ! i = 0"
    "k < length rows \<longrightarrow> ts ! k < max 1 (snd (rows ! k))
       \<and> (budget - cost (fst r) t \<le> spent rows ts
          \<or> budget - cost (fst r) t < spent rows ts - cost (fst (rows ! k)) (ts ! k) + cost (fst (rows ! k)) (ts ! k + 1))"
    using assms(1) by (auto simp: greedy_def)
  show ?thesis
    unfolding greedy_def
  proof (intro exI [of _ "Suc k"] conjI)
    show "\<forall>i < Suc k. (t # ts) ! i = max 0 (snd ((r # rows) ! i))"
      using k(2) assms(2) by (auto simp: less_Suc_eq_0_disj)
    show "\<forall>i < length (r # rows). Suc k < i \<longrightarrow> (t # ts) ! i = 0"
      using k(3) by (auto simp: less_Suc_eq_0_disj)
    show "Suc k \<le> length (r # rows)" using k(1) by simp
    show "Suc k < length (r # rows) \<longrightarrow> (t # ts) ! Suc k < max 1 (snd ((r # rows) ! Suc k))
       \<and> (budget \<le> spent (r # rows) (t # ts)
          \<or> budget < spent (r # rows) (t # ts) - cost (fst ((r # rows) ! Suc k)) ((t # ts) ! Suc k)
               + cost (fst ((r # rows) ! Suc k)) ((t # ts) ! Suc k + 1))"
    proof
      assume "Suc k < length (r # rows)"
      then have "k < length rows" by simp
      with k(4) have c: "ts ! k < max 1 (snd (rows ! k))"
        "budget - cost (fst r) t \<le> spent rows ts
          \<or> budget - cost (fst r) t < spent rows ts - cost (fst (rows ! k)) (ts ! k) + cost (fst (rows ! k)) (ts ! k + 1)"
        by blast+
      from c(2) have "budget \<le> cost (fst r) t + spent rows ts
          \<or> budget < cost (fst r) t + spent rows ts - cost (fst (rows ! k)) (ts ! k) + cost (fst (rows ! k)) (ts ! k + 1)"
        by linarith
      with c(1) show "(t # ts) ! Suc k < max 1 (snd ((r # rows) ! Suc k))
       \<and> (budget \<le> spent (r # rows) (t # ts)
          \<or> budget < spent (r # rows) (t # ts) - cost (fst ((r # rows) ! Suc k)) ((t # ts) ! Suc k)
               + cost (fst ((r # rows) ! Suc k)) ((t # ts) ! Suc k + 1))"
        by (simp only: spent_simps(2) nth_Cons_Suc)
    qed
  qed
qed

lemma greedy_stop:
  assumes "0 \<le> t" and "t < max 1 (snd r)"
    and "budget \<le> cost (fst r) t \<or> budget < cost (fst r) (t + 1)"
  shows "greedy (r # rows) (t # replicate (length rows) 0) budget"
  unfolding greedy_def using assms
  by (intro exI [of _ 0]) (auto simp: nth_Cons' split: if_splits)

lemma fills_spec:
  assumes "\<forall>r \<in> set rows. 0 \<le> fst r" and "0 \<le> budget"
  shows "spent rows (fills rows budget) \<le> budget \<and> greedy rows (fills rows budget) budget
    \<and> list_all2 (\<lambda>r t. 0 \<le> t \<and> t \<le> max 0 (snd r)) rows (fills rows budget)"
  using assms
proof (induction rows arbitrary: budget)
  case Nil
  then show ?case by (simp add: greedy_def)
next
  case (Cons r rows)
  obtain p q where r: "r = (p, q)" by force
  have p: "0 \<le> p" using Cons.prems r by simp
  have zeros: "list_all2 (\<lambda>r t. 0 \<le> t \<and> t \<le> max 0 (snd r)) rows (replicate (length rows) 0)"
    by (simp add: list_all2_conv_all_nth)
  consider "budget = 0" | "0 < budget" "q \<le> 0" | "0 < budget" "0 < q" "cost p q \<le> budget"
    | "0 < budget" "0 < q" "budget < cost p q"
    using Cons.prems(2) by linarith
  then show ?case
  proof cases
    case 1
    then show ?thesis using zeros greedy_stop [of 0 r 0 rows] by (simp add: r fills_done)
  next
    case 2
    have f: "fills (r # rows) budget = 0 # fills rows budget" using 2 by (simp add: r)
    have ih: "spent rows (fills rows budget) \<le> budget" "greedy rows (fills rows budget) budget"
      "list_all2 (\<lambda>r t. 0 \<le> t \<and> t \<le> max 0 (snd r)) rows (fills rows budget)"
      using Cons.IH [of budget] Cons.prems by auto
    have "greedy (r # rows) (0 # fills rows budget) budget"
      using ih(2) 2 by (intro greedy_full) (simp_all add: r)
    then show ?thesis using ih(1,3) unfolding f by simp
  next
    case 3
    let ?b = "budget - cost p q"
    have f: "fills (r # rows) budget = q # fills rows ?b" using 3 by (simp add: r)
    have ih: "spent rows (fills rows ?b) \<le> ?b" "greedy rows (fills rows ?b) ?b"
      "list_all2 (\<lambda>r t. 0 \<le> t \<and> t \<le> max 0 (snd r)) rows (fills rows ?b)"
      using Cons.IH [of ?b] Cons.prems 3 by auto
    have "greedy (r # rows) (q # fills rows ?b) budget"
      using ih(2) 3 by (intro greedy_full) (simp_all add: r)
    then show ?thesis using ih(1,3) 3 unfolding f by (simp add: r)
  next
    case 4
    note b = bisect_largest [OF p _ 4(2,3)]
    have "greedy (r # rows) (bisect p budget 0 q 0 # replicate (length rows) 0) budget"
      using b 4 by (intro greedy_stop) (auto simp: r)
    with b 4 zeros show ?thesis by (simp add: r)
  qed
qed

lemma taken_fills: "taken rows ts = sum_list (map (\<lambda>(r, t). (fst r * t) div SCALE) (zip rows ts))"
  by (simp add: taken_def)

text \<open>C11: an order size comes from fills level by level that together cost at most the
  target, fees included, take no more than the survivable quantity of a level, and are
  greedy: every level before the last one taken is exhausted and one more unit there would
  exceed the target; the price is the fills' notional over their quantity.\<close>

theorem msq_affordable_greedy:
  assumes "calculate_msq target b = Some (qty, avg)" and "\<forall>r \<in> set (ask_ladder b). 0 \<le> fst r"
  shows "\<exists>ts. list_all2 (\<lambda>r t. 0 \<le> t \<and> t \<le> max 0 (snd r)) (ask_ladder b) ts
    \<and> qty = sum_list ts \<and> 0 < qty \<and> spent (ask_ladder b) ts \<le> target
    \<and> avg = (taken (ask_ladder b) ts * SCALE) div qty \<and> greedy (ask_ladder b) ts target"
proof -
  have t: "0 < target" using assms(1) by (auto simp: calculate_msq_def split: if_splits)
  let ?ts = "fills (ask_ladder b) target"
  have "msq_walk (ask_ladder b) target 0 0 = (sum_list ?ts, taken (ask_ladder b) ?ts)"
    using msq_walk_fills [OF assms(2), of target 0 0] t by simp
  with assms(1) have "0 < sum_list ?ts" "qty = sum_list ?ts" "avg = (taken (ask_ladder b) ?ts * SCALE) div qty"
    by (auto simp: calculate_msq_def calculate_msq_unlocked_def split: if_splits)
  with fills_spec [OF assms(2), of target] t show ?thesis
    by (intro exI [of _ ?ts]) simp
qed

theorem msq_affordable_greedy_witness:
  "\<exists>qty avg. calculate_msq 1 demo_book = Some (qty, avg) \<and> 0 < qty"
proof -
  have l: "ask_ladder demo_book = [(11, 3), (12, 4)]"
    by (simp add: ask_ladder_def demo_book_def survivable_qty_def Let_def numeral_2_eq_2 drop_bit_eq_div)
  have "calculate_msq 1 demo_book \<noteq> None"
    by (simp add: calculate_msq_def calculate_msq_unlocked_def l cost_def SCALE_def FEE_NUM_def)
      (simp add: demo_book_def)
  then obtain qty avg where m: "calculate_msq 1 demo_book = Some (qty, avg)" by auto
  from msq_affordable_greedy [OF m] m show ?thesis by (auto simp: l)
qed

section \<open>Pessimism\<close>

text \<open>Factors in range: a survival share of at most one, a churn share of at most one.\<close>

definition factors_ok :: "book \<Rightarrow> bool" where
  "factors_ok b \<longleftrightarrow> length (nb_lut b) = 1024 \<and> (\<forall>x \<in> set (nb_lut b). 0 \<le> x \<and> x \<le> 1024)
     \<and> (\<forall>x \<in> set (nb_ask_ctr b) \<union> set (nb_bid_ctr b). 0 \<le> x \<and> x \<le> 1024)
     \<and> (\<forall>x \<in> set (nb_ask_lam b) \<union> set (nb_bid_lam b). 0 \<le> x \<and> x \<le> 1023)"

lemma py_int_range: "0 \<le> x \<Longrightarrow> x \<le> of_int k \<Longrightarrow> 0 \<le> py_int x \<and> py_int x \<le> k"
  by (auto simp: py_int_def) (metis floor_mono floor_of_int)

lemma uint16_small: "0 \<le> x \<Longrightarrow> x \<le> 1024 \<Longrightarrow> uint16 x = x"
  by (simp add: uint16_def)

lemma ctr_fp_range: "numpy_ok np \<Longrightarrow> 0 \<le> ctr_fp np k \<and> ctr_fp np k \<le> 1024"
proof -
  assume np: "numpy_ok np"
  have "0 < np_exp np (- real k / 10)" "np_exp np (- real k / 10) \<le> 1"
    using np by (simp_all add: numpy_ok_def)
  then have "0 \<le> py_int (3/10 * np_exp np (- real k / 10) * 1024) \<and> py_int (3/10 * np_exp np (- real k / 10) * 1024) \<le> 1024"
    by (intro py_int_range) simp_all
  then show ?thesis by (simp add: ctr_fp_def uint16_small)
qed

lemma lambda_fp_range: "0 \<le> lambda_fp al be ga mid sg p \<and> lambda_fp al be ga mid sg p \<le> 1023"
proof -
  have "0 \<le> min 1023 (max 0 x) \<and> min 1023 (max 0 x) \<le> (1023::int)" for x by simp
  then show ?thesis by (simp add: lambda_fp_def Let_def uint16_small)
qed

lemma set_refill: "set (refill n f old) \<subseteq> f ` {..<n} \<union> set old"
  by (auto simp: refill_def dest: in_set_dropD)

lemma precompute_factors: "numpy_ok np \<Longrightarrow> 0 \<le> dt \<Longrightarrow> factors_ok b \<Longrightarrow> factors_ok (precompute_lut np dt b)"
proof -
  assume np: "numpy_ok np" and dt: "0 \<le> dt" and f: "factors_ok b"
  have "0 \<le> uint16 (py_int (np_exp np (- (real i / 100) * dt) * 1024))
      \<and> uint16 (py_int (np_exp np (- (real i / 100) * dt) * 1024)) \<le> 1024" for i
  proof -
    have "- (real i / 100) * dt \<le> 0" using dt by simp
    then have "0 < np_exp np (- (real i / 100) * dt)" "np_exp np (- (real i / 100) * dt) \<le> 1"
      using np by (simp_all add: numpy_ok_def)
    then have "0 \<le> py_int (np_exp np (- (real i / 100) * dt) * 1024) \<and> py_int (np_exp np (- (real i / 100) * dt) * 1024) \<le> 1024"
      by (intro py_int_range) simp_all
    then show ?thesis by (simp add: uint16_small)
  qed
  then show ?thesis using f by (auto simp: factors_ok_def precompute_lut_def)
qed

lemma recalculate_factors:
  assumes "numpy_ok np" and "factors_ok b"
  shows "factors_ok (recalculate np al be ga b)"
proof -
  have r: "0 \<le> x \<and> x \<le> k" if "x \<in> set (refill n f old)" "\<forall>i. 0 \<le> f i \<and> f i \<le> k" "\<forall>y \<in> set old. 0 \<le> y \<and> y \<le> k"
    for x k :: int and n f old
    using that set_refill [of n f old] by blast
  show ?thesis
    using assms(2) ctr_fp_range [OF assms(1)] lambda_fp_range
    by (auto simp: factors_ok_def recalculate_def Let_def dest!: r)
qed

lemma factors_hard_reset [simp]: "factors_ok (hard_reset b) = factors_ok b"
  by (simp add: factors_ok_def hard_reset_def)

lemma factors_frame [simp]:
  "factors_ok (apply_rows np bids asks b) = factors_ok b" "factors_ok (replay_msg np m b) = factors_ok b"
  "factors_ok (b\<lparr>nb_reject := x\<rparr>) = factors_ok b" "factors_ok (b\<lparr>nb_ring := r\<rparr>) = factors_ok b"
  "factors_ok (b\<lparr>nb_u := u, nb_mono := t, nb_last_seq := q\<rparr>) = factors_ok b"
  "factors_ok (anchor np now u bids asks b) = factors_ok b" "factors_ok (splice b) = factors_ok b"
  by (simp_all add: factors_ok_def apply_rows_eq replay_msg_def anchor_def splice_def Let_def)

lemma factors_replay [simp]: "factors_ok (replay_ring np n b) = factors_ok b"
  by (induction np n b rule: replay_ring.induct) (auto simp: Let_def split: prod.split option.split)

lemma factors_delta [simp]: "factors_ok (fst (ingest_delta np now m b)) = factors_ok b"
proof -
  have "factors_ok (b\<lparr>nb_ring := r, nb_reject := x\<rparr>) = factors_ok b" for r x by (simp add: factors_ok_def)
  then show ?thesis by (simp add: ingest_delta_def Let_def)
qed

fun lut_ok :: "book_event \<Rightarrow> bool" where
  "lut_ok (EvLut dt) = (0 \<le> dt)"
| "lut_ok _ = True"

lemma factors_step: "numpy_ok np \<Longrightarrow> factors_ok b \<Longrightarrow> lut_ok ev \<Longrightarrow> factors_ok (book_step np ev b)"
  by (cases ev) (auto simp: ingest_snapshot_def precompute_factors intro!: recalculate_factors simp del: replay_ring.simps)

lemma factors_init: "numpy_ok np \<Longrightarrow> book_init np sy L age = Inr b \<Longrightarrow> factors_ok b"
  by (auto simp: book_init_def split: if_splits intro!: precompute_factors) (simp_all add: factors_ok_def)

lemma survivable_bounds:
  assumes "factors_ok b" and "i < length (nb_ask_ctr b)" and "i < length (nb_ask_lam b)"
  shows "0 \<le> survivable_qty b i \<and> survivable_qty b i \<le> max 0 (bs_q (nb_ask b) ! i)"
proof -
  let ?q = "bs_q (nb_ask b) ! i" and ?c = "nb_ask_ctr b ! i" and ?l = "nb_lut b ! nat (nb_ask_lam b ! i)"
  have c: "0 \<le> ?c" "?c \<le> 1024" using assms by (auto simp: factors_ok_def)
  have "0 \<le> nb_ask_lam b ! i" "nb_ask_lam b ! i \<le> 1023" using assms by (auto simp: factors_ok_def)
  then have "nat (nb_ask_lam b ! i) < length (nb_lut b)" using assms(1) by (simp add: factors_ok_def)
  then have "?l \<in> set (nb_lut b)" by simp
  then have l: "0 \<le> ?l" "?l \<le> 1024" using assms(1) by (auto simp: factors_ok_def)
  show ?thesis
  proof (cases "0 < ?q")
    case False
    then show ?thesis by (simp add: survivable_qty_def)
  next
    case True
    have "?q * (1024 - ?c) * ?l \<le> ?q * 1024 * 1024"
      using True c l by (intro mult_mono) simp_all
    then have "drop_bit 20 (?q * (1024 - ?c) * ?l) \<le> drop_bit 20 (?q * 2 ^ 20)"
      unfolding drop_bit_eq_div by (intro zdiv_mono1) simp_all
    moreover have "drop_bit 20 (?q * 2 ^ 20) = ?q" by (simp add: drop_bit_eq_div)
    moreover have "0 \<le> drop_bit 20 (?q * (1024 - ?c) * ?l)" using True c l by simp
    ultimately show ?thesis using True by (simp add: survivable_qty_def Let_def)
  qed
qed

text \<open>After any history whose background updates use a non-negative horizon, the
  fixed-point pessimism only shrinks: at every level of the book the quantity the walk
  counts on lies between zero and the quantity displayed, and never indexes outside its
  table.\<close>

theorem pessimism_only_shrinks:
  assumes "numpy_ok np" and "book_init np sy L age = Inr b0" and "list_all event_ok evs" and "list_all lut_ok evs"
  defines "b \<equiv> fold (book_step np) evs b0"
  assumes "i < bs_n (nb_ask b)"
  shows "0 \<le> survivable_qty b i \<and> survivable_qty b i \<le> bs_q (nb_ask b) ! i \<and> nat (nb_ask_lam b ! i) < length (nb_lut b)"
proof -
  have inv: "book_ok b \<and> nb_levels b = L \<and> factors_ok b"
    unfolding b_def using assms(1,3,4) book_init_ok [OF assms(2)] factors_init [OF assms(1,2)]
    by (intro fold_inv [where P = "\<lambda>b. book_ok b \<and> nb_levels b = L \<and> factors_ok b"])
      (auto simp: list_all_iff book_step_levels intro: book_step_ok factors_step)
  then have i: "i < length (nb_ask_ctr b)" "i < length (nb_ask_lam b)" "i < length (side_rows (nb_ask b))"
    using assms(6) by (auto simp: book_ok_def side_ok_def side_shape_def)
  have "snd (side_rows (nb_ask b) ! i) = bs_q (nb_ask b) ! i"
    using inv assms(6) side_rows_nth [of L "nb_ask b" i] by (auto simp: book_ok_def side_ok_def)
  moreover have "0 < snd (side_rows (nb_ask b) ! i)"
    using inv i(3) by (auto simp: book_ok_def side_ok_def rows_ok_def)
  moreover have "nb_ask_lam b ! i \<in> set (nb_ask_lam b)" using i(2) by simp
  then have "nb_ask_lam b ! i \<le> 1023" using inv by (auto simp: factors_ok_def)
  ultimately show ?thesis
    using survivable_bounds [OF _ i(1,2)] inv by (auto simp: factors_ok_def)
qed

definition demo_history :: "book_event list" where
  "demo_history = [EvSnapshot 2 6 [(10, 1)] [(12, 1), (11, 5)]]"

theorem pessimism_only_shrinks_witness:
  "survivable_qty (fold (book_step numpy_ref) demo_history fresh_book) 0
     \<le> bs_q (nb_ask (fold (book_step numpy_ref) demo_history fresh_book)) ! 0"
proof -
  have i: "ring_ok (nb_ring fresh_book)" "pending (nb_ring fresh_book) = []" "bs_n (nb_ask fresh_book) = 0"
    "nb_levels fresh_book = 4" "nb_ask fresh_book = side_init 4"
    by (simp_all add: fresh_book_def book_init_def precompute_lut_def ring_ok_def empty_ring_def pending_def side_init_def)
  have "content (ingest_snapshot numpy_ref 2 6 [(10, 1)] [(12, 1), (11, 5)] fresh_book)
      = content (anchor numpy_ref 2 6 [(10, 1)] [(12, 1), (11, 5)] fresh_book)"
    using content_snapshot [OF i(1)] i(2) by simp
  then have "bs_n (nb_ask (fold (book_step numpy_ref) demo_history fresh_book)) = 2"
    using i by (simp add: demo_history_def content_def anchor_def fill_side_def Let_def)
  with pessimism_only_shrinks [OF numpy_ref_ok fresh_book_init, of demo_history 0] show ?thesis
    by (simp add: demo_history_def rows_distinct_def del: book_step.simps fold_simps)
qed

end
