(* ===== verification/Cross_Asset.thy ===== *)
theory Cross_Asset
  imports Order_Size
begin

text \<open>
  Reading several books at once: \<open>_BookSlice\<close> and \<open>CrossAssetSnapshot\<close> in
  \<open>src/src/infrastructure/gektor_l2/nd_orderbook.py\<close>, and the error of
  \<open>gektor_l2/errors.py\<close>.  A dictionary of books is a list of pairs in its order.  The
  lemmas show what a ready book guarantees, that the bounded retry returns only perfect
  snapshots taken in time, and what the epoch check can and cannot see.
\<close>

section \<open>Snapshots\<close>

type_synonym books = "(symbol \<times> book) list"

record book_slice =
  sl_symbol :: symbol
  sl_readiness :: readiness
  sl_epoch :: nat
  sl_msq :: "(int \<times> int) option"
  sl_age :: "flt option"

record asset_snapshot =
  as_slices :: "(symbol \<times> book_slice) list"
  as_mono :: time

definition state_of :: "(symbol \<rightharpoonup> book_state) \<Rightarrow> symbol \<Rightarrow> book_state" where
  "state_of states sy = (case states sy of None \<Rightarrow> DESYNCED | Some st \<Rightarrow> st)"

definition slice_of :: "time \<Rightarrow> (symbol \<rightharpoonup> book_state) \<Rightarrow> int \<Rightarrow> bool \<Rightarrow> symbol \<times> book \<Rightarrow> symbol \<times> book_slice" where
  "slice_of now states target cb sb =
     (let (sy, b) = sb; rd = book_readiness now (state_of states sy) cb b
      in (sy, \<lparr>sl_symbol = sy, sl_readiness = rd, sl_epoch = nb_epoch b,
               sl_msq = (if rd = READY then calculate_msq target b else None),
               sl_age = data_age now b\<rparr>))"

definition take_snapshot :: "time \<Rightarrow> books \<Rightarrow> (symbol \<rightharpoonup> book_state) \<Rightarrow> int \<Rightarrow> bool \<Rightarrow> asset_snapshot" where
  "take_snapshot now books states target cb =
     \<lparr>as_slices = map (slice_of now states target cb) books, as_mono = now\<rparr>"

definition all_ready :: "asset_snapshot \<Rightarrow> bool" where
  "all_ready snap = list_all (\<lambda>(_, sl). sl_readiness sl = READY) (as_slices snap)"

definition worst_level :: "asset_snapshot \<Rightarrow> int" where
  "worst_level snap = fold max (map (\<lambda>(_, sl). readiness_level (sl_readiness sl)) (as_slices snap)) 0"

fun readiness_name :: "int \<Rightarrow> string" where
  "readiness_name n =
     (if n = 1 then ''READY'' else if n = 2 then ''EMPTY_BUT_VALID'' else if n = 3 then ''RECOVERING''
      else if n = 4 then ''BLIND_NETWORK'' else ''BLIND_STALE'')"

definition slice_unchanged :: "books \<Rightarrow> symbol \<times> book_slice \<Rightarrow> bool" where
  "slice_unchanged books ss =
     (case map_of books (fst ss) of None \<Rightarrow> False | Some b \<Rightarrow> nb_epoch b = sl_epoch (snd ss))"

definition occ_consistent :: "books \<Rightarrow> asset_snapshot \<Rightarrow> bool" where
  "occ_consistent books snap = list_all (slice_unchanged books) (as_slices snap)"

text \<open>The slower check: an unchanged epoch passes, a changed one re-reads the book.\<close>

definition slice_undamaged ::
  "time \<Rightarrow> books \<Rightarrow> (symbol \<rightharpoonup> book_state) \<Rightarrow> int \<Rightarrow> bool \<Rightarrow> symbol \<times> book_slice \<Rightarrow> bool" where
  "slice_undamaged now books states target cb ss =
     (let (sy, sl) = ss
      in case map_of books sy of
           None \<Rightarrow> False
         | Some b \<Rightarrow>
             nb_epoch b = sl_epoch sl \<or>
             (let rd = book_readiness now (state_of states sy) cb b
              in rd = sl_readiness sl \<and> (rd = READY \<longrightarrow> calculate_msq target b = sl_msq sl)))"

definition occ_consistent_msq ::
  "time \<Rightarrow> books \<Rightarrow> (symbol \<rightharpoonup> book_state) \<Rightarrow> int \<Rightarrow> bool \<Rightarrow> asset_snapshot \<Rightarrow> bool" where
  "occ_consistent_msq now books states target cb snap =
     list_all (slice_undamaged now books states target cb) (as_slices snap)"

text \<open>
  One attempt of the retry loop sees the clock at its head, and the clock, the books and
  the states when it takes its snapshot; the list has one entry per attempt.
\<close>

record attempt =
  at_head :: time
  at_take :: time
  at_books :: books
  at_states :: "symbol \<rightharpoonup> book_state"

definition attempt_snapshot :: "int \<Rightarrow> bool \<Rightarrow> attempt \<Rightarrow> asset_snapshot" where
  "attempt_snapshot target cb a = take_snapshot (at_take a) (at_books a) (at_states a) target cb"

definition isolation_error :: "nat \<Rightarrow> asset_snapshot option \<Rightarrow> py_error" where
  "isolation_error retries snap =
     SnapshotIsolationError (int retries)
       (case snap of None \<Rightarrow> ''UNKNOWN'' | Some s \<Rightarrow> readiness_name (worst_level s))"

fun retry_loop :: "nat \<Rightarrow> time \<Rightarrow> int \<Rightarrow> bool \<Rightarrow> asset_snapshot option \<Rightarrow> attempt list \<Rightarrow> py_error + asset_snapshot" where
  "retry_loop retries deadline target cb seen [] = Inl (isolation_error retries seen)"
| "retry_loop retries deadline target cb seen (a # rest) =
     (if deadline \<le> at_head a then Inl (isolation_error retries seen)
      else
        let snap = attempt_snapshot target cb a
        in if all_ready snap then Inr snap
           else retry_loop retries deadline target cb (Some snap) rest)"

definition take_with_retry :: "time \<Rightarrow> flt \<Rightarrow> int \<Rightarrow> bool \<Rightarrow> attempt list \<Rightarrow> py_error + asset_snapshot" where
  "take_with_retry now ttl target cb attempts =
     retry_loop (length attempts) (now + ttl) target cb None attempts"

section \<open>Readiness\<close>

text \<open>A book is ready exactly when the circuit breaker is closed, the socket says synced,
  the book is anchored by an id, its last update is not older than the limit (or it has
  none on the clock) and both sides have a level; and whatever stands in the way, an open
  breaker is reported before the socket state, that before a missing anchor, that before
  staleness and that before an empty side.\<close>

theorem ready_iff_safe:
  "(book_readiness now st cb b = READY \<longleftrightarrow>
      \<not> cb \<and> st = SYNCED \<and> nb_consistent b \<and> nb_u b \<noteq> 0 \<and> (nb_mono b \<le> 0 \<or> now - nb_mono b \<le> nb_max_age b)
      \<and> 0 < bs_n (nb_bid b) \<and> 0 < bs_n (nb_ask b))
   \<and> (book_readiness now st cb b = BLIND_NETWORK \<longleftrightarrow> cb \<or> st = DESYNCED)
   \<and> (book_readiness now st cb b = RD_RECOVERING \<longleftrightarrow>
        \<not> cb \<and> (st = RECOVERING \<or> st = SYNCED \<and> \<not> (nb_consistent b \<and> nb_u b \<noteq> 0)))
   \<and> (book_readiness now st cb b = BLIND_STALE \<longleftrightarrow>
        \<not> cb \<and> st = SYNCED \<and> nb_consistent b \<and> nb_u b \<noteq> 0 \<and> 0 < nb_mono b \<and> nb_max_age b < now - nb_mono b)"
  by (cases st) (auto simp: book_readiness_def)

section \<open>The bounded retry\<close>

lemma retry_loop_ready:
  "retry_loop retries deadline target cb seen as = Inr snap \<Longrightarrow>
     \<exists>a \<in> set as. at_head a < deadline \<and> snap = attempt_snapshot target cb a \<and> all_ready snap"
  by (induction retries deadline target cb seen as rule: retry_loop.induct) (auto simp: Let_def split: if_splits)

lemma retry_loop_fails:
  "retry_loop retries deadline target cb seen as = Inl e \<Longrightarrow>
     (\<exists>w. e = SnapshotIsolationError (int retries) w)
     \<and> \<not> (\<exists>a as'. as = a # as' \<and> at_head a < deadline \<and> all_ready (attempt_snapshot target cb a))"
  by (induction retries deadline target cb seen as rule: retry_loop.induct)
    (auto simp: Let_def isolation_error_def split: if_splits)

lemma all_ready_slices:
  "all_ready (take_snapshot now books states target cb) \<longleftrightarrow>
     (\<forall>(sy, b) \<in> set books. book_readiness now (state_of states sy) cb b = READY)"
  by (auto simp: all_ready_def take_snapshot_def slice_of_def list_all_iff Let_def split: prod.splits)

text \<open>The retry returns only a snapshot that one of its attempts took, begun before the
  deadline, in which every book was ready and every slice holds the order size and the
  epoch of its book at that moment; otherwise it raises the isolation error.\<close>

theorem retry_returns_perfect:
  "case take_with_retry now ttl target cb attempts of
     Inr snap \<Rightarrow>
       (\<exists>a \<in> set attempts. at_head a < now + ttl
          \<and> list_all (\<lambda>(sy, b). book_readiness (at_take a) (state_of (at_states a) sy) cb b = READY) (at_books a)
          \<and> as_slices snap = map (\<lambda>(sy, b). (sy, \<lparr>sl_symbol = sy, sl_readiness = READY, sl_epoch = nb_epoch b,
                 sl_msq = calculate_msq target b, sl_age = data_age (at_take a) b\<rparr>)) (at_books a))
   | Inl e \<Rightarrow> (\<exists>w. e = SnapshotIsolationError (int (length attempts)) w)"
proof (cases "take_with_retry now ttl target cb attempts")
  case (Inl e)
  then show ?thesis using retry_loop_fails by (fastforce simp: take_with_retry_def)
next
  case (Inr snap)
  then obtain a where a: "a \<in> set attempts" "at_head a < now + ttl" "snap = attempt_snapshot target cb a"
    "all_ready snap"
    using retry_loop_ready unfolding take_with_retry_def by blast
  then have r: "\<forall>(sy, b) \<in> set (at_books a). book_readiness (at_take a) (state_of (at_states a) sy) cb b = READY"
    by (simp add: attempt_snapshot_def all_ready_slices)
  then have "as_slices snap = map (\<lambda>(sy, b). (sy, \<lparr>sl_symbol = sy, sl_readiness = READY, sl_epoch = nb_epoch b,
                 sl_msq = calculate_msq target b, sl_age = data_age (at_take a) b\<rparr>)) (at_books a)"
    unfolding a(3) by (auto simp: attempt_snapshot_def take_snapshot_def slice_of_def)
  with a r Inr show ?thesis by (auto simp: list_all_iff)
qed

section \<open>What the epoch sees\<close>

lemma hard_reset_epoch [simp]: "nb_epoch (hard_reset b) = Suc (nb_epoch b)"
  by (simp add: hard_reset_def)

lemma replay_ring_epoch: "nb_epoch b \<le> nb_epoch (replay_ring np n b)"
  by (induction np n b rule: replay_ring.induct)
    (auto simp: Let_def replay_msg_def apply_rows_eq split: prod.split option.split)

lemma snapshot_epoch: "nb_epoch b < nb_epoch (ingest_snapshot np now u bids asks b)"
proof -
  let ?s = "splice (anchor np now u bids asks b)"
  have "nb_epoch ?s = Suc (nb_epoch b)" by (simp add: splice_def anchor_def)
  then show ?thesis
    using replay_ring_epoch [of ?s np "Suc ring_capacity"]
    by (simp add: ingest_snapshot_def recalculate_def Let_def del: replay_ring.simps)
qed

lemma delta_epoch:
  "nb_epoch (fst (ingest_delta np now m b)) =
     (if nb_u b \<noteq> 0 \<and> nb_u (fst (ingest_delta np now m b)) = 0 \<and> \<not> snd (ingest_delta np now m b)
      then Suc (nb_epoch b) else nb_epoch b)"
  by (auto simp: ingest_delta_def hard_reset_def apply_rows_eq Let_def split: option.split)

lemma recalculate_epoch [simp]: "nb_epoch (recalculate np al be ga b) = nb_epoch b"
  by (simp add: recalculate_def Let_def)

lemma precompute_epoch [simp]: "nb_epoch (precompute_lut np dt b) = nb_epoch b"
  by (simp add: precompute_lut_def)

lemma step_epoch: "nb_epoch b \<le> nb_epoch (book_step np ev b)"
  using snapshot_epoch [of b] by (cases ev) (auto simp: delta_epoch less_imp_le)

fun is_snapshot :: "book_event \<Rightarrow> bool" where
  "is_snapshot (EvSnapshot _ _ _ _) = True"
| "is_snapshot _ = False"

lemma epoch_same_step:
  assumes "nb_epoch (book_step np ev b) = nb_epoch b"
  shows "\<not> is_snapshot ev \<and> nb_consistent (book_step np ev b) = nb_consistent b"
proof (cases ev)
  case (EvSnapshot now u bids asks)
  with assms snapshot_epoch [of b np now u bids asks] show ?thesis by simp
next
  case (EvDelta now m)
  with assms show ?thesis
    by (auto simp: ingest_delta_def apply_rows_eq Let_def split: option.splits if_splits)
qed (simp_all add: recalculate_def precompute_lut_def Let_def)

lemma fold_epoch: "nb_epoch b \<le> nb_epoch (fold (book_step np) evs b)"
proof (induction evs arbitrary: b)
  case (Cons ev evs)
  from step_epoch [of b np ev] Cons [of "book_step np ev b"] show ?case by simp
qed simp

text \<open>The epoch counts snapshots and invalidations: if it is the same after any events, no
  snapshot was ingested and the book was not invalidated in between.\<close>

theorem epoch_detects_resets:
  assumes "nb_epoch (fold (book_step np) evs b) = nb_epoch b"
  shows "(\<forall>ev \<in> set evs. \<not> is_snapshot ev) \<and> nb_consistent (fold (book_step np) evs b) = nb_consistent b"
  using assms
proof (induction evs arbitrary: b)
  case (Cons ev evs)
  have "nb_epoch (book_step np ev b) = nb_epoch b"
    using Cons.prems step_epoch [of b np ev] fold_epoch [of "book_step np ev b" np evs] by simp
  with epoch_same_step [OF this] Cons.IH [of "book_step np ev b"] Cons.prems show ?case by simp
qed simp

theorem epoch_detects_resets_witness:
  "nb_consistent (fold (book_step numpy_ref) [EvDelta 2 demo_delta] demo_book)"
proof -
  have "nb_epoch (fold (book_step numpy_ref) [EvDelta 2 demo_delta] demo_book) = nb_epoch demo_book"
    using delta_epoch [of numpy_ref 2 demo_delta demo_book] demo_delta_accepted [of numpy_ref 2] by auto
  from epoch_detects_resets [OF this] show ?thesis by (simp add: demo_book_def)
qed

text \<open>An accepted delta is invisible to both checks: a snapshot taken before it passes them
  after it, whatever the delta did to the levels and to the order size.\<close>

theorem occ_blind_to_deltas:
  assumes "distinct (map fst (pre @ (sy, b) # post))" and "ingest_delta np now m b = (b', True)"
  shows "occ_consistent (pre @ (sy, b') # post) (take_snapshot t (pre @ (sy, b) # post) states target cb)
    \<and> occ_consistent_msq t' (pre @ (sy, b') # post) states' target cb
        (take_snapshot t (pre @ (sy, b) # post) states target cb)"
proof -
  let ?snap = "take_snapshot t (pre @ (sy, b) # post) states target cb"
  have e: "nb_epoch b' = nb_epoch b" using delta_epoch [of np now m b] assms(2) by simp
  have look: "\<exists>x'. map_of (pre @ (sy, b') # post) k = Some x' \<and> nb_epoch x' = nb_epoch x"
    if "(k, x) \<in> set (pre @ (sy, b) # post)" for k x
  proof -
    have m: "map_of (pre @ (sy, b) # post) k = Some x" using that assms(1) by (simp only: map_of_is_SomeI)
    show ?thesis
    proof (cases "k = sy")
      case True
      have "map_of pre sy = None" using assms(1) by (auto simp: map_of_eq_None_iff)
      with True m e show ?thesis
        by (auto simp: map_add_def split: option.splits)
    next
      case False
      with m have "map_of (pre @ (sy, b') # post) k = Some x" by (auto simp: map_add_def split: option.splits)
      then show ?thesis by simp
    qed
  qed
  have "slice_unchanged (pre @ (sy, b') # post) ss \<and> slice_undamaged t' (pre @ (sy, b') # post) states' target cb ss"
    if "ss \<in> set (as_slices ?snap)" for ss
  proof -
    have "ss \<in> slice_of t states target cb ` set (pre @ (sy, b) # post)"
      using that by (simp only: take_snapshot_def asset_snapshot.simps set_map)
    then obtain y where y: "y \<in> set (pre @ (sy, b) # post)" "ss = slice_of t states target cb y" by blast
    obtain k x where "y = (k, x)" by force
    with y have kx: "(k, x) \<in> set (pre @ (sy, b) # post)" "ss = slice_of t states target cb (k, x)" by simp_all
    from look [OF kx(1)] obtain x' where "map_of (pre @ (sy, b') # post) k = Some x'" "nb_epoch x' = nb_epoch x" by blast
    with kx(2) show ?thesis
      by (simp add: slice_unchanged_def slice_undamaged_def slice_of_def Let_def)
  qed
  then show ?thesis by (auto simp: occ_consistent_def occ_consistent_msq_def list_all_iff)
qed

definition deep_book :: book where
  "deep_book = demo_book\<lparr>nb_ask := \<lparr>bs_px = [SCALE, 2 * SCALE, 0, 0], bs_q = [3, 4, 0, 0], bs_n = 2\<rparr>\<rparr>"

definition lift_delta :: delta_msg where
  "lift_delta = \<lparr>dm_u = 8, dm_range = Some 8, dm_seq = None, dm_bids = [], dm_asks = [(SCALE, 0)]\<rparr>"

theorem occ_blind_to_deltas_witness:
  "\<exists>b'. ingest_delta numpy_ref 2 lift_delta deep_book = (b', True)
     \<and> occ_consistent [(''B'', b')] (take_snapshot 1 [(''B'', deep_book)] (\<lambda>_. Some SYNCED) 5 False)
     \<and> calculate_msq 5 deep_book \<noteq> calculate_msq 5 b'"
proof -
  obtain b' where r: "ingest_delta numpy_ref 2 lift_delta deep_book = (b', True)"
    by (simp add: ingest_delta_def lift_delta_def deep_book_def demo_book_def gap_before_def Let_def)
  have asks: "nb_ask b' = \<lparr>bs_px = [2 * SCALE, 0, 0, 0], bs_q = [4, 0, 0, 0], bs_n = 1\<rparr>"
    "nb_lut b' = nb_lut deep_book" "nb_ask_ctr b' = nb_ask_ctr deep_book" "nb_ask_lam b' = nb_ask_lam deep_book"
    "nb_consistent b'"
    using r
    by (auto simp: ingest_delta_def lift_delta_def deep_book_def demo_book_def gap_before_def apply_rows_eq Let_def
        side_applies_def side_apply_def numpy_ref_def side_remove_def Prelude.slice_def slice_assign_def SCALE_def
        numeral_2_eq_2)
  have l: "ask_ladder deep_book = [(SCALE, 3), (2 * SCALE, 4)]" "ask_ladder b' = [(2 * SCALE, 4)]"
    by (simp_all add: ask_ladder_def asks survivable_qty_def Let_def drop_bit_eq_div deep_book_def demo_book_def
        numeral_2_eq_2)
  have c: "cost (2 * SCALE) 0 = 0" "cost (2 * SCALE) 1 = 2" "cost (2 * SCALE) 2 = 4" "cost (2 * SCALE) 3 = 6"
    "cost (2 * SCALE) 4 = 8" "cost SCALE 3 = 3"
    by (simp_all add: cost_def SCALE_def FEE_NUM_def FEE_DEN_def)
  have "fst (msq_walk (ask_ladder deep_book) 5 0 0) = 4" "fst (msq_walk (ask_ladder b') 5 0 0) = 2"
    by (simp_all add: l c bisect.simps Let_def)
  then have "calculate_msq 5 deep_book \<noteq> calculate_msq 5 b'"
    by (auto simp: calculate_msq_def calculate_msq_unlocked_def asks case_prod_unfold)
  with occ_blind_to_deltas [of "[]" "''B''" deep_book "[]" numpy_ref 2 lift_delta b' 1 "\<lambda>_. Some SYNCED" 5 False, OF _ r] r
  show ?thesis by auto
qed

end
