(* ===== verification/Digits.thy ===== *)
theory Digits
  imports Prelude
begin

text \<open>
  Numbers as text, which both order-book engines read: Python's \<open>str.strip\<close> and \<open>int(str)\<close> on
  ASCII text (underscores between digits, which \<open>int\<close> would take, are refused here), and the
  exchange's text of a fixed-point number.
\<close>

section \<open>Reading digits\<close>

definition is_digit :: "char \<Rightarrow> bool" where
  "is_digit c \<longleftrightarrow> 48 \<le> (of_char c :: nat) \<and> (of_char c :: nat) \<le> 57"

definition digit_of :: "char \<Rightarrow> nat" where
  "digit_of c = of_char c - 48"

definition digits_value :: "string \<Rightarrow> nat" where
  "digits_value ds = foldl (\<lambda>n c. 10 * n + digit_of c) 0 ds"

definition is_space :: "char \<Rightarrow> bool" where
  "is_space c \<longleftrightarrow> (9 \<le> (of_char c :: nat) \<and> (of_char c :: nat) \<le> 13)
     \<or> (28 \<le> (of_char c :: nat) \<and> (of_char c :: nat) \<le> 32)"

definition strip :: "string \<Rightarrow> string" where
  "strip s = rev (dropWhile is_space (rev (dropWhile is_space s)))"

definition split_sign :: "string \<Rightarrow> real \<times> string" where
  "split_sign s =
     (case s of [] \<Rightarrow> (1, [])
      | c # cs \<Rightarrow> if c = CHR ''-'' then (-1, cs) else if c = CHR ''+'' then (1, cs) else (1, s))"

text \<open>\<open>int(val)\<close> for what JSON gives: text is an optional sign and digits.\<close>

definition py_int_text :: "string \<Rightarrow> int option" where
  "py_int_text t =
     (let (sg, ds) = split_sign (strip t)
      in if ds = [] \<or> \<not> list_all is_digit ds then None
         else Some (if sg < 0 then - int (digits_value ds) else int (digits_value ds)))"

section \<open>Fixed-point text\<close>

definition digit_char :: "nat \<Rightarrow> char" where
  "digit_char d = char_of (48 + d)"

fun digits_n :: "nat \<Rightarrow> nat \<Rightarrow> string" where
  "digits_n 0 n = []"
| "digits_n (Suc k) n = digits_n k (n div 10) @ [digit_char (n mod 10)]"

text \<open>A scaled integer with \<open>k\<close> digits before the point and eight after it, as the exchange sends it.\<close>

definition fixed8 :: "nat \<Rightarrow> int \<Rightarrow> string" where
  "fixed8 k n =
     (if n < 0 then ''-'' else []) @ digits_n k (nat \<bar>n\<bar> div 10 ^ 8) @ ''.'' @ digits_n 8 (nat \<bar>n\<bar>)"

lemma of_digit_char: "d < 10 \<Longrightarrow> of_char (digit_char d) = (48 + d :: nat)"
  by (simp add: digit_char_def of_char_of)

lemma digit_char_digit [simp]: "d < 10 \<Longrightarrow> is_digit (digit_char d)" "d < 10 \<Longrightarrow> digit_of (digit_char d) = d"
  by (simp_all add: is_digit_def digit_of_def of_digit_char)

lemma digits_n_digits: "c \<in> set (digits_n k n) \<Longrightarrow> is_digit c"
  by (induction k arbitrary: n) auto

lemma length_digits_n [simp]: "length (digits_n k n) = k"
  by (induction k arbitrary: n) auto

lemma digits_value_snoc [simp]: "digits_value (ds @ [c]) = 10 * digits_value ds + digit_of c"
  by (simp add: digits_value_def)

lemma digits_value_append: "digits_value (ds @ digits_n k n) = digits_value ds * 10 ^ k + n mod 10 ^ k"
proof (induction k arbitrary: n)
  case 0
  then show ?case by simp
next
  case (Suc k)
  have "digits_value (ds @ digits_n (Suc k) n) = 10 * digits_value (ds @ digits_n k (n div 10)) + n mod 10"
    using digits_value_snoc [of "ds @ digits_n k (n div 10)"] by simp
  also have "\<dots> = digits_value ds * 10 ^ Suc k + (10 * (n div 10 mod 10 ^ k) + n mod 10)"
    by (simp add: Suc)
  also have "10 * (n div 10 mod 10 ^ k) + n mod 10 = n mod 10 ^ Suc k"
    using mod_mult2_eq [of n 10 "10 ^ k"] by simp
  finally show ?case .
qed

lemma digits_value_n: "digits_value (digits_n k n) = n mod 10 ^ k"
  using digits_value_append [of "[]" k n] by (simp add: digits_value_def)

lemma digit_no_space: "is_digit c \<Longrightarrow> \<not> is_space c"
  by (auto simp: is_digit_def is_space_def)

lemma strip_id: "s \<noteq> [] \<Longrightarrow> \<not> is_space (hd s) \<Longrightarrow> \<not> is_space (last s) \<Longrightarrow> strip s = s"
  unfolding strip_def by (simp add: dropWhile_eq_self_iff [THEN iffD2] hd_rev)

lemma digits_n_nonempty: "k \<noteq> 0 \<Longrightarrow> digits_n k n \<noteq> []"
  by (metis length_digits_n list.size(3))

lemma split_sign_digits: "k \<noteq> 0 \<Longrightarrow> split_sign (digits_n k n @ r) = (1, digits_n k n @ r)"
proof -
  assume "k \<noteq> 0"
  then obtain c cs where c: "digits_n k n = c # cs" using digits_n_nonempty neq_Nil_conv by metis
  then have "is_digit c" using digits_n_digits [of c k n] by simp
  then show ?thesis by (auto simp: c split_sign_def is_digit_def)
qed

lemma decimal_body:
  shows "takeWhile is_digit (digits_n k a @ CHR ''.'' # digits_n j b) = digits_n k a"
    and "dropWhile is_digit (digits_n k a @ CHR ''.'' # digits_n j b) = CHR ''.'' # digits_n j b"
    and "takeWhile is_digit (digits_n j b) = digits_n j b"
    and "dropWhile is_digit (digits_n j b) = []"
proof -
  have d: "\<not> is_digit (CHR ''.'')" by (simp add: is_digit_def)
  show "takeWhile is_digit (digits_n k a @ CHR ''.'' # digits_n j b) = digits_n k a"
    "dropWhile is_digit (digits_n k a @ CHR ''.'' # digits_n j b) = CHR ''.'' # digits_n j b"
    using d digits_n_digits by (auto simp: takeWhile_append2 dropWhile_append2)
  show "takeWhile is_digit (digits_n j b) = digits_n j b" "dropWhile is_digit (digits_n j b) = []"
    using digits_n_digits by (auto simp: takeWhile_eq_all_conv)
qed

lemma fixed8_strip:
  assumes "k \<noteq> 0"
  shows "strip (fixed8 k n) = fixed8 k n"
proof (rule strip_id)
  have "is_digit (hd (digits_n k (nat \<bar>n\<bar> div 10 ^ 8)))" "is_digit (last (digits_n 8 (nat \<bar>n\<bar>)))"
    using digits_n_nonempty assms by (metis digits_n_digits hd_in_set, metis digits_n_digits last_in_set zero_neq_numeral)
  then show "\<not> is_space (hd (fixed8 k n))" "\<not> is_space (last (fixed8 k n))"
    using digits_n_nonempty [of 8] digits_n_nonempty [OF assms]
    by (auto simp: fixed8_def digit_no_space hd_append) (simp add: is_space_def)
qed (simp add: fixed8_def)

end
