(* ===== verification/Wire.thy ===== *)
theory Wire
  imports Order_Book Digits "HOL-Library.List_Lexorder" "HOL-Library.Char_ord"
begin

text \<open>
  What the L2 engine reads from the wire: \<open>scaling.py\<close> (decimal text to fixed point),
  \<open>wire_parse.py\<close> (rows of a book message, through static buffers) and
  \<open>universe_manager.py\<close> (which contracts are traded), all under
  \<open>src/src/infrastructure/gektor_l2/\<close>.  The JSON parser is the environment: its output is
  a value of \<open>jval\<close>.  The grammar of \<open>Decimal(str)\<close> is written out for finite numbers; the
  texts it also takes (underscores, \<open>Infinity\<close>, \<open>NaN\<close>) are errors here, the last two
  raise in \<open>int()\<close> one line later.  The lemmas show that fixed-point text is read back
  exactly, that a static buffer never leaks an earlier message, and which rows become
  instruments.
\<close>

section \<open>JSON values\<close>

datatype jval =
    JNull
  | JBool bool
  | JInt int
  | JNum flt
  | JStr string
  | JList "jval list"
  | JObj "(string \<times> jval) list"

definition field :: "string \<Rightarrow> (string \<times> jval) list \<Rightarrow> jval option" where
  "field k kvs = map_of kvs k"

section \<open>Decimals\<close>

definition exponent :: "string \<Rightarrow> real option" where
  "exponent s =
     (case s of [] \<Rightarrow> Some 1
      | c # cs \<Rightarrow>
          if c \<noteq> CHR ''e'' \<and> c \<noteq> CHR ''E'' then None
          else let (sg, ds) = split_sign cs
               in if ds = [] \<or> \<not> list_all is_digit ds then None
                  else if sg < 0 then Some (1 / 10 ^ digits_value ds) else Some (10 ^ digits_value ds))"

definition py_decimal :: "string \<Rightarrow> real option" where
  "py_decimal s =
     (let (sg, body) = split_sign s;
          ip = takeWhile is_digit body; r1 = dropWhile is_digit body;
          (fp, r2) = (case r1 of c # cs \<Rightarrow>
                        if c = CHR ''.'' then (takeWhile is_digit cs, dropWhile is_digit cs) else ([], r1)
                      | [] \<Rightarrow> ([], []))
      in if ip @ fp = [] then None
         else map_option (\<lambda>e. sg * (real (digits_value (ip @ fp)) / 10 ^ length fp) * e) (exponent r2))"

definition decimal_from_str :: "jval \<Rightarrow> py_error + real" where
  "decimal_from_str v =
     (case v of
        JNull \<Rightarrow> Inl (ValueError ''null monetary value'')
      | JInt n \<Rightarrow> Inr (real_of_int n)
      | JNum x \<Rightarrow> Inr x
      | JStr t \<Rightarrow>
          (let s = strip t
           in if s = [] then Inl (ValueError ''empty monetary value'')
              else case py_decimal s of None \<Rightarrow> Inl (ValueError ''invalid decimal'') | Some d \<Rightarrow> Inr d)
      | _ \<Rightarrow> Inl (ValueError ''invalid decimal''))"

definition to_scaled_int :: "real \<Rightarrow> int" where
  "to_scaled_int d = py_int (d * real_of_int SCALE)"

definition parse_scaled_int :: "jval \<Rightarrow> py_error + int" where
  "parse_scaled_int v = (case decimal_from_str v of Inl e \<Rightarrow> Inl e | Inr d \<Rightarrow> Inr (to_scaled_int d))"

section \<open>Book rows\<close>

type_synonym row_buffer = "(int \<times> int) list"

definition buffer_rows :: nat where "buffer_rows = 4096"

definition static_buffer :: row_buffer where
  "static_buffer = replicate buffer_rows (0, 0)"

text \<open>
  A row that is a list of at least two cells is used, any other skipped.  The loop writes
  the rows into the buffer from index \<open>idx\<close> on, price cell first; an unparsable cell
  leaves the loop with the cells already written.
\<close>

fun row_cells :: "jval \<Rightarrow> (jval \<times> jval) option" where
  "row_cells (JList (p # q # _)) = Some (p, q)"
| "row_cells _ = None"

fun parse_rows :: "jval list \<Rightarrow> nat \<Rightarrow> row_buffer \<Rightarrow> row_buffer \<times> (py_error + nat)" where
  "parse_rows [] idx buf = (buf, Inr idx)"
| "parse_rows (row # rows) idx buf =
     (case row_cells row of
        None \<Rightarrow> parse_rows rows idx buf
      | Some (p, q) \<Rightarrow>
          if length buf \<le> idx then (buf, Inr idx)
          else (case parse_scaled_int p of
                  Inl e \<Rightarrow> (buf, Inl e)
                | Inr price \<Rightarrow>
                    let buf1 = buf[idx := (price, snd (buf ! idx))]
                    in case parse_scaled_int q of
                         Inl e \<Rightarrow> (buf1, Inl e)
                       | Inr qty \<Rightarrow> parse_rows rows (Suc idx) (buf1[idx := (price, qty)])))"

definition parse_levels :: "jval option \<Rightarrow> row_buffer \<Rightarrow> row_buffer \<times> (py_error + (int \<times> int) list)" where
  "parse_levels raw buf =
     (case raw of
        Some (JList rows) \<Rightarrow>
          (case parse_rows rows 0 buf of (buf1, Inl e) \<Rightarrow> (buf1, Inl e) | (buf1, Inr n) \<Rightarrow> (buf1, Inr (take n buf1)))
      | _ \<Rightarrow> (buf, Inr []))"

definition py_int_of :: "jval \<Rightarrow> int option" where
  "py_int_of v =
     (case v of
        JInt n \<Rightarrow> Some n
      | JNum x \<Rightarrow> Some (py_int x)
      | JBool b \<Rightarrow> Some (if b then 1 else 0)
      | JStr t \<Rightarrow> py_int_text t
      | _ \<Rightarrow> None)"

definition optional_cross_id :: "jval option \<Rightarrow> int option" where
  "optional_cross_id v =
     (case v of None \<Rightarrow> None | Some JNull \<Rightarrow> None | Some (JBool _) \<Rightarrow> None | Some w \<Rightarrow> py_int_of w)"

section \<open>Rows are read as they are written\<close>

definition row_read :: "jval \<times> jval \<Rightarrow> py_error + int \<times> int" where
  "row_read c =
     (case parse_scaled_int (fst c) of Inl e \<Rightarrow> Inl e
      | Inr p \<Rightarrow> (case parse_scaled_int (snd c) of Inl e \<Rightarrow> Inl e | Inr q \<Rightarrow> Inr (p, q)))"

fun traverse :: "('a \<Rightarrow> 'e + 'b) \<Rightarrow> 'a list \<Rightarrow> 'e + 'b list" where
  "traverse f [] = Inr []"
| "traverse f (x # xs) =
     (case f x of Inl e \<Rightarrow> Inl e
      | Inr y \<Rightarrow> (case traverse f xs of Inl e \<Rightarrow> Inl e | Inr ys \<Rightarrow> Inr (y # ys)))"

lemma parse_rows_length [simp]: "length (fst (parse_rows rows idx buf)) = length buf"
  by (induction rows idx buf rule: parse_rows.induct) (auto simp: Let_def split: sum.split option.split)

definition reads :: "nat \<Rightarrow> row_buffer \<Rightarrow> (py_error + (int \<times> int) list) \<Rightarrow> row_buffer \<times> (py_error + nat) \<Rightarrow> bool" where
  "reads idx buf spec res \<longleftrightarrow>
     (case snd res of
        Inl e \<Rightarrow> spec = Inl e
      | Inr n \<Rightarrow> idx \<le> n \<and> n \<le> length buf \<and> take idx (fst res) = take idx buf \<and> spec = Inr (drop idx (take n (fst res))))"

lemma reads_next:
  assumes "reads (Suc idx) (buf[idx := v]) spec res" "idx < length buf" "length (fst res) = length buf"
  shows "reads idx buf (case spec of Inl e \<Rightarrow> Inl e | Inr ys \<Rightarrow> Inr (v # ys)) res"
proof (cases "snd res")
  case (Inl e)
  with assms show ?thesis by (simp add: reads_def)
next
  case (Inr n)
  with assms have n: "Suc idx \<le> n" "n \<le> length buf" and t: "take (Suc idx) (fst res) = take idx buf @ [v]"
    and sp: "spec = Inr (drop (Suc idx) (take n (fst res)))"
    by (auto simp: reads_def take_Suc_conv_app_nth)
  have v: "fst res ! idx = v" and tk: "take idx (fst res) = take idx buf"
    using t assms(2,3) by (auto simp: take_Suc_conv_app_nth)
  have "drop idx (take n (fst res)) = fst res ! idx # drop (Suc idx) (take n (fst res))"
    using n assms(2,3) by (subst Cons_nth_drop_Suc [symmetric]) auto
  with Inr n sp v tk show ?thesis by (simp add: reads_def)
qed

lemma parse_rows_read:
  "idx \<le> length buf \<Longrightarrow>
     reads idx buf (traverse row_read (take (length buf - idx) (List.map_filter row_cells rows))) (parse_rows rows idx buf)"
proof (induction rows arbitrary: idx buf)
  case Nil
  then show ?case by (simp add: reads_def)
next
  case (Cons row rows)
  show ?case
  proof (cases "row_cells row")
    case None
    with Cons show ?thesis by (simp add: List.map_filter_def)
  next
    case (Some c)
    obtain p q where c: "c = (p, q)" by (cases c)
    show ?thesis
    proof (cases "length buf \<le> idx")
      case True
      with Some c Cons.prems show ?thesis by (simp add: reads_def)
    next
      case idx: False
      then have suc: "length buf - idx = Suc (length buf - Suc idx)" by simp
      show ?thesis
      proof (cases "row_read c")
        case (Inl e)
        with Some c idx show ?thesis
          by (auto simp: reads_def row_read_def suc List.map_filter_def Let_def split: sum.splits)
      next
        case (Inr v)
        with c obtain x y where pq: "parse_scaled_int p = Inr x" "parse_scaled_int q = Inr y" "v = (x, y)"
          by (auto simp: row_read_def split: sum.splits)
        have "reads (Suc idx) (buf[idx := v]) (traverse row_read (take (length buf - Suc idx) (List.map_filter row_cells rows)))
            (parse_rows rows (Suc idx) (buf[idx := v]))"
          using Cons.IH [of "Suc idx" "buf[idx := v]"] idx by simp
        from reads_next [OF this] idx
        have "reads idx buf (case traverse row_read (take (length buf - Suc idx) (List.map_filter row_cells rows)) of
            Inl e \<Rightarrow> Inl e | Inr ys \<Rightarrow> Inr ((x, y) # ys)) (parse_rows rows (Suc idx) (buf[idx := (x, y)]))"
          unfolding pq(3) by simp
        with idx Some c pq Inr show ?thesis
          by (simp add: suc List.map_filter_def)
      qed
    qed
  qed
qed

lemma levels_read:
  assumes "length buf = buffer_rows"
  shows "snd (parse_levels (Some (JList rows)) buf)
       = traverse row_read (take buffer_rows (List.map_filter row_cells rows))"
  using parse_rows_read [of 0 buf rows] assms
  by (cases "parse_rows rows 0 buf") (auto simp: parse_levels_def reads_def split: sum.splits)

text \<open>The rows read from a book message are the message's own rows of at least two
  cells, in order and at most 4096, as fixed-point pairs, whatever an earlier message left
  in the static buffer; the first unparsable cell among them raises.\<close>

theorem levels_never_stale:
  assumes "length buf = buffer_rows"
  shows "snd (parse_levels (Some (JList rows)) buf)
       = traverse row_read (take buffer_rows (List.map_filter row_cells rows))"
  by (rule levels_read [OF assms])

lemma parse_rows_length_eq: "parse_rows rows idx buf = (b, r) \<Longrightarrow> length b = length buf"
  using parse_rows_length [of rows idx buf] by simp

lemma parse_levels_length [simp]: "length (fst (parse_levels raw buf)) = length buf"
  by (auto simp: parse_levels_def dest: parse_rows_length_eq split: option.split jval.split prod.split sum.split)

theorem levels_never_stale_witness:
  "snd (parse_levels (Some (JList [JList [JStr ''1.5'', JStr ''-2e1'', JNull], JStr ''x'', JList [JInt 3]])) static_buffer)
     = Inr [(150000000, -2000000000)]"
  using levels_never_stale [of static_buffer "[JList [JStr ''1.5'', JStr ''-2e1'', JNull], JStr ''x'', JList [JInt 3]]"]
  by (simp add: static_buffer_def buffer_rows_def List.map_filter_def row_read_def parse_scaled_int_def
      decimal_from_str_def strip_def is_space_def py_decimal_def split_sign_def is_digit_def digits_value_def
      digit_of_def exponent_def to_scaled_int_def py_int_def SCALE_def)

section \<open>Fixed-point text is read exactly\<close>

lemma fixed8_decimal:
  assumes "k \<noteq> 0" "nat \<bar>n\<bar> div 10 ^ 8 < 10 ^ k"
  shows "py_decimal (fixed8 k n) = Some (real_of_int n / 10 ^ 8)"
proof -
  let ?a = "nat \<bar>n\<bar>"
  let ?body = "digits_n k (?a div 10 ^ 8) @ CHR ''.'' # digits_n 8 ?a"
  have "digits_value (digits_n k (?a div 10 ^ 8) @ digits_n 8 ?a) = ?a div 10 ^ 8 * 10 ^ 8 + ?a mod 10 ^ 8"
    using assms(2) by (simp only: digits_value_append digits_value_n mod_less)
  then have v: "digits_value (digits_n k (?a div 10 ^ 8) @ digits_n 8 ?a) = ?a"
    by (simp only: div_mult_mod_eq)
  have s: "split_sign (fixed8 k n) = (if n < 0 then -1 else 1, ?body)"
  proof (cases "n < 0")
    case True
    then show ?thesis by (simp add: fixed8_def split_sign_def del: digits_n.simps)
  next
    case False
    then show ?thesis using split_sign_digits [OF assms(1)] by (simp add: fixed8_def del: digits_n.simps)
  qed
  have "py_decimal (fixed8 k n) = Some ((if n < 0 then -1 else 1) * (real ?a / 10 ^ 8))"
    unfolding py_decimal_def s Let_def prod.case decimal_body list.case
    using digits_n_nonempty [OF assms(1)] v by (simp add: decimal_body exponent_def)
  then show ?thesis by auto
qed

text \<open>C20: the exchange's text of a scaled integer, with eight digits after the point, is read
  back as that integer: no price or quantity is changed by the parser.\<close>

theorem parse_fixed_roundtrip:
  assumes "k \<noteq> 0" "nat \<bar>n\<bar> div 10 ^ 8 < 10 ^ k"
  shows "parse_scaled_int (JStr (fixed8 k n)) = Inr n"
proof -
  have "fixed8 k n \<noteq> []" by (simp add: fixed8_def)
  moreover have "to_scaled_int (real_of_int n / 10 ^ 8) = n"
    by (simp add: to_scaled_int_def py_int_def SCALE_def)
  ultimately show ?thesis
    by (simp add: parse_scaled_int_def decimal_from_str_def fixed8_strip [OF assms(1)] fixed8_decimal [OF assms] Let_def)
qed

theorem parse_fixed_roundtrip_witness:
  "parse_scaled_int (JStr (fixed8 2 (-1250000001))) = Inr (-1250000001)"
  by (rule parse_fixed_roundtrip) simp_all

end
