(* ===== verification/Universe.thy ===== *)
theory Universe
  imports Wire "HOL-Library.AList"
begin

text \<open>
  Which contracts the L2 engine follows:
  \<open>src/src/infrastructure/gektor_l2/universe_manager.py\<close>.  A row of the tickers endpoint is
  a record of the fields the code reads, each optional; the HTTP session and the JSON
  encoder are the environment.  The lemmas show which rows become instruments, that one
  unreadable row fails the whole refresh, and that the file on disk is always a complete
  universe.
\<close>

section \<open>Instruments\<close>

definition MIN_TURNOVER_USDT :: int where "MIN_TURNOVER_USDT = 50000000"

record ticker_row =
  tr_status :: "string option"
  tr_turnover :: "jval option"
  tr_symbol :: "string option"
  tr_tick :: "jval option"
  tr_step :: "jval option"
  tr_min :: "jval option"

record instrument =
  in_symbol :: symbol
  in_tick :: int
  in_step :: int
  in_min :: int
  in_turnover :: real
  in_status :: string

record universe =
  un_instruments :: "instrument list"
  un_ret_code :: int
  un_ret_msg :: string

definition text_or_empty :: "string option \<Rightarrow> string" where
  "text_or_empty t = (case t of None \<Rightarrow> [] | Some s \<Rightarrow> s)"

definition scaled_field :: "jval option \<Rightarrow> py_error + int" where
  "scaled_field v = parse_scaled_int (case v of None \<Rightarrow> JStr ''0'' | Some w \<Rightarrow> w)"

definition parse_instrument :: "ticker_row \<Rightarrow> py_error + instrument option" where
  "parse_instrument row =
     (if text_or_empty (tr_status row) \<noteq> ''Trading'' then Inr None
      else case tr_turnover row of
        None \<Rightarrow> Inr None
      | Some JNull \<Rightarrow> Inr None
      | Some raw \<Rightarrow>
          (case decimal_from_str raw of
             Inl e \<Rightarrow> Inl e
           | Inr turnover \<Rightarrow>
               if turnover \<le> real_of_int MIN_TURNOVER_USDT then Inr None
               else let sy = py_upper (strip (text_or_empty (tr_symbol row)))
                    in if sy = [] then Inr None
                       else case scaled_field (tr_tick row) of Inl e \<Rightarrow> Inl e | Inr tick \<Rightarrow>
                         (case scaled_field (tr_step row) of Inl e \<Rightarrow> Inl e | Inr qstep \<Rightarrow>
                            (case scaled_field (tr_min row) of Inl e \<Rightarrow> Inl e | Inr min_q \<Rightarrow>
                               if tick \<le> 0 \<or> qstep \<le> 0 \<or> min_q \<le> 0 then Inr None
                               else Inr (Some \<lparr>in_symbol = sy, in_tick = tick, in_step = qstep, in_min = min_q,
                                               in_turnover = turnover, in_status = ''Trading''\<rparr>)))))"

fun parse_instruments :: "ticker_row list \<Rightarrow> py_error + instrument list" where
  "parse_instruments [] = Inr []"
| "parse_instruments (row # rows) =
     (case parse_instrument row of
        Inl e \<Rightarrow> Inl e
      | Inr spec \<Rightarrow>
          (case parse_instruments rows of
             Inl e \<Rightarrow> Inl e
           | Inr specs \<Rightarrow> Inr (case spec of None \<Rightarrow> specs | Some s \<Rightarrow> s # specs)))"

definition fetch_universe :: "int \<Rightarrow> string \<Rightarrow> ticker_row list \<Rightarrow> py_error + universe" where
  "fetch_universe ret_code ret_msg rows =
     (case parse_instruments rows of
        Inl e \<Rightarrow> Inl e
      | Inr specs \<Rightarrow> Inr \<lparr>un_instruments = sort_key in_symbol specs, un_ret_code = ret_code, un_ret_msg = ret_msg\<rparr>)"

section \<open>The file\<close>

text \<open>The document: the symbols in order, and the instruments as a dict by symbol.\<close>

record universe_doc =
  ud_scale :: int
  ud_ret_code :: int
  ud_ret_msg :: string
  ud_symbols :: "symbol list"
  ud_instruments :: "(symbol \<times> instrument) list"

definition serialize :: "universe \<Rightarrow> universe_doc" where
  "serialize u =
     \<lparr>ud_scale = SCALE, ud_ret_code = un_ret_code u, ud_ret_msg = un_ret_msg u,
      ud_symbols = map in_symbol (un_instruments u),
      ud_instruments = fold (\<lambda>i d. AList.update (in_symbol i) i d) (un_instruments u) []\<rparr>"

text \<open>
  The disk is a map from paths to contents, a content being the document's bytes so far.
  The write goes to a fresh temporary path and is renamed over the target; whatever fails
  removes the temporary file.  The trace lists the disk after each system call, so its
  prefixes are what a crash leaves.
\<close>

type_synonym 'c disk = "string \<rightharpoonup> 'c list"

definition write_trace :: "string \<Rightarrow> string \<Rightarrow> 'c list \<Rightarrow> nat option \<Rightarrow> bool \<Rightarrow> 'c disk \<Rightarrow> 'c disk list" where
  "write_trace path tmp payload short replace_ok d =
     (let d0 = d(tmp \<mapsto> []);
          d1 = (case short of None \<Rightarrow> d0(tmp \<mapsto> payload) | Some n \<Rightarrow> d0(tmp \<mapsto> take n payload))
      in if short \<noteq> None then [d0, d1, d1(tmp := None)]
         else if \<not> replace_ok then [d0, d1, d1(tmp := None)]
         else [d0, d1, (d1(path := d1 tmp))(tmp := None)])"

definition atomic_write :: "string \<Rightarrow> string \<Rightarrow> 'c list \<Rightarrow> nat option \<Rightarrow> bool \<Rightarrow> 'c disk \<Rightarrow> 'c disk \<times> bool" where
  "atomic_write path tmp payload short replace_ok d =
     (last (write_trace path tmp payload short replace_ok d), short = None \<and> replace_ok)"

section \<open>Books from the file\<close>

definition load_universe_books :: "numpy \<Rightarrow> nat \<Rightarrow> universe_doc \<Rightarrow> py_error + (symbol \<times> book) list" where
  "load_universe_books np max_levels doc =
     (let syms = filter (\<lambda>s. s \<noteq> []) (map (\<lambda>s. py_upper (strip s)) (sort (map fst (ud_instruments doc))))
      in fold (\<lambda>ss acc. case acc of Inl e \<Rightarrow> Inl e
                | Inr out \<Rightarrow> (case book_init np ss max_levels 2500 of Inl e \<Rightarrow> Inl e
                             | Inr b \<Rightarrow> Inr (AList.update ss b out)))
           syms (Inr []))"

section \<open>What the universe holds\<close>

lemma parse_instrument_some:
  "parse_instrument row = Inr (Some i) \<Longrightarrow>
     tr_status row = Some ''Trading'' \<and> in_status i = ''Trading''
     \<and> (\<exists>raw. tr_turnover row = Some raw \<and> decimal_from_str raw = Inr (in_turnover i))
     \<and> real_of_int MIN_TURNOVER_USDT < in_turnover i
     \<and> in_symbol i = py_upper (strip (text_or_empty (tr_symbol row))) \<and> in_symbol i \<noteq> []
     \<and> 0 < in_tick i \<and> 0 < in_step i \<and> 0 < in_min i
     \<and> scaled_field (tr_tick row) = Inr (in_tick i) \<and> scaled_field (tr_step row) = Inr (in_step i)
     \<and> scaled_field (tr_min row) = Inr (in_min i)"
  by (auto simp: parse_instrument_def text_or_empty_def Let_def
        split: if_splits option.splits jval.splits sum.splits)

lemma parse_instruments_set:
  "parse_instruments rows = Inr specs \<Longrightarrow> set specs = {i. \<exists>row \<in> set rows. parse_instrument row = Inr (Some i)}"
proof (induction rows arbitrary: specs)
  case (Cons row rows)
  then obtain spec rest where r: "parse_instrument row = Inr spec" "parse_instruments rows = Inr rest"
    "specs = (case spec of None \<Rightarrow> rest | Some s \<Rightarrow> s # rest)"
    by (auto split: sum.splits)
  with Cons.IH [OF r(2)] show ?case by (auto split: option.splits)
qed simp

lemma parse_instruments_error:
  "(\<exists>e. parse_instruments rows = Inl e) \<longleftrightarrow> (\<exists>row \<in> set rows. \<exists>e. parse_instrument row = Inl e)"
  by (induction rows) (auto split: sum.splits)

text \<open>A refresh that succeeds lists, in order of symbol, exactly the instruments of the rows
  that trade, turn over more than fifty million and have positive tick, step and minimum;
  it fails as a whole exactly when one row cannot be read.\<close>

theorem universe_filter:
  "(case fetch_universe code msg rows of
      Inl e \<Rightarrow> (\<exists>row \<in> set rows. \<exists>e'. parse_instrument row = Inl e')
    | Inr u \<Rightarrow>
        sorted (map in_symbol (un_instruments u))
        \<and> set (un_instruments u) = {i. \<exists>row \<in> set rows. parse_instrument row = Inr (Some i)}
        \<and> list_all (\<lambda>i. 50000000 < in_turnover i \<and> in_symbol i \<noteq> [] \<and> 0 < in_tick i \<and> 0 < in_step i \<and> 0 < in_min i)
            (un_instruments u))"
proof (cases "parse_instruments rows")
  case (Inl e)
  then show ?thesis using parse_instruments_error [of rows] by (auto simp: fetch_universe_def)
next
  case (Inr specs)
  with parse_instruments_set [OF Inr] show ?thesis
    by (auto simp: fetch_universe_def list_all_iff MIN_TURNOVER_USDT_def dest!: parse_instrument_some)
qed

text \<open>At every moment of the refresh, a crash included, the universe file holds the old or
  the complete new document; no temporary file is left by a refresh that returns or
  raises, and it succeeds exactly when the new document is in place by a rename.\<close>

theorem universe_file_atomic:
  assumes "tmp \<noteq> path" "d tmp = None"
  shows "list_all (\<lambda>d'. d' path = d path \<or> d' path = Some payload) (write_trace path tmp payload short ok d)
    \<and> (\<forall>q. q \<noteq> path \<longrightarrow> fst (atomic_write path tmp payload short ok d) q = d q)
    \<and> fst (atomic_write path tmp payload short ok d) path
        = (if snd (atomic_write path tmp payload short ok d) then Some payload else d path)"
  using assms by (auto simp: write_trace_def atomic_write_def Let_def split: option.split)

theorem universe_file_atomic_witness:
  "fst (atomic_write ''u'' ''t'' [1::int, 2] (Some 1) True [''u'' \<mapsto> [0]]) ''u'' = Some [0]
   \<and> fst (atomic_write ''u'' ''t'' [1::int, 2] None True [''u'' \<mapsto> [0]]) ''u'' = Some [1, 2]"
  using universe_file_atomic [of "''t''" "''u''" "[''u'' \<mapsto> [0::int]]" "[1, 2]" "Some 1" True]
    universe_file_atomic [of "''t''" "''u''" "[''u'' \<mapsto> [0::int]]" "[1, 2]" None True]
  by (simp add: atomic_write_def)

end
