(* ===== verification/Throttle.thy ===== *)
theory Throttle
  imports Prelude
begin

text \<open>
  The two limiters of the L2 engine: the reconnect token bucket
  (\<open>src/src/infrastructure/gektor_l2/reconnect_throttle.py\<close>) and the gate every REST
  resync passes (\<open>src/src/infrastructure/gektor_l2/resync_gate.py\<close>).  The bucket is a
  function of the clock readings of its loop; the gate is a step relation of several calls
  that run concurrently between their awaits, with its semaphore, its lock and its circuit
  breaker.  The lemmas bound what the bucket grants in any window, show that a caller is
  served on its second attempt, and hold the gate's limits in every reachable state.
\<close>

section \<open>The reconnect token bucket\<close>

record bucket =
  bk_rate :: flt
  bk_capacity :: flt
  bk_tokens :: flt
  bk_updated :: time

definition bucket_init :: "flt \<Rightarrow> flt \<Rightarrow> time \<Rightarrow> py_error + bucket" where
  "bucket_init rate burst now =
     (if rate \<le> 0 \<or> burst \<le> 0 then Inl (ValueError ''tokens_per_second and burst must be positive'')
      else Inr \<lparr>bk_rate = rate, bk_capacity = burst, bk_tokens = burst, bk_updated = now\<rparr>)"

definition bucket_eps :: flt where "bucket_eps = 1 / 10 ^ 12"

definition bucket_refill :: "time \<Rightarrow> bucket \<Rightarrow> bucket" where
  "bucket_refill now b =
     b\<lparr>bk_updated := now, bk_tokens := min (bk_capacity b) (bk_tokens b + (now - bk_updated b) * bk_rate b)\<rparr>"

text \<open>One round of the loop: \<open>None\<close> when the tokens are granted, else the time to sleep.\<close>

definition bucket_round :: "flt \<Rightarrow> time \<Rightarrow> bucket \<Rightarrow> bucket \<times> flt option" where
  "bucket_round cost now b =
     (let b1 = bucket_refill now b
      in if cost \<le> bk_tokens b1 + bucket_eps then (b1\<lparr>bk_tokens := bk_tokens b1 - cost\<rparr>, None)
         else (b1, Some ((cost - bk_tokens b1) / bk_rate b1)))"

text \<open>
  \<open>acquire\<close> with the clock readings of its successive rounds: the number of rounds it took,
  or \<open>None\<close> while the loop still waits after the last reading.
\<close>

fun acquire :: "flt \<Rightarrow> time list \<Rightarrow> bucket \<Rightarrow> py_error + bucket \<times> nat option" where
  "acquire cost [] b = (if cost \<le> 0 then Inl (ValueError ''cost must be positive'') else Inr (b, None))"
| "acquire cost (now # nows) b =
     (if cost \<le> 0 then Inl (ValueError ''cost must be positive'')
      else case bucket_round cost now b of
             (b1, None) \<Rightarrow> Inr (b1, Some 1)
           | (b1, Some _) \<Rightarrow>
               (case acquire cost nows b1 of
                  Inl e \<Rightarrow> Inl e
                | Inr (b2, n) \<Rightarrow> Inr (b2, map_option Suc n)))"

text \<open>Rounds of any callers, in the order the lock serves them.\<close>

fun bucket_rounds :: "(flt \<times> time) list \<Rightarrow> bucket \<Rightarrow> bucket \<times> flt" where
  "bucket_rounds [] b = (b, 0)"
| "bucket_rounds ((cost, now) # rs) b =
     (let (b1, w) = bucket_round cost now b; (b2, g) = bucket_rounds rs b1
      in (b2, (if w = None then cost else 0) + g))"

definition bucket_ok :: "bucket \<Rightarrow> bool" where
  "bucket_ok b \<longleftrightarrow> 0 < bk_rate b \<and> 0 < bk_capacity b \<and> - bucket_eps \<le> bk_tokens b \<and> bk_tokens b \<le> bk_capacity b"

fun clock_ok :: "time \<Rightarrow> (flt \<times> time) list \<Rightarrow> bool" where
  "clock_ok t [] \<longleftrightarrow> True"
| "clock_ok t ((cost, now) # rs) \<longleftrightarrow> 0 < cost \<and> t \<le> now \<and> clock_ok now rs"

lemma bucket_round_facts:
  assumes "bucket_ok b" "bk_updated b \<le> now" "0 < cost"
  shows "bucket_ok (fst (bucket_round cost now b))"
    and "bk_updated (fst (bucket_round cost now b)) = now"
    and "bk_rate (fst (bucket_round cost now b)) = bk_rate b"
    and "bk_capacity (fst (bucket_round cost now b)) = bk_capacity b"
    and "(if snd (bucket_round cost now b) = None then cost else 0) + bk_tokens (fst (bucket_round cost now b))
       \<le> bk_tokens b + bk_rate b * (now - bk_updated b)"
proof -
  define x where "x = (now - bk_updated b) * bk_rate b"
  have x: "0 \<le> x" using assms by (simp add: bucket_ok_def x_def)
  show "bucket_ok (fst (bucket_round cost now b))"
    using x assms by (auto simp: bucket_ok_def bucket_round_def bucket_refill_def Let_def min_def x_def [symmetric] bucket_eps_def)
  show "(if snd (bucket_round cost now b) = None then cost else 0) + bk_tokens (fst (bucket_round cost now b))
       \<le> bk_tokens b + bk_rate b * (now - bk_updated b)"
    by (auto simp: bucket_round_def bucket_refill_def Let_def algebra_simps)
qed (auto simp: bucket_round_def bucket_refill_def Let_def)

lemma bucket_rounds_conserve:
  "bucket_ok b \<Longrightarrow> clock_ok (bk_updated b) rs \<Longrightarrow>
     bucket_ok (fst (bucket_rounds rs b))
     \<and> bk_updated b \<le> bk_updated (fst (bucket_rounds rs b))
     \<and> snd (bucket_rounds rs b) + bk_tokens (fst (bucket_rounds rs b))
         \<le> bk_tokens b + bk_rate b * (bk_updated (fst (bucket_rounds rs b)) - bk_updated b)"
proof (induction rs arbitrary: b)
  case (Cons r rs)
  obtain cost now where r: "r = (cost, now)" by (cases r)
  obtain b1 w where b1: "bucket_round cost now b = (b1, w)" by (cases "bucket_round cost now b")
  have p: "0 < cost" "bk_updated b \<le> now" "clock_ok now rs" using Cons.prems r by auto
  note f = bucket_round_facts [OF Cons.prems(1) p(2,1), unfolded b1, simplified]
  have "bucket_ok (fst (bucket_rounds rs b1)) \<and> now \<le> bk_updated (fst (bucket_rounds rs b1))
     \<and> snd (bucket_rounds rs b1) + bk_tokens (fst (bucket_rounds rs b1))
         \<le> bk_tokens b1 + bk_rate b * (bk_updated (fst (bucket_rounds rs b1)) - now)"
    using Cons.IH [OF f(1)] f(2,3) p(3) by simp
  then show ?case
    using f(5) p(2) by (auto simp: r b1 algebra_simps split: prod.split)
qed simp

text \<open>Whatever the callers and their costs, the tokens granted between two readings of the
  clock are at most the burst plus the rate times the time between them (and the
  tolerance of one comparison): a storm of reconnects cannot exceed the limit.\<close>

theorem bucket_rate_bound:
  assumes "bucket_ok b" "clock_ok (bk_updated b) rs"
  shows "snd (bucket_rounds rs b)
       \<le> bk_capacity b + bk_rate b * (bk_updated (fst (bucket_rounds rs b)) - bk_updated b) + bucket_eps"
  using bucket_rounds_conserve [OF assms] assms(1) by (auto simp: bucket_ok_def)

theorem bucket_rate_bound_witness:
  "snd (bucket_rounds [(1, 0), (1, 0), (1, 0), (1, 1/2)] \<lparr>bk_rate = 2, bk_capacity = 2, bk_tokens = 2, bk_updated = 0\<rparr>) = 3
   \<and> (3 :: real) \<le> 2 + 2 * (1/2 - 0) + bucket_eps"
  using bucket_rate_bound [of "\<lparr>bk_rate = 2, bk_capacity = 2, bk_tokens = 2, bk_updated = 0\<rparr>"
      "[(1, 0), (1, 0), (1, 0), (1, 1/2)]"]
  by (simp add: bucket_ok_def bucket_eps_def bucket_round_def bucket_refill_def Let_def)

text \<open>A caller whose cost fits the burst is granted its tokens on the second round at the
  latest, if nobody took tokens meanwhile and it slept as long as it was told; one whose
  cost exceeds the burst by more than the tolerance waits for ever.\<close>

theorem acquire_two_rounds:
  assumes "bucket_ok b" "bk_updated b \<le> t1" "0 < cost"
  shows "(cost \<le> bk_capacity b \<and> t1 + (case snd (bucket_round cost t1 b) of None \<Rightarrow> 0 | Some w \<Rightarrow> w) \<le> t2
            \<longrightarrow> (\<exists>b' n. acquire cost [t1, t2] b = Inr (b', Some n) \<and> n \<le> 2 \<and> bucket_ok b'))
    \<and> (bk_capacity b + bucket_eps < cost \<longrightarrow> (\<exists>b'. acquire cost ts b = Inr (b', None)))"
proof
  show "bk_capacity b + bucket_eps < cost \<longrightarrow> (\<exists>b'. acquire cost ts b = Inr (b', None))"
  proof
    assume c: "bk_capacity b + bucket_eps < cost"
    then show "\<exists>b'. acquire cost ts b = Inr (b', None)"
      using assms(3)
    proof (induction ts arbitrary: b)
      case (Cons t ts)
      obtain b1 w where b1: "bucket_round cost t b = (b1, w)" by (cases "bucket_round cost t b")
      then have w: "w \<noteq> None" "bk_capacity b1 = bk_capacity b"
        using Cons.prems by (auto simp: bucket_round_def bucket_refill_def Let_def min_def split: if_splits)
      with Cons.IH [of b1] Cons.prems obtain b' where "acquire cost ts b1 = Inr (b', None)" by auto
      with b1 w Cons.prems show ?case by (auto split: option.splits)
    qed simp
  qed
  show "cost \<le> bk_capacity b \<and> t1 + (case snd (bucket_round cost t1 b) of None \<Rightarrow> 0 | Some w \<Rightarrow> w) \<le> t2
            \<longrightarrow> (\<exists>b' n. acquire cost [t1, t2] b = Inr (b', Some n) \<and> n \<le> 2 \<and> bucket_ok b')"
  proof
    assume c: "cost \<le> bk_capacity b \<and> t1 + (case snd (bucket_round cost t1 b) of None \<Rightarrow> 0 | Some w \<Rightarrow> w) \<le> t2"
    obtain b1 w where b1: "bucket_round cost t1 b = (b1, w)" by (cases "bucket_round cost t1 b")
    note f = bucket_round_facts [OF assms, unfolded b1, simplified]
    show "\<exists>b' n. acquire cost [t1, t2] b = Inr (b', Some n) \<and> n \<le> 2 \<and> bucket_ok b'"
    proof (cases w)
      case None
      with b1 f assms(3) show ?thesis by simp
    next
      case (Some v)
      then have v: "v = (cost - bk_tokens b1) / bk_rate b1" "bk_tokens b1 + bucket_eps < cost"
        using b1 by (auto simp: bucket_round_def Let_def split: if_splits)
      have t: "t1 + v \<le> t2" using c b1 Some by simp
      have r: "0 < bk_rate b1" using f(1) by (simp add: bucket_ok_def)
      have e: "0 < bucket_eps" by (simp add: bucket_eps_def)
      have "cost - bk_tokens b1 \<le> (t2 - t1) * bk_rate b1"
        using t v(1) r by (simp add: field_simps)
      then have g: "snd (bucket_round cost t2 b1) = None"
        using c f(2,4) e by (auto simp: bucket_round_def bucket_refill_def Let_def)
      have "0 < v" using v r e by (simp add: divide_pos_pos)
      then have "bucket_ok (fst (bucket_round cost t2 b1))"
        using bucket_round_facts(1) [OF f(1) _ assms(3)] t f(2) by simp
      with g b1 Some assms(3) show ?thesis by (cases "bucket_round cost t2 b1") auto
    qed
  qed
qed

theorem acquire_two_rounds_witness:
  "\<exists>b' n. acquire 1 [0, 1/2] \<lparr>bk_rate = 2, bk_capacity = 2, bk_tokens = 0, bk_updated = 0\<rparr> = Inr (b', Some n) \<and> n \<le> 2 \<and> bucket_ok b'"
  using acquire_two_rounds [of "\<lparr>bk_rate = 2, bk_capacity = 2, bk_tokens = 0, bk_updated = 0\<rparr>" 0 1 "1/2"]
  by (simp add: bucket_ok_def bucket_eps_def bucket_round_def bucket_refill_def Let_def)

section \<open>The resync gate\<close>

record gate =
  gt_max :: nat
  gt_interval :: flt
  gt_next :: time
  gt_failures :: nat
  gt_open_until :: time
  gt_threshold :: nat
  gt_cooldown :: flt
  gt_base :: flt
  gt_bmax :: flt

definition gate_init :: "nat \<Rightarrow> flt \<Rightarrow> nat \<Rightarrow> flt \<Rightarrow> flt \<Rightarrow> flt \<Rightarrow> py_error + gate" where
  "gate_init max_concurrent min_interval fail_threshold cooldown backoff_base backoff_max =
     (if max_concurrent < 1 then Inl (ValueError ''max_concurrent must be >= 1'')
      else Inr \<lparr>gt_max = max_concurrent, gt_interval = min_interval, gt_next = 0, gt_failures = 0,
                gt_open_until = 0, gt_threshold = fail_threshold, gt_cooldown = cooldown,
                gt_base = backoff_base, gt_bmax = backoff_max\<rparr>)"

definition is_circuit_open :: "time \<Rightarrow> gate \<Rightarrow> bool" where
  "is_circuit_open now g \<longleftrightarrow> now < gt_open_until g"

text \<open>\<open>random.uniform(0, exp * 0.15)\<close> is the fraction \<open>j\<close> of its upper end.\<close>

definition on_rate_limit :: "time \<Rightarrow> real \<Rightarrow> gate \<Rightarrow> gate \<times> flt" where
  "on_rate_limit now j g =
     (let failures = Suc (gt_failures g);
          ex = min (gt_bmax g) (gt_base g * 2 ^ min failures 8);
          sleep_s = ex + j * (ex * (15/100));
          g1 = (if gt_threshold g \<le> failures
                then g\<lparr>gt_failures := 0, gt_open_until := now + gt_cooldown g\<rparr>
                else g\<lparr>gt_failures := failures\<rparr>)
      in (g1\<lparr>gt_next := now + gt_interval g + sleep_s\<rparr>, sleep_s))"

definition on_success :: "time \<Rightarrow> gate \<Rightarrow> gate" where
  "on_success now g = g\<lparr>gt_next := now + gt_interval g, gt_failures := 0\<rparr>"

definition on_error :: "time \<Rightarrow> gate \<Rightarrow> gate" where
  "on_error now g = g\<lparr>gt_next := now + gt_interval g\<rparr>"

text \<open>
  Where a call of \<open>run_throttled\<close> stands between two awaits: before the semaphore, asleep
  until the circuit closes, before the spacing lock, asleep under the lock, in the
  request, back from it and before the lock again, asleep after a rate limit, done.
\<close>

datatype gate_outcome = GOk | GErr | GLimited

datatype gate_phase =
    GWaiting
  | GCircuit time
  | GWantSpacing
  | GSpacing time
  | GFetching
  | GReturned gate_outcome
  | GBackoff time
  | GDone gate_outcome

fun holds_sem :: "gate_phase \<Rightarrow> bool" where
  "holds_sem GWaiting = False"
| "holds_sem (GDone _) = False"
| "holds_sem _ = True"

fun holds_lock :: "gate_phase \<Rightarrow> bool" where
  "holds_lock (GSpacing _) = True"
| "holds_lock _ = False"

definition sem_count :: "gate_phase list \<Rightarrow> nat" where
  "sem_count cs = length (filter holds_sem cs)"

definition lock_count :: "gate_phase list \<Rightarrow> nat" where
  "lock_count cs = length (filter holds_lock cs)"

datatype gate_event = Started time | Ended time

record gate_sys =
  gy_gate :: gate
  gy_now :: time
  gy_calls :: "gate_phase list"
  gy_log :: "gate_event list"

definition enter_phase :: "time \<Rightarrow> gate \<Rightarrow> gate_phase" where
  "enter_phase now g = (if now < gt_open_until g then GCircuit (gt_open_until g) else GWantSpacing)"

definition move :: "nat \<Rightarrow> gate_phase \<Rightarrow> gate_sys \<Rightarrow> gate_sys" where
  "move i p s = s\<lparr>gy_calls := (gy_calls s)[i := p]\<rparr>"

definition begin_fetch :: "nat \<Rightarrow> gate_sys \<Rightarrow> gate_sys" where
  "begin_fetch i s = (move i GFetching s)\<lparr>gy_log := Started (gy_now s) # gy_log s\<rparr>"

definition end_fetch :: "nat \<Rightarrow> gate_phase \<Rightarrow> gate \<Rightarrow> gate_sys \<Rightarrow> gate_sys" where
  "end_fetch i p g s = (move i p s)\<lparr>gy_gate := g, gy_log := Ended (gy_now s) # gy_log s\<rparr>"

definition phase_at :: "gate_sys \<Rightarrow> nat \<Rightarrow> gate_phase \<Rightarrow> bool" where
  "phase_at s i p \<longleftrightarrow> i < length (gy_calls s) \<and> gy_calls s ! i = p"

inductive gate_act :: "gate_sys \<Rightarrow> gate_sys \<Rightarrow> bool" where
  enter: "phase_at s i GWaiting \<Longrightarrow> sem_count (gy_calls s) < gt_max (gy_gate s) \<Longrightarrow>
            gate_act s (move i (enter_phase (gy_now s) (gy_gate s)) s)"
| closed: "phase_at s i (GCircuit t) \<Longrightarrow> t \<le> gy_now s \<Longrightarrow> gate_act s (move i GWantSpacing s)"
| spaced_out: "phase_at s i GWantSpacing \<Longrightarrow> lock_count (gy_calls s) = 0 \<Longrightarrow> gy_now s < gt_next (gy_gate s) \<Longrightarrow>
            gate_act s (move i (GSpacing (gt_next (gy_gate s))) s)"
| at_once: "phase_at s i GWantSpacing \<Longrightarrow> lock_count (gy_calls s) = 0 \<Longrightarrow> gt_next (gy_gate s) \<le> gy_now s \<Longrightarrow>
            gate_act s (begin_fetch i s)"
| spacing_over: "phase_at s i (GSpacing t) \<Longrightarrow> t \<le> gy_now s \<Longrightarrow> gate_act s (begin_fetch i s)"
| returned: "phase_at s i GFetching \<Longrightarrow> gate_act s (move i (GReturned r) s)"
| success: "phase_at s i (GReturned GOk) \<Longrightarrow> lock_count (gy_calls s) = 0 \<Longrightarrow>
            gate_act s (end_fetch i (GDone GOk) (on_success (gy_now s) (gy_gate s)) s)"
| error: "phase_at s i (GReturned GErr) \<Longrightarrow> lock_count (gy_calls s) = 0 \<Longrightarrow>
            gate_act s (end_fetch i (GDone GErr) (on_error (gy_now s) (gy_gate s)) s)"
| limited: "phase_at s i (GReturned GLimited) \<Longrightarrow> lock_count (gy_calls s) = 0 \<Longrightarrow> 0 \<le> j \<Longrightarrow> j \<le> 1 \<Longrightarrow>
            on_rate_limit (gy_now s) j (gy_gate s) = (g, w) \<Longrightarrow>
            gate_act s (end_fetch i (GBackoff (gy_now s + w)) g s)"
| backoff_over: "phase_at s i (GBackoff t) \<Longrightarrow> t \<le> gy_now s \<Longrightarrow> gate_act s (move i (GDone GLimited) s)"

inductive gate_step :: "gate_sys \<Rightarrow> gate_sys \<Rightarrow> bool" where
  time: "gy_now s \<le> t \<Longrightarrow> gate_step s (s\<lparr>gy_now := t\<rparr>)"
| act: "gate_act s s' \<Longrightarrow> gate_step s s'"

inductive_cases gate_actE: "gate_act s s'"
inductive_cases gate_stepE: "gate_step s s'"

definition gate_start :: "gate \<Rightarrow> time \<Rightarrow> nat \<Rightarrow> gate_sys" where
  "gate_start g now n = \<lparr>gy_gate = g, gy_now = now, gy_calls = replicate n GWaiting, gy_log = []\<rparr>"

section \<open>The gate's limits\<close>

text \<open>The log, newest event first: no request starts within the interval after an end before it.\<close>

fun log_spaced :: "flt \<Rightarrow> gate_event list \<Rightarrow> bool" where
  "log_spaced d [] \<longleftrightarrow> True"
| "log_spaced d (Ended t # l) \<longleftrightarrow> log_spaced d l"
| "log_spaced d (Started t # l) \<longleftrightarrow> (\<forall>u. Ended u \<in> set l \<longrightarrow> u + d \<le> t) \<and> log_spaced d l"

definition gate_params_ok :: "gate \<Rightarrow> bool" where
  "gate_params_ok g \<longleftrightarrow> 0 \<le> gt_base g \<and> 0 \<le> gt_bmax g \<and> 0 \<le> gt_cooldown g \<and> 0 < gt_threshold g"

definition same_params :: "gate \<Rightarrow> gate \<Rightarrow> bool" where
  "same_params g h \<longleftrightarrow> gt_max g = gt_max h \<and> gt_interval g = gt_interval h \<and> gt_threshold g = gt_threshold h
     \<and> gt_cooldown g = gt_cooldown h \<and> gt_base g = gt_base h \<and> gt_bmax g = gt_bmax h"

definition gate_inv :: "gate_sys \<Rightarrow> bool" where
  "gate_inv s \<longleftrightarrow>
     gate_params_ok (gy_gate s)
     \<and> sem_count (gy_calls s) \<le> gt_max (gy_gate s)
     \<and> lock_count (gy_calls s) \<le> 1
     \<and> (\<forall>t. GSpacing t \<in> set (gy_calls s) \<longrightarrow> t = gt_next (gy_gate s))
     \<and> log_spaced (gt_interval (gy_gate s)) (gy_log s)
     \<and> (\<forall>u. Ended u \<in> set (gy_log s) \<longrightarrow> u \<le> gy_now s \<and> u + gt_interval (gy_gate s) \<le> gt_next (gy_gate s))
     \<and> gt_failures (gy_gate s) < gt_threshold (gy_gate s)
     \<and> gt_open_until (gy_gate s) \<le> gy_now s + gt_cooldown (gy_gate s)"

lemma sem_move:
  "phase_at s i p \<Longrightarrow> sem_count (gy_calls (move i q s)) + (if holds_sem p then 1 else 0)
     = sem_count (gy_calls s) + (if holds_sem q then 1 else 0)"
  using count_update [of i "gy_calls s" holds_sem q] by (simp add: move_def sem_count_def phase_at_def)

lemma lock_move:
  "phase_at s i p \<Longrightarrow> lock_count (gy_calls (move i q s)) + (if holds_lock p then 1 else 0)
     = lock_count (gy_calls s) + (if holds_lock q then 1 else 0)"
  using count_update [of i "gy_calls s" holds_lock q] by (simp add: move_def lock_count_def phase_at_def)

lemma lock_zero: "lock_count cs = 0 \<Longrightarrow> GSpacing t \<notin> set cs"
  by (auto simp: lock_count_def filter_empty_conv)

lemma calls_move: "p \<in> set (gy_calls (move i q s)) \<Longrightarrow> p = q \<or> p \<in> set (gy_calls s)"
  using set_update_subset_insert [of "gy_calls s" i q] by (auto simp: move_def)

lemma move_simps [simp]:
  "gy_gate (move i q s) = gy_gate s" "gy_now (move i q s) = gy_now s" "gy_log (move i q s) = gy_log s"
  by (simp_all add: move_def)

lemma on_rate_limit_facts:
  assumes "on_rate_limit now j g = (g', w)" "gate_params_ok g" "0 \<le> j" "j \<le> 1" "gt_failures g < gt_threshold g"
  shows "same_params g' g" "0 \<le> w" "w \<le> gt_bmax g * (115/100)" "gt_next g' = now + gt_interval g + w"
    and "gt_failures g' < gt_threshold g" "gt_open_until g' = gt_open_until g \<or> gt_open_until g' = now + gt_cooldown g"
proof -
  define ex where "ex = min (gt_bmax g) (gt_base g * 2 ^ min (Suc (gt_failures g)) 8)"
  have ex: "0 \<le> ex" "ex \<le> gt_bmax g" using assms(2) by (auto simp: ex_def gate_params_ok_def)
  have w: "w = ex + j * (ex * (15/100))" using assms(1) by (auto simp: on_rate_limit_def Let_def ex_def)
  have "j * (ex * (15/100)) \<le> 1 * (ex * (15/100))" using assms(4) ex by (intro mult_right_mono) auto
  then show "0 \<le> w" "w \<le> gt_bmax g * (115/100)" using w ex assms(3) by auto
qed (use assms in \<open>auto simp: on_rate_limit_def Let_def same_params_def gate_params_ok_def split: if_splits\<close>)

lemma gate_inv_move:
  assumes "gate_inv s" "phase_at s i p" "holds_sem q \<longrightarrow> holds_sem p \<or> sem_count (gy_calls s) < gt_max (gy_gate s)"
    and "holds_lock q \<longrightarrow> holds_lock p \<or> lock_count (gy_calls s) = 0"
    and "\<And>t. q = GSpacing t \<Longrightarrow> t = gt_next (gy_gate s)"
  shows "gate_inv (move i q s)"
proof -
  have "sem_count (gy_calls (move i q s)) \<le> gt_max (gy_gate s)"
    using sem_move [OF assms(2), of q] assms(1,3) by (auto simp: gate_inv_def split: if_splits)
  moreover have "lock_count (gy_calls (move i q s)) \<le> 1"
    using lock_move [OF assms(2), of q] assms(1,4) by (auto simp: gate_inv_def split: if_splits)
  ultimately show ?thesis
    using assms(1,5) calls_move [of _ i q s] unfolding gate_inv_def move_simps by blast
qed

lemma gate_inv_end:
  assumes "gate_inv s" "phase_at s i (GReturned r)" "lock_count (gy_calls s) = 0" "same_params g (gy_gate s)"
    and "gt_next g = gy_now s + gt_interval (gy_gate s) + w" "0 \<le> w" "\<not> holds_lock q"
    and "gt_failures g < gt_threshold g"
    and "gt_open_until g = gt_open_until (gy_gate s) \<or> gt_open_until g = gy_now s + gt_cooldown (gy_gate s)"
  shows "gate_inv (end_fetch i q g s)"
proof -
  have m: "gate_inv (move i q s)"
    using assms by (intro gate_inv_move [OF assms(1,2)]) auto
  have z: "lock_count (gy_calls (move i q s)) = 0"
    using lock_move [OF assms(2), of q] assms(3,7) by (auto split: if_splits)
  have "gate_params_ok g" using m assms(4) by (auto simp: gate_inv_def gate_params_ok_def same_params_def)
  moreover have "gt_open_until g \<le> gy_now s + gt_cooldown g"
    using m assms(4,9) by (auto simp: gate_inv_def same_params_def)
  moreover have "u \<le> gy_now s \<Longrightarrow> u + gt_interval (gy_gate s) \<le> gt_next g" for u
    using assms(5,6) by simp
  ultimately show ?thesis
    using m z assms(4,8) lock_zero [OF z]
    unfolding gate_inv_def end_fetch_def same_params_def by (auto simp: assms(5,6))
qed

lemma gate_inv_begin:
  assumes "gate_inv s" "phase_at s i p" "holds_sem p" "gt_next (gy_gate s) \<le> gy_now s"
  shows "gate_inv (begin_fetch i s)"
proof -
  have m: "gate_inv (move i GFetching s)"
    using assms by (intro gate_inv_move [OF assms(1,2)]) auto
  have "u + gt_interval (gy_gate s) \<le> gy_now s" if "Ended u \<in> set (gy_log s)" for u
    using assms(1,4) that unfolding gate_inv_def by (meson order_trans)
  with m show ?thesis unfolding gate_inv_def begin_fetch_def by simp
qed

lemma gate_inv_act: "gate_act s s' \<Longrightarrow> gate_inv s \<Longrightarrow> gate_inv s'"
proof (induction rule: gate_act.induct)
  case (spacing_over s i t)
  then have "GSpacing t \<in> set (gy_calls s)" unfolding phase_at_def by (metis nth_mem)
  then have "t = gt_next (gy_gate s)" using spacing_over(3) by (simp add: gate_inv_def)
  with spacing_over show ?case by (intro gate_inv_begin) auto
next
  case (limited s i j g w)
  then have i: "gate_params_ok (gy_gate s)" "gt_failures (gy_gate s) < gt_threshold (gy_gate s)"
    by (auto simp: gate_inv_def)
  note f = on_rate_limit_facts [OF limited(5) i(1) limited(3,4) i(2)]
  show ?case
    using f limited by (intro gate_inv_end [where w = w and r = GLimited]) (auto simp: same_params_def)
next
  case (success s i)
  then show ?case
    by (intro gate_inv_end [where w = 0 and r = GOk])
      (auto simp: on_success_def same_params_def gate_inv_def gate_params_ok_def)
next
  case (error s i)
  then show ?case
    by (intro gate_inv_end [where w = 0 and r = GErr])
      (auto simp: on_error_def same_params_def gate_inv_def gate_params_ok_def)
qed (auto intro!: gate_inv_move gate_inv_begin simp: enter_phase_def)

lemma gate_inv_step: "gate_step s s' \<Longrightarrow> gate_inv s \<Longrightarrow> gate_inv s'"
proof (induction rule: gate_step.induct)
  case (time s t)
  then have "\<And>u. u \<le> gy_now s \<Longrightarrow> u \<le> t" by simp
  with time show ?case unfolding gate_inv_def by (auto intro: order_trans)
next
  case (act s s')
  then show ?case using gate_inv_act by blast
qed

lemma gate_inv_steps: "gate_step\<^sup>*\<^sup>* s s' \<Longrightarrow> gate_inv s \<Longrightarrow> gate_inv s'"
  by (induction rule: rtranclp_induct) (auto intro: gate_inv_step)

lemma gate_inv_start:
  "gate_params_ok g \<Longrightarrow> gt_failures g = 0 \<Longrightarrow> gt_open_until g \<le> now + gt_cooldown g \<Longrightarrow> gate_inv (gate_start g now n)"
  by (induction n) (auto simp: gate_inv_def gate_start_def sem_count_def lock_count_def gate_params_ok_def)


section \<open>What the gate does not limit\<close>

definition demo_gate :: gate where
  "demo_gate = \<lparr>gt_max = 2, gt_interval = 1/20, gt_next = 0, gt_failures = 0, gt_open_until = 0,
     gt_threshold = 6, gt_cooldown = 30, gt_base = 1/4, gt_bmax = 12\<rparr>"

definition demo_sys :: "gate_phase list \<Rightarrow> gate_event list \<Rightarrow> gate_sys" where
  "demo_sys cs l = \<lparr>gy_gate = demo_gate, gy_now = 1, gy_calls = cs, gy_log = l\<rparr>"

lemma demo_run: "gate_step\<^sup>*\<^sup>* (gate_start demo_gate 1 2) (demo_sys [GFetching, GFetching] [Started 1, Started 1])"
proof -
  have "gate_act (demo_sys [GWaiting, GWaiting] []) (demo_sys [GWantSpacing, GWaiting] [])"
    using enter [of "demo_sys [GWaiting, GWaiting] []" 0]
    by (simp add: demo_sys_def phase_at_def sem_count_def demo_gate_def enter_phase_def move_def)
  moreover have "gate_act (demo_sys [GWantSpacing, GWaiting] []) (demo_sys [GFetching, GWaiting] [Started 1])"
    using at_once [of "demo_sys [GWantSpacing, GWaiting] []" 0]
    by (simp add: demo_sys_def phase_at_def lock_count_def demo_gate_def begin_fetch_def move_def)
  moreover have "gate_act (demo_sys [GFetching, GWaiting] [Started 1]) (demo_sys [GFetching, GWantSpacing] [Started 1])"
    using enter [of "demo_sys [GFetching, GWaiting] [Started 1]" 1]
    by (simp add: demo_sys_def phase_at_def sem_count_def demo_gate_def enter_phase_def move_def)
  moreover have "gate_act (demo_sys [GFetching, GWantSpacing] [Started 1]) (demo_sys [GFetching, GFetching] [Started 1, Started 1])"
    using at_once [of "demo_sys [GFetching, GWantSpacing] [Started 1]" 1]
    by (simp add: demo_sys_def phase_at_def lock_count_def demo_gate_def begin_fetch_def move_def)
  moreover have "gate_start demo_gate 1 2 = demo_sys [GWaiting, GWaiting] []"
    by (simp add: gate_start_def demo_sys_def numeral_2_eq_2)
  ultimately show ?thesis
    by (metis (no_types, lifting) gate_step.act rtranclp.simps)
qed


text \<open>The interval is kept from the end of a request only: two requests of the default gate
  can start at the same instant, since a start does not move the next allowed time.\<close>

theorem starts_coincide:
  "\<exists>s. gate_step\<^sup>*\<^sup>* (gate_start demo_gate 1 2) s \<and> gy_log s = [Started 1, Started 1] \<and> 0 < gt_interval (gy_gate s)"
  by (rule exI, rule conjI, rule demo_run) (simp add: demo_sys_def demo_gate_def)

section \<open>The gate never jams\<close>

lemma held_lock: "lock_count cs \<noteq> 0 \<Longrightarrow> \<exists>i t. i < length cs \<and> cs ! i = GSpacing t"
proof -
  assume "lock_count cs \<noteq> 0"
  then obtain p where p: "p \<in> set cs" "holds_lock p" by (auto simp: lock_count_def filter_empty_conv)
  from p(2) obtain t where "p = GSpacing t" by (cases p) auto
  with p(1) show ?thesis by (metis in_set_conv_nth)
qed

lemma holder_moves:
  assumes "phase_at s i p" "holds_sem p" "lock_count (gy_calls s) = 0 \<or> holds_lock p"
  shows "\<exists>t s'. gy_now s \<le> t \<and> gate_act (s\<lparr>gy_now := t\<rparr>) s'"
proof -
  have at: "phase_at (s\<lparr>gy_now := t\<rparr>) i p" for t using assms(1) by (simp add: phase_at_def)
  show ?thesis
  proof (cases p)
    case (GCircuit t)
    with closed [of "s\<lparr>gy_now := max t (gy_now s)\<rparr>" i t] at show ?thesis by (intro exI [of _ "max t (gy_now s)"]) auto
  next
    case GWantSpacing
    with at_once [of "s\<lparr>gy_now := max (gt_next (gy_gate s)) (gy_now s)\<rparr>" i] at assms(3) show ?thesis
      by (intro exI [of _ "max (gt_next (gy_gate s)) (gy_now s)"]) auto
  next
    case (GSpacing t)
    with spacing_over [of "s\<lparr>gy_now := max t (gy_now s)\<rparr>" i t] at show ?thesis
      by (intro exI [of _ "max t (gy_now s)"]) auto
  next
    case GFetching
    then have "gate_act (s\<lparr>gy_now := gy_now s\<rparr>) (move i (GReturned GOk) (s\<lparr>gy_now := gy_now s\<rparr>))"
      using at [of "gy_now s"] by (intro returned) simp
    then show ?thesis by blast
  next
    case (GReturned r)
    obtain g w where g: "on_rate_limit (gy_now s) 0 (gy_gate s) = (g, w)" by (cases "on_rate_limit (gy_now s) 0 (gy_gate s)")
    from GReturned at [of "gy_now s"] assms(3) g
      success [of s i] error [of s i] limited [of s i 0 g w]
    have "\<exists>s'. gate_act (s\<lparr>gy_now := gy_now s\<rparr>) s'" by (cases r) auto
    then show ?thesis by blast
  next
    case (GBackoff t)
    with backoff_over [of "s\<lparr>gy_now := max t (gy_now s)\<rparr>" i t] at show ?thesis
      by (intro exI [of _ "max t (gy_now s)"]) auto
  qed (use assms(2) in auto)
qed

text \<open>No set of calls can jam the gate: while one of them is not done, there is a time from
  which on some call can take its next step.\<close>

theorem gate_never_jams:
  assumes "0 < gt_max (gy_gate s)" "phase_at s i p" "\<And>r. p \<noteq> GDone r"
  shows "\<exists>t s'. gy_now s \<le> t \<and> gate_act (s\<lparr>gy_now := t\<rparr>) s'"
proof (cases "lock_count (gy_calls s) = 0")
  case False
  then obtain j t where "phase_at s j (GSpacing t)" using held_lock unfolding phase_at_def by blast
  then show ?thesis by (rule holder_moves) auto
next
  case lock: True
  show ?thesis
  proof (cases "holds_sem p")
    case True
    with assms(2) lock show ?thesis by (blast intro: holder_moves)
  next
    case False
    with assms(3) have p: "p = GWaiting" by (cases p) auto
    show ?thesis
    proof (cases "sem_count (gy_calls s) < gt_max (gy_gate s)")
      case True
      with enter [of "s\<lparr>gy_now := gy_now s\<rparr>" i] assms(2) p show ?thesis
        by (intro exI [of _ "gy_now s"]) auto
    next
      case False
      with assms(1) have "filter holds_sem (gy_calls s) \<noteq> []" by (auto simp: sem_count_def)
      then obtain q where "q \<in> set (gy_calls s)" "holds_sem q" by (auto simp: filter_empty_conv)
      then obtain j where "phase_at s j q" "holds_sem q" by (auto simp: phase_at_def in_set_conv_nth)
      with lock show ?thesis by (blast intro: holder_moves)
    qed
  qed
qed

theorem gate_never_jams_witness:
  "\<exists>t s'. 1 \<le> t \<and> gate_act ((demo_sys [GWaiting, GSpacing 5, GFetching] [])\<lparr>gy_now := t\<rparr>) s'"
  using gate_never_jams [of "demo_sys [GWaiting, GSpacing 5, GFetching] []" 0 GWaiting]
  by (simp add: demo_sys_def demo_gate_def phase_at_def)

end
