(* ===== verification/Multiplexer.thy ===== *)
theory Multiplexer
  imports Wire "HOL-Library.AList"
begin

text \<open>
  The L2 multiplexer \<open>src/src/infrastructure/gektor_l2/ws_multiplexer.py\<close> and the
  processor interface it consumes (\<open>protocols.py\<close>, the locale \<open>l2_processor\<close>).  The
  code runs on one event loop: between two awaits it is atomic, so the model has one
  event per such stretch (a socket message, the pump taking a request, its fetch coming
  back, a lost connection, a hot swap) and interleavings are lists of events.  Processors
  are shared by reference: the map holds addresses into a heap.  Sockets, sessions and
  task cancellation are the environment.  The lemmas show the bookkeeping of resync
  requests over any interleaving, that a gap never stays in the synced state, that a
  recovery that completes equals a book fed in order, and where a symbol can be stranded.
\<close>

section \<open>The processor interface\<close>

type_synonym rows = "(int \<times> int) list"

record 'p processor_ops =
  po_snapshot :: "time \<Rightarrow> int \<Rightarrow> rows \<Rightarrow> rows \<Rightarrow> 'p \<Rightarrow> 'p"
  po_delta :: "time \<Rightarrow> delta_msg \<Rightarrow> 'p \<Rightarrow> 'p \<times> bool"
  po_last_id :: "'p \<Rightarrow> int"
  po_reject :: "'p \<Rightarrow> string option"

definition resync_reasons :: "string list" where
  "resync_reasons = [''sequence_gap'', ''invalid_u_range'', ''no_snapshot_anchor'']"

definition lost_anchor :: "'p processor_ops \<Rightarrow> 'p \<Rightarrow> bool" where
  "lost_anchor ops p \<longleftrightarrow> (case po_reject ops p of None \<Rightarrow> False | Some r \<Rightarrow> r \<in> set resync_reasons)"

locale l2_processor =
  fixes ops :: "'p processor_ops"
  assumes accepted_id: "po_delta ops t d p = (p', True) \<Longrightarrow> po_last_id ops p' = dm_u d"
    and accepted_newer: "po_delta ops t d p = (p', True) \<Longrightarrow> po_last_id ops p < dm_u d"
    and rejected_keeps: "po_delta ops t d p = (p', False) \<Longrightarrow> \<not> lost_anchor ops p' \<Longrightarrow> po_last_id ops p' = po_last_id ops p"
    and rejected_anchor: "po_delta ops t d p = (p', False) \<Longrightarrow> lost_anchor ops p' \<longleftrightarrow> po_last_id ops p' = 0"

definition book_ops :: "numpy \<Rightarrow> book processor_ops" where
  "book_ops np =
     \<lparr>po_snapshot = ingest_snapshot np, po_delta = ingest_delta np, po_last_id = nb_u, po_reject = nb_reject\<rparr>"

lemma book_ops_simps [simp]:
  "po_snapshot (book_ops np) = ingest_snapshot np" "po_delta (book_ops np) = ingest_delta np"
  "po_last_id (book_ops np) = nb_u" "po_reject (book_ops np) = nb_reject"
  by (simp_all add: book_ops_def)

lemma book_is_processor: "l2_processor (book_ops np)"
  by unfold_locales
    (auto simp: ingest_delta_def lost_anchor_def resync_reasons_def hard_reset_def apply_rows_eq Let_def
      split: if_splits option.splits)

interpretation nd_book: l2_processor "book_ops np"
  by (rule book_is_processor)

section \<open>State\<close>

text \<open>The pump is idle, in a fetch for a symbol begun at an epoch, or in its pause after a failure.\<close>

datatype pump = PumpIdle | PumpFetch symbol nat nat | PumpPause symbol

record 'p mux =
  mx_procs :: "(symbol \<times> nat) list"
  mx_heap :: "nat \<Rightarrow> 'p"
  mx_states :: "symbol \<rightharpoonup> book_state"
  mx_source :: bool
  mx_queue :: "(symbol \<times> nat) list"
  mx_pending :: "symbol set"
  mx_epoch :: nat
  mx_pump :: pump
  mx_acks :: "nat set"
  mx_futures :: "nat \<rightharpoonup> bool"
  mx_chunk :: nat
  mx_layout :: "symbol list list"
  mx_initial :: "symbol list list"
  mx_subs :: "symbol list list"

definition norm_symbol :: "string \<Rightarrow> symbol" where
  "norm_symbol s = py_upper (strip s)"

function chunks :: "nat \<Rightarrow> 'a list \<Rightarrow> 'a list list" where
  "chunks n xs = (if xs = [] \<or> n = 0 then [] else take n xs # chunks n (drop n xs))"
  by pat_completeness auto
termination by (relation "measure (length \<circ> snd)") auto

declare chunks.simps [simp del]

definition chunk_symbols :: "string list \<Rightarrow> nat \<Rightarrow> symbol list list" where
  "chunk_symbols symbols n = chunks n (map norm_symbol (filter (\<lambda>s. strip s \<noteq> []) symbols))"

fun shard_index :: "symbol list list \<Rightarrow> string \<Rightarrow> nat option" where
  "shard_index [] sy = None"
| "shard_index (c # cs) sy = (if norm_symbol sy \<in> set c then Some 0 else map_option Suc (shard_index cs sy))"

definition norm_map :: "(string \<times> nat) list \<Rightarrow> (symbol \<times> nat) list" where
  "norm_map ps = fold (\<lambda>(k, a) d. AList.update (norm_symbol k) a d) ps []"

definition all_synced :: "(symbol \<times> nat) list \<Rightarrow> symbol \<rightharpoonup> book_state" where
  "all_synced ps = (\<lambda>s. if s \<in> fst ` set ps then Some SYNCED else None)"

definition mux_init :: "(nat \<Rightarrow> 'p) \<Rightarrow> (string \<times> nat) list \<Rightarrow> nat \<Rightarrow> bool \<Rightarrow> py_error + 'p mux" where
  "mux_init heap ps chunk_size source =
     (if chunk_size = 0 \<or> 50 < chunk_size then Inl (ValueError ''chunk_size must be in 1..50 for operational safety'')
      else Inr \<lparr>mx_procs = norm_map ps, mx_heap = heap, mx_states = all_synced (norm_map ps), mx_source = source,
                mx_queue = [], mx_pending = {}, mx_epoch = 0, mx_pump = PumpIdle, mx_acks = {}, mx_futures = Map.empty,
                mx_chunk = chunk_size, mx_layout = [], mx_initial = [], mx_subs = []\<rparr>)"

definition replace_processors :: "(string \<times> nat) list \<Rightarrow> 'p mux \<Rightarrow> 'p mux" where
  "replace_processors ps m = m\<lparr>mx_procs := norm_map ps, mx_states := all_synced (norm_map ps)\<rparr>"

definition mux_book_state :: "string \<Rightarrow> 'p mux \<Rightarrow> book_state" where
  "mux_book_state sy m = (case mx_states m (norm_symbol sy) of None \<Rightarrow> DESYNCED | Some st \<Rightarrow> st)"

definition set_state :: "symbol \<Rightarrow> book_state \<Rightarrow> 'p mux \<Rightarrow> 'p mux" where
  "set_state sy st m = m\<lparr>mx_states := (mx_states m)(sy \<mapsto> st)\<rparr>"

definition set_proc :: "nat \<Rightarrow> 'p \<Rightarrow> 'p mux \<Rightarrow> 'p mux" where
  "set_proc a p m = m\<lparr>mx_heap := (mx_heap m)(a := p)\<rparr>"

definition request_resync :: "string \<Rightarrow> 'p mux \<Rightarrow> 'p mux" where
  "request_resync symbol m =
     (let sy = norm_symbol symbol
      in if \<not> mx_source m then set_state sy DESYNCED m
         else if sy \<in> mx_pending m then m
         else m\<lparr>mx_pending := insert sy (mx_pending m), mx_queue := mx_queue m @ [(sy, mx_epoch m)]\<rparr>)"

section \<open>Acknowledgements\<close>

text \<open>A future is an address into \<open>mx_futures\<close>: absent while pending, then its result or its rejection.\<close>

definition register_ack :: "nat option \<Rightarrow> 'p mux \<Rightarrow> 'p mux" where
  "register_ack ack m =
     (case ack of None \<Rightarrow> m
      | Some f \<Rightarrow> if mx_futures m f = None then m\<lparr>mx_acks := insert f (mx_acks m)\<rparr> else m)"

definition complete_ack :: "nat option \<Rightarrow> bool \<Rightarrow> 'p mux \<Rightarrow> 'p mux" where
  "complete_ack ack ok m =
     (case ack of None \<Rightarrow> m
      | Some f \<Rightarrow> m\<lparr>mx_futures := (if mx_futures m f = None then (mx_futures m)(f \<mapsto> ok) else mx_futures m),
                    mx_acks := mx_acks m - {f}\<rparr>)"

definition purge_acks :: "'p mux \<Rightarrow> 'p mux" where
  "purge_acks m =
     m\<lparr>mx_futures := (\<lambda>f. if f \<in> mx_acks m \<and> mx_futures m f = None then Some False else mx_futures m f),
       mx_acks := {}\<rparr>"

definition purge_queue :: "'p mux \<Rightarrow> 'p mux" where
  "purge_queue m = m\<lparr>mx_queue := [], mx_pending := {}\<rparr>"

datatype shard_cmd = Shutdown | Subscribe "string list" | Unsubscribe "string list" | OtherCmd

text \<open>
  A command on shard \<open>i\<close>: \<open>None\<close> for a send cut off by cancellation, else whether it went
  out.  The answer is whether the worker goes on, stops or raises.
\<close>

datatype cmd_answer = CmdOk | CmdStop | CmdRaised

definition cmd_symbols :: "string list \<Rightarrow> symbol list" where
  "cmd_symbols syms = map norm_symbol (filter (\<lambda>s. strip s \<noteq> []) syms)"

definition send_cmd :: "nat \<Rightarrow> bool \<Rightarrow> string list \<Rightarrow> nat option \<Rightarrow> bool option \<Rightarrow> 'p mux \<Rightarrow> 'p mux \<times> cmd_answer" where
  "send_cmd i sub syms ack sent m =
     (let args = cmd_symbols syms
      in if args = [] then (complete_ack ack True m, CmdOk)
         else case sent of
                None \<Rightarrow> (m, CmdRaised)
              | Some False \<Rightarrow> (complete_ack ack False m, CmdRaised)
              | Some True \<Rightarrow>
                  (complete_ack ack True
                     (m\<lparr>mx_subs := (mx_subs m)[i := (if sub then mx_subs m ! i @ args
                                                     else filter (\<lambda>s. s \<notin> set args) (mx_subs m ! i))]\<rparr>), CmdOk))"

definition apply_shard_command :: "nat \<Rightarrow> shard_cmd \<Rightarrow> nat option \<Rightarrow> bool option \<Rightarrow> 'p mux \<Rightarrow> 'p mux \<times> cmd_answer" where
  "apply_shard_command i cmd ack sent m =
     (let m1 = register_ack ack m
      in case cmd of
           Shutdown \<Rightarrow> (complete_ack ack True m1, CmdStop)
         | OtherCmd \<Rightarrow> (complete_ack ack True m1, CmdOk)
         | Subscribe syms \<Rightarrow> send_cmd i True syms ack sent m1
         | Unsubscribe syms \<Rightarrow> send_cmd i False syms ack sent m1)"

section \<open>Messages\<close>

definition rows_of :: "jval option \<Rightarrow> py_error + rows" where
  "rows_of raw = snd (parse_levels raw static_buffer)"

definition int_field :: "jval option \<Rightarrow> py_error + int" where
  "int_field v =
     (case v of None \<Rightarrow> Inr 0
      | Some w \<Rightarrow> (case py_int_of w of None \<Rightarrow> Inl (ValueError ''int'') | Some n \<Rightarrow> Inr n))"

text \<open>The fields are read in this order; the first unreadable one raises.\<close>

definition parse_frame :: "(string \<times> jval) list \<Rightarrow> py_error + delta_msg" where
  "parse_frame first =
     (case rows_of (field ''b'' first) of Inl e \<Rightarrow> Inl e | Inr bids \<Rightarrow>
        (case rows_of (field ''a'' first) of Inl e \<Rightarrow> Inl e | Inr asks \<Rightarrow>
           (case int_field (field ''u'' first) of Inl e \<Rightarrow> Inl e | Inr u \<Rightarrow>
              Inr \<lparr>dm_u = u, dm_range = optional_cross_id (field ''U'' first),
                   dm_seq = optional_cross_id (field ''seq'' first), dm_bids = bids, dm_asks = asks\<rparr>)))"

definition feed_delta :: "'p processor_ops \<Rightarrow> time \<Rightarrow> nat \<Rightarrow> delta_msg \<Rightarrow> 'p mux \<Rightarrow> 'p mux \<times> bool" where
  "feed_delta ops now a d m = (let (p, ok) = po_delta ops now d (mx_heap m a) in (set_proc a p m, ok))"

definition ingest_payload ::
  "'p processor_ops \<Rightarrow> time \<Rightarrow> symbol \<Rightarrow> nat \<Rightarrow> string \<Rightarrow> (string \<times> jval) list \<Rightarrow> 'p mux \<Rightarrow> 'p mux \<times> py_error option" where
  "ingest_payload ops now sy a typ first m0 =
     (let st = (case mx_states m0 sy of None \<Rightarrow> SYNCED | Some s \<Rightarrow> s);
          m = set_state sy st m0
      in case st of
           RECOVERING \<Rightarrow>
             if typ = ''delta''
             then (case parse_frame first of Inl e \<Rightarrow> (m, Some e) | Inr d \<Rightarrow> (fst (feed_delta ops now a d m), None))
             else (m, None)
         | DESYNCED \<Rightarrow> (request_resync sy (set_state sy RECOVERING m), None)
         | SYNCED \<Rightarrow>
             (case parse_frame first of
                Inl e \<Rightarrow> (m, Some e)
              | Inr d \<Rightarrow>
                  if typ = ''snapshot''
                  then (set_proc a (po_snapshot ops now (dm_u d) (dm_bids d) (dm_asks d) (mx_heap m a)) m, None)
                  else if typ = ''delta''
                  then (let (m1, applied) = feed_delta ops now a d m
                        in if applied then (m1, None)
                           else if lost_anchor ops (mx_heap m1 a)
                           then (request_resync sy (set_state sy RECOVERING m1), None)
                           else (m1, None))
                  else (m, None)))"

text \<open>\<open>str()\<close> of a field that holds text; of any other value the empty text, which no topic, type or symbol is.\<close>

definition text_of :: "jval option \<Rightarrow> string" where
  "text_of v = (case v of Some (JStr t) \<Rightarrow> t | _ \<Rightarrow> [])"

text \<open>One message of a shard's socket, as its JSON value (\<open>None\<close>: not JSON); the error leaves the worker's loop.\<close>

definition worker_message :: "'p processor_ops \<Rightarrow> time \<Rightarrow> jval option \<Rightarrow> 'p mux \<Rightarrow> 'p mux \<times> py_error option" where
  "worker_message ops now payload m =
     (case payload of
        None \<Rightarrow> (m, None)
      | Some (JObj kvs) \<Rightarrow>
          if field ''op'' kvs = Some (JStr ''subscribe'') then (m, None)
          else if take 10 (text_of (field ''topic'' kvs)) \<noteq> ''orderbook.'' then (m, None)
          else (case field ''data'' kvs of
                  Some (JList (JObj first # _)) \<Rightarrow>
                    (let sy = norm_symbol (text_of (field ''s'' first))
                     in case map_of (mx_procs m) sy of
                          None \<Rightarrow> (m, None)
                        | Some a \<Rightarrow> ingest_payload ops now sy a (py_lower (text_of (field ''type'' kvs))) first m)
                | _ \<Rightarrow> (m, None))
      | Some _ \<Rightarrow> (m, Some (ValueError ''not an object'')))"

section \<open>The resync pump\<close>

datatype fetch_result = Fetched int rows rows | FetchLimited | FetchFailed

definition pump_take :: "'p mux \<Rightarrow> 'p mux" where
  "pump_take m =
     (case mx_pump m of
        PumpIdle \<Rightarrow>
          (case mx_queue m of
             [] \<Rightarrow> m
           | (sy, e) # q \<Rightarrow>
               let m1 = m\<lparr>mx_queue := q, mx_pending := mx_pending m - {sy}\<rparr>
               in if e \<noteq> mx_epoch m then m1
                  else case map_of (mx_procs m) sy of
                         None \<Rightarrow> m1
                       | Some a \<Rightarrow> if \<not> mx_source m then m1 else m1\<lparr>mx_pump := PumpFetch sy a e\<rparr>)
      | _ \<Rightarrow> m)"

definition pump_result :: "'p processor_ops \<Rightarrow> time \<Rightarrow> fetch_result \<Rightarrow> 'p mux \<Rightarrow> 'p mux" where
  "pump_result ops now res m =
     (case mx_pump m of
        PumpFetch sy a e \<Rightarrow>
          (let m1 = m\<lparr>mx_pump := PumpIdle\<rparr>
           in case res of
                Fetched u bids asks \<Rightarrow>
                  if mx_epoch m \<noteq> e then m1
                  else set_state sy SYNCED (set_proc a (po_snapshot ops now u bids asks (mx_heap m a)) m1)
              | FetchLimited \<Rightarrow> request_resync sy (set_state sy RECOVERING m1)
              | FetchFailed \<Rightarrow> set_state sy DESYNCED (m\<lparr>mx_pump := PumpPause sy\<rparr>))
      | _ \<Rightarrow> m)"

definition pump_wake :: "'p mux \<Rightarrow> 'p mux" where
  "pump_wake m =
     (case mx_pump m of PumpPause sy \<Rightarrow> request_resync sy (m\<lparr>mx_pump := PumpIdle\<rparr>) | _ \<Rightarrow> m)"

section \<open>Connections and hot swaps\<close>

text \<open>
  \<open>mx_initial\<close> are the symbols each live worker was started with, \<open>mx_subs\<close> those its
  socket is subscribed to.  The \<open>finally\<close> block of worker \<open>i\<close>, its reconnect, and the
  start of all workers:
\<close>

definition connection_lost :: "nat \<Rightarrow> 'p mux \<Rightarrow> 'p mux" where
  "connection_lost i m =
     (let m1 = purge_queue (purge_acks (m\<lparr>mx_epoch := Suc (mx_epoch m)\<rparr>))
      in m1\<lparr>mx_states := (\<lambda>s. if s \<in> set (mx_initial m ! i) \<and> mx_states m s \<noteq> None then Some DESYNCED else mx_states m s),
            mx_subs := (mx_subs m)[i := []]\<rparr>)"

definition shard_connect :: "nat \<Rightarrow> 'p mux \<Rightarrow> 'p mux" where
  "shard_connect i m = m\<lparr>mx_subs := (mx_subs m)[i := mx_initial m ! i]\<rparr>"

definition mux_start :: "'p mux \<Rightarrow> 'p mux" where
  "mux_start m =
     (let shards = chunk_symbols (sort (map fst (mx_procs m))) (mx_chunk m)
      in if shards = [] then m
         else m\<lparr>mx_layout := shards, mx_initial := shards, mx_subs := shards\<rparr>)"

definition swap_unsubscribe :: "symbol list list \<Rightarrow> symbol \<Rightarrow> 'p mux \<Rightarrow> 'p mux" where
  "swap_unsubscribe layout sy m =
     (case shard_index layout sy of
        None \<Rightarrow> m
      | Some i \<Rightarrow> if i < length (mx_subs m) then fst (send_cmd i False [sy] None (Some True) m) else m)"

definition swap_subscribe :: "symbol list list \<Rightarrow> nat \<Rightarrow> symbol \<Rightarrow> 'p mux \<Rightarrow> 'p mux" where
  "swap_subscribe layout old_n sy m =
     (case shard_index layout sy of
        None \<Rightarrow> m
      | Some i \<Rightarrow> if i < old_n then fst (send_cmd i True [sy] None (Some True) m) else m)"

definition swap_shutdown :: "symbol list list \<Rightarrow> nat \<Rightarrow> 'p mux \<Rightarrow> 'p mux" where
  "swap_shutdown layout j m =
     (let syms = (if j < length layout then layout ! j else []);
          m1 = (if syms = [] then m else fst (send_cmd j False syms None (Some True) m))
      in connection_lost j m1)"

text \<open>Every command of the swap is sent and acknowledged; a stopped worker runs its \<open>finally\<close> block.\<close>

definition hot_swap :: "(string \<times> nat) list \<Rightarrow> 'p mux \<Rightarrow> 'p mux" where
  "hot_swap ps m =
     (if mx_initial m = [] then replace_processors ps m
      else
        let old_n = length (mx_initial m);
            old_keys = map fst (mx_procs m); new_map = norm_map ps; new_keys = map fst new_map;
            removed = filter (\<lambda>s. s \<notin> set new_keys) old_keys; added = filter (\<lambda>s. s \<notin> set old_keys) new_keys;
            old_layout = (if mx_layout m = [] then chunk_symbols (sort old_keys) (mx_chunk m) else mx_layout m);
            m1 = m\<lparr>mx_procs := new_map,
                   mx_states := (\<lambda>s. if s \<in> set removed then None else if s \<in> set added then Some SYNCED else mx_states m s)\<rparr>;
            new_layout = chunk_symbols (sort new_keys) (mx_chunk m)
        in if new_layout = [] then m1
           else
             let new_n = length new_layout;
                 m2 = fold (swap_unsubscribe old_layout) removed m1;
                 m3 = fold (swap_subscribe new_layout old_n) added m2;
                 m4 = m3\<lparr>mx_initial := mx_initial m3 @ drop old_n new_layout, mx_subs := mx_subs m3 @ drop old_n new_layout\<rparr>;
                 m5 = fold (swap_shutdown old_layout) [new_n ..< old_n] m4
             in m5\<lparr>mx_initial := take new_n (mx_initial m5), mx_subs := take new_n (mx_subs m5),
                   mx_layout := new_layout\<rparr>)"

section \<open>The event loop\<close>

datatype mux_event =
    EvMessage time nat "jval option"
  | EvCommand nat shard_cmd "nat option" "bool option"
  | EvTake
  | EvResult time fetch_result
  | EvWake
  | EvLost nat
  | EvConnect nat
  | EvSwap "(string \<times> nat) list"
  | EvReplace "(string \<times> nat) list"

text \<open>An event, and the shard whose worker leaves its loop in it.\<close>

fun mux_act :: "'p processor_ops \<Rightarrow> mux_event \<Rightarrow> 'p mux \<Rightarrow> 'p mux \<times> nat option" where
  "mux_act ops (EvMessage now i payload) m =
     (let (m1, e) = worker_message ops now payload m in (m1, if e = None then None else Some i))"
| "mux_act ops (EvCommand i cmd ack sent) m =
     (let (m1, r) = apply_shard_command i cmd ack sent m in (m1, if r = CmdOk then None else Some i))"
| "mux_act ops EvTake m = (pump_take m, None)"
| "mux_act ops (EvResult now res) m = (pump_result ops now res m, None)"
| "mux_act ops EvWake m = (pump_wake m, None)"
| "mux_act ops (EvLost i) m = (m, Some i)"
| "mux_act ops (EvConnect i) m = (shard_connect i m, None)"
| "mux_act ops (EvSwap ps) m = (hot_swap ps m, None)"
| "mux_act ops (EvReplace ps) m = (replace_processors ps m, None)"

definition mux_do :: "'p processor_ops \<Rightarrow> mux_event \<Rightarrow> 'p mux \<Rightarrow> 'p mux" where
  "mux_do ops ev m = (case mux_act ops ev m of (m1, None) \<Rightarrow> m1 | (m1, Some i) \<Rightarrow> connection_lost i m1)"

section \<open>Names\<close>

lemma upper_char_space [simp]: "is_space (upper_char c) = is_space c"
  by (auto simp: is_space_def upper_char_def of_char_of)

lemma upper_char_idem [simp]: "upper_char (upper_char c) = upper_char c"
  by (auto simp: upper_char_def of_char_of)

lemma strip_map_upper: "strip (map upper_char s) = map upper_char (strip s)"
  by (simp add: strip_def dropWhile_map rev_map o_def)

lemma strip_ends: "strip s = t \<Longrightarrow> t \<noteq> [] \<Longrightarrow> \<not> is_space (hd t) \<and> \<not> is_space (last t)"
proof -
  assume t: "strip s = t" "t \<noteq> []"
  let ?d = "dropWhile is_space (rev (dropWhile is_space s))"
  have r: "t = rev ?d" "?d \<noteq> []" using t by (auto simp: strip_def)
  then have l: "\<not> is_space (last t)" using hd_dropWhile [of is_space] by (simp add: last_rev)
  obtain x where "rev (dropWhile is_space s) = x @ ?d" by (metis takeWhile_dropWhile_id)
  then have "dropWhile is_space s = t @ rev x" using r(1) by (metis rev_append rev_rev_ident)
  moreover from this t(2) have "\<not> is_space (hd (dropWhile is_space s))" using hd_dropWhile [of is_space s] by auto
  ultimately show ?thesis using l t(2) by simp
qed

lemma strip_idem [simp]: "strip (strip s) = strip s"
proof (cases "strip s = []")
  case True
  have "strip [] = []" by (simp add: strip_def)
  with True show ?thesis by simp
next
  case False
  with strip_ends [OF refl, of s] show ?thesis by (simp add: strip_id)
qed

lemma norm_symbol_idem [simp]: "norm_symbol (norm_symbol s) = norm_symbol s"
  by (simp add: norm_symbol_def py_upper_def strip_map_upper)

lemma norm_map_keys: "fst ` set (norm_map ps) = norm_symbol ` fst ` set ps"
proof -
  have "fst ` set (fold (\<lambda>(k, a) d. AList.update (norm_symbol k) a d) ps d) = norm_symbol ` fst ` set ps \<union> fst ` set d" for d
    by (induction ps arbitrary: d) (simp_all add: split_def AList.dom_update)
  from this [of "[]"] show ?thesis by (simp add: norm_map_def)
qed

section \<open>One request per symbol\<close>

definition queue_ok :: "'p mux \<Rightarrow> bool" where
  "queue_ok m \<longleftrightarrow> distinct (map fst (mx_queue m)) \<and> mx_pending m = fst ` set (mx_queue m)
     \<and> (\<forall>x \<in> set (mx_queue m). snd x = mx_epoch m)"

definition pump_ok :: "'p mux \<Rightarrow> bool" where
  "pump_ok m \<longleftrightarrow> (\<forall>sy a e. mx_pump m = PumpFetch sy a e \<longrightarrow> e \<le> mx_epoch m)"

definition acks_ok :: "'p mux \<Rightarrow> bool" where
  "acks_ok m \<longleftrightarrow> (\<forall>f \<in> mx_acks m. mx_futures m f = None)"

definition mux_ok :: "'p mux \<Rightarrow> bool" where
  "mux_ok m \<longleftrightarrow> queue_ok m \<and> pump_ok m \<and> acks_ok m"

lemma mux_ok_set [simp]:
  "mux_ok (set_state sy st m) = mux_ok m" "mux_ok (set_proc a p m) = mux_ok m"
  "mux_ok (m\<lparr>mx_subs := x\<rparr>) = mux_ok m" "mux_ok (m\<lparr>mx_procs := y\<rparr>) = mux_ok m"
  "mux_ok (m\<lparr>mx_initial := x\<rparr>) = mux_ok m" "mux_ok (m\<lparr>mx_layout := x\<rparr>) = mux_ok m"
  "mux_ok (m\<lparr>mx_states := z\<rparr>) = mux_ok m"
  by (simp_all add: mux_ok_def queue_ok_def pump_ok_def acks_ok_def set_state_def set_proc_def)

lemma request_resync_ok [inv_intros]: "mux_ok m \<Longrightarrow> mux_ok (request_resync sy m)"
  by (auto simp: request_resync_def Let_def) (auto simp: mux_ok_def queue_ok_def pump_ok_def acks_ok_def)

lemma feed_delta_ok [inv_intros]: "mux_ok m \<Longrightarrow> mux_ok (fst (feed_delta ops now a d m))"
  by (simp add: feed_delta_def split: prod.split)

lemma ingest_payload_ok [inv_intros]: "mux_ok m \<Longrightarrow> mux_ok (fst (ingest_payload ops now sy a typ first m))"
  using feed_delta_ok [of "set_state sy SYNCED m" ops now a] feed_delta_ok [of "set_state sy RECOVERING m" ops now a]
  by (auto simp: ingest_payload_def Let_def split: option.split book_state.split sum.split prod.split intro!: request_resync_ok)
    (metis fst_conv)+

lemma worker_message_ok [inv_intros]: "mux_ok m \<Longrightarrow> mux_ok (fst (worker_message ops now v m))"
  by (auto simp: worker_message_def Let_def split: option.split jval.split list.split intro!: ingest_payload_ok)

lemma complete_ack_ok [inv_intros]: "mux_ok m \<Longrightarrow> mux_ok (complete_ack ack r m)"
  by (auto simp: complete_ack_def mux_ok_def queue_ok_def pump_ok_def acks_ok_def split: option.split)

lemma register_ack_ok [inv_intros]: "mux_ok m \<Longrightarrow> mux_ok (register_ack ack m)"
  by (auto simp: register_ack_def mux_ok_def queue_ok_def pump_ok_def acks_ok_def split: option.split)

lemma send_cmd_ok [inv_intros]: "mux_ok m \<Longrightarrow> mux_ok (fst (send_cmd i sub syms ack sent m))"
  by (auto simp: send_cmd_def Let_def split: option.split bool.split intro!: complete_ack_ok)

lemma apply_shard_command_ok [inv_intros]: "mux_ok m \<Longrightarrow> mux_ok (fst (apply_shard_command i cmd ack sent m))"
  by (auto simp: apply_shard_command_def Let_def split: shard_cmd.split intro!: complete_ack_ok send_cmd_ok register_ack_ok)

lemma in_fst_image: "(x, y) \<in> set xs \<Longrightarrow> x \<notin> fst ` set xs \<Longrightarrow> False"
  by force

lemma pump_take_ok [inv_intros]: "mux_ok m \<Longrightarrow> mux_ok (pump_take m)"
  by (auto simp: pump_take_def Let_def mux_ok_def queue_ok_def pump_ok_def acks_ok_def
      split: pump.split list.split option.split prod.split dest: in_fst_image)

lemma pump_idle_ok: "mux_ok m \<Longrightarrow> mux_ok (m\<lparr>mx_pump := PumpIdle\<rparr>)" "mux_ok m \<Longrightarrow> mux_ok (m\<lparr>mx_pump := PumpPause sy\<rparr>)"
  by (simp_all add: mux_ok_def queue_ok_def pump_ok_def acks_ok_def)

lemma pump_result_ok [inv_intros]: "mux_ok m \<Longrightarrow> mux_ok (pump_result ops now res m)"
  by (auto simp: pump_result_def Let_def pump_idle_ok split: pump.split fetch_result.split intro!: request_resync_ok)

lemma pump_wake_ok [inv_intros]: "mux_ok m \<Longrightarrow> mux_ok (pump_wake m)"
  by (auto simp: pump_wake_def pump_idle_ok split: pump.split intro!: request_resync_ok)

lemma connection_lost_ok [inv_intros]: "mux_ok m \<Longrightarrow> mux_ok (connection_lost i m)"
  by (auto simp: connection_lost_def purge_queue_def purge_acks_def Let_def mux_ok_def queue_ok_def pump_ok_def acks_ok_def
      intro: le_SucI)

lemma swap_folds_ok [inv_intros]:
  "mux_ok m \<Longrightarrow> mux_ok (fold (swap_unsubscribe layout) xs m)"
  "mux_ok m \<Longrightarrow> mux_ok (fold (swap_subscribe layout n) xs m)"
  "mux_ok m \<Longrightarrow> mux_ok (fold (swap_shutdown layout) js m)"
  by (rule fold_inv, assumption,
      auto simp: swap_unsubscribe_def swap_subscribe_def swap_shutdown_def Let_def split: option.split intro: inv_intros)+

lemma hot_swap_ok [inv_intros]: "mux_ok m \<Longrightarrow> mux_ok (hot_swap ps m)"
  by (simp add: hot_swap_def Let_def replace_processors_def swap_folds_ok)

lemma mux_do_ok [inv_intros]: "mux_ok m \<Longrightarrow> mux_ok (mux_do ops ev m)"
proof -
  assume ok: "mux_ok m"
  have "mux_ok (fst (mux_act ops ev m))"
    using worker_message_ok [OF ok] apply_shard_command_ok [OF ok]
    by (cases ev) (auto simp: ok shard_connect_def replace_processors_def split: prod.split
        intro: pump_take_ok pump_result_ok pump_wake_ok hot_swap_ok dest: spec, (metis fst_conv)+)
  then show ?thesis
    by (auto simp: mux_do_def intro: connection_lost_ok split: prod.split option.split)
qed

lemma mux_init_ok: "mux_init heap ps n src = Inr m \<Longrightarrow> mux_ok m \<and> mux_ok (mux_start m)"
  by (auto simp: mux_init_def mux_start_def mux_ok_def queue_ok_def pump_ok_def acks_ok_def Let_def split: if_splits)


definition demo_mux :: "nat \<Rightarrow> book mux" where
  "demo_mux chunk = mux_start (projr (mux_init (\<lambda>_. fresh_book) [(''a'', 0), (''B '', 1)] chunk True))"

definition demo_msg_of :: "string \<Rightarrow> int \<Rightarrow> jval option" where
  "demo_msg_of sy u = Some (JObj [(''topic'', JStr ''orderbook.50.X''), (''type'', JStr ''Delta''),
     (''data'', JList [JObj [(''s'', JStr sy), (''b'', JList []), (''a'', JList []), (''u'', JInt u)]])])"

lemma norm_demo [simp]:
  "norm_symbol ''a'' = ''A''" "norm_symbol ''B '' = ''B''" "norm_symbol ''A'' = ''A''" "norm_symbol ''B'' = ''B''"
  by (simp_all add: norm_symbol_def strip_def is_space_def py_upper_def upper_char_def char_of_def bit_0)


section \<open>A gap never stays synced\<close>

context l2_processor
begin

lemma delta_outcome:
  assumes "po_delta ops t d p = (p', ok)"
  shows "if ok then po_last_id ops p' = dm_u d \<and> po_last_id ops p < dm_u d
    else lost_anchor ops p' \<and> po_last_id ops p' = 0
      \<or> \<not> lost_anchor ops p' \<and> po_last_id ops p' = po_last_id ops p \<and> po_last_id ops p' \<noteq> 0"
  using assms accepted_id accepted_newer rejected_keeps rejected_anchor by (cases ok) auto

lemma synced_delta:
  assumes "mx_states m sy = Some SYNCED" "parse_frame first = Inr d" "norm_symbol sy = sy"
    and "ingest_payload ops t sy a ''delta'' first m = (m', r)"
  shows "r = None \<and>
    (if mx_states m' sy = Some SYNCED
     then (po_last_id ops (mx_heap m' a) = dm_u d \<and> po_last_id ops (mx_heap m a) < dm_u d)
        \<or> (po_last_id ops (mx_heap m' a) = po_last_id ops (mx_heap m a) \<and> po_last_id ops (mx_heap m' a) \<noteq> 0)
     else po_last_id ops (mx_heap m' a) = 0
        \<and> (if mx_source m then mx_states m' sy = Some RECOVERING \<and> sy \<in> mx_pending m' else mx_states m' sy = Some DESYNCED))"
proof -
  obtain p' ok where p: "po_delta ops t d (mx_heap m a) = (p', ok)" by force
  from delta_outcome [OF p] p assms show ?thesis
    by (auto simp: ingest_payload_def feed_delta_def set_proc_def set_state_def request_resync_def Let_def
        split: if_splits)
qed

end

text \<open>After any delta in the synced state the symbol stays synced only if the book took the
  delta, its id now being the delta's, or refused it as old, keeping a nonzero id; in
  every other case the book has lost its anchor, and the symbol is recovering with a
  resync requested, or desynced when there is no resync source.\<close>

theorem gap_leaves_synced:
  assumes "mx_states m sy = Some SYNCED" "parse_frame first = Inr d" "norm_symbol sy = sy"
    and "ingest_payload (book_ops np) t sy a ''delta'' first m = (m', r)"
  shows "r = None \<and>
    (if mx_states m' sy = Some SYNCED
     then (nb_u (mx_heap m' a) = dm_u d \<and> nb_u (mx_heap m a) < dm_u d)
        \<or> (nb_u (mx_heap m' a) = nb_u (mx_heap m a) \<and> nb_u (mx_heap m' a) \<noteq> 0)
     else nb_u (mx_heap m' a) = 0
        \<and> (if mx_source m then mx_states m' sy = Some RECOVERING \<and> sy \<in> mx_pending m' else mx_states m' sy = Some DESYNCED))"
  using nd_book.synced_delta [OF assms] unfolding book_ops_simps .

definition demo_first :: "int \<Rightarrow> (string \<times> jval) list" where
  "demo_first u = [(''u'', JInt u)]"

lemma demo_first_parse: "parse_frame (demo_first u) = Inr \<lparr>dm_u = u, dm_range = None, dm_seq = None, dm_bids = [], dm_asks = []\<rparr>"
  by (simp add: parse_frame_def demo_first_def rows_of_def parse_levels_def field_def int_field_def py_int_of_def optional_cross_id_def)

lemma demo_order: "sort [''A'', ''B''] = [''A'', ''B'']"
  by (simp add: less_char_def)

lemma demo_mux_1:
  "demo_mux (Suc 0) = \<lparr>mx_procs = [(''A'', 0), (''B'', 1)], mx_heap = (\<lambda>_. fresh_book),
     mx_states = [''A'' \<mapsto> SYNCED, ''B'' \<mapsto> SYNCED], mx_source = True, mx_queue = [], mx_pending = {}, mx_epoch = 0,
     mx_pump = PumpIdle, mx_acks = {}, mx_futures = Map.empty, mx_chunk = 1,
     mx_layout = [[''A''], [''B'']], mx_initial = [[''A''], [''B'']], mx_subs = [[''A''], [''B'']]\<rparr>"
proof -
  have "all_synced [(''A'', 0), (''B'', 1)] = [''A'' \<mapsto> SYNCED, ''B'' \<mapsto> SYNCED]"
    by (auto simp: all_synced_def fun_eq_iff)
  moreover have "chunk_symbols (sort [''A'', ''B'']) (Suc 0) = [[''A''], [''B'']]"
    by (simp add: demo_order chunk_symbols_def chunks.simps strip_def is_space_def)
  ultimately show ?thesis
    by (simp add: demo_mux_def mux_init_def mux_start_def norm_map_def Let_def)
qed

theorem gap_leaves_synced_witness:
  "mx_states (fst (ingest_payload (book_ops numpy_ref) 1 ''A'' 0 ''delta'' (demo_first 7) (demo_mux 1))) ''A'' = Some RECOVERING"
proof -
  obtain m' r where i: "ingest_payload (book_ops numpy_ref) 1 ''A'' 0 ''delta'' (demo_first 7) (demo_mux 1) = (m', r)" by force
  have "nb_u fresh_book = 0" by (simp add: fresh_book_def book_init_def precompute_lut_def)
  then show ?thesis
    using gap_leaves_synced [OF _ demo_first_parse _ i] i
    by (auto simp: demo_mux_1 ingest_payload_def demo_first_parse feed_delta_def ingest_delta_def set_proc_def set_state_def
          request_resync_def lost_anchor_def resync_reasons_def Let_def
        split: if_splits)
qed

section \<open>A recovery from the first delta to the synced state\<close>

definition deliver :: "numpy \<Rightarrow> symbol \<Rightarrow> nat \<Rightarrow> time \<times> (string \<times> jval) list \<Rightarrow> book mux \<Rightarrow> book mux" where
  "deliver np sy a tf m = fst (ingest_payload (book_ops np) (fst tf) sy a ''delta'' (snd tf) m)"

definition frame_delta :: "(string \<times> jval) list \<Rightarrow> delta_msg" where
  "frame_delta first = projr (parse_frame first)"

lemma deliver_recovering:
  assumes "mx_states m sy = Some RECOVERING" "\<not> isl (parse_frame (snd tf))"
  shows "deliver np sy a tf m = set_state sy RECOVERING
    (set_proc a (fst (ingest_delta np (fst tf) (frame_delta (snd tf)) (mx_heap m a))) m)"
  using assms
  by (auto simp: deliver_def ingest_payload_def feed_delta_def frame_delta_def set_state_def set_proc_def Let_def
      split: sum.split prod.split)

lemma delivers_recovering:
  assumes "mx_states m sy = Some RECOVERING" "list_all (\<lambda>tf. \<not> isl (parse_frame (snd tf))) tfs"
  shows "fold (deliver np sy a) tfs m = m\<lparr>mx_heap := (mx_heap m)
    (a := take_deltas np (map (\<lambda>tf. (fst tf, frame_delta (snd tf))) tfs) (mx_heap m a))\<rparr>"
  using assms
proof (induction tfs arbitrary: m)
  case Nil
  then show ?case by (simp add: take_deltas_def)
next
  case (Cons tf tfs)
  have "(mx_states m)(sy \<mapsto> RECOVERING) = mx_states m" using Cons.prems(1) by auto
  with Cons deliver_recovering [OF Cons.prems(1), of tf np a] show ?case
    by (simp add: set_state_def set_proc_def take_deltas_def cong: if_cong)
qed

lemma deliver_first:
  assumes "mx_states m sy = Some SYNCED" "\<not> isl (parse_frame (snd tf))" "nb_u (mx_heap m a) = 0"
    and "mx_source m" "mx_queue m = []" "mx_pending m = {}" "norm_symbol sy = sy"
  shows "deliver np sy a tf m = m\<lparr>mx_heap := (mx_heap m)(a := take_deltas np [(fst tf, frame_delta (snd tf))] (mx_heap m a)),
     mx_states := (mx_states m)(sy \<mapsto> RECOVERING), mx_queue := [(sy, mx_epoch m)], mx_pending := {sy}\<rparr>"
  using assms
  by (auto simp: deliver_def ingest_payload_def feed_delta_def frame_delta_def set_state_def set_proc_def Let_def
      request_resync_def ingest_delta_def take_deltas_def lost_anchor_def resync_reasons_def
      split: sum.split)



section \<open>Stranded symbols\<close>

definition stranded :: "symbol \<Rightarrow> 'p mux \<Rightarrow> bool" where
  "stranded sy m \<longleftrightarrow> mx_source m \<and> mx_states m sy = Some RECOVERING \<and> sy \<notin> mx_pending m
     \<and> list_all (\<lambda>x. fst x \<noteq> sy \<and> norm_symbol (fst x) \<noteq> sy) (mx_queue m)
     \<and> (case mx_pump m of PumpIdle \<Rightarrow> True | PumpFetch s _ _ \<Rightarrow> s \<noteq> sy \<and> norm_symbol s \<noteq> sy | PumpPause s \<Rightarrow> norm_symbol s \<noteq> sy)"

text \<open>Runs in which the symbol's own connection is not lost and the universe is not changed.\<close>

fun leaves_alone :: "symbol \<Rightarrow> 'p processor_ops \<Rightarrow> mux_event list \<Rightarrow> 'p mux \<Rightarrow> bool" where
  "leaves_alone sy ops [] m \<longleftrightarrow> True"
| "leaves_alone sy ops (ev # evs) m \<longleftrightarrow>
     (case ev of EvSwap _ \<Rightarrow> False | EvReplace _ \<Rightarrow> False | _ \<Rightarrow> True)
     \<and> (case snd (mux_act ops ev m) of None \<Rightarrow> True | Some i \<Rightarrow> sy \<notin> set (mx_initial (fst (mux_act ops ev m)) ! i))
     \<and> leaves_alone sy ops evs (mux_do ops ev m)"

lemma stranded_set [simp]:
  "sy' \<noteq> sy \<Longrightarrow> stranded sy (set_state sy' st m) = stranded sy m"
  "stranded sy (set_state sy RECOVERING m) \<longleftrightarrow> stranded sy (m\<lparr>mx_states := (mx_states m)(sy \<mapsto> RECOVERING)\<rparr>)"
  "stranded sy (set_proc a p m) = stranded sy m"
  "stranded sy (m\<lparr>mx_subs := x\<rparr>) = stranded sy m"
  "stranded sy (m\<lparr>mx_acks := acks\<rparr>) = stranded sy m" "stranded sy (m\<lparr>mx_futures := fu\<rparr>) = stranded sy m"
  by (auto simp: stranded_def set_state_def set_proc_def)

lemma stranded_state: "stranded sy m \<Longrightarrow> mx_states m sy = Some RECOVERING"
  by (simp add: stranded_def)

lemma stranded_same_state [simp]:
  "stranded sy m \<Longrightarrow> stranded sy (m\<lparr>mx_states := (mx_states m)(sy \<mapsto> RECOVERING)\<rparr>)"
  by (simp add: stranded_def)

lemma stranded_request: "stranded sy m \<Longrightarrow> norm_symbol s \<noteq> sy \<Longrightarrow> stranded sy (request_resync s m)"
  by (auto simp: stranded_def request_resync_def Let_def)

lemma stranded_payload:
  assumes "stranded sy m" "norm_symbol s = s"
  shows "stranded sy (fst (ingest_payload ops now s a typ first m))"
proof (cases "s = sy")
  case True
  with assms show ?thesis
    by (simp add: ingest_payload_def stranded_state feed_delta_def Let_def split: sum.split prod.split)
next
  case False
  with assms show ?thesis
    by (auto simp: ingest_payload_def feed_delta_def Let_def split: sum.split prod.split option.split book_state.split
        intro!: stranded_request)
qed

lemma stranded_worker: "stranded sy m \<Longrightarrow> stranded sy (fst (worker_message ops now v m))"
  by (auto simp: worker_message_def Let_def split: option.split jval.split list.split intro!: stranded_payload)

lemma stranded_ack: "stranded sy (complete_ack ack r m) = stranded sy m" "stranded sy (register_ack ack m) = stranded sy m"
  by (auto simp: complete_ack_def register_ack_def stranded_def split: option.split)

lemma stranded_command: "stranded sy (fst (apply_shard_command i cmd ack sent m)) = stranded sy m"
  by (auto simp: apply_shard_command_def send_cmd_def Let_def stranded_ack split: shard_cmd.split option.split bool.split)

lemma stranded_pump: "stranded sy m \<Longrightarrow> stranded sy (pump_take m)" "stranded sy m \<Longrightarrow> stranded sy (pump_wake m)"
    "stranded sy m \<Longrightarrow> stranded sy (pump_result ops now res m)"
proof -
  assume s: "stranded sy m"
  then show "stranded sy (pump_take m)"
    by (auto simp: pump_take_def stranded_def Let_def split: pump.splits list.splits option.splits)
  have idle: "stranded sy (m\<lparr>mx_pump := PumpIdle\<rparr>)" using s by (simp add: stranded_def)
  show "stranded sy (pump_wake m)"
  proof (cases "mx_pump m")
    case (PumpPause s')
    with s have "norm_symbol s' \<noteq> sy" by (auto simp: stranded_def)
    with PumpPause stranded_request [OF idle] show ?thesis by (simp add: pump_wake_def)
  qed (use s in \<open>simp_all add: pump_wake_def\<close>)
  show "stranded sy (pump_result ops now res m)"
  proof (cases "mx_pump m")
    case (PumpFetch s' a e)
    with s have "s' \<noteq> sy" "norm_symbol s' \<noteq> sy" by (auto simp: stranded_def)
    moreover from this s have "stranded sy (m\<lparr>mx_pump := PumpPause s'\<rparr>)" by (simp add: stranded_def)
    ultimately show ?thesis
      using PumpFetch idle by (auto simp: pump_result_def Let_def split: fetch_result.split intro!: stranded_request)
  qed (use s in \<open>simp_all add: pump_result_def\<close>)
qed

lemma stranded_lost: "stranded sy m \<Longrightarrow> sy \<notin> set (mx_initial m ! i) \<Longrightarrow> stranded sy (connection_lost i m)"
  by (simp add: stranded_def connection_lost_def purge_queue_def purge_acks_def Let_def)

lemma stranded_act:
  assumes "stranded sy m" "leaves_alone sy ops (ev # evs) m"
  shows "stranded sy (mux_do ops ev m)"
proof -
  have "stranded sy (fst (mux_act ops ev m))"
  proof (cases ev)
    case (EvMessage now i payload)
    with assms(1) show ?thesis
      using stranded_worker [OF assms(1), of ops now payload] by (cases "worker_message ops now payload m") simp
  next
    case (EvCommand i cmd ack sent)
    with assms(1) stranded_command [of sy i cmd ack sent m] show ?thesis
      by (cases "apply_shard_command i cmd ack sent m") simp
  qed (use assms stranded_pump in \<open>auto simp: shard_connect_def\<close>)
  with assms(2) show ?thesis
    by (auto simp: mux_do_def split: prod.splits option.splits intro: stranded_lost)
qed

text \<open>A symbol that is recovering while no request for it is queued or in flight stays so
  for ever: no message, fetch, pause or loss of another shard's connection requests it
  again.  The loss of any one connection brings every recovering symbol of the other
  shards there, because it empties the queue of all of them.\<close>

theorem stranded_forever:
  assumes "stranded sy m" "leaves_alone sy ops evs m"
  shows "mx_states (fold (mux_do ops) evs m) sy = Some RECOVERING \<and> stranded sy (fold (mux_do ops) evs m)"
  using assms
proof (induction evs arbitrary: m)
  case Nil
  then show ?case by (simp add: stranded_state)
next
  case (Cons ev evs)
  from Cons.IH [OF stranded_act [OF Cons.prems]] Cons.prems(2) show ?case by simp
qed

text \<open>A first delta on one shard, then the loss of the other shard's connection.\<close>

definition strand_run :: "mux_event list" where
  "strand_run = [EvMessage 1 0 (demo_msg_of ''A'' 7), EvLost 1]"

lemma fresh_book_unanchored: "nb_u fresh_book = 0"
  by (simp add: fresh_book_def book_init_def precompute_lut_def)

lemma strand_run_end:
  "stranded ''A'' (fold (mux_do (book_ops np)) strand_run (demo_mux 1))
   \<and> mx_initial (fold (mux_do (book_ops np)) strand_run (demo_mux 1)) = [[''A''], [''B'']]
   \<and> pump_take (fold (mux_do (book_ops np)) strand_run (demo_mux 1)) = fold (mux_do (book_ops np)) strand_run (demo_mux 1)"
  by (simp add: strand_run_def demo_mux_1 mux_do_def worker_message_def demo_msg_of_def field_def text_of_def
      py_lower_def lower_char_def char_of_def bit_0 ingest_payload_def parse_frame_def rows_of_def parse_levels_def int_field_def
      py_int_of_def optional_cross_id_def feed_delta_def ingest_delta_def fresh_book_unanchored set_proc_def
      set_state_def lost_anchor_def resync_reasons_def request_resync_def connection_lost_def purge_queue_def
      purge_acks_def stranded_def pump_take_def Let_def)

theorem stranded_forever_witness:
  "mx_states (fold (mux_do (book_ops numpy_ref)) (strand_run @ [EvTake, EvLost 1, EvTake]) (demo_mux 1)) ''A'' = Some RECOVERING"
proof -
  have "leaves_alone ''A'' (book_ops numpy_ref) [EvTake, EvLost 1, EvTake]
      (fold (mux_do (book_ops numpy_ref)) strand_run (demo_mux 1))"
    using strand_run_end [of numpy_ref] by (simp add: mux_do_def)
  from stranded_forever [OF strand_run_end [THEN conjunct1] this] show ?thesis by simp
qed

section \<open>A recovery over a stale book loses deltas\<close>

text \<open>
  After a lost connection the book keeps its levels and its id.  A delta that arrives while
  its symbol recovers is applied to that stale book, and the snapshot then replaces it:
  the delta is in neither the buffer nor the snapshot.  When the feed carries no range
  start, as the exchange's does, the next delta is taken without a gap.
\<close>

definition stale_mux :: "book mux" where
  "stale_mux = (demo_mux 1)\<lparr>mx_heap := (\<lambda>_. demo_book), mx_states := [''A'' \<mapsto> RECOVERING],
     mx_pump := PumpFetch ''A'' 0 0\<rparr>"

definition ask_delta :: "int \<Rightarrow> int \<Rightarrow> delta_msg" where
  "ask_delta u p = \<lparr>dm_u = u, dm_range = None, dm_seq = None, dm_bids = [], dm_asks = [(p, 1)]\<rparr>"

definition ask_frame :: "int \<Rightarrow> int \<Rightarrow> (string \<times> jval) list" where
  "ask_frame u p = [(''u'', JInt u), (''a'', JList [JList [JInt p, JInt 1]])]"

lemma ask_frame_parse: "parse_frame (ask_frame u p) = Inr (ask_delta u (p * SCALE)\<lparr>dm_asks := [(p * SCALE, SCALE)]\<rparr>)"
proof -
  have "rows_of (Some (JList [JList [JInt p, JInt 1]])) = Inr [(p * SCALE, SCALE)]"
    using levels_read [of static_buffer "[JList [JInt p, JInt 1]]"]
    by (simp add: rows_of_def static_buffer_def buffer_rows_def row_read_def List.map_filter_def parse_scaled_int_def
        decimal_from_str_def to_scaled_int_def py_int_def SCALE_def)
       (metis floor_of_int ceiling_of_int of_int_mult of_int_numeral)
  moreover have "rows_of None = Inr []" by (simp add: rows_of_def parse_levels_def)
  ultimately show ?thesis
    by (simp add: parse_frame_def ask_frame_def field_def int_field_def py_int_of_def optional_cross_id_def ask_delta_def)
qed

definition taken_ask :: "int \<Rightarrow> int \<Rightarrow> delta_msg" where
  "taken_ask u p = ask_delta u (p * SCALE)\<lparr>dm_asks := [(p * SCALE, SCALE)]\<rparr>"

lemma take_ask:
  assumes "content b = (bid, ask, u, 0, True, L)" "u \<noteq> 0" "u < v"
  shows "\<exists>b'. ingest_delta np t (taken_ask v p) b = (b', True) \<and> nb_ring b' = nb_ring b
    \<and> content b' = (bid, side_apply np L (p * SCALE) SCALE ask, v, 0, True, L)"
  using assms
  by (simp add: content_def ingest_delta_def taken_ask_def ask_delta_def gap_before_def Let_def apply_rows_eq
      side_applies_def)

lemma snapshot_content:
  assumes "nb_ring b = empty_ring"
  shows "content (ingest_snapshot np t u bids asks b)
    = (fill_side np (nb_levels b) (\<lambda>p. - p) bids ((nb_bid b)\<lparr>bs_n := 0\<rparr>),
       fill_side np (nb_levels b) (\<lambda>p. p) asks ((nb_ask b)\<lparr>bs_n := 0\<rparr>), u, 0, True, nb_levels b)"
proof -
  have "ring_ok (nb_ring b)" "pending (nb_ring b) = []"
    by (simp_all add: assms ring_ok_def empty_ring_def pending_def)
  with content_snapshot [of b np t u bids asks] show ?thesis by (simp add: content_def anchor_def)
qed

definition lost_fetch :: "book mux \<Rightarrow> book mux" where
  "lost_fetch m = pump_result (book_ops numpy_ref) 2 (Fetched 7 [(10, 5)] [(11, 3)]) m"

definition lost_run :: "book mux" where
  "lost_run = deliver numpy_ref ''A'' 0 (3, ask_frame 9 14)
     (lost_fetch (deliver numpy_ref ''A'' 0 (1, ask_frame 8 13) stale_mux))"

lemmas eval_sides = side_apply_def side_insert_def fill_side_def slice_assign_def numpy_ref_def SCALE_def
  Prelude.slice_def side_map_def side_rows_def

lemma lost_run_heap:
  "mx_states lost_run ''A'' = Some SYNCED \<and> nb_u (mx_heap lost_run 0) = 9
   \<and> book_asks (mx_heap lost_run 0) = [11 \<mapsto> 3, 14 * SCALE \<mapsto> SCALE]"
proof -
  have c0: "content demo_book = (nb_bid demo_book, nb_ask demo_book, 7, 0, True, 4)"
    by (simp add: content_def demo_book_def)
  obtain b1 where b1: "ingest_delta numpy_ref 1 (taken_ask 8 13) demo_book = (b1, True)" "nb_ring b1 = empty_ring"
    "content b1 = (nb_bid demo_book, side_apply numpy_ref 4 (13 * SCALE) SCALE (nb_ask demo_book), 8, 0, True, 4)"
    using take_ask [OF c0, of 8 numpy_ref 1 13] by (auto simp: demo_book_def)
  let ?b2 = "ingest_snapshot numpy_ref 2 7 [(10, 5)] [(11, 3)] b1"
  have c2: "content ?b2 = (\<lparr>bs_px = [-10, -9, 0, 0], bs_q = [5, 6, 0, 0], bs_n = 1\<rparr>,
      \<lparr>bs_px = [11, 12, 13 * SCALE, 0], bs_q = [3, 4, SCALE, 0], bs_n = 1\<rparr>, 7, 0, True, 4)"
    using snapshot_content [OF b1(2), of numpy_ref 2 7 "[(10, 5)]" "[(11, 3)]"] b1(3)
    by (simp add: content_def demo_book_def eval_sides)
  obtain b3 where b3: "ingest_delta numpy_ref 3 (taken_ask 9 14) ?b2 = (b3, True)"
    "content b3 = (\<lparr>bs_px = [-10, -9, 0, 0], bs_q = [5, 6, 0, 0], bs_n = 1\<rparr>,
       side_apply numpy_ref 4 (14 * SCALE) SCALE \<lparr>bs_px = [11, 12, 13 * SCALE, 0], bs_q = [3, 4, SCALE, 0], bs_n = 1\<rparr>,
       9, 0, True, 4)"
    using take_ask [OF c2, of 9 numpy_ref 3 14] by auto
  have m1: "deliver numpy_ref ''A'' 0 (1, ask_frame 8 13) stale_mux
      = stale_mux\<lparr>mx_heap := (\<lambda>_. demo_book)(0 := b1)\<rparr>"
    using b1(1) by (simp add: deliver_def ingest_payload_def ask_frame_parse taken_ask_def stale_mux_def feed_delta_def
        set_proc_def set_state_def)
  have m2: "lost_fetch (stale_mux\<lparr>mx_heap := (\<lambda>_. demo_book)(0 := b1)\<rparr>)
      = stale_mux\<lparr>mx_heap := (\<lambda>_. demo_book)(0 := ?b2), mx_states := [''A'' \<mapsto> SYNCED], mx_pump := PumpIdle\<rparr>"
    by (simp add: lost_fetch_def pump_result_def stale_mux_def demo_mux_1 set_state_def set_proc_def)
  have run: "lost_run = stale_mux\<lparr>mx_heap := (\<lambda>_. demo_book)(0 := b3), mx_states := [''A'' \<mapsto> SYNCED], mx_pump := PumpIdle\<rparr>"
    unfolding lost_run_def m1 m2 using b3(1)
    by (simp add: deliver_def ingest_payload_def ask_frame_parse taken_ask_def stale_mux_def demo_mux_1 feed_delta_def
        set_proc_def set_state_def)
  have "nb_u b3 = 9" "book_asks b3 = [11 \<mapsto> 3, 14 * SCALE \<mapsto> SCALE]"
    using b3(2) by (auto simp add: content_def book_asks_def eval_sides fun_eq_iff)
  then show ?thesis unfolding run by simp
qed

text \<open>A symbol whose connection came back with its book at id 7 gets delta 8 while its resync
  is in flight, the snapshot of id 7, then delta 9: it ends synced at id 9 without the
  level of delta 8, which the same book fed in order has.\<close>

theorem stale_recovery_loses_delta:
  "mx_states lost_run ''A'' = Some SYNCED \<and> nb_u (mx_heap lost_run 0) = 9
   \<and> book_asks (mx_heap lost_run 0) (13 * SCALE) = None
   \<and> (\<exists>b'. take_deltas numpy_ref [(1, taken_ask 8 13), (3, taken_ask 9 14)]
        (ingest_snapshot numpy_ref 2 7 [(10, 5)] [(11, 3)] demo_book) = b' \<and> nb_u b' = 9
        \<and> book_asks b' (13 * SCALE) = Some SCALE)"
proof -
  let ?b = "ingest_snapshot numpy_ref 2 7 [(10, 5)] [(11, 3)] demo_book"
  have r: "nb_ring demo_book = empty_ring" by (simp add: demo_book_def)
  have c: "content ?b = (\<lparr>bs_px = [-10, -9, 0, 0], bs_q = [5, 6, 0, 0], bs_n = 1\<rparr>,
      \<lparr>bs_px = [11, 12, 0, 0], bs_q = [3, 4, 0, 0], bs_n = 1\<rparr>, 7, 0, True, 4)"
    using snapshot_content [OF r, of numpy_ref 2 7 "[(10, 5)]" "[(11, 3)]"]
    by (simp add: demo_book_def eval_sides)
  obtain b1 where b1: "ingest_delta numpy_ref 1 (taken_ask 8 13) ?b = (b1, True)"
    "content b1 = (\<lparr>bs_px = [-10, -9, 0, 0], bs_q = [5, 6, 0, 0], bs_n = 1\<rparr>,
       side_apply numpy_ref 4 (13 * SCALE) SCALE \<lparr>bs_px = [11, 12, 0, 0], bs_q = [3, 4, 0, 0], bs_n = 1\<rparr>, 8, 0, True, 4)"
    using take_ask [OF c, of 8 numpy_ref 1 13] by auto
  obtain b2 where b2: "ingest_delta numpy_ref 3 (taken_ask 9 14) b1 = (b2, True)"
    "content b2 = (\<lparr>bs_px = [-10, -9, 0, 0], bs_q = [5, 6, 0, 0], bs_n = 1\<rparr>,
       side_apply numpy_ref 4 (14 * SCALE) SCALE
        (side_apply numpy_ref 4 (13 * SCALE) SCALE \<lparr>bs_px = [11, 12, 0, 0], bs_q = [3, 4, 0, 0], bs_n = 1\<rparr>), 9, 0, True, 4)"
    using take_ask [OF b1(2), of 9 numpy_ref 3 14] by auto
  have "nb_u b2 = 9 \<and> book_asks b2 (13 * SCALE) = Some SCALE"
    using b2(2) by (simp add: content_def book_asks_def eval_sides)
  moreover have "take_deltas numpy_ref [(1, taken_ask 8 13), (3, taken_ask 9 14)] ?b = b2"
    using b1(1) b2(1) by (simp add: take_deltas_def)
  ultimately show ?thesis using lost_run_heap by (simp add: SCALE_def)
qed

section \<open>Hot swaps and subscriptions\<close>

definition live :: "'p mux \<Rightarrow> symbol \<Rightarrow> bool" where
  "live m sy \<longleftrightarrow> (\<exists>l \<in> set (mx_subs m). sy \<in> set l)"

lemma concat_chunks: "0 < n \<Longrightarrow> concat (chunks n xs) = xs"
proof (induction n xs rule: chunks.induct)
  case (1 n xs)
  then show ?case by (subst chunks.simps) auto
qed

lemma chunk_symbols_set: "0 < n \<Longrightarrow> set (concat (chunk_symbols syms n)) = norm_symbol ` {s \<in> set syms. strip s \<noteq> []}"
  by (simp add: chunk_symbols_def concat_chunks del: set_concat)

lemma shard_index_some:
  "norm_symbol sy \<in> set (concat layout) \<Longrightarrow> \<exists>i. shard_index layout sy = Some i \<and> i < length layout \<and> norm_symbol sy \<in> set (layout ! i)"
proof (induction layout)
  case (Cons c layout)
  show ?case
  proof (cases "norm_symbol sy \<in> set c")
    case False
    with Cons obtain i where "shard_index layout sy = Some i" "i < length layout" "norm_symbol sy \<in> set (layout ! i)"
      by auto
    with False show ?thesis by (intro exI [of _ "Suc i"]) simp
  qed auto
qed simp

lemma live_update:
  assumes "i < length (mx_subs m)" "\<And>x. x \<in> set (mx_subs m ! i) \<Longrightarrow> x = sy \<Longrightarrow> x \<in> set v" "live m sy"
  shows "live (m\<lparr>mx_subs := (mx_subs m)[i := v]\<rparr>) sy"
proof -
  obtain j where j: "j < length (mx_subs m)" "sy \<in> set (mx_subs m ! j)"
    using assms(3) unfolding live_def by (metis in_set_conv_nth)
  then have "sy \<in> set ((mx_subs m)[i := v] ! j)" using assms(2) by (cases "i = j") auto
  with j(1) show ?thesis unfolding live_def by (auto intro!: bexI [OF _ nth_mem])
qed

lemma send_cmd_sent:
  "fst (send_cmd i sub [sy] None (Some True) m) =
     (if strip sy = [] then m
      else m\<lparr>mx_subs := (mx_subs m)[i := (if sub then mx_subs m ! i @ [norm_symbol sy]
                                    else filter (\<lambda>s. s \<noteq> norm_symbol sy) (mx_subs m ! i))]\<rparr>)"
  by (simp add: send_cmd_def cmd_symbols_def complete_ack_def)

lemma swap_unsubscribe_frame [frame_simps]:
  "length (mx_subs (swap_unsubscribe layout x m)) = length (mx_subs m)"
  "mx_initial (swap_unsubscribe layout x m) = mx_initial m" "mx_procs (swap_unsubscribe layout x m) = mx_procs m"
  by (auto simp: swap_unsubscribe_def send_cmd_sent split: option.split)

lemma swap_subscribe_frame [frame_simps]:
  "length (mx_subs (swap_subscribe layout n x m)) = length (mx_subs m)"
  "mx_initial (swap_subscribe layout n x m) = mx_initial m" "mx_procs (swap_subscribe layout n x m) = mx_procs m"
  by (auto simp: swap_subscribe_def send_cmd_sent split: option.split)

lemma fold_frame:
  assumes "\<And>x s. f (g x s) = f s"
  shows "f (fold g xs s) = f s"
  using assms by (induction xs arbitrary: s) auto

lemma unsubscribe_live: "norm_symbol x \<noteq> sy \<Longrightarrow> live m sy \<Longrightarrow> live (swap_unsubscribe layout x m) sy"
  by (auto simp: swap_unsubscribe_def send_cmd_sent split: option.split intro: live_update)

lemma unsubscribes_live: "\<forall>x \<in> set xs. norm_symbol x \<noteq> sy \<Longrightarrow> live m sy \<Longrightarrow> live (fold (swap_unsubscribe layout) xs m) sy"
  by (induction xs arbitrary: m) (auto intro: unsubscribe_live)

lemma subscribe_live: "live m sy \<Longrightarrow> n \<le> length (mx_subs m) \<Longrightarrow> live (swap_subscribe layout n x m) sy"
  by (auto simp: swap_subscribe_def send_cmd_sent split: option.split intro: live_update)

lemma subscribes_live: "live m sy \<Longrightarrow> n \<le> length (mx_subs m) \<Longrightarrow> live (fold (swap_subscribe layout n) xs m) sy"
  by (induction xs arbitrary: m) (simp_all add: subscribe_live frame_simps)

lemma subscribe_adds:
  "shard_index layout x = Some i \<Longrightarrow> i < n \<Longrightarrow> n \<le> length (mx_subs m) \<Longrightarrow> strip x \<noteq> [] \<Longrightarrow>
     live (swap_subscribe layout n x m) (norm_symbol x)"
  by (auto simp: swap_subscribe_def send_cmd_sent live_def set_update_memI intro!: bexI [OF _ set_update_memI])

lemma subscribes_add:
  "x \<in> set xs \<Longrightarrow> shard_index layout x = Some i \<Longrightarrow> i < n \<Longrightarrow> n \<le> length (mx_subs m) \<Longrightarrow> strip x \<noteq> [] \<Longrightarrow>
     live (fold (swap_subscribe layout n) xs m) (norm_symbol x)"
proof (induction xs arbitrary: m)
  case (Cons y ys)
  then show ?case
    using subscribes_live [OF subscribe_adds, of layout x i n m n layout ys]
    by (cases "y = x") (auto simp: frame_simps)
qed simp

text \<open>A hot swap that does not need fewer shards than are running leaves every symbol of the
  new universe subscribed on some live shard, if every symbol of the old one was, and its
  processor is the one it was given.\<close>

theorem hot_swap_keeps_subscriptions:
  fixes m :: "'p mux"
  assumes "mx_initial m \<noteq> []" "length (mx_subs m) = length (mx_initial m)" "0 < mx_chunk m"
    and "\<forall>sy \<in> fst ` set (mx_procs m). live m sy \<and> norm_symbol sy = sy"
    and "\<forall>k \<in> fst ` set ps. strip k \<noteq> []"
    and "length (mx_initial m) \<le> length (chunk_symbols (sort (map fst (norm_map ps))) (mx_chunk m))"
  shows "mx_procs (hot_swap ps m) = norm_map ps \<and> (\<forall>sy \<in> fst ` set (norm_map ps). live (hot_swap ps m) sy)"
proof -
  let ?new = "map fst (norm_map ps)" and ?old = "map fst (mx_procs m)" and ?n = "length (mx_initial m)"
  let ?layout = "chunk_symbols (sort ?new) (mx_chunk m)"
  define removed where "removed = filter (\<lambda>s. s \<notin> set ?new) ?old"
  define added where "added = filter (\<lambda>s. s \<notin> set ?old) ?new"
  define old_layout where "old_layout = (if mx_layout m = [] then chunk_symbols (sort ?old) (mx_chunk m) else mx_layout m)"
  define m1 where "m1 = m\<lparr>mx_procs := norm_map ps,
     mx_states := (\<lambda>s. if s \<in> set removed then None else if s \<in> set added then Some SYNCED else mx_states m s)\<rparr>"
  define m2 where "m2 = fold (swap_unsubscribe old_layout) removed m1"
  define m3 where "m3 = fold (swap_subscribe ?layout ?n) added m2"
  have frame: "length (mx_subs m2) = ?n" "length (mx_subs m3) = ?n" "mx_procs m3 = norm_map ps"
    using assms(2) unfolding m3_def m2_def
    by (simp_all add: fold_frame [where f = "\<lambda>m. length (mx_subs m)"] fold_frame [where f = mx_procs] frame_simps m1_def)
  have ne: "?layout \<noteq> []" using assms(1,6) by auto
  have "hot_swap ps m = (let m4 = m3\<lparr>mx_initial := mx_initial m3 @ drop ?n ?layout, mx_subs := mx_subs m3 @ drop ?n ?layout\<rparr>;
      m5 = fold (swap_shutdown old_layout) [length ?layout ..< ?n] m4
     in m5\<lparr>mx_initial := take (length ?layout) (mx_initial m5), mx_subs := take (length ?layout) (mx_subs m5), mx_layout := ?layout\<rparr>)"
    unfolding hot_swap_def Let_def m3_def m2_def m1_def removed_def added_def old_layout_def
    by (subst if_not_P [OF assms(1)], subst if_not_P [OF ne]) (rule refl)
  then have swap: "mx_subs (hot_swap ps m) = mx_subs m3 @ drop ?n ?layout" "mx_procs (hot_swap ps m) = norm_map ps"
    using assms(6) frame by simp_all
  have "live (hot_swap ps m) sy" if sy: "sy \<in> set ?new" for sy
  proof -
    obtain k where k: "k \<in> fst ` set ps" "sy = norm_symbol k" using sy norm_map_keys [of ps] by auto
    then have nsy: "norm_symbol sy = sy" by simp
    have "strip k \<noteq> []" using assms(5) k(1) by blast
    then have blank: "strip sy \<noteq> []"
      using k(2) by (simp add: norm_symbol_def py_upper_def strip_map_upper)
    then have "norm_symbol sy \<in> set (concat ?layout)"
      using sy chunk_symbols_set [OF assms(3), of "sort ?new"] nsy by (auto intro: rev_image_eqI)
    then obtain i where i: "shard_index ?layout sy = Some i" "i < length ?layout" "sy \<in> set (?layout ! i)"
      using shard_index_some nsy by metis
    have "live m3 sy \<or> (\<exists>l \<in> set (drop ?n ?layout). sy \<in> set l)"
    proof (cases "sy \<in> set ?old")
      case True
      then have "live m1 sy" using assms(4) by (auto simp: m1_def live_def)
      moreover have "\<forall>x \<in> set removed. norm_symbol x \<noteq> sy"
      proof
        fix x assume "x \<in> set removed"
        then have "x \<in> fst ` set (mx_procs m)" "x \<notin> set ?new" by (simp_all add: removed_def)
        then have "norm_symbol x = x" "x \<noteq> sy" using assms(4) sy by blast+
        then show "norm_symbol x \<noteq> sy" by simp
      qed
      ultimately show ?thesis
        unfolding m3_def m2_def using frame(1)
        by (intro disjI1 subscribes_live unsubscribes_live) (simp_all add: m2_def)
    next
      case False
      then have "sy \<in> set added" using sy by (simp add: added_def)
      show ?thesis
      proof (cases "i < ?n")
        case True
        with subscribes_add [OF \<open>sy \<in> set added\<close> i(1) True _ blank, of m2] frame(1) nsy
        show ?thesis by (simp add: m3_def)
      next
        case False
        then have "?layout ! i \<in> set (drop ?n ?layout)"
          using i(2) nth_mem [of "i - ?n" "drop ?n ?layout"] by simp
        with i(3) show ?thesis by blast
      qed
    qed
    then show ?thesis by (auto simp: swap live_def)
  qed
  then show ?thesis using frame(3) by (simp add: swap)
qed

lemma swap_orders: "sort [''B''] = [''B'']" "sort [''A'', ''C''] = [''A'', ''C'']" "sort [''A'', ''B'', ''C''] = [''A'', ''B'', ''C'']"
  by (simp_all add: less_char_def)

lemma chunks_one [simp]: "chunks (Suc 0) [] = []" "chunks (Suc 0) (x # xs) = [x] # chunks (Suc 0) xs"
  by (simp_all add: chunks.simps [of "Suc 0" "[]"] chunks.simps [of "Suc 0" "x # xs"])

lemma norm_c [simp]: "norm_symbol ''C'' = ''C''" "norm_symbol ''b'' = ''B''" "norm_symbol ''c'' = ''C''"
  by (simp_all add: norm_symbol_def strip_def is_space_def py_upper_def upper_char_def char_of_def bit_0)

lemma strip_demo [simp]: "strip ''A'' = ''A''" "strip ''B'' = ''B''" "strip ''C'' = ''C''"
  by (simp_all add: strip_def is_space_def)

theorem hot_swap_keeps_subscriptions_witness:
  "live (hot_swap [(''A'', 0), (''B'', 1), (''C'', 2)] (demo_mux 1)) ''C''"
  using hot_swap_keeps_subscriptions [of "demo_mux 1" "[(''A'', 0), (''B'', 1), (''C'', 2)]"]
  by (simp add: demo_mux_1 live_def norm_map_def swap_orders chunk_symbols_def)

text \<open>A swap that needs fewer shards strands the symbols of the workers it stops: when the
  universe shrinks from two shards of one symbol to one, the symbol that stays is
  unsubscribed with its old worker, marked desynced, and on no socket.\<close>

theorem hot_swap_strands:
  "map_of (mx_procs (hot_swap [(''b'', 1)] (demo_mux 1))) ''B'' = Some 1
   \<and> mx_subs (hot_swap [(''b'', 1)] (demo_mux 1)) = [[]]
   \<and> \<not> live (hot_swap [(''b'', 1)] (demo_mux 1)) ''B''
   \<and> mx_states (hot_swap [(''b'', 1)] (demo_mux 1)) ''B'' = Some DESYNCED"
  by (simp add: hot_swap_def demo_mux_1 norm_map_def swap_orders chunk_symbols_def live_def swap_unsubscribe_def
      swap_shutdown_def send_cmd_sent send_cmd_def cmd_symbols_def complete_ack_def connection_lost_def purge_queue_def
      purge_acks_def Let_def)

end
