(* ===== verification/Schrodinger.thy ===== *)
theory Schrodinger
  imports Prelude "HOL-Library.AList"
begin

text \<open>
  The ledger of orders whose fate is unknown (\<open>src/src/domain/schrodinger_ledger.py\<close>) and
  the reconciler that asks the exchange about them after a reconnect
  (\<open>src/src/application/reconnect_reconciler.py\<close>).

  The two dictionaries of the ledger are association lists in insertion order.  A websocket
  callback is one step of the ledger; the reconciler is cut at its awaits: every answer of
  the exchange comes with the list of the callbacks that ran while it was awaited.
\<close>

section \<open>The ledger\<close>

datatype order_fate = NEVER_RECEIVED | FILLED | PARTIALLY_FILLED | CANCELLED | REJECTED | INDETERMINATE

record purgatory_order =
  po_id :: string
  po_symbol :: symbol
  po_side :: string
  po_qty :: flt
  po_worst :: flt
  po_dispatched :: time
  po_preflight :: flt
  po_attempts :: int
  po_fate :: order_fate

record shadow_position =
  sh_symbol :: symbol
  sh_confirmed :: flt
  sh_shadow :: flt
  sh_confirmed_px :: flt
  sh_shadow_px :: flt
  sh_count :: nat
  sh_exposure :: flt

record verdict =
  ve_id :: string
  ve_fate :: order_fate
  ve_qty :: flt
  ve_px :: flt
  ve_message :: string

record holding =
  ho_qty :: flt
  ho_px :: flt

record ledger =
  le_confirmed :: "(symbol \<times> holding) list"
  le_purgatory :: "(string \<times> purgatory_order) list"
  le_generation :: int
  le_max_exposure :: flt
  le_log :: "verdict list"

definition ledger_init :: "flt \<Rightarrow> ledger" where
  "ledger_init cap = \<lparr>le_confirmed = [], le_purgatory = [], le_generation = 0, le_max_exposure = cap, le_log = []\<rparr>"

definition record_dispatch :: "string \<Rightarrow> symbol \<Rightarrow> string \<Rightarrow> flt \<Rightarrow> flt \<Rightarrow> flt \<Rightarrow> time \<Rightarrow> ledger \<Rightarrow> ledger" where
  "record_dispatch cl s side qty worst pre now L =
     L\<lparr>le_purgatory := AList.update cl \<lparr>po_id = cl, po_symbol = s, po_side = side, po_qty = qty, po_worst = worst,
         po_dispatched = now, po_preflight = pre, po_attempts = 0, po_fate = INDETERMINATE\<rparr> (le_purgatory L),
       le_generation := le_generation L + 1\<rparr>"

definition flat :: holding where
  "flat = \<lparr>ho_qty = 0, ho_px = 0\<rparr>"

definition holding_of :: "ledger \<Rightarrow> symbol \<Rightarrow> holding" where
  "holding_of L s = (case map_of (le_confirmed L) s of None \<Rightarrow> flat | Some h \<Rightarrow> h)"

definition merge_holding :: "string \<Rightarrow> flt \<Rightarrow> flt \<Rightarrow> holding \<Rightarrow> holding" where
  "merge_holding side qty px h =
     (if py_upper side = ''BUY'' then
        let n = ho_qty h + qty
        in \<lparr>ho_qty = n, ho_px = (if 0 < n then (ho_qty h * ho_px h + qty * px) / n else ho_px h)\<rparr>
      else h\<lparr>ho_qty := max 0 (ho_qty h - qty)\<rparr>)"

definition merge_confirmed :: "symbol \<Rightarrow> string \<Rightarrow> flt \<Rightarrow> flt \<Rightarrow> ledger \<Rightarrow> ledger" where
  "merge_confirmed s side qty px L =
     L\<lparr>le_confirmed := AList.update s (merge_holding side qty px (holding_of L s)) (le_confirmed L)\<rparr>"

definition audit :: "verdict \<Rightarrow> ledger \<Rightarrow> ledger" where
  "audit v L =
     (let log = le_log L @ [v]
      in L\<lparr>le_log := if 1000 < length log then lastn 500 log else log\<rparr>)"

definition pop_order :: "string \<Rightarrow> ledger \<Rightarrow> ledger" where
  "pop_order cl L = L\<lparr>le_purgatory := AList.delete cl (le_purgatory L)\<rparr>"

definition bump :: "ledger \<Rightarrow> ledger" where
  "bump L = L\<lparr>le_generation := le_generation L + 1\<rparr>"

definition confirm_fill :: "string \<Rightarrow> flt \<Rightarrow> flt \<Rightarrow> ledger \<Rightarrow> ledger \<times> verdict" where
  "confirm_fill cl qty px L =
     (case map_of (le_purgatory L) cl of
        None \<Rightarrow> (L, \<lparr>ve_id = cl, ve_fate = FILLED, ve_qty = qty, ve_px = px, ve_message = ''FILL_FOR_UNKNOWN_ORDER''\<rparr>)
      | Some ord \<Rightarrow>
          let v = \<lparr>ve_id = cl, ve_fate = FILLED, ve_qty = qty, ve_px = px, ve_message = ''''\<rparr>
          in (audit v (bump (merge_confirmed (po_symbol ord) (po_side ord) qty px (pop_order cl L))), v))"

definition confirm_rejection :: "string \<Rightarrow> string \<Rightarrow> ledger \<Rightarrow> ledger \<times> verdict" where
  "confirm_rejection cl reason L =
     (let fate = if contains ''reject'' (py_lower reason) then REJECTED else CANCELLED;
          v = \<lparr>ve_id = cl, ve_fate = fate, ve_qty = 0, ve_px = 0, ve_message = reason\<rparr>
      in (audit v (bump (pop_order cl L)), v))"

definition fate_of_status :: "string \<Rightarrow> order_fate" where
  "fate_of_status status =
     (let u = py_upper status
      in if u \<in> {''FILLED''} then FILLED
         else if u \<in> {''PARTIALLYFILLED'', ''PARTIALLY_FILLED''} then PARTIALLY_FILLED
         else if u \<in> {''CANCELLED'', ''CANCELED'', ''DEACTIVATED''} then CANCELLED
         else if u \<in> {''REJECTED''} then REJECTED
         else INDETERMINATE)"

definition retried :: "purgatory_order \<Rightarrow> purgatory_order" where
  "retried ord = ord\<lparr>po_attempts := po_attempts ord + 1, po_fate := INDETERMINATE\<rparr>"

definition collapse :: "string \<Rightarrow> purgatory_order \<Rightarrow> order_fate \<Rightarrow> flt \<Rightarrow> flt \<Rightarrow> ledger \<Rightarrow> ledger" where
  "collapse cl ord fate qty px L =
     (if fate \<in> {FILLED, PARTIALLY_FILLED} then
        let L1 = pop_order cl L
        in if 0 < qty then merge_confirmed (po_symbol ord) (po_side ord) qty px L1 else L1
      else if fate \<in> {CANCELLED, REJECTED, NEVER_RECEIVED} then pop_order cl L
      else L\<lparr>le_purgatory := AList.update cl (retried ord) (le_purgatory L)\<rparr>)"

definition reconcile_order :: "string \<Rightarrow> string \<Rightarrow> flt \<Rightarrow> flt \<Rightarrow> ledger \<Rightarrow> ledger \<times> verdict" where
  "reconcile_order cl status qty px L =
     (case map_of (le_purgatory L) cl of
        None \<Rightarrow> (L, \<lparr>ve_id = cl, ve_fate = INDETERMINATE, ve_qty = 0, ve_px = 0, ve_message = ''ORDER_NOT_IN_PURGATORY''\<rparr>)
      | Some ord \<Rightarrow>
          let fate = fate_of_status status;
              v = \<lparr>ve_id = cl, ve_fate = fate, ve_qty = qty, ve_px = px, ve_message = ''exchange_status='' @ status\<rparr>
          in (audit v (bump (collapse cl ord fate qty px L)), v))"

definition mark_never_received :: "string \<Rightarrow> ledger \<Rightarrow> ledger \<times> verdict" where
  "mark_never_received cl L =
     (let v = \<lparr>ve_id = cl, ve_fate = NEVER_RECEIVED, ve_qty = 0, ve_px = 0, ve_message = ''ORDER_NEVER_REACHED_EXCHANGE''\<rparr>
      in (audit v (bump (pop_order cl L)), v))"

definition get_purgatory_orders :: "symbol option \<Rightarrow> ledger \<Rightarrow> purgatory_order list" where
  "get_purgatory_orders so L =
     (case so of None \<Rightarrow> map snd (le_purgatory L)
      | Some s \<Rightarrow> filter (\<lambda>ord. po_symbol ord = s) (map snd (le_purgatory L)))"

definition get_purgatory_age :: "string \<Rightarrow> time \<Rightarrow> ledger \<Rightarrow> flt" where
  "get_purgatory_age cl now L =
     (case map_of (le_purgatory L) cl of None \<Rightarrow> 0 | Some ord \<Rightarrow> now - po_dispatched ord)"

definition get_shadow_position :: "symbol \<Rightarrow> ledger \<Rightarrow> shadow_position" where
  "get_shadow_position s L =
     (let h = holding_of L s;
          pend = get_purgatory_orders (Some s) L;
          purg_qty = sum_list (map po_qty pend);
          purg_cost = sum_list (map (\<lambda>ord. po_qty ord * po_worst ord) pend);
          shadow = ho_qty h + purg_qty;
          avg = if 0 < shadow then (ho_qty h * ho_px h + purg_cost) / shadow else ho_px h
      in \<lparr>sh_symbol = s, sh_confirmed = ho_qty h, sh_shadow = shadow, sh_confirmed_px = ho_px h,
          sh_shadow_px = round_to 8 avg, sh_count = length pend, sh_exposure = round_to 2 (shadow * avg)\<rparr>)"

definition is_strike_allowed :: "symbol \<Rightarrow> ledger \<Rightarrow> bool" where
  "is_strike_allowed s L =
     (if list_ex (\<lambda>ord. po_symbol ord = s) (get_purgatory_orders None L) then False
      else sum_list (map (\<lambda>(_, h). \<bar>ho_qty h * ho_px h\<bar>) (le_confirmed L))
             + sum_list (map (\<lambda>ord. \<bar>po_qty ord * po_worst ord\<bar>) (get_purgatory_orders None L))
           < le_max_exposure L)"

section \<open>The callbacks of the websocket\<close>

datatype ledger_event =
    Dispatch string symbol string flt flt flt time
  | Fill string flt flt
  | Rejection string string

fun ledger_step :: "ledger_event \<Rightarrow> ledger \<Rightarrow> ledger" where
  "ledger_step (Dispatch cl s side qty worst pre now) L = record_dispatch cl s side qty worst pre now L"
| "ledger_step (Fill cl qty px) L = fst (confirm_fill cl qty px L)"
| "ledger_step (Rejection cl reason) L = fst (confirm_rejection cl reason L)"

section \<open>The reconciler\<close>

text \<open>
  A number in an answer of the exchange: absent (the code's default \<open>0\<close>), readable by
  \<open>float\<close>, or not, which raises.
\<close>

datatype wire_num = Absent | Num flt | Unreadable

fun py_float :: "wire_num \<Rightarrow> flt option" where
  "py_float Absent = Some 0"
| "py_float (Num x) = Some x"
| "py_float Unreadable = None"

record order_row =
  or_status :: "string option"
  or_qty :: wire_num
  or_px :: wire_num

datatype order_reply = Order_Failed | Order_Rows "order_row list"

record order_await =
  oa_events :: "ledger_event list"
  oa_reply :: order_reply
  oa_jitter :: flt

definition answer_order :: "string \<Rightarrow> order_reply \<Rightarrow> ledger \<Rightarrow> (ledger \<times> verdict) option" where
  "answer_order cl reply L =
     (case reply of
        Order_Failed \<Rightarrow> None
      | Order_Rows [] \<Rightarrow> Some (mark_never_received cl L)
      | Order_Rows (row # _) \<Rightarrow>
          let status = (case or_status row of None \<Rightarrow> ''UNKNOWN'' | Some x \<Rightarrow> x)
          in case py_float (or_qty row) of None \<Rightarrow> None
             | Some qty \<Rightarrow> (case py_float (or_px row) of None \<Rightarrow> None
                 | Some px \<Rightarrow> Some (reconcile_order cl status qty px L)))"

definition retry_backoff :: "flt \<Rightarrow> nat \<Rightarrow> flt \<Rightarrow> flt" where
  "retry_backoff base attempt jitter = min 30 (base * 2 ^ (attempt - 1) + jitter)"

definition exhausted :: "string \<Rightarrow> nat \<Rightarrow> verdict" where
  "exhausted cl retries =
     \<lparr>ve_id = cl, ve_fate = INDETERMINATE, ve_qty = 0, ve_px = 0,
      ve_message = ''REST_EXHAUSTED_AFTER_'' @ nat_text retries @ ''_ATTEMPTS''\<rparr>"

text \<open>
  The attempts still left for one order.  Attempt \<open>n\<close> awaits \<open>ask n\<close>; the callbacks of an
  await, those of the sleep before it included, run first.  The last component collects
  the sleeps.
\<close>

fun resolve_from :: "flt \<Rightarrow> string \<Rightarrow> (nat \<Rightarrow> order_await) \<Rightarrow> nat \<Rightarrow> nat \<Rightarrow> ledger \<Rightarrow> ledger \<times> verdict \<times> flt list" where
  "resolve_from base cl ask attempt 0 L = (L, exhausted cl (attempt - 1), [])"
| "resolve_from base cl ask attempt (Suc left) L =
     (let L1 = fold ledger_step (oa_events (ask attempt)) L
      in case answer_order cl (oa_reply (ask attempt)) L1 of
           Some (L2, v) \<Rightarrow> (L2, v, [])
         | None \<Rightarrow>
             let (L2, v, sleeps) = resolve_from base cl ask (Suc attempt) left L1
             in (L2, v, retry_backoff base attempt (oa_jitter (ask attempt)) # sleeps))"

record position_row =
  pr_symbol :: symbol
  pr_size :: wire_num
  pr_px :: wire_num

datatype position_reply = Position_Failed | Positions "position_row list"

text \<open>The first row of the symbol gives the size and the price; no row is a flat position.\<close>

fun read_position :: "symbol \<Rightarrow> position_row list \<Rightarrow> (flt \<times> flt) option" where
  "read_position s [] = Some (0, 0)"
| "read_position s (p # ps) =
     (if pr_symbol p = s then
        case py_float (pr_size p) of None \<Rightarrow> None
        | Some x \<Rightarrow> (case py_float (pr_px p) of None \<Rightarrow> None | Some px \<Rightarrow> Some (\<bar>x\<bar>, px))
      else read_position s ps)"

definition attribute_order :: "flt \<Rightarrow> flt \<Rightarrow> flt \<Rightarrow> purgatory_order \<Rightarrow> ledger \<Rightarrow> ledger" where
  "attribute_order ex_size ex_px confirmed ord L =
     (if confirmed < ex_size then
        fst (reconcile_order (po_id ord) ''Filled'' (min (po_qty ord) (ex_size - confirmed)) ex_px L)
      else fst (mark_never_received (po_id ord) L))"

definition arbitrate_symbol :: "flt \<Rightarrow> purgatory_order list \<Rightarrow> symbol \<Rightarrow> flt \<Rightarrow> flt \<Rightarrow> ledger \<Rightarrow> ledger" where
  "arbitrate_symbol tol remaining s ex_size ex_px L =
     (let confirmed = sh_confirmed (get_shadow_position s L);
          own = filter (\<lambda>ord. po_symbol ord = s) remaining
      in if tol < \<bar>ex_size - confirmed\<bar> then fold (attribute_order ex_size ex_px confirmed) own L
         else fold (\<lambda>ord. fst \<circ> mark_never_received (po_id ord)) own L)"

record position_visit =
  pv_symbol :: symbol
  pv_events :: "ledger_event list"
  pv_reply :: position_reply

definition visit_symbol :: "flt \<Rightarrow> purgatory_order list \<Rightarrow> position_visit \<Rightarrow> ledger \<Rightarrow> ledger" where
  "visit_symbol tol remaining v L =
     (let L1 = fold ledger_step (pv_events v) L
      in case pv_reply v of
           Position_Failed \<Rightarrow> L1
         | Positions ps \<Rightarrow>
             (case read_position (pv_symbol v) ps of
                None \<Rightarrow> L1
              | Some (x, px) \<Rightarrow> arbitrate_symbol tol remaining (pv_symbol v) x px L1))"

text \<open>
  The visits are the answers for the symbols of the remaining orders, in the order in which
  the set of symbols is iterated.
\<close>

definition position_arbitration :: "flt \<Rightarrow> position_visit list \<Rightarrow> ledger \<Rightarrow> ledger" where
  "position_arbitration tol visits L =
     (let remaining = get_purgatory_orders None L
      in if remaining = [] then L
         else fold (visit_symbol tol remaining)
           (filter (\<lambda>v. pv_symbol v \<in> set (map po_symbol remaining)) visits) L)"

record reconciler =
  rc_max_retries :: nat
  rc_base_backoff :: flt
  rc_tolerance :: flt
  rc_total :: int

definition reconciler_init :: "nat \<Rightarrow> flt \<Rightarrow> reconciler" where
  "reconciler_init retries base =
     \<lparr>rc_max_retries = retries, rc_base_backoff = base, rc_tolerance = 1 / 10 ^ 8, rc_total = 0\<rparr>"

fun resolve_all :: "reconciler \<Rightarrow> (string \<Rightarrow> nat \<Rightarrow> order_await) \<Rightarrow> purgatory_order list \<Rightarrow> ledger \<Rightarrow> ledger \<times> verdict list" where
  "resolve_all r ask [] L = (L, [])"
| "resolve_all r ask (ord # ords) L =
     (let (L1, v, _) = resolve_from (rc_base_backoff r) (po_id ord) (ask (po_id ord)) 1 (rc_max_retries r) L;
          (L2, vs) = resolve_all r ask ords L1
      in (L2, v # vs))"

definition reconcile :: "(string \<Rightarrow> nat \<Rightarrow> order_await) \<Rightarrow> (ledger \<Rightarrow> position_visit list) \<Rightarrow> reconciler \<Rightarrow> ledger
    \<Rightarrow> reconciler \<times> ledger \<times> verdict list" where
  "reconcile ask visits r L =
     (let r1 = r\<lparr>rc_total := rc_total r + 1\<rparr>;
          purgatory = get_purgatory_orders None L
      in if purgatory = [] then (r1, L, [])
         else let (L1, vs) = resolve_all r1 ask purgatory L
              in (r1, position_arbitration (rc_tolerance r1) (visits L1) L1, vs))"

section \<open>The invariant of the ledger\<close>

text \<open>All that can happen to the ledger: callbacks and the two calls of the reconciler.\<close>

datatype ledger_op =
    Callback ledger_event
  | Reconcile string string flt flt
  | Never string

fun ledger_do :: "ledger_op \<Rightarrow> ledger \<Rightarrow> ledger" where
  "ledger_do (Callback ev) L = ledger_step ev L"
| "ledger_do (Reconcile cl status qty px) L = fst (reconcile_order cl status qty px L)"
| "ledger_do (Never cl) L = fst (mark_never_received cl L)"

fun sane_op :: "ledger_op \<Rightarrow> bool" where
  "sane_op (Callback (Dispatch cl s side qty worst pre now)) \<longleftrightarrow> 0 \<le> qty"
| "sane_op (Callback (Fill cl qty px)) \<longleftrightarrow> 0 \<le> qty"
| "sane_op op \<longleftrightarrow> True"

definition ledger_ok :: "ledger \<Rightarrow> bool" where
  "ledger_ok L \<longleftrightarrow> distinct (map fst (le_purgatory L))
     \<and> (\<forall>(k, ord) \<in> set (le_purgatory L). po_id ord = k \<and> 0 \<le> po_qty ord)
     \<and> (\<forall>(s, h) \<in> set (le_confirmed L). 0 \<le> ho_qty h)
     \<and> length (le_log L) \<le> 1000"

lemma set_alist_update: "set (AList.update k v xs) \<subseteq> insert (k, v) (set xs)"
  by (induction xs) auto

lemma set_alist_delete: "set (AList.delete k xs) \<subseteq> set xs"
  by (auto simp: AList.delete_eq)

lemma holding_of_update [simp]:
  "holding_of (L\<lparr>le_confirmed := AList.update s h (le_confirmed L)\<rparr>) s' = (if s' = s then h else holding_of L s')"
  by (simp add: holding_of_def update_conv')

lemma holding_nonneg: "ledger_ok L \<Longrightarrow> 0 \<le> ho_qty (holding_of L s)"
  by (auto simp: ledger_ok_def holding_of_def flat_def split: option.split dest!: map_of_SomeD)

lemma merge_holding_nonneg: "0 \<le> ho_qty h \<Longrightarrow> 0 \<le> qty \<Longrightarrow> 0 \<le> ho_qty (merge_holding side qty px h)"
  by (simp add: merge_holding_def Let_def)

lemma ledger_frame [simp]:
  "le_purgatory (audit v L) = le_purgatory L" "le_confirmed (audit v L) = le_confirmed L"
  "le_purgatory (bump L) = le_purgatory L" "le_confirmed (bump L) = le_confirmed L" "le_log (bump L) = le_log L"
  "le_purgatory (merge_confirmed s side qty px L) = le_purgatory L" "le_log (merge_confirmed s side qty px L) = le_log L"
  "le_purgatory (pop_order cl L) = AList.delete cl (le_purgatory L)"
  "le_confirmed (pop_order cl L) = le_confirmed L" "le_log (pop_order cl L) = le_log L"
  by (simp_all add: audit_def bump_def merge_confirmed_def pop_order_def Let_def)

lemma holding_frame [simp]:
  "holding_of (audit v L) = holding_of L" "holding_of (bump L) = holding_of L" "holding_of (pop_order cl L) = holding_of L"
  by (simp_all add: holding_of_def fun_eq_iff)

lemma holding_merge:
  "holding_of (merge_confirmed s side qty px L) s' = (if s' = s then merge_holding side qty px (holding_of L s) else holding_of L s')"
  by (simp add: merge_confirmed_def)

lemma audit_ok: "ledger_ok L \<Longrightarrow> ledger_ok (audit v L)"
  by (auto simp: ledger_ok_def) (simp add: audit_def Let_def)

lemma bump_ok: "ledger_ok (bump L) = ledger_ok L"
  by (simp add: ledger_ok_def)

lemma pop_ok: "ledger_ok L \<Longrightarrow> ledger_ok (pop_order cl L)"
  using set_alist_delete [of cl "le_purgatory L"] by (auto simp: ledger_ok_def distinct_delete)

lemma merge_ok: "ledger_ok L \<Longrightarrow> 0 \<le> qty \<Longrightarrow> ledger_ok (merge_confirmed s side qty px L)"
  using set_alist_update [of s "merge_holding side qty px (holding_of L s)" "le_confirmed L"]
    merge_holding_nonneg [OF holding_nonneg, of L qty side px s]
  by (fastforce simp: ledger_ok_def merge_confirmed_def)

lemma keep_ok:
  "ledger_ok L \<Longrightarrow> po_id ord = cl \<Longrightarrow> 0 \<le> po_qty ord \<Longrightarrow> ledger_ok (L\<lparr>le_purgatory := AList.update cl ord (le_purgatory L)\<rparr>)"
  using set_alist_update [of cl ord "le_purgatory L"] by (fastforce simp: ledger_ok_def distinct_update)

lemma ledger_gen_ok [simp]: "ledger_ok (L\<lparr>le_generation := g\<rparr>) = ledger_ok L"
  by (simp add: ledger_ok_def)

lemma purgatory_entry: "ledger_ok L \<Longrightarrow> map_of (le_purgatory L) cl = Some ord \<Longrightarrow> po_id ord = cl \<and> 0 \<le> po_qty ord"
  by (auto simp: ledger_ok_def dest: map_of_SomeD)

lemma collapse_ok: "ledger_ok L \<Longrightarrow> map_of (le_purgatory L) cl = Some ord \<Longrightarrow> ledger_ok (collapse cl ord fate qty px L)"
  using purgatory_entry [of L cl ord] by (auto simp: collapse_def Let_def retried_def pop_ok merge_ok intro: keep_ok)

lemma dispatch_ok: "ledger_ok L \<Longrightarrow> 0 \<le> qty \<Longrightarrow> ledger_ok (record_dispatch cl s side qty worst pre now L)"
  unfolding record_dispatch_def using keep_ok [of L _ cl] by (simp add: keep_ok)

lemma ledger_do_ok: "ledger_ok L \<Longrightarrow> sane_op op \<Longrightarrow> ledger_ok (ledger_do op L)"
proof (cases op)
  case (Callback ev)
  then show "ledger_ok L \<Longrightarrow> sane_op op \<Longrightarrow> ?thesis"
    by (cases ev) (auto simp: dispatch_ok confirm_fill_def confirm_rejection_def Let_def audit_ok bump_ok pop_ok merge_ok
        split: option.split)
qed (auto simp: reconcile_order_def mark_never_received_def Let_def audit_ok bump_ok pop_ok collapse_ok split: option.split)

section \<open>The shadow position bounds every outcome\<close>

definition pending_qty :: "symbol \<Rightarrow> (string \<times> purgatory_order) list \<Rightarrow> flt" where
  "pending_qty s P = sum_list (map (\<lambda>(k, ord). if po_symbol ord = s then po_qty ord else 0) P)"

lemma pending_Nil [simp]: "pending_qty s [] = 0"
  by (simp add: pending_qty_def)

lemma pending_Cons [simp]:
  "pending_qty s ((k, ord) # P) = (if po_symbol ord = s then po_qty ord else 0) + pending_qty s P"
  by (simp add: pending_qty_def)

lemma pending_filter: "sum_list (map po_qty (filter (\<lambda>ord. po_symbol ord = s) (map snd P))) = pending_qty s P"
  by (induction P) auto

lemma shadow_qty: "sh_shadow (get_shadow_position s L) = ho_qty (holding_of L s) + pending_qty s (le_purgatory L)"
  by (simp add: get_shadow_position_def get_purgatory_orders_def Let_def pending_filter)

lemma pending_absent: "cl \<notin> fst ` set P \<Longrightarrow> AList.delete cl P = P"
  by (induction P) auto

lemma pending_delete:
  "distinct (map fst P) \<Longrightarrow> map_of P cl = Some ord \<Longrightarrow>
    pending_qty s P = (if po_symbol ord = s then po_qty ord else 0) + pending_qty s (AList.delete cl P)"
  by (induction P) (auto split: if_splits simp: pending_absent)

lemma pending_keep:
  "distinct (map fst P) \<Longrightarrow> map_of P cl = Some ord \<Longrightarrow> po_symbol ord' = po_symbol ord \<Longrightarrow> po_qty ord' = po_qty ord \<Longrightarrow>
    pending_qty s (AList.update cl ord' P) = pending_qty s P"
  by (induction P) (auto split: if_splits)

lemma pending_nonneg: "(\<forall>(k, ord) \<in> set P. 0 \<le> po_qty ord) \<Longrightarrow> 0 \<le> pending_qty s P"
  by (induction P) auto

lemma pending_ok: "ledger_ok L \<Longrightarrow> 0 \<le> pending_qty s (le_purgatory L)"
  by (rule pending_nonneg) (auto simp: ledger_ok_def)

text \<open>A fill the exchange may report: no more than the order asked for.\<close>

definition possible :: "ledger \<Rightarrow> string \<Rightarrow> flt \<Rightarrow> bool" where
  "possible L cl qty \<longleftrightarrow> 0 \<le> qty \<and> (\<forall>ord. map_of (le_purgatory L) cl = Some ord \<longrightarrow> qty \<le> po_qty ord)"

fun settles :: "ledger \<Rightarrow> ledger_op \<Rightarrow> bool" where
  "settles L (Callback (Dispatch cl s side qty worst pre now)) \<longleftrightarrow> False"
| "settles L (Callback (Fill cl qty px)) \<longleftrightarrow> possible L cl qty"
| "settles L (Reconcile cl status qty px) \<longleftrightarrow> possible L cl qty"
| "settles L op \<longleftrightarrow> True"

definition shadow_of :: "symbol \<Rightarrow> ledger \<Rightarrow> flt" where
  "shadow_of s L = ho_qty (holding_of L s) + pending_qty s (le_purgatory L)"

lemma merge_at_most: "0 \<le> qty \<Longrightarrow> 0 \<le> ho_qty h \<Longrightarrow> ho_qty (merge_holding side qty px h) \<le> ho_qty h + qty"
  by (simp add: merge_holding_def Let_def)

lemma shadow_pop:
  assumes "ledger_ok L"
  shows "shadow_of s (pop_order cl L) \<le> shadow_of s L"
proof (cases "map_of (le_purgatory L) cl")
  case None
  then show ?thesis by (simp add: shadow_of_def map_of_eq_None_iff pending_absent)
next
  case (Some ord)
  then have "pending_qty s (le_purgatory L) = (if po_symbol ord = s then po_qty ord else 0) + pending_qty s (AList.delete cl (le_purgatory L))"
    using assms by (intro pending_delete) (simp_all add: ledger_ok_def)
  with purgatory_entry [OF assms Some] show ?thesis by (simp add: shadow_of_def)
qed

lemma shadow_fill:
  assumes "ledger_ok L" "map_of (le_purgatory L) cl = Some ord" "0 \<le> qty" "qty \<le> po_qty ord"
  shows "shadow_of s (merge_confirmed (po_symbol ord) side qty px (pop_order cl L)) \<le> shadow_of s L"
proof -
  have "pending_qty s (le_purgatory L) = (if po_symbol ord = s then po_qty ord else 0) + pending_qty s (AList.delete cl (le_purgatory L))"
    using assms by (intro pending_delete) (auto simp: ledger_ok_def)
  then show ?thesis
    using merge_at_most [OF assms(3) holding_nonneg [OF assms(1)], of side px s] assms by (auto simp: shadow_of_def holding_merge)
qed

lemma shadow_frame [simp]:
  "shadow_of s (audit v L) = shadow_of s L" "shadow_of s (bump L) = shadow_of s L"
  by (simp_all add: shadow_of_def)

lemma shadow_collapse:
  assumes "ledger_ok L" "map_of (le_purgatory L) cl = Some ord" "0 \<le> qty" "qty \<le> po_qty ord"
  shows "shadow_of s (collapse cl ord fate qty px L) \<le> shadow_of s L"
proof -
  have "pending_qty s (AList.update cl (retried ord) (le_purgatory L)) = pending_qty s (le_purgatory L)"
    using assms by (intro pending_keep) (auto simp: retried_def ledger_ok_def)
  then have "shadow_of s (L\<lparr>le_purgatory := AList.update cl (retried ord) (le_purgatory L)\<rparr>) = shadow_of s L"
    by (simp add: shadow_of_def holding_of_def)
  then show ?thesis
    using shadow_fill [OF assms] shadow_pop [OF assms(1)] by (auto simp: collapse_def Let_def)
qed

lemma shadow_do: "ledger_ok L \<Longrightarrow> settles L op \<Longrightarrow> shadow_of s (ledger_do op L) \<le> shadow_of s L"
proof (cases op)
  case (Callback ev)
  then show "ledger_ok L \<Longrightarrow> settles L op \<Longrightarrow> ?thesis"
    by (cases ev) (auto simp: confirm_fill_def confirm_rejection_def Let_def possible_def shadow_fill shadow_pop split: option.split)
qed (auto simp: reconcile_order_def mark_never_received_def Let_def possible_def shadow_collapse shadow_pop split: option.split)

lemma settles_sane: "settles L op \<Longrightarrow> sane_op op"
proof (cases op)
  case (Callback ev)
  then show "settles L op \<Longrightarrow> ?thesis" by (cases ev) (auto simp: possible_def)
qed auto

text \<open>Without a dispatch, the orders that are left are orders that were there, with their quantities.\<close>

definition remains :: "ledger \<Rightarrow> ledger \<Rightarrow> bool" where
  "remains L L' \<longleftrightarrow> (\<forall>cl ord'. map_of (le_purgatory L') cl = Some ord' \<longrightarrow>
     (\<exists>ord. map_of (le_purgatory L) cl = Some ord \<and> po_id ord = po_id ord' \<and> po_symbol ord = po_symbol ord' \<and> po_qty ord = po_qty ord'))"

lemma remains_refl [simp]: "remains L L"
  by (simp add: remains_def)

lemma remains_trans: "remains L L' \<Longrightarrow> remains L' L'' \<Longrightarrow> remains L L''"
  by (fastforce simp: remains_def)

lemma remains_frame [simp]:
  "remains L (audit v L') = remains L L'" "remains L (bump L') = remains L L'"
  "remains L (merge_confirmed s side qty px L') = remains L L'"
  by (simp_all add: remains_def)

lemma remains_pop [simp]: "remains L (pop_order cl L)"
  by (auto simp: remains_def delete_conv')

lemma remains_collapse: "map_of (le_purgatory L) cl = Some ord \<Longrightarrow> remains L (collapse cl ord fate qty px L)"
  by (auto simp: collapse_def Let_def) (auto simp: remains_def update_conv' retried_def)

fun no_dispatch :: "ledger_op \<Rightarrow> bool" where
  "no_dispatch (Callback (Dispatch cl s side qty worst pre now)) \<longleftrightarrow> False"
| "no_dispatch op \<longleftrightarrow> True"

lemma settles_no_dispatch: "settles L op \<Longrightarrow> no_dispatch op"
  by (cases "(L, op)" rule: settles.cases) auto

lemma remains_do: "no_dispatch op \<Longrightarrow> remains L (ledger_do op L)"
proof (cases op)
  case (Callback ev)
  then show "no_dispatch op \<Longrightarrow> ?thesis"
    by (cases ev) (auto simp: confirm_fill_def confirm_rejection_def Let_def split: option.split)
qed (auto simp: reconcile_order_def mark_never_received_def Let_def remains_collapse split: option.split)

lemma settles_remains: "remains L L' \<Longrightarrow> settles L op \<Longrightarrow> settles L' op"
  by (cases "(L, op)" rule: settles.cases) (fastforce simp: possible_def remains_def)+

lemma shadow_run:
  "ledger_ok L \<Longrightarrow> (\<forall>op \<in> set ops. settles L op) \<Longrightarrow>
    shadow_of s (fold ledger_do ops L) \<le> shadow_of s L \<and> ledger_ok (fold ledger_do ops L)"
proof (induction ops arbitrary: L)
  case (Cons op ops)
  let ?L = "ledger_do op L"
  have "settles L op" using Cons.prems by simp
  note step = shadow_do [OF Cons.prems(1) this] ledger_do_ok [OF Cons.prems(1) settles_sane [OF this]]
    remains_do [OF settles_no_dispatch [OF this]]
  have "\<forall>op \<in> set ops. settles ?L op" using Cons.prems step(3) by (auto intro: settles_remains)
  from Cons.IH [OF step(2) this] step(1) [of s] show ?case by simp
qed simp

text \<open>C22: whatever the exchange turns out to have done with the orders in flight - filled them up
  to their size, rejected, never seen them, in any order and through any of the callbacks
  and reconciliations - the confirmed position of a symbol ends at most at the shadow
  position it had before, and the shadow position always covers the confirmed one.\<close>

theorem shadow_bounds_outcomes:
  assumes "ledger_ok L" "\<forall>op \<in> set ops. settles L op"
  defines "L' \<equiv> fold ledger_do ops L"
  shows "sh_confirmed (get_shadow_position s L') \<le> sh_shadow (get_shadow_position s L')
    \<and> sh_shadow (get_shadow_position s L') \<le> sh_shadow (get_shadow_position s L)"
proof -
  have c: "sh_confirmed (get_shadow_position s L') = ho_qty (holding_of L' s)"
    by (simp add: get_shadow_position_def Let_def)
  have "shadow_of s L' \<le> shadow_of s L" "ledger_ok L'"
    using shadow_run [OF assms(1,2), of s] by (simp_all add: L'_def)
  with pending_ok [of L' s] show ?thesis unfolding c shadow_qty by (simp add: shadow_of_def)
qed

definition demo_ledger :: ledger where
  "demo_ledger = record_dispatch ''b'' ''BTC'' ''Buy'' 2 105 100 1
     (record_dispatch ''a'' ''BTC'' ''Buy'' 3 110 100 0 (ledger_init 1000))"

lemma demo_ledger_ok: "ledger_ok demo_ledger"
  unfolding demo_ledger_def by (intro dispatch_ok) (auto simp: ledger_ok_def ledger_init_def)

lemma demo_ledger_holding: "holding_of demo_ledger s = flat"
  by (simp add: demo_ledger_def record_dispatch_def ledger_init_def holding_of_def)

lemma demo_ledger_orders:
  "map_of (le_purgatory demo_ledger) ''a'' = Some \<lparr>po_id = ''a'', po_symbol = ''BTC'', po_side = ''Buy'', po_qty = 3,
    po_worst = 110, po_dispatched = 0, po_preflight = 100, po_attempts = 0, po_fate = INDETERMINATE\<rparr>"
  "map_of (le_purgatory demo_ledger) ''b'' = Some \<lparr>po_id = ''b'', po_symbol = ''BTC'', po_side = ''Buy'', po_qty = 2,
    po_worst = 105, po_dispatched = 1, po_preflight = 100, po_attempts = 0, po_fate = INDETERMINATE\<rparr>"
  by (simp_all add: demo_ledger_def record_dispatch_def ledger_init_def)

lemma upper_Buy: "py_upper ''Buy'' = ''BUY''"
  by code_simp

lemma upper_Filled: "py_upper ''Filled'' = ''FILLED''"
  by code_simp

theorem shadow_bounds_outcomes_witness:
  "sh_shadow (get_shadow_position ''BTC'' (fold ledger_do [Callback (Fill ''a'' 2 101), Never ''b''] demo_ledger)) \<le> 5"
  using shadow_bounds_outcomes [OF demo_ledger_ok, of "[Callback (Fill ''a'' 2 101), Never ''b'']" "''BTC''"]
  unfolding shadow_qty
  by (simp add: possible_def demo_ledger_def record_dispatch_def ledger_init_def holding_of_def flat_def)

section \<open>Fills\<close>

fun dispatches :: "string \<Rightarrow> ledger_op \<Rightarrow> bool" where
  "dispatches cl (Callback (Dispatch cl' s side qty worst pre now)) \<longleftrightarrow> cl' = cl"
| "dispatches cl op \<longleftrightarrow> False"

lemma absent_frame [simp]:
  "map_of (le_purgatory (collapse cl' ord fate qty px L)) cl = None
    \<longleftrightarrow> map_of (le_purgatory L) cl = None \<and> (cl' \<noteq> cl \<or> fate \<noteq> INDETERMINATE) \<or> cl' = cl \<and> fate \<noteq> INDETERMINATE"
  by (cases fate) (auto simp: collapse_def Let_def delete_conv' update_conv')

lemma absent_do:
  assumes "map_of (le_purgatory L) cl = None" "\<not> dispatches cl op"
  shows "map_of (le_purgatory (ledger_do op L)) cl = None"
proof (cases op)
  case (Callback ev)
  then show ?thesis
    using assms by (cases ev) (auto simp: confirm_fill_def confirm_rejection_def record_dispatch_def Let_def delete_conv' update_conv'
        split: option.split)
qed (use assms in \<open>auto simp: reconcile_order_def mark_never_received_def Let_def delete_conv' split: option.split\<close>)

lemma absent_run:
  "map_of (le_purgatory L) cl = None \<Longrightarrow> (\<forall>op \<in> set ops. \<not> dispatches cl op) \<Longrightarrow>
    map_of (le_purgatory (fold ledger_do ops L)) cl = None"
  by (rule fold_inv) (auto intro: absent_do)

text \<open>An order's fill is merged into the position at most once.  After a fill was confirmed,
  by the callback, a second report of the order - a repeated message, the reconciler's
  answer for the same fill, and also the rest of a fill that came in parts - changes
  nothing, whatever happened in between, until the identifier is dispatched again.\<close>

theorem fill_merged_once:
  fixes L :: ledger and qty px :: flt
  assumes "\<forall>op \<in> set ops. \<not> dispatches cl op"
  defines "L' \<equiv> fold ledger_do ops (fst (confirm_fill cl qty px L))"
  shows "fst (confirm_fill cl qty' px' L') = L' \<and> fst (reconcile_order cl status qty' px' L') = L'"
proof -
  have "map_of (le_purgatory (fst (confirm_fill cl qty px L))) cl = None"
    by (auto simp: confirm_fill_def Let_def delete_conv' split: option.split)
  from absent_run [OF this assms(1)] show ?thesis
    by (simp add: L'_def confirm_fill_def reconcile_order_def)
qed

theorem fill_merged_once_witness:
  "fst (confirm_fill ''a'' 1 102 (fst (confirm_fill ''a'' 2 101 demo_ledger))) = fst (confirm_fill ''a'' 2 101 demo_ledger)"
  using fill_merged_once [where ops = "[]" and cl = "''a''" and qty = 2 and px = 101 and L = demo_ledger and qty' = 1 and px' = 102]
  by simp

text \<open>The fills of distinct buy orders of a symbol.\<close>

definition buy_fill :: "ledger \<Rightarrow> symbol \<Rightarrow> string \<times> flt \<times> flt \<Rightarrow> bool" where
  "buy_fill L s f \<longleftrightarrow> 0 < fst (snd f) \<and> (case map_of (le_purgatory L) (fst f) of None \<Rightarrow> False
     | Some ord \<Rightarrow> po_symbol ord = s \<and> py_upper (po_side ord) = ''BUY'')"

definition confirm_all :: "(string \<times> flt \<times> flt) list \<Rightarrow> ledger \<Rightarrow> ledger" where
  "confirm_all fills = fold (\<lambda>(cl, qty, px). fst \<circ> confirm_fill cl qty px) fills"

definition holding_cost :: "holding \<Rightarrow> flt" where
  "holding_cost h = ho_qty h * ho_px h"

lemma cost_flat [simp]: "holding_cost flat = 0" "ho_qty flat = 0"
  by (simp_all add: holding_cost_def flat_def)

lemma buy_merge:
  "0 \<le> ho_qty h \<Longrightarrow> 0 < qty \<Longrightarrow> py_upper side = ''BUY'' \<Longrightarrow>
    ho_qty (merge_holding side qty px h) = ho_qty h + qty \<and> holding_cost (merge_holding side qty px h) = holding_cost h + qty * px"
  by (simp add: merge_holding_def Let_def holding_cost_def)

lemma buy_fill_step:
  assumes "buy_fill L s (cl, qty, px)" "0 \<le> ho_qty (holding_of L s)"
  defines "L' \<equiv> fst (confirm_fill cl qty px L)"
  shows "ho_qty (holding_of L' s) = ho_qty (holding_of L s) + qty"
    "holding_cost (holding_of L' s) = holding_cost (holding_of L s) + qty * px"
    "le_purgatory L' = AList.delete cl (le_purgatory L)"
  using assms(1) buy_merge [OF assms(2), of qty] unfolding L'_def
  by (auto simp: buy_fill_def confirm_fill_def Let_def holding_merge split: option.splits)

text \<open>Buying keeps the books: after the fills of any distinct buy orders the position is
  the old one plus the filled quantities, and its cost - quantity times average price - the
  old cost plus what the fills cost, so that the average price is the volume-weighted one.\<close>

theorem buys_keep_cost:
  assumes "distinct (map fst fills)" "\<forall>f \<in> set fills. buy_fill L s f" "0 \<le> ho_qty (holding_of L s)"
  shows "ho_qty (holding_of (confirm_all fills L) s) = ho_qty (holding_of L s) + sum_list (map (\<lambda>(cl, qty, px). qty) fills)
    \<and> holding_cost (holding_of (confirm_all fills L) s) = holding_cost (holding_of L s) + sum_list (map (\<lambda>(cl, qty, px). qty * px) fills)"
  using assms
proof (induction fills arbitrary: L)
  case (Cons f fills)
  obtain cl qty px where f: "f = (cl, qty, px)" by (cases f)
  let ?L = "fst (confirm_fill cl qty px L)"
  have head: "buy_fill L s (cl, qty, px)" using Cons.prems f by simp
  note step = buy_fill_step [OF head Cons.prems(3)]
  have "buy_fill ?L s g" if "g \<in> set fills" for g
    using that Cons.prems(1,2) f by (fastforce simp: buy_fill_def step(3) delete_conv')
  moreover have "0 \<le> ho_qty (holding_of ?L s)" using head Cons.prems(3) step(1) by (simp add: buy_fill_def)
  ultimately have "ho_qty (holding_of (confirm_all fills ?L) s) = ho_qty (holding_of ?L s) + sum_list (map (\<lambda>(cl, qty, px). qty) fills)
    \<and> holding_cost (holding_of (confirm_all fills ?L) s) = holding_cost (holding_of ?L s) + sum_list (map (\<lambda>(cl, qty, px). qty * px) fills)"
    using Cons.IH [of ?L] Cons.prems(1) by simp
  moreover have "confirm_all (f # fills) L = confirm_all fills ?L" by (simp add: confirm_all_def f)
  ultimately show ?case using step f by simp
qed (simp add: confirm_all_def)

theorem buys_keep_cost_witness:
  "holding_cost (holding_of (confirm_all [(''a'', 3, 101), (''b'', 1, 103)] demo_ledger) ''BTC'') = 406"
  using buys_keep_cost [of "[(''a'', 3, 101), (''b'', 1, 103)]" demo_ledger "''BTC''"]
  by (simp add: buy_fill_def demo_ledger_orders demo_ledger_holding upper_Buy cost_flat)

section \<open>The lock on a symbol\<close>

fun touches :: "string \<Rightarrow> ledger_op \<Rightarrow> bool" where
  "touches cl (Callback (Dispatch cl' s side qty worst pre now)) \<longleftrightarrow> cl' = cl"
| "touches cl (Callback (Fill cl' qty px)) \<longleftrightarrow> cl' = cl"
| "touches cl (Callback (Rejection cl' reason)) \<longleftrightarrow> cl' = cl"
| "touches cl (Reconcile cl' status qty px) \<longleftrightarrow> cl' = cl \<and> fate_of_status status \<noteq> INDETERMINATE"
| "touches cl (Never cl') \<longleftrightarrow> cl' = cl"

definition in_flight :: "string \<Rightarrow> symbol \<Rightarrow> ledger \<Rightarrow> bool" where
  "in_flight cl s L \<longleftrightarrow> (case map_of (le_purgatory L) cl of None \<Rightarrow> False | Some ord \<Rightarrow> po_symbol ord = s)"

lemma in_flight_collapse:
  "in_flight cl s L \<Longrightarrow> cl' = cl \<longrightarrow> fate = INDETERMINATE \<Longrightarrow> map_of (le_purgatory L) cl' = Some ord \<Longrightarrow>
    in_flight cl s (collapse cl' ord fate qty px L)"
  by (cases "cl' = cl"; cases fate) (auto simp: in_flight_def collapse_def Let_def delete_conv' update_conv' retried_def)

lemma in_flight_frame [simp]:
  "in_flight cl s (audit v L) = in_flight cl s L" "in_flight cl s (bump L) = in_flight cl s L"
  "in_flight cl s (merge_confirmed s' side qty px L) = in_flight cl s L"
  by (simp_all add: in_flight_def)

lemma in_flight_pop [simp]: "cl' \<noteq> cl \<Longrightarrow> in_flight cl s (pop_order cl' L) = in_flight cl s L"
  by (simp add: in_flight_def delete_conv')

lemma in_flight_dispatch [simp]:
  "cl' \<noteq> cl \<Longrightarrow> in_flight cl s (record_dispatch cl' s' side qty worst pre now L) = in_flight cl s L"
  by (simp add: in_flight_def record_dispatch_def update_conv')

lemma in_flight_do: "in_flight cl s L \<Longrightarrow> \<not> touches cl op \<Longrightarrow> in_flight cl s (ledger_do op L)"
proof (cases op)
  case (Callback ev)
  then show "in_flight cl s L \<Longrightarrow> \<not> touches cl op \<Longrightarrow> ?thesis"
    by (cases ev) (auto simp: confirm_fill_def confirm_rejection_def Let_def split: option.split)
qed (auto simp: reconcile_order_def mark_never_received_def Let_def in_flight_collapse split: option.split)

lemma in_flight_blocks: "in_flight cl s L \<Longrightarrow> \<not> is_strike_allowed s L"
  by (auto simp: in_flight_def is_strike_allowed_def get_purgatory_orders_def list_ex_iff
      split: option.splits dest!: map_of_SomeD)

text \<open>From its dispatch until its own fate is known an order keeps its symbol locked: whatever
  other callbacks arrive, and however often the exchange answers that it cannot tell, no
  strike on the symbol is allowed.\<close>

theorem dispatch_locks_symbol:
  assumes "\<forall>op \<in> set ops. \<not> touches cl op"
  shows "\<not> is_strike_allowed s (fold ledger_do ops (record_dispatch cl s side qty worst pre now L))"
proof (rule in_flight_blocks, rule fold_inv [where P = "in_flight cl s"])
  show "in_flight cl s (record_dispatch cl s side qty worst pre now L)"
    by (simp add: in_flight_def record_dispatch_def update_conv')
qed (use assms in \<open>auto intro: in_flight_do\<close>)

lemma new_status: "fate_of_status ''New'' = INDETERMINATE"
  by code_simp

theorem dispatch_locks_symbol_witness:
  "\<not> is_strike_allowed ''BTC'' (fold ledger_do [Callback (Fill ''z'' 1 1), Reconcile ''a'' ''New'' 0 0]
    (record_dispatch ''a'' ''BTC'' ''Buy'' 3 110 100 0 (ledger_init 1000)))"
  by (rule dispatch_locks_symbol) (simp add: new_status)

section \<open>The end of a reconciliation\<close>

fun quiet :: "ledger_event \<Rightarrow> bool" where
  "quiet (Dispatch cl s side qty worst pre now) \<longleftrightarrow> False"
| "quiet ev \<longleftrightarrow> True"

lemma remains_events: "(\<forall>ev \<in> set evs. quiet ev) \<Longrightarrow> remains L (fold ledger_step evs L)"
proof (induction evs arbitrary: L)
  case (Cons ev evs)
  then have "remains L (ledger_step ev L)"
    using remains_do [of "Callback ev" L] by (cases ev) simp_all
  with Cons show ?case by (auto intro: remains_trans)
qed simp

lemma remains_reconcile: "remains L (fst (reconcile_order cl status qty px L))"
  using remains_do [of "Reconcile cl status qty px" L] by simp

lemma remains_never: "remains L (fst (mark_never_received cl L))"
  using remains_do [of "Never cl" L] by simp

lemma remains_answer: "answer_order cl reply L = Some (L', v) \<Longrightarrow> remains L L'"
  using remains_reconcile [of L cl] remains_never [of L cl]
  by (auto simp: answer_order_def Let_def split: order_reply.splits list.splits option.splits) (metis fst_conv)+

lemma remains_resolve:
  "(\<And>n. \<forall>ev \<in> set (oa_events (ask n)). quiet ev) \<Longrightarrow> remains L (fst (resolve_from base cl ask attempt left L))"
proof (induction left arbitrary: attempt L)
  case (Suc left)
  let ?L = "fold ledger_step (oa_events (ask attempt)) L"
  have L: "remains L ?L" using Suc.prems by (intro remains_events) simp
  show ?case
  proof (cases "answer_order cl (oa_reply (ask attempt)) ?L")
    case None
    have "remains ?L (fst (resolve_from base cl ask (Suc attempt) left ?L))"
      using Suc.prems by (rule Suc.IH)
    with None L show ?thesis by (auto simp: Let_def split_beta intro: remains_trans)
  next
    case (Some a)
    then show ?thesis using L remains_answer [of cl _ ?L] by (cases a) (auto intro: remains_trans)
  qed
qed simp

lemma remains_resolve_all:
  "(\<And>cl n. \<forall>ev \<in> set (oa_events (ask cl n)). quiet ev) \<Longrightarrow> remains L (fst (resolve_all r ask ords L))"
proof (induction ords arbitrary: L)
  case (Cons ord ords)
  let ?L = "fst (resolve_from (rc_base_backoff r) (po_id ord) (ask (po_id ord)) 1 (rc_max_retries r) L)"
  have "remains L ?L" using Cons.prems by (intro remains_resolve) simp
  moreover have "remains ?L (fst (resolve_all r ask ords ?L))" using Cons by simp
  ultimately show ?case by (auto simp: split_beta Let_def intro: remains_trans)
qed simp

lemma status_Filled: "fate_of_status ''Filled'' = FILLED"
  by (simp add: fate_of_status_def upper_Filled)

lemma absent_remains: "remains L L' \<Longrightarrow> map_of (le_purgatory L) cl = None \<Longrightarrow> map_of (le_purgatory L') cl = None"
  by (cases "map_of (le_purgatory L') cl") (fastforce simp: remains_def)+

lemma never_pops: "map_of (le_purgatory (fst (mark_never_received cl L))) cl = None"
  by (simp add: mark_never_received_def Let_def delete_conv')

lemma attribute_pops: "map_of (le_purgatory (attribute_order x px c ord L)) (po_id ord) = None"
  by (auto simp: attribute_order_def reconcile_order_def Let_def status_Filled never_pops split: option.split)

lemma attribute_remains: "remains L (attribute_order x px c ord L)"
  by (simp add: attribute_order_def remains_reconcile remains_never)

lemma fold_pops:
  assumes "\<And>ord L. remains L (f ord L)" "\<And>ord L. map_of (le_purgatory (f ord L)) (po_id ord) = None"
  shows "remains L (fold f ords L) \<and> (\<forall>ord \<in> set ords. map_of (le_purgatory (fold f ords L)) (po_id ord) = None)"
proof (induction ords arbitrary: L)
  case (Cons ord ords)
  then have r: "remains (f ord L) (fold f ords (f ord L))" by blast
  with Cons absent_remains [OF r assms(2)] remains_trans [OF assms(1) r] show ?case by auto
qed simp

lemma arbitrate_pops:
  "remains L (arbitrate_symbol tol remaining s x px L) \<and>
   (\<forall>ord \<in> set remaining. po_symbol ord = s \<longrightarrow> map_of (le_purgatory (arbitrate_symbol tol remaining s x px L)) (po_id ord) = None)"
  using fold_pops [of "attribute_order x px (sh_confirmed (get_shadow_position s L))" L "filter (\<lambda>ord. po_symbol ord = s) remaining"]
    fold_pops [of "\<lambda>ord. fst \<circ> mark_never_received (po_id ord)" L "filter (\<lambda>ord. po_symbol ord = s) remaining"]
  by (auto simp: arbitrate_symbol_def Let_def attribute_remains attribute_pops remains_never never_pops)

text \<open>An answered visit: the position query of the symbol returned a readable row, or none for it.\<close>

definition visit_answered :: "position_visit \<Rightarrow> bool" where
  "visit_answered v \<longleftrightarrow> (case pv_reply v of Position_Failed \<Rightarrow> False | Positions ps \<Rightarrow> read_position (pv_symbol v) ps \<noteq> None)"

lemma visit_remains: "(\<forall>ev \<in> set (pv_events v). quiet ev) \<Longrightarrow> remains L (visit_symbol tol remaining v L)"
  using remains_trans [OF remains_events [of "pv_events v" L]] arbitrate_pops remains_events
  by (auto simp: visit_symbol_def Let_def split: position_reply.split option.split)

lemma visit_pops:
  "visit_answered v \<Longrightarrow> ord \<in> set remaining \<Longrightarrow> po_symbol ord = pv_symbol v \<Longrightarrow>
    map_of (le_purgatory (visit_symbol tol remaining v L)) (po_id ord) = None"
  using arbitrate_pops by (auto simp: visit_answered_def visit_symbol_def Let_def split: position_reply.splits option.splits)

lemma visits_pop:
  assumes "\<forall>v \<in> set vs. \<forall>ev \<in> set (pv_events v). quiet ev"
  shows "remains L (fold (visit_symbol tol remaining) vs L) \<and>
    (\<forall>ord \<in> set remaining. (\<exists>v \<in> set vs. visit_answered v \<and> pv_symbol v = po_symbol ord) \<longrightarrow>
      map_of (le_purgatory (fold (visit_symbol tol remaining) vs L)) (po_id ord) = None)"
  using assms
proof (induction vs arbitrary: L)
  case (Cons v vs)
  let ?L = "visit_symbol tol remaining v L"
  have step: "remains L ?L" using Cons.prems by (intro visit_remains) simp
  have IH: "remains ?L (fold (visit_symbol tol remaining) vs ?L)" using Cons by simp
  have "map_of (le_purgatory (fold (visit_symbol tol remaining) vs ?L)) (po_id ord) = None"
    if "ord \<in> set remaining" "visit_answered v" "pv_symbol v = po_symbol ord" for ord
    using absent_remains [OF IH] visit_pops [of v ord remaining] that by simp
  moreover have "map_of (le_purgatory (fold (visit_symbol tol remaining) vs ?L)) (po_id ord) = None"
    if "ord \<in> set remaining" "w \<in> set vs" "visit_answered w" "pv_symbol w = po_symbol ord" for ord w
    using Cons.IH [of ?L] Cons.prems that by auto
  ultimately show ?case using remains_trans [OF step IH] by auto
qed simp

lemma remains_id: "ledger_ok L \<Longrightarrow> remains L L' \<Longrightarrow> map_of (le_purgatory L') cl = Some ord \<Longrightarrow> po_id ord = cl"
  using purgatory_entry [of L cl] by (fastforce simp: remains_def)

lemma no_keys: "(\<And>k. map_of xs k = None) \<Longrightarrow> xs = []"
proof (cases xs)
  case (Cons x ys)
  moreover assume "\<And>k. map_of xs k = None"
  then have "map_of xs (fst x) = None" .
  ultimately show ?thesis by simp
qed

lemma arbitration_clears:
  assumes "ledger_ok L" "remains L L1" "\<forall>v \<in> set vs. \<forall>ev \<in> set (pv_events v). quiet ev"
    "\<forall>ord \<in> set (get_purgatory_orders None L1). \<exists>v \<in> set vs. visit_answered v \<and> pv_symbol v = po_symbol ord"
  shows "le_purgatory (position_arbitration tol vs L1) = []"
proof (cases "le_purgatory L1 = []")
  case False
  let ?rem = "get_purgatory_orders None L1"
  let ?vs = "filter (\<lambda>v. pv_symbol v \<in> set (map po_symbol ?rem)) vs"
  let ?L = "fold (visit_symbol tol ?rem) ?vs L1"
  have pop: "remains L1 ?L"
    "\<And>ord. ord \<in> set ?rem \<Longrightarrow> (\<exists>v \<in> set ?vs. visit_answered v \<and> pv_symbol v = po_symbol ord) \<Longrightarrow> map_of (le_purgatory ?L) (po_id ord) = None"
    using visits_pop [of ?vs L1 tol ?rem] assms(3) by auto
  have "map_of (le_purgatory ?L) cl = None" for cl
  proof (cases "map_of (le_purgatory L1) cl")
    case None
    then show ?thesis using absent_remains [OF pop(1)] by simp
  next
    case (Some ord)
    then have "ord \<in> set ?rem" by (force simp: get_purgatory_orders_def dest!: map_of_SomeD)
    moreover from this obtain v where v: "v \<in> set vs" "visit_answered v" "pv_symbol v = po_symbol ord" using assms(4) by blast
    moreover have "v \<in> set ?vs" using v \<open>ord \<in> set ?rem\<close> by auto
    ultimately show ?thesis using pop(2) [of ord] remains_id [OF assms(1,2) Some] by blast
  qed
  then have "le_purgatory ?L = []" by (rule no_keys)
  with False show ?thesis by (simp add: position_arbitration_def get_purgatory_orders_def)
qed (simp add: position_arbitration_def get_purgatory_orders_def)

text \<open>C23: a reconciliation ends.  If nothing is dispatched meanwhile and the exchange answers the
  position query of every symbol that still has orders, then no order is left in doubt when
  the reconciliation returns - even if every single order query failed until its retries
  were used up - and strikes are limited by the exposure alone.\<close>

theorem reconcile_unlocks:
  assumes "ledger_ok L"
    and "\<And>cl n. \<forall>ev \<in> set (oa_events (ask cl n)). quiet ev"
    and "\<And>L1. \<forall>v \<in> set (visits L1). \<forall>ev \<in> set (pv_events v). quiet ev"
    and "\<And>L1. \<forall>ord \<in> set (get_purgatory_orders None L1). \<exists>v \<in> set (visits L1). visit_answered v \<and> pv_symbol v = po_symbol ord"
    and "reconcile ask visits r L = (r', L', vs)"
  shows "le_purgatory L' = [] \<and> (is_strike_allowed s L' \<longleftrightarrow>
    sum_list (map (\<lambda>(_, h). \<bar>ho_qty h * ho_px h\<bar>) (le_confirmed L')) < le_max_exposure L')"
proof -
  have "le_purgatory L' = []"
  proof (cases "le_purgatory L = []")
    case True
    with assms(5) show ?thesis by (auto simp: reconcile_def get_purgatory_orders_def Let_def)
  next
    case False
    define r1 where "r1 = r\<lparr>rc_total := rc_total r + 1\<rparr>"
    define L1 where "L1 = fst (resolve_all r1 ask (get_purgatory_orders None L) L)"
    have "remains L L1" unfolding L1_def by (rule remains_resolve_all) (rule assms(2))
    then have "le_purgatory (position_arbitration (rc_tolerance r1) (visits L1) L1) = []"
      using assms(3,4) by (intro arbitration_clears [OF assms(1)]) auto
    with False assms(5) show ?thesis
      by (auto simp: reconcile_def Let_def r1_def L1_def get_purgatory_orders_def split: prod.splits)
  qed
  then show ?thesis by (simp add: is_strike_allowed_def get_purgatory_orders_def)
qed

definition ask_nothing :: "string \<Rightarrow> nat \<Rightarrow> order_await" where
  "ask_nothing cl n = \<lparr>oa_events = [], oa_reply = Order_Failed, oa_jitter = 0\<rparr>"

definition visit_flat :: "ledger \<Rightarrow> position_visit list" where
  "visit_flat L = map (\<lambda>ord. \<lparr>pv_symbol = po_symbol ord, pv_events = [], pv_reply = Positions []\<rparr>) (get_purgatory_orders None L)"

theorem reconcile_unlocks_witness:
  "le_purgatory (fst (snd (reconcile ask_nothing visit_flat (reconciler_init 10 (1/2)) demo_ledger))) = []"
proof -
  obtain r' L' vs where "reconcile ask_nothing visit_flat (reconciler_init 10 (1/2)) demo_ledger = (r', L', vs)"
    by (cases "reconcile ask_nothing visit_flat (reconciler_init 10 (1/2)) demo_ledger") auto
  from reconcile_unlocks [OF demo_ledger_ok _ _ _ this, of "''BTC''"] this show ?thesis
    by (auto simp: ask_nothing_def visit_flat_def visit_answered_def)
qed

section \<open>What the arbitration attributes\<close>

text \<open>
  The position the exchange reports against the confirmed one.  Both reads happen before the
  loop over the symbol's orders, so every order is held against the same difference.
\<close>

lemma attribute_more:
  assumes "map_of (le_purgatory L) (po_id ord) = Some ord'" "po_symbol ord' = s" "c < x" "0 < po_qty ord"
  defines "fill \<equiv> min (po_qty ord) (x - c)"
  shows "holding_of (attribute_order x px c ord L) s = merge_holding (po_side ord') fill px (holding_of L s)"
    "le_purgatory (attribute_order x px c ord L) = AList.delete (po_id ord) (le_purgatory L)"
  using assms by (simp_all add: attribute_order_def reconcile_order_def Let_def status_Filled collapse_def holding_merge)

text \<open>The position arbitration counts an unexplained position once for every order in flight.
  If the exchange reports \<open>d\<close> more than is confirmed and \<open>n\<close> buy orders of the symbol could
  each explain it, the confirmed position grows by \<open>n * d\<close>: with one order it becomes exactly
  what the exchange reports, with two it is off by \<open>d\<close>.\<close>

theorem arbitration_double_counts:
  fixes L :: ledger and s :: symbol and x :: flt
  assumes "le_purgatory L = map (\<lambda>ord. (po_id ord, ord)) ords" "distinct (map po_id ords)"
    and "\<forall>ord \<in> set ords. po_symbol ord = s \<and> py_upper (po_side ord) = ''BUY'' \<and> d \<le> po_qty ord"
    and "0 \<le> tol" "tol < d" "0 \<le> ho_qty (holding_of L s)" "x = ho_qty (holding_of L s) + d"
  shows "ho_qty (holding_of (arbitrate_symbol tol (get_purgatory_orders None L) s x px L) s)
    = ho_qty (holding_of L s) + real (length ords) * d"
proof -
  let ?c = "ho_qty (holding_of L s)"
  have rem: "get_purgatory_orders None L = ords" using assms(1) by (simp add: get_purgatory_orders_def comp_def)
  have own: "filter (\<lambda>ord. po_symbol ord = s) ords = ords" using assms(3) by (simp add: filter_id_conv)
  have c: "sh_confirmed (get_shadow_position s L) = ?c" by (simp add: get_shadow_position_def Let_def)
  have "arbitrate_symbol tol ords s x px L = fold (attribute_order x px ?c) ords L"
    using assms(4,5,7) by (simp add: arbitrate_symbol_def Let_def c own)
  moreover have "ho_qty (holding_of (fold (attribute_order x px ?c) os M) s) = ho_qty (holding_of M s) + real (length os) * d"
    if "le_purgatory M = map (\<lambda>ord. (po_id ord, ord)) os" "distinct (map po_id os)" "set os \<subseteq> set ords" for os M
    using that
  proof (induction os arbitrary: M)
    case (Cons ord os)
    let ?M = "attribute_order x px ?c ord M"
    have ord: "map_of (le_purgatory M) (po_id ord) = Some ord" using Cons.prems(1) by simp
    have side: "po_symbol ord = s" "py_upper (po_side ord) = ''BUY''" "d \<le> po_qty ord" using Cons.prems(3) assms(3) by auto
    note a = attribute_more [OF ord side(1), of ?c x px]
    have "po_id ord \<notin> fst ` set (map (\<lambda>ord. (po_id ord, ord)) os)" using Cons.prems(2) by (auto simp: image_image)
    then have "le_purgatory ?M = map (\<lambda>ord. (po_id ord, ord)) os"
      using a(2) Cons.prems(1) assms(4,5,7) side pending_absent by simp
    then have "ho_qty (holding_of (fold (attribute_order x px ?c) os ?M) s) = ho_qty (holding_of ?M s) + real (length os) * d"
      using Cons.prems by (intro Cons.IH) auto
    moreover have "ho_qty (holding_of ?M s) = ho_qty (holding_of M s) + d"
      using a(1) assms(4,5,7) side by (simp add: merge_holding_def Let_def min_def)
    ultimately show ?case by (simp add: algebra_simps)
  qed simp
  ultimately show ?thesis using assms(1,2) rem by simp
qed

definition twins :: ledger where
  "twins = record_dispatch ''b'' ''BTC'' ''BUY'' 3 110 100 1 (record_dispatch ''a'' ''BTC'' ''BUY'' 3 110 100 0 (ledger_init 1000))"

theorem arbitration_double_counts_witness:
  "ho_qty (holding_of (arbitrate_symbol (1 / 10 ^ 8) (get_purgatory_orders None twins) ''BTC'' 2 100 twins) ''BTC'') = 4"
proof -
  have u: "py_upper ''BUY'' = ''BUY''" by code_simp
  have "ho_qty (holding_of twins ''BTC'') = 0" by (simp add: twins_def record_dispatch_def ledger_init_def holding_of_def)
  then show ?thesis
    using arbitration_double_counts [of twins "get_purgatory_orders None twins" "''BTC''" 2 "1 / 10 ^ 8" 2 100]
    by (simp add: twins_def record_dispatch_def ledger_init_def get_purgatory_orders_def u)
qed

end
