(* ===== verification/Tilt.thy ===== *)
theory Tilt
  imports Prelude
begin

text \<open>
  The operator's tilt breaker: \<open>src/src/domain/tilt_breaker.py\<close>, with its three detectors
  (reaction times, click entropy, error streak) and the state machine of the sentinel.
  Python's floats are exact reals.  The lemmas show that the machine moves only along an
  abstract transition relation, that a lock holds until its timer whatever the operator
  does, that expiry starts from a clean slate, and what never happens: the critical state
  is never entered, and blindness is left only by the administrator.
\<close>

section \<open>Reaction times\<close>

record reaction =
  rx_buf :: "flt list"
  rx_head :: nat
  rx_count :: nat
  rx_capacity :: nat
  rx_ewma :: flt
  rx_alpha :: flt
  rx_min :: nat

definition reaction_init :: "nat \<Rightarrow> flt \<Rightarrow> nat \<Rightarrow> reaction" where
  "reaction_init capacity alpha min_samples =
     \<lparr>rx_buf = replicate capacity 0, rx_head = 0, rx_count = 0, rx_capacity = capacity, rx_ewma = 0,
      rx_alpha = alpha, rx_min = min_samples\<rparr>"

definition reaction_record :: "flt \<Rightarrow> reaction \<Rightarrow> reaction" where
  "reaction_record ms r =
     (if \<not> (0 < ms \<and> ms < 30000) then r
      else r\<lparr>rx_buf := (rx_buf r)[rx_head r := ms],
             rx_head := Suc (rx_head r) mod rx_capacity r,
             rx_count := min (Suc (rx_count r)) (rx_capacity r),
             rx_ewma := (if rx_ewma r = 0 then ms else rx_alpha r * ms + (1 - rx_alpha r) * rx_ewma r)\<rparr>)"

text \<open>\<open>(i - k) % n\<close> on Python integers.\<close>

definition back_index :: "nat \<Rightarrow> nat \<Rightarrow> nat \<Rightarrow> nat" where
  "back_index i k n = nat ((int i - int k) mod int n)"

definition reaction_drift :: "reaction \<Rightarrow> flt" where
  "reaction_drift r =
     (if rx_count r < rx_min r then 0
      else if rx_ewma r \<le> 0 then 0
      else \<bar>rx_buf r ! back_index (rx_head r) 1 (rx_capacity r) - rx_ewma r\<bar> / rx_ewma r)"

section \<open>Clicks\<close>

record clicks =
  ck_tokens :: flt
  ck_max :: flt
  ck_rate :: flt
  ck_refilled :: time
  ck_burst :: "flt list"
  ck_head :: nat
  ck_capacity :: nat
  ck_count :: nat
  ck_rapid :: nat
  ck_window :: time

definition clicks_init :: "flt \<Rightarrow> flt \<Rightarrow> nat \<Rightarrow> clicks" where
  "clicks_init max_tokens refill_rate burst_capacity =
     \<lparr>ck_tokens = max_tokens, ck_max = max_tokens, ck_rate = refill_rate, ck_refilled = 0,
      ck_burst = replicate burst_capacity 0, ck_head = 0, ck_capacity = burst_capacity, ck_count = 0,
      ck_rapid = 0, ck_window = 0\<rparr>"

definition record_click :: "time \<Rightarrow> clicks \<Rightarrow> clicks" where
  "record_click now c0 =
     (let c1 = (if ck_refilled c0 = 0 then c0\<lparr>ck_refilled := now\<rparr> else c0);
          c = (if ck_window c1 = 0 then c1\<lparr>ck_window := now\<rparr> else c1);
          elapsed = max 0 (now - ck_refilled c);
          tokens = max 0 (min (ck_max c) (ck_tokens c + elapsed * ck_rate c) - 1);
          stale = (10 < now - ck_window c)
      in c\<lparr>ck_refilled := now, ck_tokens := tokens,
           ck_burst := (ck_burst c)[ck_head c := now],
           ck_head := Suc (ck_head c) mod ck_capacity c,
           ck_count := min (Suc (ck_count c)) (ck_capacity c),
           ck_rapid := Suc (if stale then 0 else ck_rapid c),
           ck_window := (if stale then now else ck_window c)\<rparr>)"

definition burst_count :: "time \<Rightarrow> clicks \<Rightarrow> nat" where
  "burst_count now c =
     length (takeWhile (\<lambda>i. now - ck_burst c ! back_index (ck_head c) (Suc i) (ck_capacity c) \<le> 1/2) [0 ..< ck_count c])"

definition spam_intensity :: "time \<Rightarrow> clicks \<Rightarrow> flt" where
  "spam_intensity now c =
     (let depletion = 1 - ck_tokens c / ck_max c;
          burst_factor = max 0 (real (burst_count now c) - 2) / 3;
          window_elapsed = max (1/10) (now - ck_window c);
          rapid_factor = max 0 (real (ck_rapid c) / window_elapsed - 1/2) / 1
      in depletion * 2 + burst_factor * 3 + rapid_factor)"

definition clicks_reset :: "clicks \<Rightarrow> clicks" where
  "clicks_reset c = c\<lparr>ck_tokens := ck_max c, ck_count := 0, ck_rapid := 0, ck_refilled := 0, ck_window := 0\<rparr>"

section \<open>Errors\<close>

record streak =
  sk_streak :: int
  sk_max :: int

definition streak_init :: streak where "streak_init = \<lparr>sk_streak = 0, sk_max = 0\<rparr>"

definition bad_decision :: "streak \<Rightarrow> streak" where
  "bad_decision s = s\<lparr>sk_streak := sk_streak s + 1, sk_max := max (sk_max s) (sk_streak s + 1)\<rparr>"

definition good_decision :: "streak \<Rightarrow> streak" where
  "good_decision s = s\<lparr>sk_streak := max 0 (sk_streak s - 2)\<rparr>"

definition streak_reset :: "streak \<Rightarrow> streak" where
  "streak_reset s = s\<lparr>sk_streak := 0\<rparr>"

section \<open>The sentinel\<close>

datatype tilt_state = CLEAR | ELEVATED | CRITICAL | LOCKED | COOLDOWN | BLIND

record tilt_metrics =
  tm_drift :: flt
  tm_streak :: int
  tm_spam :: flt
  tm_score :: flt
  tm_state :: tilt_state
  tm_until :: time
  tm_generation :: nat

record sentinel =
  se_reaction :: reaction
  se_clicks :: clicks
  se_errors :: streak
  se_state :: tilt_state
  se_generation :: nat
  se_until :: time
  se_cooldown :: flt
  se_heartbeat :: time
  se_timeout :: flt
  se_weights :: "flt \<times> flt \<times> flt"
  se_elevated :: flt
  se_critical :: flt
  se_clear :: flt

definition new_reaction :: reaction where "new_reaction = reaction_init 20 (15/100) 5"

definition sentinel_init :: "flt \<Rightarrow> flt \<Rightarrow> flt \<times> flt \<times> flt \<Rightarrow> time \<Rightarrow> sentinel" where
  "sentinel_init cooldown timeout weights now =
     \<lparr>se_reaction = new_reaction, se_clicks = clicks_init 5 1 10, se_errors = streak_init, se_state = CLEAR,
      se_generation = 0, se_until = 0, se_cooldown = cooldown, se_heartbeat = now, se_timeout = timeout,
      se_weights = weights, se_elevated = 4/10, se_critical = 7/10, se_clear = 35/100\<rparr>"

definition wipe_trackers :: "sentinel \<Rightarrow> sentinel" where
  "wipe_trackers s =
     s\<lparr>se_reaction := new_reaction, se_clicks := clicks_reset (se_clicks s), se_errors := streak_reset (se_errors s)\<rparr>"

text \<open>Phase 1 of \<open>_evaluate\<close>: a lock becomes a cooldown, an expired cooldown a clean slate.\<close>

definition resolve_lock :: "time \<Rightarrow> sentinel \<Rightarrow> sentinel" where
  "resolve_lock now s0 =
     (let s = (if se_state s0 = LOCKED then s0\<lparr>se_state := COOLDOWN\<rparr> else s0)
      in if se_state s = COOLDOWN \<and> se_until s \<le> now
         then wipe_trackers (s\<lparr>se_state := CLEAR, se_until := 0\<rparr>) else s)"

definition composite :: "flt \<times> flt \<times> flt \<Rightarrow> flt \<Rightarrow> int \<Rightarrow> flt \<Rightarrow> flt" where
  "composite w drift errs spam =
     (case w of (wr, we, ws) \<Rightarrow>
        min 1 (max 0 (wr * min (drift / 2) 1 + we * min (real_of_int errs / 4) 1 + ws * min (spam / 5) 1)))"

definition tilt_score :: "time \<Rightarrow> sentinel \<Rightarrow> flt" where
  "tilt_score now s =
     composite (se_weights s) (reaction_drift (se_reaction s)) (sk_streak (se_errors s)) (spam_intensity now (se_clicks s))"

definition tilt_transition :: "time \<Rightarrow> flt \<Rightarrow> sentinel \<Rightarrow> sentinel" where
  "tilt_transition now score s =
     (if se_state s \<noteq> CLEAR \<and> se_state s \<noteq> ELEVATED then s
      else if se_critical s \<le> score then s\<lparr>se_state := LOCKED, se_until := now + se_cooldown s\<rparr>
      else if se_elevated s \<le> score then s\<lparr>se_state := ELEVATED\<rparr>
      else if score < se_clear s then s\<lparr>se_state := CLEAR\<rparr> else s)"

definition tilt_evaluate :: "time \<Rightarrow> sentinel \<Rightarrow> sentinel \<times> tilt_metrics" where
  "tilt_evaluate now s0 =
     (let s1 = resolve_lock now s0;
          drift = reaction_drift (se_reaction s1); errs = sk_streak (se_errors s1);
          spam = spam_intensity now (se_clicks s1);
          score = composite (se_weights s1) drift errs spam;
          s2 = tilt_transition now score s1;
          s3 = s2\<lparr>se_generation := Suc (se_generation s2)\<rparr>
      in (s3, \<lparr>tm_drift = round_to 4 drift, tm_streak = errs, tm_spam = round_to 4 spam, tm_score = round_to 4 score,
               tm_state = se_state s3, tm_until = se_until s3, tm_generation = se_generation s3\<rparr>))"

definition feed_trackers :: "flt \<Rightarrow> int \<Rightarrow> int \<Rightarrow> int \<Rightarrow> time \<Rightarrow> sentinel \<Rightarrow> sentinel" where
  "feed_trackers reaction_ms click_count error_delta success_delta now s =
     s\<lparr>se_heartbeat := now,
       se_reaction := (if 0 < reaction_ms then reaction_record reaction_ms (se_reaction s) else se_reaction s),
       se_clicks := (record_click now ^^ nat (max 0 (min 1000 click_count))) (se_clicks s),
       se_errors := (good_decision ^^ nat success_delta) ((bad_decision ^^ nat error_delta) (se_errors s))\<rparr>"

definition ingest_heartbeat :: "flt \<Rightarrow> int \<Rightarrow> int \<Rightarrow> int \<Rightarrow> time \<Rightarrow> sentinel \<Rightarrow> sentinel \<times> tilt_metrics" where
  "ingest_heartbeat reaction_ms click_count error_delta success_delta now s =
     tilt_evaluate now (feed_trackers reaction_ms click_count error_delta success_delta now s)"

definition check_blind :: "time \<Rightarrow> sentinel \<Rightarrow> sentinel \<times> bool" where
  "check_blind now s =
     (if se_timeout s < now - se_heartbeat s
      then (if se_state s \<noteq> BLIND then s\<lparr>se_state := BLIND, se_generation := Suc (se_generation s)\<rparr> else s, True)
      else (s, False))"

definition is_execution_allowed :: "sentinel \<Rightarrow> bool" where
  "is_execution_allowed s \<longleftrightarrow> se_state s = CLEAR \<or> se_state s = ELEVATED"

definition force_unlock :: "sentinel \<Rightarrow> sentinel \<times> tilt_metrics" where
  "force_unlock s =
     (let s1 = wipe_trackers (s\<lparr>se_state := CLEAR, se_until := 0, se_generation := Suc (se_generation s)\<rparr>)
      in (s1, \<lparr>tm_drift = 0, tm_streak = 0, tm_spam = 0, tm_score = 0, tm_state = CLEAR, tm_until = 0,
               tm_generation = se_generation s1\<rparr>))"

datatype tilt_event =
    Heartbeat flt int int int time
  | BlindCheck time
  | ForceUnlock

fun tilt_step :: "tilt_event \<Rightarrow> sentinel \<Rightarrow> sentinel" where
  "tilt_step (Heartbeat r c e g now) s = fst (ingest_heartbeat r c e g now s)"
| "tilt_step (BlindCheck now) s = fst (check_blind now s)"
| "tilt_step ForceUnlock s = fst (force_unlock s)"

section \<open>The transitions of the machine\<close>

text \<open>
  What the state machine promises: the moves a heartbeat of a given score may make, with
  the lock's timer.  \<open>expired\<close> says whether the timer has run out.
\<close>

inductive tilt_move :: "bool \<Rightarrow> flt \<Rightarrow> tilt_state \<Rightarrow> tilt_state \<Rightarrow> bool" for expired :: bool and score :: flt where
  locks: "st = CLEAR \<or> st = ELEVATED \<Longrightarrow> 7/10 \<le> score \<Longrightarrow> tilt_move expired score st LOCKED"
| raises: "st = CLEAR \<or> st = ELEVATED \<Longrightarrow> 4/10 \<le> score \<Longrightarrow> score < 7/10 \<Longrightarrow> tilt_move expired score st ELEVATED"
| keeps: "st = CLEAR \<or> st = ELEVATED \<Longrightarrow> 35/100 \<le> score \<Longrightarrow> score < 4/10 \<Longrightarrow> tilt_move expired score st st"
| clears: "st = CLEAR \<or> st = ELEVATED \<Longrightarrow> score < 35/100 \<Longrightarrow> tilt_move expired score st CLEAR"
| cools: "st = LOCKED \<or> st = COOLDOWN \<Longrightarrow> \<not> expired \<Longrightarrow> tilt_move expired score st COOLDOWN"
| frees: "st = LOCKED \<or> st = COOLDOWN \<Longrightarrow> expired \<Longrightarrow> score = 0 \<Longrightarrow> tilt_move expired score st CLEAR"
| stuck: "st = BLIND \<or> st = CRITICAL \<Longrightarrow> tilt_move expired score st st"

inductive_cases tilt_move_lockedE: "tilt_move x score LOCKED st"
inductive_cases tilt_move_blindE: "tilt_move x score BLIND st"
inductive_cases tilt_move_clearE: "tilt_move x score CLEAR st"

definition thresholds_ok :: "sentinel \<Rightarrow> bool" where
  "thresholds_ok s \<longleftrightarrow> se_elevated s = 4/10 \<and> se_critical s = 7/10 \<and> se_clear s = 35/100 \<and> 0 < ck_max (se_clicks s)"

lemma record_click_max: "ck_max (record_click now c) = ck_max c"
  by (simp add: record_click_def Let_def)

lemma record_clicks_max: "ck_max ((record_click now ^^ n) c) = ck_max c"
  by (induction n) (simp_all add: record_click_max)

lemma feed_trackers_frame [simp]:
  "se_state (feed_trackers r c e g now s) = se_state s" "se_until (feed_trackers r c e g now s) = se_until s"
  "se_generation (feed_trackers r c e g now s) = se_generation s" "se_weights (feed_trackers r c e g now s) = se_weights s"
  "se_cooldown (feed_trackers r c e g now s) = se_cooldown s" "se_heartbeat (feed_trackers r c e g now s) = now"
  "thresholds_ok (feed_trackers r c e g now s) = thresholds_ok s"
  by (simp_all add: feed_trackers_def thresholds_ok_def record_clicks_max)

lemma thresholds_step: "thresholds_ok s \<Longrightarrow> thresholds_ok (tilt_step ev s)"
proof (cases ev)
  case (Heartbeat r c e g now)
  assume "thresholds_ok s"
  then have "thresholds_ok (feed_trackers r c e g now s)" by simp
  then show ?thesis
    by (auto simp: Heartbeat ingest_heartbeat_def tilt_evaluate_def tilt_transition_def resolve_lock_def wipe_trackers_def
        thresholds_ok_def clicks_reset_def Let_def)
qed (auto simp: check_blind_def force_unlock_def wipe_trackers_def thresholds_ok_def clicks_reset_def Let_def)

lemma clean_slate:
  assumes "0 < ck_max (se_clicks s)"
  shows "tilt_score now (wipe_trackers s) = 0"
proof -
  have "reaction_drift new_reaction = 0" by (simp add: reaction_drift_def new_reaction_def reaction_init_def)
  moreover have "spam_intensity now (clicks_reset (se_clicks s)) = 0"
    using assms by (simp add: spam_intensity_def clicks_reset_def burst_count_def Let_def)
  ultimately show ?thesis
    by (simp add: tilt_score_def composite_def wipe_trackers_def streak_reset_def split: prod.split)
qed

lemma score_range: "0 \<le> tilt_score now s" "tilt_score now s \<le> 1"
  by (simp_all add: tilt_score_def composite_def split: prod.split)

lemma evaluate_state:
  "fst (tilt_evaluate now s) =
     (let s1 = resolve_lock now s; s2 = tilt_transition now (tilt_score now s1) s1
      in s2\<lparr>se_generation := Suc (se_generation s2)\<rparr>)"
  by (simp add: tilt_evaluate_def tilt_score_def Let_def)

lemma resolve_cases:
  "(se_state s = LOCKED \<or> se_state s = COOLDOWN) \<and> se_until s \<le> now \<and> se_state (resolve_lock now s) = CLEAR
     \<and> (\<exists>s'. resolve_lock now s = wipe_trackers s' \<and> se_clicks s' = se_clicks s \<and> se_weights s' = se_weights s)
   \<or> (se_state s = LOCKED \<or> se_state s = COOLDOWN) \<and> now < se_until s \<and> se_state (resolve_lock now s) = COOLDOWN
     \<and> resolve_lock now s = s\<lparr>se_state := COOLDOWN\<rparr>
   \<or> se_state s \<noteq> LOCKED \<and> se_state s \<noteq> COOLDOWN \<and> resolve_lock now s = s"
  by (auto simp: resolve_lock_def Let_def wipe_trackers_def intro: exI [of _ "s\<lparr>se_state := CLEAR, se_until := 0\<rparr>"])

lemma evaluate_moves:
  assumes "thresholds_ok s"
  shows "\<exists>score. 0 \<le> score \<and> score \<le> 1 \<and> tilt_move (se_until s \<le> now) score (se_state s) (se_state (fst (tilt_evaluate now s)))
    \<and> (se_state s = CLEAR \<or> se_state s = ELEVATED \<longrightarrow> score = tilt_score now s)
    \<and> (se_state (fst (tilt_evaluate now s)) = LOCKED \<longrightarrow> se_until (fst (tilt_evaluate now s)) = now + se_cooldown s)"
proof -
  let ?s = "resolve_lock now s"
  let ?sc = "tilt_score now ?s"
  have th: "se_elevated ?s = 4/10" "se_critical ?s = 7/10" "se_clear ?s = 35/100" "se_cooldown ?s = se_cooldown s"
    using assms by (auto simp: resolve_lock_def wipe_trackers_def thresholds_ok_def Let_def)
  consider (free) "se_state s = LOCKED \<or> se_state s = COOLDOWN" "se_until s \<le> now" "se_state ?s = CLEAR" "?sc = 0"
    | (cool) "se_state s = LOCKED \<or> se_state s = COOLDOWN" "now < se_until s" "se_state ?s = COOLDOWN"
    | (same) "se_state s \<noteq> LOCKED" "se_state s \<noteq> COOLDOWN" "?s = s"
    using resolve_cases [of s now] clean_slate assms unfolding thresholds_ok_def by metis
  then show ?thesis
  proof cases
    case free
    then show ?thesis using th
      by (intro exI [of _ 0]) (auto simp: evaluate_state tilt_transition_def Let_def intro: tilt_move.frees)
  next
    case cool
    then show ?thesis using th
      by (intro exI [of _ 0]) (auto simp: evaluate_state tilt_transition_def Let_def intro: tilt_move.cools)
  next
    case same
    then show ?thesis using th score_range [of now s]
      by (intro exI [of _ "tilt_score now s"], cases "se_state s")
        (auto simp: evaluate_state tilt_transition_def Let_def intro: tilt_move.intros)
  qed
qed

text \<open>C21: every heartbeat moves the sentinel along the abstract machine: from clear or elevated the
  score decides (locking from 0.7, elevating from 0.4, clearing below 0.35, keeping in
  between), a lock or cooldown turns to cooldown before its timer and to clear with a score
  of zero from it on, and blind or critical stays; the score lies between 0 and 1 and the
  generation grows by one.\<close>

theorem tilt_refines_machine:
  fixes r :: flt and c e g :: int and now :: time
  assumes "thresholds_ok s"
  defines "s1 \<equiv> feed_trackers r c e g now s"
  defines "s' \<equiv> fst (ingest_heartbeat r c e g now s)"
  shows "\<exists>score. 0 \<le> score \<and> score \<le> 1 \<and> tilt_move (se_until s \<le> now) score (se_state s) (se_state s')
    \<and> (is_execution_allowed s \<longrightarrow> score = tilt_score now s1)
    \<and> (se_state s' = LOCKED \<longrightarrow> se_until s' = now + se_cooldown s)
    \<and> se_generation s' = Suc (se_generation s)"
proof -
  have "se_generation s' = Suc (se_generation s)"
    by (simp add: s'_def ingest_heartbeat_def evaluate_state Let_def tilt_transition_def resolve_lock_def wipe_trackers_def)
  moreover have "thresholds_ok s1" using assms(1) by (simp add: s1_def)
  note evaluate_moves [OF this, of now]
  ultimately show ?thesis
    by (simp add: s'_def s1_def ingest_heartbeat_def is_execution_allowed_def)
qed

definition demo_sentinel :: sentinel where
  "demo_sentinel = sentinel_init 60 5 (40/100, 35/100, 25/100) 100"

lemma demo_thresholds: "thresholds_ok demo_sentinel"
  by (simp add: demo_sentinel_def sentinel_init_def thresholds_ok_def clicks_init_def)

theorem tilt_refines_machine_witness:
  "\<exists>score. 0 \<le> score \<and> score \<le> 1
     \<and> tilt_move True score CLEAR (se_state (fst (ingest_heartbeat 0 0 4 0 101 demo_sentinel)))"
  using tilt_refines_machine [OF demo_thresholds, of 101 0 0 4 0]
  by (auto simp: demo_sentinel_def sentinel_init_def)

section \<open>A lock holds\<close>

fun before :: "time \<Rightarrow> tilt_event \<Rightarrow> bool" where
  "before u (Heartbeat r c e g now) \<longleftrightarrow> now < u"
| "before u (BlindCheck now) \<longleftrightarrow> True"
| "before u ForceUnlock \<longleftrightarrow> False"

definition locked_out :: "time \<Rightarrow> sentinel \<Rightarrow> bool" where
  "locked_out u s \<longleftrightarrow> se_until s = u \<and> se_state s \<in> {LOCKED, COOLDOWN, BLIND}"

lemma locked_out_step: "locked_out u s \<Longrightarrow> before u ev \<Longrightarrow> locked_out u (tilt_step ev s)"
  by (cases ev)
    (auto simp: locked_out_def ingest_heartbeat_def evaluate_state Let_def resolve_lock_def tilt_transition_def check_blind_def)

text \<open>Once locked until some time, no sequence of heartbeats read before that time and of
  blindness checks lets an execution through, whatever the operator's clicks and results;
  only the timer or the administrator ends it.\<close>

theorem lock_holds:
  assumes "se_state s = LOCKED" "list_all (before (se_until s)) evs"
  shows "\<not> is_execution_allowed (fold tilt_step evs s) \<and> se_until (fold tilt_step evs s) = se_until s"
proof -
  have "locked_out (se_until s) (fold tilt_step evs s)"
    using assms by (intro fold_inv [where P = "locked_out (se_until s)"] locked_out_step) (auto simp: locked_out_def list_all_iff)
  then show ?thesis by (auto simp: locked_out_def is_execution_allowed_def)
qed

theorem lock_holds_witness:
  "\<not> is_execution_allowed (fold tilt_step [Heartbeat 200 0 0 9 110, BlindCheck 150, Heartbeat 0 0 0 9 159]
      (demo_sentinel\<lparr>se_state := LOCKED, se_until := 160\<rparr>))"
  using lock_holds [of "demo_sentinel\<lparr>se_state := LOCKED, se_until := 160\<rparr>"
      "[Heartbeat 200 0 0 9 110, BlindCheck 150, Heartbeat 0 0 0 9 159]"] by simp

section \<open>Where the machine gets stuck\<close>

lemma never_critical_step: "se_state s \<noteq> CRITICAL \<Longrightarrow> se_state (tilt_step ev s) \<noteq> CRITICAL"
  by (cases ev)
    (auto simp: ingest_heartbeat_def evaluate_state Let_def resolve_lock_def tilt_transition_def check_blind_def
      force_unlock_def wipe_trackers_def)

lemma blind_step: "se_state s = BLIND \<Longrightarrow> ev \<noteq> ForceUnlock \<Longrightarrow> se_state (tilt_step ev s) = BLIND"
  by (cases ev) (auto simp: ingest_heartbeat_def evaluate_state Let_def resolve_lock_def tilt_transition_def check_blind_def)

text \<open>No history reaches the critical state, and a sentinel that went blind once stays blind,
  and forbids every execution, whatever heartbeats follow, until the administrator unlocks
  it: a reconnected operator is not seen again.\<close>

theorem blind_needs_unlock:
  assumes "se_state s = BLIND" "ForceUnlock \<notin> set evs"
  shows "se_state (fold tilt_step evs s) = BLIND \<and> \<not> is_execution_allowed (fold tilt_step evs s)
    \<and> se_state (fold tilt_step evs' (sentinel_init cooldown timeout weights now)) \<noteq> CRITICAL"
proof -
  have "se_state (fold tilt_step evs s) = BLIND"
    using assms by (intro fold_inv [where P = "\<lambda>s. se_state s = BLIND"]) (auto intro: blind_step)
  moreover have "se_state (fold tilt_step evs' (sentinel_init cooldown timeout weights now)) \<noteq> CRITICAL"
    by (rule fold_inv [where P = "\<lambda>s. se_state s \<noteq> CRITICAL"])
      (simp add: sentinel_init_def, erule never_critical_step)
  ultimately show ?thesis by (simp add: is_execution_allowed_def)
qed

theorem blind_needs_unlock_witness:
  "se_state (fold tilt_step [Heartbeat 300 1 0 1 107, Heartbeat 300 0 0 0 108] (fst (check_blind 106 demo_sentinel))) = BLIND"
  using blind_needs_unlock [of "fst (check_blind 106 demo_sentinel)" "[Heartbeat 300 1 0 1 107, Heartbeat 300 0 0 0 108]"]
  by (simp add: check_blind_def demo_sentinel_def sentinel_init_def)

end
