(* ===== verification/Intent_Gate.thy ===== *)
theory Intent_Gate
  imports Tilt "HOL-Library.AList"
begin

text \<open>
  The gate between the operator and an execution: versioned intents
  (\<open>src/src/domain/intent_ledger.py\<close>), signed capsules
  (\<open>src/src/domain/intent_capsule.py\<close>) and the gate that asks both and the cognitive
  sentinel (\<open>src/src/application/operator_gate.py\<close>).

  HMAC-SHA256 is the argument \<open>mac\<close>, a function of the session key and the message; the
  random bytes (keys, session ids, nonces) are arguments of the operations that draw them.
  A capsule that an operator sends is any capsule.  The rejection reasons are a datatype:
  the code renders the same data as text.
\<close>

section \<open>Versioned intents\<close>

record active_intent =
  in_version :: int
  in_symbol :: symbol
  in_side :: string
  in_price :: flt
  in_qty :: flt
  in_msq :: "(int \<times> int) option"
  in_emitted :: time
  in_ttl :: flt
  in_revoked :: bool
  in_reason :: string

record intent_ledger =
  il_version :: int
  il_active :: "active_intent option"
  il_callback :: bool
  il_revokes :: int
  il_stale :: int

type_synonym revoke_push = "int \<times> symbol \<times> string"

definition intents_init :: "bool \<Rightarrow> intent_ledger" where
  "intents_init callback = \<lparr>il_version = 0, il_active = None, il_callback = callback, il_revokes = 0, il_stale = 0\<rparr>"

definition emit_intent :: "symbol \<Rightarrow> string \<Rightarrow> flt \<Rightarrow> flt \<Rightarrow> (int \<times> int) option \<Rightarrow> flt \<Rightarrow> time \<Rightarrow> intent_ledger \<Rightarrow> intent_ledger \<times> int" where
  "emit_intent s side price qty msq ttl now L =
     (let v = il_version L + 1
      in (L\<lparr>il_version := v,
            il_active := Some \<lparr>in_version = v, in_symbol = s, in_side = side, in_price = price, in_qty = qty, in_msq = msq,
              in_emitted = now, in_ttl = ttl, in_revoked = False, in_reason = ''''\<rparr>\<rparr>, v))"

definition revoke :: "string \<Rightarrow> intent_ledger \<Rightarrow> intent_ledger \<times> revoke_push list" where
  "revoke reason L =
     (case il_active L of
        None \<Rightarrow> (L, [])
      | Some a \<Rightarrow>
          if in_revoked a then (L, [])
          else (L\<lparr>il_active := Some (a\<lparr>in_revoked := True, in_reason := reason\<rparr>), il_revokes := il_revokes L + 1,
                  il_version := il_version L + 1\<rparr>,
                if il_callback L then [(in_version a, in_symbol a, reason)] else []))"

definition stale_click :: "intent_ledger \<Rightarrow> intent_ledger" where
  "stale_click L = L\<lparr>il_stale := il_stale L + 1\<rparr>"

definition validate_click :: "int \<Rightarrow> time \<Rightarrow> intent_ledger \<Rightarrow> intent_ledger \<times> active_intent option \<times> revoke_push list" where
  "validate_click v now L =
     (case il_active L of
        None \<Rightarrow> (stale_click L, None, [])
      | Some a \<Rightarrow>
          if v \<noteq> in_version a then (stale_click L, None, [])
          else if in_revoked a then (stale_click L, None, [])
          else if in_ttl a < now - in_emitted a then
            let (L', pushes) = revoke ''TTL_EXPIRED'' (stale_click L) in (L', None, pushes)
          else (L, Some a, []))"

definition has_active_intent :: "time \<Rightarrow> intent_ledger \<Rightarrow> bool" where
  "has_active_intent now L =
     (case il_active L of None \<Rightarrow> False
      | Some a \<Rightarrow> if in_revoked a then False else now - in_emitted a \<le> in_ttl a)"

section \<open>Signed capsules\<close>

record capsule =
  ca_signal :: string
  ca_symbol :: symbol
  ca_side :: string
  ca_tilt_gen :: int
  ca_nonce :: string
  ca_issued :: time
  ca_signature :: string

datatype reject_reason =
    HMAC_INVALID
  | NONCE_REPLAY
  | TTL_EXPIRED flt flt
  | CLOCK_MANIPULATION
  | TILT_GEN_MISMATCH int int
  | TILT_LOCKED
  | INTENT_INVALID

record capsule_verdict =
  cv_allowed :: bool
  cv_reason :: "reject_reason option"
  cv_signal :: string

type_synonym mac = "string \<Rightarrow> string \<Rightarrow> string"

record forge =
  fo_key :: string
  fo_session :: string

definition new_forge :: "string \<Rightarrow> string \<Rightarrow> forge" where
  "new_forge key session = \<lparr>fo_key = key, fo_session = session\<rparr>"

definition rotate_key :: "string \<Rightarrow> string \<Rightarrow> forge \<Rightarrow> forge" where
  "rotate_key key session f = f\<lparr>fo_key := key, fo_session := session\<rparr>"

text \<open>\<open>f"{mono:.6f}"\<close>: six decimals, the integer part unpadded.\<close>

definition pad6 :: "nat \<Rightarrow> string" where
  "pad6 k = replicate (6 - length (nat_text k)) (CHR ''0'') @ nat_text k"

definition fixed6 :: "flt \<Rightarrow> string" where
  "fixed6 x =
     (let k = nat \<bar>round_half_even (x * 10 ^ 6)\<bar>
      in (if x < 0 then ''-'' else '''') @ nat_text (k div 10 ^ 6) @ ''.'' @ pad6 (k mod 10 ^ 6))"

definition build_message :: "string \<Rightarrow> symbol \<Rightarrow> string \<Rightarrow> int \<Rightarrow> string \<Rightarrow> time \<Rightarrow> string" where
  "build_message sig s side gen nonce t =
     sig @ ''|'' @ s @ ''|'' @ side @ ''|'' @ int_text gen @ ''|'' @ nonce @ ''|'' @ fixed6 t"

definition forge_issue :: "mac \<Rightarrow> string \<Rightarrow> string \<Rightarrow> symbol \<Rightarrow> string \<Rightarrow> int \<Rightarrow> time \<Rightarrow> forge \<Rightarrow> capsule" where
  "forge_issue mac nonce sig s side gen now f =
     \<lparr>ca_signal = sig, ca_symbol = s, ca_side = side, ca_tilt_gen = gen, ca_nonce = nonce, ca_issued = now,
      ca_signature = mac (fo_key f) (build_message sig s side gen nonce now)\<rparr>"

definition message_of :: "capsule \<Rightarrow> string" where
  "message_of c = build_message (ca_signal c) (ca_symbol c) (ca_side c) (ca_tilt_gen c) (ca_nonce c) (ca_issued c)"

definition verify_signature :: "mac \<Rightarrow> forge \<Rightarrow> capsule \<Rightarrow> bool" where
  "verify_signature mac f c \<longleftrightarrow> mac (fo_key f) (message_of c) = ca_signature c"

record validator =
  va_used :: "string set"
  va_order :: "string list"
  va_cache :: nat
  va_ttl :: flt
  va_rejections :: int
  va_reasons :: "(string \<times> int) list"

definition validator_init :: "flt \<Rightarrow> nat \<Rightarrow> validator" where
  "validator_init ttl cache =
     \<lparr>va_used = {}, va_order = [], va_cache = cache, va_ttl = ttl, va_rejections = 0, va_reasons = []\<rparr>"

fun base_reason :: "reject_reason \<Rightarrow> string" where
  "base_reason HMAC_INVALID = ''HMAC_INVALID''"
| "base_reason NONCE_REPLAY = ''NONCE_REPLAY''"
| "base_reason (TTL_EXPIRED age ttl) = ''TTL_EXPIRED''"
| "base_reason CLOCK_MANIPULATION = ''CLOCK_MANIPULATION''"
| "base_reason (TILT_GEN_MISMATCH c g) = ''TILT_GEN_MISMATCH''"
| "base_reason TILT_LOCKED = ''TILT_LOCKED''"
| "base_reason INTENT_INVALID = ''INTENT_INVALID''"

definition reject :: "reject_reason \<Rightarrow> string \<Rightarrow> validator \<Rightarrow> validator \<times> capsule_verdict" where
  "reject reason sig V =
     (let b = base_reason reason;
          n = (case map_of (va_reasons V) b of None \<Rightarrow> 0 | Some k \<Rightarrow> k)
      in (V\<lparr>va_rejections := va_rejections V + 1, va_reasons := AList.update b (n + 1) (va_reasons V)\<rparr>,
          \<lparr>cv_allowed = False, cv_reason = Some reason, cv_signal = sig\<rparr>))"

text \<open>The eviction loop; an empty order with a full set would raise, and never happens.\<close>

fun evict :: "nat \<Rightarrow> string set \<Rightarrow> string list \<Rightarrow> string set \<times> string list" where
  "evict cap used [] = (used, [])"
| "evict cap used (oldest # order) =
     (if cap < card used then evict cap (used - {oldest}) order else (used, oldest # order))"

definition consume_nonce :: "string \<Rightarrow> validator \<Rightarrow> validator" where
  "consume_nonce nonce V =
     (let (used, order) = evict (va_cache V) (insert nonce (va_used V)) (va_order V @ [nonce])
      in V\<lparr>va_used := used, va_order := order\<rparr>)"

definition capsule_validate :: "mac \<Rightarrow> forge \<Rightarrow> sentinel \<Rightarrow> capsule \<Rightarrow> int \<Rightarrow> time \<Rightarrow> validator \<Rightarrow> validator \<times> capsule_verdict" where
  "capsule_validate mac f sen c gen now V =
     (let sig = ca_signal c; age = now - ca_issued c
      in if \<not> verify_signature mac f c then reject HMAC_INVALID sig V
         else if ca_nonce c \<in> va_used V then reject NONCE_REPLAY sig V
         else if va_ttl V < age then reject (TTL_EXPIRED age (va_ttl V)) sig V
         else if age < - (1/10) then reject CLOCK_MANIPULATION sig V
         else if ca_tilt_gen c \<noteq> gen then reject (TILT_GEN_MISMATCH (ca_tilt_gen c) gen) sig V
         else if \<not> is_execution_allowed sen then reject TILT_LOCKED sig V
         else (consume_nonce (ca_nonce c) V, \<lparr>cv_allowed = True, cv_reason = None, cv_signal = sig\<rparr>))"

section \<open>The operator gate\<close>

text \<open>The sentinel and the intents are shared with the rest of the program; the gate's state carries them.\<close>

record operator_gate =
  og_forge :: forge
  og_validator :: validator
  og_sentinel :: sentinel
  og_intents :: intent_ledger
  og_issued :: int
  og_executed :: int

definition operator_gate_init :: "string \<Rightarrow> string \<Rightarrow> sentinel \<Rightarrow> intent_ledger \<Rightarrow> flt \<Rightarrow> operator_gate" where
  "operator_gate_init key session sen intents ttl =
     \<lparr>og_forge = new_forge key session, og_validator = validator_init ttl 10000, og_sentinel = sen, og_intents = intents,
      og_issued = 0, og_executed = 0\<rparr>"

definition issue_capsule :: "mac \<Rightarrow> string \<Rightarrow> string \<Rightarrow> symbol \<Rightarrow> string \<Rightarrow> time \<Rightarrow> operator_gate \<Rightarrow> operator_gate \<times> capsule" where
  "issue_capsule mac nonce sig s side now G =
     (G\<lparr>og_issued := og_issued G + 1\<rparr>,
      forge_issue mac nonce sig s side (se_generation (og_sentinel G)) now (og_forge G))"

definition validate_execution :: "mac \<Rightarrow> capsule \<Rightarrow> int \<Rightarrow> time \<Rightarrow> time \<Rightarrow> operator_gate \<Rightarrow> operator_gate \<times> capsule_verdict \<times> revoke_push list" where
  "validate_execution mac c version now click_now G =
     (let (V, verdict) = capsule_validate mac (og_forge G) (og_sentinel G) c (se_generation (og_sentinel G)) now (og_validator G);
          G1 = G\<lparr>og_validator := V\<rparr>
      in if \<not> cv_allowed verdict then (G1, verdict, [])
         else let (L, intent, pushes) = validate_click version click_now (og_intents G1);
                  G2 = G1\<lparr>og_intents := L\<rparr>
              in case intent of
                   None \<Rightarrow> (G2, \<lparr>cv_allowed = False, cv_reason = Some INTENT_INVALID, cv_signal = ca_signal c\<rparr>, pushes)
                 | Some a \<Rightarrow> (G2\<lparr>og_executed := og_executed G2 + 1\<rparr>,
                     \<lparr>cv_allowed = True, cv_reason = None, cv_signal = ca_signal c\<rparr>, pushes))"

definition rotate_session :: "string \<Rightarrow> string \<Rightarrow> operator_gate \<Rightarrow> operator_gate" where
  "rotate_session key session G = G\<lparr>og_forge := rotate_key key session (og_forge G)\<rparr>"

section \<open>Stale clicks\<close>

datatype intent_event =
    Emit symbol string flt flt "(int \<times> int) option" flt time
  | Revoke string
  | Click int time

fun intent_step :: "intent_event \<Rightarrow> intent_ledger \<Rightarrow> intent_ledger" where
  "intent_step (Emit s side price qty msq ttl now) L = fst (emit_intent s side price qty msq ttl now L)"
| "intent_step (Revoke reason) L = fst (revoke reason L)"
| "intent_step (Click v now) L = fst (validate_click v now L)"

text \<open>A version is dead when no later click on it can be accepted: it was issued, and it is not the live one.\<close>

definition dead :: "int \<Rightarrow> intent_ledger \<Rightarrow> bool" where
  "dead v L \<longleftrightarrow> v \<le> il_version L
     \<and> (case il_active L of None \<Rightarrow> True | Some a \<Rightarrow> in_version a \<noteq> v \<or> in_revoked a)"

definition intents_ok :: "intent_ledger \<Rightarrow> bool" where
  "intents_ok L \<longleftrightarrow> (case il_active L of None \<Rightarrow> True | Some a \<Rightarrow> in_version a \<le> il_version L)"

lemmas intent_defs = emit_intent_def revoke_def validate_click_def stale_click_def Let_def

lemma intents_ok_step: "intents_ok L \<Longrightarrow> intents_ok (intent_step ev L)"
  by (cases ev) (auto simp: intents_ok_def intent_defs split: option.splits)

lemma dead_step: "dead v L \<Longrightarrow> dead v (intent_step ev L)"
  by (cases ev) (auto simp: dead_def intent_defs split: option.splits)

lemma dead_run: "dead v L \<Longrightarrow> dead v (fold intent_step evs L)"
  by (rule fold_inv) (auto intro: dead_step)

lemma dead_rejected: "dead v L \<Longrightarrow> fst (snd (validate_click v now L)) = None"
  by (auto simp: dead_def intent_defs split: option.splits)

lemma revoke_kills: "v \<le> il_version L \<Longrightarrow> dead v (fst (revoke reason L))"
  by (auto simp: dead_def revoke_def split: option.split)

lemma emit_kills: "v \<le> il_version L \<Longrightarrow> dead v (fst (emit_intent s side price qty msq ttl now L))"
  by (simp add: dead_def emit_intent_def Let_def)

lemma expiry_kills:
  "il_active L = Some a \<Longrightarrow> in_version a = v \<Longrightarrow> v \<le> il_version L \<Longrightarrow> in_ttl a < now - in_emitted a \<Longrightarrow>
    dead v (fst (validate_click v now L))"
  by (cases "in_revoked a") (auto simp: validate_click_def stale_click_def revoke_def dead_def Let_def)

text \<open>Ghost clicks are rejected.  After the current intent is revoked, after a newer one is
  emitted, and after a click found it past its time to live, a click on the version of that
  intent, or on any earlier one, is rejected for ever, however many intents are emitted,
  revoked and clicked in between.\<close>

theorem ghost_clicks_rejected:
  assumes "intents_ok L" "il_active L = Some a" "v \<le> in_version a"
    and "ev = Revoke reason \<or> ev = Emit s side price qty msq ttl now \<or> ev = Click v now \<and> v = in_version a \<and> in_ttl a < now - in_emitted a"
  shows "fst (snd (validate_click v t (fold intent_step evs (intent_step ev L)))) = None"
proof -
  have v: "v \<le> il_version L" using assms by (simp add: intents_ok_def)
  then have "dead v (intent_step ev L)"
    using assms expiry_kills [OF assms(2)] by (auto intro: revoke_kills emit_kills)
  then show ?thesis by (intro dead_rejected dead_run)
qed

theorem ghost_clicks_rejected_witness:
  "fst (snd (validate_click 1 2 (fold intent_step [Emit ''ETH'' ''Buy'' 10 1 None 5 2]
     (intent_step (Revoke ''MACRO'') (fst (emit_intent ''BTC'' ''Buy'' 100 1 None 5 0 (intents_init True))))))) = None"
  by (rule ghost_clicks_rejected [where reason = "''MACRO''"]) (auto simp: emit_intent_def intents_init_def intents_ok_def Let_def)

section \<open>What a signature binds\<close>

abbreviation bar :: char where "bar \<equiv> CHR ''|''"

lemma bar_count_text: "bar \<notin> set (nat_text n)" "bar \<notin> set (int_text k)" "bar \<notin> set (fixed6 x)"
  using nat_text_digits [of bar] by (auto simp: int_text_def fixed6_def pad6_def Let_def)

lemma split_bar: "bar \<notin> set a \<Longrightarrow> bar \<notin> set b \<Longrightarrow> a @ bar # x = b @ bar # y \<longleftrightarrow> a = b \<and> x = y"
proof (induction a arbitrary: b)
  case Nil
  then show ?case by (cases b) auto
next
  case (Cons c a)
  then show ?case by (cases b) auto
qed

lemma bars_zero: "count_list s bar = 0 \<longleftrightarrow> bar \<notin> set s"
  by (simp add: count_list_0_iff)

lemma message_bars:
  "count_list (build_message sig s side gen nonce t) bar
    = 5 + count_list sig bar + count_list s bar + count_list side bar + count_list nonce bar"
  using bar_count_text by (simp add: build_message_def count_notin)

lemma build_message_inj:
  assumes "build_message sig s side gen nonce t = build_message sig' s' side' gen' nonce' t'"
    and "bar \<notin> set (sig @ s @ side @ nonce)"
  shows "sig = sig' \<and> s = s' \<and> side = side' \<and> gen = gen' \<and> nonce = nonce' \<and> fixed6 t = fixed6 t'"
proof -
  have "count_list sig' bar + count_list s' bar + count_list side' bar + count_list nonce' bar
      = count_list sig bar + count_list s bar + count_list side bar + count_list nonce bar"
    using arg_cong [OF assms(1), of "\<lambda>m. count_list m bar"] by (simp add: message_bars)
  also have "\<dots> = 0" using assms(2) by (simp add: bars_zero [symmetric])
  finally have "bar \<notin> set sig'" "bar \<notin> set s'" "bar \<notin> set side'" "bar \<notin> set nonce'"
    by (simp_all add: bars_zero [symmetric])
  with assms show ?thesis
    by (simp add: build_message_def split_bar bar_count_text int_text_inj)
qed


definition demo_mac :: mac where
  "demo_mac key msg = key @ msg"


section \<open>The approval of an execution\<close>

lemma evict_id: "card used \<le> cap \<Longrightarrow> evict cap used order = (used, order)"
  by (cases order) auto

text \<open>The invariant of the nonce cache: the order lists the set without repetition, within the bound.\<close>

definition nonces_ok :: "validator \<Rightarrow> bool" where
  "nonces_ok V \<longleftrightarrow> set (va_order V) = va_used V \<and> distinct (va_order V) \<and> length (va_order V) \<le> va_cache V"

lemma consume_eq:
  assumes "nonces_ok V" "nonce \<notin> va_used V" "0 < va_cache V"
  shows "va_order (consume_nonce nonce V) = lastn (va_cache V) (va_order V @ [nonce])"
    "va_used (consume_nonce nonce V) = set (lastn (va_cache V) (va_order V @ [nonce]))"
    "va_cache (consume_nonce nonce V) = va_cache V"
proof -
  have c: "card (insert nonce (va_used V)) = Suc (length (va_order V))"
    using assms by (simp add: nonces_ok_def distinct_card [symmetric] del: distinct_card) (metis List.finite_set card_insert_disjoint distinct_card)
  consider "Suc (length (va_order V)) \<le> va_cache V" | "length (va_order V) = va_cache V"
    using assms(1) by (fastforce simp: nonces_ok_def)
  then have "evict (va_cache V) (insert nonce (va_used V)) (va_order V @ [nonce])
    = (set (lastn (va_cache V) (va_order V @ [nonce])), lastn (va_cache V) (va_order V @ [nonce]))"
  proof cases
    case 1
    with c assms(1) show ?thesis by (simp add: evict_id nonces_ok_def)
  next
    case 2
    then obtain x order where o: "va_order V = x # order" using assms(3) by (cases "va_order V") auto
    have x: "x \<in> va_used V" "x \<noteq> nonce" "x \<notin> set order" using assms(1,2) o by (auto simp: nonces_ok_def)
    have "card (insert nonce (va_used V) - {x}) = va_cache V" using c 2 x by simp
    then have "evict (va_cache V) (insert nonce (va_used V)) (va_order V @ [nonce]) = (insert nonce (va_used V) - {x}, order @ [nonce])"
      using o c 2 by (simp add: evict_id)
    moreover have "insert nonce (va_used V) - {x} = set (order @ [nonce])"
      using assms(1) o x by (auto simp: nonces_ok_def)
    moreover have "lastn (va_cache V) (va_order V @ [nonce]) = order @ [nonce]"
      using o 2 by (simp add: lastn_def)
    ultimately show ?thesis by simp
  qed
  then show "va_order (consume_nonce nonce V) = lastn (va_cache V) (va_order V @ [nonce])"
    "va_used (consume_nonce nonce V) = set (lastn (va_cache V) (va_order V @ [nonce]))"
    "va_cache (consume_nonce nonce V) = va_cache V"
    by (simp_all add: consume_nonce_def)
qed

lemmas validate_defs = capsule_validate_def reject_def Let_def

lemma validate_passes: "cv_allowed (snd (capsule_validate mac f sen c gen now V)) \<longleftrightarrow>
    verify_signature mac f c \<and> ca_nonce c \<notin> va_used V \<and> now - ca_issued c \<le> va_ttl V \<and> - (1/10) \<le> now - ca_issued c
    \<and> ca_tilt_gen c = gen \<and> is_execution_allowed sen"
  by (auto simp: validate_defs)

lemma validate_state: "cv_allowed (snd (capsule_validate mac f sen c gen now V)) \<Longrightarrow>
    fst (capsule_validate mac f sen c gen now V) = consume_nonce (ca_nonce c) V"
  by (auto simp: validate_defs split: if_splits)

lemma validate_frame: "\<not> cv_allowed (snd (capsule_validate mac f sen c gen now V)) \<Longrightarrow>
    va_used (fst (capsule_validate mac f sen c gen now V)) = va_used V
    \<and> va_order (fst (capsule_validate mac f sen c gen now V)) = va_order V
    \<and> va_cache (fst (capsule_validate mac f sen c gen now V)) = va_cache V"
  by (auto simp: validate_defs split: if_splits)

lemma execution_validator:
  "og_validator (fst (validate_execution mac c v now click_now G)) =
     fst (capsule_validate mac (og_forge G) (og_sentinel G) c (se_generation (og_sentinel G)) now (og_validator G))"
  by (auto simp: validate_execution_def Let_def split: prod.split option.split)

lemma execution_frame [simp]:
  "og_sentinel (fst (validate_execution mac c v now click_now G)) = og_sentinel G"
  "og_forge (fst (validate_execution mac c v now click_now G)) = og_forge G"
  by (auto simp: validate_execution_def Let_def split: prod.split option.split)

lemma click_accepts: "fst (snd (validate_click v t L)) = Some a \<longleftrightarrow>
    il_active L = Some a \<and> in_version a = v \<and> \<not> in_revoked a \<and> t - in_emitted a \<le> in_ttl a"
  by (auto simp: validate_click_def Let_def split_beta split: option.split)

lemma execution_approved_aux:
  "cv_allowed (fst (snd (validate_execution mac c v now click_now G))) =
    (verify_signature mac (og_forge G) c \<and> ca_nonce c \<notin> va_used (og_validator G)
      \<and> now - ca_issued c \<le> va_ttl (og_validator G) \<and> - (1/10) \<le> now - ca_issued c
      \<and> ca_tilt_gen c = se_generation (og_sentinel G) \<and> is_execution_allowed (og_sentinel G)
      \<and> (\<exists>a. il_active (og_intents G) = Some a \<and> in_version a = v \<and> \<not> in_revoked a \<and> click_now - in_emitted a \<le> in_ttl a))
   \<and> og_executed (fst (validate_execution mac c v now click_now G)) =
      og_executed G + (if cv_allowed (fst (snd (validate_execution mac c v now click_now G))) then 1 else 0)"
proof -
  obtain V verdict where val: "capsule_validate mac (og_forge G) (og_sentinel G) c (se_generation (og_sentinel G)) now (og_validator G) = (V, verdict)"
    by (cases "capsule_validate mac (og_forge G) (og_sentinel G) c (se_generation (og_sentinel G)) now (og_validator G)") auto
  obtain L intent pushes where click: "validate_click v click_now (og_intents G) = (L, intent, pushes)"
    by (cases "validate_click v click_now (og_intents G)") auto
  have "cv_allowed (fst (snd (validate_execution mac c v now click_now G))) \<longleftrightarrow> cv_allowed verdict \<and> intent \<noteq> None"
    "og_executed (fst (validate_execution mac c v now click_now G)) = og_executed G + (if cv_allowed verdict \<and> intent \<noteq> None then 1 else 0)"
    by (cases "cv_allowed verdict"; cases intent; simp add: validate_execution_def val click Let_def)+
  moreover have "intent = Some a \<longleftrightarrow> il_active (og_intents G) = Some a \<and> in_version a = v \<and> \<not> in_revoked a \<and> click_now - in_emitted a \<le> in_ttl a" for a
    using click_accepts [of v click_now "og_intents G" a] click by simp
  moreover note validate_passes [of mac "og_forge G" "og_sentinel G" c "se_generation (og_sentinel G)" now "og_validator G", unfolded val snd_conv]
  ultimately show ?thesis by (cases intent) auto
qed

text \<open>An execution is approved exactly when every check holds: the capsule carries this session's
  signature, its nonce was not used, its age is within the time to live and not negative
  beyond the tolerance, the tilt generation is still the one of its issue, the sentinel
  allows execution, and the clicked version is the live intent, neither revoked nor
  expired.  Only then is the execution counted.\<close>

theorem execution_approved_iff:
  "cv_allowed (fst (snd (validate_execution mac c v now click_now G))) =
    (verify_signature mac (og_forge G) c \<and> ca_nonce c \<notin> va_used (og_validator G)
      \<and> now - ca_issued c \<le> va_ttl (og_validator G) \<and> - (1/10) \<le> now - ca_issued c
      \<and> ca_tilt_gen c = se_generation (og_sentinel G) \<and> is_execution_allowed (og_sentinel G)
      \<and> (\<exists>a. il_active (og_intents G) = Some a \<and> in_version a = v \<and> \<not> in_revoked a \<and> click_now - in_emitted a \<le> in_ttl a))
   \<and> og_executed (fst (validate_execution mac c v now click_now G)) =
      og_executed G + (if cv_allowed (fst (snd (validate_execution mac c v now click_now G))) then 1 else 0)"
  by (rule execution_approved_aux)

section \<open>Runs of the gate\<close>

datatype op_gate_event =
    Gate_tilt tilt_event
  | Gate_intent intent_event
  | Gate_issue string string symbol string time
  | Gate_execute capsule int time time
  | Gate_rotate string string

fun op_gate_step :: "mac \<Rightarrow> op_gate_event \<Rightarrow> operator_gate \<Rightarrow> operator_gate" where
  "op_gate_step mac (Gate_tilt ev) G = G\<lparr>og_sentinel := tilt_step ev (og_sentinel G)\<rparr>"
| "op_gate_step mac (Gate_intent ev) G = G\<lparr>og_intents := intent_step ev (og_intents G)\<rparr>"
| "op_gate_step mac (Gate_issue nonce sig s side now) G = fst (issue_capsule mac nonce sig s side now G)"
| "op_gate_step mac (Gate_execute c v now click_now) G = fst (validate_execution mac c v now click_now G)"
| "op_gate_step mac (Gate_rotate key session) G = rotate_session key session G"

fun executes :: "op_gate_event \<Rightarrow> bool" where
  "executes (Gate_execute c v now click_now) \<longleftrightarrow> True"
| "executes ev \<longleftrightarrow> False"

text \<open>The nonce is among the last \<open>j\<close> that were consumed.\<close>

definition recent :: "string \<Rightarrow> nat \<Rightarrow> validator \<Rightarrow> bool" where
  "recent nonce j V \<longleftrightarrow> nonces_ok V \<and> 0 < va_cache V \<and> nonce \<in> set (lastn j (va_order V))"

lemma nonces_ok_consume:
  assumes "nonces_ok V" "nonce \<notin> va_used V" "0 < va_cache V"
  shows "nonces_ok (consume_nonce nonce V)"
proof -
  have "distinct (va_order V @ [nonce])" using assms by (auto simp: nonces_ok_def)
  then have "distinct (lastn (va_cache V) (va_order V @ [nonce]))" unfolding lastn_def by (rule distinct_drop)
  then show ?thesis by (simp add: nonces_ok_def consume_eq [OF assms])
qed

lemma lastn_lastn_le: "j \<le> n \<Longrightarrow> lastn j (lastn n xs) = lastn j xs"
  by (cases "n \<le> length xs") (auto simp: lastn_def)

lemma recent_consume:
  assumes "recent nonce j V" "n \<notin> va_used V" "j < va_cache V"
  shows "recent nonce (Suc j) (consume_nonce n V)"
  using assms nonces_ok_consume [of V n] consume_eq [of V n]
  by (simp add: recent_def lastn_lastn_le lastn_append [of "Suc j"])

lemma recent_frame:
  "va_used V' = va_used V \<and> va_order V' = va_order V \<and> va_cache V' = va_cache V \<Longrightarrow> recent nonce j V' = recent nonce j V"
  by (simp add: recent_def nonces_ok_def)

lemma recent_mono: "recent nonce j V \<Longrightarrow> recent nonce (Suc j) V"
proof -
  have "set (drop n xs) \<subseteq> set (drop (n - 1) xs)" for n and xs :: "string list"
    by (simp add: set_drop_subset_set_drop)
  then show "recent nonce j V \<Longrightarrow> recent nonce (Suc j) V"
    by (fastforce simp: recent_def lastn_def)
qed

lemma validate_cache: "va_cache (fst (capsule_validate mac f sen c gen now V)) = va_cache V"
  by (auto simp: validate_defs consume_nonce_def split: prod.split)

lemma recent_validate:
  assumes "recent nonce j V" "j < va_cache V"
  shows "recent nonce (Suc j) (fst (capsule_validate mac f sen c gen now V))"
proof (cases "cv_allowed (snd (capsule_validate mac f sen c gen now V))")
  case True
  then show ?thesis
    using recent_consume [OF assms(1) _ assms(2)] validate_passes [of mac f sen c gen now V] by (simp add: validate_state)
next
  case False
  then show ?thesis using recent_mono [OF assms(1)] recent_frame [OF validate_frame [OF False]] by simp
qed

lemma recent_step:
  assumes "recent nonce j (og_validator G)" "j + (if executes ev then 1 else 0) \<le> va_cache (og_validator G)"
  shows "recent nonce (j + (if executes ev then 1 else 0)) (og_validator (op_gate_step mac ev G))
    \<and> va_cache (og_validator (op_gate_step mac ev G)) = va_cache (og_validator G)"
  using assms by (cases ev) (auto simp: issue_capsule_def rotate_session_def execution_validator validate_cache recent_validate)

lemma recent_run:
  "recent nonce j (og_validator G) \<Longrightarrow> j + length (filter executes evs) \<le> va_cache (og_validator G) \<Longrightarrow>
    \<exists>i. recent nonce i (og_validator (fold (op_gate_step mac) evs G))"
proof (induction evs arbitrary: j G)
  case (Cons ev evs)
  have "j + (if executes ev then 1 else 0) \<le> va_cache (og_validator G)" using Cons.prems(2) by auto
  from recent_step [OF Cons.prems(1) this, of mac] Cons.prems(2)
  show ?case using Cons.IH [of "j + (if executes ev then 1 else 0)" "op_gate_step mac ev G"] by (cases "executes ev") auto
qed auto

text \<open>C24: a nonce works once.  After a capsule passed the first stage of the gate, no capsule with
  the same nonce is approved as long as fewer executions are asked for than the cache holds
  (ten thousand by default), whatever else happens: heartbeats, emissions, issues,
  executions and session rotations.\<close>

theorem nonce_single_use:
  fixes G :: operator_gate
  assumes "nonces_ok (og_validator G)" "0 < va_cache (og_validator G)"
    and "cv_allowed (snd (capsule_validate mac (og_forge G) (og_sentinel G) c (se_generation (og_sentinel G)) now (og_validator G)))"
    and "length (filter executes evs) < va_cache (og_validator G)" "ca_nonce c' = ca_nonce c"
  shows "\<not> cv_allowed (fst (snd (validate_execution mac c' v' now' click_now'
    (fold (op_gate_step mac) evs (op_gate_step mac (Gate_execute c v now click_now) G)))))"
proof -
  let ?G = "op_gate_step mac (Gate_execute c v now click_now) G"
  have V: "og_validator ?G = consume_nonce (ca_nonce c) (og_validator G)"
    using validate_state [OF assms(3)] by (simp add: execution_validator)
  have fresh: "ca_nonce c \<notin> va_used (og_validator G)" using assms(3) by (simp add: validate_passes)
  note eq = consume_eq [OF assms(1) fresh assms(2)]
  have "lastn 1 (va_order (og_validator ?G)) = [ca_nonce c]"
    unfolding V eq(1) using assms(2) by (subst lastn_lastn_le) (simp_all add: lastn_append)
  then have "recent (ca_nonce c) 1 (og_validator ?G)"
    using nonces_ok_consume [OF assms(1) fresh assms(2)] assms(2) eq(3) V by (simp add: recent_def)
  moreover have "1 + length (filter executes evs) \<le> va_cache (og_validator ?G)"
    using assms(4) eq(3) V by simp
  ultimately obtain i where i: "recent (ca_nonce c) i (og_validator (fold (op_gate_step mac) evs ?G))"
    using recent_run by blast
  then have "ca_nonce c \<in> va_used (og_validator (fold (op_gate_step mac) evs ?G))"
    using set_lastn [of i "va_order (og_validator (fold (op_gate_step mac) evs ?G))"] by (auto simp: recent_def nonces_ok_def)
  then show ?thesis using execution_approved_aux assms(5) by metis
qed

definition demo_op_gate :: operator_gate where
  "demo_op_gate = operator_gate_init ''k'' ''id'' demo_sentinel (fst (emit_intent ''BTC'' ''Buy'' 100 1 None 5 100 (intents_init True))) (12/10)"

definition demo_capsule :: capsule where
  "demo_capsule = snd (issue_capsule demo_mac ''n1'' ''s1'' ''BTC'' ''BUY'' 101 demo_op_gate)"

lemma demo_passes:
  "cv_allowed (snd (capsule_validate demo_mac (og_forge demo_op_gate) (og_sentinel demo_op_gate) demo_capsule
    (se_generation (og_sentinel demo_op_gate)) 101 (og_validator demo_op_gate)))"
  by (simp add: validate_passes demo_capsule_def issue_capsule_def forge_issue_def verify_signature_def message_of_def
      demo_op_gate_def operator_gate_init_def validator_init_def is_execution_allowed_def demo_sentinel_def sentinel_init_def)

theorem nonce_single_use_witness:
  "\<not> cv_allowed (fst (snd (validate_execution demo_mac demo_capsule 1 101 101
    (fold (op_gate_step demo_mac) [] (op_gate_step demo_mac (Gate_execute demo_capsule 1 101 101) demo_op_gate)))))"
  by (rule nonce_single_use [OF _ _ demo_passes])
    (simp_all add: demo_op_gate_def operator_gate_init_def validator_init_def nonces_ok_def)

section \<open>What voids a capsule\<close>

lemma generation_step: "se_generation s \<le> se_generation (tilt_step ev s)"
  by (cases ev)
    (auto simp: ingest_heartbeat_def evaluate_state Let_def resolve_lock_def tilt_transition_def check_blind_def
      force_unlock_def wipe_trackers_def)

lemma generation_heartbeat: "se_generation s < se_generation (tilt_step (Heartbeat r c e g now) s)"
  by (auto simp: ingest_heartbeat_def evaluate_state Let_def resolve_lock_def tilt_transition_def wipe_trackers_def)

lemma gate_generation_step: "se_generation (og_sentinel G) \<le> se_generation (og_sentinel (op_gate_step mac ev G))"
  by (cases ev) (auto simp: generation_step issue_capsule_def rotate_session_def)

lemma gate_generation_run: "se_generation (og_sentinel G) \<le> se_generation (og_sentinel (fold (op_gate_step mac) evs G))"
proof (induction evs arbitrary: G)
  case (Cons ev evs)
  from order_trans [OF gate_generation_step [of G mac ev] Cons.IH] show ?case by simp
qed simp

text \<open>One heartbeat voids every capsule issued before it.  The generation counts evaluations,
  not changes of the operator's state, so after any history with a heartbeat in it an
  honest, fresh and unused capsule is rejected, however calm the operator is.\<close>

theorem heartbeat_voids_capsules:
  fixes G :: operator_gate
  assumes "Gate_tilt (Heartbeat r k e g t) \<in> set evs"
  shows "\<not> cv_allowed (fst (snd (validate_execution mac (snd (issue_capsule mac nonce sig s side now G)) v now' click_now
    (fold (op_gate_step mac) evs G))))"
proof -
  obtain xs ys where evs: "evs = xs @ Gate_tilt (Heartbeat r k e g t) # ys" using split_list [OF assms] by blast
  let ?H = "fold (op_gate_step mac) xs G"
  have "se_generation (og_sentinel G) \<le> se_generation (og_sentinel ?H)" by (rule gate_generation_run)
  also have "\<dots> < se_generation (og_sentinel (op_gate_step mac (Gate_tilt (Heartbeat r k e g t)) ?H))"
    using generation_heartbeat by simp
  also have "\<dots> \<le> se_generation (og_sentinel (fold (op_gate_step mac) evs G))"
    using gate_generation_run [of "op_gate_step mac (Gate_tilt (Heartbeat r k e g t)) ?H" mac ys] by (simp add: evs)
  finally show ?thesis using execution_approved_aux by (simp add: issue_capsule_def forge_issue_def)
qed

theorem heartbeat_voids_capsules_witness:
  "\<not> cv_allowed (fst (snd (validate_execution demo_mac demo_capsule 1 102 102
    (fold (op_gate_step demo_mac) [Gate_tilt (Heartbeat 300 0 0 0 101)] demo_op_gate))))"
  unfolding demo_capsule_def by (rule heartbeat_voids_capsules) (rule list.set_intros(1))

text \<open>
  A session rotation voids them too, when the code tells keys apart: a capsule signed under
  another key does not verify.
\<close>

lemma rotation_voids_capsules:
  assumes "\<And>key key' m. mac key m = mac key' m \<Longrightarrow> key = key'" "key \<noteq> fo_key (og_forge G)"
  shows "\<not> cv_allowed (fst (snd (validate_execution mac (snd (issue_capsule mac nonce sig s side now G)) v now' click_now
    (rotate_session key session G))))"
  using execution_approved_aux assms(2)
  by (auto simp: issue_capsule_def forge_issue_def verify_signature_def message_of_def rotate_session_def rotate_key_def dest!: assms(1))

text \<open>The nonce is spent by the first stage, also when the second one then rejects the click.\<close>

lemma nonce_spent_on_stale_click:
  assumes "cv_allowed (snd (capsule_validate mac (og_forge G) (og_sentinel G) c (se_generation (og_sentinel G)) now (og_validator G)))"
    and "nonces_ok (og_validator G)" "0 < va_cache (og_validator G)"
  shows "ca_nonce c \<in> va_used (og_validator (fst (validate_execution mac c v now click_now G)))"
proof -
  have "ca_nonce c \<notin> va_used (og_validator G)" using assms(1) by (simp add: validate_passes)
  from consume_eq(2) [OF assms(2) this assms(3)] assms(3)
  show ?thesis by (simp add: execution_validator validate_state [OF assms(1)] lastn_append)
qed

end
