(* ===== verification/Bar_Ring.thy ===== *)
theory Bar_Ring
  imports Prelude
begin

text \<open>
  The dollar-bar engine over a ring of integer rows (\<open>src/src/domain/dollar_bars.py\<close>).

  A row of the numpy array is a record of its columns; an \<open>int64\<close> cell is an integer, since
  numpy refuses a value out of the range instead of wrapping it.  The splitting loop is a
  partial function: a loop that does not end has the value \<open>None\<close>.  The listeners are
  notified by the caller, with the pair that \<open>ingest_trade\<close> answers
  (see \<open>Triple_Barrier\<close>).
\<close>

section \<open>State\<close>

record bar_row =
  br_ts_open :: int
  br_ts_close :: int
  br_open :: int
  br_high :: int
  br_low :: int
  br_close :: int
  br_volume :: int
  br_dollar :: int
  br_ema :: int
  br_idx :: int
  br_synthetic :: int

definition zero_row :: bar_row where
  "zero_row = \<lparr>br_ts_open = 0, br_ts_close = 0, br_open = 0, br_high = 0, br_low = 0, br_close = 0, br_volume = 0,
     br_dollar = 0, br_ema = 0, br_idx = 0, br_synthetic = 0\<rparr>"

record ring_engine =
  re_threshold :: int
  re_capacity :: nat
  re_head :: nat
  re_count :: int
  re_scale :: int
  re_buf :: "bar_row list"
  re_dollar :: int
  re_vol :: int
  re_trades :: int
  re_open_ts :: int
  re_open_px :: int
  re_high :: int
  re_low :: int
  re_close :: int
  re_alpha_num :: int
  re_alpha_den :: int
  re_ema :: int
  re_var_count :: int
  re_var_mean :: int
  re_var_m2 :: int

definition ring_init :: "int \<Rightarrow> nat \<Rightarrow> int \<Rightarrow> int \<Rightarrow> py_error + ring_engine" where
  "ring_init threshold capacity ema_period scale =
     (if threshold \<le> 0 then Inl (ValueError ''dollar_threshold_scaled must be positive'')
      else Inr \<lparr>re_threshold = threshold, re_capacity = capacity, re_head = 0, re_count = 0, re_scale = scale,
        re_buf = replicate capacity zero_row, re_dollar = 0, re_vol = 0, re_trades = 0, re_open_ts = 0, re_open_px = 0,
        re_high = 0, re_low = 0, re_close = 0, re_alpha_num = 2 * 1000000, re_alpha_den = (ema_period + 1) * 1000000,
        re_ema = 0, re_var_count = 0, re_var_mean = 0, re_var_m2 = 0\<rparr>)"

section \<open>Closing a bar\<close>

definition update_ema :: "ring_engine \<Rightarrow> ring_engine" where
  "update_ema e = e\<lparr>re_ema := (if re_ema e = 0 then re_close e
     else (re_close e * re_alpha_num e + re_ema e * (re_alpha_den e - re_alpha_num e)) div re_alpha_den e)\<rparr>"

definition update_variance :: "ring_engine \<Rightarrow> ring_engine" where
  "update_variance e =
     (let n = re_var_count e + 1;
          delta = re_close e - re_var_mean e;
          mean = re_var_mean e + delta div n;
          delta2 = re_close e - mean
      in e\<lparr>re_var_count := n, re_var_mean := mean, re_var_m2 := re_var_m2 e + delta * delta2\<rparr>)"

definition closed_row :: "int \<Rightarrow> ring_engine \<Rightarrow> bar_row" where
  "closed_row ts e = (re_buf e ! re_head e)\<lparr>br_ts_open := re_open_ts e, br_ts_close := ts, br_open := re_open_px e,
     br_high := re_high e, br_low := re_low e, br_close := re_close e, br_volume := re_vol e, br_dollar := re_dollar e,
     br_ema := re_ema e, br_idx := re_count e\<rparr>"

definition close_bar :: "int \<Rightarrow> ring_engine \<Rightarrow> ring_engine" where
  "close_bar ts e =
     (let e1 = update_variance (update_ema e);
          buf = (re_buf e1)[re_head e1 := closed_row ts e1];
          head = (re_head e1 + 1) mod re_capacity e1
      in e1\<lparr>re_count := re_count e1 + 1, re_head := head, re_dollar := 0, re_vol := 0, re_trades := 0,
           re_buf := buf[head := zero_row]\<rparr>)"

section \<open>A trade\<close>

definition open_accumulator :: "int \<Rightarrow> int \<Rightarrow> int \<Rightarrow> ring_engine \<Rightarrow> ring_engine" where
  "open_accumulator price ts produced e =
     (if re_trades e = 0 then
        e\<lparr>re_open_ts := ts, re_open_px := price, re_high := price, re_low := price,
          re_buf := (re_buf e)[re_head e := (re_buf e ! re_head e)\<lparr>br_synthetic := if 0 < produced then 1 else 0\<rparr>]\<rparr>
      else e)"

definition touch_bar :: "int \<Rightarrow> int \<Rightarrow> int \<Rightarrow> ring_engine \<Rightarrow> ring_engine" where
  "touch_bar price ts produced e =
     (let e1 = open_accumulator price ts produced e
      in e1\<lparr>re_high := if re_high e1 < price then price else re_high e1,
            re_low := if price < re_low e1 then price else re_low e1,
            re_close := price, re_trades := re_trades e1 + 1\<rparr>)"

definition absorb :: "int \<Rightarrow> int \<Rightarrow> ring_engine \<Rightarrow> ring_engine" where
  "absorb dollar qty e = e\<lparr>re_dollar := re_dollar e + dollar, re_vol := re_vol e + qty\<rparr>"

partial_function (option) ingest_loop :: "int \<Rightarrow> int \<Rightarrow> int \<Rightarrow> int \<Rightarrow> int \<Rightarrow> ring_engine \<Rightarrow> (ring_engine \<times> int) option" where
  "ingest_loop price ts dollar qty produced e =
     (if \<not> 0 < dollar then Some (e, produced)
      else
        let e1 = touch_bar price ts produced e;
            needed = re_threshold e1 - re_dollar e1
        in if needed \<le> dollar then
             let chunk = (if 0 < dollar then qty * needed div dollar else qty)
             in ingest_loop price ts (dollar - needed) (qty - chunk) (produced + 1) (close_bar ts (absorb needed chunk e1))
           else ingest_loop price ts 0 0 produced (absorb dollar qty e1))"

text \<open>The engine after the trade, the number of bars and, if there are any, what the listeners are told.\<close>

definition ring_ingest :: "int \<Rightarrow> int \<Rightarrow> int \<Rightarrow> ring_engine \<Rightarrow> (ring_engine \<times> int \<times> (int \<times> int) option) option" where
  "ring_ingest price qty ts e =
     (if price \<le> 0 \<or> qty \<le> 0 then Some (e, 0, None)
      else let dollar = price * qty div re_scale e
           in if dollar \<le> 0 then Some (e, 0, None)
              else case ingest_loop price ts dollar qty 0 e of
                     None \<Rightarrow> None
                   | Some (e', n) \<Rightarrow> Some (e', n, if 0 < n then Some (n, re_count e) else None))"

section \<open>Reading the ring\<close>

definition get_bar_row :: "int \<Rightarrow> ring_engine \<Rightarrow> py_error + bar_row" where
  "get_bar_row j e =
     (if j < 0 \<or> re_count e \<le> j then Inl IndexError
      else let oldest = max 0 (re_count e - int (re_capacity e))
           in if j < oldest then Inl IndexError
              else Inr (re_buf e ! nat ((int (re_head e) - (re_count e - j)) mod int (re_capacity e))))"

definition get_bars_view :: "int \<Rightarrow> int \<Rightarrow> ring_engine \<Rightarrow> bar_row list" where
  "get_bars_view start count e =
     (let cap = int (re_capacity e);
          oldest = max 0 (re_count e - cap);
          start1 = (if start < oldest then oldest else start);
          actual = min count (re_count e - start1)
      in if actual \<le> 0 then []
         else let ring_start = (int (re_head e) - (re_count e - start1)) mod cap;
                  ring_end = ring_start + actual
              in if ring_end \<le> cap then slice (re_buf e) (nat ring_start) (nat ring_end)
                 else slice (re_buf e) (nat ring_start) (re_capacity e) @ take (nat (ring_end - cap)) (re_buf e))"

definition current_variance :: "ring_engine \<Rightarrow> int" where
  "current_variance e = (if re_var_count e < 2 then 0 else re_var_m2 e div (re_var_count e - 1))"

definition current_accumulator_pct :: "ring_engine \<Rightarrow> int" where
  "current_accumulator_pct e = (if re_threshold e \<le> 0 then 0 else re_dollar e * 100 div re_threshold e)"

section \<open>The invariant\<close>

text \<open>The slot at the head holds no bar: at most the flag of the bar that is being built.\<close>

definition blank :: "bar_row \<Rightarrow> bool" where
  "blank r \<longleftrightarrow> br_ts_open r = 0 \<and> br_ts_close r = 0 \<and> br_open r = 0 \<and> br_high r = 0 \<and> br_low r = 0 \<and> br_close r = 0
     \<and> br_volume r = 0 \<and> br_dollar r = 0 \<and> br_ema r = 0 \<and> br_idx r = 0"

definition head_ok :: "ring_engine \<Rightarrow> bool" where
  "head_ok e \<longleftrightarrow> re_head e = nat (re_count e mod int (re_capacity e))"

definition shape_ok :: "ring_engine \<Rightarrow> bool" where
  "shape_ok e \<longleftrightarrow> 0 < re_capacity e \<and> length (re_buf e) = re_capacity e \<and> 0 \<le> re_count e \<and> head_ok e"

definition bar_ring_ok :: "ring_engine \<Rightarrow> bool" where
  "bar_ring_ok e \<longleftrightarrow> shape_ok e \<and> blank (re_buf e ! re_head e)
     \<and> 0 < re_threshold e \<and> 0 \<le> re_dollar e \<and> re_dollar e < re_threshold e \<and> 0 \<le> re_trades e"

lemma ring_shape: "bar_ring_ok e \<Longrightarrow> shape_ok e"
  by (simp add: bar_ring_ok_def)

lemma bar_ring_init_ok: "0 < capacity \<Longrightarrow> ring_init threshold capacity p scale = Inr e \<Longrightarrow> bar_ring_ok e"
  by (auto simp: ring_init_def bar_ring_ok_def shape_ok_def head_ok_def blank_def zero_row_def split: if_splits)

lemmas ring_steps = touch_bar_def open_accumulator_def absorb_def Let_def

lemma head_slot: "shape_ok e \<Longrightarrow> re_head e = nat (re_count e mod int (re_capacity e))"
  by (simp add: shape_ok_def head_ok_def)

lemma head_int: "shape_ok e \<Longrightarrow> int (re_head e) = re_count e mod int (re_capacity e)"
  unfolding head_slot by (simp add: shape_ok_def)

lemma head_less: "shape_ok e \<Longrightarrow> re_head e < re_capacity e"
proof -
  assume ok: "shape_ok e"
  then have "int (re_head e) < int (re_capacity e)"
    unfolding head_int [OF ok] by (intro pos_mod_bound) (simp add: shape_ok_def)
  then show ?thesis by simp
qed

lemma next_slot:
  assumes "shape_ok e"
  shows "(re_head e + 1) mod re_capacity e = nat ((re_count e + 1) mod int (re_capacity e))"
proof -
  have "int ((re_head e + 1) mod re_capacity e) = (int (re_head e) + 1) mod int (re_capacity e)"
    by (simp add: zmod_int add.commute)
  also have "\<dots> = (re_count e + 1) mod int (re_capacity e)"
    unfolding head_int [OF assms] by (rule mod_add_left_eq)
  finally show ?thesis by simp
qed

text \<open>Row \<open>j\<close> lives in slot \<open>j mod capacity\<close>; the slot at the head is also the one of the oldest bar in the window.\<close>

lemma ring_pos:
  assumes "shape_ok e"
  shows "(int (re_head e) - (re_count e - j)) mod int (re_capacity e) = j mod int (re_capacity e)"
proof -
  have "int (re_head e) - (re_count e - j) = re_count e mod int (re_capacity e) + (j - re_count e)"
    using head_int [OF assms] by simp
  then show ?thesis by (simp only: mod_add_left_eq) simp
qed

definition row_at :: "int \<Rightarrow> ring_engine \<Rightarrow> bar_row" where
  "row_at j e = re_buf e ! nat (j mod int (re_capacity e))"

definition in_window :: "int \<Rightarrow> ring_engine \<Rightarrow> bool" where
  "in_window j e \<longleftrightarrow> 0 \<le> j \<and> j < re_count e \<and> re_count e - int (re_capacity e) \<le> j"

lemma get_bar_row_at: "shape_ok e \<Longrightarrow> get_bar_row j e = (if in_window j e then Inr (row_at j e) else Inl IndexError)"
  by (auto simp: get_bar_row_def Let_def ring_pos row_at_def in_window_def)

lemma slot_eq:
  assumes "0 < c" "\<bar>i - j\<bar> < int c"
  shows "nat (i mod int c) = nat (j mod int c) \<longleftrightarrow> i = j"
proof
  assume "nat (i mod int c) = nat (j mod int c)"
  then have "i mod int c = j mod int c"
    using assms(1) pos_mod_sign [of "int c"] by (metis nat_eq_iff2 nat_int of_nat_0_less_iff zero_le_imp_eq_int)
  then have "int c dvd i - j" by (simp add: mod_eq_dvd_iff)
  with assms(2) show "i = j" using zdvd_imp_le [of "int c" "\<bar>i - j\<bar>"] by force
qed simp

section \<open>Closing and touching, on the rows\<close>

lemma touch_simps [simp]:
  "re_count (touch_bar p ts k e) = re_count e" "re_capacity (touch_bar p ts k e) = re_capacity e"
  "re_head (touch_bar p ts k e) = re_head e" "re_dollar (touch_bar p ts k e) = re_dollar e"
  "re_threshold (touch_bar p ts k e) = re_threshold e" "re_vol (touch_bar p ts k e) = re_vol e"
  "re_close (touch_bar p ts k e) = p" "re_scale (touch_bar p ts k e) = re_scale e"
  "length (re_buf (touch_bar p ts k e)) = length (re_buf e)"
  by (simp_all add: ring_steps)

lemma absorb_simps [simp]:
  "re_count (absorb d q e) = re_count e" "re_capacity (absorb d q e) = re_capacity e" "re_head (absorb d q e) = re_head e"
  "re_dollar (absorb d q e) = re_dollar e + d" "re_threshold (absorb d q e) = re_threshold e" "re_buf (absorb d q e) = re_buf e"
  "re_vol (absorb d q e) = re_vol e + q" "re_trades (absorb d q e) = re_trades e" "re_close (absorb d q e) = re_close e"
  "re_high (absorb d q e) = re_high e" "re_low (absorb d q e) = re_low e" "re_open_px (absorb d q e) = re_open_px e"
  "re_scale (absorb d q e) = re_scale e"
  by (simp_all add: absorb_def)

lemma close_simps [simp]:
  "re_count (close_bar ts e) = re_count e + 1" "re_capacity (close_bar ts e) = re_capacity e" "re_dollar (close_bar ts e) = 0"
  "re_threshold (close_bar ts e) = re_threshold e" "re_vol (close_bar ts e) = 0" "re_trades (close_bar ts e) = 0"
  "re_head (close_bar ts e) = (re_head e + 1) mod re_capacity e" "length (re_buf (close_bar ts e)) = length (re_buf e)"
  "re_scale (close_bar ts e) = re_scale e"
  by (simp_all add: close_bar_def update_ema_def update_variance_def Let_def)

lemma head_ok_same [simp]: "head_ok (touch_bar p ts k e) = head_ok e" "head_ok (absorb d q e) = head_ok e"
  by (simp_all add: head_ok_def)

lemma blank_set [simp]: "blank (r\<lparr>br_synthetic := b\<rparr>) = blank r"
  by (simp add: blank_def)

lemma shape_same [simp]: "shape_ok (touch_bar p ts k e) = shape_ok e" "shape_ok (absorb d q e) = shape_ok e"
  by (simp_all add: shape_ok_def)

lemma touch_ok: "bar_ring_ok e \<Longrightarrow> bar_ring_ok (touch_bar p ts k e) \<and> 0 < re_trades (touch_bar p ts k e)"
proof -
  assume ok: "bar_ring_ok e"
  have "re_head e < length (re_buf e)" using head_less [OF ring_shape [OF ok]] ok by (simp add: bar_ring_ok_def shape_ok_def)
  then have "blank (re_buf (touch_bar p ts k e) ! re_head e)" using ok by (simp add: ring_steps bar_ring_ok_def)
  moreover have "0 < re_trades (touch_bar p ts k e)" using ok by (simp add: ring_steps bar_ring_ok_def)
  ultimately show ?thesis using ok by (simp add: bar_ring_ok_def)
qed

lemma absorb_ok: "bar_ring_ok e \<Longrightarrow> 0 \<le> d \<Longrightarrow> re_dollar e + d < re_threshold e \<Longrightarrow> bar_ring_ok (absorb d q e)"
  by (simp add: bar_ring_ok_def)

lemma close_ok:
  assumes "bar_ring_ok e" "d = re_threshold e - re_dollar e"
  shows "bar_ring_ok (close_bar ts (absorb d q e))"
proof -
  have "blank (re_buf (close_bar ts (absorb d q e)) ! re_head (close_bar ts (absorb d q e)))"
    using assms(1) by (simp add: close_bar_def update_ema_def update_variance_def Let_def bar_ring_ok_def shape_ok_def blank_def zero_row_def)
  moreover have "head_ok (close_bar ts (absorb d q e))" using next_slot [OF ring_shape [OF assms(1)]] by (simp add: head_ok_def)
  ultimately show ?thesis using assms(1) by (simp add: bar_ring_ok_def shape_ok_def)
qed

lemma touch_rows:
  assumes "shape_ok e" "in_window j e" "re_count e - int (re_capacity e) < j"
  shows "row_at j (touch_bar p ts k e) = row_at j e"
proof -
  have "nat (j mod int (re_capacity e)) \<noteq> re_head e"
    using slot_eq [of "re_capacity e" j "re_count e"] assms unfolding head_slot [OF assms(1)] by (auto simp: in_window_def shape_ok_def)
  then show ?thesis by (simp add: row_at_def ring_steps)
qed

lemma close_rows:
  assumes "shape_ok e" "1 < re_capacity e" "in_window j (close_bar ts e)"
  shows "row_at j (close_bar ts e) =
    (if j = re_count e + 1 - int (re_capacity e) then zero_row
     else if j = re_count e then closed_row ts (update_variance (update_ema e))
     else row_at j e)"
proof -
  let ?c = "int (re_capacity e)"
  have head: "re_head e = nat (re_count e mod ?c)" "re_head e < length (re_buf e)"
    using head_slot [OF assms(1)] head_less [OF assms(1)] assms(1) by (simp_all add: shape_ok_def)
  note next_head = next_slot [OF assms(1)]
  have win: "0 \<le> j" "j \<le> re_count e" "re_count e + 1 - ?c \<le> j" using assms(3) by (auto simp: in_window_def)
  have now: "nat (j mod ?c) = re_head e \<longleftrightarrow> j = re_count e"
    unfolding head(1) using win assms(2) by (intro slot_eq) auto
  have "nat (j mod ?c) = (re_head e + 1) mod re_capacity e \<longleftrightarrow> nat ((j + ?c) mod ?c) = nat ((re_count e + 1) mod ?c)"
    unfolding next_head by simp
  also have "\<dots> \<longleftrightarrow> j + ?c = re_count e + 1" using win assms(2) by (intro slot_eq) auto
  finally have nxt: "nat (j mod ?c) = (re_head e + 1) mod re_capacity e \<longleftrightarrow> j = re_count e + 1 - ?c" by auto
  have less: "(re_head e + 1) mod re_capacity e < length (re_buf e)" using assms(1) by (simp add: shape_ok_def)
  let ?row = "closed_row ts (update_variance (update_ema e))"
  have "re_buf (close_bar ts e) = (re_buf e)[re_head e := ?row, (re_head e + 1) mod re_capacity e := zero_row]"
    by (simp add: close_bar_def update_ema_def update_variance_def Let_def)
  then have "row_at j (close_bar ts e) = (re_buf e)[re_head e := ?row, (re_head e + 1) mod re_capacity e := zero_row] ! nat (j mod ?c)"
    by (simp add: row_at_def)
  also have "\<dots> = (if nat (j mod ?c) = (re_head e + 1) mod re_capacity e then zero_row
      else if nat (j mod ?c) = re_head e then ?row else re_buf e ! nat (j mod ?c))"
    using less head(2) by (auto simp: nth_list_update simp del: One_nat_def)
  finally show ?thesis unfolding nxt now by (simp add: row_at_def)
qed

section \<open>The splitting loop\<close>

text \<open>What a bar closed by a trade at \<open>price\<close> shows, and what a synthetic one shows.\<close>

definition bar_of :: "int \<Rightarrow> int \<Rightarrow> int \<Rightarrow> bar_row \<Rightarrow> bool" where
  "bar_of threshold price j r \<longleftrightarrow> br_idx r = j \<and> br_dollar r = threshold \<and> br_close r = price \<and> br_low r \<le> price \<and> price \<le> br_high r"

definition micro_bar :: "int \<Rightarrow> int \<Rightarrow> bar_row \<Rightarrow> bool" where
  "micro_bar price ts r \<longleftrightarrow> br_open r = price \<and> br_high r = price \<and> br_low r = price \<and> br_ts_open r = ts \<and> br_synthetic r = 1"

lemma closed_bar_of:
  "bar_of (re_threshold e) price (re_count e)
    (closed_row ts (update_variance (update_ema (absorb (re_threshold e - re_dollar e) q (touch_bar price ts k e)))))"
  by (simp add: bar_of_def closed_row_def update_variance_def update_ema_def Let_def) (simp add: ring_steps)

lemma closed_micro:
  "bar_ring_ok e \<Longrightarrow> re_trades e = 0 \<Longrightarrow> 0 < k \<Longrightarrow>
    micro_bar price ts (closed_row ts (update_variance (update_ema (absorb d q (touch_bar price ts k e)))))"
  using head_less [of e] by (simp add: micro_bar_def closed_row_def update_variance_def update_ema_def ring_steps bar_ring_ok_def shape_ok_def)

definition rows_after :: "ring_engine \<Rightarrow> int \<Rightarrow> int \<Rightarrow> int \<Rightarrow> ring_engine \<Rightarrow> bool" where
  "rows_after e price ts k e' \<longleftrightarrow> (\<forall>j. in_window j e' \<and> re_count e' - int (re_capacity e') < j \<longrightarrow>
     (if j < re_count e then row_at j e' = row_at j e
      else bar_of (re_threshold e) price j (row_at j e')
        \<and> (re_count e < j \<or> re_trades e = 0 \<and> 0 < k \<longrightarrow> micro_bar price ts (row_at j e'))))"

definition same_shape :: "ring_engine \<Rightarrow> ring_engine \<Rightarrow> bool" where
  "same_shape e e' \<longleftrightarrow> re_threshold e' = re_threshold e \<and> re_capacity e' = re_capacity e \<and> re_scale e' = re_scale e"

lemma ingest_loop_result:
  assumes "bar_ring_ok e" "1 < re_capacity e" "0 \<le> dollar" "0 \<le> k"
  shows "\<exists>e'. ingest_loop price ts dollar qty k e = Some (e', k + (re_dollar e + dollar) div re_threshold e)
    \<and> bar_ring_ok e' \<and> same_shape e e' \<and> re_dollar e' = (re_dollar e + dollar) mod re_threshold e
    \<and> re_count e' = re_count e + (re_dollar e + dollar) div re_threshold e \<and> rows_after e price ts k e'"
  using assms
proof (induction "nat dollar" arbitrary: dollar qty k e rule: less_induct)
  case less
  let ?t = "re_threshold e" and ?a = "re_dollar e" and ?e1 = "touch_bar price ts k e"
  have range: "0 < ?t" "0 \<le> ?a" "?a < ?t" using less.prems(1) by (simp_all add: bar_ring_ok_def)
  consider "dollar = 0" | "0 < dollar" "?t - ?a \<le> dollar" | "0 < dollar" "dollar < ?t - ?a" using less.prems(3) by linarith
  then show ?case
  proof cases
    case 1
    then show ?thesis
      using range less.prems(1) by (subst ingest_loop.simps) (auto simp: rows_after_def in_window_def same_shape_def)
  next
    case 2
    let ?q = "qty * (?t - ?a) div dollar"
    let ?b = "absorb (?t - ?a) ?q ?e1"
    let ?e2 = "close_bar ts ?b"
    have e1: "bar_ring_ok ?e1" using touch_ok [OF less.prems(1)] by simp
    have absorbed: "re_count ?b = re_count e" "re_capacity ?b = re_capacity e" by simp_all
    have ok2: "bar_ring_ok ?e2" by (rule close_ok [OF e1]) simp
    define left where "left = dollar - (?t - ?a)"
    have left_nonneg: "0 \<le> left" using 2 by (simp add: left_def)
    have "nat left < nat dollar" using range 2 by (simp add: left_def)
    from less.hyps [OF this ok2, of "k + 1" "qty - ?q"] less.prems 2(2) left_nonneg
    obtain e' where e': "ingest_loop price ts (left) (qty - ?q) (k + 1) ?e2 = Some (e', k + 1 + (left) div ?t)"
      "bar_ring_ok e'" "same_shape ?e2 e'" "re_dollar e' = (left) mod ?t"
      "re_count e' = re_count e + 1 + (left) div ?t" "rows_after ?e2 price ts (k + 1) e'"
      by auto
    have split: "?a + dollar = left + ?t" by (simp add: left_def)
    have qr: "(?a + dollar) div ?t = 1 + left div ?t" "(?a + dollar) mod ?t = left mod ?t"
      unfolding split using range by simp_all
    have "ingest_loop price ts dollar qty k e = Some (e', k + (?a + dollar) div ?t)"
      using 2 e'(1) qr by (subst ingest_loop.simps) (simp add: Let_def left_def)
    moreover have "rows_after e price ts k e'"
      unfolding rows_after_def
    proof (intro allI impI)
      fix j assume j: "in_window j e' \<and> re_count e' - int (re_capacity e') < j"
      have cap: "re_capacity e' = re_capacity e" using e'(3) by (simp add: same_shape_def)
      have later: "re_count e + 1 \<le> re_count e'" using e'(5) left_nonneg range by (simp add: pos_imp_zdiv_nonneg_iff)
      show "if j < re_count e then row_at j e' = row_at j e
        else bar_of ?t price j (row_at j e') \<and> (re_count e < j \<or> re_trades e = 0 \<and> 0 < k \<longrightarrow> micro_bar price ts (row_at j e'))"
      proof (cases "j < re_count e + 1")
        case True
        then have w: "in_window j ?e2" "j \<noteq> re_count ?b + 1 - int (re_capacity ?b)" using j later cap by (auto simp: in_window_def)
        have "row_at j e' = row_at j ?e2" using e'(6) j True by (auto simp: rows_after_def)
        also have "\<dots> = (if j = re_count e then closed_row ts (update_variance (update_ema ?b)) else row_at j ?b)"
          using close_rows [of ?b j ts] w less.prems(2) absorbed ring_shape [OF less.prems(1)] by simp
        finally show ?thesis
          using closed_bar_of [of e price ts ?q k] closed_micro [OF less.prems(1), of k price ts "?t - ?a" ?q] True
            touch_rows [OF ring_shape [OF less.prems(1)], of j] j later cap by (auto simp: row_at_def in_window_def)
      next
        case False
        with e'(6) j less.prems(4) show ?thesis by (auto simp: rows_after_def)
      qed
    qed
    ultimately show ?thesis using e' qr by (auto simp: same_shape_def)
  next
    case 3
    have "ingest_loop price ts dollar qty k e = Some (absorb dollar qty ?e1, k)"
      using 3 by (subst ingest_loop.simps) (simp add: Let_def ingest_loop.simps [of _ _ 0])
    moreover have "bar_ring_ok (absorb dollar qty ?e1)"
      using touch_ok [OF less.prems(1)] 3 by (intro absorb_ok) auto
    moreover have "rows_after e price ts k (absorb dollar qty ?e1)"
      using touch_rows [OF ring_shape [OF less.prems(1)]] by (auto simp: rows_after_def in_window_def row_at_def)
    ultimately show ?thesis using 3 range by (auto simp: same_shape_def)
  qed
qed

lemma ring_counts_aux:
  assumes "bar_ring_ok e" "1 < re_capacity e" "0 < price" "0 < qty" "0 < price * qty div re_scale e"
  defines "d \<equiv> price * qty div re_scale e"
  shows "\<exists>e'. ring_ingest price qty ts e = Some (e', (re_dollar e + d) div re_threshold e,
        if 0 < (re_dollar e + d) div re_threshold e then Some ((re_dollar e + d) div re_threshold e, re_count e) else None)
    \<and> bar_ring_ok e' \<and> re_count e' = re_count e + (re_dollar e + d) div re_threshold e
    \<and> re_dollar e' = (re_dollar e + d) mod re_threshold e"
  using ingest_loop_result [OF assms(1,2), of d 0 price ts qty] assms by (auto simp: ring_ingest_def Let_def)

text \<open>The splitting of a trade ends, and produces exactly as many bars as the dollars allow: with
  \<open>a\<close> dollars in the open bar, a trade of \<open>d\<close> dollars closes \<open>(a + d) div threshold\<close> bars and
  leaves \<open>(a + d) mod threshold\<close> in the open one, so no dollar is lost, whatever the size of
  the trade; the listeners are told the range of the new bars.\<close>

theorem ring_ingest_counts:
  assumes "bar_ring_ok e" "1 < re_capacity e" "0 < price" "0 < qty" "0 < price * qty div re_scale e"
  defines "d \<equiv> price * qty div re_scale e"
  shows "\<exists>e'. ring_ingest price qty ts e = Some (e', (re_dollar e + d) div re_threshold e,
        if 0 < (re_dollar e + d) div re_threshold e then Some ((re_dollar e + d) div re_threshold e, re_count e) else None)
    \<and> bar_ring_ok e' \<and> re_count e' = re_count e + (re_dollar e + d) div re_threshold e
    \<and> re_dollar e' = (re_dollar e + d) mod re_threshold e"
  unfolding assms(6) by (rule ring_counts_aux [OF assms(1-5)])

definition demo_ring :: ring_engine where
  "demo_ring = (case ring_init 100 4 14 1 of Inr e \<Rightarrow> e | Inl _ \<Rightarrow> undefined)"

lemma demo_ring: "ring_init 100 4 14 1 = Inr demo_ring"
  by (simp add: demo_ring_def ring_init_def)

lemma demo_ring_facts: "bar_ring_ok demo_ring" "re_capacity demo_ring = 4" "re_scale demo_ring = 1" "re_threshold demo_ring = 100"
  "re_dollar demo_ring = 0" "re_count demo_ring = 0"
proof -
  show "bar_ring_ok demo_ring" by (rule bar_ring_init_ok [OF _ demo_ring]) simp
qed (simp_all add: demo_ring_def ring_init_def)

theorem ring_ingest_counts_witness: "\<exists>e'. ring_ingest 10 57 3 demo_ring = Some (e', 5, Some (5, 0)) \<and> re_dollar e' = 70"
  using ring_ingest_counts [OF demo_ring_facts(1), of 10 57 3] demo_ring_facts by auto

text \<open>What can be read after a trade: every bar of the window but the oldest.  The bars that
  were there are unchanged, and the new ones are the bars the trade closed - a full
  threshold of dollars, their own index, the trade's price as the close and inside the
  range, the later ones flat at that price and marked synthetic.\<close>

theorem ring_reads_back:
  assumes "bar_ring_ok e" "1 < re_capacity e" "ring_ingest price qty ts e = Some (e', n, note)"
    and "0 \<le> j" "re_count e' - int (re_capacity e') < j" "j < re_count e'"
  shows "\<exists>r. get_bar_row j e' = Inr r
    \<and> (j < re_count e \<longrightarrow> get_bar_row j e = Inr r)
    \<and> (re_count e \<le> j \<longrightarrow> bar_of (re_threshold e) price j r)
    \<and> (re_count e < j \<longrightarrow> micro_bar price ts r)"
proof (cases "price \<le> 0 \<or> qty \<le> 0 \<or> price * qty div re_scale e \<le> 0")
  case True
  then have "e' = e" using assms(3) by (auto simp: ring_ingest_def Let_def split: if_splits)
  with assms show ?thesis by (auto simp: get_bar_row_at ring_shape in_window_def)
next
  case False
  let ?d = "price * qty div re_scale e"
  obtain e1 where e1: "ingest_loop price ts ?d qty 0 e = Some (e1, (re_dollar e + ?d) div re_threshold e)" "bar_ring_ok e1" "same_shape e e1"
    "re_count e1 = re_count e + (re_dollar e + ?d) div re_threshold e" "rows_after e price ts 0 e1"
    using ingest_loop_result [OF assms(1,2), of ?d 0 price ts qty] False by auto
  have e': "e' = e1" using assms(3) e1(1) False by (auto simp: ring_ingest_def Let_def)
  have "0 \<le> (re_dollar e + ?d) div re_threshold e"
    using assms(1) False by (intro div_int_pos_iff [THEN iffD2]) (auto simp: bar_ring_ok_def)
  then have win: "in_window j e'" "j < re_count e \<longrightarrow> in_window j e"
    using assms(4-6) e1(3,4) by (auto simp: in_window_def e' same_shape_def)
  moreover have "re_capacity e' = re_capacity e" using e1(3) by (simp add: e' same_shape_def)
  ultimately show ?thesis
    using e1(2,5) assms(1,5) by (auto simp: get_bar_row_at ring_shape e' rows_after_def)
qed

theorem ring_reads_back_witness:
  "\<exists>e' r. ring_ingest 10 57 3 demo_ring = Some (e', 5, Some (5, 0)) \<and> get_bar_row 4 e' = Inr r \<and> br_close r = 10"
proof -
  obtain e' where e': "ring_ingest 10 57 3 demo_ring = Some (e', 5, Some (5, 0))" "re_count e' = 5" "same_shape demo_ring e'"
    using ingest_loop_result [OF demo_ring_facts(1), of 570 0 10 3 57] demo_ring_facts
    by (auto simp: ring_ingest_def Let_def)
  from ring_reads_back [OF demo_ring_facts(1) _ e'(1), of 4] show ?thesis
    using e' demo_ring_facts by (auto simp: same_shape_def bar_of_def)
qed

lemma oldest_blank_aux:
  assumes "bar_ring_ok e" "int (re_capacity e) \<le> re_count e"
  shows "\<exists>r. get_bar_row (re_count e - int (re_capacity e)) e = Inr r \<and> blank r"
proof -
  let ?j = "re_count e - int (re_capacity e)"
  have "nat (?j mod int (re_capacity e)) = re_head e"
    unfolding head_slot [OF ring_shape [OF assms(1)]] by simp
  moreover have "in_window ?j e" using assms by (auto simp: in_window_def bar_ring_ok_def shape_ok_def)
  ultimately show ?thesis using assms(1) by (simp add: get_bar_row_at ring_shape row_at_def bar_ring_ok_def)
qed

text \<open>The ring serves its oldest bar blank.  The slot after a closed bar is cleared at once, but
  once the ring has filled up it belongs to the oldest bar that \<open>get_bar_row\<close> still declares
  available: reading that bar succeeds and shows zeros - a high, low and close of 0.\<close>

theorem oldest_bar_blank:
  assumes "bar_ring_ok e" "int (re_capacity e) \<le> re_count e"
  shows "\<exists>r. get_bar_row (re_count e - int (re_capacity e)) e = Inr r \<and> blank r"
  by (rule oldest_blank_aux [OF assms])

theorem oldest_bar_blank_witness:
  "\<exists>e' r. ring_ingest 10 57 3 demo_ring = Some (e', 5, Some (5, 0)) \<and> get_bar_row 1 e' = Inr r \<and> br_low r = 0"
proof -
  obtain e' where e': "ring_ingest 10 57 3 demo_ring = Some (e', 5, Some (5, 0))" "re_count e' = 5" "same_shape demo_ring e'" "bar_ring_ok e'"
    using ingest_loop_result [OF demo_ring_facts(1), of 570 0 10 3 57] demo_ring_facts
    by (auto simp: ring_ingest_def Let_def)
  from oldest_bar_blank [OF e'(4)] show ?thesis
    using e' demo_ring_facts by (auto simp: same_shape_def blank_def)
qed

end
