(* ===== verification/Triple_Barrier.thy ===== *)
theory Triple_Barrier
  imports Bar_Ring "HOL-Library.Multiset"
begin

text \<open>
  The triple-barrier labeller (\<open>src/src/domain/triple_barrier.py\<close>) and its wiring as a
  listener of the bar ring.

  The parallel vectors of the source are one list of slots, a record with a field per
  vector: a numpy operation under the mask is the operation on every slot, and the mask is
  the slot's \<open>active\<close> field.  The labels given to the callback are the answer of a scan.
\<close>

section \<open>State\<close>

record barrier_slot =
  sl_active :: bool
  sl_id :: int
  sl_entry :: int
  sl_tp :: int
  sl_sl :: int
  sl_entry_bar :: int
  sl_max_bars :: int
  sl_side :: int
  sl_high :: int
  sl_low :: int

definition empty_slot :: barrier_slot where
  "empty_slot = \<lparr>sl_active = False, sl_id = 0, sl_entry = 0, sl_tp = 0, sl_sl = 0, sl_entry_bar = 0, sl_max_bars = 0,
     sl_side = 0, sl_high = 0, sl_low = 0\<rparr>"

record label_row =
  lr_id :: int
  lr_label :: int
  lr_entry :: int
  lr_exit :: int
  lr_entry_bar :: int
  lr_exit_bar :: int
  lr_side :: int
  lr_held :: int
  lr_mfe :: int
  lr_mae :: int
  lr_pnl :: int

definition empty_label :: label_row where
  "empty_label = \<lparr>lr_id = 0, lr_label = 0, lr_entry = 0, lr_exit = 0, lr_entry_bar = 0, lr_exit_bar = 0, lr_side = 0,
     lr_held = 0, lr_mfe = 0, lr_mae = 0, lr_pnl = 0\<rparr>"

record labeler =
  lb_slots :: "barrier_slot list"
  lb_res :: "label_row list"
  lb_cap :: nat
  lb_head :: nat
  lb_count :: nat
  lb_open :: int
  lb_next :: int
  lb_callback :: bool

definition labeler_init :: "nat \<Rightarrow> nat \<Rightarrow> bool \<Rightarrow> labeler" where
  "labeler_init max_open results callback =
     \<lparr>lb_slots = replicate max_open empty_slot, lb_res = replicate results empty_label, lb_cap = results, lb_head = 0,
      lb_count = 0, lb_open = 0, lb_next = 0, lb_callback = callback\<rparr>"

section \<open>Recording a result\<close>

definition push_label :: "label_row \<Rightarrow> labeler \<Rightarrow> labeler" where
  "push_label r lb =
     lb\<lparr>lb_res := (lb_res lb)[lb_head lb := r], lb_head := (lb_head lb + 1) mod lb_cap lb, lb_count := lb_count lb + 1\<rparr>"

definition free_slot :: "nat \<Rightarrow> labeler \<Rightarrow> labeler" where
  "free_slot i lb = lb\<lparr>lb_slots := (lb_slots lb)[i := (lb_slots lb ! i)\<lparr>sl_active := False\<rparr>], lb_open := lb_open lb - 1\<rparr>"

definition favorable :: "barrier_slot \<Rightarrow> int" where
  "favorable s = (if 0 < sl_side s then sl_high s - sl_entry s else sl_entry s - sl_low s)"

definition adverse :: "barrier_slot \<Rightarrow> int" where
  "adverse s = (if 0 < sl_side s then sl_entry s - sl_low s else sl_high s - sl_entry s)"

section \<open>Registration\<close>

definition active_indices :: "labeler \<Rightarrow> nat list" where
  "active_indices lb = filter (\<lambda>i. sl_active (lb_slots lb ! i)) [0..<length (lb_slots lb)]"

definition free_indices :: "labeler \<Rightarrow> nat list" where
  "free_indices lb = filter (\<lambda>i. \<not> sl_active (lb_slots lb ! i)) [0..<length (lb_slots lb)]"

text \<open>The first of the active slots with the least entry bar.\<close>

fun arg_least :: "(nat \<Rightarrow> int) \<Rightarrow> nat \<Rightarrow> nat list \<Rightarrow> nat" where
  "arg_least f best [] = best"
| "arg_least f best (i # is) = arg_least f (if f i < f best then i else best) is"

definition evict_oldest :: "int \<Rightarrow> labeler \<Rightarrow> labeler" where
  "evict_oldest bar_count lb =
     (case active_indices lb of
        [] \<Rightarrow> lb
      | a # as \<Rightarrow>
          let i = arg_least (\<lambda>i. sl_entry_bar (lb_slots lb ! i)) a as;
              s = lb_slots lb ! i
          in free_slot i (push_label
               \<lparr>lr_id = sl_id s, lr_label = 0, lr_entry = sl_entry s, lr_exit = sl_entry s, lr_entry_bar = sl_entry_bar s,
                lr_exit_bar = bar_count, lr_side = sl_side s, lr_held = bar_count - sl_entry_bar s,
                lr_mfe = favorable s, lr_mae = adverse s, lr_pnl = 0\<rparr> lb))"

definition new_slot :: "int \<Rightarrow> int \<Rightarrow> int \<Rightarrow> int \<Rightarrow> int \<Rightarrow> int \<Rightarrow> int \<Rightarrow> barrier_slot" where
  "new_slot iid price side tp_bps sl_bps max_bars bar_count =
     \<lparr>sl_active = True, sl_id = iid, sl_entry = price,
      sl_tp = (if 0 < side then price * (10000 + tp_bps) div 10000 else price * (10000 - tp_bps) div 10000),
      sl_sl = (if 0 < side then price * (10000 - sl_bps) div 10000 else price * (10000 + sl_bps) div 10000),
      sl_entry_bar = bar_count, sl_max_bars = max_bars, sl_side = side, sl_high = price, sl_low = price\<rparr>"

definition register_intent :: "int \<Rightarrow> int \<Rightarrow> int \<Rightarrow> int \<Rightarrow> int \<Rightarrow> int \<Rightarrow> labeler \<Rightarrow> labeler \<times> int" where
  "register_intent price side tp_bps sl_bps max_bars bar_count lb =
     (let lb1 = (if free_indices lb = [] then evict_oldest bar_count lb else lb)
      in case free_indices lb1 of
           [] \<Rightarrow> (lb1, -1)
         | i # _ \<Rightarrow>
             (lb1\<lparr>lb_next := lb_next lb1 + 1,
                 lb_slots := (lb_slots lb1)[i := new_slot (lb_next lb1) price side tp_bps sl_bps max_bars bar_count],
                 lb_open := lb_open lb1 + 1\<rparr>, lb_next lb1))"

section \<open>The scan of a bar\<close>

definition watermark :: "int \<Rightarrow> int \<Rightarrow> barrier_slot \<Rightarrow> barrier_slot" where
  "watermark high low s =
     (if sl_active s then s\<lparr>sl_high := max (sl_high s) high, sl_low := min (sl_low s) low\<rparr> else s)"

definition hit_tp :: "int \<Rightarrow> int \<Rightarrow> barrier_slot \<Rightarrow> bool" where
  "hit_tp high low s \<longleftrightarrow> 0 < sl_side s \<and> sl_active s \<and> sl_tp s \<le> high \<or> sl_side s < 0 \<and> sl_active s \<and> low \<le> sl_tp s"

definition hit_sl :: "int \<Rightarrow> int \<Rightarrow> barrier_slot \<Rightarrow> bool" where
  "hit_sl high low s \<longleftrightarrow> 0 < sl_side s \<and> sl_active s \<and> low \<le> sl_sl s \<or> sl_side s < 0 \<and> sl_active s \<and> sl_sl s \<le> high"

definition hit_vb :: "int \<Rightarrow> barrier_slot \<Rightarrow> bool" where
  "hit_vb bar s \<longleftrightarrow> sl_active s \<and> sl_max_bars s \<le> bar - sl_entry_bar s"

definition resolution :: "int \<Rightarrow> int \<Rightarrow> int \<Rightarrow> barrier_slot \<Rightarrow> int option" where
  "resolution high low bar s =
     (let sl = hit_sl high low s;
          tp = hit_tp high low s \<and> \<not> sl;
          vb = hit_vb bar s \<and> \<not> sl \<and> \<not> tp
      in if sl then Some (-1) else if tp then Some 1 else if vb then Some 0 else None)"

definition exit_price :: "int \<Rightarrow> int \<Rightarrow> int \<Rightarrow> int \<Rightarrow> barrier_slot \<Rightarrow> int" where
  "exit_price label high low close s =
     (if label = -1 then (if 0 < sl_side s then min (sl_sl s) low else max (sl_sl s) high)
      else if label = 1 then sl_tp s else close)"

definition realized_pnl :: "int \<Rightarrow> barrier_slot \<Rightarrow> int" where
  "realized_pnl exit s =
     (if 0 < sl_entry s then
        if 0 < sl_side s then (exit - sl_entry s) * 10000 div sl_entry s else (sl_entry s - exit) * 10000 div sl_entry s
      else 0)"

definition label_of :: "int \<Rightarrow> int \<Rightarrow> int \<Rightarrow> int \<Rightarrow> int \<Rightarrow> barrier_slot \<Rightarrow> label_row" where
  "label_of label high low close bar s =
     (let exit = exit_price label high low close s
      in \<lparr>lr_id = sl_id s, lr_label = label, lr_entry = sl_entry s, lr_exit = exit, lr_entry_bar = sl_entry_bar s,
          lr_exit_bar = bar, lr_side = sl_side s, lr_held = bar - sl_entry_bar s, lr_mfe = favorable s, lr_mae = adverse s,
          lr_pnl = realized_pnl exit s\<rparr>)"

definition resolve_slot :: "int \<Rightarrow> int \<Rightarrow> int \<Rightarrow> int \<Rightarrow> int \<times> nat \<Rightarrow> labeler \<Rightarrow> labeler" where
  "resolve_slot high low close bar li lb =
     (let (label, i) = li in free_slot i (push_label (label_of label high low close bar (lb_slots lb ! i)) lb))"

definition resolved_indices :: "int \<Rightarrow> int \<Rightarrow> int \<Rightarrow> labeler \<Rightarrow> (int \<times> nat) list" where
  "resolved_indices high low bar lb =
     List.map_filter (\<lambda>i. map_option (\<lambda>l. (l, i)) (resolution high low bar (lb_slots lb ! i))) [0..<length (lb_slots lb)]"

definition scan_barriers :: "int \<Rightarrow> int \<Rightarrow> int \<Rightarrow> int \<Rightarrow> labeler \<Rightarrow> labeler \<times> (int \<times> int) list" where
  "scan_barriers high low close bar lb =
     (if \<not> list_ex sl_active (lb_slots lb) then (lb, [])
      else let lb1 = lb\<lparr>lb_slots := map (watermark high low) (lb_slots lb)\<rparr>;
               hits = resolved_indices high low bar lb1
           in (fold (resolve_slot high low close bar) hits lb1,
               if lb_callback lb then map (\<lambda>(label, i). (sl_id (lb_slots lb1 ! i), label)) hits else []))"

text \<open>The bars that a listener is told about; a row that cannot be read is skipped.\<close>

fun scan_bars :: "(int \<Rightarrow> py_error + bar_row) \<Rightarrow> int list \<Rightarrow> labeler \<Rightarrow> labeler \<times> (int \<times> int) list" where
  "scan_bars row [] lb = (lb, [])"
| "scan_bars row (j # js) lb =
     (case row j of
        Inl _ \<Rightarrow> scan_bars row js lb
      | Inr r \<Rightarrow>
          let (lb1, calls) = scan_barriers (br_high r) (br_low r) (br_close r) j lb
          in if lb_open lb1 = 0 then (lb1, calls)
             else let (lb2, calls2) = scan_bars row js lb1 in (lb2, calls @ calls2))"

definition on_bars_closed :: "ring_engine \<Rightarrow> int \<Rightarrow> int \<Rightarrow> labeler \<Rightarrow> labeler \<times> (int \<times> int) list" where
  "on_bars_closed e produced first lb =
     (if lb_open lb = 0 then (lb, [])
      else scan_bars (\<lambda>j. get_bar_row j e) (map (\<lambda>k. first + int k) [0..<nat produced]) lb)"

section \<open>Reading the results\<close>

definition latest_labels :: "labeler \<Rightarrow> label_row list" where
  "latest_labels lb =
     map (\<lambda>i. lb_res lb ! nat ((int (lb_head lb) - 1 - int i) mod int (lb_cap lb))) [0..<min (lb_count lb) (lb_cap lb)]"

definition get_label :: "int \<Rightarrow> labeler \<Rightarrow> int option" where
  "get_label iid lb = map_option lr_label (List.find (\<lambda>r. lr_id r = iid) (latest_labels lb))"

definition get_pnl :: "int \<Rightarrow> labeler \<Rightarrow> int option" where
  "get_pnl iid lb = map_option lr_pnl (List.find (\<lambda>r. lr_id r = iid) (latest_labels lb))"

definition get_win_rate :: "nat \<Rightarrow> labeler \<Rightarrow> nat \<times> nat \<times> nat" where
  "get_win_rate last_n lb =
     (let rows = take last_n (latest_labels lb)
      in (length (filter (\<lambda>r. lr_label r = 1) rows), length (filter (\<lambda>r. lr_label r = -1) rows),
          length (filter (\<lambda>r. lr_label r \<noteq> 1 \<and> lr_label r \<noteq> -1) rows)))"

definition get_results_view :: "nat \<Rightarrow> labeler \<Rightarrow> label_row list" where
  "get_results_view last_n lb =
     (let available = min last_n (min (lb_count lb) (lb_cap lb)); head = lb_head lb
      in if available = 0 then []
         else if available \<le> head then slice (lb_res lb) (head - available) head
         else drop (lb_cap lb - (available - head)) (lb_res lb) @ take head (lb_res lb))"

section \<open>The wiring\<close>

record bar_feed =
  bf_ring :: ring_engine
  bf_labeler :: labeler

definition feed_trade :: "int \<Rightarrow> int \<Rightarrow> int \<Rightarrow> bar_feed \<Rightarrow> (bar_feed \<times> (int \<times> int) list) option" where
  "feed_trade price qty ts f =
     (case ring_ingest price qty ts (bf_ring f) of
        None \<Rightarrow> None
      | Some (e, n, None) \<Rightarrow> Some (f\<lparr>bf_ring := e\<rparr>, [])
      | Some (e, n, Some (produced, first)) \<Rightarrow>
          let (lb, calls) = on_bars_closed e produced first (bf_labeler f)
          in Some (\<lparr>bf_ring = e, bf_labeler = lb\<rparr>, calls))"

section \<open>The result ring\<close>

definition results_ok :: "labeler \<Rightarrow> bool" where
  "results_ok lb \<longleftrightarrow> 0 < lb_cap lb \<and> length (lb_res lb) = lb_cap lb \<and> lb_head lb = lb_count lb mod lb_cap lb"

lemma push_results_ok: "results_ok lb \<Longrightarrow> results_ok (push_label r lb)"
  by (simp add: results_ok_def push_label_def mod_Suc_eq)

lemma back_slot:
  assumes "0 < c" "i < min n c"
  shows "nat ((int (n mod c) - 1 - int i) mod int c) = (n - 1 - i) mod c"
proof -
  have "(int (n mod c) - 1 - int i) mod int c = (int n - 1 - int i) mod int c"
    using mod_diff_left_eq [of "int n" "int c" "1 + int i"] by (simp add: zmod_int algebra_simps)
  also have "int n - 1 - int i = int (n - 1 - i)" using assms(2) by auto
  finally show ?thesis by (metis zmod_int nat_int)
qed

lemma latest_labels_eq:
  "results_ok lb \<Longrightarrow> latest_labels lb = map (\<lambda>i. lb_res lb ! ((lb_count lb - 1 - i) mod lb_cap lb)) [0..<min (lb_count lb) (lb_cap lb)]"
  by (auto simp: latest_labels_def results_ok_def back_slot)

lemma latest_push:
  assumes "results_ok lb"
  shows "latest_labels (push_label r lb) = take (lb_cap lb) (r # latest_labels lb)"
proof (rule nth_equalityI)
  let ?c = "lb_cap lb" and ?n = "lb_count lb"
  have c: "0 < ?c" "length (lb_res lb) = ?c" "lb_head lb = ?n mod ?c" using assms by (simp_all add: results_ok_def)
  have len: "length (latest_labels lb) = min ?n ?c" "length (latest_labels (push_label r lb)) = min (Suc ?n) ?c"
    by (simp_all add: latest_labels_def push_label_def)
  then show "length (latest_labels (push_label r lb)) = length (take ?c (r # latest_labels lb))" by simp
  fix i assume "i < length (latest_labels (push_label r lb))"
  then have i: "i < min (Suc ?n) ?c" using len by simp
  have l: "latest_labels (push_label r lb) ! i = (lb_res lb)[?n mod ?c := r] ! ((?n - i) mod ?c)"
    using i c push_results_ok [OF assms] by (simp add: latest_labels_eq) (simp add: push_label_def)
  show "latest_labels (push_label r lb) ! i = take ?c (r # latest_labels lb) ! i"
  proof (cases i)
    case 0
    then show ?thesis using l c i by simp
  next
    case (Suc k)
    have "nat (int ?n mod int ?c) \<noteq> nat (int (?n - i) mod int ?c)"
      using slot_eq [of ?c "int ?n" "int (?n - i)"] i Suc c by auto
    then have "?n mod ?c \<noteq> (?n - i) mod ?c" by (metis zmod_int nat_int)
    then have "(lb_res lb)[?n mod ?c := r] ! ((?n - i) mod ?c) = lb_res lb ! ((?n - 1 - k) mod ?c)"
      using Suc i by simp
    then show ?thesis using l Suc i latest_labels_eq [OF assms] by simp
  qed
qed

section \<open>A scan, slot by slot\<close>

lemma free_frame [simp]:
  "lb_res (free_slot i lb) = lb_res lb" "lb_cap (free_slot i lb) = lb_cap lb" "lb_head (free_slot i lb) = lb_head lb"
  "lb_count (free_slot i lb) = lb_count lb" "lb_next (free_slot i lb) = lb_next lb" "lb_callback (free_slot i lb) = lb_callback lb"
  "latest_labels (free_slot i lb) = latest_labels lb" "results_ok (free_slot i lb) = results_ok lb"
  "lb_open (free_slot i lb) = lb_open lb - 1" "length (lb_slots (free_slot i lb)) = length (lb_slots lb)"
  by (simp_all add: free_slot_def latest_labels_def results_ok_def)

lemma push_frame [simp]:
  "lb_slots (push_label r lb) = lb_slots lb" "lb_cap (push_label r lb) = lb_cap lb" "lb_count (push_label r lb) = lb_count lb + 1"
  "lb_open (push_label r lb) = lb_open lb" "lb_next (push_label r lb) = lb_next lb" "lb_callback (push_label r lb) = lb_callback lb"
  by (simp_all add: push_label_def)

lemma resolve_frame [simp]:
  "lb_cap (resolve_slot h l c b li lb) = lb_cap lb" "lb_count (resolve_slot h l c b li lb) = lb_count lb + 1"
  "lb_open (resolve_slot h l c b li lb) = lb_open lb - 1" "lb_next (resolve_slot h l c b li lb) = lb_next lb"
  "lb_callback (resolve_slot h l c b li lb) = lb_callback lb"
  "length (lb_slots (resolve_slot h l c b li lb)) = length (lb_slots lb)"
  by (simp_all add: resolve_slot_def split: prod.split)

lemma resolve_slots:
  "lb_slots (resolve_slot h l c b (lab, i) lb) = (lb_slots lb)[i := (lb_slots lb ! i)\<lparr>sl_active := False\<rparr>]"
  by (simp add: resolve_slot_def free_slot_def)

lemma resolve_latest:
  "results_ok lb \<Longrightarrow> latest_labels (resolve_slot h l c b (lab, i) lb) = take (lb_cap lb) (label_of lab h l c b (lb_slots lb ! i) # latest_labels lb)
    \<and> results_ok (resolve_slot h l c b (lab, i) lb)"
  by (simp add: resolve_slot_def latest_push push_results_ok)

definition hit_at :: "nat \<Rightarrow> (int \<times> nat) list \<Rightarrow> bool" where
  "hit_at i hits \<longleftrightarrow> i \<in> snd ` set hits"

lemma hit_at_simps [simp]: "hit_at i [] = False" "hit_at i ((l, k) # hits) = (i = k \<or> hit_at i hits)"
  by (auto simp: hit_at_def)

lemma hit_at_iff: "hit_at i hits \<longleftrightarrow> (\<exists>lab. (lab, i) \<in> set hits)"
  by (force simp: hit_at_def)

lemma fold_resolve_slots:
  "distinct (map snd hits) \<Longrightarrow> i < length (lb_slots lb) \<Longrightarrow>
    lb_slots (fold (resolve_slot h l c b) hits lb) ! i = (if hit_at i hits then (lb_slots lb ! i)\<lparr>sl_active := False\<rparr> else lb_slots lb ! i)
    \<and> length (lb_slots (fold (resolve_slot h l c b) hits lb)) = length (lb_slots lb)"
proof (induction hits arbitrary: lb)
  case (Cons x hits)
  obtain lab k where x: "x = (lab, k)" by (cases x) auto
  have "hit_at i hits \<Longrightarrow> i \<noteq> k" using Cons.prems x by (auto simp: hit_at_def)
  with Cons.IH [of "resolve_slot h l c b x lb"] Cons.prems x show ?case
    by (auto simp: resolve_slots nth_list_update)
qed simp

lemma fold_resolve_counts:
  "lb_count (fold (resolve_slot h l c b) hits lb) = lb_count lb + length hits
    \<and> lb_open (fold (resolve_slot h l c b) hits lb) = lb_open lb - int (length hits)
    \<and> lb_next (fold (resolve_slot h l c b) hits lb) = lb_next lb
    \<and> lb_cap (fold (resolve_slot h l c b) hits lb) = lb_cap lb
    \<and> lb_callback (fold (resolve_slot h l c b) hits lb) = lb_callback lb"
  by (induction hits arbitrary: lb) auto

lemma take_Cons_take: "take n (xs @ take n ys) = take n (xs @ ys)"
  by (simp add: take_append min_def)

lemma fold_resolve_latest:
  "results_ok lb \<Longrightarrow> distinct (map snd hits) \<Longrightarrow>
    latest_labels (fold (resolve_slot h l c b) hits lb) =
      take (lb_cap lb) (rev (map (\<lambda>(lab, i). label_of lab h l c b (lb_slots lb ! i)) hits) @ latest_labels lb)
    \<and> results_ok (fold (resolve_slot h l c b) hits lb)"
proof (induction hits arbitrary: lb)
  case Nil
  have "length (latest_labels lb) \<le> lb_cap lb" by (simp add: latest_labels_def)
  with Nil show ?case by simp
next
  case (Cons x hits)
  obtain lab k where x: "x = (lab, k)" by (cases x) auto
  let ?lb = "resolve_slot h l c b x lb"
  have same: "map (\<lambda>(lab, i). label_of lab h l c b (lb_slots ?lb ! i)) hits = map (\<lambda>(lab, i). label_of lab h l c b (lb_slots lb ! i)) hits"
  proof (rule map_cong)
    fix y assume y: "y \<in> set hits"
    then have "snd y \<noteq> k" using Cons.prems(2) x by (auto simp: rev_image_eqI)
    then show "(case y of (lab, i) \<Rightarrow> label_of lab h l c b (lb_slots ?lb ! i)) = (case y of (lab, i) \<Rightarrow> label_of lab h l c b (lb_slots lb ! i))"
      by (auto simp: x resolve_slots split: prod.split)
  qed simp
  from Cons.IH [of ?lb] resolve_latest [OF Cons.prems(1), of h l c b lab k] Cons.prems(2) show ?case
    unfolding fold_simps same by (simp add: x take_Cons_take [of "lb_cap lb" "rev _"])
qed

section \<open>The invariant: every intent is open or labelled, once\<close>

definition open_ids :: "labeler \<Rightarrow> int list" where
  "open_ids lb = map sl_id (filter sl_active (lb_slots lb))"

text \<open>
  The identifiers of the open slots and of the labels still in the ring are all different
  and were all issued; everything issued is open or was labelled.
\<close>

definition labeler_ok :: "labeler \<Rightarrow> bool" where
  "labeler_ok lb \<longleftrightarrow> results_ok lb \<and> distinct (open_ids lb @ map lr_id (latest_labels lb))
     \<and> set (open_ids lb @ map lr_id (latest_labels lb)) \<subseteq> {0..<lb_next lb}
     \<and> int (length (open_ids lb)) = lb_open lb \<and> lb_open lb + int (lb_count lb) = lb_next lb"

lemma labeler_ids: "labeler_ok lb \<Longrightarrow> set (open_ids lb @ map lr_id (latest_labels lb)) \<subseteq> {0..<lb_next lb}"
  unfolding labeler_ok_def by blast

lemma open_ids_split:
  "i < length ss \<Longrightarrow> sl_active (ss ! i) \<Longrightarrow>
    mset (map sl_id (filter sl_active ss)) = add_mset (sl_id (ss ! i)) (mset (map sl_id (filter sl_active (ss[i := (ss ! i)\<lparr>sl_active := False\<rparr>]))))"
proof (induction ss arbitrary: i)
  case (Cons s ss)
  then show ?case by (cases i) auto
qed simp

lemma resolve_ok:
  assumes "labeler_ok lb" "i < length (lb_slots lb)" "sl_active (lb_slots lb ! i)" "lr_id r = sl_id (lb_slots lb ! i)"
  shows "labeler_ok (free_slot i (push_label r lb))"
proof -
  let ?lb = "free_slot i (push_label r lb)"
  have res: "results_ok lb" using assms(1) by (simp add: labeler_ok_def)
  have latest: "latest_labels ?lb = take (lb_cap lb) (r # latest_labels lb)" using latest_push [OF res] by simp
  have opens: "mset (open_ids lb) = add_mset (lr_id r) (mset (open_ids ?lb))"
    using open_ids_split [OF assms(2,3)] assms(4) by (simp add: open_ids_def free_slot_def)
  have all: "mset (open_ids lb @ map lr_id (latest_labels lb)) = mset (open_ids ?lb @ map lr_id (r # latest_labels lb))"
    using opens by simp
  have "distinct (open_ids ?lb @ map lr_id (r # latest_labels lb))"
    using assms(1) mset_eq_imp_distinct_iff [OF all] by (simp add: labeler_ok_def)
  moreover have "set (open_ids lb @ map lr_id (latest_labels lb)) \<subseteq> {0..<lb_next lb}"
    by (rule labeler_ids [OF assms(1)])
  then have "set (open_ids ?lb @ map lr_id (r # latest_labels lb)) \<subseteq> {0..<lb_next lb}"
    unfolding mset_eq_setD [OF all] .
  moreover have "length (open_ids lb) = Suc (length (open_ids ?lb))"
    using arg_cong [OF opens, where f = size] by simp
  moreover have "set (map lr_id (take (lb_cap lb) (r # latest_labels lb))) \<subseteq> set (map lr_id (r # latest_labels lb))"
    by (auto dest!: in_set_takeD)
  moreover have "distinct (map lr_id (r # latest_labels lb)) \<Longrightarrow> distinct (map lr_id (take (lb_cap lb) (r # latest_labels lb)))"
    by (simp only: take_map [symmetric] distinct_take)
  ultimately have "distinct (open_ids ?lb @ map lr_id (latest_labels ?lb))"
    "set (open_ids ?lb @ map lr_id (latest_labels ?lb)) \<subseteq> {0..<lb_next lb}" "length (open_ids lb) = Suc (length (open_ids ?lb))"
    unfolding latest distinct_append set_append by blast+
  then show ?thesis
    using assms(1) push_results_ok [OF res] by (simp add: labeler_ok_def)
qed

lemma active_indicesI: "i \<in> set (active_indices lb) \<longleftrightarrow> i < length (lb_slots lb) \<and> sl_active (lb_slots lb ! i)"
  by (auto simp: active_indices_def)

lemma arg_least_in: "arg_least f b is \<in> insert b (set is)"
  by (induction "is" arbitrary: b) (auto split: if_splits)

lemma evict_ok:
  assumes "labeler_ok lb"
  shows "labeler_ok (evict_oldest n lb) \<and> lb_next (evict_oldest n lb) = lb_next lb"
proof (cases "active_indices lb")
  case (Cons a as)
  let ?i = "arg_least (\<lambda>i. sl_entry_bar (lb_slots lb ! i)) a as"
  have "?i \<in> set (active_indices lb)" using arg_least_in [of _ a as] Cons by auto
  then have "?i < length (lb_slots lb)" "sl_active (lb_slots lb ! ?i)" by (simp_all add: active_indicesI)
  then show ?thesis using Cons assms by (simp add: evict_oldest_def Let_def resolve_ok)
qed (use assms in \<open>simp add: evict_oldest_def\<close>)

lemma open_ids_new:
  "i < length ss \<Longrightarrow> \<not> sl_active (ss ! i) \<Longrightarrow> sl_active s \<Longrightarrow>
    mset (map sl_id (filter sl_active (ss[i := s]))) = add_mset (sl_id s) (mset (map sl_id (filter sl_active ss)))"
proof (induction ss arbitrary: i)
  case (Cons x ss)
  then show ?case by (cases i) auto
qed simp

lemma register_ok:
  assumes "labeler_ok lb"
  shows "labeler_ok (fst (register_intent price side tp sl maxb n lb))"
proof -
  define lb1 where "lb1 = (if free_indices lb = [] then evict_oldest n lb else lb)"
  have ok: "labeler_ok lb1" using assms evict_ok by (simp add: lb1_def)
  show ?thesis
  proof (cases "free_indices lb1")
    case Nil
    with ok show ?thesis by (simp add: register_intent_def Let_def lb1_def [symmetric])
  next
    case (Cons i js)
    let ?s = "new_slot (lb_next lb1) price side tp sl maxb n"
    let ?lb = "lb1\<lparr>lb_next := lb_next lb1 + 1, lb_slots := (lb_slots lb1)[i := ?s], lb_open := lb_open lb1 + 1\<rparr>"
    have "i \<in> set (free_indices lb1)" using Cons by simp
    then have "i < length (lb_slots lb1)" "\<not> sl_active (lb_slots lb1 ! i)" by (auto simp: free_indices_def)
    from open_ids_new [OF this, of ?s] have opens: "mset (open_ids ?lb) = add_mset (lb_next lb1) (mset (open_ids lb1))"
      by (simp add: open_ids_def new_slot_def)
    have latest: "latest_labels ?lb = latest_labels lb1" by (simp add: latest_labels_def)
    have all: "mset (open_ids ?lb @ map lr_id (latest_labels ?lb)) = mset (lb_next lb1 # open_ids lb1 @ map lr_id (latest_labels lb1))"
      using opens latest by simp
    have "lb_next lb1 \<notin> set (open_ids lb1 @ map lr_id (latest_labels lb1))" using ok unfolding labeler_ok_def by fastforce
    then have "distinct (lb_next lb1 # open_ids lb1 @ map lr_id (latest_labels lb1))" using ok by (simp add: labeler_ok_def)
    then have "distinct (open_ids ?lb @ map lr_id (latest_labels ?lb))" using mset_eq_imp_distinct_iff [OF all] by simp
    moreover have "set (open_ids ?lb @ map lr_id (latest_labels ?lb)) = insert (lb_next lb1) (set (open_ids lb1 @ map lr_id (latest_labels lb1)))"
      using mset_eq_setD [OF all] by simp
    moreover have "set (open_ids lb1 @ map lr_id (latest_labels lb1)) \<subseteq> {0..<lb_next lb1}" by (rule labeler_ids [OF ok])
    moreover have "0 \<le> lb_next lb1" using ok by (simp add: labeler_ok_def)
    moreover have "length (open_ids ?lb) = Suc (length (open_ids lb1))" using arg_cong [OF opens, where f = size] by simp
    moreover have "results_ok ?lb" using ok by (simp add: labeler_ok_def results_ok_def)
    ultimately have "labeler_ok ?lb" using ok unfolding labeler_ok_def by fastforce
    with Cons show ?thesis by (simp add: register_intent_def Let_def lb1_def [symmetric])
  qed
qed

lemma watermark_simps [simp]:
  "sl_active (watermark h l s) = sl_active s" "sl_id (watermark h l s) = sl_id s" "sl_entry (watermark h l s) = sl_entry s"
  "sl_side (watermark h l s) = sl_side s" "sl_tp (watermark h l s) = sl_tp s" "sl_sl (watermark h l s) = sl_sl s"
  "sl_entry_bar (watermark h l s) = sl_entry_bar s" "sl_max_bars (watermark h l s) = sl_max_bars s"
  by (simp_all add: watermark_def)

lemma watermarked_ok: "labeler_ok lb \<Longrightarrow> labeler_ok (lb\<lparr>lb_slots := map (watermark h l) (lb_slots lb)\<rparr>)"
proof -
  have "open_ids (lb\<lparr>lb_slots := map (watermark h l) (lb_slots lb)\<rparr>) = open_ids lb"
    by (simp add: open_ids_def filter_map comp_def)
  moreover have "latest_labels (lb\<lparr>lb_slots := map (watermark h l) (lb_slots lb)\<rparr>) = latest_labels lb"
    by (simp add: latest_labels_def)
  ultimately show "labeler_ok lb \<Longrightarrow> ?thesis" by (simp add: labeler_ok_def results_ok_def)
qed

lemma resolution_watermark [simp]: "resolution h l b (watermark h' l' s) = resolution h l b s"
  by (simp add: resolution_def hit_sl_def hit_tp_def hit_vb_def)

lemma resolution_active: "resolution h l b s = Some lab \<Longrightarrow> sl_active s"
  by (auto simp: resolution_def hit_sl_def hit_tp_def hit_vb_def Let_def split: if_splits)

lemma set_map_filter: "set (List.map_filter f xs) = {y. \<exists>x \<in> set xs. f x = Some y}"
  by (force simp: List.map_filter_def)

lemma hits_iff: "(lab, i) \<in> set (resolved_indices h l b lb) \<longleftrightarrow> i < length (lb_slots lb) \<and> resolution h l b (lb_slots lb ! i) = Some lab"
  by (auto simp: resolved_indices_def set_map_filter)

lemma map_snd_map_filter: "map snd (List.map_filter (\<lambda>i. map_option (\<lambda>l. (l, i)) (f i)) xs) = filter (\<lambda>i. f i \<noteq> None) xs"
  by (induction xs) (auto simp: List.map_filter_simps split: option.split)

lemma hits_distinct: "distinct (map snd (resolved_indices h l b lb))"
  by (simp add: resolved_indices_def map_snd_map_filter)

lemma fold_resolve_ok:
  "labeler_ok lb \<Longrightarrow> distinct (map snd hits) \<Longrightarrow> (\<forall>(lab, i) \<in> set hits. i < length (lb_slots lb) \<and> sl_active (lb_slots lb ! i)) \<Longrightarrow>
    labeler_ok (fold (resolve_slot h l c b) hits lb)"
proof (induction hits arbitrary: lb)
  case (Cons x hits)
  obtain lab k where x: "x = (lab, k)" by (cases x) auto
  have "labeler_ok (resolve_slot h l c b x lb)"
    using Cons.prems x by (simp add: resolve_slot_def label_of_def Let_def resolve_ok)
  moreover have "\<forall>(lab, i) \<in> set hits. i < length (lb_slots (resolve_slot h l c b x lb)) \<and> sl_active (lb_slots (resolve_slot h l c b x lb) ! i)"
  proof clarify
    fix lab' i assume i: "(lab', i) \<in> set hits"
    then have "i \<noteq> k" using Cons.prems(2) x by (auto simp: rev_image_eqI)
    with i Cons.prems(3) show "i < length (lb_slots (resolve_slot h l c b x lb)) \<and> sl_active (lb_slots (resolve_slot h l c b x lb) ! i)"
      by (auto simp: x resolve_slots)
  qed
  ultimately show ?case using Cons by simp
qed simp

lemma scan_ok: "labeler_ok lb \<Longrightarrow> labeler_ok (fst (scan_barriers h l c b lb))"
proof -
  assume ok: "labeler_ok lb"
  let ?lb = "lb\<lparr>lb_slots := map (watermark h l) (lb_slots lb)\<rparr>"
  have "\<forall>(lab, i) \<in> set (resolved_indices h l b ?lb). i < length (lb_slots ?lb) \<and> sl_active (lb_slots ?lb ! i)"
    by (auto simp: hits_iff dest!: resolution_active)
  from fold_resolve_ok [OF watermarked_ok [OF ok] hits_distinct this] ok show ?thesis
    by (simp add: scan_barriers_def Let_def)
qed

lemma scan_bars_ok: "labeler_ok lb \<Longrightarrow> labeler_ok (fst (scan_bars row js lb))"
proof (induction js arbitrary: lb)
  case (Cons j js)
  show ?case
  proof (cases "row j")
    case (Inl x)
    with Cons show ?thesis by simp
  next
    case (Inr r)
    have "labeler_ok (fst (scan_barriers (br_high r) (br_low r) (br_close r) j lb))" using Cons.prems by (rule scan_ok)
    with Inr Cons.IH show ?thesis by (auto simp: Let_def split_beta)
  qed
qed simp

lemma on_bars_ok: "labeler_ok lb \<Longrightarrow> labeler_ok (fst (on_bars_closed e n first lb))"
  by (simp add: on_bars_closed_def scan_bars_ok)

datatype labeler_event =
    Register int int int int int int
  | Bars ring_engine int int

fun labeler_step :: "labeler_event \<Rightarrow> labeler \<Rightarrow> labeler" where
  "labeler_step (Register price side tp sl maxb n) lb = fst (register_intent price side tp sl maxb n lb)"
| "labeler_step (Bars e n first) lb = fst (on_bars_closed e n first lb)"

lemma labeler_init_ok: "0 < results \<Longrightarrow> labeler_ok (labeler_init k results cb)"
  by (simp add: labeler_ok_def labeler_init_def results_ok_def open_ids_def empty_slot_def latest_labels_def)

lemma labeler_run_ok: "0 < results \<Longrightarrow> labeler_ok (fold labeler_step evs (labeler_init k results cb))"
proof (rule fold_inv)
  show "0 < results \<Longrightarrow> labeler_ok (labeler_init k results cb)" by (rule labeler_init_ok)
  show "labeler_ok lb \<Longrightarrow> labeler_ok (labeler_step ev lb)" for lb ev
    by (cases ev) (simp_all add: register_ok on_bars_ok)
qed



section \<open>What a bar does to a slot\<close>

text \<open>The reference: a slot, on its own, after a bar.\<close>

definition slot_after :: "int \<Rightarrow> int \<Rightarrow> int \<Rightarrow> barrier_slot \<Rightarrow> barrier_slot" where
  "slot_after h l b s =
     (let s1 = watermark h l s
      in if resolution h l b s1 = None then s1 else s1\<lparr>sl_active := False\<rparr>)"

lemma scan_slots:
  "lb_slots (fst (scan_barriers h l c b lb)) = map (slot_after h l b) (lb_slots lb)"
proof (cases "list_ex sl_active (lb_slots lb)")
  case True
  let ?lb = "lb\<lparr>lb_slots := map (watermark h l) (lb_slots lb)\<rparr>"
  show ?thesis
  proof (rule nth_equalityI)
    show "length (lb_slots (fst (scan_barriers h l c b lb))) = length (map (slot_after h l b) (lb_slots lb))"
      using fold_resolve_slots [OF hits_distinct, of 0 ?lb h l c b h l b ?lb] True
      by (cases "lb_slots lb") (auto simp: scan_barriers_def Let_def)
    fix i assume "i < length (lb_slots (fst (scan_barriers h l c b lb)))"
    then have i: "i < length (lb_slots lb)"
      using fold_resolve_slots [OF hits_distinct, of 0 ?lb h l c b h l b ?lb] True
      by (cases "lb_slots lb") (auto simp: scan_barriers_def Let_def)
    have "hit_at i (resolved_indices h l b ?lb) \<longleftrightarrow> resolution h l b (lb_slots lb ! i) \<noteq> None"
      using i by (auto simp: hit_at_iff hits_iff)
    with fold_resolve_slots [OF hits_distinct, of i ?lb h l c b h l b ?lb] i True
    show "lb_slots (fst (scan_barriers h l c b lb)) ! i = map (slot_after h l b) (lb_slots lb) ! i"
      by (simp add: scan_barriers_def Let_def slot_after_def)
  qed
next
  case False
  then have "slot_after h l b s = s" if "s \<in> set (lb_slots lb)" for s
    using that resolution_active [of h l b s]
    by (cases "resolution h l b s") (auto simp: slot_after_def Let_def watermark_def list_ex_iff)
  with False show ?thesis by (simp add: scan_barriers_def map_idI)
qed

text \<open>The labels of a bar, in the order of the slots.\<close>

definition bar_labels :: "int \<Rightarrow> int \<Rightarrow> int \<Rightarrow> int \<Rightarrow> barrier_slot list \<Rightarrow> label_row list" where
  "bar_labels h l c b ss =
     List.map_filter (\<lambda>s. map_option (\<lambda>lab. label_of lab h l c b (watermark h l s)) (resolution h l b s)) ss"

lemma map_map_filter: "map g (List.map_filter f xs) = List.map_filter (\<lambda>x. map_option g (f x)) xs"
  by (induction xs) (auto simp: List.map_filter_simps split: option.split)

lemma map_filter_map: "List.map_filter f (map g xs) = List.map_filter (\<lambda>x. f (g x)) xs"
  by (induction xs) (auto simp: List.map_filter_simps split: option.split)

lemma map_filter_nth: "List.map_filter (\<lambda>i. f (xs ! i)) [0..<length xs] = List.map_filter f xs"
  using map_filter_map [of f "(!) xs" "[0..<length xs]"] by (simp add: map_nth)

lemma no_labels: "\<not> list_ex sl_active ss \<Longrightarrow> bar_labels h l c b ss = []"
proof (induction ss)
  case (Cons s ss)
  then have "resolution h l b s = None" using resolution_active [of h l b s] by (cases "resolution h l b s") auto
  with Cons show ?case by (simp add: bar_labels_def List.map_filter_simps)
qed (simp add: bar_labels_def List.map_filter_simps)

lemma hit_labels:
  "map (\<lambda>(lab, i). g lab (lb_slots lb ! i)) (resolved_indices h l b lb)
    = List.map_filter (\<lambda>s. map_option (\<lambda>lab. g lab s) (resolution h l b s)) (lb_slots lb)"
  unfolding resolved_indices_def map_map_filter option.map_comp comp_def prod.case
  by (rule map_filter_nth)

lemma scan_reference:
  assumes "results_ok lb"
  shows "lb_slots (fst (scan_barriers h l c b lb)) = map (slot_after h l b) (lb_slots lb)
    \<and> latest_labels (fst (scan_barriers h l c b lb)) = take (lb_cap lb) (rev (bar_labels h l c b (lb_slots lb)) @ latest_labels lb)
    \<and> snd (scan_barriers h l c b lb) =
      (if lb_callback lb then map (\<lambda>r. (lr_id r, lr_label r)) (bar_labels h l c b (lb_slots lb)) else [])"
proof (intro conjI)
  show "lb_slots (fst (scan_barriers h l c b lb)) = map (slot_after h l b) (lb_slots lb)" by (rule scan_slots)
  let ?lb = "lb\<lparr>lb_slots := map (watermark h l) (lb_slots lb)\<rparr>"
  let ?hits = "resolved_indices h l b ?lb"
  have rows: "map (\<lambda>(lab, i). label_of lab h l c b (lb_slots ?lb ! i)) ?hits = bar_labels h l c b (lb_slots lb)"
    using hit_labels [of "\<lambda>lab s. label_of lab h l c b s" ?lb h l b] by (simp add: bar_labels_def map_filter_map)
  have len: "length (latest_labels lb) \<le> lb_cap lb" by (simp add: latest_labels_def)
  have latest: "latest_labels ?lb = latest_labels lb" "results_ok ?lb"
    using assms by (simp_all add: latest_labels_def results_ok_def)
  show "latest_labels (fst (scan_barriers h l c b lb)) = take (lb_cap lb) (rev (bar_labels h l c b (lb_slots lb)) @ latest_labels lb)"
    using fold_resolve_latest [OF latest(2) hits_distinct [of h l b ?lb], where h = h and l = l and c = c and b = b] no_labels [of "lb_slots lb" h l c b] len
    unfolding rows latest(1) by (cases "list_ex sl_active (lb_slots lb)") (auto simp: scan_barriers_def Let_def)
  have "map (\<lambda>(lab, i). (sl_id (lb_slots ?lb ! i), lab)) ?hits = map (\<lambda>r. (lr_id r, lr_label r)) (bar_labels h l c b (lb_slots lb))"
    unfolding rows [symmetric] by (simp add: label_of_def Let_def split_beta)
  then show "snd (scan_barriers h l c b lb) =
      (if lb_callback lb then map (\<lambda>r. (lr_id r, lr_label r)) (bar_labels h l c b (lb_slots lb)) else [])"
    using no_labels [of "lb_slots lb" h l c b] by (simp add: scan_barriers_def Let_def)
qed

lemma scan_reference_calls:
  "results_ok lb \<Longrightarrow> snd (scan_barriers h l c b lb) =
    (if lb_callback lb then map (\<lambda>r. (lr_id r, lr_label r)) (bar_labels h l c b (lb_slots lb)) else [])"
  using scan_reference by simp



section \<open>What a label is worth\<close>

lemma div_at_most: "0 < (d::int) \<Longrightarrow> x < d * (k + 1) \<Longrightarrow> x div d \<le> k"
proof -
  assume d: "0 < d" "x < d * (k + 1)"
  have "d * (x div d) \<le> x" using d(1) by (simp add: mult_div_mod_eq [symmetric] le_add_same_cancel1 flip: minus_mod_eq_mult_div)
  with d have "d * (x div d) < d * (k + 1)" by linarith
  then show ?thesis using d(1) by simp
qed

lemma div_at_least: "0 < (d::int) \<Longrightarrow> d * k \<le> x \<Longrightarrow> k \<le> x div d"
  using zdiv_mono1 [of "d * k" x d] by simp

lemma floor_bounds: "10000 * (x div 10000) \<le> x" "x < 10000 * (x div 10000) + 10000" for x :: int
  by presburger+

text \<open>A label keeps what its barriers promised.  For an intent at a price of at least 10000 units,
  a stop-loss label never loses less than the stop's basis points - slippage only adds to
  the loss - and a take-profit label earns the target to within one basis point below it;
  and a take-profit is given only when the bar did not touch the stop.\<close>

theorem labels_keep_their_bps:
  assumes "10000 \<le> price" "s = new_slot iid price side tp_bps sl_bps maxb n" "side \<noteq> 0"
    and "resolution h l b s = Some lab" "r = label_of lab h l c b (watermark h l s)"
  shows "(lab = -1 \<longrightarrow> lr_pnl r \<le> - sl_bps)
    \<and> (lab = 1 \<longrightarrow> tp_bps - 1 \<le> lr_pnl r \<and> lr_pnl r \<le> tp_bps \<and> \<not> hit_sl h l s)"
proof (intro conjI impI)
  have s: "sl_entry s = price" "sl_side s = side" using assms(2) by (simp_all add: new_slot_def)
  note fb = floor_bounds [of "price * (10000 + tp_bps)"] floor_bounds [of "price * (10000 - tp_bps)"]
    floor_bounds [of "price * (10000 + sl_bps)"] floor_bounds [of "price * (10000 - sl_bps)"]
  show "lr_pnl r \<le> - sl_bps" if "lab = -1"
  proof (cases "0 < side")
    case True
    have "(min (sl_sl s) l - price) * 10000 < price * (- sl_bps + 1)"
      using fb(7) assms(1) True by (simp add: assms(2) new_slot_def min_def algebra_simps)
    with True that s assms(1) show ?thesis
      by (simp add: assms(5) label_of_def realized_pnl_def exit_price_def Let_def div_at_most)
  next
    case False
    have "(price - max (sl_sl s) h) * 10000 < price * (- sl_bps + 1)"
      using fb(6) assms(1) False by (simp add: assms(2) new_slot_def max_def algebra_simps)
    with False that s assms(1) show ?thesis
      by (simp add: assms(5) label_of_def realized_pnl_def exit_price_def Let_def div_at_most)
  qed
  assume lab: "lab = 1"
  have pnl: "lr_pnl r = (if 0 < side then (sl_tp s - price) * 10000 div price else (price - sl_tp s) * 10000 div price)"
    using lab s assms(1) by (simp add: assms(5) label_of_def realized_pnl_def exit_price_def Let_def)
  have up: "(sl_tp s - price) * 10000 < price * (tp_bps + 1)" "price * (tp_bps - 1) \<le> (sl_tp s - price) * 10000" if "0 < side"
    using fb(1,2) assms(1) that by (simp_all add: assms(2) new_slot_def algebra_simps)
  have down: "(price - sl_tp s) * 10000 < price * (tp_bps + 1)" "price * (tp_bps - 1) \<le> (price - sl_tp s) * 10000" if "\<not> 0 < side"
    using fb(3,4) assms(1) that by (simp_all add: assms(2) new_slot_def algebra_simps)
  show "lr_pnl r \<le> tp_bps" "tp_bps - 1 \<le> lr_pnl r"
    using up down assms(1) unfolding pnl by (auto intro: div_at_most div_at_least)
  show "\<not> hit_sl h l s" using assms(4) lab by (auto simp: resolution_def Let_def split: if_splits)
qed

theorem labels_keep_their_bps_witness:
  "lr_pnl (label_of (-1) 10010 9900 9950 1 (watermark 10010 9900 (new_slot 0 10000 1 50 50 3 0))) \<le> -50"
  using labels_keep_their_bps [OF _ refl _ _ refl, of 10000 1 10010 9900 1 0 50 50 3 0 "-1" 9950]
  by (simp add: resolution_def hit_sl_def hit_tp_def hit_vb_def new_slot_def Let_def)

section \<open>The labeller on the ring\<close>

lemma scan_bars_skip: "(\<forall>j \<in> set pre. row j = Inl IndexError) \<Longrightarrow> scan_bars row (pre @ js) lb = scan_bars row js lb"
  by (induction pre) auto

lemma scan_bars_first:
  "row j = Inr r \<Longrightarrow> set (snd (scan_barriers (br_high r) (br_low r) (br_close r) j lb)) \<subseteq> set (snd (scan_bars row (j # js) lb))"
  by (auto simp: Let_def split_beta)

lemma stop_called:
  assumes "results_ok lb" "lb_callback lb" "s \<in> set (lb_slots lb)" "hit_sl h l s"
  shows "(sl_id s, -1) \<in> set (snd (scan_barriers h l c b lb))"
proof -
  have "resolution h l b s = Some (-1)" using assms(4) by (simp add: resolution_def)
  then have "label_of (-1) h l c b (watermark h l s) \<in> set (bar_labels h l c b (lb_slots lb))"
    using assms(3) by (force simp: bar_labels_def set_map_filter)
  then show ?thesis
    using scan_reference_calls [OF assms(1), of h l c b] assms(2) by (force simp: label_of_def Let_def image_iff)
qed

text \<open>An elephant trade stops every long out at a price of zero.  When one trade closes at least
  as many bars as the ring holds, the first bar the labeller can read is the blank oldest
  one, and each open long is labelled a stop-loss on it, whatever the price of the trade and
  however far the stop.\<close>

theorem elephant_stops_longs:
  assumes "bar_ring_ok (bf_ring f)" "1 < re_capacity (bf_ring f)"
    and "ring_ingest price qty ts (bf_ring f) = Some (e, n, Some (n, first))" "int (re_capacity (bf_ring f)) \<le> n"
    and "labeler_ok (bf_labeler f)" "lb_callback (bf_labeler f)"
    and "s \<in> set (lb_slots (bf_labeler f))" "sl_active s" "0 < sl_side s" "0 \<le> sl_sl s"
  shows "\<exists>f' calls. feed_trade price qty ts f = Some (f', calls) \<and> (sl_id s, -1) \<in> set calls"
proof -
  let ?lb = "bf_labeler f" and ?cap = "re_capacity (bf_ring f)"
  have pos: "\<not> (price \<le> 0 \<or> qty \<le> 0)" "\<not> price * qty div re_scale (bf_ring f) \<le> 0"
    using assms(3) by (auto simp: ring_ingest_def Let_def split: if_splits)
  obtain e1 where e1: "ingest_loop price ts (price * qty div re_scale (bf_ring f)) qty 0 (bf_ring f) = Some (e1, n)"
    "bar_ring_ok e1" "re_capacity e1 = ?cap" "re_count e1 = re_count (bf_ring f) + n"
    using ingest_loop_result [OF assms(1,2), of "price * qty div re_scale (bf_ring f)" 0 price ts qty] assms(3) pos
    by (auto simp: ring_ingest_def Let_def same_shape_def split: if_splits)
  have e: "e = e1" "first = re_count (bf_ring f)"
    using assms(3) e1(1) pos by (auto simp: ring_ingest_def Let_def split: if_splits)
  have count: "0 \<le> re_count (bf_ring f)" using assms(1) by (simp add: bar_ring_ok_def shape_ok_def)
  define k where "k = nat n - ?cap"
  have n: "nat n = k + ?cap" "int k = n - int ?cap" using assms(4) by (auto simp: k_def)
  let ?js = "map (\<lambda>i. first + int i)"
  have "[0..<k + ?cap] = [0..<k] @ k # [Suc k..<k + ?cap]"
    using assms(2) upt_add_eq_append [of 0 k ?cap] upt_conv_Cons [of k "k + ?cap"] by simp
  then have split: "?js [0..<nat n] = ?js [0..<k] @ (first + int k) # ?js [Suc k..<k + ?cap]"
    unfolding n(1) by simp
  have skip: "\<forall>j \<in> set (?js [0..<k]). get_bar_row j e = Inl IndexError"
    using n e e1 by (auto simp: get_bar_row_at ring_shape in_window_def)
  obtain r where r: "get_bar_row (first + int k) e = Inr r" "blank r"
    using oldest_blank_aux [OF e1(2)] e1(3,4) e n count assms(4) by (auto simp: algebra_simps)
  have "lb_open ?lb \<noteq> 0"
    using assms(5,7,8) by (auto simp: labeler_ok_def open_ids_def filter_empty_conv)
  then have calls: "on_bars_closed e n first ?lb = scan_bars (\<lambda>j. get_bar_row j e) ((first + int k) # ?js [Suc k..<k + ?cap]) ?lb"
    unfolding on_bars_closed_def split using scan_bars_skip [OF skip] by simp
  have "hit_sl (br_high r) (br_low r) s" using assms(8-10) r(2) by (simp add: hit_sl_def blank_def)
  with assms(5-7) have "(sl_id s, -1) \<in> set (snd (scan_barriers (br_high r) (br_low r) (br_close r) (first + int k) ?lb))"
    by (intro stop_called) (simp_all add: labeler_ok_def)
  then have "(sl_id s, -1) \<in> set (snd (on_bars_closed e n first ?lb))"
    unfolding calls using scan_bars_first [of "\<lambda>j. get_bar_row j e" "first + int k" r] r(1) by blast
  then show ?thesis using assms(3) by (simp add: feed_trade_def split_beta)
qed

definition demo_feed :: bar_feed where
  "demo_feed = \<lparr>bf_ring = demo_ring, bf_labeler = fst (register_intent 10 1 5000 5000 20 0 (labeler_init 1 8 True))\<rparr>"

theorem elephant_stops_longs_witness:
  "\<exists>f' calls. feed_trade 10 57 3 demo_feed = Some (f', calls) \<and> (0, -1) \<in> set calls"
proof -
  have lb: "bf_labeler demo_feed = (labeler_init 1 8 True)\<lparr>lb_next := 1, lb_slots := [new_slot 0 10 1 5000 5000 20 0], lb_open := 1\<rparr>"
    by (simp add: demo_feed_def register_intent_def labeler_init_def free_indices_def empty_slot_def Let_def)
  have "labeler_ok (bf_labeler demo_feed)"
    by (simp add: demo_feed_def register_ok labeler_init_ok)
  moreover obtain e where "ring_ingest 10 57 3 demo_ring = Some (e, 5, Some (5, 0))"
    using ring_counts_aux [OF demo_ring_facts(1), of 10 57 3] demo_ring_facts by auto
  ultimately show ?thesis
    using elephant_stops_longs [of demo_feed 10 57 3 e 5 0 "new_slot 0 10 1 5000 5000 20 0"] demo_ring_facts
    by (simp add: lb) (simp add: demo_feed_def new_slot_def labeler_init_def)
qed

end
