(* ===== verification/Conflation.thy ===== *)
theory Conflation
  imports Interfaces
begin

text \<open>
  The dollar-bar aggregator of the live radar (\<open>src/src/domain/conflation.py\<close>): the bar,
  the engine with its per-symbol accumulators and threshold provider, a trade tick and the
  resync on reconnect.  The lemmas show that every bar the engine holds or closes is well
  formed, that a closed bar has reached its symbol's threshold, that no dollar of the tape
  is lost or counted twice, and that symbols do not touch each other.
\<close>

section \<open>Bars and the engine\<close>

record dollar_bar =
  bar_symbol :: symbol
  bar_open :: flt
  bar_high :: flt
  bar_low :: flt
  bar_close :: flt
  volume_crypto :: flt
  volume_usd :: flt
  buy_volume_usd :: flt
  sell_volume_usd :: flt
  tick_count :: int
  start_ts :: time
  end_ts :: time
  ofi_accum :: flt

definition order_flow_imbalance :: "dollar_bar \<Rightarrow> flt" where
  "order_flow_imbalance b = buy_volume_usd b - sell_volume_usd b"

text \<open>
  A threshold provider is a callable: it may raise one of the exceptions the engine
  catches (\<open>KeyError\<close>, \<open>ValueError\<close>, \<open>TypeError\<close>), return \<open>None\<close>, or a value.
\<close>

datatype provider_answer = Raised | Absent | Given flt

record bar_engine =
  base_threshold :: flt
  provider :: "(symbol \<Rightarrow> provider_answer) option"
  current_bars :: "symbol \<rightharpoonup> dollar_bar"

record tick =
  tk_symbol :: symbol
  tk_price :: flt
  tk_size :: flt
  tk_buyer_maker :: bool
  tk_ts :: time

definition bar_engine_init :: "flt \<Rightarrow> (symbol \<Rightarrow> provider_answer) option \<Rightarrow> py_error + bar_engine" where
  "bar_engine_init thr prov =
     (if thr \<le> 0 then Inl (ValueError ''threshold_usd must be > 0'')
      else Inr \<lparr>base_threshold = thr, provider = prov, current_bars = Map.empty\<rparr>)"

definition threshold_for :: "bar_engine \<Rightarrow> symbol \<Rightarrow> flt" where
  "threshold_for e sy =
     (case provider e of
        None \<Rightarrow> base_threshold e
      | Some p \<Rightarrow>
          (case p sy of
             Raised \<Rightarrow> base_threshold e
           | Absent \<Rightarrow> base_threshold e
           | Given v \<Rightarrow> if v \<le> 0 then base_threshold e else v))"

text \<open>\<open>DollarBar(symbol=..., open=price, high=price, low=price, close=price, start_ts=ts)\<close>
  with the dataclass's defaults for the rest.\<close>

definition fresh_bar :: "symbol \<Rightarrow> flt \<Rightarrow> time \<Rightarrow> dollar_bar" where
  "fresh_bar sy price ts =
     \<lparr>bar_symbol = sy, bar_open = price, bar_high = price, bar_low = price, bar_close = price,
      volume_crypto = 0, volume_usd = 0, buy_volume_usd = 0, sell_volume_usd = 0,
      tick_count = 0, start_ts = ts, end_ts = 0, ofi_accum = 0\<rparr>"

definition add_tick :: "dollar_bar \<Rightarrow> tick \<Rightarrow> dollar_bar" where
  "add_tick b t =
     (let usd = tk_price t * tk_size t;
          b1 = b\<lparr>bar_high := max (bar_high b) (tk_price t),
                 bar_low := min (bar_low b) (tk_price t),
                 bar_close := tk_price t,
                 volume_crypto := volume_crypto b + tk_size t,
                 volume_usd := volume_usd b + usd,
                 tick_count := tick_count b + 1\<rparr>
      in if tk_buyer_maker t
         then b1\<lparr>sell_volume_usd := sell_volume_usd b1 + usd\<rparr>
         else b1\<lparr>buy_volume_usd := buy_volume_usd b1 + usd\<rparr>)"

definition bars_process_tick :: "bar_engine \<Rightarrow> tick \<Rightarrow> bar_engine \<times> dollar_bar option" where
  "bars_process_tick e t =
     (let sy = tk_symbol t;
          b0 = (case current_bars e sy of
                  None \<Rightarrow> fresh_bar sy (tk_price t) (tk_ts t)
                | Some b \<Rightarrow> b);
          b = add_tick b0 t
      in if threshold_for e sy \<le> volume_usd b
         then (e\<lparr>current_bars := (current_bars e)(sy := None)\<rparr>, Some (b\<lparr>end_ts := tk_ts t\<rparr>))
         else (e\<lparr>current_bars := (current_bars e)(sy \<mapsto> b)\<rparr>, None))"

definition bars_handle_resync :: "bar_engine \<Rightarrow> bar_engine" where
  "bars_handle_resync e = e\<lparr>current_bars := Map.empty\<rparr>"

section \<open>Well-formed bars\<close>

definition bar_ok :: "dollar_bar \<Rightarrow> bool" where
  "bar_ok b \<longleftrightarrow>
     bar_low b \<le> bar_open b \<and> bar_open b \<le> bar_high b \<and>
     bar_low b \<le> bar_close b \<and> bar_close b \<le> bar_high b \<and>
     volume_usd b = buy_volume_usd b + sell_volume_usd b \<and>
     0 \<le> buy_volume_usd b \<and> 0 \<le> sell_volume_usd b \<and> 0 \<le> tick_count b"

definition tick_ok :: "tick \<Rightarrow> bool" where
  "tick_ok t \<longleftrightarrow> 0 < tk_price t \<and> 0 \<le> tk_size t"

definition engine_ok :: "bar_engine \<Rightarrow> bool" where
  "engine_ok e \<longleftrightarrow> 0 < base_threshold e \<and>
     (\<forall>sy b. current_bars e sy = Some b \<longrightarrow> bar_ok b \<and> bar_symbol b = sy \<and> 0 < tick_count b)"

lemma fresh_bar_ok [inv_intros]: "bar_ok (fresh_bar sy p ts)"
  by (simp add: bar_ok_def fresh_bar_def)

lemma add_tick_ok [inv_intros]: "bar_ok b \<Longrightarrow> tick_ok t \<Longrightarrow> bar_ok (add_tick b t)"
  by (auto simp: bar_ok_def tick_ok_def add_tick_def Let_def)

lemma add_tick_frame [frame_simps]:
  "bar_symbol (add_tick b t) = bar_symbol b"
  "tick_count (add_tick b t) = tick_count b + 1"
  "volume_usd (add_tick b t) = volume_usd b + tk_price t * tk_size t"
  "volume_crypto (add_tick b t) = volume_crypto b + tk_size t"
  "bar_close (add_tick b t) = tk_price t"
  "bar_open (add_tick b t) = bar_open b"
  by (auto simp: add_tick_def Let_def)

lemma fresh_bar_frame [frame_simps]:
  "bar_symbol (fresh_bar sy p ts) = sy" "tick_count (fresh_bar sy p ts) = 0"
  "volume_usd (fresh_bar sy p ts) = 0"
  by (simp_all add: fresh_bar_def)

lemma bar_ok_end_ts [simp]: "bar_ok (b\<lparr>end_ts := ts\<rparr>) = bar_ok b"
  by (simp add: bar_ok_def)

lemma threshold_for_pos: "0 < base_threshold e \<Longrightarrow> 0 < threshold_for e sy"
  by (auto simp: threshold_for_def split: option.split provider_answer.split)

lemma threshold_for_frame [frame_simps]:
  "threshold_for (e\<lparr>current_bars := m\<rparr>) sy = threshold_for e sy"
  by (simp add: threshold_for_def split: option.split provider_answer.split)

lemma process_tick_frame [frame_simps]:
  "base_threshold (fst (bars_process_tick e t)) = base_threshold e"
  "provider (fst (bars_process_tick e t)) = provider e"
  by (simp_all add: bars_process_tick_def Let_def)

text \<open>The bar the tick lands in, before the threshold test.\<close>

definition landing_bar :: "bar_engine \<Rightarrow> tick \<Rightarrow> dollar_bar" where
  "landing_bar e t =
     (case current_bars e (tk_symbol t) of
        None \<Rightarrow> fresh_bar (tk_symbol t) (tk_price t) (tk_ts t) | Some b \<Rightarrow> b)"

lemma process_tick_eq:
  "bars_process_tick e t =
     (let b = add_tick (landing_bar e t) t in
      if threshold_for e (tk_symbol t) \<le> volume_usd b
      then (e\<lparr>current_bars := (current_bars e)(tk_symbol t := None)\<rparr>, Some (b\<lparr>end_ts := tk_ts t\<rparr>))
      else (e\<lparr>current_bars := (current_bars e)(tk_symbol t \<mapsto> b)\<rparr>, None))"
  by (simp add: bars_process_tick_def landing_bar_def Let_def)

lemma landing_bar_ok:
  "engine_ok e \<Longrightarrow>
     bar_ok (landing_bar e t) \<and> bar_symbol (landing_bar e t) = tk_symbol t \<and> 0 \<le> tick_count (landing_bar e t)"
  by (auto simp: engine_ok_def landing_bar_def frame_simps split: option.split intro: inv_intros)
     (metis less_imp_le)

lemma landing_bar_in:
  "current_bars e (tk_symbol t) = Some b \<Longrightarrow> landing_bar e t = b"
  "current_bars e (tk_symbol t) = None \<Longrightarrow> landing_bar e t = fresh_bar (tk_symbol t) (tk_price t) (tk_ts t)"
  by (simp_all add: landing_bar_def)

lemma process_tick_engine_ok [inv_intros]:
  assumes "engine_ok e" and "tick_ok t"
  shows "engine_ok (fst (bars_process_tick e t))"
proof -
  have "bar_ok (add_tick (landing_bar e t) t)"
    using landing_bar_ok [OF assms(1), of t] assms(2) by (auto intro: inv_intros)
  then show ?thesis
    using assms landing_bar_ok [OF assms(1), of t]
    by (auto simp: engine_ok_def process_tick_eq Let_def frame_simps)
qed

lemma process_tick_closed:
  assumes "engine_ok e" and "tick_ok t" and "snd (bars_process_tick e t) = Some b"
  shows "bar_ok b \<and> bar_symbol b = tk_symbol t \<and> threshold_for e (tk_symbol t) \<le> volume_usd b
     \<and> end_ts b = tk_ts t \<and> bar_close b = tk_price t
     \<and> current_bars (fst (bars_process_tick e t)) (tk_symbol t) = None"
proof -
  have "bar_ok (add_tick (landing_bar e t) t)"
    using landing_bar_ok [OF assms(1), of t] assms(2) by (auto intro: inv_intros)
  then show ?thesis
    using assms landing_bar_ok [OF assms(1), of t]
    by (auto simp: process_tick_eq Let_def frame_simps split: if_splits)
qed

lemma process_tick_open:
  assumes "snd (bars_process_tick e t) = None"
  shows "\<exists>b. current_bars (fst (bars_process_tick e t)) (tk_symbol t) = Some b
     \<and> volume_usd b < threshold_for e (tk_symbol t)"
  using assms by (auto simp: process_tick_eq Let_def split: if_splits)

section \<open>The tape is conserved\<close>

text \<open>
  \<open>side_volume True\<close> is the volume a bar books as sold by the taker, \<open>side_volume False\<close>
  the volume booked as bought.  \<open>tape_usd maker sy ts\<close> is what the tape holds for that side.
\<close>

definition side_volume :: "bool \<Rightarrow> dollar_bar \<Rightarrow> flt" where
  "side_volume maker b = (if maker then sell_volume_usd b else buy_volume_usd b)"

definition tape_usd :: "bool \<Rightarrow> symbol \<Rightarrow> tick list \<Rightarrow> flt" where
  "tape_usd maker sy ts =
     sum_list (map (\<lambda>t. tk_price t * tk_size t)
       (filter (\<lambda>t. tk_symbol t = sy \<and> tk_buyer_maker t = maker) ts))"

definition open_usd :: "bool \<Rightarrow> bar_engine \<Rightarrow> symbol \<Rightarrow> flt" where
  "open_usd maker e sy = (case current_bars e sy of None \<Rightarrow> 0 | Some b \<Rightarrow> side_volume maker b)"

fun bars_run :: "bar_engine \<Rightarrow> tick list \<Rightarrow> bar_engine \<times> dollar_bar list" where
  "bars_run e [] = (e, [])"
| "bars_run e (t # ts) =
     (let (e', out) = bars_process_tick e t; (e'', bs) = bars_run e' ts
      in (e'', (case out of None \<Rightarrow> bs | Some b \<Rightarrow> b # bs)))"

definition closed_usd :: "bool \<Rightarrow> symbol \<Rightarrow> dollar_bar list \<Rightarrow> flt" where
  "closed_usd maker sy bs = sum_list (map (side_volume maker) (filter (\<lambda>b. bar_symbol b = sy) bs))"

lemma tape_usd_Nil [simp]: "tape_usd maker sy [] = 0"
  by (simp add: tape_usd_def)

lemma tape_usd_Cons [simp]:
  "tape_usd maker sy (t # ts) =
     (if tk_symbol t = sy \<and> tk_buyer_maker t = maker then tk_price t * tk_size t else 0) + tape_usd maker sy ts"
  by (simp add: tape_usd_def)

lemma closed_usd_simps [simp]:
  "closed_usd maker sy [] = 0"
  "closed_usd maker sy (b # bs) = (if bar_symbol b = sy then side_volume maker b else 0) + closed_usd maker sy bs"
  by (simp_all add: closed_usd_def)

lemma side_volume_add_tick [simp]:
  "side_volume maker (add_tick b t) =
     side_volume maker b + (if tk_buyer_maker t = maker then tk_price t * tk_size t else 0)"
  by (simp add: side_volume_def add_tick_def Let_def)

lemma side_volume_fresh [simp]: "side_volume maker (fresh_bar sy p ts) = 0"
  by (simp add: side_volume_def fresh_bar_def)

lemma side_volume_end_ts [simp]: "side_volume maker (b\<lparr>end_ts := ts\<rparr>) = side_volume maker b"
  by (simp add: side_volume_def)

definition syms_ok :: "bar_engine \<Rightarrow> bool" where
  "syms_ok e \<longleftrightarrow> (\<forall>sy b. current_bars e sy = Some b \<longrightarrow> bar_symbol b = sy)"

lemma landing_bar_symbol: "syms_ok e \<Longrightarrow> bar_symbol (landing_bar e t) = tk_symbol t"
  by (auto simp: syms_ok_def landing_bar_def frame_simps split: option.split)

lemma process_tick_syms_ok [inv_intros]: "syms_ok e \<Longrightarrow> syms_ok (fst (bars_process_tick e t))"
  using landing_bar_symbol [of e t]
  by (auto simp: syms_ok_def process_tick_eq Let_def frame_simps)

lemma side_volume_landing:
  "side_volume maker (landing_bar e t) = open_usd maker e (tk_symbol t)"
  by (simp add: landing_bar_def open_usd_def split: option.split)

lemma process_tick_conserves:
  assumes "syms_ok e"
  shows "open_usd maker (fst (bars_process_tick e t)) sy
       + (case snd (bars_process_tick e t) of None \<Rightarrow> 0 | Some b \<Rightarrow> if bar_symbol b = sy then side_volume maker b else 0)
     = open_usd maker e sy
       + (if tk_symbol t = sy \<and> tk_buyer_maker t = maker then tk_price t * tk_size t else 0)"
proof (cases "tk_symbol t = sy")
  case True
  then show ?thesis
    using landing_bar_symbol [OF assms, of t]
    by (auto simp: process_tick_eq Let_def open_usd_def frame_simps side_volume_landing)
next
  case False
  then show ?thesis
    using landing_bar_symbol [OF assms, of t]
    by (auto simp: process_tick_eq Let_def open_usd_def frame_simps)
qed

lemma bars_run_conserves:
  assumes "syms_ok e"
  shows "open_usd maker (fst (bars_run e ts)) sy + closed_usd maker sy (snd (bars_run e ts))
     = open_usd maker e sy + tape_usd maker sy ts"
  using assms
proof (induction ts arbitrary: e)
  case Nil
  then show ?case by simp
next
  case (Cons t ts)
  have "open_usd maker (fst (bars_run (fst (bars_process_tick e t)) ts)) sy
      + closed_usd maker sy (snd (bars_run (fst (bars_process_tick e t)) ts))
      = open_usd maker (fst (bars_process_tick e t)) sy + tape_usd maker sy ts"
    by (rule Cons.IH) (rule process_tick_syms_ok [OF Cons.prems])
  with process_tick_conserves [OF Cons.prems, of maker t sy] show ?case
    by (auto simp: case_prod_unfold Let_def split: option.splits)
qed

text \<open>C12: every dollar of the tape that a run consumes is, per symbol and per taker side, in
  exactly one closed bar or in the symbol's open bar: with the maker a buyer it is sell
  volume, with the maker a seller buy volume.\<close>

theorem tape_conserved:
  assumes "bar_engine_init thr prov = Inr e"
  shows "open_usd maker (fst (bars_run e ts)) sy + closed_usd maker sy (snd (bars_run e ts))
     = tape_usd maker sy ts"
proof -
  have "syms_ok e" and "open_usd maker e sy = 0"
    using assms by (auto simp: bar_engine_init_def syms_ok_def open_usd_def split: if_splits)
  with bars_run_conserves [of e maker ts sy] show ?thesis by simp
qed

definition demo_tick :: "symbol \<Rightarrow> bool \<Rightarrow> flt \<Rightarrow> tick" where
  "demo_tick sy maker p = \<lparr>tk_symbol = sy, tk_price = p, tk_size = 2, tk_buyer_maker = maker, tk_ts = 7\<rparr>"

definition demo_engine :: bar_engine where
  "demo_engine = \<lparr>base_threshold = 50, provider = None, current_bars = Map.empty\<rparr>"

lemma demo_engine_init: "bar_engine_init 50 None = Inr demo_engine"
  by (simp add: bar_engine_init_def demo_engine_def)

theorem tape_conserved_witness:
  "bar_engine_init 50 None = Inr demo_engine \<and>
   open_usd True (fst (bars_run demo_engine [demo_tick ''B'' True 10, demo_tick ''B'' False 20])) ''B''
   + closed_usd True ''B'' (snd (bars_run demo_engine [demo_tick ''B'' True 10, demo_tick ''B'' False 20])) = 20"
  using tape_conserved [OF demo_engine_init, of True "[demo_tick ''B'' True 10, demo_tick ''B'' False 20]" "''B''"]
    demo_engine_init
  by (simp add: demo_tick_def)

section \<open>Every bar is well formed\<close>

lemma bars_run_ok:
  assumes "engine_ok e" and "list_all tick_ok ts"
  shows "engine_ok (fst (bars_run e ts)) \<and> list_all bar_ok (snd (bars_run e ts))"
  using assms
proof (induction ts arbitrary: e)
  case Nil
  then show ?case by simp
next
  case (Cons t ts)
  then have t: "tick_ok t" "engine_ok (fst (bars_process_tick e t))" by (auto intro: inv_intros)
  with Cons.IH [of "fst (bars_process_tick e t)"] Cons.prems
    process_tick_closed [OF Cons.prems(1) t(1)] show ?case
    by (auto simp: case_prod_unfold Let_def split: option.split)
qed

text \<open>On a tape of positive prices and non-negative sizes, every bar the engine closes or
  still holds has its low and high around its open and close, non-negative sides that add up
  to its dollar volume, and the engine stays well formed.\<close>

theorem bars_well_formed:
  assumes "bar_engine_init thr prov = Inr e" and "list_all tick_ok ts"
  shows "engine_ok (fst (bars_run e ts)) \<and> list_all bar_ok (snd (bars_run e ts))"
proof (rule bars_run_ok [OF _ assms(2)])
  show "engine_ok e"
    using assms(1) by (auto simp: bar_engine_init_def engine_ok_def split: if_splits)
qed

theorem bars_well_formed_witness:
  "list_all bar_ok (snd (bars_run demo_engine [demo_tick ''B'' True 10, demo_tick ''B'' False 20]))"
  using bars_well_formed [OF demo_engine_init, of "[demo_tick ''B'' True 10, demo_tick ''B'' False 20]"]
  by (simp add: tick_ok_def demo_tick_def)

text \<open>A tick closes its symbol's bar exactly when the dollar volume with the tick has
  reached the symbol's threshold; the closed bar carries the tick's price and time and
  leaves no accumulator behind, and otherwise the open bar stays below the threshold.\<close>

theorem bar_closes_at_threshold:
  assumes "engine_ok e" and "tick_ok t"
  shows "case bars_process_tick e t of
     (e', Some b) \<Rightarrow> threshold_for e (tk_symbol t) \<le> volume_usd b \<and> end_ts b = tk_ts t
        \<and> bar_close b = tk_price t \<and> bar_symbol b = tk_symbol t
        \<and> volume_usd b = volume_usd (landing_bar e t) + tk_price t * tk_size t
        \<and> current_bars e' (tk_symbol t) = None
   | (e', None) \<Rightarrow> (\<exists>b. current_bars e' (tk_symbol t) = Some b
        \<and> volume_usd b = volume_usd (landing_bar e t) + tk_price t * tk_size t
        \<and> volume_usd b < threshold_for e (tk_symbol t))"
  using landing_bar_ok [OF assms(1), of t]
  by (auto simp: process_tick_eq Let_def frame_simps)

theorem bar_closes_at_threshold_witness:
  "snd (bars_process_tick demo_engine (demo_tick ''B'' True 30)) \<noteq> None"
proof -
  have "engine_ok demo_engine" "tick_ok (demo_tick ''B'' True 30)"
    by (simp_all add: engine_ok_def demo_engine_def tick_ok_def demo_tick_def)
  from bar_closes_at_threshold [OF this] show ?thesis
    by (auto simp: demo_engine_def demo_tick_def landing_bar_def fresh_bar_def threshold_for_def
          split: option.splits)
qed

section \<open>Symbols are isolated\<close>

definition same_for :: "symbol \<Rightarrow> bar_engine \<Rightarrow> bar_engine \<Rightarrow> bool" where
  "same_for sy e e' \<longleftrightarrow> base_threshold e = base_threshold e' \<and> provider e = provider e'
     \<and> current_bars e sy = current_bars e' sy \<and> syms_ok e \<and> syms_ok e'"

lemma same_for_step:
  assumes "same_for sy e e'" and "tk_symbol t = sy"
  shows "same_for sy (fst (bars_process_tick e t)) (fst (bars_process_tick e' t))"
    and "snd (bars_process_tick e t) = snd (bars_process_tick e' t)"
proof -
  have "landing_bar e t = landing_bar e' t" "threshold_for e sy = threshold_for e' sy"
    using assms by (auto simp: same_for_def landing_bar_def threshold_for_def
        split: option.split provider_answer.split)
  then show "same_for sy (fst (bars_process_tick e t)) (fst (bars_process_tick e' t))"
    and "snd (bars_process_tick e t) = snd (bars_process_tick e' t)"
    using assms process_tick_syms_ok [of e t] process_tick_syms_ok [of e' t]
    by (auto simp: same_for_def process_tick_eq Let_def)
qed

lemma same_for_other:
  assumes "same_for sy e e'" and "tk_symbol t \<noteq> sy"
  shows "same_for sy (fst (bars_process_tick e t)) e'"
    and "\<forall>b. snd (bars_process_tick e t) = Some b \<longrightarrow> bar_symbol b \<noteq> sy"
proof -
  have "bar_symbol (landing_bar e t) = tk_symbol t"
    using assms by (auto simp: same_for_def intro: landing_bar_symbol)
  then show "same_for sy (fst (bars_process_tick e t)) e'"
    and "\<forall>b. snd (bars_process_tick e t) = Some b \<longrightarrow> bar_symbol b \<noteq> sy"
    using assms process_tick_syms_ok [of e t]
    by (auto simp: same_for_def process_tick_eq Let_def frame_simps)
qed

lemma bars_run_same_for:
  assumes "same_for sy e e'"
  shows "filter (\<lambda>b. bar_symbol b = sy) (snd (bars_run e ts))
       = snd (bars_run e' (filter (\<lambda>t. tk_symbol t = sy) ts))
    \<and> same_for sy (fst (bars_run e ts)) (fst (bars_run e' (filter (\<lambda>t. tk_symbol t = sy) ts)))"
  using assms
proof (induction ts arbitrary: e e')
  case Nil
  then show ?case by simp
next
  case (Cons t ts)
  show ?case
  proof (cases "tk_symbol t = sy")
    case True
    note step = same_for_step [OF Cons.prems True]
    have "\<forall>b. snd (bars_process_tick e t) = Some b \<longrightarrow> bar_symbol b = sy"
      using Cons.prems True landing_bar_symbol [of e t]
      by (auto simp: same_for_def process_tick_eq Let_def frame_simps)
    with Cons.IH [OF step(1)] step(2) True show ?thesis
      by (auto simp: case_prod_unfold Let_def split: option.splits)
  next
    case False
    note step = same_for_other [OF Cons.prems False]
    from Cons.IH [OF step(1)] step(2) False show ?thesis
      by (auto simp: case_prod_unfold Let_def split: option.splits)
  qed
qed

text \<open>The bars an engine closes for one symbol, and the bar it leaves open, are those it
  closes on that symbol's ticks alone: other symbols' ticks change nothing.\<close>

theorem bars_isolated:
  assumes "bar_engine_init thr prov = Inr e"
  shows "filter (\<lambda>b. bar_symbol b = sy) (snd (bars_run e ts))
       = snd (bars_run e (filter (\<lambda>t. tk_symbol t = sy) ts))
    \<and> current_bars (fst (bars_run e ts)) sy
       = current_bars (fst (bars_run e (filter (\<lambda>t. tk_symbol t = sy) ts))) sy"
proof -
  have "same_for sy e e"
    using assms by (auto simp: bar_engine_init_def same_for_def syms_ok_def split: if_splits)
  from bars_run_same_for [OF this, of ts] show ?thesis by (auto simp: same_for_def)
qed

theorem bars_isolated_witness:
  "filter (\<lambda>b. bar_symbol b = ''B'') (snd (bars_run demo_engine [demo_tick ''E'' True 99, demo_tick ''B'' False 20]))
     = snd (bars_run demo_engine [demo_tick ''B'' False 20])"
  using bars_isolated [OF demo_engine_init, of "''B''" "[demo_tick ''E'' True 99, demo_tick ''B'' False 20]"]
  by (simp add: demo_tick_def)

end
