(* ===== verification/Vpin.thy ===== *)
theory Vpin
  imports Conflation
begin

text \<open>
  The VPIN engine (\<open>src/src/domain/vpin_engine.py\<close>): two ring buffers with running sums,
  the time decay, the periodic rebuild and the anomaly test.  The lemmas show that the
  running sums always equal the sums of the arrays, that the engine computes the VPIN and
  the Z-score of its specification on lists (the last \<open>W\<close> bars and the last \<open>Z\<close> values),
  and what its reset breaks.
\<close>

section \<open>The engine\<close>

datatype direction = Long | Short | Neutral

record vpin_signal =
  vpin_value :: flt
  z_score :: flt
  is_anomaly :: bool
  absorption_detected :: bool
  sig_direction :: direction

record vpin_engine =
  window_size :: nat
  z_history_size :: nat
  volume_threshold :: flt
  anomaly_z :: flt
  rebuild_interval :: int
  imbalances :: "flt list"
  price_history :: "flt list"
  v_index :: nat
  is_filled :: bool
  imbalance_sum :: flt
  vpin_history :: "flt list"
  z_index :: nat
  z_count :: nat
  vpin_sum :: flt
  vpin_sq_sum :: flt
  last_update_time :: time
  bars_since_rebuild :: int

text \<open>The two thresholds the engine reads from the alpha configuration.\<close>

record alpha_cfg =
  vpin_time_gap_sec :: int
  vpin_decay_tau_hours :: int

definition reset_o1 :: "time \<Rightarrow> vpin_engine \<Rightarrow> vpin_engine" where
  "reset_o1 now e =
     e\<lparr>v_index := 0, is_filled := False, imbalance_sum := 0, z_index := 0, z_count := 0,
       vpin_sum := 0, vpin_sq_sum := 0, last_update_time := now, bars_since_rebuild := 0\<rparr>"

definition vpin_init :: "nat \<Rightarrow> flt \<Rightarrow> flt \<Rightarrow> nat \<Rightarrow> int \<Rightarrow> time \<Rightarrow> py_error + vpin_engine" where
  "vpin_init w vol thr z reb now =
     (if w < 2 then Inl (ValueError ''window_size must be >= 2'')
      else if z < w then Inl (ValueError ''z_history_size must be >= window_size'')
      else Inr (reset_o1 now
        \<lparr>window_size = w, z_history_size = z, volume_threshold = vol, anomaly_z = thr,
         rebuild_interval = reb, imbalances = replicate w 0, price_history = replicate w 0,
         v_index = 0, is_filled = False, imbalance_sum = 0, vpin_history = replicate z 0,
         z_index = 0, z_count = 0, vpin_sum = 0, vpin_sq_sum = 0, last_update_time = now,
         bars_since_rebuild = 0\<rparr>))"

definition square_sum :: "flt list \<Rightarrow> flt" where
  "square_sum xs = sum_list (map (\<lambda>x. x\<^sup>2) xs)"

definition apply_time_decay :: "flt \<Rightarrow> vpin_engine \<Rightarrow> vpin_engine" where
  "apply_time_decay d e =
     (let im = map (\<lambda>x. x * d) (imbalances e); vh = map (\<lambda>x. x * d) (vpin_history e)
      in e\<lparr>imbalances := im, vpin_history := vh, imbalance_sum := sum_list im,
           vpin_sum := sum_list vh, vpin_sq_sum := square_sum vh\<rparr>)"

definition rebuild_sums :: "vpin_engine \<Rightarrow> vpin_engine" where
  "rebuild_sums e =
     e\<lparr>imbalance_sum := sum_list (imbalances e), vpin_sum := sum_list (vpin_history e),
       vpin_sq_sum := square_sum (vpin_history e), bars_since_rebuild := 0\<rparr>"

definition decay_guard :: "alpha_cfg \<Rightarrow> time \<Rightarrow> vpin_engine \<Rightarrow> vpin_engine" where
  "decay_guard cfg now e =
     (let delta = now - last_update_time e; e1 = e\<lparr>last_update_time := now\<rparr>
      in if of_int (vpin_time_gap_sec cfg) < delta
         then apply_time_decay (exp (- delta / (3600 * of_int (max (vpin_decay_tau_hours cfg) 1)))) e1
         else e1)"

definition push_imbalance :: "flt \<Rightarrow> flt \<Rightarrow> vpin_engine \<Rightarrow> vpin_engine" where
  "push_imbalance a price e =
     (let i = v_index e
      in e\<lparr>imbalance_sum := imbalance_sum e + (a - imbalances e ! i),
           imbalances := (imbalances e)[i := a],
           price_history := (price_history e)[i := price],
           v_index := ring_next (window_size e) i,
           is_filled := is_filled e \<or> window_size e \<le> Suc i\<rparr>)"

definition current_vpin :: "vpin_engine \<Rightarrow> flt" where
  "current_vpin e =
     (let v = imbalance_sum e / (volume_threshold e * real (window_size e))
      in if v < 0 then 0 else if 1 < v then 1 else v)"

definition push_vpin :: "flt \<Rightarrow> vpin_engine \<Rightarrow> vpin_engine" where
  "push_vpin v e =
     (let i = z_index e; old = vpin_history e ! i
      in e\<lparr>vpin_sum := vpin_sum e + (v - old),
           vpin_sq_sum := vpin_sq_sum e + (v\<^sup>2 - old\<^sup>2),
           vpin_history := (vpin_history e)[i := v],
           z_index := ring_next (z_history_size e) i,
           z_count := (if z_count e < z_history_size e then Suc (z_count e) else z_count e)\<rparr>)"

definition z_value :: "flt \<Rightarrow> vpin_engine \<Rightarrow> flt" where
  "z_value v e =
     (let n = (if 0 < z_count e then real (z_count e) else 1);
          mean = vpin_sum e / n;
          variance = max (vpin_sq_sum e / n - mean * mean) (1 / 1000000000000)
      in (v - mean) / sqrt variance)"

definition rebuild_guard :: "vpin_engine \<Rightarrow> vpin_engine" where
  "rebuild_guard e =
     (let e1 = e\<lparr>bars_since_rebuild := bars_since_rebuild e + 1\<rparr>
      in if rebuild_interval e \<le> bars_since_rebuild e1 then rebuild_sums e1 else e1)"

definition classify :: "bool \<Rightarrow> flt \<Rightarrow> flt \<Rightarrow> direction \<times> bool" where
  "classify anomaly imbalance price_return =
     (if \<not> anomaly then (Neutral, False)
      else if 0 < imbalance then (Long, price_return \<le> 0)
      else if imbalance < 0 then (Short, 0 \<le> price_return)
      else (Neutral, False))"

definition process_bar :: "alpha_cfg \<Rightarrow> time \<Rightarrow> vpin_engine \<Rightarrow> dollar_bar \<Rightarrow> vpin_engine \<times> vpin_signal option" where
  "process_bar cfg now e bar =
     (let imbalance = buy_volume_usd bar - sell_volume_usd bar;
          price = bar_close bar;
          e1 = push_imbalance \<bar>imbalance\<bar> price (decay_guard cfg now e);
          price_start = price_history e1 ! v_index e1
      in if \<not> is_filled e1 then (e1, None)
         else
           let v = current_vpin e1;
               e2 = push_vpin v e1;
               z = z_value v e2;
               anomaly = anomaly_z e2 < z;
               e3 = rebuild_guard e2;
               (dir, absorbed) = classify anomaly imbalance (price - price_start)
           in (e3, Some \<lparr>vpin_value = v, z_score = z, is_anomaly = anomaly,
                         absorption_detected = absorbed, sig_direction = dir\<rparr>))"

section \<open>The running sums are the sums of the arrays\<close>

definition vpin_shape :: "vpin_engine \<Rightarrow> bool" where
  "vpin_shape e \<longleftrightarrow> 2 \<le> window_size e \<and> window_size e \<le> z_history_size e
     \<and> length (imbalances e) = window_size e \<and> length (price_history e) = window_size e
     \<and> length (vpin_history e) = z_history_size e
     \<and> v_index e < window_size e \<and> z_index e < z_history_size e \<and> z_count e \<le> z_history_size e"

definition sums_match :: "vpin_engine \<Rightarrow> bool" where
  "sums_match e \<longleftrightarrow> imbalance_sum e = sum_list (imbalances e)
     \<and> vpin_sum e = sum_list (vpin_history e) \<and> vpin_sq_sum e = square_sum (vpin_history e)"

lemma vpin_shape_decay [inv_intros]: "vpin_shape e \<Longrightarrow> vpin_shape (decay_guard cfg now e)"
  by (simp add: vpin_shape_def decay_guard_def apply_time_decay_def Let_def)

lemma vpin_shape_push_imbalance [inv_intros]: "vpin_shape e \<Longrightarrow> vpin_shape (push_imbalance a p e)"
  by (simp add: vpin_shape_def push_imbalance_def Let_def)

lemma vpin_shape_push_vpin [inv_intros]: "vpin_shape e \<Longrightarrow> vpin_shape (push_vpin v e)"
  by (auto simp: vpin_shape_def push_vpin_def Let_def)

lemma vpin_shape_rebuild [inv_intros]: "vpin_shape e \<Longrightarrow> vpin_shape (rebuild_guard e)"
  by (simp add: vpin_shape_def rebuild_guard_def rebuild_sums_def Let_def)

lemma sums_match_decay [inv_intros]: "sums_match e \<Longrightarrow> sums_match (decay_guard cfg now e)"
  by (simp add: sums_match_def decay_guard_def apply_time_decay_def Let_def)

lemma sums_match_push_imbalance [inv_intros]:
  "vpin_shape e \<Longrightarrow> sums_match e \<Longrightarrow> sums_match (push_imbalance a p e)"
  by (simp add: sums_match_def vpin_shape_def push_imbalance_def Let_def sum_list_update_group)

lemma sums_match_push_vpin [inv_intros]:
  "vpin_shape e \<Longrightarrow> sums_match e \<Longrightarrow> sums_match (push_vpin v e)"
  by (simp add: sums_match_def vpin_shape_def push_vpin_def square_sum_def Let_def
      sum_list_update_group sum_list_map_update)

lemma sums_match_rebuild [inv_intros]: "sums_match e \<Longrightarrow> sums_match (rebuild_guard e)"
  by (simp add: sums_match_def rebuild_guard_def rebuild_sums_def Let_def)

lemma process_bar_shape [inv_intros]:
  "vpin_shape e \<Longrightarrow> vpin_shape (fst (process_bar cfg now e bar))"
  by (auto simp: process_bar_def Let_def case_prod_unfold intro: inv_intros)

lemma process_bar_sums [inv_intros]:
  "vpin_shape e \<Longrightarrow> sums_match e \<Longrightarrow> sums_match (fst (process_bar cfg now e bar))"
  by (auto simp: process_bar_def Let_def case_prod_unfold intro: inv_intros)

lemma vpin_init_ok:
  "vpin_init w vol thr z reb now = Inr e \<Longrightarrow> vpin_shape e \<and> sums_match e"
  by (auto simp: vpin_init_def reset_o1_def vpin_shape_def sums_match_def square_sum_def
      sum_list_replicate split: if_splits)

fun vpin_step :: "alpha_cfg \<Rightarrow> vpin_engine \<Rightarrow> time \<times> dollar_bar \<Rightarrow> vpin_engine \<times> vpin_signal option" where
  "vpin_step cfg e (now, bar) = process_bar cfg now e bar"

lemma vpin_run_ok:
  assumes "vpin_shape e" and "sums_match e"
  shows "vpin_shape (run_final (vpin_step cfg) e bs) \<and> sums_match (run_final (vpin_step cfg) e bs)"
  by (rule run_final_inv [where P = "\<lambda>e. vpin_shape e \<and> sums_match e"])
     (use assms in \<open>auto intro: inv_intros\<close>)

text \<open>Whatever bars arrive and whenever they arrive, decays and rebuilds included, the
  engine's running sums equal the sums recomputed from its arrays (invariants I4 and
  I-noDrift, in exact arithmetic).\<close>

theorem vpin_sums_match:
  assumes "vpin_init w vol thr z reb t0 = Inr e"
  shows "sums_match (run_final (vpin_step cfg) e bs)"
  using vpin_run_ok [of e cfg bs] vpin_init_ok [OF assms] by blast

definition demo_bar :: "flt \<Rightarrow> flt \<Rightarrow> flt \<Rightarrow> dollar_bar" where
  "demo_bar buy sell close =
     (fresh_bar ''B'' close 0)\<lparr>buy_volume_usd := buy, sell_volume_usd := sell, volume_usd := buy + sell\<rparr>"

definition demo_vpin :: vpin_engine where
  "demo_vpin = \<lparr>window_size = 2, z_history_size = 2, volume_threshold = 10, anomaly_z = 2,
     rebuild_interval = 100, imbalances = [0, 0], price_history = [0, 0], v_index = 0,
     is_filled = False, imbalance_sum = 0, vpin_history = [0, 0], z_index = 0, z_count = 0,
     vpin_sum = 0, vpin_sq_sum = 0, last_update_time = 0, bars_since_rebuild = 0\<rparr>"

definition demo_cfg :: alpha_cfg where
  "demo_cfg = \<lparr>vpin_time_gap_sec = 900, vpin_decay_tau_hours = 4\<rparr>"

lemma demo_vpin_init: "vpin_init 2 10 2 2 100 0 = Inr demo_vpin"
  by (simp add: vpin_init_def reset_o1_def demo_vpin_def numeral_2_eq_2)

theorem vpin_sums_match_witness:
  "vpin_init 2 10 2 2 100 0 = Inr demo_vpin \<and>
   sums_match (run_final (vpin_step demo_cfg) demo_vpin [(1, demo_bar 9 1 5), (9999, demo_bar 2 8 6)])"
  using demo_vpin_init vpin_sums_match [OF demo_vpin_init] by blast

section \<open>The engine computes its specification on lists\<close>

text \<open>
  The reference: the VPIN of a history of bars is the clamped mean imbalance of the last
  \<open>W\<close> bars; its Z-score is taken over the last \<open>Z\<close> VPIN values including the new one;
  absorption compares the new close with the oldest close of the window.
\<close>

definition bar_imbalance :: "dollar_bar \<Rightarrow> flt" where
  "bar_imbalance b = buy_volume_usd b - sell_volume_usd b"

definition clamp01 :: "flt \<Rightarrow> flt" where
  "clamp01 v = (if v < 0 then 0 else if 1 < v then 1 else v)"

definition spec_vpin :: "nat \<Rightarrow> flt \<Rightarrow> dollar_bar list \<Rightarrow> flt" where
  "spec_vpin w vol h = clamp01 (sum_list (map (\<lambda>b. \<bar>bar_imbalance b\<bar>) (lastn w h)) / (vol * real w))"

definition spec_z :: "flt list \<Rightarrow> flt \<Rightarrow> flt" where
  "spec_z ws v =
     (let n = real (length ws); mean = sum_list ws / n
      in (v - mean) / sqrt (max (square_sum ws / n - mean * mean) (1 / 1000000000000)))"

definition spec_signal :: "nat \<Rightarrow> flt \<Rightarrow> nat \<Rightarrow> flt \<Rightarrow> dollar_bar list \<Rightarrow> flt list \<Rightarrow> vpin_signal" where
  "spec_signal w vol z thr h vs =
     (let v = spec_vpin w vol h; zs = spec_z (lastn z (vs @ [v])) v;
          c = classify (thr < zs) (bar_imbalance (last h)) (bar_close (last h) - bar_close (hd (lastn w h)))
      in \<lparr>vpin_value = v, z_score = zs, is_anomaly = (thr < zs),
          absorption_detected = snd c, sig_direction = fst c\<rparr>)"

fun spec_run :: "nat \<Rightarrow> flt \<Rightarrow> nat \<Rightarrow> flt \<Rightarrow> dollar_bar list \<Rightarrow> flt list \<Rightarrow> dollar_bar list \<Rightarrow> vpin_signal option list" where
  "spec_run w vol z thr h vs [] = []"
| "spec_run w vol z thr h vs (b # bs) =
     (let h' = h @ [b]
      in if length h' < w then None # spec_run w vol z thr h' vs bs
         else Some (spec_signal w vol z thr h' vs)
           # spec_run w vol z thr h' (vs @ [spec_vpin w vol h']) bs)"

fun gap_free :: "real \<Rightarrow> time \<Rightarrow> time list \<Rightarrow> bool" where
  "gap_free g t [] \<longleftrightarrow> True"
| "gap_free g t (u # us) \<longleftrightarrow> u - t \<le> g \<and> gap_free g u us"

definition zeros_then :: "nat \<Rightarrow> flt list \<Rightarrow> flt list" where
  "zeros_then n xs = lastn n (replicate n 0 @ xs)"

lemma length_zeros_then [simp]: "length (zeros_then n xs) = n"
  by (simp add: zeros_then_def)

lemma zeros_then_snoc: "0 < n \<Longrightarrow> tl (zeros_then n xs) @ [x] = zeros_then n (xs @ [x])"
proof -
  assume n: "0 < n"
  have "zeros_then n (xs @ [x]) = lastn n (lastn n (replicate n 0 @ xs) @ [x])"
    by (simp add: zeros_then_def lastn_lastn_append)
  also have "\<dots> = tl (zeros_then n xs) @ [x]"
    using n by (simp add: zeros_then_def lastn_snoc_full)
  finally show ?thesis by simp
qed

lemma zeros_then_full: "n \<le> length xs \<Longrightarrow> zeros_then n xs = lastn n xs"
  by (simp add: zeros_then_def lastn_append)

lemma sum_zeros_then: "sum_list (zeros_then n xs) = sum_list (lastn n xs)"
  by (cases "n \<le> length xs") (simp_all add: zeros_then_def lastn_append sum_list_replicate lastn_def)

lemma square_sum_append [simp]: "square_sum (xs @ ys) = square_sum xs + square_sum ys"
  by (simp add: square_sum_def)

lemma square_sum_zeros [simp]: "square_sum (replicate n 0) = 0"
  by (simp add: square_sum_def)

lemma square_sum_zeros_then: "square_sum (zeros_then n xs) = square_sum (lastn n xs)"
  by (cases "n \<le> length xs") (simp_all add: zeros_then_def lastn_append lastn_def)

lemma square_sum_ring_list [simp]: "square_sum (ring_list buf i) = square_sum buf"
  using sum_list_ring_list [where buf = "map (\<lambda>x. x\<^sup>2) buf" and i = i]
  by (simp add: square_sum_def ring_list_def drop_map take_map)

definition vpin_sim :: "vpin_engine \<Rightarrow> dollar_bar list \<Rightarrow> flt list \<Rightarrow> bool" where
  "vpin_sim e h vs \<longleftrightarrow> vpin_shape e \<and> sums_match e
     \<and> ring_list (imbalances e) (v_index e) = zeros_then (window_size e) (map (\<lambda>b. \<bar>bar_imbalance b\<bar>) h)
     \<and> ring_list (price_history e) (v_index e) = zeros_then (window_size e) (map bar_close h)
     \<and> v_index e = length h mod window_size e
     \<and> (is_filled e \<longleftrightarrow> window_size e \<le> length h)
     \<and> ring_list (vpin_history e) (z_index e) = zeros_then (z_history_size e) vs
     \<and> z_count e = min (z_history_size e) (length vs)"

lemma vpin_sim_init:
  "vpin_init w vol thr z reb now = Inr e \<Longrightarrow> vpin_sim e [] []"
  using vpin_init_ok [of w vol thr z reb now e]
  by (auto simp: vpin_sim_def vpin_init_def reset_o1_def zeros_then_def split: if_splits)

lemma decay_guard_no_gap:
  "now - last_update_time e \<le> of_int (vpin_time_gap_sec cfg) \<Longrightarrow>
     decay_guard cfg now e = e\<lparr>last_update_time := now\<rparr>"
  by (simp add: decay_guard_def Let_def)

lemma vpin_sim_last_update [simp]: "vpin_sim (e\<lparr>last_update_time := t\<rparr>) h vs = vpin_sim e h vs"
  by (simp add: vpin_sim_def vpin_shape_def sums_match_def)

lemma filled_step:
  assumes "w \<noteq> 0"
  shows "(w \<le> n \<or> w \<le> Suc (n mod w)) \<longleftrightarrow> w \<le> Suc n"
proof
  assume "w \<le> n \<or> w \<le> Suc (n mod w)"
  moreover have "n mod w \<le> n" by simp
  ultimately show "w \<le> Suc n" by linarith
next
  assume "w \<le> Suc n"
  then show "w \<le> n \<or> w \<le> Suc (n mod w)" by (cases "w \<le> n") auto
qed

lemma vpin_sim_rings:
  assumes "vpin_sim e h vs"
  shows "ring_list (imbalances e) (v_index e) = zeros_then (window_size e) (map (\<lambda>b. \<bar>bar_imbalance b\<bar>) h)"
    and "ring_list (price_history e) (v_index e) = zeros_then (window_size e) (map bar_close h)"
    and "ring_list (vpin_history e) (z_index e) = zeros_then (z_history_size e) vs"
  using assms by (auto simp only: vpin_sim_def)

lemma vpin_sim_push_imbalance:
  assumes "vpin_sim e h vs"
  shows "vpin_sim (push_imbalance \<bar>bar_imbalance b\<bar> (bar_close b) e) (h @ [b]) vs"
proof -
  let ?w = "window_size e"
  have w: "0 < ?w" "?w \<noteq> 0" "v_index e < ?w" "length (imbalances e) = ?w" "length (price_history e) = ?w"
    using assms by (auto simp: vpin_sim_def vpin_shape_def)
  have idx: "ring_next ?w (v_index e) = Suc (length h) mod ?w"
    using assms w by (simp add: vpin_sim_def ring_next_mod mod_Suc_eq)
  have im: "ring_list ((imbalances e)[v_index e := \<bar>bar_imbalance b\<bar>]) (ring_next ?w (v_index e))
      = zeros_then ?w (map (\<lambda>b. \<bar>bar_imbalance b\<bar>) (h @ [b]))"
    using ring_list_push [of "v_index e" "imbalances e" "\<bar>bar_imbalance b\<bar>"] w
    by (simp add: vpin_sim_rings [OF assms] zeros_then_snoc)
  have pr: "ring_list ((price_history e)[v_index e := bar_close b]) (ring_next ?w (v_index e))
      = zeros_then ?w (map bar_close (h @ [b]))"
    using ring_list_push [of "v_index e" "price_history e" "bar_close b"] w
    by (simp add: vpin_sim_rings [OF assms] zeros_then_snoc)
  have fl: "(is_filled e \<or> ?w \<le> Suc (v_index e)) \<longleftrightarrow> ?w \<le> length (h @ [b])"
    using filled_step [of ?w "length h"] assms w by (simp add: vpin_sim_def)
  show ?thesis
    using assms im pr fl idx vpin_shape_push_imbalance [of e "\<bar>bar_imbalance b\<bar>" "bar_close b"]
      sums_match_push_imbalance [of e "\<bar>bar_imbalance b\<bar>" "bar_close b"]
    unfolding vpin_sim_def by (simp add: push_imbalance_def Let_def)
qed

lemma vpin_sim_sums:
  assumes "vpin_sim e h vs"
  shows "imbalance_sum e = sum_list (lastn (window_size e) (map (\<lambda>b. \<bar>bar_imbalance b\<bar>) h))"
    and "vpin_sum e = sum_list (lastn (z_history_size e) vs)"
    and "vpin_sq_sum e = square_sum (lastn (z_history_size e) vs)"
proof -
  have "sum_list (ring_list (imbalances e) (v_index e)) = sum_list (lastn (window_size e) (map (\<lambda>b. \<bar>bar_imbalance b\<bar>) h))"
    by (simp only: vpin_sim_rings [OF assms] sum_zeros_then)
  then show "imbalance_sum e = sum_list (lastn (window_size e) (map (\<lambda>b. \<bar>bar_imbalance b\<bar>) h))"
    using assms by (simp add: vpin_sim_def sums_match_def)
  have "sum_list (ring_list (vpin_history e) (z_index e)) = sum_list (lastn (z_history_size e) vs)"
    by (simp only: vpin_sim_rings [OF assms] sum_zeros_then)
  then show "vpin_sum e = sum_list (lastn (z_history_size e) vs)"
    using assms by (simp add: vpin_sim_def sums_match_def)
  have "square_sum (ring_list (vpin_history e) (z_index e)) = square_sum (lastn (z_history_size e) vs)"
    by (simp only: vpin_sim_rings [OF assms] square_sum_zeros_then)
  then show "vpin_sq_sum e = square_sum (lastn (z_history_size e) vs)"
    using assms by (simp add: vpin_sim_def sums_match_def)
qed

lemma vpin_sim_push_vpin:
  assumes "vpin_sim e h vs"
  shows "vpin_sim (push_vpin v e) h (vs @ [v])"
proof -
  have z: "0 < z_history_size e" "z_index e < z_history_size e" "length (vpin_history e) = z_history_size e"
    using assms by (auto simp: vpin_sim_def vpin_shape_def)
  with assms show ?thesis
    using ring_list_push [of "z_index e" "vpin_history e" v]
      vpin_shape_push_vpin [of e v] sums_match_push_vpin [of e v]
    unfolding vpin_sim_def
    by (auto simp: push_vpin_def Let_def zeros_then_snoc)
qed

lemma rebuild_guard_id:
  "sums_match e \<Longrightarrow> \<exists>k. rebuild_guard e = e\<lparr>bars_since_rebuild := k\<rparr>"
  by (cases e) (auto simp: sums_match_def rebuild_guard_def rebuild_sums_def Let_def)

lemma vpin_sim_rebuild: "vpin_sim e h vs \<Longrightarrow> vpin_sim (rebuild_guard e) h vs"
  using rebuild_guard_id [of e] by (auto simp: vpin_sim_def vpin_shape_def sums_match_def)

lemma vpin_sim_value:
  assumes "vpin_sim e h vs" and "window_size e \<le> length h"
  shows "current_vpin e = spec_vpin (window_size e) (volume_threshold e) h"
  using vpin_sim_sums(1) [OF assms(1)]
  by (simp add: current_vpin_def spec_vpin_def clamp01_def lastn_def drop_map)

lemma vpin_sim_z:
  assumes "vpin_sim e h vs" and "vs \<noteq> []"
  shows "z_value v e = spec_z (lastn (z_history_size e) vs) v"
proof -
  have "0 < z_count e" "z_count e = length (lastn (z_history_size e) vs)"
    using assms by (auto simp: vpin_sim_def vpin_shape_def)
  then show ?thesis
    using vpin_sim_sums(2,3) [OF assms(1)] by (simp add: z_value_def spec_z_def Let_def)
qed

lemma vpin_sim_oldest:
  assumes "vpin_sim e h vs" and "window_size e \<le> length h"
  shows "price_history e ! v_index e = bar_close (hd (lastn (window_size e) h))"
proof -
  have w: "v_index e < length (price_history e)" "0 < window_size e"
    using assms by (auto simp: vpin_sim_def vpin_shape_def)
  have "price_history e ! v_index e = hd (lastn (window_size e) (map bar_close h))"
    using vpin_sim_rings(2) [OF assms(1)] w ring_list_hd [of "v_index e" "price_history e"] assms(2)
    by (simp add: zeros_then_full)
  also have "\<dots> = bar_close (hd (lastn (window_size e) h))"
    using assms w by (auto simp: lastn_def drop_map intro!: hd_map)
  finally show ?thesis .
qed

lemma vpin_frame [frame_simps]:
  "window_size (push_imbalance a p e) = window_size e"
  "z_history_size (push_imbalance a p e) = z_history_size e"
  "volume_threshold (push_imbalance a p e) = volume_threshold e"
  "anomaly_z (push_imbalance a p e) = anomaly_z e"
  "last_update_time (push_imbalance a p e) = last_update_time e"
  "window_size (push_vpin v e) = window_size e"
  "z_history_size (push_vpin v e) = z_history_size e"
  "volume_threshold (push_vpin v e) = volume_threshold e"
  "anomaly_z (push_vpin v e) = anomaly_z e"
  "last_update_time (push_vpin v e) = last_update_time e"
  "window_size (rebuild_guard e) = window_size e"
  "z_history_size (rebuild_guard e) = z_history_size e"
  "volume_threshold (rebuild_guard e) = volume_threshold e"
  "anomaly_z (rebuild_guard e) = anomaly_z e"
  "last_update_time (rebuild_guard e) = last_update_time e"
  by (simp_all add: push_imbalance_def push_vpin_def rebuild_guard_def rebuild_sums_def Let_def)

definition vpin_params :: "vpin_engine \<Rightarrow> nat \<times> flt \<times> nat \<times> flt" where
  "vpin_params e = (window_size e, volume_threshold e, z_history_size e, anomaly_z e)"

lemma process_bar_sim:
  fixes b :: dollar_bar
  assumes sim: "vpin_sim e h vs" and gap: "now - last_update_time e \<le> of_int (vpin_time_gap_sec cfg)"
  defines "r \<equiv> process_bar cfg now e b" and "w \<equiv> window_size e"
  shows "last_update_time (fst r) = now \<and> vpin_params (fst r) = vpin_params e
   \<and> (if length (h @ [b]) < w then snd r = None \<and> vpin_sim (fst r) (h @ [b]) vs
      else snd r = Some (spec_signal w (volume_threshold e) (z_history_size e) (anomaly_z e) (h @ [b]) vs)
        \<and> vpin_sim (fst r) (h @ [b]) (vs @ [spec_vpin w (volume_threshold e) (h @ [b])]))"
proof -
  define e1 where "e1 = push_imbalance \<bar>bar_imbalance b\<bar> (bar_close b) (e\<lparr>last_update_time := now\<rparr>)"
  have sim1: "vpin_sim e1 (h @ [b]) vs"
    unfolding e1_def by (rule vpin_sim_push_imbalance) (use sim in simp)
  have fr: "window_size e1 = w" "volume_threshold e1 = volume_threshold e"
    "z_history_size e1 = z_history_size e" "anomaly_z e1 = anomaly_z e" "last_update_time e1 = now"
    by (simp_all add: e1_def w_def frame_simps)
  have filled: "is_filled e1 \<longleftrightarrow> w \<le> length (h @ [b])"
    using sim1 fr by (simp add: vpin_sim_def)
  have r: "r = (if \<not> is_filled e1 then (e1, None) else
      let v = current_vpin e1; e2 = push_vpin v e1; z = z_value v e2;
          c = classify (anomaly_z e2 < z) (bar_imbalance b) (bar_close b - price_history e1 ! v_index e1)
      in (rebuild_guard e2, Some \<lparr>vpin_value = v, z_score = z, is_anomaly = (anomaly_z e2 < z),
            absorption_detected = snd c, sig_direction = fst c\<rparr>))"
    by (simp add: r_def process_bar_def decay_guard_no_gap [OF gap] e1_def bar_imbalance_def
        Let_def case_prod_unfold)
  show ?thesis
  proof (cases "is_filled e1")
    case False
    with sim1 r fr filled show ?thesis by (simp add: vpin_params_def w_def)
  next
    case True
    let ?v = "spec_vpin w (volume_threshold e) (h @ [b])"
    have len: "window_size e1 \<le> length (h @ [b])" using True filled fr by simp
    have v: "current_vpin e1 = ?v" using vpin_sim_value [OF sim1 len] fr by simp
    have z: "z_value ?v (push_vpin ?v e1) = spec_z (lastn (z_history_size e) (vs @ [?v])) ?v"
      using vpin_sim_z [OF vpin_sim_push_vpin [OF sim1, of ?v]] fr by (simp add: frame_simps)
    show ?thesis
      using True r v z fr len vpin_sim_oldest [OF sim1 len]
        vpin_sim_rebuild [OF vpin_sim_push_vpin [OF sim1, of ?v]]
      by (simp add: vpin_params_def w_def frame_simps spec_signal_def Let_def)
  qed
qed

lemma vpin_run_sim:
  assumes "vpin_sim e h vs" and "gap_free (of_int (vpin_time_gap_sec cfg)) (last_update_time e) (map fst bs)"
    and "vpin_params e = (w, vol, z, thr)"
  shows "map snd (run_log (vpin_step cfg) e bs) = spec_run w vol z thr h vs (map snd bs)"
  using assms
proof (induction bs arbitrary: e h vs)
  case Nil
  then show ?case by simp
next
  case (Cons nb bs)
  obtain now b where nb: "nb = (now, b)" by force
  have par: "window_size e = w" "volume_threshold e = vol" "z_history_size e = z" "anomaly_z e = thr"
    using Cons.prems(3) by (simp_all add: vpin_params_def)
  have gap: "now - last_update_time e \<le> of_int (vpin_time_gap_sec cfg)"
    using Cons.prems(2) nb by simp
  note step = process_bar_sim [OF Cons.prems(1) gap, of b, unfolded par]
  have "map snd (run_log (vpin_step cfg) (fst (process_bar cfg now e b)) bs)
      = (if length (h @ [b]) < w then spec_run w vol z thr (h @ [b]) vs (map snd bs)
         else spec_run w vol z thr (h @ [b]) (vs @ [spec_vpin w vol (h @ [b])]) (map snd bs))"
    using step Cons.prems nb by (auto intro!: Cons.IH)
  with step nb show ?case by (simp add: Let_def)
qed

lemma vpin_refines_spec_aux:
  assumes "vpin_init w vol thr z reb t0 = Inr e"
    and "gap_free (of_int (vpin_time_gap_sec cfg)) t0 (map fst bs)"
  shows "map snd (run_log (vpin_step cfg) e bs) = spec_run w vol z thr [] [] (map snd bs)"
proof (rule vpin_run_sim)
  show "vpin_sim e [] []" by (rule vpin_sim_init [OF assms(1)])
  show "gap_free (of_int (vpin_time_gap_sec cfg)) (last_update_time e) (map fst bs)"
    and "vpin_params e = (w, vol, z, thr)"
    using assms by (auto simp: vpin_init_def reset_o1_def vpin_params_def split: if_splits)
qed

text \<open>C1: as long as no two bars are further apart than the decay gap, the ring-buffer engine
  answers exactly what its list specification says: nothing before the window is full, then
  the clamped mean imbalance of the last W bars, its Z-score over the last Z values with the
  number of values as divisor (I3), and the absorption test against the oldest close of the
  window (I1), whatever the rebuild interval.\<close>

theorem vpin_refines_spec:
  assumes "vpin_init w vol thr z reb t0 = Inr e"
    and "gap_free (of_int (vpin_time_gap_sec cfg)) t0 (map fst bs)"
  shows "map snd (run_log (vpin_step cfg) e bs) = spec_run w vol z thr [] [] (map snd bs)"
  by (rule vpin_refines_spec_aux [OF assms])

theorem vpin_refines_spec_witness:
  "map snd (run_log (vpin_step demo_cfg) demo_vpin [(1, demo_bar 9 1 5), (2, demo_bar 8 2 6), (3, demo_bar 3 7 7)])
     = spec_run 2 10 2 2 [] [] [demo_bar 9 1 5, demo_bar 8 2 6, demo_bar 3 7 7]"
  using vpin_refines_spec [OF demo_vpin_init, of demo_cfg "[(1, demo_bar 9 1 5), (2, demo_bar 8 2 6), (3, demo_bar 3 7 7)]"]
  by (simp add: demo_cfg_def)

section \<open>Signals\<close>

text \<open>A signal's VPIN is a probability; it is an anomaly exactly when its Z-score exceeds
  the threshold; its direction is the side of the bar's imbalance and only an anomaly has
  one; and absorption is reported exactly when the price failed to follow that side since
  the window's oldest close.\<close>

theorem signal_semantics:
  assumes "process_bar cfg now e bar = (e', Some s)"
  defines "ret \<equiv> bar_close bar - (price_history e)[v_index e := bar_close bar] ! ring_next (window_size e) (v_index e)"
  shows "0 \<le> vpin_value s \<and> vpin_value s \<le> 1 \<and> (is_anomaly s \<longleftrightarrow> anomaly_z e < z_score s)
    \<and> (sig_direction s = Long \<longleftrightarrow> is_anomaly s \<and> 0 < bar_imbalance bar)
    \<and> (sig_direction s = Short \<longleftrightarrow> is_anomaly s \<and> bar_imbalance bar < 0)
    \<and> (absorption_detected s \<longleftrightarrow>
         sig_direction s = Long \<and> ret \<le> 0 \<or> sig_direction s = Short \<and> 0 \<le> ret)"
proof -
  let ?e0 = "decay_guard cfg now e"
  let ?e1 = "push_imbalance \<bar>bar_imbalance bar\<bar> (bar_close bar) ?e0"
  have e0: "price_history ?e0 = price_history e" "v_index ?e0 = v_index e"
    "window_size ?e0 = window_size e" "anomaly_z ?e0 = anomaly_z e"
    by (simp_all add: decay_guard_def apply_time_decay_def Let_def)
  then have ret: "ret = bar_close bar - price_history ?e1 ! v_index ?e1"
    by (simp add: ret_def push_imbalance_def Let_def)
  have v: "0 \<le> current_vpin ?e1 \<and> current_vpin ?e1 \<le> 1"
    by (simp add: current_vpin_def Let_def)
  from assms(1) e0 v show ?thesis
    unfolding ret
    by (auto simp: process_bar_def bar_imbalance_def Let_def classify_def frame_simps split: if_splits)
qed

theorem signal_semantics_witness:
  "\<exists>e' s. process_bar demo_cfg 2 (fst (process_bar demo_cfg 1 demo_vpin (demo_bar 9 1 5))) (demo_bar 8 2 6) = (e', Some s)
     \<and> 0 \<le> vpin_value s \<and> vpin_value s \<le> 1"
proof -
  let ?e = "fst (process_bar demo_cfg 1 demo_vpin (demo_bar 9 1 5))"
  obtain e' s where r: "process_bar demo_cfg 2 ?e (demo_bar 8 2 6) = (e', Some s)"
    by (cases "process_bar demo_cfg 2 ?e (demo_bar 8 2 6)")
      (auto simp: process_bar_def decay_guard_def push_imbalance_def demo_vpin_def demo_cfg_def
        ring_next_def Let_def case_prod_unfold)
  from signal_semantics [OF r] r show ?thesis by auto
qed

lemma spec_run_warmup:
  "length h + length bs < w \<Longrightarrow> spec_run w vol z thr h vs bs = replicate (length bs) None"
  by (induction bs arbitrary: h) auto

lemma spec_run_append:
  "length h + length bs < w \<Longrightarrow>
     spec_run w vol z thr h vs (bs @ cs) = replicate (length bs) None @ spec_run w vol z thr (h @ bs) vs cs"
  by (induction bs arbitrary: h) auto

lemma spec_z_single: "spec_z [v] v = 0"
  by (simp add: spec_z_def)

text \<open>A fresh engine is silent for the first W - 1 bars and emits at the W-th; that first
  emission has Z-score 0 and, for a non-negative threshold, is no anomaly (I3).\<close>

theorem vpin_warmup:
  assumes "vpin_init w vol thr z reb t0 = Inr e" and "length bs = w"
    and "gap_free (of_int (vpin_time_gap_sec cfg)) t0 (map fst bs)"
  shows "\<exists>s. map snd (run_log (vpin_step cfg) e bs) = replicate (w - 1) None @ [Some s]
     \<and> z_score s = 0 \<and> (0 \<le> thr \<longrightarrow> \<not> is_anomaly s)"
proof -
  have w: "2 \<le> w" "w \<le> z" using assms(1) by (auto simp: vpin_init_def split: if_splits)
  have "map snd bs \<noteq> []" using assms(2) w by auto
  then obtain ys y where cs: "map snd bs = ys @ [y]" by (metis append_butlast_last_id)
  have len: "length ys = w - 1"
    using arg_cong [OF cs, of length] assms(2) by simp
  have "map snd (run_log (vpin_step cfg) e bs) = spec_run w vol z thr [] [] (ys @ [y])"
    using vpin_refines_spec_aux [OF assms(1,3)] cs by simp
  also have "\<dots> = replicate (w - 1) None @ [Some (spec_signal w vol z thr (ys @ [y]) [])]"
    using spec_run_append [of "[]" ys w vol z thr "[]" "[y]"] len w by (simp add: Let_def)
  finally show ?thesis
    using w by (auto simp: spec_signal_def Let_def spec_z_single)
qed

theorem vpin_warmup_witness:
  "\<exists>s. map snd (run_log (vpin_step demo_cfg) demo_vpin [(1, demo_bar 9 1 5), (2, demo_bar 8 2 6)]) = [None, Some s]
     \<and> z_score s = 0"
  using vpin_warmup [OF demo_vpin_init, of "[(1, demo_bar 9 1 5), (2, demo_bar 8 2 6)]" demo_cfg]
  by (auto simp: demo_cfg_def)

section \<open>What a reset leaves behind\<close>

lemma process_bar_offset:
  fixes b :: dollar_bar
  assumes "vpin_shape e" and "imbalance_sum e = sum_list (imbalances e) - c"
    and "now - last_update_time e \<le> of_int (vpin_time_gap_sec cfg)"
    and "bars_since_rebuild e + 1 < rebuild_interval e"
  defines "e' \<equiv> fst (process_bar cfg now e b)"
  shows "vpin_shape e' \<and> imbalance_sum e' = sum_list (imbalances e') - c \<and> last_update_time e' = now
    \<and> bars_since_rebuild e' \<le> bars_since_rebuild e + 1 \<and> rebuild_interval e' = rebuild_interval e"
proof -
  have "vpin_shape e'" unfolding e'_def by (rule process_bar_shape [OF assms(1)])
  then show ?thesis
    using assms(1-4)
    by (auto simp: e'_def process_bar_def decay_guard_no_gap push_imbalance_def push_vpin_def
        rebuild_guard_def Let_def case_prod_unfold vpin_shape_def sum_list_update_group)
qed

lemma run_offset:
  assumes "vpin_shape e" and "imbalance_sum e = sum_list (imbalances e) - c"
    and "gap_free (of_int (vpin_time_gap_sec cfg)) (last_update_time e) (map fst bs)"
    and "bars_since_rebuild e + int (length bs) < rebuild_interval e"
  shows "imbalance_sum (run_final (vpin_step cfg) e bs) = sum_list (imbalances (run_final (vpin_step cfg) e bs)) - c"
  using assms
proof (induction bs arbitrary: e)
  case Nil
  then show ?case by simp
next
  case (Cons nb bs)
  obtain now b where nb: "nb = (now, b)" by force
  have "now - last_update_time e \<le> of_int (vpin_time_gap_sec cfg)"
    "bars_since_rebuild e + 1 < rebuild_interval e"
    using Cons.prems nb by auto
  from process_bar_offset [OF Cons.prems(1,2) this, of b] Cons.prems nb show ?case
    by (auto intro!: Cons.IH)
qed

text \<open>After \<open>reset_o1\<close> on an engine in use, and until the next decay or rebuild, the running
  sum is the sum of the array less everything the array held at the reset: the reset zeroes
  the scalar and keeps the array, so the delta updates subtract bars that were never added.\<close>

theorem reset_o1_offset:
  assumes "vpin_shape e" and "gap_free (of_int (vpin_time_gap_sec cfg)) t (map fst bs)"
    and "int (length bs) < rebuild_interval e"
  shows "imbalance_sum (run_final (vpin_step cfg) (reset_o1 t e) bs)
       = sum_list (imbalances (run_final (vpin_step cfg) (reset_o1 t e) bs)) - sum_list (imbalances e)"
  by (rule run_offset) (use assms in \<open>auto simp: reset_o1_def vpin_shape_def\<close>)

definition demo_used :: vpin_engine where
  "demo_used = demo_vpin\<lparr>imbalances := [10, 10], is_filled := True, imbalance_sum := 20\<rparr>"

text \<open>The witness: a used engine of window 2, reset and fed two bars of imbalance 10, holds the
  sum 0 where the window's true sum is 20.\<close>

theorem reset_o1_offset_witness:
  "imbalance_sum (run_final (vpin_step demo_cfg) (reset_o1 0 demo_used) [(1, demo_bar 10 0 5), (2, demo_bar 10 0 5)]) = 0"
proof -
  let ?bs = "[(1, demo_bar 10 0 5), (2, demo_bar 10 0 5)]"
  have "vpin_shape demo_used" "gap_free (of_int (vpin_time_gap_sec demo_cfg)) 0 (map fst ?bs)"
    "int (length ?bs) < rebuild_interval demo_used"
    by (simp_all add: demo_used_def demo_vpin_def demo_cfg_def vpin_shape_def)
  from reset_o1_offset [OF this]
  have "imbalance_sum (run_final (vpin_step demo_cfg) (reset_o1 0 demo_used) ?bs)
      = sum_list (imbalances (run_final (vpin_step demo_cfg) (reset_o1 0 demo_used) ?bs)) - 20"
    by (simp add: demo_used_def)
  also have "imbalances (run_final (vpin_step demo_cfg) (reset_o1 0 demo_used) ?bs) = [10, 10]"
    by (simp add: process_bar_def decay_guard_def push_imbalance_def push_vpin_def rebuild_guard_def
        demo_used_def demo_vpin_def demo_cfg_def demo_bar_def reset_o1_def ring_next_def Let_def case_prod_unfold)
  finally show ?thesis by simp
qed

end
