(* ===== verification/Detectors.thy ===== *)
theory Detectors
  imports Conflation
begin

text \<open>
  The three tick-level detectors and their bank (\<open>src/src/domain/liquidity_detectors.py\<close>):
  sweeps of same-side trades, large prints against the 24h turnover and order-flow pulses
  against the median of earlier buckets.  Each detector is a record with a map per symbol,
  as in the code, and a step per tick.  The lemmas show what tape stands behind an alert,
  that the pulse detector's buckets are the tape grouped by time, that the alerts of a
  detector respect its cooldown, and that symbols do not touch each other.
\<close>

section \<open>Alerts\<close>

datatype aggressor = Buy | Sell
datatype alert_kind = SWEEP | LARGE_PRINT | OFI_PULSE

text \<open>The values of an alert's \<open>extra\<close> dictionary: \<open>float("nan")\<close> and \<open>float("inf")\<close> are
  constructors of their own.\<close>

datatype extra_val = XInt int | XFloat flt | XNan | XInf

record liquidity_alert =
  la_symbol :: symbol
  la_timestamp :: time
  la_kind :: alert_kind
  la_direction :: aggressor
  la_price :: flt
  la_notional :: flt
  la_extra :: "(string \<times> extra_val) list"

definition taker_side :: "tick \<Rightarrow> aggressor" where
  "taker_side t = (if tk_buyer_maker t then Sell else Buy)"

definition tick_usd :: "tick \<Rightarrow> flt" where
  "tick_usd t = tk_price t * tk_size t"

definition cooling :: "(symbol \<rightharpoonup> time) \<Rightarrow> flt \<Rightarrow> symbol \<Rightarrow> time \<Rightarrow> bool" where
  "cooling last_alert cooldown sy ts =
     (case last_alert sy of None \<Rightarrow> False | Some l \<Rightarrow> ts - l < cooldown)"

section \<open>Sweeps\<close>

record sweep_state =
  sw_direction :: aggressor
  sw_notional :: flt
  sw_count :: int
  sw_first_ts :: time
  sw_last_ts :: time

record sweep_detector =
  sw_min_trades :: int
  sw_window_sec :: flt
  sw_min_notional :: flt
  sw_cooldown :: flt
  sw_state :: "symbol \<rightharpoonup> sweep_state"
  sw_last_alert :: "symbol \<rightharpoonup> time"

definition sweep_init :: "int \<Rightarrow> flt \<Rightarrow> flt \<Rightarrow> flt \<Rightarrow> py_error + sweep_detector" where
  "sweep_init min_trades window min_notional cooldown =
     (if min_trades < 2 then Inl (ValueError ''min_trades must be >= 2'')
      else if window \<le> 0 then Inl (ValueError ''window_sec must be > 0'')
      else if min_notional \<le> 0 then Inl (ValueError ''min_notional_usd must be > 0'')
      else if cooldown < 0 then Inl (ValueError ''cooldown_sec must be >= 0'')
      else Inr \<lparr>sw_min_trades = min_trades, sw_window_sec = window, sw_min_notional = min_notional,
                sw_cooldown = cooldown, sw_state = Map.empty, sw_last_alert = Map.empty\<rparr>)"

definition sweep_reset :: "symbol \<Rightarrow> sweep_detector \<Rightarrow> sweep_detector" where
  "sweep_reset sy d = d\<lparr>sw_state := (sw_state d)(sy := None)\<rparr>"

text \<open>The tests \<open>st is None or st.direction != direction or (ts - st.first_ts) > window\<close> for
  a fresh accumulator, and the accumulator that absorbs the tick otherwise.\<close>

definition sweep_stale :: "flt \<Rightarrow> tick \<Rightarrow> sweep_state option \<Rightarrow> bool" where
  "sweep_stale window t st =
     (case st of
        None \<Rightarrow> True
      | Some s \<Rightarrow> sw_direction s \<noteq> taker_side t \<or> window < tk_ts t - sw_first_ts s)"

definition sweep_fresh :: "tick \<Rightarrow> sweep_state" where
  "sweep_fresh t = \<lparr>sw_direction = taker_side t, sw_notional = tick_usd t, sw_count = 1,
                    sw_first_ts = tk_ts t, sw_last_ts = tk_ts t\<rparr>"

definition sweep_absorb :: "tick \<Rightarrow> sweep_state \<Rightarrow> sweep_state" where
  "sweep_absorb t s = s\<lparr>sw_notional := sw_notional s + tick_usd t, sw_count := sw_count s + 1,
                        sw_last_ts := tk_ts t\<rparr>"

definition sweep_alert :: "sweep_detector \<Rightarrow> tick \<Rightarrow> sweep_state \<Rightarrow> liquidity_alert" where
  "sweep_alert d t s =
     \<lparr>la_symbol = tk_symbol t, la_timestamp = tk_ts t, la_kind = SWEEP, la_direction = taker_side t,
      la_price = tk_price t, la_notional = sw_notional s,
      la_extra = [(''trade_count'', XInt (sw_count s)),
                  (''duration_sec'', XFloat (tk_ts t - sw_first_ts s)),
                  (''min_trades'', XInt (sw_min_trades d)),
                  (''min_notional_usd'', XFloat (sw_min_notional d))]\<rparr>"

definition sweep_step :: "sweep_detector \<Rightarrow> tick \<Rightarrow> sweep_detector \<times> liquidity_alert option" where
  "sweep_step d t =
     (let sy = tk_symbol t
      in if cooling (sw_last_alert d) (sw_cooldown d) sy (tk_ts t) then (sweep_reset sy d, None)
         else if sweep_stale (sw_window_sec d) t (sw_state d sy)
         then (d\<lparr>sw_state := (sw_state d)(sy \<mapsto> sweep_fresh t)\<rparr>, None)
         else
           let s = sweep_absorb t (the (sw_state d sy));
               d1 = d\<lparr>sw_state := (sw_state d)(sy \<mapsto> s)\<rparr>
           in if sw_min_trades d \<le> sw_count s \<and> sw_min_notional d \<le> sw_notional s
              then (sweep_reset sy (d1\<lparr>sw_last_alert := (sw_last_alert d)(sy \<mapsto> tk_ts t)\<rparr>),
                    Some (sweep_alert d t s))
              else (d1, None))"

section \<open>Large prints\<close>

text \<open>
  The turnover provider is a callable of the host whose answer changes between calls: the
  step takes what it answers for the tick's symbol.
\<close>

record large_detector =
  lp_pct_threshold :: flt
  lp_min_notional :: flt
  lp_cooldown :: flt
  lp_last_alert :: "symbol \<rightharpoonup> time"

definition large_init :: "flt \<Rightarrow> flt \<Rightarrow> flt \<Rightarrow> py_error + large_detector" where
  "large_init pct min_notional cooldown =
     (if pct \<le> 0 then Inl (ValueError ''pct_threshold must be > 0'')
      else if min_notional \<le> 0 then Inl (ValueError ''min_notional_usd must be > 0'')
      else if cooldown < 0 then Inl (ValueError ''cooldown_sec must be >= 0'')
      else Inr \<lparr>lp_pct_threshold = pct, lp_min_notional = min_notional,
                lp_cooldown = cooldown, lp_last_alert = Map.empty\<rparr>)"

text \<open>The share of the turnover, \<open>None\<close> for the early return, \<open>XNan\<close> for the fallback on an
  unknown turnover.\<close>

definition large_share :: "large_detector \<Rightarrow> flt \<Rightarrow> flt \<Rightarrow> extra_val option" where
  "large_share d turnover notional =
     (if turnover \<le> 0
      then (if notional < 10 * lp_min_notional d then None else Some XNan)
      else (let pct = notional / turnover
            in if pct < lp_pct_threshold d then None else Some (XFloat pct)))"

definition large_step :: "large_detector \<Rightarrow> tick \<times> flt \<Rightarrow> large_detector \<times> liquidity_alert option" where
  "large_step d ev =
     (let t = fst ev; turnover = snd ev; notional = tick_usd t
      in if notional < lp_min_notional d then (d, None)
         else if cooling (lp_last_alert d) (lp_cooldown d) (tk_symbol t) (tk_ts t) then (d, None)
         else
           (case large_share d turnover notional of
              None \<Rightarrow> (d, None)
            | Some pct \<Rightarrow>
                (d\<lparr>lp_last_alert := (lp_last_alert d)(tk_symbol t \<mapsto> tk_ts t)\<rparr>,
                 Some \<lparr>la_symbol = tk_symbol t, la_timestamp = tk_ts t, la_kind = LARGE_PRINT,
                       la_direction = taker_side t, la_price = tk_price t, la_notional = notional,
                       la_extra = [(''pct_of_24h_turnover'', pct),
                                   (''turnover_24h_usd'', XFloat turnover),
                                   (''pct_threshold'', XFloat (lp_pct_threshold d))]\<rparr>)))"

section \<open>Order-flow pulses\<close>

record ofi_bucket =
  ob_start :: time
  ob_buy :: flt
  ob_sell :: flt

record ofi_detector =
  of_bucket_sec :: flt
  of_history :: nat
  of_k :: flt
  of_min_notional :: flt
  of_min_history :: nat
  of_cooldown :: flt
  of_buckets :: "symbol \<rightharpoonup> ofi_bucket list"
  of_last_alert :: "symbol \<rightharpoonup> time"

definition ofi_init :: "flt \<Rightarrow> nat \<Rightarrow> flt \<Rightarrow> flt \<Rightarrow> nat \<Rightarrow> flt \<Rightarrow> py_error + ofi_detector" where
  "ofi_init bucket history k min_notional min_history cooldown =
     (if bucket \<le> 0 then Inl (ValueError ''bucket_sec must be > 0'')
      else if history < 2 then Inl (ValueError ''history_buckets must be >= 2'')
      else if k \<le> 1 then Inl (ValueError ''k must be > 1.0'')
      else if min_history < 2 then Inl (ValueError ''min_history must be >= 2'')
      else Inr \<lparr>of_bucket_sec = bucket, of_history = history, of_k = k,
                of_min_notional = min_notional, of_min_history = min_history,
                of_cooldown = cooldown, of_buckets = Map.empty, of_last_alert = Map.empty\<rparr>)"

text \<open>Python's \<open>x % b\<close> on floats, for a positive \<open>b\<close>: the remainder of the floor division.\<close>

definition py_fmod :: "flt \<Rightarrow> flt \<Rightarrow> flt" where
  "py_fmod x b = x - b * of_int \<lfloor>x / b\<rfloor>"

definition bucket_of :: "flt \<Rightarrow> time \<Rightarrow> time" where
  "bucket_of b ts = ts - py_fmod ts b"

text \<open>The deque of \<open>maxlen\<close> n: an append on a full deque drops its head.\<close>

definition open_bucket :: "nat \<Rightarrow> time \<Rightarrow> ofi_bucket list \<Rightarrow> ofi_bucket list" where
  "open_bucket n start bq =
     (if bq \<noteq> [] \<and> ob_start (last bq) = start then bq
      else lastn n (bq @ [\<lparr>ob_start = start, ob_buy = 0, ob_sell = 0\<rparr>]))"

definition fill_bucket :: "tick \<Rightarrow> ofi_bucket \<Rightarrow> ofi_bucket" where
  "fill_bucket t b =
     (if tk_buyer_maker t then b\<lparr>ob_sell := ob_sell b + tick_usd t\<rparr>
      else b\<lparr>ob_buy := ob_buy b + tick_usd t\<rparr>)"

definition bucket_tick :: "flt \<Rightarrow> nat \<Rightarrow> ofi_bucket list \<Rightarrow> tick \<Rightarrow> ofi_bucket list" where
  "bucket_tick b n bq t =
     (let bq1 = open_bucket n (bucket_of b (tk_ts t)) bq
      in butlast bq1 @ [fill_bucket t (last bq1)])"

definition bucket_ofi :: "ofi_bucket \<Rightarrow> flt" where
  "bucket_ofi b = ob_buy b - ob_sell b"

definition py_median :: "flt list \<Rightarrow> flt" where
  "py_median xs =
     (let s = sort xs; n = length xs
      in if odd n then s ! (n div 2) else (s ! (n div 2 - 1) + s ! (n div 2)) / 2)"

text \<open>The ratio to the median of the earlier buckets, \<open>None\<close> for the early returns.\<close>

definition pulse_ratio :: "ofi_detector \<Rightarrow> ofi_bucket list \<Rightarrow> extra_val option" where
  "pulse_ratio d bq =
     (let cur_abs = \<bar>bucket_ofi (last bq)\<bar>;
          prior_abs = map (\<lambda>b. \<bar>bucket_ofi b\<bar>) (butlast bq)
      in if length bq < of_min_history d + 1 then None
         else if cur_abs < of_min_notional d then None
         else if prior_abs = [] then None
         else if py_median prior_abs \<le> 0
         then (if cur_abs < 5 * of_min_notional d then None else Some XInf)
         else (let ratio = cur_abs / py_median prior_abs
               in if ratio < of_k d then None else Some (XFloat ratio)))"

definition ofi_step :: "ofi_detector \<Rightarrow> tick \<Rightarrow> ofi_detector \<times> liquidity_alert option" where
  "ofi_step d t =
     (let sy = tk_symbol t;
          bq0 = (case of_buckets d sy of None \<Rightarrow> [] | Some bq \<Rightarrow> bq);
          bq = bucket_tick (of_bucket_sec d) (of_history d) bq0 t;
          d1 = d\<lparr>of_buckets := (of_buckets d)(sy \<mapsto> bq)\<rparr>;
          cur_ofi = bucket_ofi (last bq);
          prior_abs = map (\<lambda>b. \<bar>bucket_ofi b\<bar>) (butlast bq)
      in (case pulse_ratio d bq of
            None \<Rightarrow> (d1, None)
          | Some ratio \<Rightarrow>
              if cooling (of_last_alert d) (of_cooldown d) sy (tk_ts t) then (d1, None)
              else (d1\<lparr>of_last_alert := (of_last_alert d)(sy \<mapsto> tk_ts t)\<rparr>,
                    Some \<lparr>la_symbol = sy, la_timestamp = tk_ts t, la_kind = OFI_PULSE,
                          la_direction = (if 0 < cur_ofi then Buy else Sell),
                          la_price = tk_price t, la_notional = \<bar>cur_ofi\<bar>,
                          la_extra = [(''ratio_to_median'', ratio),
                                      (''k_threshold'', XFloat (of_k d)),
                                      (''median_abs_ofi_usd'', XFloat (py_median prior_abs)),
                                      (''bucket_sec'', XFloat (of_bucket_sec d)),
                                      (''history_buckets_used'', XInt (int (length prior_abs)))]\<rparr>)))"

section \<open>The bank\<close>

record detector_bank =
  bk_sweep :: "sweep_detector option"
  bk_large :: "large_detector option"
  bk_ofi :: "ofi_detector option"
  bk_enabled :: bool

definition bank_init :: "sweep_detector option \<Rightarrow> large_detector option \<Rightarrow> ofi_detector option \<Rightarrow> detector_bank" where
  "bank_init sw lp ofi =
     \<lparr>bk_sweep = sw, bk_large = lp, bk_ofi = ofi,
      bk_enabled = (sw \<noteq> None \<or> lp \<noteq> None \<or> ofi \<noteq> None)\<rparr>"

text \<open>One member of the bank: absent, it answers nothing.\<close>

fun run_member :: "('d \<Rightarrow> 'e \<Rightarrow> 'd \<times> 'a option) \<Rightarrow> 'd option \<Rightarrow> 'e \<Rightarrow> 'd option \<times> 'a list" where
  "run_member step None e = (None, [])"
| "run_member step (Some d) e = (Some (fst (step d e)), case snd (step d e) of None \<Rightarrow> [] | Some a \<Rightarrow> [a])"

definition bank_step :: "detector_bank \<Rightarrow> tick \<times> flt \<Rightarrow> detector_bank \<times> liquidity_alert list" where
  "bank_step bk ev =
     (if \<not> bk_enabled bk then (bk, [])
      else
        let (sw, a1) = run_member sweep_step (bk_sweep bk) (fst ev);
            (lp, a2) = run_member large_step (bk_large bk) ev;
            (ofi, a3) = run_member ofi_step (bk_ofi bk) (fst ev)
        in (bk\<lparr>bk_sweep := sw, bk_large := lp, bk_ofi := ofi\<rparr>, a1 @ a2 @ a3))"

section \<open>Cooldowns\<close>

interpretation sweep_gate: cooldown_gate sweep_step tk_symbol tk_ts sw_last_alert sw_cooldown
  by unfold_locales (auto simp: sweep_step_def sweep_reset_def cooling_def Let_def split: if_splits)

interpretation large_gate: cooldown_gate large_step "\<lambda>ev. tk_symbol (fst ev)" "\<lambda>ev. tk_ts (fst ev)"
  lp_last_alert lp_cooldown
  by unfold_locales (auto simp: large_step_def cooling_def Let_def split: if_splits option.splits)

interpretation ofi_gate: cooldown_gate ofi_step tk_symbol tk_ts of_last_alert of_cooldown
  by unfold_locales (auto simp: ofi_step_def cooling_def Let_def split: if_splits option.splits)

text \<open>Whatever the tape, consecutive alerts of one detector for one symbol are at least
  its cooldown apart in exchange time, for the sweep, large-print and pulse detectors alike.\<close>

theorem detector_alerts_spaced:
  "spaced (sw_cooldown sw) (fire_times sweep_step tk_symbol tk_ts sy sw ts)
   \<and> spaced (lp_cooldown lp)
       (fire_times large_step (\<lambda>ev. tk_symbol (fst ev)) (\<lambda>ev. tk_ts (fst ev)) sy lp evs)
   \<and> spaced (of_cooldown ofi) (fire_times ofi_step tk_symbol tk_ts sy ofi ts)"
  by (intro conjI sweep_gate.fires_spaced large_gate.fires_spaced ofi_gate.fires_spaced)

section \<open>Symbols are isolated\<close>

definition sweep_agree :: "symbol \<Rightarrow> sweep_detector \<Rightarrow> sweep_detector \<Rightarrow> bool" where
  "sweep_agree sy d d' \<longleftrightarrow> sw_min_trades d = sw_min_trades d' \<and> sw_window_sec d = sw_window_sec d'
     \<and> sw_min_notional d = sw_min_notional d' \<and> sw_cooldown d = sw_cooldown d'
     \<and> sw_state d sy = sw_state d' sy \<and> sw_last_alert d sy = sw_last_alert d' sy"

definition large_agree :: "symbol \<Rightarrow> large_detector \<Rightarrow> large_detector \<Rightarrow> bool" where
  "large_agree sy d d' \<longleftrightarrow> lp_pct_threshold d = lp_pct_threshold d' \<and> lp_min_notional d = lp_min_notional d'
     \<and> lp_cooldown d = lp_cooldown d' \<and> lp_last_alert d sy = lp_last_alert d' sy"

definition ofi_agree :: "symbol \<Rightarrow> ofi_detector \<Rightarrow> ofi_detector \<Rightarrow> bool" where
  "ofi_agree sy d d' \<longleftrightarrow> of_bucket_sec d = of_bucket_sec d' \<and> of_history d = of_history d'
     \<and> of_k d = of_k d' \<and> of_min_notional d = of_min_notional d' \<and> of_min_history d = of_min_history d'
     \<and> of_cooldown d = of_cooldown d' \<and> of_buckets d sy = of_buckets d' sy
     \<and> of_last_alert d sy = of_last_alert d' sy"

interpretation sweep_iso: isolated sweep_step tk_symbol sweep_agree
  by unfold_locales
    (auto simp: sweep_step_def sweep_reset_def sweep_agree_def sweep_alert_def cooling_def Let_def
       split: if_splits option.splits)

interpretation large_iso: isolated large_step "\<lambda>ev. tk_symbol (fst ev)" large_agree
  by unfold_locales
    (auto simp: large_step_def large_agree_def cooling_def large_share_def Let_def
       split: if_splits option.splits)

lemma pulse_ratio_agree: "ofi_agree sy d d' \<Longrightarrow> pulse_ratio d bq = pulse_ratio d' bq"
  by (simp add: pulse_ratio_def ofi_agree_def Let_def)

lemma ofi_step_agree:
  assumes "ofi_agree (tk_symbol t) d d'"
  shows "snd (ofi_step d t) = snd (ofi_step d' t)
    \<and> ofi_agree (tk_symbol t) (fst (ofi_step d t)) (fst (ofi_step d' t))"
  using assms pulse_ratio_agree [OF assms]
  by (auto simp: ofi_step_def cooling_def Let_def ofi_agree_def split: option.split)

interpretation ofi_iso: isolated ofi_step tk_symbol ofi_agree
proof unfold_locales
  show "ofi_agree k s s" for k s by (simp add: ofi_agree_def)
  show "tk_symbol e \<noteq> k \<Longrightarrow> ofi_agree k s s' \<Longrightarrow> ofi_agree k (fst (ofi_step s e)) s'" for e k s s'
    by (auto simp: ofi_step_def ofi_agree_def Let_def split: option.split)
qed (use ofi_step_agree in auto)

definition bank_agree :: "symbol \<Rightarrow> detector_bank \<Rightarrow> detector_bank \<Rightarrow> bool" where
  "bank_agree sy b b' \<longleftrightarrow> bk_enabled b = bk_enabled b' \<and> rel_option (sweep_agree sy) (bk_sweep b) (bk_sweep b')
     \<and> rel_option (large_agree sy) (bk_large b) (bk_large b') \<and> rel_option (ofi_agree sy) (bk_ofi b) (bk_ofi b')"

context isolated begin

lemma member_same:
  fixes step' :: "'s \<Rightarrow> 'e \<Rightarrow> 's \<times> 'b option"
  assumes "rel_option (agree (key e)) m m'"
    and "\<And>s s'. agree (key e) s s' \<Longrightarrow> snd (step' s e) = snd (step' s' e)"
    and "\<And>s. fst (step' s e) = fst (step s e)"
  shows "snd (run_member step' m e) = snd (run_member step' m' e)"
    and "rel_option (agree (key e)) (fst (run_member step' m e)) (fst (run_member step' m' e))"
  using assms by (cases m; cases m'; auto intro: same_state)+

lemma member_other:
  fixes step' :: "'s \<Rightarrow> 'e \<Rightarrow> 's \<times> 'b option"
  assumes "key e \<noteq> k" and "rel_option (agree k) m m'" and "\<And>s. fst (step' s e) = fst (step s e)"
  shows "rel_option (agree k) (fst (run_member step' m e)) m'"
  using assms by (cases m; cases m'; auto intro: other_state)

end

lemmas member_agree =
  sweep_iso.member_same [of _ _ _ sweep_step, OF _ sweep_iso.same_answer refl]
  large_iso.member_same [of _ _ _ large_step, OF _ large_iso.same_answer refl]
  ofi_iso.member_same [of _ _ _ ofi_step, OF _ ofi_iso.same_answer refl]

lemmas member_agree_other =
  sweep_iso.member_other [of _ _ _ _ sweep_step, OF _ _ refl]
  large_iso.member_other [of _ _ _ _ large_step, OF _ _ refl]
  ofi_iso.member_other [of _ _ _ _ ofi_step, OF _ _ refl]

interpretation bank_iso: isolated bank_step "\<lambda>ev. tk_symbol (fst ev)" bank_agree
proof unfold_locales
  show "bank_agree k s s" for k s
    by (simp add: bank_agree_def option.rel_refl sweep_agree_def large_agree_def ofi_agree_def)
  fix ev :: "tick \<times> flt" and s s' :: detector_bank and k :: symbol
  show "snd (bank_step s ev) = snd (bank_step s' ev)" if "bank_agree (tk_symbol (fst ev)) s s'"
    using that member_agree(1,5) member_agree(3) [of ev]
    by (auto simp: bank_step_def bank_agree_def case_prod_unfold Let_def)
  show "bank_agree (tk_symbol (fst ev)) (fst (bank_step s ev)) (fst (bank_step s' ev))"
    if "bank_agree (tk_symbol (fst ev)) s s'"
    using that member_agree(2,6) member_agree(4) [of ev]
    by (auto simp: bank_step_def bank_agree_def case_prod_unfold Let_def)
  show "bank_agree k (fst (bank_step s ev)) s'" if "tk_symbol (fst ev) \<noteq> k" "bank_agree k s s'"
    using that member_agree_other
    by (auto simp: bank_step_def bank_agree_def case_prod_unfold Let_def)
qed

text \<open>The bank's answers to the ticks of one symbol, in any interleaving with other
  symbols' ticks, are its answers to that symbol's ticks alone (L1).\<close>

theorem bank_isolated:
  "filter (\<lambda>(ev, as). tk_symbol (fst ev) = sy) (run_log bank_step bk evs)
   = run_log bank_step bk (filter (\<lambda>ev. tk_symbol (fst ev) = sy) evs)"
  by (rule bank_iso.answers_isolated)

section \<open>What stands behind a sweep\<close>

abbreviation tape_of :: "symbol \<Rightarrow> tick list \<Rightarrow> tick list" where
  "tape_of sy ts \<equiv> filter (\<lambda>t. tk_symbol t = sy) ts"

text \<open>An accumulator is backed by the last ticks \<open>us\<close> of its symbol's tape.\<close>

definition sweep_backed :: "flt \<Rightarrow> tick list \<Rightarrow> sweep_state \<Rightarrow> tick list \<Rightarrow> bool" where
  "sweep_backed window tape s us \<longleftrightarrow>
     us \<noteq> [] \<and> (\<exists>pre. tape = pre @ us) \<and>
     (\<forall>u \<in> set us. taker_side u = sw_direction s \<and> tk_ts u - tk_ts (hd us) \<le> window) \<and>
     sw_notional s = sum_list (map tick_usd us) \<and> sw_count s = int (length us) \<and>
     sw_first_ts s = tk_ts (hd us)"

definition sweeps_backed :: "sweep_detector \<Rightarrow> tick list \<Rightarrow> bool" where
  "sweeps_backed d ts \<longleftrightarrow> 0 < sw_window_sec d \<and>
     (\<forall>sy s. sw_state d sy = Some s \<longrightarrow> (\<exists>us. sweep_backed (sw_window_sec d) (tape_of sy ts) s us))"

lemma sweep_fresh_backed:
  "0 < window \<Longrightarrow> sweep_backed window (tape @ [t]) (sweep_fresh t) [t]"
  by (auto simp: sweep_backed_def sweep_fresh_def)

lemma sweep_absorb_backed:
  assumes "sweep_backed window tape s us" and "\<not> sweep_stale window t (Some s)"
  shows "sweep_backed window (tape @ [t]) (sweep_absorb t s) (us @ [t])"
  using assms by (auto simp: sweep_backed_def sweep_absorb_def sweep_stale_def hd_append)

lemma sweep_step_params [frame_simps]:
  "sw_window_sec (fst (sweep_step d t)) = sw_window_sec d"
  "sw_min_trades (fst (sweep_step d t)) = sw_min_trades d"
  "sw_min_notional (fst (sweep_step d t)) = sw_min_notional d"
  by (auto simp: sweep_step_def sweep_reset_def Let_def)

lemma sweep_step_states:
  "sw_state (fst (sweep_step d t)) \<in>
     {(sw_state d)(tk_symbol t := None), (sw_state d)(tk_symbol t \<mapsto> sweep_fresh t)}
   \<or> \<not> sweep_stale (sw_window_sec d) t (sw_state d (tk_symbol t))
     \<and> sw_state (fst (sweep_step d t)) = (sw_state d)(tk_symbol t \<mapsto> sweep_absorb t (the (sw_state d (tk_symbol t))))"
  by (auto simp: sweep_step_def sweep_reset_def Let_def)

lemma sweep_step_backed:
  assumes "sweeps_backed d ts"
  shows "sweeps_backed (fst (sweep_step d t)) (ts @ [t])"
proof -
  let ?w = "sw_window_sec d" and ?d = "fst (sweep_step d t)"
  have w: "0 < ?w" using assms by (simp add: sweeps_backed_def)
  have "\<exists>us. sweep_backed ?w (tape_of sy (ts @ [t])) s us" if s: "sw_state ?d sy = Some s" for sy s
  proof (cases "sy = tk_symbol t")
    case False
    then have "sw_state d sy = Some s" using s sweep_step_states [of d t] by auto
    with assms False show ?thesis by (auto simp: sweeps_backed_def)
  next
    case True
    then consider "s = sweep_fresh t" | s0 where "sw_state d (tk_symbol t) = Some s0"
      "\<not> sweep_stale ?w t (Some s0)" "s = sweep_absorb t s0"
      using s sweep_step_states [of d t] by (cases "sw_state d (tk_symbol t)") (auto simp: sweep_stale_def)
    then show ?thesis
    proof cases
      case 1
      then show ?thesis using True sweep_fresh_backed [OF w] by auto
    next
      case 2
      then obtain us where "sweep_backed ?w (tape_of sy ts) s0 us"
        using assms True by (auto simp: sweeps_backed_def)
      from sweep_absorb_backed [OF this 2(2)] show ?thesis using True 2(3) by auto
    qed
  qed
  with w show ?thesis by (simp add: sweeps_backed_def frame_simps)
qed

lemma sweep_run_backed:
  "sweeps_backed d hist \<Longrightarrow> sweeps_backed (run_final sweep_step d ts) (hist @ ts)"
  using sweep_step_backed by (induction ts arbitrary: d hist) fastforce+

lemma sweep_run_params [frame_simps]:
  "sw_window_sec (run_final sweep_step d ts) = sw_window_sec d"
  "sw_min_trades (run_final sweep_step d ts) = sw_min_trades d"
  "sw_min_notional (run_final sweep_step d ts) = sw_min_notional d"
  by (induction ts arbitrary: d) (auto simp: frame_simps)

lemma sweep_fires:
  assumes "sweep_step d t = (d', Some a)"
  obtains s where "sw_state d (tk_symbol t) = Some s" "\<not> sweep_stale (sw_window_sec d) t (Some s)"
    "a = sweep_alert d t (sweep_absorb t s)" "sw_min_trades d \<le> sw_count (sweep_absorb t s)"
    "sw_min_notional d \<le> sw_notional (sweep_absorb t s)"
  using assms by (auto simp: sweep_step_def sweep_stale_def Let_def split: if_splits option.splits)

text \<open>A sweep alert is evidence of a sweep: the last ticks of its symbol's tape, at
  least \<open>min_trades\<close> of them, are all on the alert's side and within the window of the
  first of them, and their notional is the alert's and reaches the minimum (L2).\<close>

theorem sweep_evidence:
  assumes "sweep_init mt w mn cd = Inr d0"
    and "sweep_step (run_final sweep_step d0 ts) t = (d', Some a)"
  shows "\<exists>pre us. tape_of (tk_symbol t) (ts @ [t]) = pre @ us \<and> mt \<le> int (length us)
    \<and> (\<forall>u \<in> set us. taker_side u = la_direction a \<and> tk_ts u - tk_ts (hd us) \<le> w)
    \<and> la_notional a = sum_list (map tick_usd us) \<and> mn \<le> la_notional a"
proof -
  let ?d = "run_final sweep_step d0 ts"
  have d0: "sweeps_backed d0 []" "sw_window_sec d0 = w" "sw_min_trades d0 = mt" "sw_min_notional d0 = mn"
    using assms(1) by (auto simp: sweep_init_def sweeps_backed_def split: if_splits)
  from assms(2) obtain s where s: "sw_state ?d (tk_symbol t) = Some s"
    "\<not> sweep_stale (sw_window_sec ?d) t (Some s)" "a = sweep_alert ?d t (sweep_absorb t s)"
    "sw_min_trades ?d \<le> sw_count (sweep_absorb t s)" "sw_min_notional ?d \<le> sw_notional (sweep_absorb t s)"
    by (rule sweep_fires)
  obtain us where "sweep_backed w (tape_of (tk_symbol t) ts) s us"
    using sweep_run_backed [OF d0(1), of ts] s(1) d0(2) by (fastforce simp: sweeps_backed_def frame_simps)
  from sweep_absorb_backed [OF this] s d0
  have b: "sweep_backed w (tape_of (tk_symbol t) (ts @ [t])) (sweep_absorb t s) (us @ [t])"
    by (simp add: frame_simps)
  have a: "la_direction a = taker_side t" "la_notional a = sw_notional (sweep_absorb t s)"
    "sw_direction (sweep_absorb t s) = sw_direction s" "sw_direction s = taker_side t"
    using s(2,3) by (simp_all add: sweep_alert_def sweep_absorb_def sweep_stale_def)
  obtain pre where "tape_of (tk_symbol t) (ts @ [t]) = pre @ (us @ [t])"
    using b by (auto simp: sweep_backed_def)
  with a b s(4,5) d0 show ?thesis
    by (intro exI [of _ pre] exI [of _ "us @ [t]"]) (simp add: sweep_backed_def frame_simps)
qed

definition demo_sweep :: sweep_detector where
  "demo_sweep = \<lparr>sw_min_trades = 2, sw_window_sec = 30, sw_min_notional = 100, sw_cooldown = 60,
                 sw_state = Map.empty, sw_last_alert = Map.empty\<rparr>"

definition timed_tick :: "symbol \<Rightarrow> bool \<Rightarrow> flt \<Rightarrow> time \<Rightarrow> tick" where
  "timed_tick sy maker usd ts = \<lparr>tk_symbol = sy, tk_price = 1, tk_size = usd, tk_buyer_maker = maker, tk_ts = ts\<rparr>"

lemma demo_sweep_init: "sweep_init 2 30 100 60 = Inr demo_sweep"
  by (simp add: sweep_init_def demo_sweep_def)

theorem sweep_evidence_witness:
  "\<exists>d' a. sweep_step (run_final sweep_step demo_sweep [timed_tick ''B'' False 70 0, timed_tick ''E'' True 9 1])
            (timed_tick ''B'' False 60 2) = (d', Some a)
     \<and> (\<exists>us. tape_of ''B'' [timed_tick ''B'' False 70 0, timed_tick ''E'' True 9 1, timed_tick ''B'' False 60 2] = us
           \<and> la_notional a = sum_list (map tick_usd us))"
proof -
  let ?ts = "[timed_tick ''B'' False 70 0, timed_tick ''E'' True 9 1]" and ?t = "timed_tick ''B'' False 60 2"
  obtain d' a where r: "sweep_step (run_final sweep_step demo_sweep ?ts) ?t = (d', Some a)"
    by (simp add: sweep_step_def cooling_def sweep_stale_def demo_sweep_def timed_tick_def taker_side_def
        sweep_fresh_def sweep_absorb_def tick_usd_def Let_def)
  obtain pre us where p: "tape_of ''B'' (?ts @ [?t]) = pre @ us" "2 \<le> int (length us)"
    "la_notional a = sum_list (map tick_usd us)"
    using sweep_evidence [OF demo_sweep_init r] by (auto simp: timed_tick_def)
  have "length pre + length us = 2" using arg_cong [OF p(1), of length] by (simp add: timed_tick_def)
  with p(2) have "length pre = 0" by linarith
  with p r show ?thesis by auto
qed

section \<open>Large prints\<close>

text \<open>A print alerts exactly when it reaches the floor, its symbol is not cooling down and
  it reaches the share of the 24h turnover, or ten times the floor when the turnover is
  unknown; a silent print leaves the detector as it was, an alert carries the print's
  notional and the taker's side and starts the cooldown at the print's time.\<close>

theorem large_print_fires_iff:
  "(snd (large_step d (t, turnover)) \<noteq> None \<longleftrightarrow>
      lp_min_notional d \<le> tick_usd t
      \<and> \<not> cooling (lp_last_alert d) (lp_cooldown d) (tk_symbol t) (tk_ts t)
      \<and> (if 0 < turnover then lp_pct_threshold d * turnover \<le> tick_usd t
         else 10 * lp_min_notional d \<le> tick_usd t))
   \<and> (case large_step d (t, turnover) of
        (d', None) \<Rightarrow> d' = d
      | (d', Some a) \<Rightarrow> d' = d\<lparr>lp_last_alert := (lp_last_alert d)(tk_symbol t \<mapsto> tk_ts t)\<rparr>
          \<and> la_notional a = tick_usd t \<and> la_direction a = taker_side t \<and> la_symbol a = tk_symbol t)"
  by (auto simp: large_step_def large_share_def Let_def not_less field_simps split: option.split if_splits)

section \<open>Pulses against the tape\<close>

text \<open>The tape cut into runs of consecutive ticks of one bucket.\<close>

fun adj_groups :: "('a \<Rightarrow> 'b) \<Rightarrow> 'a list \<Rightarrow> 'a list list" where
  "adj_groups f [] = []"
| "adj_groups f (x # xs) =
     (case adj_groups f xs of
        [] \<Rightarrow> [[x]]
      | g # gs \<Rightarrow> if f x = f (hd g) then (x # g) # gs else [x] # g # gs)"

lemma adj_groups_Nil_iff [simp]: "adj_groups f xs = [] \<longleftrightarrow> xs = []"
  by (cases xs) (auto split: list.split)

lemma adj_groups_nonempty: "g \<in> set (adj_groups f xs) \<Longrightarrow> g \<noteq> []"
  by (induction xs arbitrary: g) (auto split: list.splits if_splits)

lemma concat_adj_groups [simp]: "concat (adj_groups f xs) = xs"
  by (induction xs) (auto split: list.split)

lemma adj_groups_same: "g \<in> set (adj_groups f xs) \<Longrightarrow> u \<in> set g \<Longrightarrow> f u = f (hd g)"
  by (induction xs arbitrary: g) (auto split: list.splits if_splits)

lemma adj_groups_snoc:
  "adj_groups f (xs @ [y]) =
     (if xs \<noteq> [] \<and> f (last xs) = f y
      then butlast (adj_groups f xs) @ [last (adj_groups f xs) @ [y]]
      else adj_groups f xs @ [[y]])"
proof (induction xs)
  case Nil
  then show ?case by simp
next
  case (Cons x xs)
  show ?case
  proof (cases "xs = []")
    case True
    then show ?thesis by simp
  next
    case False
    then obtain g gs where g: "adj_groups f xs = g # gs"
      using adj_groups_Nil_iff by (metis list.exhaust)
    have "g \<noteq> []" using adj_groups_nonempty [of g f xs] g by simp
    with Cons False g show ?thesis by (cases gs) auto
  qed
qed

definition usd_of :: "bool \<Rightarrow> tick list \<Rightarrow> flt" where
  "usd_of maker ts = sum_list (map tick_usd (filter (\<lambda>t. tk_buyer_maker t = maker) ts))"

definition group_bucket :: "flt \<Rightarrow> tick list \<Rightarrow> ofi_bucket" where
  "group_bucket b g = \<lparr>ob_start = bucket_of b (tk_ts (hd g)), ob_buy = usd_of False g, ob_sell = usd_of True g\<rparr>"

definition spec_buckets :: "flt \<Rightarrow> nat \<Rightarrow> tick list \<Rightarrow> ofi_bucket list" where
  "spec_buckets b n ts = lastn n (map (group_bucket b) (adj_groups (\<lambda>t. bucket_of b (tk_ts t)) ts))"

lemma fill_bucket_snoc:
  "g \<noteq> [] \<Longrightarrow> fill_bucket t (group_bucket b g) = group_bucket b (g @ [t])"
  by (auto simp: fill_bucket_def group_bucket_def usd_of_def hd_append)

lemma fill_bucket_open:
  "fill_bucket t \<lparr>ob_start = bucket_of b (tk_ts t), ob_buy = 0, ob_sell = 0\<rparr> = group_bucket b [t]"
  by (auto simp: fill_bucket_def group_bucket_def usd_of_def)

lemma butlast_lastn_snoc: "0 < n \<Longrightarrow> butlast (lastn n (xs @ [x])) = lastn (n - 1) xs"
  by (simp add: lastn_append)

lemma last_lastn_snoc: "0 < n \<Longrightarrow> last (lastn n (xs @ [x])) = x"
  by (simp add: lastn_append)

lemma last_group:
  assumes "ts \<noteq> []"
  shows "last (adj_groups f ts) \<noteq> [] \<and> f (hd (last (adj_groups f ts))) = f (last ts)"
proof -
  let ?g = "last (adj_groups f ts)"
  have g: "?g \<in> set (adj_groups f ts)" using assms by (metis adj_groups_Nil_iff last_in_set)
  then have ne: "?g \<noteq> []" by (rule adj_groups_nonempty)
  have "ts = concat (butlast (adj_groups f ts)) @ ?g"
    using assms by (metis adj_groups_Nil_iff append_butlast_last_id concat.simps concat_adj_groups
        concat_append append_Nil2)
  then have "last ts = last ?g" using ne by (metis last_appendR)
  then have "last ts \<in> set ?g" using ne by simp
  with adj_groups_same [OF g, of "last ts"] ne show ?thesis by simp
qed

text \<open>One tick on the buckets of a tape gives the buckets of the longer tape.\<close>

lemma bucket_tick_spec:
  assumes "0 < n"
  shows "bucket_tick b n (spec_buckets b n ts) t = spec_buckets b n (ts @ [t])"
proof (cases "ts = []")
  case True
  then show ?thesis
    using assms by (simp add: spec_buckets_def bucket_tick_def open_bucket_def Let_def fill_bucket_open lastn_snoc
        last_lastn_snoc)
next
  case False
  let ?f = "\<lambda>t. bucket_of b (tk_ts t)"
  let ?G = "adj_groups ?f ts"
  let ?M = "map (group_bucket b)"
  have G: "?G = butlast ?G @ [last ?G]" using False by simp
  note lg = last_group [OF False, of ?f]
  have sp: "spec_buckets b n ts = lastn (n - 1) (?M (butlast ?G)) @ [group_bucket b (last ?G)]"
    unfolding spec_buckets_def by (subst G) (simp add: lastn_snoc assms)
  have start: "ob_start (group_bucket b (last ?G)) = ?f (last ts)"
    using lg by (simp add: group_bucket_def)
  show ?thesis
  proof (cases "?f (last ts) = ?f t")
    case True
    then have "bucket_tick b n (spec_buckets b n ts) t
      = lastn (n - 1) (?M (butlast ?G)) @ [group_bucket b (last ?G @ [t])]"
      using start lg by (simp add: sp bucket_tick_def open_bucket_def Let_def fill_bucket_snoc)
    also have "\<dots> = spec_buckets b n (ts @ [t])"
      using True False assms by (simp add: spec_buckets_def adj_groups_snoc lastn_snoc)
    finally show ?thesis .
  next
    case False
    let ?new = "\<lparr>ob_start = ?f t, ob_buy = 0, ob_sell = 0\<rparr>"
    have "spec_buckets b n ts \<noteq> [] \<and> ob_start (last (spec_buckets b n ts)) \<noteq> ?f t"
      using False start sp by simp
    then have "open_bucket n (?f t) (spec_buckets b n ts) = lastn n (spec_buckets b n ts @ [?new])"
      by (simp add: open_bucket_def)
    also have "\<dots> = lastn n (?M ?G @ [?new])"
      by (simp only: spec_buckets_def lastn_lastn_append)
    finally have "open_bucket n (?f t) (spec_buckets b n ts) = lastn n (?M ?G @ [?new])" .
    then have "bucket_tick b n (spec_buckets b n ts) t = lastn (n - 1) (?M ?G) @ [group_bucket b [t]]"
      using assms by (simp add: bucket_tick_def Let_def butlast_lastn_snoc last_lastn_snoc fill_bucket_open)
    also have "\<dots> = spec_buckets b n (ts @ [t])"
      using False assms by (auto simp: spec_buckets_def adj_groups_snoc lastn_snoc)
    finally show ?thesis .
  qed
qed

lemma spec_buckets_Nil [simp]: "spec_buckets b n [] = []"
  by (simp add: spec_buckets_def)

lemma spec_buckets_eq_Nil [simp]: "0 < n \<Longrightarrow> spec_buckets b n ts = [] \<longleftrightarrow> ts = []"
  by (cases ts rule: rev_cases) (auto simp: spec_buckets_def adj_groups_snoc lastn_snoc)

definition held_buckets :: "ofi_detector \<Rightarrow> symbol \<Rightarrow> ofi_bucket list" where
  "held_buckets d sy = (case of_buckets d sy of None \<Rightarrow> [] | Some bq \<Rightarrow> bq)"

lemma ofi_step_frame [frame_simps]:
  "of_bucket_sec (fst (ofi_step d t)) = of_bucket_sec d"
  "of_history (fst (ofi_step d t)) = of_history d"
  "of_k (fst (ofi_step d t)) = of_k d"
  "of_min_notional (fst (ofi_step d t)) = of_min_notional d"
  "of_min_history (fst (ofi_step d t)) = of_min_history d"
  by (auto simp: ofi_step_def Let_def split: option.split)

lemma ofi_step_buckets:
  "held_buckets (fst (ofi_step d t)) sy =
     (if sy = tk_symbol t then bucket_tick (of_bucket_sec d) (of_history d) (held_buckets d sy) t
      else held_buckets d sy)"
  by (auto simp: ofi_step_def held_buckets_def Let_def split: option.split)

lemma ofi_run_buckets:
  assumes "0 < of_history d" and "\<And>sy. held_buckets d sy = spec_buckets (of_bucket_sec d) (of_history d) (tape_of sy hist)"
  shows "held_buckets (run_final ofi_step d ts) sy
       = spec_buckets (of_bucket_sec d) (of_history d) (tape_of sy (hist @ ts))"
  using assms
proof (induction ts arbitrary: d hist)
  case Nil
  then show ?case by simp
next
  case (Cons t ts)
  let ?d = "fst (ofi_step d t)"
  have "held_buckets (run_final ofi_step ?d ts) sy
     = spec_buckets (of_bucket_sec ?d) (of_history ?d) (tape_of sy ((hist @ [t]) @ ts))"
    using Cons.prems
    by (intro Cons.IH) (auto simp: frame_simps ofi_step_buckets bucket_tick_spec)
  then show ?case by (simp add: frame_simps)
qed

lemma ofi_run_frame [frame_simps]:
  "of_bucket_sec (run_final ofi_step d ts) = of_bucket_sec d"
  "of_history (run_final ofi_step d ts) = of_history d"
  "of_k (run_final ofi_step d ts) = of_k d"
  "of_min_notional (run_final ofi_step d ts) = of_min_notional d"
  "of_min_history (run_final ofi_step d ts) = of_min_history d"
  by (induction ts arbitrary: d) (auto simp: frame_simps)

text \<open>The firing condition on a list of buckets, the current one last.\<close>

definition is_pulse :: "flt \<Rightarrow> flt \<Rightarrow> nat \<Rightarrow> ofi_bucket list \<Rightarrow> bool" where
  "is_pulse k mn mh bq \<longleftrightarrow>
     (let cur = \<bar>bucket_ofi (last bq)\<bar>; med = py_median (map (\<lambda>b. \<bar>bucket_ofi b\<bar>) (butlast bq))
      in mh < length bq \<and> mn \<le> cur \<and> (if 0 < med then k * med \<le> cur else 5 * mn \<le> cur))"

lemma pulse_ratio_iff:
  "0 < of_min_history d \<Longrightarrow>
     pulse_ratio d bq \<noteq> None \<longleftrightarrow> is_pulse (of_k d) (of_min_notional d) (of_min_history d) bq"
  by (cases bq rule: rev_cases)
    (auto simp: pulse_ratio_def is_pulse_def Let_def not_less field_simps)

lemma ofi_step_fires:
  "snd (ofi_step d t) \<noteq> None \<longleftrightarrow>
     pulse_ratio d (bucket_tick (of_bucket_sec d) (of_history d) (held_buckets d (tk_symbol t)) t) \<noteq> None
     \<and> \<not> cooling (of_last_alert d) (of_cooldown d) (tk_symbol t) (tk_ts t)"
  by (auto simp: ofi_step_def held_buckets_def Let_def split: option.split)

text \<open>A pulse fires on a tick exactly when the symbol is not cooling down and, on the last
  \<open>history_buckets\<close> buckets of its tape cut by time, the current bucket's imbalance
  reaches the floor, at least \<open>min_history\<close> earlier buckets are there, and it is \<open>k\<close> times
  their median, or five times the floor when the median is zero.\<close>

theorem pulse_fires_iff:
  fixes ts :: "tick list"
  assumes "ofi_init bsec hb k mn mh cd = Inr d0"
  defines "d \<equiv> run_final ofi_step d0 ts"
  shows "snd (ofi_step d t) \<noteq> None \<longleftrightarrow>
     is_pulse k mn mh (spec_buckets bsec hb (tape_of (tk_symbol t) (ts @ [t])))
     \<and> \<not> cooling (of_last_alert d) (of_cooldown d) (tk_symbol t) (tk_ts t)"
proof -
  have d0: "of_bucket_sec d0 = bsec" "of_history d0 = hb" "of_k d0 = k" "of_min_notional d0 = mn"
    "of_min_history d0 = mh" "2 \<le> hb" "2 \<le> mh" "\<And>sy. held_buckets d0 sy = []"
    using assms(1) by (auto simp: ofi_init_def held_buckets_def split: if_splits)
  have "held_buckets d (tk_symbol t) = spec_buckets bsec hb (tape_of (tk_symbol t) ts)"
    using ofi_run_buckets [of d0 "[]" ts] d0 by (simp add: d_def)
  then have "bucket_tick bsec hb (held_buckets d (tk_symbol t)) t
     = spec_buckets bsec hb (tape_of (tk_symbol t) (ts @ [t]))"
    using d0(6) by (simp add: bucket_tick_spec)
  moreover have "0 < of_min_history d" using d0 by (simp add: d_def frame_simps)
  ultimately show ?thesis
    unfolding ofi_step_fires using pulse_ratio_iff [of d] d0 by (simp add: d_def frame_simps)
qed

definition demo_ofi :: ofi_detector where
  "demo_ofi = \<lparr>of_bucket_sec = 60, of_history = 10, of_k = 3, of_min_notional = 50, of_min_history = 2,
               of_cooldown = 120, of_buckets = Map.empty, of_last_alert = Map.empty\<rparr>"

lemma demo_ofi_init: "ofi_init 60 10 3 50 2 120 = Inr demo_ofi"
  by (simp add: ofi_init_def demo_ofi_def)

definition demo_ofi_tape :: "tick list" where
  "demo_ofi_tape = [timed_tick ''B'' False 10 0, timed_tick ''B'' True 20 60]"

lemma demo_pulse:
  "is_pulse 3 50 2 (spec_buckets 60 10 (demo_ofi_tape @ [timed_tick ''B'' False 90 120]))"
  by (simp add: is_pulse_def spec_buckets_def demo_ofi_tape_def timed_tick_def bucket_of_def py_fmod_def
      group_bucket_def usd_of_def tick_usd_def bucket_ofi_def py_median_def lastn_def Let_def)

theorem pulse_fires_iff_witness:
  "snd (ofi_step (run_final ofi_step demo_ofi demo_ofi_tape) (timed_tick ''B'' False 90 120)) \<noteq> None"
proof -
  let ?d = "run_final ofi_step demo_ofi demo_ofi_tape"
  have "tape_of ''B'' (demo_ofi_tape @ [timed_tick ''B'' False 90 120]) = demo_ofi_tape @ [timed_tick ''B'' False 90 120]"
    by (simp add: demo_ofi_tape_def timed_tick_def)
  moreover have "of_last_alert ?d = Map.empty"
    by (simp add: demo_ofi_tape_def demo_ofi_def ofi_step_def pulse_ratio_def bucket_tick_def open_bucket_def
        timed_tick_def bucket_of_def py_fmod_def fill_bucket_def lastn_def Let_def)
  ultimately show ?thesis
    using pulse_fires_iff [OF demo_ofi_init, of demo_ofi_tape "timed_tick ''B'' False 90 120"] demo_pulse
    by (simp add: timed_tick_def cooling_def)
qed

lemma pulse_ratio_short: "length bq \<le> of_min_history d \<Longrightarrow> pulse_ratio d bq = None"
  by (simp add: pulse_ratio_def Let_def)

lemma length_spec_buckets: "length (spec_buckets b n ts) \<le> n"
  by (simp add: spec_buckets_def)

text \<open>A history shorter than \<open>min_history\<close> passes the constructor and silences the detector.\<close>

lemma pulse_never:
  assumes "ofi_init bsec hb k mn mh cd = Inr d0" and "hb \<le> mh"
  shows "snd (ofi_step (run_final ofi_step d0 ts) t) = None"
proof -
  have d0: "of_bucket_sec d0 = bsec" "of_history d0 = hb" "of_min_history d0 = mh" "2 \<le> hb"
    "\<And>sy. held_buckets d0 sy = []"
    using assms(1) by (auto simp: ofi_init_def held_buckets_def split: if_splits)
  have "held_buckets (run_final ofi_step d0 ts) (tk_symbol t) = spec_buckets bsec hb (tape_of (tk_symbol t) ts)"
    using ofi_run_buckets [of d0 "[]" ts] d0 by simp
  then have "bucket_tick bsec hb (held_buckets (run_final ofi_step d0 ts) (tk_symbol t)) t
     = spec_buckets bsec hb (tape_of (tk_symbol t) ts @ [t])"
    using d0(4) by (simp add: bucket_tick_spec)
  then have "pulse_ratio (run_final ofi_step d0 ts)
     (bucket_tick bsec hb (held_buckets (run_final ofi_step d0 ts) (tk_symbol t)) t) = None"
    using d0 assms(2) length_spec_buckets [of bsec hb "tape_of (tk_symbol t) ts @ [t]"]
    by (intro pulse_ratio_short) (simp add: frame_simps)
  then show ?thesis
    using ofi_step_fires [of "run_final ofi_step d0 ts" t] d0 by (simp add: frame_simps)
qed

end
