(* ===== verification/Feed.thy ===== *)
theory Feed
  imports Conflation
begin

text \<open>
  What feeds the live radar: the trade parser and the reconnect schedule of
  \<open>src/src/infrastructure/bybit_ws_ingestion.py\<close> and the per-symbol threshold provider of
  \<open>src/src/infrastructure/adaptive_threshold.py\<close>.  The JSON library and the socket are the
  environment: a message is what the parser found in it, a session the outcomes of its
  messages.  The lemmas show the reconnect schedule in closed form, what a message turns
  into on every branch, and that adaptive thresholds stay within their bounds.
\<close>

section \<open>Trade messages\<close>

text \<open>
  A field of a trade is missing (\<open>KeyError\<close>, logged and swallowed), unparsable
  (\<open>Decimal\<close> or \<open>float\<close> raise, and the exception leaves the handler) or a number.
\<close>

datatype field_val = Missing | Unparsable | Parsed flt

record raw_trade =
  rt_p :: field_val
  rt_v :: field_val
  rt_S :: "string option"
  rt_T :: field_val

datatype ws_message =
    Corrupt
  | Message (msg_topic: "string option") (msg_data: "raw_trade list option")

datatype msg_outcome = MsgDone | MsgKeyError | MsgRaised

text \<open>\<open>topic.split(".")[-1]\<close>\<close>

definition last_segment :: "string \<Rightarrow> string" where
  "last_segment s = rev (takeWhile (\<lambda>c. c \<noteq> CHR ''.'') (rev s))"

definition starts_with :: "string \<Rightarrow> string \<Rightarrow> bool" where
  "starts_with s p \<longleftrightarrow> take (length p) s = p"

definition trade_tick :: "symbol \<Rightarrow> flt \<Rightarrow> flt \<Rightarrow> string \<Rightarrow> flt \<Rightarrow> tick" where
  "trade_tick sy p v S T =
     \<lparr>tk_symbol = sy, tk_price = p, tk_size = v, tk_buyer_maker = (S = ''Sell''), tk_ts = T / 1000\<rparr>"

text \<open>The fields are read in the order p, v, S, T; the first bad one decides the outcome.\<close>

definition read_trade :: "symbol \<Rightarrow> raw_trade \<Rightarrow> msg_outcome + tick" where
  "read_trade sy r =
     (case rt_p r of
        Missing \<Rightarrow> Inl MsgKeyError | Unparsable \<Rightarrow> Inl MsgRaised
      | Parsed p \<Rightarrow>
          (case rt_v r of
             Missing \<Rightarrow> Inl MsgKeyError | Unparsable \<Rightarrow> Inl MsgRaised
           | Parsed v \<Rightarrow>
               (case rt_S r of
                  None \<Rightarrow> Inl MsgKeyError
                | Some S \<Rightarrow>
                    (case rt_T r of
                       Missing \<Rightarrow> Inl MsgKeyError | Unparsable \<Rightarrow> Inl MsgRaised
                     | Parsed T \<Rightarrow> Inr (trade_tick sy p v S T)))))"

fun read_trades :: "symbol \<Rightarrow> raw_trade list \<Rightarrow> tick list \<times> msg_outcome" where
  "read_trades sy [] = ([], MsgDone)"
| "read_trades sy (r # rs) =
     (case read_trade sy r of
        Inl out \<Rightarrow> ([], out)
      | Inr t \<Rightarrow> (let (ts, out) = read_trades sy rs in (t # ts, out)))"

definition process_message :: "ws_message \<Rightarrow> tick list \<times> msg_outcome" where
  "process_message m =
     (case m of
        Corrupt \<Rightarrow> ([], MsgDone)
      | Message None _ \<Rightarrow> ([], MsgDone)
      | Message _ None \<Rightarrow> ([], MsgDone)
      | Message (Some topic) (Some data) \<Rightarrow>
          if \<not> starts_with topic ''publicTrade'' then ([], MsgDone)
          else read_trades (last_segment topic) data)"

lemma last_segment_dot:
  "CHR ''.'' \<notin> set sy \<Longrightarrow> last_segment (p @ CHR ''.'' # sy) = sy"
  by (simp add: last_segment_def takeWhile_append)

lemma read_trades_good:
  "list_all (\<lambda>r. \<exists>t. read_trade sy r = Inr t) rs \<Longrightarrow>
     read_trades sy rs = (map (\<lambda>r. projr (read_trade sy r)) rs, MsgDone)"
  by (induction rs) auto

lemma read_trades_bad:
  "list_all (\<lambda>r. \<exists>t. read_trade sy r = Inr t) rs \<Longrightarrow> read_trade sy r = Inl out \<Longrightarrow>
     read_trades sy (rs @ r # rest) = (map (\<lambda>r. projr (read_trade sy r)) rs, out)"
  by (induction rs) auto

text \<open>A message of topic \<open>publicTrade.<symbol>\<close> gives one tick per trade up to the first bad
  one, in order, under that symbol, a seller aggressor being a buyer maker (I5); the trades
  after a bad one are dropped, and a missing field is swallowed while an unparsable number
  leaves the handler.\<close>

theorem message_ticks:
  assumes "CHR ''.'' \<notin> set sy" and "list_all (\<lambda>r. \<exists>t. read_trade sy r = Inr t) rs"
    and "read_trade sy r = Inl out"
  shows "process_message (Message (Some (''publicTrade.'' @ sy)) (Some rs))
       = (map (\<lambda>r. projr (read_trade sy r)) rs, MsgDone)
    \<and> process_message (Message (Some (''publicTrade.'' @ sy)) (Some (rs @ r # rest)))
       = (map (\<lambda>r. projr (read_trade sy r)) rs, out)"
proof -
  have "last_segment (''publicTrade.'' @ sy) = sy"
    using last_segment_dot [OF assms(1), of "''publicTrade''"] by simp
  then show ?thesis
    using read_trades_good [OF assms(2)] read_trades_bad [OF assms(2,3)]
    by (simp add: process_message_def starts_with_def)
qed

definition good_trade :: raw_trade where
  "good_trade = \<lparr>rt_p = Parsed 10, rt_v = Parsed 2, rt_S = Some ''Sell'', rt_T = Parsed 5000\<rparr>"

theorem message_ticks_witness:
  "process_message (Message (Some ''publicTrade.BTCUSDT'') (Some [good_trade, good_trade\<lparr>rt_v := Unparsable\<rparr>, good_trade]))
   = ([\<lparr>tk_symbol = ''BTCUSDT'', tk_price = 10, tk_size = 2, tk_buyer_maker = True, tk_ts = 5\<rparr>], MsgRaised)"
  using message_ticks [of "''BTCUSDT''" "[good_trade]" "good_trade\<lparr>rt_v := Unparsable\<rparr>" MsgRaised "[good_trade]"]
  by (simp add: read_trade_def good_trade_def trade_tick_def)

section \<open>The reconnect schedule\<close>

text \<open>
  One session is the list of the outcomes of its text and binary messages; the exception
  of an unparsable number ends it.  The backoff falls back to one second after the first
  message that was handled without an exception, whatever that message was.
\<close>

definition session_backoff :: "real \<Rightarrow> msg_outcome list \<Rightarrow> real" where
  "session_backoff backoff outs =
     (case outs of [] \<Rightarrow> backoff | out # _ \<Rightarrow> if out = MsgRaised then backoff else 1)"

definition next_backoff :: "real \<Rightarrow> real" where
  "next_backoff b = min (b * 17 / 10) 60"

text \<open>The sleeps between the sessions of a run.\<close>

fun ws_sleeps :: "real \<Rightarrow> msg_outcome list list \<Rightarrow> real list" where
  "ws_sleeps backoff [] = []"
| "ws_sleeps backoff (s # ss) =
     (let b = session_backoff backoff s in b # ws_sleeps (next_backoff b) ss)"

definition silent_session :: "msg_outcome list \<Rightarrow> bool" where
  "silent_session outs \<longleftrightarrow> session_backoff 0 outs = 0"

lemma session_backoff_eq: "session_backoff b outs = (if silent_session outs then b else 1)"
  by (auto simp: silent_session_def session_backoff_def split: list.split)

lemma next_backoff_power: "next_backoff (min ((17/10) ^ n) 60) = min ((17/10) ^ Suc n) 60"
  by (auto simp: next_backoff_def min_def)

lemma backoff_power_ge_1: "1 \<le> min ((17/10::real) ^ n) 60"
  by (simp add: one_le_power)

lemma ws_sleeps_bounds:
  "1 \<le> b \<Longrightarrow> b \<le> 60 \<Longrightarrow> list_all (\<lambda>s. 1 \<le> s \<and> s \<le> 60) (ws_sleeps b ss)"
  by (induction b ss rule: ws_sleeps.induct)
    (auto simp: Let_def session_backoff_eq next_backoff_def)

lemma ws_sleeps_silent:
  "list_all silent_session ss \<Longrightarrow>
     ws_sleeps (min ((17/10) ^ n) 60) ss = map (\<lambda>k. min ((17/10) ^ (n + k)) 60) [0 ..< length ss]"
proof (induction ss arbitrary: n)
  case Nil
  then show ?case by simp
next
  case (Cons s ss)
  have "[0 ..< length (s # ss)] = 0 # map Suc [0 ..< length ss]"
    by (simp add: map_Suc_upt upt_conv_Cons del: upt_Suc)
  with Cons.prems Cons.IH [of "Suc n"] show ?case
    by (simp add: session_backoff_eq next_backoff_power Let_def del: upt_Suc)
qed

lemma ws_sleeps_append_silent:
  assumes "\<not> silent_session s" and "list_all silent_session ss"
  shows "ws_sleeps b (pre @ s # ss) = ws_sleeps b pre @ map (\<lambda>k. min ((17/10) ^ k) 60) [0 ..< Suc (length ss)]"
proof (induction pre arbitrary: b)
  case Nil
  have "[0 ..< Suc (length ss)] = 0 # map Suc [0 ..< length ss]"
    by (simp add: map_Suc_upt upt_conv_Cons del: upt_Suc)
  moreover have "ws_sleeps (next_backoff 1) ss = map (\<lambda>k. min ((17/10) ^ (Suc 0 + k)) 60) [0 ..< length ss]"
    using ws_sleeps_silent [OF assms(2), of "Suc 0"] by (simp add: next_backoff_def)
  ultimately show ?case
    using assms(1) by (simp add: session_backoff_eq Let_def del: upt_Suc)
qed (simp add: Let_def)

text \<open>Every sleep before a reconnect is between one and sixty seconds, and the k-th sleep
  after a session that received a message is \<open>min (1.7^k) 60\<close> seconds, as long as the
  sessions after it receive none.\<close>

theorem backoff_schedule:
  assumes "\<not> silent_session s" and "list_all silent_session ss"
  shows "ws_sleeps 1 (pre @ s # ss)
       = ws_sleeps 1 pre @ map (\<lambda>k. min ((17/10) ^ k) 60) [0 ..< Suc (length ss)]
    \<and> list_all (\<lambda>t. 1 \<le> t \<and> t \<le> 60) (ws_sleeps 1 (pre @ s # ss))"
  using ws_sleeps_append_silent [OF assms] ws_sleeps_bounds [of 1 "pre @ s # ss"] by simp

theorem backoff_schedule_witness:
  "ws_sleeps 1 [[], [MsgDone, MsgRaised], [], [MsgRaised]] = [1, 1, 17/10, 289/100]"
  using backoff_schedule [of "[MsgDone, MsgRaised]" "[[], [MsgRaised]]" "[[]]"]
  by (simp add: silent_session_def session_backoff_def power2_eq_square)

text \<open>The comment asks for a trade tick before the backoff resets; an acknowledgement of the
  subscription, a message without ticks, resets it as well.\<close>

lemma backoff_resets_without_tick:
  "process_message (Message None None) = ([], MsgDone) \<and> session_backoff 42 [MsgDone] = 1"
  by (simp add: process_message_def session_backoff_def)

section \<open>Adaptive thresholds\<close>

text \<open>A turnover field: \<open>None\<close> or empty, not a number, or a number.  A ticker without a
  usable symbol is skipped.\<close>

record ticker =
  tc_symbol :: "string option"
  tc_turnover :: field_val

record adaptive =
  ad_target_bars :: int
  ad_min_usd :: flt
  ad_max_usd :: flt
  ad_default_usd :: flt
  ad_turnover :: "symbol \<rightharpoonup> flt"
  ad_threshold :: "symbol \<rightharpoonup> flt"
  ad_refreshes :: nat

definition adaptive_init :: "int \<Rightarrow> flt \<Rightarrow> flt \<Rightarrow> flt \<Rightarrow> py_error + adaptive" where
  "adaptive_init target mn mx df =
     (if target < 1 then Inl (ValueError ''target_bars_per_day must be >= 1'')
      else if mn \<le> 0 then Inl (ValueError ''min_usd must be > 0'')
      else if mx < mn then Inl (ValueError ''max_usd must be >= min_usd'')
      else if df < mn \<or> mx < df then Inl (ValueError ''default_usd must be within [min_usd, max_usd]'')
      else Inr \<lparr>ad_target_bars = target, ad_min_usd = mn, ad_max_usd = mx, ad_default_usd = df,
                ad_turnover = Map.empty, ad_threshold = Map.empty, ad_refreshes = 0\<rparr>)"

definition safe_turnover :: "field_val \<Rightarrow> flt" where
  "safe_turnover raw =
     (case raw of Missing \<Rightarrow> 0 | Unparsable \<Rightarrow> 0 | Parsed v \<Rightarrow> if 0 < v then v else 0)"

text \<open>Python's \<open>round\<close>: to the nearest, a tie to the even neighbour.\<close>

definition round_cents :: "flt \<Rightarrow> flt" where
  "round_cents x = of_int (round_half_even (x * 100)) / 100"

definition compute_threshold :: "adaptive \<Rightarrow> flt \<Rightarrow> flt" where
  "compute_threshold ad turnover =
     (if turnover \<le> 0 then ad_default_usd ad
      else round_cents (max (ad_min_usd ad) (min (ad_max_usd ad) (turnover / of_int (ad_target_bars ad)))))"

definition ends_with :: "string \<Rightarrow> string \<Rightarrow> bool" where
  "ends_with s p \<longleftrightarrow> starts_with (rev s) (rev p)"

definition usable_ticker :: "ticker \<Rightarrow> bool" where
  "usable_ticker tc =
     (case tc_symbol tc of None \<Rightarrow> False | Some sy \<Rightarrow> sy \<noteq> [] \<and> ends_with sy ''USDT'')"

definition add_ticker :: "adaptive \<Rightarrow> ticker \<Rightarrow> (symbol \<rightharpoonup> flt) \<times> (symbol \<rightharpoonup> flt) \<Rightarrow> (symbol \<rightharpoonup> flt) \<times> (symbol \<rightharpoonup> flt)" where
  "add_ticker ad tc maps =
     (if usable_ticker tc
      then (let sy = the (tc_symbol tc); v = safe_turnover (tc_turnover tc)
            in ((fst maps)(sy \<mapsto> v), (snd maps)(sy \<mapsto> compute_threshold ad v)))
      else maps)"

text \<open>What the REST call gave: an exception, an answer that is no list, or the tickers.\<close>

datatype rest_answer = RestFailed | RestNonList | Tickers "ticker list"

definition adaptive_refresh :: "rest_answer \<Rightarrow> adaptive \<Rightarrow> adaptive \<times> nat" where
  "adaptive_refresh ans ad =
     (case ans of
        RestFailed \<Rightarrow> (ad, 0)
      | RestNonList \<Rightarrow> (ad, 0)
      | Tickers tcs \<Rightarrow>
          (let (tv, th) = fold (add_ticker ad) tcs (Map.empty, Map.empty)
           in (ad\<lparr>ad_turnover := tv, ad_threshold := th, ad_refreshes := Suc (ad_refreshes ad)\<rparr>,
               card (dom th))))"

definition adaptive_threshold_for :: "adaptive \<Rightarrow> symbol \<Rightarrow> flt" where
  "adaptive_threshold_for ad sy =
     (case ad_threshold ad sy of Some v \<Rightarrow> v | None \<Rightarrow> ad_default_usd ad)"

definition adaptive_turnover_for :: "adaptive \<Rightarrow> symbol \<Rightarrow> flt" where
  "adaptive_turnover_for ad sy = (case ad_turnover ad sy of Some v \<Rightarrow> v | None \<Rightarrow> 0)"

lemma round_cents_mono: "x \<le> y \<Longrightarrow> round_cents x \<le> round_cents y"
  by (simp add: round_cents_def divide_right_mono round_half_even_mono)

definition whole_cents :: "flt \<Rightarrow> bool" where
  "whole_cents x \<longleftrightarrow> of_int \<lfloor>x * 100\<rfloor> = x * 100"

lemma round_cents_whole: "whole_cents x \<Longrightarrow> round_cents x = x"
  unfolding whole_cents_def round_cents_def
  by (metis round_half_even_int nonzero_mult_div_cancel_right zero_neq_numeral)

definition within_bounds :: "adaptive \<Rightarrow> flt \<Rightarrow> bool" where
  "within_bounds ad v \<longleftrightarrow> ad_min_usd ad \<le> v \<and> v \<le> ad_max_usd ad"

definition adaptive_ok :: "adaptive \<Rightarrow> bool" where
  "adaptive_ok ad \<longleftrightarrow> 1 \<le> ad_target_bars ad \<and> 0 < ad_min_usd ad \<and> within_bounds ad (ad_default_usd ad)
     \<and> whole_cents (ad_min_usd ad) \<and> whole_cents (ad_max_usd ad)
     \<and> (\<forall>v \<in> ran (ad_threshold ad). within_bounds ad v)"

lemma compute_threshold_within:
  assumes "adaptive_ok ad"
  shows "within_bounds ad (compute_threshold ad turnover)"
proof -
  let ?c = "max (ad_min_usd ad) (min (ad_max_usd ad) (turnover / of_int (ad_target_bars ad)))"
  have "ad_min_usd ad \<le> ?c" "?c \<le> ad_max_usd ad"
    using assms by (auto simp: adaptive_ok_def within_bounds_def)
  from this [THEN round_cents_mono] have "within_bounds ad (round_cents ?c)"
    using assms by (simp add: round_cents_whole adaptive_ok_def within_bounds_def)
  then show ?thesis using assms by (simp add: compute_threshold_def adaptive_ok_def)
qed

lemma add_ticker_within:
  assumes "adaptive_ok ad" and "\<forall>v \<in> ran (snd maps). within_bounds ad v"
  shows "\<forall>v \<in> ran (snd (add_ticker ad tc maps)). within_bounds ad v"
  using assms compute_threshold_within [OF assms(1)]
  by (auto simp: add_ticker_def Let_def ran_def)

lemma adaptive_refresh_ok [inv_intros]:
  assumes "adaptive_ok ad"
  shows "adaptive_ok (fst (adaptive_refresh ans ad))"
proof (cases ans)
  case (Tickers tcs)
  have "\<forall>v \<in> ran (snd (fold (add_ticker ad) tcs (Map.empty, Map.empty))). within_bounds ad v"
    using assms by (intro fold_inv [where P = "\<lambda>m. \<forall>v \<in> ran (snd m). within_bounds ad v"] add_ticker_within) auto
  then show ?thesis
    using assms Tickers
    by (simp add: adaptive_refresh_def adaptive_ok_def within_bounds_def case_prod_unfold Let_def)
qed (use assms in \<open>simp_all add: adaptive_refresh_def\<close>)

lemma adaptive_runs_ok:
  "adaptive_ok ad \<Longrightarrow> adaptive_ok (run_final (\<lambda>s a. adaptive_refresh a s) ad as)"
  by (rule run_final_inv) (auto intro: inv_intros)

lemma adaptive_run_bounds [frame_simps]:
  "ad_min_usd (run_final (\<lambda>s a. adaptive_refresh a s) ad as) = ad_min_usd ad"
  "ad_max_usd (run_final (\<lambda>s a. adaptive_refresh a s) ad as) = ad_max_usd ad"
  by (induction as arbitrary: ad)
    (auto simp: adaptive_refresh_def case_prod_unfold Let_def split: rest_answer.split)

text \<open>For bounds in whole cents, every threshold the provider gives, for a known or unknown
  symbol, before or after any refreshes, failed ones included, lies within its bounds; and
  a failed refresh keeps the whole cache.\<close>

theorem thresholds_within_bounds:
  fixes as :: "rest_answer list"
  assumes "adaptive_init target mn mx df = Inr ad" and "whole_cents mn" and "whole_cents mx"
  defines "ad' \<equiv> run_final (\<lambda>s a. adaptive_refresh a s) ad as"
  shows "mn \<le> adaptive_threshold_for ad' sy \<and> adaptive_threshold_for ad' sy \<le> mx
    \<and> adaptive_refresh RestFailed ad' = (ad', 0)"
proof -
  have "adaptive_ok ad" and b: "ad_min_usd ad = mn" "ad_max_usd ad = mx"
    using assms(1-3) by (auto simp: adaptive_init_def adaptive_ok_def within_bounds_def split: if_splits)
  then have ok: "adaptive_ok ad'" and "ad_min_usd ad' = mn" "ad_max_usd ad' = mx"
    unfolding ad'_def by (simp_all add: adaptive_runs_ok frame_simps)
  then have "within_bounds ad' (adaptive_threshold_for ad' sy)"
    by (auto simp: adaptive_threshold_for_def adaptive_ok_def intro: ranI split: option.split)
  with \<open>ad_min_usd ad' = mn\<close> \<open>ad_max_usd ad' = mx\<close> show ?thesis
    by (simp add: within_bounds_def adaptive_refresh_def)
qed

definition demo_adaptive :: adaptive where
  "demo_adaptive = \<lparr>ad_target_bars = 200, ad_min_usd = 20000, ad_max_usd = 5000000,
     ad_default_usd = 1000000, ad_turnover = Map.empty, ad_threshold = Map.empty, ad_refreshes = 0\<rparr>"

lemma demo_adaptive_init: "adaptive_init 200 20000 5000000 1000000 = Inr demo_adaptive"
  by (simp add: adaptive_init_def demo_adaptive_def)

theorem thresholds_within_bounds_witness:
  "adaptive_threshold_for (run_final (\<lambda>s a. adaptive_refresh a s) demo_adaptive
     [Tickers [\<lparr>tc_symbol = Some ''BTCUSDT'', tc_turnover = Parsed 50000000000\<rparr>]]) ''BTCUSDT'' \<le> 5000000"
  using thresholds_within_bounds [OF demo_adaptive_init, of
      "[Tickers [\<lparr>tc_symbol = Some ''BTCUSDT'', tc_turnover = Parsed 50000000000\<rparr>]]" "''BTCUSDT''"]
  by (simp add: whole_cents_def)

end
