(* ===== verification/Radar.thy ===== *)
theory Radar
  imports Vpin Detectors Feed
begin

text \<open>
  The advisory pipeline (\<open>src/src/application/radar_pipeline.py\<close>): detectors, dollar bars and
  VPIN engines per symbol, behind one rate limiter and in front of an alert sink, and the
  silence watchdog of \<open>src/src/application/watchdog.py\<close>.  The sink is the environment: a
  function that says for each message whether it returned or raised.  One reading of the
  clock stands for the readings within one tick.
\<close>

section \<open>The rate limiter\<close>

record rate_limiter =
  rl_cooldown :: flt
  rl_last :: "string \<rightharpoonup> time"

definition limiter_allow :: "rate_limiter \<Rightarrow> string \<Rightarrow> time \<Rightarrow> bool \<times> rate_limiter" where
  "limiter_allow l k now =
     (case rl_last l k of
        Some prev \<Rightarrow>
          if now - prev < rl_cooldown l then (False, l)
          else (True, l\<lparr>rl_last := (rl_last l)(k \<mapsto> now)\<rparr>)
      | None \<Rightarrow> (True, l\<lparr>rl_last := (rl_last l)(k \<mapsto> now)\<rparr>))"

definition limiter_step :: "rate_limiter \<Rightarrow> string \<times> time \<Rightarrow> rate_limiter \<times> unit option" where
  "limiter_step l call =
     (let (ok, l') = limiter_allow l (fst call) (snd call) in (l', if ok then Some () else None))"

interpretation limiter_gate: cooldown_gate limiter_step fst snd rl_last rl_cooldown
  by unfold_locales (auto simp: limiter_step_def limiter_allow_def split: option.splits if_splits)

section \<open>The pipeline\<close>

record radar_alert =
  ra_symbol :: symbol
  ra_timestamp :: time
  ra_bar_open :: flt
  ra_bar_close :: flt
  ra_vpin :: flt
  ra_z_score :: extra_val
  ra_direction :: direction
  ra_absorption :: bool

datatype radar_msg = VpinMsg radar_alert | LiquidityMsg liquidity_alert

record radar =
  rp_threshold :: flt
  rp_window :: nat
  rp_z_threshold :: flt
  rp_z_history :: nat
  rp_bars :: bar_engine
  rp_vpin :: "symbol \<rightharpoonup> vpin_engine"
  rp_limiter :: rate_limiter
  rp_bank :: "detector_bank option"
  rp_own_sink :: bool
  rp_ticks :: nat
  rp_bar_count :: nat
  rp_signals :: nat
  rp_alerts :: nat
  rp_liq_alerts :: nat
  rp_last_tick :: "time option"

definition radar_init ::
  "flt \<Rightarrow> nat \<Rightarrow> flt \<Rightarrow> nat \<Rightarrow> flt \<Rightarrow> (symbol \<Rightarrow> provider_answer) option \<Rightarrow> detector_bank option \<Rightarrow> bool
   \<Rightarrow> py_error + radar" where
  "radar_init thr w z zh cooldown prov bank own_sink =
     (case bar_engine_init thr prov of
        Inl e \<Rightarrow> Inl e
      | Inr bars \<Rightarrow> Inr
          \<lparr>rp_threshold = thr, rp_window = w, rp_z_threshold = z, rp_z_history = zh, rp_bars = bars,
           rp_vpin = Map.empty, rp_limiter = \<lparr>rl_cooldown = cooldown, rl_last = Map.empty\<rparr>,
           rp_bank = bank, rp_own_sink = own_sink, rp_ticks = 0, rp_bar_count = 0, rp_signals = 0,
           rp_alerts = 0, rp_liq_alerts = 0, rp_last_tick = None\<rparr>)"

text \<open>\<open>_default_liquidity_sink\<close>: a detector's alert in the shape of a VPIN alert.\<close>

definition default_shape :: "liquidity_alert \<Rightarrow> radar_alert" where
  "default_shape la =
     \<lparr>ra_symbol = la_symbol la, ra_timestamp = la_timestamp la, ra_bar_open = la_price la,
      ra_bar_close = la_price la, ra_vpin = 0,
      ra_z_score = (if la_kind la = OFI_PULSE
                    then (case map_of (la_extra la) ''ratio_to_median'' of None \<Rightarrow> XFloat 0 | Some v \<Rightarrow> v)
                    else XFloat 0),
      ra_direction = (if la_direction la = Buy then Long else Short), ra_absorption = False\<rparr>"

fun kind_name :: "alert_kind \<Rightarrow> string" where
  "kind_name SWEEP = ''SWEEP''"
| "kind_name LARGE_PRINT = ''LARGE_PRINT''"
| "kind_name OFI_PULSE = ''OFI_PULSE''"

definition liquidity_key :: "liquidity_alert \<Rightarrow> string" where
  "liquidity_key la = kind_name (la_kind la) @ '':'' @ la_symbol la"

text \<open>What the pipeline hands to its sinks: the limiter key, the time and the message.\<close>

type_synonym handed = "string \<times> time \<times> radar_msg"

definition dispatch_liquidity ::
  "(radar_msg \<Rightarrow> bool) \<Rightarrow> time \<Rightarrow> liquidity_alert \<Rightarrow> radar \<times> handed list \<Rightarrow> radar \<times> handed list" where
  "dispatch_liquidity sink now la ro =
     (let (rp, out) = ro;
          (ok, l) = limiter_allow (rp_limiter rp) (liquidity_key la) now;
          msg = (if rp_own_sink rp then LiquidityMsg la else VpinMsg (default_shape la))
      in if \<not> ok then (rp, out)
         else (rp\<lparr>rp_limiter := l,
                  rp_liq_alerts := (if sink msg then Suc (rp_liq_alerts rp) else rp_liq_alerts rp)\<rparr>,
               out @ [(liquidity_key la, now, msg)]))"

definition run_detectors ::
  "(radar_msg \<Rightarrow> bool) \<Rightarrow> time \<Rightarrow> flt \<Rightarrow> tick \<Rightarrow> radar \<Rightarrow> radar \<times> handed list" where
  "run_detectors sink now turnover t rp =
     (case rp_bank rp of
        None \<Rightarrow> (rp, [])
      | Some bk \<Rightarrow>
          if \<not> bk_enabled bk then (rp, [])
          else (let (bk', alerts) = bank_step bk (t, turnover)
                in fold (dispatch_liquidity sink now) alerts (rp\<lparr>rp_bank := Some bk'\<rparr>, [])))"

definition alert_of :: "dollar_bar \<Rightarrow> vpin_signal \<Rightarrow> radar_alert" where
  "alert_of bar s =
     \<lparr>ra_symbol = bar_symbol bar, ra_timestamp = end_ts bar, ra_bar_open = bar_open bar,
      ra_bar_close = bar_close bar, ra_vpin = vpin_value s, ra_z_score = XFloat (z_score s),
      ra_direction = sig_direction s, ra_absorption = absorption_detected s\<rparr>"

text \<open>
  \<open>_on_bar_closed\<close>.  A constructor of the VPIN engine that raises leaves the callback; the
  bar engine logs it and the tick goes on.
\<close>

definition dispatch_vpin ::
  "(radar_msg \<Rightarrow> bool) \<Rightarrow> time \<Rightarrow> dollar_bar \<Rightarrow> vpin_signal option \<Rightarrow> radar \<Rightarrow> radar \<times> handed list" where
  "dispatch_vpin sink now bar sig rp =
     (case sig of
        None \<Rightarrow> (rp, [])
      | Some s \<Rightarrow>
          let rp1 = rp\<lparr>rp_signals := Suc (rp_signals rp)\<rparr>;
              (ok, l) = limiter_allow (rp_limiter rp) (bar_symbol bar) now;
              msg = VpinMsg (alert_of bar s)
          in if \<not> is_anomaly s then (rp1, [])
             else if \<not> ok then (rp1, [])
             else (rp1\<lparr>rp_limiter := l,
                       rp_alerts := (if sink msg then Suc (rp_alerts rp1) else rp_alerts rp1)\<rparr>,
                   [(bar_symbol bar, now, msg)]))"

definition engine_for :: "time \<Rightarrow> symbol \<Rightarrow> radar \<Rightarrow> py_error + vpin_engine" where
  "engine_for now sy rp =
     (case rp_vpin rp sy of
        Some e \<Rightarrow> Inr e
      | None \<Rightarrow> vpin_init (rp_window rp) (rp_threshold rp) (rp_z_threshold rp) (rp_z_history rp) 10000 now)"

definition on_bar_closed ::
  "alpha_cfg \<Rightarrow> (radar_msg \<Rightarrow> bool) \<Rightarrow> time \<Rightarrow> dollar_bar \<Rightarrow> radar \<Rightarrow> radar \<times> handed list" where
  "on_bar_closed cfg sink now bar rp =
     (let rp1 = rp\<lparr>rp_bar_count := Suc (rp_bar_count rp)\<rparr>
      in case engine_for now (bar_symbol bar) rp1 of
           Inl _ \<Rightarrow> (rp1, [])
         | Inr e \<Rightarrow>
             (let (e', sig) = process_bar cfg now e bar
              in dispatch_vpin sink now bar sig
                   (rp1\<lparr>rp_vpin := (rp_vpin rp1)(bar_symbol bar \<mapsto> e')\<rparr>)))"

text \<open>\<open>process_tick\<close>; the large-print detector asks the host for the symbol's turnover.\<close>

definition radar_tick ::
  "alpha_cfg \<Rightarrow> (radar_msg \<Rightarrow> bool) \<Rightarrow> radar \<Rightarrow> time \<times> flt \<times> tick \<Rightarrow> radar \<times> handed list" where
  "radar_tick cfg sink rp ev =
     (let (now, turnover, t) = ev;
          rp1 = rp\<lparr>rp_ticks := Suc (rp_ticks rp), rp_last_tick := Some (tk_ts t)\<rparr>;
          (rp2, out1) = run_detectors sink now turnover t rp1;
          (bars, closed) = bars_process_tick (rp_bars rp2) t;
          rp3 = rp2\<lparr>rp_bars := bars\<rparr>
      in case closed of
           None \<Rightarrow> (rp3, out1)
         | Some bar \<Rightarrow> (let (rp4, out2) = on_bar_closed cfg sink now bar rp3 in (rp4, out1 @ out2)))"

text \<open>\<open>on_trade\<close> maps the aggressor's side to the maker flag.\<close>

definition radar_on_trade ::
  "alpha_cfg \<Rightarrow> (radar_msg \<Rightarrow> bool) \<Rightarrow> radar \<Rightarrow> time \<Rightarrow> flt \<Rightarrow> symbol \<Rightarrow> string \<Rightarrow> flt \<Rightarrow> flt \<Rightarrow> time
   \<Rightarrow> radar \<times> handed list" where
  "radar_on_trade cfg sink rp now turnover sy side price qty ts =
     radar_tick cfg sink rp (now, turnover,
       \<lparr>tk_symbol = sy, tk_price = price, tk_size = qty, tk_buyer_maker = (side = ''Sell''), tk_ts = ts\<rparr>)"

definition radar_resync :: "radar \<Rightarrow> radar" where
  "radar_resync rp = rp\<lparr>rp_bars := bars_handle_resync (rp_bars rp)\<rparr>"

section \<open>Alerts are rate limited\<close>

definition times_of :: "string \<Rightarrow> handed list \<Rightarrow> time list" where
  "times_of k out = map (\<lambda>(_, now, _). now) (filter (\<lambda>(key, _, _). key = k) out)"

definition limiter_tracks :: "flt \<Rightarrow> rate_limiter \<Rightarrow> handed list \<Rightarrow> bool" where
  "limiter_tracks c l out \<longleftrightarrow> rl_cooldown l = c \<and>
     (\<forall>k. spaced c (times_of k out)
        \<and> rl_last l k = (if times_of k out = [] then None else Some (last (times_of k out))))"

lemma times_of_append [simp]: "times_of k (a @ b) = times_of k a @ times_of k b"
  by (simp add: times_of_def)

lemma times_of_simps [simp]:
  "times_of k [] = []" "times_of k ((key, now, m) # out) = (if key = k then now # times_of k out else times_of k out)"
  by (simp_all add: times_of_def)

lemma spaced_snoc: "spaced c (ts @ [t]) \<longleftrightarrow> spaced c ts \<and> (ts \<noteq> [] \<longrightarrow> c \<le> t - last ts)"
  by (auto simp: spaced_def successively_append_iff)

lemma allow_tracks:
  assumes "limiter_tracks c l out" and "fst (limiter_allow l k now)"
  shows "limiter_tracks c (snd (limiter_allow l k now)) (out @ [(k, now, m)])"
  using assms
  by (auto simp: limiter_tracks_def limiter_allow_def spaced_snoc split: option.splits if_splits)

definition tracks :: "flt \<Rightarrow> handed list \<Rightarrow> radar \<times> handed list \<Rightarrow> bool" where
  "tracks c hist ro \<longleftrightarrow> limiter_tracks c (rp_limiter (fst ro)) (hist @ snd ro)"

lemma dispatch_liquidity_tracks:
  "tracks c hist ro \<Longrightarrow> tracks c hist (dispatch_liquidity sink now la ro)"
  using allow_tracks [of c "rp_limiter (fst ro)" "hist @ snd ro" "liquidity_key la" now]
  by (auto simp: tracks_def dispatch_liquidity_def Let_def case_prod_unfold)

lemma run_detectors_tracks:
  assumes "limiter_tracks c (rp_limiter rp) hist"
  shows "tracks c hist (run_detectors sink now turnover t rp)"
  using assms
  by (auto simp: run_detectors_def Let_def case_prod_unfold tracks_def [of _ _ "(_, [])"] split: option.split
      intro!: fold_inv [where P = "tracks c hist"] dispatch_liquidity_tracks)

lemma dispatch_vpin_tracks:
  assumes "limiter_tracks c (rp_limiter rp) hist"
  shows "tracks c hist (dispatch_vpin sink now bar sig rp)"
  using assms allow_tracks [OF assms, of "bar_symbol bar" now]
  by (auto simp: tracks_def dispatch_vpin_def Let_def case_prod_unfold split: option.split)

lemma on_bar_closed_tracks:
  "limiter_tracks c (rp_limiter rp) hist \<Longrightarrow> tracks c hist (on_bar_closed cfg sink now bar rp)"
  using dispatch_vpin_tracks
  by (auto simp: on_bar_closed_def Let_def case_prod_unfold tracks_def split: sum.split)

lemma radar_tick_tracks:
  assumes "limiter_tracks c (rp_limiter rp) hist"
  shows "tracks c hist (radar_tick cfg sink rp ev)"
proof -
  obtain now turnover t where ev: "ev = (now, turnover, t)" by (cases ev) auto
  let ?rp1 = "rp\<lparr>rp_ticks := Suc (rp_ticks rp), rp_last_tick := Some (tk_ts t)\<rparr>"
  obtain rp2 out1 where d: "run_detectors sink now turnover t ?rp1 = (rp2, out1)" by force
  have t2: "limiter_tracks c (rp_limiter rp2) (hist @ out1)"
    using run_detectors_tracks [of c ?rp1 hist sink now turnover t] assms d by (simp add: tracks_def)
  then show ?thesis
    using on_bar_closed_tracks [of c "rp2\<lparr>rp_bars := _\<rparr>" "hist @ out1"]
    by (auto simp: radar_tick_def ev d Let_def case_prod_unfold tracks_def split: option.split)
qed

lemma radar_run_tracks:
  assumes "limiter_tracks c (rp_limiter rp) hist"
  shows "limiter_tracks c (rp_limiter (run_final (radar_tick cfg sink) rp evs))
    (hist @ concat (map snd (run_log (radar_tick cfg sink) rp evs)))"
  using assms
proof (induction evs arbitrary: rp hist)
  case (Cons ev evs)
  from radar_tick_tracks [OF Cons.prems, of cfg sink ev]
  have "limiter_tracks c (rp_limiter (fst (radar_tick cfg sink rp ev))) (hist @ snd (radar_tick cfg sink rp ev))"
    by (simp add: tracks_def)
  from Cons.IH [OF this] show ?case by simp
qed simp

lemma limiter_cooldown [frame_simps]: "rl_cooldown (snd (limiter_allow l k now)) = rl_cooldown l"
  by (auto simp: limiter_allow_def split: option.split)

text \<open>Over any run, whatever the ticks, the detectors' and engines' alerts, the clock and
  the sinks do, two messages handed to the sinks under one limiter key are at least the
  cooldown apart.\<close>

theorem radar_alerts_spaced:
  assumes "radar_init thr w z zh cooldown prov bank own = Inr rp"
  shows "spaced cooldown (times_of k (concat (map snd (run_log (radar_tick cfg sink) rp evs))))"
proof -
  have "limiter_tracks cooldown (rp_limiter rp) []"
    using assms by (auto simp: radar_init_def limiter_tracks_def split: sum.splits)
  from radar_run_tracks [OF this, of cfg sink evs] show ?thesis
    by (simp add: limiter_tracks_def)
qed

definition demo_bank :: detector_bank where
  "demo_bank = bank_init (Some demo_sweep) None (Some demo_ofi)"

definition demo_radar :: radar where
  "demo_radar = \<lparr>rp_threshold = 50, rp_window = 2, rp_z_threshold = 2, rp_z_history = 4,
     rp_bars = demo_engine, rp_vpin = Map.empty, rp_limiter = \<lparr>rl_cooldown = 300, rl_last = Map.empty\<rparr>,
     rp_bank = Some demo_bank, rp_own_sink = False, rp_ticks = 0, rp_bar_count = 0, rp_signals = 0,
     rp_alerts = 0, rp_liq_alerts = 0, rp_last_tick = None\<rparr>"

lemma demo_radar_init: "radar_init 50 2 2 4 300 None (Some demo_bank) False = Inr demo_radar"
  by (simp add: radar_init_def demo_radar_def demo_engine_init)

definition demo_events :: "(time \<times> flt \<times> tick) list" where
  "demo_events = [(0, 0, timed_tick ''B'' False 60 0), (1, 0, timed_tick ''B'' False 60 1), (2, 0, timed_tick ''E'' True 9 2)]"

theorem radar_alerts_spaced_witness:
  "spaced 300 (times_of ''SWEEP:B'' (concat (map snd (run_log (radar_tick demo_cfg (\<lambda>_. True)) demo_radar demo_events))))"
  using radar_alerts_spaced [OF demo_radar_init] by blast

section \<open>The parts keep their invariants\<close>

definition vpin_slot_ok :: "radar \<Rightarrow> vpin_engine \<Rightarrow> bool" where
  "vpin_slot_ok rp e \<longleftrightarrow> vpin_shape e \<and> sums_match e \<and> volume_threshold e = rp_threshold rp
     \<and> window_size e = rp_window rp \<and> anomaly_z e = rp_z_threshold rp"

definition radar_ok :: "radar \<Rightarrow> bool" where
  "radar_ok rp \<longleftrightarrow> engine_ok (rp_bars rp) \<and> (\<forall>e \<in> ran (rp_vpin rp). vpin_slot_ok rp e)
     \<and> rp_alerts rp \<le> rp_signals rp \<and> rp_signals rp \<le> rp_bar_count rp \<and> rp_bar_count rp \<le> rp_ticks rp"

definition same_core :: "radar \<Rightarrow> radar \<Rightarrow> bool" where
  "same_core rp rp' \<longleftrightarrow> rp_bars rp' = rp_bars rp \<and> rp_vpin rp' = rp_vpin rp \<and> rp_threshold rp' = rp_threshold rp
     \<and> rp_window rp' = rp_window rp \<and> rp_z_threshold rp' = rp_z_threshold rp \<and> rp_z_history rp' = rp_z_history rp
     \<and> rp_alerts rp' = rp_alerts rp \<and> rp_signals rp' = rp_signals rp \<and> rp_bar_count rp' = rp_bar_count rp
     \<and> rp_ticks rp' = rp_ticks rp"

lemma dispatch_liquidity_core: "same_core rp (fst ro) \<Longrightarrow> same_core rp (fst (dispatch_liquidity sink now la ro))"
  by (auto simp: same_core_def dispatch_liquidity_def Let_def case_prod_unfold)

lemma run_detectors_core: "same_core rp (fst (run_detectors sink now turnover t rp))"
  by (auto simp: run_detectors_def Let_def case_prod_unfold same_core_def [of _ "_\<lparr>rp_bank := _\<rparr>"]
      split: option.split intro!: fold_inv [where P = "\<lambda>ro. same_core rp (fst ro)"] dispatch_liquidity_core)
    (simp_all add: same_core_def)

lemma engine_for_ok:
  assumes "\<forall>e \<in> ran (rp_vpin rp). vpin_slot_ok rp e" and "engine_for now sy rp = Inr e"
  shows "vpin_slot_ok rp e"
proof (cases "rp_vpin rp sy")
  case None
  with assms(2) have i: "vpin_init (rp_window rp) (rp_threshold rp) (rp_z_threshold rp) (rp_z_history rp) 10000 now = Inr e"
    by (simp add: engine_for_def)
  then have "volume_threshold e = rp_threshold rp \<and> window_size e = rp_window rp \<and> anomaly_z e = rp_z_threshold rp"
    by (auto simp: vpin_init_def reset_o1_def split: if_splits)
  with vpin_init_ok [OF i] show ?thesis by (simp add: vpin_slot_ok_def)
next
  case (Some e')
  with assms show ?thesis by (auto simp: engine_for_def intro: ranI)
qed

lemma process_bar_params [frame_simps]:
  fixes b :: dollar_bar
  shows "volume_threshold (fst (process_bar cfg now e b)) = volume_threshold e"
    "window_size (fst (process_bar cfg now e b)) = window_size e"
    "anomaly_z (fst (process_bar cfg now e b)) = anomaly_z e"
  by (simp_all add: process_bar_def Let_def case_prod_unfold decay_guard_def apply_time_decay_def push_imbalance_def
      push_vpin_def rebuild_guard_def rebuild_sums_def)

lemma process_bar_slot: "vpin_slot_ok rp e \<Longrightarrow> vpin_slot_ok rp (fst (process_bar cfg now e b))"
  for b :: dollar_bar
  by (auto simp: vpin_slot_ok_def frame_simps intro: inv_intros)

definition count_ok :: "radar \<Rightarrow> bool" where
  "count_ok rp \<longleftrightarrow> rp_alerts rp \<le> rp_signals rp \<and> rp_signals rp < rp_bar_count rp"

lemma dispatch_vpin_core:
  "rp_bars (fst (dispatch_vpin sink now bar sig rp)) = rp_bars rp
   \<and> rp_vpin (fst (dispatch_vpin sink now bar sig rp)) = rp_vpin rp
   \<and> rp_threshold (fst (dispatch_vpin sink now bar sig rp)) = rp_threshold rp
   \<and> rp_window (fst (dispatch_vpin sink now bar sig rp)) = rp_window rp
   \<and> rp_z_threshold (fst (dispatch_vpin sink now bar sig rp)) = rp_z_threshold rp
   \<and> rp_bar_count (fst (dispatch_vpin sink now bar sig rp)) = rp_bar_count rp
   \<and> rp_ticks (fst (dispatch_vpin sink now bar sig rp)) = rp_ticks rp"
  by (auto simp: dispatch_vpin_def Let_def case_prod_unfold split: option.split)

lemma dispatch_vpin_counts:
  "count_ok rp \<Longrightarrow> rp_alerts (fst (dispatch_vpin sink now bar sig rp)) \<le> rp_signals (fst (dispatch_vpin sink now bar sig rp))
     \<and> rp_signals (fst (dispatch_vpin sink now bar sig rp)) \<le> rp_bar_count rp"
  by (auto simp: count_ok_def dispatch_vpin_def Let_def case_prod_unfold split: option.split)

lemma vpin_slot_ok_cong:
  "rp_threshold rp = rp_threshold rp' \<Longrightarrow> rp_window rp = rp_window rp' \<Longrightarrow> rp_z_threshold rp = rp_z_threshold rp' \<Longrightarrow>
     vpin_slot_ok rp e = vpin_slot_ok rp' e"
  by (simp add: vpin_slot_ok_def)

lemma on_bar_closed_ok:
  assumes "engine_ok (rp_bars rp)" and "\<forall>e \<in> ran (rp_vpin rp). vpin_slot_ok rp e"
    and "rp_alerts rp \<le> rp_signals rp" and "rp_signals rp \<le> rp_bar_count rp" and "rp_bar_count rp < rp_ticks rp"
  shows "radar_ok (fst (on_bar_closed cfg sink now bar rp))"
proof -
  let ?rp1 = "rp\<lparr>rp_bar_count := Suc (rp_bar_count rp)\<rparr>"
  have slot1: "\<forall>e \<in> ran (rp_vpin ?rp1). vpin_slot_ok ?rp1 e"
    using assms(2) by (simp add: vpin_slot_ok_def)
  show ?thesis
  proof (cases "engine_for now (bar_symbol bar) ?rp1")
    case (Inl err)
    with assms slot1 show ?thesis by (simp add: on_bar_closed_def radar_ok_def)
  next
    case (Inr e)
    let ?e = "fst (process_bar cfg now e bar)"
    let ?rp2 = "?rp1\<lparr>rp_vpin := (rp_vpin ?rp1)(bar_symbol bar \<mapsto> ?e)\<rparr>"
    let ?out = "dispatch_vpin sink now bar (snd (process_bar cfg now e bar)) ?rp2"
    have "vpin_slot_ok ?rp2 ?e"
      using process_bar_slot [OF engine_for_ok [OF slot1 Inr]] by (simp add: vpin_slot_ok_def)
    then have "\<forall>e' \<in> ran (rp_vpin ?rp2). vpin_slot_ok ?rp2 e'"
      using slot1 by (auto simp: ran_def vpin_slot_ok_def split: if_splits)
    moreover have "on_bar_closed cfg sink now bar rp = ?out"
      using Inr by (simp add: on_bar_closed_def case_prod_unfold Let_def)
    moreover have "count_ok ?rp2" using assms by (simp add: count_ok_def)
    ultimately show ?thesis
      using dispatch_vpin_core [of sink now bar "snd (process_bar cfg now e bar)" ?rp2]
        dispatch_vpin_counts [of ?rp2 sink now bar "snd (process_bar cfg now e bar)"] assms
        vpin_slot_ok_cong [of "fst ?out" ?rp2]
      by (simp add: radar_ok_def)
  qed
qed

lemma radar_tick_ok [inv_intros]:
  assumes "radar_ok rp" and "tick_ok (snd (snd ev))"
  shows "radar_ok (fst (radar_tick cfg sink rp ev))"
proof -
  obtain now turnover t where ev: "ev = (now, turnover, t)" by (cases ev) auto
  let ?rp1 = "rp\<lparr>rp_ticks := Suc (rp_ticks rp), rp_last_tick := Some (tk_ts t)\<rparr>"
  obtain rp2 out1 where d: "run_detectors sink now turnover t ?rp1 = (rp2, out1)" by force
  have core: "same_core ?rp1 rp2" using run_detectors_core [of ?rp1 sink now turnover t] d by simp
  let ?rp3 = "rp2\<lparr>rp_bars := fst (bars_process_tick (rp_bars rp2) t)\<rparr>"
  have rp3: "engine_ok (rp_bars ?rp3)" "\<forall>e \<in> ran (rp_vpin ?rp3). vpin_slot_ok ?rp3 e"
    "rp_alerts ?rp3 \<le> rp_signals ?rp3" "rp_signals ?rp3 \<le> rp_bar_count ?rp3" "rp_bar_count ?rp3 < rp_ticks ?rp3"
    using assms core ev by (auto simp: radar_ok_def same_core_def vpin_slot_ok_def intro: inv_intros)
  show ?thesis
  proof (cases "snd (bars_process_tick (rp_bars rp2) t)")
    case None
    with rp3 show ?thesis by (simp add: radar_tick_def ev d Let_def case_prod_unfold radar_ok_def)
  next
    case (Some bar)
    with on_bar_closed_ok [OF rp3, of cfg sink now bar] show ?thesis
      by (simp add: radar_tick_def ev d Let_def case_prod_unfold)
  qed
qed

lemma radar_init_ok: "radar_init thr w z zh cd prov bank own = Inr rp \<Longrightarrow> radar_ok rp"
  by (auto simp: radar_init_def bar_engine_init_def radar_ok_def engine_ok_def split: sum.splits if_splits)

text \<open>After any sound ticks the composed pipeline holds well-formed bars, its VPIN engines'
  running sums match their arrays, every one of them is normalised by the base threshold
  and the configured window, and alerts \<le> signals \<le> bars \<le> ticks.\<close>

theorem radar_composition_ok:
  assumes "radar_init thr w z zh cd prov bank own = Inr rp"
    and "list_all (\<lambda>ev. tick_ok (snd (snd ev))) evs"
  shows "radar_ok (run_final (radar_tick cfg sink) rp evs)"
proof (rule run_final_inv [where P = radar_ok])
  show "radar_ok rp" using assms(1) by (rule radar_init_ok)
qed (use assms(2) in \<open>auto simp: list_all_iff intro: radar_tick_ok\<close>)

theorem radar_composition_ok_witness:
  "radar_ok (run_final (radar_tick demo_cfg (\<lambda>_. True)) demo_radar demo_events)"
  using radar_composition_ok [OF demo_radar_init, of demo_events]
  by (simp add: demo_events_def timed_tick_def tick_ok_def)

section \<open>The watchdog\<close>

record watchdog =
  wd_silence :: flt
  wd_alerted :: bool

datatype wd_msg = Blindness | BlindnessCleared

text \<open>
  One poll: the clock, the pipeline's last tick and whether the sink returns.  An exception
  of the sink leaves \<open>_tick\<close> before the flag of a recovery is cleared and is swallowed by
  the loop.
\<close>

definition wd_silent :: "watchdog \<Rightarrow> time \<Rightarrow> time option \<Rightarrow> bool" where
  "wd_silent wd now last_tick =
     (wd_silence wd < (case last_tick of None \<Rightarrow> wd_silence wd + 1 | Some ts \<Rightarrow> now - ts))"

definition watchdog_tick :: "watchdog \<Rightarrow> time \<times> time option \<times> bool \<Rightarrow> watchdog \<times> (wd_msg \<times> bool) option" where
  "watchdog_tick wd poll =
     (let (now, last_tick, sink_ok) = poll
      in if wd_silent wd now last_tick
         then (if wd_alerted wd then (wd, None)
               else (wd\<lparr>wd_alerted := True\<rparr>, Some (Blindness, sink_ok)))
         else (if wd_alerted wd
               then (wd\<lparr>wd_alerted := \<not> sink_ok\<rparr>, Some (BlindnessCleared, sink_ok))
               else (wd\<lparr>wd_alerted := False\<rparr>, None)))"

definition wd_attempts :: "watchdog \<Rightarrow> (time \<times> time option \<times> bool) list \<Rightarrow> (wd_msg \<times> bool) list" where
  "wd_attempts wd polls = map the (filter (\<lambda>a. a \<noteq> None) (map snd (run_log watchdog_tick wd polls)))"

text \<open>The attempts without the recoveries the sink did not take.\<close>

definition wd_settled :: "(wd_msg \<times> bool) list \<Rightarrow> wd_msg list" where
  "wd_settled atts = map fst (filter (\<lambda>(m, ok). m = Blindness \<or> ok) atts)"

fun alternates :: "wd_msg \<Rightarrow> wd_msg list \<Rightarrow> bool" where
  "alternates m [] = True"
| "alternates m (x # xs) = (x = m \<and> alternates (if m = Blindness then BlindnessCleared else Blindness) xs)"

lemma wd_attempts_simps [simp]:
  "wd_attempts wd [] = []"
  "wd_attempts wd (p # ps) = (case snd (watchdog_tick wd p) of None \<Rightarrow> [] | Some a \<Rightarrow> [a])
     @ wd_attempts (fst (watchdog_tick wd p)) ps"
  by (auto simp: wd_attempts_def split: option.split)

lemma wd_settled_simps [simp]:
  "wd_settled [] = []"
  "wd_settled ((m, ok) # xs) = (if m = Blindness \<or> ok then m # wd_settled xs else wd_settled xs)"
  by (simp_all add: wd_settled_def)

lemma watchdog_alternates:
  "alternates (if wd_alerted wd then BlindnessCleared else Blindness) (wd_settled (wd_attempts wd polls))"
proof (induction polls arbitrary: wd)
  case (Cons p ps)
  obtain now last_tick ok where p: "p = (now, last_tick, ok)" by (cases p) auto
  note ih = Cons [of "fst (watchdog_tick wd p)"]
  show ?case
  proof (cases "wd_silent wd now last_tick")
    case True
    with ih show ?thesis by (cases "wd_alerted wd") (simp_all add: p watchdog_tick_def)
  next
    case False
    with ih show ?thesis by (cases "wd_alerted wd"; cases ok) (simp_all add: p watchdog_tick_def)
  qed
qed simp

text \<open>From start-up, the watchdog's messages alternate: one blindness alert per episode of
  silence, then its recovery, repeated at the next polls until the sink takes it; and after
  each poll the alarm is on exactly when the stream is silent or a recovery is still owed.\<close>

theorem watchdog_episodes:
  "alternates Blindness (wd_settled (wd_attempts \<lparr>wd_silence = thr, wd_alerted = False\<rparr> polls))
   \<and> (let wd = run_final watchdog_tick \<lparr>wd_silence = thr, wd_alerted = False\<rparr> polls
      in wd_alerted (fst (watchdog_tick wd (now, last_tick, ok)))
         \<longleftrightarrow> wd_silent wd now last_tick \<or> (wd_alerted wd \<and> \<not> ok))"
  using watchdog_alternates [of "\<lparr>wd_silence = thr, wd_alerted = False\<rparr>" polls]
  by (auto simp: watchdog_tick_def Let_def)

end
