(* ===== verification/Outbox.thy ===== *)
theory Outbox
  imports Radar "HOL-Library.Multiset"
begin

text \<open>
  The transactional outbox: the table of alerts and the relay that delivers them
  (\<open>src/src/application/outbox_relay.py\<close>), the sink that turns a radar alert into a row
  (\<open>src/src/application/outbox_alert_sink.py\<close>) and the local signal repository
  (\<open>src/src/infrastructure/sqlite_outbox.py\<close>).

  A table is the list of its rows in insertion order; each SQL statement of the source is
  the operation it describes on that list, with rows of equal rank kept in insertion order.
  A relay round is cut at its commits, so that several relays may work on one table:
  \<open>Select\<close> is the query, \<open>Claim\<close> the update with its commit, \<open>Finish\<close> one delivery.
\<close>

section \<open>The table\<close>

datatype row_status = PENDING | PROCESSING

record outbox_row =
  ob_id :: int
  ob_payload :: string
  ob_priority :: int
  ob_status :: row_status
  ob_created :: time
  ob_execute_after :: time
  ob_retries :: int

record outbox =
  ob_rows :: "outbox_row list"
  ob_next :: int

text \<open>The insert of a payload with a priority, the table's default where the statement gives none.\<close>

definition insert_alert :: "string \<Rightarrow> int \<Rightarrow> time \<Rightarrow> outbox \<Rightarrow> outbox" where
  "insert_alert payload priority now T =
     T\<lparr>ob_rows := ob_rows T @ [\<lparr>ob_id = ob_next T, ob_payload = payload, ob_priority = priority, ob_status = PENDING,
         ob_created = now, ob_execute_after = now, ob_retries = 0\<rparr>],
       ob_next := ob_next T + 1\<rparr>"

definition due :: "time \<Rightarrow> outbox_row \<Rightarrow> bool" where
  "due now r \<longleftrightarrow> ob_status r = PENDING \<and> ob_execute_after r \<le> now"

text \<open>\<open>ORDER BY priority ASC, created_at ASC LIMIT n\<close>.\<close>

definition select_due :: "nat \<Rightarrow> time \<Rightarrow> outbox \<Rightarrow> outbox_row list" where
  "select_due n now T = take n (sort_key ob_priority (sort_key ob_created (filter (due now) (ob_rows T))))"

definition claimable :: "int list \<Rightarrow> outbox_row \<Rightarrow> bool" where
  "claimable ids r \<longleftrightarrow> ob_id r \<in> set ids \<and> ob_status r = PENDING"

text \<open>The update under the status guard, and how many rows it changed.\<close>

definition claim_rows :: "int list \<Rightarrow> outbox \<Rightarrow> outbox \<times> nat" where
  "claim_rows ids T =
     (T\<lparr>ob_rows := map (\<lambda>r. if claimable ids r then r\<lparr>ob_status := PROCESSING\<rparr> else r) (ob_rows T)\<rparr>,
      length (filter (claimable ids) (ob_rows T)))"

definition as_claimed :: "nat \<Rightarrow> outbox_row list \<Rightarrow> outbox_row list" where
  "as_claimed n rows = map (\<lambda>r. r\<lparr>ob_status := PROCESSING\<rparr>) (take n rows)"

definition mark_delivered :: "int \<Rightarrow> outbox \<Rightarrow> outbox" where
  "mark_delivered i T = T\<lparr>ob_rows := filter (\<lambda>r. ob_id r \<noteq> i) (ob_rows T)\<rparr>"

definition retry_row :: "time \<Rightarrow> outbox_row \<Rightarrow> outbox_row" where
  "retry_row at_time r = r\<lparr>ob_status := PENDING, ob_retries := ob_retries r + 1, ob_execute_after := at_time\<rparr>"

definition mark_failed_for_retry :: "int \<Rightarrow> int \<Rightarrow> time \<Rightarrow> outbox \<Rightarrow> outbox" where
  "mark_failed_for_retry i delay now T =
     T\<lparr>ob_rows := map (\<lambda>r. if ob_id r = i then retry_row (now + of_int delay) r else r) (ob_rows T)\<rparr>"

section \<open>The relays\<close>

text \<open>
  The payload handed to the notifier: the decoded object, or the raw text wrapped as one.
  \<open>loads\<close> stands for the JSON parser; it returns an object, any other value, or fails.
\<close>

datatype 'v parsed = Js_object "(string \<times> 'v) list" | Js_other | Js_error

definition raw_text :: "(string \<Rightarrow> 'v) \<Rightarrow> string \<Rightarrow> (string \<times> 'v) list" where
  "raw_text str raw =
     [(''event_type'', str ''RAW_TEXT''), (''symbol'', str ''GLOBAL''), (''reason'', str []), (''fact'', str raw),
      (''limit'', str [])]"

definition decode_payload :: "(string \<Rightarrow> 'v) \<Rightarrow> (string \<Rightarrow> 'v parsed) \<Rightarrow> string \<Rightarrow> (string \<times> 'v) list" where
  "decode_payload str loads raw =
     (case loads raw of Js_object kvs \<Rightarrow> kvs | Js_other \<Rightarrow> raw_text str raw | Js_error \<Rightarrow> raw_text str raw)"

lemma decode_sink_payload:
  assumes "\<And>kvs. loads (dumps kvs) = Js_object kvs"
  shows "decode_payload str loads (dumps (kvs :: (string \<times> 'v) list)) = kvs"
  by (simp add: decode_payload_def assms)

text \<open>
  The outcome of one delivery: sent and deleted; sent, but the delete failed; deferred by
  the notifier with its wait; or an exception before anything was sent.
\<close>

datatype outcome = Sent | Sent_unrecorded | Deferred int | Failed

text \<open>A relay idles, has selected rows, or holds a batch it has claimed.\<close>

datatype relay = Idle | Selected "outbox_row list" | Holding "outbox_row list"

record post_office =
  po_table :: outbox
  po_relays :: "relay list"
  po_sent :: "(int \<times> string) list"

definition office_init :: "nat \<Rightarrow> post_office" where
  "office_init n = \<lparr>po_table = \<lparr>ob_rows = [], ob_next = 1\<rparr>, po_relays = replicate n Idle, po_sent = []\<rparr>"

definition relay_select :: "nat \<Rightarrow> nat \<Rightarrow> time \<Rightarrow> post_office \<Rightarrow> post_office" where
  "relay_select w n now P =
     (case select_due n now (po_table P) of
        [] \<Rightarrow> P
      | rows \<Rightarrow> P\<lparr>po_relays := (po_relays P)[w := Selected rows]\<rparr>)"

definition batch_state :: "outbox_row list \<Rightarrow> relay" where
  "batch_state rows = (if rows = [] then Idle else Holding rows)"

definition relay_claim :: "nat \<Rightarrow> outbox_row list \<Rightarrow> post_office \<Rightarrow> post_office" where
  "relay_claim w rows P =
     (let (T, n) = claim_rows (map ob_id rows) (po_table P)
      in P\<lparr>po_table := T, po_relays := (po_relays P)[w := batch_state (as_claimed n rows)]\<rparr>)"

definition settle :: "outbox_row \<Rightarrow> outcome \<Rightarrow> time \<Rightarrow> outbox \<Rightarrow> outbox" where
  "settle r out now T =
     (case out of
        Sent \<Rightarrow> mark_delivered (ob_id r) T
      | Sent_unrecorded \<Rightarrow> mark_failed_for_retry (ob_id r) 30 now T
      | Deferred wait \<Rightarrow> mark_failed_for_retry (ob_id r) (max 1 wait) now T
      | Failed \<Rightarrow> mark_failed_for_retry (ob_id r) 30 now T)"

definition sent_by :: "outbox_row \<Rightarrow> outcome \<Rightarrow> (int \<times> string) list" where
  "sent_by r out = (if out = Sent \<or> out = Sent_unrecorded then [(ob_id r, ob_payload r)] else [])"

definition relay_finish :: "nat \<Rightarrow> outbox_row \<Rightarrow> outbox_row list \<Rightarrow> outcome \<Rightarrow> time \<Rightarrow> post_office \<Rightarrow> post_office" where
  "relay_finish w r rows out now P =
     P\<lparr>po_table := settle r out now (po_table P), po_sent := po_sent P @ sent_by r out,
       po_relays := (po_relays P)[w := batch_state rows]\<rparr>"

text \<open>A crash forgets what the relay holds; what is committed stays.\<close>

datatype office_event =
    Insert string int time
  | Select nat nat time
  | Claim nat
  | Finish nat outcome time
  | Crash nat

fun office_step :: "office_event \<Rightarrow> post_office \<Rightarrow> post_office" where
  "office_step (Insert payload priority now) P = P\<lparr>po_table := insert_alert payload priority now (po_table P)\<rparr>"
| "office_step (Select w n now) P =
     (if w < length (po_relays P) then (case po_relays P ! w of Idle \<Rightarrow> relay_select w n now P | _ \<Rightarrow> P) else P)"
| "office_step (Claim w) P =
     (if w < length (po_relays P) then (case po_relays P ! w of Selected rows \<Rightarrow> relay_claim w rows P | _ \<Rightarrow> P) else P)"
| "office_step (Finish w out now) P =
     (if w < length (po_relays P) then (case po_relays P ! w of Holding (r # rows) \<Rightarrow> relay_finish w r rows out now P | _ \<Rightarrow> P) else P)"
| "office_step (Crash w) P = P\<lparr>po_relays := (po_relays P)[w := Idle]\<rparr>"

section \<open>The sink\<close>

text \<open>The payload's fields; \<open>dumps\<close> stands for the JSON encoder.\<close>

datatype json_val = Js_str string | Js_int int | Js_num flt | Js_extra extra_val | Js_bool bool

fun direction_text :: "direction \<Rightarrow> string" where
  "direction_text Long = ''long''"
| "direction_text Short = ''short''"
| "direction_text Neutral = ''neutral''"

definition format_alert :: "radar_alert \<Rightarrow> (string \<times> json_val) list" where
  "format_alert a =
     [(''event_type'', Js_str ''RADAR_ALERT''), (''version'', Js_int 1), (''symbol'', Js_str (ra_symbol a)),
      (''direction'', Js_str (direction_text (ra_direction a))), (''vpin'', Js_num (ra_vpin a)),
      (''z_score'', Js_extra (ra_z_score a)), (''absorption'', Js_bool (ra_absorption a)),
      (''bar_close'', Js_num (ra_bar_close a)), (''bar_open'', Js_num (ra_bar_open a)),
      (''timestamp'', Js_num (ra_timestamp a))]"

definition outbox_sink :: "((string \<times> json_val) list \<Rightarrow> string) \<Rightarrow> radar_alert \<Rightarrow> time \<Rightarrow> outbox \<Rightarrow> outbox" where
  "outbox_sink dumps a now T = insert_alert (dumps (format_alert a)) 1 now T"

section \<open>No alert is lost\<close>

fun insert_payload :: "office_event \<Rightarrow> string list" where
  "insert_payload (Insert payload priority now) = [payload]"
| "insert_payload ev = []"

definition inserts :: "office_event list \<Rightarrow> string list" where
  "inserts evs = concat (map insert_payload evs)"

fun held :: "relay \<Rightarrow> outbox_row list" where
  "held Idle = []"
| "held (Selected rows) = rows"
| "held (Holding rows) = rows"

definition held_rows :: "post_office \<Rightarrow> outbox_row set" where
  "held_rows P = (\<Union>w \<in> set (po_relays P). set (held w))"

text \<open>A pair of identifier and payload as the insertions made it.\<close>

definition genuine :: "string list \<Rightarrow> int \<Rightarrow> string \<Rightarrow> bool" where
  "genuine pl i p \<longleftrightarrow> 1 \<le> i \<and> i \<le> int (length pl) \<and> p = pl ! nat (i - 1)"

definition genuine_row :: "string list \<Rightarrow> outbox_row \<Rightarrow> bool" where
  "genuine_row pl r \<longleftrightarrow> genuine pl (ob_id r) (ob_payload r)"

definition office_ok :: "string list \<Rightarrow> post_office \<Rightarrow> bool" where
  "office_ok pl P \<longleftrightarrow> ob_next (po_table P) = int (length pl) + 1
     \<and> (\<forall>r \<in> set (ob_rows (po_table P)) \<union> held_rows P. genuine_row pl r)
     \<and> (\<forall>(i, p) \<in> set (po_sent P). genuine pl i p)
     \<and> (\<forall>i. 1 \<le> i \<and> i \<le> int (length pl) \<longrightarrow> i \<in> ob_id ` set (ob_rows (po_table P)) \<or> i \<in> fst ` set (po_sent P))"

lemma genuine_snoc: "genuine pl i p \<Longrightarrow> genuine (pl @ [q]) i p"
  by (auto simp: genuine_def nth_append)

lemma genuine_new: "genuine (pl @ [q]) (int (length pl) + 1) q"
  by (simp add: genuine_def)

lemma held_update: "w < length (po_relays P) \<Longrightarrow> held_rows (P\<lparr>po_relays := (po_relays P)[w := v]\<rparr>) \<subseteq> held_rows P \<union> set (held v)"
  by (auto simp: held_rows_def dest!: set_update_subset_insert [THEN subsetD])

lemma held_at: "w < length (po_relays P) \<Longrightarrow> r \<in> set (held (po_relays P ! w)) \<Longrightarrow> r \<in> held_rows P"
  by (auto simp: held_rows_def)

lemma held_frame [simp]:
  "held_rows (P\<lparr>po_table := T\<rparr>) = held_rows P" "held_rows (P\<lparr>po_sent := S\<rparr>) = held_rows P"
  by (simp_all add: held_rows_def)

lemma held_batch [simp]: "held (batch_state rows) = rows"
  by (simp add: batch_state_def)

lemma select_due_set: "set (select_due n now T) \<subseteq> {r \<in> set (ob_rows T). due now r}"
  unfolding select_due_def by (auto dest!: in_set_takeD)

lemma retry_row_id [simp]: "ob_id (retry_row t r) = ob_id r" "ob_payload (retry_row t r) = ob_payload r"
  by (simp_all add: retry_row_def)

lemma settle_rows:
  "r' \<in> set (ob_rows (settle r out now T)) \<Longrightarrow> \<exists>r0 \<in> set (ob_rows T). ob_id r0 = ob_id r' \<and> ob_payload r0 = ob_payload r'"
  by (cases out) (auto simp: settle_def mark_delivered_def mark_failed_for_retry_def retry_row_def split: if_splits)

lemma same_ids: "(\<And>r. ob_id (f r) = ob_id r) \<Longrightarrow> ob_id ` set (map f rows) = ob_id ` set rows"
  by (induction rows) auto

lemma retry_ids: "ob_id ` set (ob_rows (mark_failed_for_retry i delay now T)) = ob_id ` set (ob_rows T)"
proof -
  have "ob_rows (mark_failed_for_retry i delay now T) = map (\<lambda>r. if ob_id r = i then retry_row (now + of_int delay) r else r) (ob_rows T)"
    by (simp add: mark_failed_for_retry_def)
  then show ?thesis by (simp only:) (rule same_ids, simp)
qed

lemma settle_ids: "ob_id ` set (ob_rows (settle r out now T)) = ob_id ` set (ob_rows T) - (if out = Sent then {ob_id r} else {})"
proof (cases out)
  case Sent
  then show ?thesis by (auto simp: settle_def mark_delivered_def)
qed (simp_all add: settle_def retry_ids)

lemma settle_next [simp]: "ob_next (settle r out now T) = ob_next T"
  by (cases out) (simp_all add: settle_def mark_delivered_def mark_failed_for_retry_def)

lemma claim_rows_facts [simp]:
  "ob_next (fst (claim_rows ids T)) = ob_next T" "ob_id ` set (ob_rows (fst (claim_rows ids T))) = ob_id ` set (ob_rows T)"
proof -
  show "ob_next (fst (claim_rows ids T)) = ob_next T" by (simp add: claim_rows_def)
  show "ob_id ` set (ob_rows (fst (claim_rows ids T))) = ob_id ` set (ob_rows T)"
  proof -
    have "ob_rows (fst (claim_rows ids T)) = map (\<lambda>r. if claimable ids r then r\<lparr>ob_status := PROCESSING\<rparr> else r) (ob_rows T)"
      by (simp add: claim_rows_def)
    then show ?thesis by (simp only:) (rule same_ids, simp)
  qed
qed

lemma claim_rows_set:
  "r' \<in> set (ob_rows (fst (claim_rows ids T))) \<Longrightarrow> \<exists>r0 \<in> set (ob_rows T). ob_id r0 = ob_id r' \<and> ob_payload r0 = ob_payload r'"
  by (auto simp: claim_rows_def split: if_splits)

lemma office_okI:
  assumes "office_ok pl P" "ob_next T = ob_next (po_table P)"
    and "\<And>r. r \<in> set (ob_rows T) \<Longrightarrow> \<exists>r0 \<in> set (ob_rows (po_table P)). ob_id r0 = ob_id r \<and> ob_payload r0 = ob_payload r"
    and "ob_id ` set (ob_rows (po_table P)) \<subseteq> ob_id ` set (ob_rows T) \<union> fst ` set S"
    and "\<And>i p. (i, p) \<in> set S \<Longrightarrow> genuine pl i p"
    and "\<And>v r. v \<in> set R \<Longrightarrow> r \<in> set (held v) \<Longrightarrow> \<exists>r0 \<in> set (ob_rows (po_table P)) \<union> held_rows P. ob_id r0 = ob_id r \<and> ob_payload r0 = ob_payload r"
  shows "office_ok pl \<lparr>po_table = T, po_relays = R, po_sent = po_sent P @ S\<rparr>"
  unfolding office_ok_def
proof (intro conjI)
  let ?P = "\<lparr>po_table = T, po_relays = R, po_sent = po_sent P @ S\<rparr>"
  show "ob_next (po_table ?P) = int (length pl) + 1" using assms(1,2) by (simp add: office_ok_def)
  show "\<forall>r \<in> set (ob_rows (po_table ?P)) \<union> held_rows ?P. genuine_row pl r"
  proof
    fix r assume "r \<in> set (ob_rows (po_table ?P)) \<union> held_rows ?P"
    then obtain r0 where "r0 \<in> set (ob_rows (po_table P)) \<union> held_rows P" "ob_id r0 = ob_id r" "ob_payload r0 = ob_payload r"
      using assms(3) [of r] assms(6) [of _ r] unfolding held_rows_def [of ?P] by auto
    moreover from this(1) have "genuine_row pl r0" using assms(1) unfolding office_ok_def by blast
    ultimately show "genuine_row pl r" by (simp add: genuine_row_def)
  qed
  show "\<forall>(i, p) \<in> set (po_sent ?P). genuine pl i p" using assms(1,5) by (auto simp: office_ok_def)
  show "\<forall>i. 1 \<le> i \<and> i \<le> int (length pl) \<longrightarrow> i \<in> ob_id ` set (ob_rows (po_table ?P)) \<or> i \<in> fst ` set (po_sent ?P)"
    using assms(1,4) unfolding office_ok_def by (simp add: image_Un) blast
qed

lemma relays_update: "u \<in> set ((po_relays P)[k := v]) \<Longrightarrow> u = v \<or> u \<in> set (po_relays P)"
  by (auto dest!: set_update_subset_insert [THEN subsetD])

lemma held_in: "u \<in> set (po_relays P) \<Longrightarrow> r \<in> set (held u) \<Longrightarrow> r \<in> held_rows P"
  by (auto simp: held_rows_def)

lemma office_ok_select: "office_ok pl P \<Longrightarrow> office_ok pl (relay_select w n now P)"
proof (cases "select_due n now (po_table P)")
  case (Cons a rows)
  assume ok: "office_ok pl P"
  have "office_ok pl \<lparr>po_table = po_table P, po_relays = (po_relays P)[w := Selected (a # rows)], po_sent = po_sent P @ []\<rparr>"
    using select_due_set [of n now "po_table P"] Cons
    by (intro office_okI [OF ok]) (fastforce dest!: relays_update dest: held_in)+
  then show ?thesis using Cons by (cases P) (simp add: relay_select_def)
qed (simp add: relay_select_def)

lemma office_ok_claim:
  assumes "office_ok pl P" "w < length (po_relays P)" "po_relays P ! w = Selected rows"
  shows "office_ok pl (relay_claim w rows P)"
proof -
  let ?c = "claim_rows (map ob_id rows) (po_table P)"
  have "r \<in> held_rows P" if "r \<in> set rows" for r using held_at [OF assms(2)] assms(3) that by simp
  then have "office_ok pl \<lparr>po_table = fst ?c, po_relays = (po_relays P)[w := batch_state (as_claimed (snd ?c) rows)], po_sent = po_sent P @ []\<rparr>"
    by (intro office_okI [OF assms(1)])
      (fastforce simp: as_claimed_def dest: claim_rows_set held_in dest!: relays_update in_set_takeD)+
  then show ?thesis by (cases P) (simp add: relay_claim_def split_beta)
qed

lemma office_ok_finish:
  assumes "office_ok pl P" "w < length (po_relays P)" "po_relays P ! w = Holding (r # rows)"
  shows "office_ok pl (relay_finish w r rows out now P)"
proof -
  have h: "x \<in> held_rows P" if "x \<in> set (r # rows)" for x using held_at [OF assms(2)] assms(3) that by simp
  then have g: "genuine pl (ob_id r) (ob_payload r)" using assms(1) by (auto simp: office_ok_def genuine_row_def)
  have "office_ok pl \<lparr>po_table = settle r out now (po_table P), po_relays = (po_relays P)[w := batch_state rows], po_sent = po_sent P @ sent_by r out\<rparr>"
    using h g settle_ids [of r out now "po_table P"]
    by (intro office_okI [OF assms(1)]) (auto simp: sent_by_def dest: settle_rows held_in dest!: relays_update split: if_splits)
  then show ?thesis by (cases P) (simp add: relay_finish_def)
qed

lemma office_ok_crash: "office_ok pl P \<Longrightarrow> office_ok pl (P\<lparr>po_relays := (po_relays P)[w := Idle]\<rparr>)"
proof -
  assume ok: "office_ok pl P"
  have "office_ok pl \<lparr>po_table = po_table P, po_relays = (po_relays P)[w := Idle], po_sent = po_sent P @ []\<rparr>"
    by (intro office_okI [OF ok]) (auto dest!: relays_update dest: held_in)
  then show ?thesis by (cases P) simp
qed

lemma office_ok_insert: "office_ok pl P \<Longrightarrow> office_ok (pl @ [q]) (P\<lparr>po_table := insert_alert q prio now (po_table P)\<rparr>)"
proof -
  assume ok: "office_ok pl P"
  let ?T = "insert_alert q prio now (po_table P)"
  have rows: "\<forall>r \<in> set (ob_rows ?T) \<union> held_rows P. genuine_row (pl @ [q]) r"
    using ok by (auto simp: office_ok_def genuine_row_def insert_alert_def genuine_new intro: genuine_snoc)
  have "i \<in> ob_id ` set (ob_rows ?T) \<or> i \<in> fst ` set (po_sent P)" if "1 \<le> i" "i \<le> int (length (pl @ [q]))" for i
  proof (cases "i = int (length pl) + 1")
    case False
    with that have "1 \<le> i" "i \<le> int (length pl)" by auto
    with ok have "i \<in> ob_id ` set (ob_rows (po_table P)) \<or> i \<in> fst ` set (po_sent P)" unfolding office_ok_def by blast
    then show ?thesis by (auto simp: insert_alert_def)
  qed (use ok in \<open>simp add: office_ok_def insert_alert_def\<close>)
  with ok rows show ?thesis by (auto simp: office_ok_def insert_alert_def intro: genuine_snoc)
qed

lemma office_ok_step: "office_ok pl P \<Longrightarrow> office_ok (pl @ insert_payload ev) (office_step ev P)"
  by (cases ev)
    (auto simp: office_ok_insert office_ok_select office_ok_claim office_ok_finish office_ok_crash
      split: relay.split list.split)

lemma office_ok_run: "office_ok pl P \<Longrightarrow> office_ok (pl @ inserts evs) (fold office_step evs P)"
proof (induction evs arbitrary: pl P)
  case (Cons ev evs)
  from Cons.IH [OF office_ok_step [OF Cons.prems, of ev]] show ?case by (simp add: inserts_def)
qed (simp add: inserts_def)

text \<open>C28: no alert is lost.  Whatever the relays do - any number of them, in any interleaving of
  selections, claims, deliveries, failures and crashes - every alert ever inserted is still
  a row of the table or was sent with its own payload, and nothing else is ever sent.\<close>

theorem alerts_never_lost:
  assumes "P = fold office_step evs (office_init n)" "1 \<le> i" "i \<le> int (length (inserts evs))"
  shows "(i \<in> ob_id ` set (ob_rows (po_table P)) \<or> (i, inserts evs ! nat (i - 1)) \<in> set (po_sent P))
    \<and> (\<forall>(j, p) \<in> set (po_sent P). 1 \<le> j \<and> j \<le> int (length (inserts evs)) \<and> p = inserts evs ! nat (j - 1))"
proof (rule conjI)
  have "office_ok [] (office_init n)"
    by (auto simp: office_ok_def office_init_def held_rows_def)
  from office_ok_run [OF this, of evs] have ok: "office_ok (inserts evs) P" by (simp add: assms(1))
  then show "\<forall>(j, p) \<in> set (po_sent P). 1 \<le> j \<and> j \<le> int (length (inserts evs)) \<and> p = inserts evs ! nat (j - 1)"
    by (auto simp: office_ok_def genuine_def)
  from ok consider "i \<in> ob_id ` set (ob_rows (po_table P))" | p where "(i, p) \<in> set (po_sent P)"
  proof -
    have "i \<in> ob_id ` set (ob_rows (po_table P)) \<or> i \<in> fst ` set (po_sent P)"
      using ok assms(2,3) unfolding office_ok_def by blast
    then show ?thesis using that by (cases "i \<in> fst ` set (po_sent P)") auto
  qed
  then show "i \<in> ob_id ` set (ob_rows (po_table P)) \<or> (i, inserts evs ! nat (i - 1)) \<in> set (po_sent P)"
  proof cases
    case 2
    with ok have "genuine (inserts evs) i p" by (auto simp: office_ok_def)
    with 2 show ?thesis by (simp add: genuine_def)
  qed simp
qed

theorem alerts_never_lost_witness:
  "1 \<in> ob_id ` set (ob_rows (po_table (fold office_step [Insert ''x'' 1 0, Crash 0] (office_init 1))))
    \<or> (1, ''x'') \<in> set (po_sent (fold office_step [Insert ''x'' 1 0, Crash 0] (office_init 1)))"
  using alerts_never_lost [OF refl, of 1 "[Insert ''x'' 1 0, Crash 0]" 1] by (simp add: inserts_def)

section \<open>A round of one relay\<close>

lemma select_due_distinct:
  assumes "distinct (map ob_id (ob_rows T))"
  shows "distinct (select_due n now T)" "inj_on ob_id (set (ob_rows T))"
proof -
  have "distinct (filter (due now) (ob_rows T))" using assms by (simp add: distinct_map)
  moreover have "mset (sort_key ob_priority (sort_key ob_created (filter (due now) (ob_rows T)))) = mset (filter (due now) (ob_rows T))"
    by simp
  ultimately have "distinct (sort_key ob_priority (sort_key ob_created (filter (due now) (ob_rows T))))"
    using mset_eq_imp_distinct_iff by blast
  then show "distinct (select_due n now T)" by (simp add: select_due_def)
  show "inj_on ob_id (set (ob_rows T))" using assms by (simp add: distinct_map)
qed

lemma claim_all:
  assumes "distinct (map ob_id (ob_rows T))"
  shows "snd (claim_rows (map ob_id (select_due n now T)) T) = length (select_due n now T)"
proof -
  let ?rows = "select_due n now T"
  note sel = select_due_set [of n now T] and inj = select_due_distinct [OF assms]
  have "set (filter (claimable (map ob_id ?rows)) (ob_rows T)) = set ?rows"
  proof
    show "set (filter (claimable (map ob_id ?rows)) (ob_rows T)) \<subseteq> set ?rows"
    proof
      fix r assume "r \<in> set (filter (claimable (map ob_id ?rows)) (ob_rows T))"
      then obtain r' where "r' \<in> set ?rows" "ob_id r' = ob_id r" "r \<in> set (ob_rows T)" by (auto simp: claimable_def)
      with sel inj(2) show "r \<in> set ?rows" by (auto dest: inj_onD)
    qed
    show "set ?rows \<subseteq> set (filter (claimable (map ob_id ?rows)) (ob_rows T))"
      using sel by (auto simp: claimable_def due_def)
  qed
  moreover have "distinct (filter (claimable (map ob_id ?rows)) (ob_rows T))" using assms by (simp add: distinct_map)
  ultimately have "length (filter (claimable (map ob_id ?rows)) (ob_rows T)) = card (set ?rows)"
    using distinct_card by metis
  also have "\<dots> = length ?rows" using inj(1) by (rule distinct_card)
  finally show ?thesis by (simp add: claim_rows_def)
qed

definition pairs :: "outbox_row list \<Rightarrow> (int \<times> string) list" where
  "pairs rows = map (\<lambda>r. (ob_id r, ob_payload r)) rows"

lemma finish_all:
  "po_relays P = [batch_state rows] \<Longrightarrow>
    fold office_step (map (\<lambda>r. Finish 0 Sent t) rows) P =
      P\<lparr>po_table := (po_table P)\<lparr>ob_rows := filter (\<lambda>r. ob_id r \<notin> ob_id ` set rows) (ob_rows (po_table P))\<rparr>,
        po_sent := po_sent P @ pairs rows, po_relays := [Idle]\<rparr>"
proof (induction rows arbitrary: P)
  case (Cons r rows)
  let ?P = "office_step (Finish 0 Sent t) P"
  have P: "?P = P\<lparr>po_table := mark_delivered (ob_id r) (po_table P), po_sent := po_sent P @ [(ob_id r, ob_payload r)],
      po_relays := [batch_state rows]\<rparr>"
    using Cons.prems by (simp add: relay_finish_def settle_def sent_by_def batch_state_def)
  have "po_relays ?P = [batch_state rows]" unfolding P by simp
  from Cons.IH [OF this] show ?case
    unfolding list.map fold_simps P by (simp add: mark_delivered_def pairs_def conj_commute)
qed (simp add: batch_state_def pairs_def)

lemma filter_claimed:
  "set ids \<subseteq> S \<Longrightarrow> filter (\<lambda>r. ob_id r \<notin> S) (map (\<lambda>r. if claimable ids r then r\<lparr>ob_status := PROCESSING\<rparr> else r) rows)
    = filter (\<lambda>r. ob_id r \<notin> S) rows"
  by (induction rows) (auto simp: claimable_def)

text \<open>A round of a lone relay delivers what was due: the pending rows whose time has come, at most
  the batch size, the urgent before the less urgent and the old before the young, are
  claimed, sent once each with their payloads and deleted; every other row stays.\<close>

theorem round_delivers_due:
  fixes n :: nat and now t :: time
  assumes "po_relays P = [Idle]" "distinct (map ob_id (ob_rows (po_table P)))"
  defines "rows \<equiv> select_due n now (po_table P)"
  defines "P' \<equiv> fold office_step (Select 0 n now # Claim 0 # map (\<lambda>r. Finish 0 Sent t) rows) P"
  shows "po_sent P' = po_sent P @ pairs rows \<and> po_relays P' = [Idle]
    \<and> ob_rows (po_table P') = filter (\<lambda>r. ob_id r \<notin> ob_id ` set rows) (ob_rows (po_table P))"
proof (cases "rows = []")
  case True
  then show ?thesis using assms(1) by (simp add: P'_def rows_def relay_select_def pairs_def)
next
  case False
  let ?ids = "map ob_id rows"
  let ?P1 = "relay_claim 0 rows (P\<lparr>po_relays := [Selected rows]\<rparr>)"
  have "fold office_step [Select 0 n now, Claim 0] P = ?P1"
    using False assms(1) by (simp add: rows_def relay_select_def split: list.split)
  then have P': "P' = fold office_step (map (\<lambda>r. Finish 0 Sent t) rows) ?P1" by (simp add: P'_def)
  have n: "snd (claim_rows ?ids (po_table P)) = length rows" unfolding rows_def by (rule claim_all [OF assms(2)])
  let ?rows = "as_claimed (length rows) rows"
  have relays: "po_relays ?P1 = [batch_state ?rows]" using n by (simp add: relay_claim_def split_beta)
  have same: "map (\<lambda>r. Finish 0 Sent t) rows = map (\<lambda>r. Finish 0 Sent t) ?rows"
    "pairs ?rows = pairs rows" "ob_id ` set ?rows = ob_id ` set rows"
    by (simp_all add: as_claimed_def pairs_def comp_def image_image)
  have rest: "filter (\<lambda>r. ob_id r \<notin> ob_id ` set rows) (ob_rows (fst (claim_rows ?ids (po_table P))))
    = filter (\<lambda>r. ob_id r \<notin> ob_id ` set rows) (ob_rows (po_table P))"
    unfolding claim_rows_def by (simp add: filter_claimed)
  show ?thesis
    unfolding P' same(1) finish_all [OF relays] by (simp add: same rest) (simp add: relay_claim_def split_beta rest)
qed

theorem round_delivers_due_witness:
  "po_sent (fold office_step [Select 0 5 9, Claim 0, Finish 0 Sent 9, Finish 0 Sent 9]
     (fold office_step [Insert ''late'' 5 0, Insert ''now'' 1 1, Insert ''never'' 1 99] (office_init 1)))
   = [(2, ''now''), (1, ''late'')]"
proof -
  let ?P = "fold office_step [Insert ''late'' 5 0, Insert ''now'' 1 1, Insert ''never'' 1 99] (office_init 1)"
  have P: "?P = \<lparr>po_table = \<lparr>ob_rows =
      [\<lparr>ob_id = 1, ob_payload = ''late'', ob_priority = 5, ob_status = PENDING, ob_created = 0, ob_execute_after = 0, ob_retries = 0\<rparr>,
       \<lparr>ob_id = 2, ob_payload = ''now'', ob_priority = 1, ob_status = PENDING, ob_created = 1, ob_execute_after = 1, ob_retries = 0\<rparr>,
       \<lparr>ob_id = 3, ob_payload = ''never'', ob_priority = 1, ob_status = PENDING, ob_created = 99, ob_execute_after = 99, ob_retries = 0\<rparr>],
       ob_next = 4\<rparr>, po_relays = [Idle], po_sent = []\<rparr>"
    by (simp add: office_init_def insert_alert_def)
  have rows: "map (\<lambda>r. (ob_id r, ob_payload r)) (select_due 5 9 (po_table ?P)) = [(2, ''now''), (1, ''late'')]"
    "length (select_due 5 9 (po_table ?P)) = 2"
    unfolding P by (simp_all add: select_due_def due_def)
  from rows(2) have "map (\<lambda>r. Finish 0 Sent 9) (select_due 5 9 (po_table ?P)) = [Finish 0 Sent 9, Finish 0 Sent 9]"
    by (simp add: numeral_2_eq_2 length_Suc_conv) auto
  with round_delivers_due [of ?P 5 9 9] rows(1) show ?thesis unfolding P by (simp add: pairs_def)
qed

section \<open>Where the relays go wrong\<close>

text \<open>A row that is marked as claimed while no relay knows of it.\<close>

definition stranded_row :: "int \<Rightarrow> post_office \<Rightarrow> bool" where
  "stranded_row i P \<longleftrightarrow> i < ob_next (po_table P) \<and> i \<in> ob_id ` set (ob_rows (po_table P))
     \<and> (\<forall>r \<in> set (ob_rows (po_table P)). ob_id r = i \<longrightarrow> ob_status r = PROCESSING)
     \<and> i \<notin> ob_id ` held_rows P"

definition sends_of :: "int \<Rightarrow> post_office \<Rightarrow> nat" where
  "sends_of i P = length (filter (\<lambda>m. fst m = i) (po_sent P))"

lemma stranded_other:
  assumes "stranded_row i P" "i \<notin> ob_id ` set (held v)"
  shows "stranded_row i (P\<lparr>po_relays := (po_relays P)[w := v]\<rparr>)"
  using assms by (auto simp: stranded_row_def held_rows_def dest!: relays_update)

lemma stranded_table:
  assumes "stranded_row i P" "ob_next T = ob_next (po_table P)"
    and "\<And>r. ob_id r = i \<Longrightarrow> r \<in> set (ob_rows T) \<longleftrightarrow> r \<in> set (ob_rows (po_table P))"
  shows "stranded_row i (P\<lparr>po_table := T\<rparr>)"
  using assms unfolding stranded_row_def by (auto simp: image_iff)

lemma stranded_sent: "stranded_row i (P\<lparr>po_sent := S\<rparr>) = stranded_row i P"
  by (simp add: stranded_row_def)

lemma settle_other:
  "ob_id r \<noteq> ob_id x \<Longrightarrow> r \<in> set (ob_rows (settle x out now T)) \<longleftrightarrow> r \<in> set (ob_rows T)"
  by (cases out) (auto simp: settle_def mark_delivered_def mark_failed_for_retry_def image_iff split: if_splits)

lemma claim_other:
  "ob_id r \<notin> set ids \<Longrightarrow> r \<in> set (ob_rows (fst (claim_rows ids T))) \<longleftrightarrow> r \<in> set (ob_rows T)"
  by (auto simp: claim_rows_def claimable_def image_iff split: if_splits)

lemma stranded_select: "stranded_row i P \<Longrightarrow> stranded_row i (relay_select w n now P)"
proof (cases "select_due n now (po_table P)")
  case (Cons a rows)
  assume s: "stranded_row i P"
  have "i \<notin> ob_id ` set (select_due n now (po_table P))"
    using s select_due_set [of n now "po_table P"] by (fastforce simp: stranded_row_def due_def)
  with Cons s show ?thesis by (simp add: relay_select_def stranded_other)
qed (simp add: relay_select_def)

lemma stranded_claim:
  assumes "stranded_row i P" "w < length (po_relays P)" "po_relays P ! w = Selected rows"
  shows "stranded_row i (relay_claim w rows P)"
proof -
  let ?c = "claim_rows (map ob_id rows) (po_table P)"
  have i: "i \<notin> ob_id ` set rows"
    using assms(1) held_at [OF assms(2)] assms(3) by (auto simp: stranded_row_def)
  then have "stranded_row i (P\<lparr>po_table := fst ?c\<rparr>)"
    by (intro stranded_table [OF assms(1)]) (auto simp: claim_other)
  moreover have "i \<notin> ob_id ` set (held (batch_state (as_claimed (snd ?c) rows)))"
    using i by (auto simp: as_claimed_def dest: in_set_takeD)
  ultimately have "stranded_row i ((P\<lparr>po_table := fst ?c\<rparr>)\<lparr>po_relays := (po_relays (P\<lparr>po_table := fst ?c\<rparr>))[w := batch_state (as_claimed (snd ?c) rows)]\<rparr>)"
    by (rule stranded_other)
  then show ?thesis by (simp add: relay_claim_def split_beta)
qed

lemma stranded_finish:
  assumes "stranded_row i P" "w < length (po_relays P)" "po_relays P ! w = Holding (r # rows)"
  shows "stranded_row i (relay_finish w r rows out now P) \<and> sends_of i (relay_finish w r rows out now P) = sends_of i P"
proof -
  have i: "i \<noteq> ob_id r" "i \<notin> ob_id ` set rows"
    using assms(1) held_at [OF assms(2)] assms(3) by (auto simp: stranded_row_def)
  have "stranded_row i (P\<lparr>po_table := settle r out now (po_table P)\<rparr>)"
    using i by (intro stranded_table [OF assms(1)]) (auto simp: settle_other)
  then have "stranded_row i (P\<lparr>po_table := settle r out now (po_table P), po_sent := po_sent P @ sent_by r out\<rparr>)"
    by (simp add: stranded_sent)
  from stranded_other [OF this, of "batch_state rows" w] i show ?thesis
    by (simp add: relay_finish_def sends_of_def sent_by_def)
qed

lemma stranded_step:
  assumes "stranded_row i P"
  shows "stranded_row i (office_step ev P) \<and> sends_of i (office_step ev P) = sends_of i P"
proof (cases ev)
  case (Insert payload priority now)
  have "stranded_row i (P\<lparr>po_table := insert_alert payload priority now (po_table P)\<rparr>)"
    using assms by (auto simp: stranded_row_def insert_alert_def)
  then show ?thesis by (simp add: Insert sends_of_def)
next
  case (Select w n now)
  then show ?thesis using assms stranded_select [OF assms]
    by (auto simp: sends_of_def relay_select_def split: relay.split list.split)
next
  case (Claim w)
  then show ?thesis using assms stranded_claim [OF assms]
    by (auto simp: sends_of_def relay_claim_def split_beta split: relay.split)
next
  case (Finish w out now)
  then show ?thesis using assms stranded_finish [OF assms] by (auto split: relay.split list.split)
next
  case (Crash w)
  then show ?thesis using stranded_other [OF assms, of Idle w] by (simp add: sends_of_def)
qed

lemma stranded_run: "stranded_row i P \<Longrightarrow>
    stranded_row i (fold office_step evs P) \<and> sends_of i (fold office_step evs P) = sends_of i P"
proof (induction evs arbitrary: P)
  case (Cons ev evs)
  from stranded_step [OF Cons.prems, of ev] Cons.IH [of "office_step ev P"] show ?case by simp
qed simp

text \<open>A claimed alert does not survive its relay.  When a lone relay crashes after its claim, the
  rows of its batch stay marked as claimed for ever and are never sent: nothing selects a
  claimed row, however many relays run afterwards.\<close>

theorem crash_strands_batch:
  assumes "office_ok pl P" "po_relays P = [Holding rows]"
    and "\<forall>x \<in> set (ob_rows (po_table P)). ob_id x = i \<longrightarrow> ob_status x = PROCESSING" "i \<in> ob_id ` set (ob_rows (po_table P))"
  shows "i \<in> ob_id ` set (ob_rows (po_table (fold office_step (Crash 0 # evs) P)))
    \<and> sends_of i (fold office_step (Crash 0 # evs) P) = sends_of i P"
proof -
  have "i < ob_next (po_table P)" using assms(1,4) by (auto simp: office_ok_def genuine_row_def genuine_def)
  then have "stranded_row i (office_step (Crash 0) P)"
    using assms(2-4) by (auto simp: stranded_row_def held_rows_def)
  from stranded_run [OF this, of evs] show ?thesis by (simp add: stranded_row_def sends_of_def)
qed

theorem crash_strands_batch_witness:
  "sends_of 1 (fold office_step [Crash 0, Select 0 5 9, Claim 0, Finish 0 Sent 9]
    (fold office_step [Insert ''x'' 1 0, Select 0 5 1, Claim 0] (office_init 1))) = 0"
proof -
  let ?P = "fold office_step [Insert ''x'' 1 0, Select 0 5 1, Claim 0] (office_init 1)"
  have start: "office_ok [] (office_init 1)" by (auto simp: office_ok_def office_init_def held_rows_def)
  have "office_ok [''x''] ?P" using office_ok_run [OF start, of "[Insert ''x'' 1 0, Select 0 5 1, Claim 0]"] by (simp add: inserts_def)
  moreover have "?P = \<lparr>po_table = \<lparr>ob_rows = [\<lparr>ob_id = 1, ob_payload = ''x'', ob_priority = 1, ob_status = PROCESSING,
      ob_created = 0, ob_execute_after = 0, ob_retries = 0\<rparr>], ob_next = 2\<rparr>,
    po_relays = [Holding [\<lparr>ob_id = 1, ob_payload = ''x'', ob_priority = 1, ob_status = PROCESSING, ob_created = 0,
      ob_execute_after = 0, ob_retries = 0\<rparr>]], po_sent = []\<rparr>"
    by (simp add: office_init_def insert_alert_def relay_select_def select_due_def due_def relay_claim_def claim_rows_def
        claimable_def as_claimed_def batch_state_def)
  ultimately show ?thesis
    using crash_strands_batch [of "[''x'']" ?P _ 1 "[Select 0 5 9, Claim 0, Finish 0 Sent 9]"] by (simp add: sends_of_def)
qed

text \<open>Two relays that select before either claims mix up their rows.  The batch is cut by the
  number of rows the update changed, from the front: the relay that only won the second row
  takes the first one, which is then sent twice, while the second row is never sent.\<close>

theorem claim_race_duplicates:
  fixes x y :: string and prio :: int
  defines "race \<equiv> [Insert x prio 0, Insert y prio 0, Select 0 1 1, Select 1 2 1, Claim 0, Claim 1, Finish 0 Sent 2, Finish 1 Sent 2]"
  shows "po_sent (fold office_step race (office_init 2)) = [(1, x), (1, x)]
    \<and> stranded_row 2 (fold office_step race (office_init 2))"
  by (simp add: race_def office_init_def insert_alert_def relay_select_def select_due_def due_def relay_claim_def claim_rows_def
      claimable_def as_claimed_def batch_state_def relay_finish_def settle_def mark_delivered_def sent_by_def
      stranded_row_def held_rows_def numeral_2_eq_2)

end
