(* ===== verification/Signal_Store.thy ===== *)
theory Signal_Store
  imports Prelude "HOL-Library.AList"
begin

text \<open>
  The local signal repository (\<open>src/src/infrastructure/sqlite_outbox.py\<close>): the table of
  signals under a unique idempotency key, and the key-value table of system state.  A
  table is the list of its rows in insertion order, each SQL statement the operation it
  describes on that list.  \<open>dumps\<close> and \<open>loads\<close> stand for the JSON encoder and parser.
\<close>

section \<open>The tables\<close>

datatype signal_status = Sig_pending | Sig_sent | Sig_expired | Sig_failed

record signal_row =
  sg_id :: int
  sg_key :: string
  sg_symbol :: string
  sg_kind :: string
  sg_payload :: string
  sg_created :: time
  sg_expires :: time
  sg_status :: signal_status
  sg_retries :: int

record signal_db =
  sd_rows :: "signal_row list"
  sd_next :: int
  sd_state :: "(string \<times> string) list"

definition signal_db_init :: signal_db where
  "signal_db_init = \<lparr>sd_rows = [], sd_next = 1, sd_state = []\<rparr>"

text \<open>A second row under a key that is taken is refused by the table and dropped in silence.\<close>

definition save_signal :: "('p \<Rightarrow> string) \<Rightarrow> string \<Rightarrow> symbol \<Rightarrow> string \<Rightarrow> 'p \<Rightarrow> time \<Rightarrow> int \<Rightarrow> signal_db \<Rightarrow> signal_db" where
  "save_signal dumps key tok kind payload created ttl D =
     (if key \<in> set (map sg_key (sd_rows D)) then D
      else D\<lparr>sd_rows := sd_rows D @ [\<lparr>sg_id = sd_next D, sg_key = key, sg_symbol = tok, sg_kind = kind,
                sg_payload = dumps payload, sg_created = created, sg_expires = created + of_int ttl,
                sg_status = Sig_pending, sg_retries = 0\<rparr>],
              sd_next := sd_next D + 1\<rparr>)"

definition still_pending :: "signal_row \<Rightarrow> bool" where
  "still_pending r \<longleftrightarrow> sg_status r = Sig_pending"

definition get_pending_signals :: "(string \<Rightarrow> 'p) \<Rightarrow> signal_db \<Rightarrow> (signal_row \<times> 'p) list" where
  "get_pending_signals loads D =
     map (\<lambda>r. (r, loads (sg_payload r))) (sort_key sg_created (filter still_pending (sd_rows D)))"

definition mark_as_sent :: "int \<Rightarrow> signal_db \<Rightarrow> signal_db" where
  "mark_as_sent i D = D\<lparr>sd_rows := map (\<lambda>r. if sg_id r = i then r\<lparr>sg_status := Sig_sent\<rparr> else r) (sd_rows D)\<rparr>"

definition overdue :: "time \<Rightarrow> signal_row \<Rightarrow> bool" where
  "overdue now r \<longleftrightarrow> still_pending r \<and> sg_expires r < now"

text \<open>The rows past their expiry, and how many there were.\<close>

definition drop_expired :: "time \<Rightarrow> signal_db \<Rightarrow> signal_db \<times> nat" where
  "drop_expired now D =
     (D\<lparr>sd_rows := map (\<lambda>r. if overdue now r then r\<lparr>sg_status := Sig_expired\<rparr> else r) (sd_rows D)\<rparr>,
      length (filter (overdue now) (sd_rows D)))"

definition upsert_system_state :: "string \<Rightarrow> string \<Rightarrow> signal_db \<Rightarrow> signal_db" where
  "upsert_system_state key v D = D\<lparr>sd_state := AList.update key v (sd_state D)\<rparr>"

definition get_system_state :: "string \<Rightarrow> signal_db \<Rightarrow> string option" where
  "get_system_state key D = map_of (sd_state D) key"

datatype 'p signal_op =
    Save string symbol string 'p time int
  | Sent_op int
  | Drop time
  | Upsert string string

fun signal_step :: "('p \<Rightarrow> string) \<Rightarrow> 'p signal_op \<Rightarrow> signal_db \<Rightarrow> signal_db" where
  "signal_step dumps (Save key tok kind payload created ttl) D = save_signal dumps key tok kind payload created ttl D"
| "signal_step dumps (Sent_op i) D = mark_as_sent i D"
| "signal_step dumps (Drop now) D = fst (drop_expired now D)"
| "signal_step dumps (Upsert key v) D = upsert_system_state key v D"

section \<open>One row per key\<close>

text \<open>What a row keeps for good; only its status is ever updated.\<close>

definition row_content :: "signal_row \<Rightarrow> int \<times> string \<times> string \<times> time \<times> time" where
  "row_content r = (sg_id r, sg_key r, sg_payload r, sg_created r, sg_expires r)"

definition signals_ok :: "signal_db \<Rightarrow> bool" where
  "signals_ok D \<longleftrightarrow> distinct (map sg_key (sd_rows D)) \<and> distinct (map sg_id (sd_rows D))
     \<and> (\<forall>r \<in> set (sd_rows D). sg_id r < sd_next D)"

lemma content_key: "map row_content rows = map row_content rows' \<Longrightarrow> map sg_key rows = map sg_key rows'"
  "map row_content rows = map row_content rows' \<Longrightarrow> map sg_id rows = map sg_id rows'"
  by (auto simp: row_content_def list_eq_iff_nth_eq dest!: map_eq_imp_length_eq)

lemma update_content [simp]:
  "map row_content (sd_rows (mark_as_sent i D)) = map row_content (sd_rows D)"
  "map row_content (sd_rows (fst (drop_expired now D))) = map row_content (sd_rows D)"
  by (simp_all add: mark_as_sent_def drop_expired_def row_content_def)

text \<open>Every operation appends at most a fresh row and keeps the content of the others.\<close>

lemma step_content:
  assumes "signals_ok D"
  shows "\<exists>new. map row_content (sd_rows (signal_step dumps ev D)) = map row_content (sd_rows D) @ new"
  using assms by (cases ev) (auto simp: save_signal_def upsert_system_state_def)

lemma signals_ok_content:
  assumes "signals_ok D" "map row_content (sd_rows D') = map row_content (sd_rows D)" "sd_next D' = sd_next D"
  shows "signals_ok D'"
proof -
  have "sg_id ` set (sd_rows D') = sg_id ` set (sd_rows D)"
    using content_key(2) [OF assms(2)] by (metis set_map)
  with assms(1,3) content_key [OF assms(2)] show ?thesis
    unfolding signals_ok_def by (metis (mono_tags, lifting) image_iff)
qed

lemma signals_ok_save: "signals_ok D \<Longrightarrow> signals_ok (save_signal dumps key tok kind payload created ttl D)"
  by (fastforce simp: signals_ok_def save_signal_def)

lemma update_next [simp]:
  "sd_next (mark_as_sent i D) = sd_next D" "sd_next (fst (drop_expired now D)) = sd_next D"
  by (simp_all add: mark_as_sent_def drop_expired_def)

lemma signals_ok_upsert [simp]: "signals_ok (upsert_system_state key v D) = signals_ok D"
  by (simp add: signals_ok_def upsert_system_state_def)

lemma signals_ok_step: "signals_ok D \<Longrightarrow> signals_ok (signal_step dumps ev D)"
  by (cases ev) (simp_all add: signals_ok_save signals_ok_content [OF _ update_content(1)]
      signals_ok_content [OF _ update_content(2)])

lemma signals_ok_run: "signals_ok D \<Longrightarrow> signals_ok (fold (signal_step dumps) evs D)"
  by (induction evs arbitrary: D) (simp_all add: signals_ok_step)

lemma run_content: "signals_ok D \<Longrightarrow>
    \<exists>new. map row_content (sd_rows (fold (signal_step dumps) evs D)) = map row_content (sd_rows D) @ new"
proof (induction evs arbitrary: D)
  case (Cons ev evs)
  obtain new where new: "map row_content (sd_rows (signal_step dumps ev D)) = map row_content (sd_rows D) @ new"
    using step_content [OF Cons.prems] by blast
  obtain new' where "map row_content (sd_rows (fold (signal_step dumps) evs (signal_step dumps ev D)))
      = map row_content (sd_rows (signal_step dumps ev D)) @ new'"
    using Cons.IH [OF signals_ok_step [OF Cons.prems]] by blast
  then show ?case by (simp add: new)
qed simp

lemma keyed_once: "distinct (map f xs) \<Longrightarrow> x \<in> set xs \<Longrightarrow> filter (\<lambda>y. f y = f x) xs = [x]"
  by (induction xs) (auto simp: filter_empty_conv rev_image_eqI image_iff)

text \<open>A signal is stored once.  The first save under a key stands: whatever operations come
  before and after, saves under the same key with another row_content included, the table
  holds one row for the key, with the payload, the creation and the expiry of the first save.\<close>

theorem first_signal_stands:
  fixes dumps :: "'p \<Rightarrow> string" and created :: time
  defines "D \<equiv> \<lambda>before. fold (signal_step dumps) before signal_db_init"
  assumes "key \<notin> set (map sg_key (sd_rows (D before)))"
  shows "\<exists>r. filter (\<lambda>x. sg_key x = key)
        (sd_rows (fold (signal_step dumps) (before @ Save key tok kind payload created ttl # after) signal_db_init)) = [r]
    \<and> sg_payload r = dumps payload \<and> sg_created r = created \<and> sg_expires r = created + of_int ttl"
proof -
  let ?D1 = "save_signal dumps key tok kind payload created ttl (D before)"
  let ?D2 = "fold (signal_step dumps) after ?D1"
  have ok: "signals_ok ?D1" unfolding D_def
    by (intro signals_ok_save signals_ok_run) (simp add: signals_ok_def signal_db_init_def)
  obtain new where new: "map row_content (sd_rows ?D2) = map row_content (sd_rows ?D1) @ new"
    using run_content [OF ok] by blast
  have "(sd_next (D before), key, dumps payload, created, created + of_int ttl) \<in> set (map row_content (sd_rows ?D1))"
    using assms(2) by (auto simp: save_signal_def row_content_def)
  with new have "(sd_next (D before), key, dumps payload, created, created + of_int ttl) \<in> set (map row_content (sd_rows ?D2))"
    by (metis Un_iff set_append)
  then obtain r where r: "r \<in> set (sd_rows ?D2)" "sg_key r = key" "sg_payload r = dumps payload" "sg_created r = created"
      "sg_expires r = created + of_int ttl"
    by (auto simp: row_content_def)
  from keyed_once [OF signals_ok_run [OF ok, unfolded signals_ok_def, THEN conjunct1] r(1)] r show ?thesis by (auto simp: D_def)
qed

theorem first_signal_stands_witness:
  "\<exists>r. filter (\<lambda>x. sg_key x = ''k'')
      (sd_rows (fold (signal_step id) ([] @ Save ''k'' ''BTC'' ''x'' ''first'' 5 30 # [Save ''k'' ''BTC'' ''x'' ''second'' 6 99, Drop 40])
        signal_db_init)) = [r]
    \<and> sg_payload r = id ''first'' \<and> sg_created r = 5 \<and> sg_expires r = 5 + of_int 30"
  by (rule first_signal_stands [of "''k''" id "[]" "''BTC''" "''x''" "''first''" 5 30]) (simp add: signal_db_init_def)

section \<open>What is pending\<close>

lemma pending_exact: "map fst (get_pending_signals loads D) = sort_key sg_created (filter still_pending (sd_rows D))"
  by (simp add: get_pending_signals_def comp_def)

lemma pending_dropped: "filter still_pending (map (\<lambda>r. if overdue now r then r\<lparr>sg_status := Sig_expired\<rparr> else r) rows)
    = filter (\<lambda>r. still_pending r \<and> \<not> sg_expires r < now) rows"
  by (induction rows) (auto simp: overdue_def still_pending_def)

lemma pending_split: "length (filter still_pending rows)
    = length (filter (\<lambda>r. still_pending r \<and> \<not> sg_expires r < now) rows) + length (filter (overdue now) rows)"
  by (induction rows) (auto simp: overdue_def)

text \<open>After the expired signals are dropped, what is handed out has not expired, in the order it was
  created; the count is what the drop took out.\<close>

theorem pending_after_drop:
  fixes now :: time and D :: signal_db
  defines "D' \<equiv> fst (drop_expired now D)"
  shows "(\<forall>(r, p) \<in> set (get_pending_signals loads D'). now \<le> sg_expires r \<and> p = loads (sg_payload r))
    \<and> sorted (map (sg_created \<circ> fst) (get_pending_signals loads D'))
    \<and> length (get_pending_signals loads D) = length (get_pending_signals loads D') + snd (drop_expired now D)"
proof (intro conjI)
  have pend: "filter still_pending (sd_rows D') = filter (\<lambda>r. still_pending r \<and> \<not> sg_expires r < now) (sd_rows D)"
    by (simp add: D'_def drop_expired_def pending_dropped)
  show "\<forall>(r, p) \<in> set (get_pending_signals loads D'). now \<le> sg_expires r \<and> p = loads (sg_payload r)"
    by (auto simp: get_pending_signals_def pend)
  show "sorted (map (sg_created \<circ> fst) (get_pending_signals loads D'))"
    by (simp add: get_pending_signals_def comp_def)
  show "length (get_pending_signals loads D) = length (get_pending_signals loads D') + snd (drop_expired now D)"
    by (simp add: get_pending_signals_def pend drop_expired_def pending_split [of "sd_rows D" now])
qed

lemma system_state_lookup [simp]:
  "get_system_state k (upsert_system_state key v D) = (if k = key then Some v else get_system_state k D)"
  by (simp add: get_system_state_def upsert_system_state_def update_conv')

lemma system_state_frame [simp]:
  "get_system_state k (save_signal dumps key tok kind payload created ttl D) = get_system_state k D"
  "get_system_state k (mark_as_sent i D) = get_system_state k D"
  "get_system_state k (fst (drop_expired now D)) = get_system_state k D"
  by (simp_all add: get_system_state_def save_signal_def mark_as_sent_def drop_expired_def)

end
