(* ===== verification/Event_Bus.thy ===== *)
theory Event_Bus
  imports Prelude
begin

text \<open>
  The event bus with its transactional outbox (\<open>src/src/infrastructure/event_bus.py\<close>) and
  the event classes it carries (\<open>src/src/domain/entities/events.py\<close>): publication into the
  bounded queue and into the write queue of the database thread, the thread's writes, the
  delivery to the subscribers with its acknowledgement, and the recovery after a crash.

  \<open>uuid.uuid4()\<close> and \<open>json.dumps\<close> give arguments of the publication; \<open>revive\<close> stands for
  \<open>json.loads\<close> and the fields the recovery hands to the constructor, of which the model
  keeps the symbol; None is an exception.  A step of the model is one
  operation of the database thread or one stretch of the event loop; the tasks that bus_deliver
  events run in any order.
\<close>

section \<open>Events\<close>

datatype event_kind =
    ExecutionEvent | ConflatedEvent | StateInvalidationEvent | EuthanasiaEvent | SignalEvent | Other_event string

text \<open>
  An event's class, its symbol where it has one, its serialisation, and whether an instance of a
  class from outside \<open>events.py\<close> takes new attributes.  The four classes of that file are
  declared with slots, so that assigning a field they do not list raises.
\<close>

record bus_event =
  be_kind :: event_kind
  be_symbol :: "symbol option"
  be_json :: string
  be_open :: bool
  be_outbox :: "string option"

definition sealed :: "event_kind \<Rightarrow> bool" where
  "sealed k \<longleftrightarrow> k \<in> {ExecutionEvent, ConflatedEvent, StateInvalidationEvent, EuthanasiaEvent}"

definition set_outbox_id :: "string \<Rightarrow> bus_event \<Rightarrow> bus_event option" where
  "set_outbox_id i ev = (if sealed (be_kind ev) \<or> \<not> be_open ev then None else Some (ev\<lparr>be_outbox := Some i\<rparr>))"

definition critical :: "event_kind \<Rightarrow> bool" where
  "critical k \<longleftrightarrow> k \<in> {ExecutionEvent, ConflatedEvent, SignalEvent}"

section \<open>The database thread\<close>

datatype bus_status = Bus_pending | Bus_processed | Bus_corrupted

record bus_row =
  br_id :: string
  br_kind :: event_kind
  br_json :: string
  br_status :: bus_status
  br_ts :: time

datatype write_op = W_insert string event_kind string time | W_update string | W_corrupted string | W_delete

definition set_row_status :: "bus_status \<Rightarrow> string \<Rightarrow> bus_row list \<Rightarrow> bus_row list" where
  "set_row_status st i rows = map (\<lambda>r. if br_id r = i then r\<lparr>br_status := st\<rparr> else r) rows"

text \<open>An insert under an identifier that is taken fails and is logged.\<close>

fun apply_write :: "write_op \<Rightarrow> bus_row list \<Rightarrow> bus_row list" where
  "apply_write (W_insert i kind json ts) rows =
     (if i \<in> set (map br_id rows) then rows
      else rows @ [\<lparr>br_id = i, br_kind = kind, br_json = json, br_status = Bus_pending, br_ts = ts\<rparr>])"
| "apply_write (W_update i) rows = set_row_status Bus_processed i rows"
| "apply_write (W_corrupted i) rows = set_row_status Bus_corrupted i rows"
| "apply_write W_delete rows = filter (\<lambda>r. br_status r \<noteq> Bus_processed) rows"

section \<open>The bus\<close>

record bus =
  bus_queue :: "bus_event list"
  bus_max :: nat
  bus_locked :: "symbol set"
  bus_subs :: "event_kind \<Rightarrow> nat list"
  bus_writes :: "write_op list"
  bus_table :: "bus_row list"
  bus_tasks :: "bus_event list"
  bus_calls :: "(nat \<times> bus_event) list"

definition bus_init :: "nat \<Rightarrow> bus_row list \<Rightarrow> bus" where
  "bus_init n rows = \<lparr>bus_queue = [], bus_max = n, bus_locked = {}, bus_subs = (\<lambda>_. []), bus_writes = [],
     bus_table = rows, bus_tasks = [], bus_calls = []\<rparr>"

definition subscribe :: "event_kind \<Rightarrow> nat \<Rightarrow> bus \<Rightarrow> bus" where
  "subscribe k cb B = B\<lparr>bus_subs := (bus_subs B)(k := bus_subs B k @ [cb])\<rparr>"

text \<open>\<open>put_nowait\<close> on a queue whose size 0 means no bound.\<close>

definition queue_full :: "bus \<Rightarrow> bool" where
  "queue_full B \<longleftrightarrow> 0 < bus_max B \<and> bus_max B \<le> length (bus_queue B)"

definition shed :: "bus_event \<Rightarrow> bus \<Rightarrow> bus" where
  "shed ev B = (if queue_full B then B else B\<lparr>bus_queue := bus_queue B @ [ev]\<rparr>)"

definition dropped :: "bus_event \<Rightarrow> bus \<Rightarrow> bool" where
  "dropped ev B \<longleftrightarrow> (case be_symbol ev of None \<Rightarrow> ''UNKNOWN'' | Some s \<Rightarrow> s) \<in> bus_locked B
     \<and> be_kind ev \<noteq> StateInvalidationEvent"

text \<open>The publication; the answer is False when it raises.\<close>

definition publish_nowait :: "string \<Rightarrow> time \<Rightarrow> bus_event \<Rightarrow> bus \<Rightarrow> bus \<times> bool" where
  "publish_nowait uuid now ev B =
     (if dropped ev B then (B, True)
      else if critical (be_kind ev) then
        (let B1 = B\<lparr>bus_writes := bus_writes B @ [W_insert uuid (be_kind ev) (be_json ev) now]\<rparr>
         in case set_outbox_id uuid ev of None \<Rightarrow> (B1, False) | Some ev' \<Rightarrow> (shed ev' B1, True))
      else (shed ev B, True))"

definition bus_recovered :: "symbol \<Rightarrow> bus \<Rightarrow> bus" where
  "bus_recovered s B = B\<lparr>bus_locked := bus_locked B - {s}\<rparr>"

definition writer_round :: "bus \<Rightarrow> bus" where
  "writer_round B = (case bus_writes B of [] \<Rightarrow> B | w # ws \<Rightarrow> B\<lparr>bus_writes := ws, bus_table := apply_write w (bus_table B)\<rparr>)"

definition consume :: "bus \<Rightarrow> bus" where
  "consume B = (case bus_queue B of [] \<Rightarrow> B | ev # evs \<Rightarrow> B\<lparr>bus_queue := evs, bus_tasks := bus_tasks B @ [ev]\<rparr>)"

text \<open>
  Every subscriber is called; what a handler raises is logged.  An empty identifier counts as none.
\<close>

definition acknowledge :: "bus_event \<Rightarrow> write_op list" where
  "acknowledge ev = (case be_outbox ev of None \<Rightarrow> [] | Some i \<Rightarrow> if i = [] then [] else [W_update i])"

definition process_and_ack :: "bus_event \<Rightarrow> bus \<Rightarrow> bus" where
  "process_and_ack ev B =
     B\<lparr>bus_calls := bus_calls B @ map (\<lambda>h. (h, ev)) (bus_subs B (be_kind ev)), bus_writes := bus_writes B @ acknowledge ev\<rparr>"

definition bus_deliver :: "nat \<Rightarrow> bus \<Rightarrow> bus" where
  "bus_deliver n B =
     (if n < length (bus_tasks B)
      then process_and_ack (bus_tasks B ! n) (B\<lparr>bus_tasks := take n (bus_tasks B) @ drop (Suc n) (bus_tasks B)\<rparr>)
      else B)"

text \<open>
  The recovery: the pending rows of the two classes it knows are revived, stamped and queued; a
  row that cannot be is marked as corrupted, a row of another class is skipped.
\<close>

definition revived :: "(event_kind \<Rightarrow> string \<Rightarrow> symbol option) \<Rightarrow> bus_row \<Rightarrow> bus_event option" where
  "revived revive r =
     (case revive (br_kind r) (br_json r) of
        None \<Rightarrow> None
      | Some s \<Rightarrow> set_outbox_id (br_id r)
          \<lparr>be_kind = br_kind r, be_symbol = Some s, be_json = br_json r, be_open = False, be_outbox = None\<rparr>)"

definition recover_row :: "(event_kind \<Rightarrow> string \<Rightarrow> symbol option) \<Rightarrow> bus_row \<Rightarrow> bus \<Rightarrow> bus" where
  "recover_row revive r B =
     (if br_kind r \<noteq> ExecutionEvent \<and> br_kind r \<noteq> ConflatedEvent then B
      else case revived revive r of
          None \<Rightarrow> B\<lparr>bus_writes := bus_writes B @ [W_corrupted (br_id r)]\<rparr>
        | Some ev \<Rightarrow> if queue_full B then B\<lparr>bus_writes := bus_writes B @ [W_corrupted (br_id r)]\<rparr>
                     else B\<lparr>bus_queue := bus_queue B @ [ev]\<rparr>)"

definition recovery_relay :: "(event_kind \<Rightarrow> string \<Rightarrow> symbol option) \<Rightarrow> bus \<Rightarrow> bus" where
  "recovery_relay revive B = fold (recover_row revive) (filter (\<lambda>r. br_status r = Bus_pending) (bus_table B)) B"

text \<open>
  The shutdown joins the thread, which first empties its queue.  The delete of the processed
  rows that follows runs on a connection that is closed without a commit: it is rolled back.
\<close>

definition bus_stop :: "bus \<Rightarrow> bus" where
  "bus_stop B = B\<lparr>bus_writes := [], bus_table := fold apply_write (bus_writes B) (bus_table B)\<rparr>"

text \<open>
  A crash keeps the committed table; the subscriptions are made anew by the next start, which
  begins with the recovery.
\<close>

definition crash_restart :: "(event_kind \<Rightarrow> string \<Rightarrow> symbol option) \<Rightarrow> bus \<Rightarrow> bus" where
  "crash_restart revive B =
     recovery_relay revive (B\<lparr>bus_queue := [], bus_writes := [], bus_tasks := [], bus_locked := {}\<rparr>)"

datatype bus_op =
    Publish string time bus_event
  | Write
  | Consume
  | Deliver nat
  | Unlock symbol
  | Stop
  | Restart

fun bus_step :: "(event_kind \<Rightarrow> string \<Rightarrow> symbol option) \<Rightarrow> bus_op \<Rightarrow> bus \<Rightarrow> bus" where
  "bus_step revive (Publish uuid now ev) B = fst (publish_nowait uuid now ev B)"
| "bus_step revive Write B = writer_round B"
| "bus_step revive Consume B = consume B"
| "bus_step revive (Deliver n) B = bus_deliver n B"
| "bus_step revive (Unlock s) B = bus_recovered s B"
| "bus_step revive Stop B = bus_stop B"
| "bus_step revive Restart B = crash_restart revive B"

section \<open>The recovery revives nothing\<close>

lemma set_outbox_id_kind: "set_outbox_id i ev = Some ev' \<Longrightarrow> \<not> sealed (be_kind ev') \<and> be_outbox ev' = Some i"
  by (auto simp: set_outbox_id_def split: if_splits)

lemma revived_none: "br_kind r = ExecutionEvent \<or> br_kind r = ConflatedEvent \<Longrightarrow> revived revive r = None"
  by (auto simp: revived_def set_outbox_id_def sealed_def split: option.split)

definition revivable :: "bus_row \<Rightarrow> bool" where
  "revivable r \<longleftrightarrow> br_kind r = ExecutionEvent \<or> br_kind r = ConflatedEvent"

lemma recover_rows:
  "fold (recover_row revive) rows B = B\<lparr>bus_writes := bus_writes B @ map (W_corrupted \<circ> br_id) (filter revivable rows)\<rparr>"
  by (induction rows arbitrary: B) (simp_all add: recover_row_def revived_none revivable_def)

text \<open>The recovery puts no event back into the queue, whatever the parser makes of the rows: the
  pending rows of the two classes it knows, which take no outbox identifier, are all marked as
  corrupted, the rows of any other class are left as they are.\<close>

theorem recovery_revives_nothing:
  "recovery_relay revive B =
     B\<lparr>bus_writes := bus_writes B @ map (W_corrupted \<circ> br_id)
        (filter revivable (filter (\<lambda>r. br_status r = Bus_pending) (bus_table B)))\<rparr>"
  by (simp add: recovery_relay_def recover_rows)

lemma recovery_relay_aux: "recovery_relay revive B =
     B\<lparr>bus_writes := bus_writes B @ map (W_corrupted \<circ> br_id)
        (filter revivable (filter (\<lambda>r. br_status r = Bus_pending) (bus_table B)))\<rparr>"
  by (simp add: recovery_relay_def recover_rows)

section \<open>What is delivered\<close>

text \<open>The events on their way, and the calls made.\<close>

definition travelling :: "bus \<Rightarrow> bus_event set" where
  "travelling B = set (bus_queue B) \<union> set (bus_tasks B) \<union> snd ` set (bus_calls B)"

lemma shed_travelling: "travelling (shed ev B) \<subseteq> insert ev (travelling B)"
  by (auto simp: shed_def travelling_def)

lemma publish_travelling:
  "travelling (fst (publish_nowait uuid now ev B)) \<subseteq> travelling B \<union> {e. \<not> (sealed (be_kind e) \<and> critical (be_kind e))}"
proof -
  have writes: "travelling (B\<lparr>bus_writes := ws\<rparr>) = travelling B" for ws by (simp add: travelling_def)
  show ?thesis
    using shed_travelling [of ev B] shed_travelling [of _ "B\<lparr>bus_writes := bus_writes B @ [W_insert uuid (be_kind ev) (be_json ev) now]\<rparr>"]
    by (auto simp: publish_nowait_def Let_def writes split: option.split dest!: set_outbox_id_kind)
qed

lemma deliver_travelling: "travelling (bus_deliver n B) \<subseteq> travelling B"
  by (auto simp: bus_deliver_def process_and_ack_def travelling_def dest: in_set_takeD in_set_dropD)

lemma consume_travelling: "travelling (consume B) = travelling B"
  by (auto simp: consume_def travelling_def split: list.split)

lemma step_travelling:
  "travelling (bus_step revive ev B) \<subseteq> travelling B \<union> {e. \<not> (sealed (be_kind e) \<and> critical (be_kind e))}"
proof (cases ev)
  case (Publish uuid now e)
  then show ?thesis using publish_travelling [of uuid now e B] by simp
next
  case (Deliver n)
  then show ?thesis using deliver_travelling [of n B] by auto
next
  case Consume
  then show ?thesis using consume_travelling [of B] by simp
qed (auto simp: writer_round_def travelling_def bus_recovered_def bus_stop_def crash_restart_def
       recovery_relay_aux split: list.split)

lemma run_travelling:
  "travelling (fold (bus_step revive) evs B) \<subseteq> travelling B \<union> {e. \<not> (sealed (be_kind e) \<and> critical (be_kind e))}"
proof (induction evs arbitrary: B)
  case (Cons ev evs)
  from Cons.IH [of "bus_step revive ev B"] step_travelling [of revive ev B] show ?case by auto
qed simp


lemma publish_critical_raises:
  "be_kind ev = ExecutionEvent \<or> be_kind ev = ConflatedEvent \<Longrightarrow> \<not> dropped ev B \<Longrightarrow>
     publish_nowait uuid now ev B
     = (B\<lparr>bus_writes := bus_writes B @ [W_insert uuid (be_kind ev) (be_json ev) now]\<rparr>, False)"
  by (auto simp: publish_nowait_def critical_def set_outbox_id_def sealed_def Let_def)

section \<open>Acknowledgement\<close>

definition served :: "string \<Rightarrow> bus \<Rightarrow> bool" where
  "served i B \<longleftrightarrow> (\<exists>ev. be_outbox ev = Some i \<and> (\<forall>h \<in> set (bus_subs B (be_kind ev)). (h, ev) \<in> set (bus_calls B)))"

definition processed_ids :: "bus_row list \<Rightarrow> string set" where
  "processed_ids rows = br_id ` {r \<in> set rows. br_status r = Bus_processed}"

definition acked :: "bus \<Rightarrow> string set" where
  "acked B = {i. W_update i \<in> set (bus_writes B)} \<union> processed_ids (bus_table B)"

lemma apply_write_processed: "processed_ids (apply_write w rows) \<subseteq> processed_ids rows \<union> {i. w = W_update i}"
  by (cases w) (auto simp: processed_ids_def set_row_status_def image_iff split: if_splits)

lemma apply_writes_processed:
  "processed_ids (fold apply_write ws rows) \<subseteq> processed_ids rows \<union> {i. W_update i \<in> set ws}"
proof (induction ws arbitrary: rows)
  case (Cons w ws)
  from Cons.IH [of "apply_write w rows"] apply_write_processed [of w rows] show ?case by auto
qed simp

lemma served_mono: "served i B \<Longrightarrow> bus_subs B' = bus_subs B \<Longrightarrow> set (bus_calls B) \<subseteq> set (bus_calls B') \<Longrightarrow> served i B'"
  by (auto simp: served_def)

lemma step_frame: "bus_subs (bus_step revive ev B) = bus_subs B" "set (bus_calls B) \<subseteq> set (bus_calls (bus_step revive ev B))"
  by (cases ev; auto simp: publish_nowait_def shed_def writer_round_def consume_def bus_deliver_def process_and_ack_def bus_recovered_def
      bus_stop_def crash_restart_def recovery_relay_aux Let_def split: option.splits list.splits)+

lemma step_acked: "i \<in> acked (bus_step revive ev B) \<Longrightarrow> i \<in> acked B \<or> served i (bus_step revive ev B)"
proof (cases ev)
  case (Publish uuid now e)
  then show "i \<in> acked (bus_step revive ev B) \<Longrightarrow> ?thesis"
    by (auto simp: acked_def publish_nowait_def shed_def Let_def split: option.splits if_splits)
next
  case Write
  then show "i \<in> acked (bus_step revive ev B) \<Longrightarrow> ?thesis"
    by (auto simp: acked_def writer_round_def split: list.splits dest!: apply_write_processed [THEN subsetD])
next
  case Consume
  then show "i \<in> acked (bus_step revive ev B) \<Longrightarrow> ?thesis"
    by (auto simp: acked_def consume_def split: list.splits)
next
  case (Deliver n)
  then show "i \<in> acked (bus_step revive ev B) \<Longrightarrow> ?thesis"
    by (auto simp: acked_def served_def bus_deliver_def process_and_ack_def acknowledge_def split: if_splits option.splits)
next
  case Stop
  then show "i \<in> acked (bus_step revive ev B) \<Longrightarrow> ?thesis"
    by (auto simp: acked_def bus_stop_def dest!: apply_writes_processed [THEN subsetD])
qed (auto simp: acked_def bus_recovered_def crash_restart_def recovery_relay_aux)

text \<open>An event is acknowledged after its delivery.  In any run from an empty table, crashes and
  restarts included, a row is marked as processed only when some event with its identifier
  was handed to every subscriber of its class.\<close>

theorem processed_was_served:
  fixes revive :: "event_kind \<Rightarrow> string \<Rightarrow> symbol option"
  defines "B' \<equiv> \<lambda>B evs. fold (bus_step revive) evs B"
  assumes "bus_table B = []" "bus_writes B = []" "r \<in> set (bus_table (B' B evs))" "br_status r = Bus_processed"
  shows "served (br_id r) (B' B evs)"
proof -
  have "i \<in> acked (B' B evs) \<Longrightarrow> i \<in> acked B \<or> served i (B' B evs)" for i evs
  proof (induction evs rule: rev_induct)
    case (snoc ev evs)
    from snoc.prems step_acked [of i revive ev "B' B evs"] snoc.IH show ?case
      by (auto simp: B'_def intro: served_mono [OF _ step_frame])
  qed (simp add: B'_def)
  from this [of "br_id r" evs] assms(2-) show ?thesis by (auto simp: acked_def processed_ids_def)
qed

theorem processed_was_served_witness:
  "served ''id1'' (fold (bus_step (\<lambda>k j. None))
     [Publish ''id1'' 5 \<lparr>be_kind = SignalEvent, be_symbol = None, be_json = ''x'', be_open = True, be_outbox = None\<rparr>,
      Write, Consume, Deliver 0, Write]
     (subscribe SignalEvent 3 (bus_init 10 [])))"
proof -
  let ?evs = "[Publish ''id1'' 5 \<lparr>be_kind = SignalEvent, be_symbol = None, be_json = ''x'', be_open = True, be_outbox = None\<rparr>,
      Write, Consume, Deliver 0, Write]"
  let ?B = "subscribe SignalEvent 3 (bus_init 10 [])"
  let ?r = "\<lparr>br_id = ''id1'', br_kind = SignalEvent, br_json = ''x'', br_status = Bus_processed, br_ts = 5\<rparr>"
  have "bus_table ?B = []" "bus_writes ?B = []" by (simp_all add: subscribe_def bus_init_def)
  moreover have "?r \<in> set (bus_table (fold (bus_step (\<lambda>k j. None)) ?evs ?B))"
    by (simp add: subscribe_def bus_init_def publish_nowait_def dropped_def critical_def set_outbox_id_def sealed_def shed_def
        queue_full_def writer_round_def consume_def bus_deliver_def process_and_ack_def acknowledge_def set_row_status_def Let_def)
  ultimately have "served (br_id ?r) (fold (bus_step (\<lambda>k j. None)) ?evs ?B)"
    by (rule processed_was_served) simp
  then show ?thesis by simp
qed

end
