(* ===== verification/Quarantine.thy ===== *)
theory Quarantine
  imports Interfaces "HOL-Library.AList"
begin

text \<open>
  The quarantine of symbols whose stream is broken (\<open>src/src/application/quarantine.py\<close>):
  a locked symbol's ticks are stashed up to a bound and handed back for the replay, dead
  symbols are kept out until their tombstone runs out.  The event bus is the list of the
  symbols an euthanasia event was published for; \<open>time.monotonic()\<close> is the argument \<open>now\<close>.
\<close>

section \<open>The coordinator\<close>

text \<open>A \<open>deque(maxlen=n)\<close>: appending to a full one drops its oldest element.\<close>

record 'd stash =
  st_max :: nat
  st_ticks :: "'d list"

definition stash_push :: "'d \<Rightarrow> 'd stash \<Rightarrow> 'd stash" where
  "stash_push x s = s\<lparr>st_ticks := lastn (st_max s) (st_ticks s @ [x])\<rparr>"

definition stash_full :: "'d stash \<Rightarrow> bool" where
  "stash_full s \<longleftrightarrow> length (st_ticks s) = st_max s"

record 'd quarantine =
  qm_corrupted :: "symbol set"
  qm_stash :: "(symbol \<times> 'd stash) list"
  qm_tombstones :: "(symbol \<times> time) list"
  qm_core :: "symbol set"
  qm_published :: "symbol list"

definition quarantine_init :: "symbol set \<Rightarrow> 'd quarantine" where
  "quarantine_init core = \<lparr>qm_corrupted = {}, qm_stash = [], qm_tombstones = [], qm_core = core, qm_published = []\<rparr>"

definition default_core :: "symbol set" where
  "default_core = {''BTCUSDT'', ''ETHUSDT'', ''SOLUSDT''}"

definition is_dead :: "time \<Rightarrow> symbol \<Rightarrow> 'd quarantine \<Rightarrow> 'd quarantine \<times> bool" where
  "is_dead now s Q =
     (case map_of (qm_tombstones Q) s of
        None \<Rightarrow> (Q, False)
      | Some until \<Rightarrow> if until < now then (Q\<lparr>qm_tombstones := AList.delete s (qm_tombstones Q)\<rparr>, False) else (Q, True))"

definition bury :: "time \<Rightarrow> int \<Rightarrow> symbol \<Rightarrow> 'd quarantine \<Rightarrow> 'd quarantine" where
  "bury now cooldown s Q =
     Q\<lparr>qm_tombstones := AList.update s (now + of_int cooldown) (qm_tombstones Q),
       qm_corrupted := qm_corrupted Q - {s}, qm_stash := AList.delete s (qm_stash Q)\<rparr>"

definition stash_size :: "symbol \<Rightarrow> 'd quarantine \<Rightarrow> nat" where
  "stash_size s Q = (if s \<in> qm_core Q then 10000 else 2000)"

definition mark_corrupted :: "symbol \<Rightarrow> 'd quarantine \<Rightarrow> 'd quarantine" where
  "mark_corrupted s Q =
     (if s \<in> qm_corrupted Q then Q
      else Q\<lparr>qm_corrupted := insert s (qm_corrupted Q),
             qm_stash := AList.update s \<lparr>st_max = stash_size s Q, st_ticks = []\<rparr> (qm_stash Q)\<rparr>)"

text \<open>The answer is whether the tick may go on.\<close>

definition intercept_tick :: "symbol \<Rightarrow> 'd \<Rightarrow> 'd quarantine \<Rightarrow> 'd quarantine \<times> bool" where
  "intercept_tick s x Q =
     (if s \<notin> qm_corrupted Q then (Q, True)
      else case map_of (qm_stash Q) s of
          None \<Rightarrow> (Q, False)
        | Some st \<Rightarrow>
            if stash_full st \<and> s \<notin> qm_core Q then (Q\<lparr>qm_published := qm_published Q @ [s]\<rparr>, False)
            else (Q\<lparr>qm_stash := AList.update s (stash_push x st) (qm_stash Q)\<rparr>, False))"

definition extract_stash :: "symbol \<Rightarrow> 'd quarantine \<Rightarrow> 'd quarantine \<times> 'd list" where
  "extract_stash s Q =
     (Q\<lparr>qm_stash := AList.delete s (qm_stash Q)\<rparr>,
      (case map_of (qm_stash Q) s of None \<Rightarrow> [] | Some st \<Rightarrow> st_ticks st))"

definition mark_recovered :: "symbol \<Rightarrow> 'd quarantine \<Rightarrow> 'd quarantine" where
  "mark_recovered s Q = Q\<lparr>qm_corrupted := qm_corrupted Q - {s}, qm_stash := AList.delete s (qm_stash Q)\<rparr>"

interpretation stash: bounded_log stash_push st_ticks st_max "\<lambda>s. length (st_ticks s) \<le> st_max s"
  by unfold_locales (simp_all add: stash_push_def)

section \<open>The coordinator's state\<close>

text \<open>Only locked symbols have a stash, and no stash exceeds its bound.\<close>

definition quarantine_ok :: "'d quarantine \<Rightarrow> bool" where
  "quarantine_ok Q \<longleftrightarrow> (\<forall>s st. map_of (qm_stash Q) s = Some st \<longrightarrow>
     s \<in> qm_corrupted Q \<and> st_max st = stash_size s Q \<and> length (st_ticks st) \<le> stash_size s Q)"

lemma fresh_quarantine [simp]: "qm_corrupted (quarantine_init core) = {}" "qm_core (quarantine_init core) = core"
  by (simp_all add: quarantine_init_def)

lemma quarantine_ok_init [simp]: "quarantine_ok (quarantine_init core)"
  by (simp add: quarantine_ok_def quarantine_init_def)

lemma map_of_delete: "map_of (AList.delete k xs) s = (if s = k then None else map_of xs s)"
  by (simp add: delete_conv')

lemma stash_size_frame [simp]:
  "stash_size s (Q\<lparr>qm_stash := a\<rparr>) = stash_size s Q" "stash_size s (Q\<lparr>qm_corrupted := c\<rparr>) = stash_size s Q"
  "stash_size s (Q\<lparr>qm_tombstones := t\<rparr>) = stash_size s Q" "stash_size s (Q\<lparr>qm_published := p\<rparr>) = stash_size s Q"
  by (simp_all add: stash_size_def)

datatype 'd quarantine_op = Dead_q time symbol | Bury_q time int symbol | Corrupt_q symbol | Tick_q symbol 'd | Extract_q symbol | Recover_q symbol

fun quarantine_step :: "'d quarantine_op \<Rightarrow> 'd quarantine \<Rightarrow> 'd quarantine" where
  "quarantine_step (Dead_q now s) Q = fst (is_dead now s Q)"
| "quarantine_step (Bury_q now cooldown s) Q = bury now cooldown s Q"
| "quarantine_step (Corrupt_q s) Q = mark_corrupted s Q"
| "quarantine_step (Tick_q s x) Q = fst (intercept_tick s x Q)"
| "quarantine_step (Extract_q s) Q = fst (extract_stash s Q)"
| "quarantine_step (Recover_q s) Q = mark_recovered s Q"

lemma quarantine_ok_step: "quarantine_ok Q \<Longrightarrow> quarantine_ok (quarantine_step ev Q)"
proof (cases ev)
  case (Tick_q s x)
  then show "quarantine_ok Q \<Longrightarrow> ?thesis"
    by (auto simp: quarantine_ok_def intercept_tick_def stash_push_def update_conv' split: option.splits if_splits)
qed (auto simp: quarantine_ok_def is_dead_def bury_def mark_corrupted_def extract_stash_def mark_recovered_def
       map_of_delete update_conv' split: option.splits if_splits)

lemma quarantine_ok_run: "quarantine_ok Q \<Longrightarrow> quarantine_ok (fold quarantine_step evs Q)"
  by (induction evs arbitrary: Q) (simp_all add: quarantine_ok_step)

section \<open>The replay\<close>

text \<open>What a stash of \<open>n\<close> keeps of a stream: the newest ticks of a core symbol, the oldest of another.\<close>

definition kept :: "bool \<Rightarrow> nat \<Rightarrow> 'd list \<Rightarrow> 'd list" where
  "kept core n xs = (if core then lastn n xs else take n xs)"

lemma intercept_locked:
  assumes "s \<in> qm_corrupted Q" "map_of (qm_stash Q) s = Some st" "length (st_ticks st) \<le> st_max st"
  shows "\<exists>st'. map_of (qm_stash (fst (intercept_tick s x Q))) s = Some st' \<and> st_max st' = st_max st
    \<and> st_ticks st' = kept (s \<in> qm_core Q) (st_max st) (st_ticks st @ [x]) \<and> s \<in> qm_corrupted (fst (intercept_tick s x Q))
    \<and> qm_core (fst (intercept_tick s x Q)) = qm_core Q \<and> \<not> snd (intercept_tick s x Q)"
proof (cases "stash_full st \<and> s \<notin> qm_core Q")
  case True
  then show ?thesis using assms by (auto simp: intercept_tick_def stash_full_def kept_def)
next
  case False
  have "lastn (st_max st) (st_ticks st @ [x]) = kept (s \<in> qm_core Q) (st_max st) (st_ticks st @ [x])"
    using False assms(3) by (auto simp: kept_def stash_full_def)
  then show ?thesis using assms False by (auto simp: intercept_tick_def stash_push_def update_conv')
qed

lemma kept_kept: "kept core n (kept core n xs @ ys) = kept core n (xs @ ys)"
  by (cases core) (auto simp: kept_def lastn_lastn_append min_def)

lemma length_kept: "length (kept core n xs) \<le> n"
  by (simp add: kept_def)

lemma intercepts_locked:
  assumes "s \<in> qm_corrupted Q" "map_of (qm_stash Q) s = Some st" "length (st_ticks st) \<le> st_max st"
  shows "\<exists>st'. map_of (qm_stash (fold (\<lambda>x. fst \<circ> intercept_tick s x) xs Q)) s = Some st'
    \<and> st_ticks st' = kept (s \<in> qm_core Q) (st_max st) (st_ticks st @ xs)"
  using assms
proof (induction xs arbitrary: Q st)
  case Nil
  then show ?case by (auto simp: kept_def)
next
  case (Cons x xs)
  from intercept_locked [OF Cons.prems, of x] obtain st' where st':
    "map_of (qm_stash (fst (intercept_tick s x Q))) s = Some st'" "st_max st' = st_max st"
    "st_ticks st' = kept (s \<in> qm_core Q) (st_max st) (st_ticks st @ [x])"
    "s \<in> qm_corrupted (fst (intercept_tick s x Q))" "qm_core (fst (intercept_tick s x Q)) = qm_core Q"
    by blast
  have "length (st_ticks st') \<le> st_max st'" by (simp add: st'(2,3) length_kept)
  from Cons.IH [OF st'(4,1) this] show ?case
    by (simp add: st'(2,3,5) kept_kept)
qed

text \<open>The quarantine hands back what it stashed.  From the lock of a symbol to the extraction
  no tick passes and the replay is the stream in its order, complete up to the bound; past
  it a core symbol keeps the newest ticks, another symbol the oldest.\<close>

theorem quarantine_replays:
  fixes Q :: "'d quarantine" and s :: symbol
  defines "locked \<equiv> mark_corrupted s (Q :: 'd quarantine)"
  assumes "s \<notin> qm_corrupted Q"
  shows "snd (extract_stash s (fold (\<lambda>x. fst \<circ> intercept_tick s x) xs locked))
      = kept (s \<in> qm_core Q) (if s \<in> qm_core Q then 10000 else 2000) xs
    \<and> (length xs \<le> 2000 \<longrightarrow> snd (extract_stash s (fold (\<lambda>x. fst \<circ> intercept_tick s x) xs locked)) = xs)"
proof -
  have locked: "s \<in> qm_corrupted locked" "map_of (qm_stash locked) s = Some \<lparr>st_max = stash_size s Q, st_ticks = []\<rparr>"
    "qm_core locked = qm_core Q"
    using assms by (simp_all add: locked_def mark_corrupted_def update_conv')
  from intercepts_locked [OF locked(1,2), of xs] have replay:
    "snd (extract_stash s (fold (\<lambda>x. fst \<circ> intercept_tick s x) xs locked))
      = kept (s \<in> qm_core Q) (if s \<in> qm_core Q then 10000 else 2000) xs"
    by (auto simp: extract_stash_def locked(3) stash_size_def)
  then show ?thesis by (simp add: kept_def)
qed

theorem quarantine_replays_witness:
  "snd (extract_stash ''X'' (fold (\<lambda>x. fst \<circ> intercept_tick ''X'' x) ''abc''
     (mark_corrupted ''X'' (quarantine_init default_core)))) = ''abc''"
  by (rule quarantine_replays [of "''X''" "quarantine_init default_core" "''abc''", THEN conjunct2, THEN mp]) simp_all

text \<open>Ticks are lost between the extraction of the stash and the recovery of the symbol.  The
  symbol is still locked but has no stash any more, so its ticks are held back and kept
  nowhere: after the recovery the state is what it had been without them.\<close>

theorem extraction_gap:
  fixes Q :: "'d quarantine" and s :: symbol
  defines "extracted \<equiv> fst (extract_stash s Q)"
  assumes "s \<in> qm_corrupted Q"
  shows "\<not> snd (intercept_tick s x extracted)
    \<and> mark_recovered s (fold (\<lambda>x. fst \<circ> intercept_tick s x) xs extracted) = mark_recovered s extracted"
proof -
  have none: "intercept_tick s x extracted = (extracted, False)" for x
    using assms by (simp add: extracted_def extract_stash_def intercept_tick_def map_of_delete)
  then have "fold (\<lambda>x. fst \<circ> intercept_tick s x) xs extracted = extracted"
    by (induction xs) simp_all
  with none show ?thesis by simp
qed

theorem extraction_gap_witness:
  "mark_recovered ''X'' (fold (\<lambda>x. fst \<circ> intercept_tick ''X'' x) [7, 8 :: nat]
     (fst (extract_stash ''X'' (mark_corrupted ''X'' (quarantine_init {})))))
   = mark_recovered ''X'' (fst (extract_stash ''X'' (mark_corrupted ''X'' (quarantine_init {}))))"
  using extraction_gap [of "''X''" "mark_corrupted ''X'' (quarantine_init {})" 0 "[7, 8 :: nat]"]
  by (simp add: mark_corrupted_def)

section \<open>Tombstones\<close>

text \<open>A buried symbol is dead until its cooldown is over, and then alive again.\<close>

lemma buried_until:
  "snd (is_dead t s (bury now cooldown s Q)) \<longleftrightarrow> t \<le> now + of_int cooldown"
  by (simp add: is_dead_def bury_def update_conv' not_le)

lemma is_dead_once: "snd (is_dead t s (fst (is_dead t s Q))) = snd (is_dead t s Q)"
  by (simp add: is_dead_def map_of_delete split: option.split)

end
