(* ===== verification/Microstructure.thy ===== *)
theory Microstructure
  imports Prelude "HOL-Library.AList"
begin

text \<open>
  The microstructure defender (\<open>src/src/application/microstructure.py\<close>): the discriminator that
  weighs the volume of a level by what was traded and what was cancelled there, the guard of the
  message sequence, the analyser of the best bid and ask, and the handler of a snapshot that
  puts them together.  A dictionary by price is an association list.
\<close>

section \<open>The discriminator\<close>

record discriminator =
  dc_trades :: "(flt \<times> flt) list"
  dc_cancels :: "(flt \<times> flt) list"
  dc_decay :: flt
  dc_prunes :: int

definition discriminator_init :: "flt \<Rightarrow> discriminator" where
  "discriminator_init decay = \<lparr>dc_trades = [], dc_cancels = [], dc_decay = decay, dc_prunes = 0\<rparr>"

definition at_level :: "(flt \<times> flt) list \<Rightarrow> flt \<Rightarrow> flt" where
  "at_level xs p = (case map_of xs p of None \<Rightarrow> 0 | Some v \<Rightarrow> v)"

definition prune_stale_levels :: "discriminator \<Rightarrow> discriminator" where
  "prune_stale_levels d =
     d\<lparr>dc_trades := filter (\<lambda>(p, v). \<not> v < 1 / 100000) (dc_trades d),
       dc_cancels := filter (\<lambda>(p, v). \<not> v < 1 / 100000) (dc_cancels d)\<rparr>"

definition check_prune :: "discriminator \<Rightarrow> discriminator" where
  "check_prune d =
     (let n = dc_prunes d + 1 in if 2000 < n then prune_stale_levels d\<lparr>dc_prunes := 0\<rparr> else d\<lparr>dc_prunes := n\<rparr>)"

definition register_trade :: "flt \<Rightarrow> flt \<Rightarrow> discriminator \<Rightarrow> discriminator" where
  "register_trade p v d = check_prune (d\<lparr>dc_trades := AList.update p (at_level (dc_trades d) p + v) (dc_trades d)\<rparr>)"

definition register_delta :: "flt \<Rightarrow> flt \<Rightarrow> flt \<Rightarrow> discriminator \<Rightarrow> discriminator" where
  "register_delta p old new d =
     (if new < old
      then check_prune (d\<lparr>dc_cancels := AList.update p (at_level (dc_cancels d) p + (old - new)) (dc_cancels d)\<rparr>)
      else d)"

definition reconcile_weight :: "flt \<Rightarrow> discriminator \<Rightarrow> discriminator \<times> flt" where
  "reconcile_weight p d =
     (let trades = at_level (dc_trades d) p; cancels = at_level (dc_cancels d) p;
          true_cancels = max 0 (cancels - trades); total = trades + true_cancels
      in if total < 1 / 10 ^ 9 then (d, 1)
         else (d\<lparr>dc_trades := (if 0 < trades then AList.update p (trades * dc_decay d) (dc_trades d) else dc_trades d),
                 dc_cancels := (if 0 < cancels then AList.update p (cancels * dc_decay d) (dc_cancels d) else dc_cancels d)\<rparr>,
               min 1 (trades / total * 5)))"

section \<open>The sequence guard\<close>

record guard_msg =
  gm_type :: "string option"
  gm_u :: "int option"

record sequence_guard =
  sg_last_u :: int
  sg_synced :: bool

definition sequence_guard_init :: sequence_guard where
  "sequence_guard_init = \<lparr>sg_last_u = -1, sg_synced = False\<rparr>"

definition msg_u :: "guard_msg \<Rightarrow> int" where
  "msg_u m = (case gm_u m of None \<Rightarrow> -1 | Some u \<Rightarrow> u)"

definition validate_msg :: "guard_msg \<Rightarrow> sequence_guard \<Rightarrow> sequence_guard \<times> bool" where
  "validate_msg m g =
     (if gm_type m = Some ''snapshot'' then (\<lparr>sg_last_u = msg_u m, sg_synced = True\<rparr>, True)
      else if gm_type m = Some ''delta'' then
        (if \<not> sg_synced g then (g, False)
         else if 0 < sg_last_u g \<and> msg_u m \<noteq> sg_last_u g + 1 then
           (if msg_u m \<le> sg_last_u g then (g, False) else (g\<lparr>sg_synced := False\<rparr>, False))
         else (g\<lparr>sg_last_u := msg_u m\<rparr>, True))
      else (g, False))"

section \<open>The analyser and the defender\<close>

record analyzer =
  an_imbalance :: flt
  an_microprice :: flt
  an_spread :: flt

definition analyzer_init :: analyzer where
  "analyzer_init = \<lparr>an_imbalance = 0, an_microprice = 0, an_spread = 0\<rparr>"

definition extract_features ::
  "flt \<Rightarrow> flt \<Rightarrow> flt \<Rightarrow> flt \<Rightarrow> flt \<Rightarrow> flt \<Rightarrow> analyzer \<Rightarrow> analyzer \<times> flt \<times> flt \<times> flt" where
  "extract_features bid_p bid_v ask_p ask_v bid_w ask_w a =
     (let eb = bid_v * bid_w; ea = ask_v * ask_w; a1 = a\<lparr>an_spread := ask_p - bid_p\<rparr>; total = eb + ea
      in if total < 1 / 10 ^ 9 then (a1, (bid_p + ask_p) / 2, 0, an_spread a1)
         else let a2 = a1\<lparr>an_imbalance := (eb - ea) / total, an_microprice := (bid_p * ea + ask_p * eb) / total\<rparr>
              in (a2, an_microprice a2, an_imbalance a2, an_spread a2))"

type_synonym micro_level = "flt \<times> flt"

datatype impulse = Idle_impulse | Buy_impulse | Sell_impulse

text \<open>The answer: the imbalance and state, and the microprice and spread where they are computed.\<close>

record micro_result =
  mr_imbalance :: flt
  mr_state :: impulse
  mr_new :: bool
  mr_prices :: "(flt \<times> flt) option"

definition idle_result :: micro_result where
  "idle_result = \<lparr>mr_imbalance = 0, mr_state = Idle_impulse, mr_new = False, mr_prices = None\<rparr>"

record defender =
  df_analyzer :: analyzer
  df_discriminator :: discriminator
  df_guard :: sequence_guard
  df_threshold :: flt

text \<open>\<open>threshold\<close> is the configured one; the discriminator's decay is the default of its class.\<close>

definition defender_init :: "flt \<Rightarrow> defender" where
  "defender_init threshold = \<lparr>df_analyzer = analyzer_init, df_discriminator = discriminator_init (95 / 100),
     df_guard = sequence_guard_init, df_threshold = threshold\<rparr>"

definition reset_defender :: "flt \<Rightarrow> defender \<Rightarrow> defender" where
  "reset_defender threshold d = d\<lparr>df_guard := sequence_guard_init, df_discriminator := discriminator_init (95 / 100),
     df_threshold := threshold\<rparr>"

definition impulse_of :: "flt \<Rightarrow> flt \<Rightarrow> impulse" where
  "impulse_of threshold x = (if threshold < x then Buy_impulse else if x < - threshold then Sell_impulse else Idle_impulse)"

definition defend :: "micro_level list \<Rightarrow> micro_level list \<Rightarrow> defender \<Rightarrow> defender \<times> micro_result" where
  "defend bids asks d =
     (case (bids, asks) of
        ((bp, bv) # _, (ap, av) # _) \<Rightarrow>
          if ap \<le> bp then (d, idle_result)
          else let (d1, bw) = reconcile_weight bp (df_discriminator d);
                   (d2, aw) = reconcile_weight ap d1;
                   (a, micro, imbalance, spread) = extract_features bp bv ap av bw aw (df_analyzer d);
                   st = impulse_of (df_threshold d) imbalance
               in (d\<lparr>df_discriminator := d2, df_analyzer := a\<rparr>,
                   \<lparr>mr_imbalance = imbalance, mr_state = st, mr_new = (st \<noteq> Idle_impulse), mr_prices = Some (micro, spread)\<rparr>)
      | _ \<Rightarrow> (d, idle_result))"

section \<open>The weight of a level\<close>

definition levels_ok :: "(flt \<times> flt) list \<Rightarrow> bool" where
  "levels_ok xs \<longleftrightarrow> (\<forall>v \<in> snd ` set xs. 0 \<le> v)"

definition discriminator_ok :: "discriminator \<Rightarrow> bool" where
  "discriminator_ok d \<longleftrightarrow> levels_ok (dc_trades d) \<and> levels_ok (dc_cancels d) \<and> 0 \<le> dc_decay d"

lemma at_level_nonneg: "levels_ok xs \<Longrightarrow> 0 \<le> at_level xs p"
  by (auto simp: at_level_def levels_ok_def image_iff dest!: map_of_SomeD split: option.split)

lemma levels_ok_update: "levels_ok xs \<Longrightarrow> 0 \<le> v \<Longrightarrow> levels_ok (AList.update p v xs)"
  by (induction xs) (auto simp: levels_ok_def)

lemma levels_ok_filter: "levels_ok xs \<Longrightarrow> levels_ok (filter P xs)"
  by (auto simp: levels_ok_def)

lemma check_prune_ok: "discriminator_ok d \<Longrightarrow> discriminator_ok (check_prune d)"
  by (simp add: check_prune_def prune_stale_levels_def discriminator_ok_def levels_ok_filter Let_def)

lemma discriminator_ok_init [simp]: "0 \<le> decay \<Longrightarrow> discriminator_ok (discriminator_init decay)"
  by (simp add: discriminator_ok_def discriminator_init_def levels_ok_def)

lemma discriminator_ok_trade: "discriminator_ok d \<Longrightarrow> 0 \<le> v \<Longrightarrow> discriminator_ok (register_trade p v d)"
  unfolding register_trade_def by (rule check_prune_ok) (simp add: discriminator_ok_def levels_ok_update at_level_nonneg)

lemma discriminator_ok_delta: "discriminator_ok d \<Longrightarrow> discriminator_ok (register_delta p old new d)"
  by (auto simp: register_delta_def discriminator_ok_def levels_ok_update at_level_nonneg intro!: check_prune_ok
      [unfolded discriminator_ok_def])

lemma discriminator_ok_weight: "discriminator_ok d \<Longrightarrow> discriminator_ok (fst (reconcile_weight p d))"
  by (auto simp: reconcile_weight_def discriminator_ok_def Let_def intro: levels_ok_update)

lemma weight_spec_aux:
  fixes d :: discriminator and p :: flt
  assumes "discriminator_ok d"
  defines "trades \<equiv> at_level (dc_trades d) p" and "cancels \<equiv> at_level (dc_cancels d) p"
  shows "0 \<le> snd (reconcile_weight p d)" "snd (reconcile_weight p d) \<le> 1"
    "snd (reconcile_weight p d) < 1 \<longleftrightarrow> 1 / 10 ^ 9 \<le> max trades cancels \<and> 5 * trades < max trades cancels"
proof -
  have nonneg: "0 \<le> trades" "0 \<le> cancels"
    using assms(1) by (simp_all add: trades_def cancels_def discriminator_ok_def at_level_nonneg)
  have total: "trades + max 0 (cancels - trades) = max trades cancels" by simp
  have w: "snd (reconcile_weight p d)
      = (if max trades cancels < 1 / 10 ^ 9 then 1 else min 1 (trades / max trades cancels * 5))"
    unfolding reconcile_weight_def Let_def trades_def [symmetric] cancels_def [symmetric] total by simp
  have pos: "\<not> max trades cancels < 1 / 10 ^ 9 \<Longrightarrow> 0 < max trades cancels"
    by (rule less_le_trans [of 0 "1 / 10 ^ 9"]) simp_all
  show "0 \<le> snd (reconcile_weight p d)" "snd (reconcile_weight p d) \<le> 1"
    unfolding w using nonneg by simp_all
  show "snd (reconcile_weight p d) < 1 \<longleftrightarrow> 1 / 10 ^ 9 \<le> max trades cancels \<and> 5 * trades < max trades cancels"
  proof (cases "max trades cancels < 1 / 10 ^ 9")
    case False
    have "trades / max trades cancels * 5 < 1 \<longleftrightarrow> 5 * trades < max trades cancels"
      using pos [OF False] by (simp add: divide_less_eq mult.commute)
    with False show ?thesis unfolding w by (simp only: if_False min_less_iff_disj) auto
  qed (simp add: w)
qed

text \<open>A level is trusted by what was traded on it.  The weight is between 0 and 1, and less than
  1 exactly when there was activity on the level and less than a fifth of it was trades.\<close>

theorem trust_weight_spec:
  fixes d :: discriminator and p :: flt
  assumes "discriminator_ok d"
  defines "trades \<equiv> at_level (dc_trades d) p" and "cancels \<equiv> at_level (dc_cancels d) p"
  shows "snd (reconcile_weight p d) \<in> {0..1}
    \<and> (snd (reconcile_weight p d) < 1 \<longleftrightarrow> 1 / 10 ^ 9 \<le> max trades cancels \<and> 5 * trades < max trades cancels)"
  using weight_spec_aux [OF assms(1), of p] by (simp add: trades_def cancels_def)

theorem trust_weight_spec_witness:
  "snd (reconcile_weight 100 (register_delta 100 7 2 (discriminator_init (95 / 100)))) < 1"
proof -
  let ?d = "register_delta 100 7 2 (discriminator_init (95 / 100))"
  have "discriminator_ok ?d" by (intro discriminator_ok_delta) simp
  from trust_weight_spec [OF this, of 100] show ?thesis
    by (simp add: register_delta_def discriminator_init_def check_prune_def at_level_def)
qed

section \<open>The accepted stream\<close>

definition accepted_msgs :: "guard_msg list \<Rightarrow> sequence_guard \<Rightarrow> guard_msg list" where
  "accepted_msgs ms g = map fst (filter snd (run_log (\<lambda>g m. validate_msg m g) g ms))"

lemma accepted_simps [simp]:
  "accepted_msgs [] g = []"
  "accepted_msgs (m # ms) g = (if snd (validate_msg m g) then [m] else []) @ accepted_msgs ms (fst (validate_msg m g))"
  by (simp_all add: accepted_msgs_def)

text \<open>A delta follows the message accepted before it without a gap, where that one had a positive number.\<close>

definition follows :: "guard_msg \<Rightarrow> guard_msg \<Rightarrow> bool" where
  "follows a b \<longleftrightarrow> gm_type b = Some ''snapshot'' \<or> msg_u a \<le> 0 \<or> msg_u b = msg_u a + 1"

lemma accepted_state: "snd (validate_msg m g) \<Longrightarrow> fst (validate_msg m g) = \<lparr>sg_last_u = msg_u m, sg_synced = True\<rparr>"
  by (auto simp: validate_msg_def split: if_splits)

lemma accepted_next:
  "snd (validate_msg m \<lparr>sg_last_u = u, sg_synced = True\<rparr>) \<Longrightarrow> gm_type m = Some ''snapshot'' \<or> u \<le> 0 \<or> msg_u m = u + 1"
  by (auto simp: validate_msg_def split: if_splits)

lemma accepted_follows_from:
  "(\<And>m. snd (validate_msg m g) \<Longrightarrow> a = None \<or> follows (the a) m) \<Longrightarrow>
   (a = None \<or> sg_last_u g = msg_u (the a)) \<Longrightarrow>
   successively follows ((case a of None \<Rightarrow> [] | Some m \<Rightarrow> [m]) @ accepted_msgs ms g)"
proof (induction ms arbitrary: g a)
  case Nil
  then show ?case by (simp split: option.split)
next
  case (Cons m ms)
  let ?g = "fst (validate_msg m g)"
  show ?case
  proof (cases "snd (validate_msg m g)")
    case True
    have "successively follows (m # accepted_msgs ms ?g)"
      using Cons.IH [of ?g "Some m"] accepted_next unfolding accepted_state [OF True] by (simp add: follows_def)
    with True Cons.prems(1) [OF True] show ?thesis by (auto split: option.split)
  next
    case False
    have "successively follows ((case a of None \<Rightarrow> [] | Some m \<Rightarrow> [m]) @ accepted_msgs ms ?g)"
    proof (rule Cons.IH)
      fix m' assume "snd (validate_msg m' ?g)"
      then have "gm_type m' = Some ''snapshot'' \<or> snd (validate_msg m' g)"
        using False by (auto simp: validate_msg_def split: if_splits)
      then show "a = None \<or> follows (the a) m'" using Cons.prems(1) by (auto simp: follows_def)
    next
      show "a = None \<or> sg_last_u ?g = msg_u (the a)"
        using Cons.prems(2) False by (auto simp: validate_msg_def split: if_splits)
    qed
    with False show ?thesis by simp
  qed
qed

text \<open>The guard lets a stream without gaps through: in any stream of messages, each accepted delta
  continues the message accepted before it by exactly one.\<close>

theorem accepted_contiguous: "successively follows (accepted_msgs ms sequence_guard_init)"
  using accepted_follows_from [of sequence_guard_init None ms] by simp

lemma unsynced_rejects: "\<not> sg_synced g \<Longrightarrow> snd (validate_msg m g) \<longleftrightarrow> gm_type m = Some ''snapshot''"
  by (auto simp: validate_msg_def)

section \<open>The features\<close>

lemma features_bounds:
  assumes "bid_p \<le> ask_p" "0 \<le> bid_v" "0 \<le> ask_v" "0 \<le> bid_w" "0 \<le> ask_w"
    and "extract_features bid_p bid_v ask_p ask_v bid_w ask_w a = (a', micro, imbalance, spread)"
  shows "bid_p \<le> micro" "micro \<le> ask_p" "\<bar>imbalance\<bar> \<le> 1" "spread = ask_p - bid_p"
proof -
  define eb ea where "eb = bid_v * bid_w" and "ea = ask_v * ask_w"
  have nonneg: "0 \<le> eb" "0 \<le> ea" using assms(2-5) by (simp_all add: eb_def ea_def)
  have out: "micro = (if eb + ea < 1 / 10 ^ 9 then (bid_p + ask_p) / 2 else (bid_p * ea + ask_p * eb) / (eb + ea))"
    "imbalance = (if eb + ea < 1 / 10 ^ 9 then 0 else (eb - ea) / (eb + ea))" "spread = ask_p - bid_p"
    using assms(6) by (auto simp: extract_features_def Let_def eb_def ea_def split: if_splits)
  have pos: "\<not> eb + ea < 1 / 10 ^ 9 \<Longrightarrow> 0 < eb + ea"
    by (rule less_le_trans [of 0 "1 / 10 ^ 9"]) simp_all
  have mix: "bid_p * (eb + ea) \<le> bid_p * ea + ask_p * eb" "bid_p * ea + ask_p * eb \<le> ask_p * (eb + ea)"
    using mult_right_mono [OF assms(1) nonneg(1)] mult_right_mono [OF assms(1) nonneg(2)] by (simp_all add: algebra_simps)
  show "bid_p \<le> micro" "micro \<le> ask_p"
    using assms(1) mix pos by (auto simp: out(1) pos_le_divide_eq pos_divide_le_eq)
  have "\<bar>eb - ea\<bar> \<le> eb + ea" using nonneg by auto
  then show "\<bar>imbalance\<bar> \<le> 1" using pos by (simp add: out(2) abs_divide pos_divide_le_eq)
  show "spread = ask_p - bid_p" by (rule out(3))
qed

definition defender_ok :: "defender \<Rightarrow> bool" where
  "defender_ok d \<longleftrightarrow> discriminator_ok (df_discriminator d)"

lemma defend_open:
  assumes "bp < ap"
  shows "\<exists>d2 bw aw a micro imbalance spread. reconcile_weight bp (df_discriminator d) = (d2, bw) \<and>
     aw = snd (reconcile_weight ap d2) \<and>
     extract_features bp bv ap av bw aw (df_analyzer d) = (a, micro, imbalance, spread) \<and>
     snd (defend ((bp, bv) # bids) ((ap, av) # asks) d) = \<lparr>mr_imbalance = imbalance, mr_state = impulse_of (df_threshold d) imbalance,
       mr_new = (impulse_of (df_threshold d) imbalance \<noteq> Idle_impulse), mr_prices = Some (micro, spread)\<rparr>"
  using assms by (simp add: defend_def split_beta Let_def) (metis prod.collapse)

text \<open>A signal stays within the book.  On an open book the microprice lies between the best bid
  and ask, the imbalance in [-1, 1], and a buy or sell impulse is reported exactly when the
  imbalance is beyond the threshold on that side.\<close>

theorem defend_within_book:
  fixes bids asks :: "micro_level list" and bp bv ap av :: flt
  assumes "defender_ok d" "0 \<le> bv" "0 \<le> av" "bp < ap" "0 \<le> df_threshold d"
  defines "r \<equiv> snd (defend ((bp, bv) # bids) ((ap, av) # asks) d)"
  shows "(case mr_prices r of None \<Rightarrow> False | Some (micro, spread) \<Rightarrow> bp \<le> micro \<and> micro \<le> ap \<and> spread = ap - bp)
    \<and> \<bar>mr_imbalance r\<bar> \<le> 1
    \<and> (mr_state r = Buy_impulse \<longleftrightarrow> df_threshold d < mr_imbalance r)
    \<and> (mr_state r = Sell_impulse \<longleftrightarrow> mr_imbalance r < - df_threshold d)"
proof -
  obtain d2 bw aw a micro imbalance spread where w: "reconcile_weight bp (df_discriminator d) = (d2, bw)"
    "aw = snd (reconcile_weight ap d2)"
    and f: "extract_features bp bv ap av bw aw (df_analyzer d) = (a, micro, imbalance, spread)"
    and r: "r = \<lparr>mr_imbalance = imbalance, mr_state = impulse_of (df_threshold d) imbalance,
       mr_new = (impulse_of (df_threshold d) imbalance \<noteq> Idle_impulse), mr_prices = Some (micro, spread)\<rparr>"
    using defend_open [OF assms(4), of d bv av bids asks] unfolding r_def by blast
  have ok: "discriminator_ok (df_discriminator d)" "discriminator_ok d2"
    using assms(1) discriminator_ok_weight [of "df_discriminator d" bp] by (simp_all add: defender_ok_def w(1))
  have "0 \<le> bw" "0 \<le> aw"
    using weight_spec_aux(1) [OF ok(1), of bp] weight_spec_aux(1) [OF ok(2), of ap] by (simp_all add: w)
  from features_bounds [OF _ assms(2,3) this f] assms(4,5) show ?thesis by (auto simp: r impulse_of_def)
qed

theorem defend_within_book_witness:
  "\<bar>mr_imbalance (snd (defend [(100, 5)] [(101, 3)] (defender_init (1 / 2))))\<bar> \<le> 1"
  using defend_within_book [of "defender_init (1 / 2)" 5 3 100 101 "[]" "[]"] by (simp add: defender_ok_def defender_init_def)

lemma spoofed_weight:
  assumes "at_level (dc_trades d) p = 0" "1 / 10 ^ 9 \<le> at_level (dc_cancels d) p"
  shows "snd (reconcile_weight p d) = 0" "at_level (dc_trades (fst (reconcile_weight p d))) q = at_level (dc_trades d) q"
    "p \<noteq> q \<Longrightarrow> at_level (dc_cancels (fst (reconcile_weight p d))) q = at_level (dc_cancels d) q"
  using assms by (auto simp: reconcile_weight_def Let_def max_def at_level_def update_conv' split: option.split)

text \<open>Volume that was only ever withdrawn does not count.  A bid level without trades and with
  cancellations has weight 0, so that a trusted ask gives an imbalance of -1 whatever the
  size of the bid: withdrawing quotes from the bid reports a sell impulse.\<close>

theorem spoofed_bid_ignored:
  assumes "at_level (dc_trades (df_discriminator d)) bp = 0" "1 / 10 ^ 9 \<le> at_level (dc_cancels (df_discriminator d)) bp"
    and "at_level (dc_trades (df_discriminator d)) ap = 0" "at_level (dc_cancels (df_discriminator d)) ap = 0"
    and "bp < ap" "1 / 10 ^ 9 \<le> av" "0 \<le> df_threshold d" "df_threshold d < 1"
  shows "mr_imbalance (snd (defend ((bp, bv) # bids) ((ap, av) # asks) d)) = -1
    \<and> mr_state (snd (defend ((bp, bv) # bids) ((ap, av) # asks) d)) = Sell_impulse"
proof -
  let ?d2 = "fst (reconcile_weight bp (df_discriminator d))"
  note bid = spoofed_weight [OF assms(1,2)]
  have "snd (reconcile_weight ap ?d2) = 1"
    using assms(3,4,5) bid(2,3) [of ap] by (simp add: reconcile_weight_def Let_def)
  moreover have "0 < av" using assms(6) by (rule less_le_trans [rotated]) simp
  ultimately show ?thesis
    using assms(5-8) bid(1) by (simp add: defend_def split_beta Let_def extract_features_def impulse_of_def)
qed

theorem spoofed_bid_ignored_witness:
  "mr_state (snd (defend [(100, 500)] [(101, 3)]
     (defender_init (1 / 2)\<lparr>df_discriminator := register_delta 100 7 2 (discriminator_init (95 / 100))\<rparr>))) = Sell_impulse"
  using spoofed_bid_ignored [of "defender_init (1 / 2)\<lparr>df_discriminator := register_delta 100 7 2 (discriminator_init (95 / 100))\<rparr>"
      100 101 3 500 "[]" "[]"]
  by (simp add: defender_init_def register_delta_def discriminator_init_def check_prune_def at_level_def)

end
