(* ===== verification/Exit_Guard.thy ===== *)
theory Exit_Guard
  imports Prelude "HOL-Library.AList"
begin

text \<open>
  The exit engine and its execution simulator (\<open>src/src/domain/exit_protocol.py\<close>), the
  friction guard that filters signals by their cost and the monitor that audits trades
  after the fact (\<open>src/src/domain/friction_guard.py\<close>).  The configured constants and the clock
  readings are arguments.
\<close>

section \<open>Signals and the exit engine\<close>

record l2_level =
  lv_price :: flt
  lv_volume :: flt

datatype exit_reason = No_exit | Time_decay | Wall_collapse | Dynamic_target | Toxic_flow | Manual_override

datatype signal_state = Active | Invalidated_toxic_flow | Invalidated_volume_spike | Invalidated_time_stop | Closed_manually

record active_signal =
  as_symbol :: symbol
  as_entry_ts :: time
  as_direction :: int
  as_bars :: int
  as_max_vpin :: flt
  as_anchor_price :: flt
  as_anchor_volume :: flt
  as_reason :: exit_reason

text \<open>A signal as its constructor makes it from the fields without a default.\<close>

definition new_signal :: "symbol \<Rightarrow> time \<Rightarrow> active_signal" where
  "new_signal s ts = \<lparr>as_symbol = s, as_entry_ts = ts, as_direction = 1, as_bars = 0, as_max_vpin = 0,
     as_anchor_price = 0, as_anchor_volume = 0, as_reason = No_exit\<rparr>"

record exit_engine =
  ee_max_holding :: flt
  ee_collapse :: flt

fun volume_at_price :: "flt \<Rightarrow> l2_level list \<Rightarrow> flt" where
  "volume_at_price p [] = 0"
| "volume_at_price p (l # ls) = (if \<bar>lv_price l - p\<bar> < 1 / 100000 then lv_volume l else volume_at_price p ls)"

definition wall_collapsed :: "exit_engine \<Rightarrow> active_signal \<Rightarrow> l2_level list \<Rightarrow> l2_level list \<Rightarrow> bool" where
  "wall_collapsed e sig bids asks \<longleftrightarrow>
     0 < as_anchor_price sig \<and> 0 < as_anchor_volume sig
     \<and> volume_at_price (as_anchor_price sig) (if 0 < as_direction sig then bids else asks)
         < as_anchor_volume sig * (1 - ee_collapse e)"

definition counter_wall :: "active_signal \<Rightarrow> l2_level list \<Rightarrow> l2_level list \<Rightarrow> bool" where
  "counter_wall sig bids asks \<longleftrightarrow>
     (if 0 < as_direction sig \<and> asks \<noteq> [] then as_anchor_volume sig * (3 / 2) < lv_volume (hd asks)
      else as_direction sig < 0 \<and> bids \<noteq> [] \<and> as_anchor_volume sig * (3 / 2) < lv_volume (hd bids))"

definition evaluate_position :: "exit_engine \<Rightarrow> active_signal \<Rightarrow> l2_level list \<Rightarrow> l2_level list \<Rightarrow> time \<Rightarrow> exit_reason" where
  "evaluate_position e sig bids asks now =
     (if as_reason sig \<noteq> No_exit then as_reason sig
      else if ee_max_holding e < now - as_entry_ts sig then Time_decay
      else if wall_collapsed e sig bids asks then Wall_collapse
      else if counter_wall sig bids asks then Dynamic_target
      else No_exit)"

text \<open>The legacy rules; only the decay of the VPIN ever answers.\<close>

definition vpin_decay_rule :: "flt \<Rightarrow> active_signal \<Rightarrow> flt \<Rightarrow> signal_state option" where
  "vpin_decay_rule decay sig vpin =
     (if 0 < as_max_vpin sig \<and> vpin < as_max_vpin sig * decay \<and> 3 < as_bars sig then Some Invalidated_toxic_flow else None)"

definition time_stop_rule :: "int \<Rightarrow> active_signal \<Rightarrow> flt \<Rightarrow> signal_state option" where
  "time_stop_rule max_bars sig vpin = None"

definition spike_rule :: "flt \<Rightarrow> active_signal \<Rightarrow> flt \<Rightarrow> signal_state option" where
  "spike_rule mult sig vpin = None"

section \<open>The execution simulator\<close>

text \<open>A price, \<open>float('inf')\<close>, or a division by zero.\<close>

datatype vwap = Vwap flt | Vwap_inf | Zero_division

text \<open>The walk down the levels, with the volume that remains and the cost so far.\<close>

fun vwap_walk :: "l2_level list \<Rightarrow> flt \<Rightarrow> flt \<Rightarrow> (flt \<times> flt) option" where
  "vwap_walk [] left cost = Some (left, cost)"
| "vwap_walk (l # ls) left cost =
     (if left \<le> 0 then Some (left, cost)
      else if lv_price l = 0 then None
      else let fill_cost = min (left / lv_price l) (lv_volume l) * lv_price l
           in vwap_walk ls (left - fill_cost) (cost + fill_cost))"

definition vwap_execution :: "l2_level list \<Rightarrow> flt \<Rightarrow> vwap" where
  "vwap_execution levels target =
     (case vwap_walk levels target 0 of
        None \<Rightarrow> Zero_division
      | Some (left, cost) \<Rightarrow> if 0 < left then Vwap_inf else if target = 0 then Zero_division else Vwap (cost / target))"

definition markout_of :: "flt \<Rightarrow> int \<Rightarrow> vwap \<Rightarrow> vwap \<Rightarrow> flt option" where
  "markout_of fee direction entry exit_px =
     (case (entry, exit_px) of
        (Zero_division, _) \<Rightarrow> None
      | (_, Zero_division) \<Rightarrow> None
      | (Vwap en, Vwap ex) \<Rightarrow>
          if en = 0 then Some (- 999)
          else Some ((ex - en) / en * 10000 * (if 0 < direction then 1 else -1) - fee * 2)
      | _ \<Rightarrow> Some (- 999))"

definition real_markout_bps ::
  "flt \<Rightarrow> int \<Rightarrow> l2_level list \<Rightarrow> l2_level list \<Rightarrow> l2_level list \<Rightarrow> l2_level list \<Rightarrow> flt \<Rightarrow> flt option" where
  "real_markout_bps fee direction entry_bids entry_asks exit_bids exit_asks target =
     (if 0 < direction
      then markout_of fee direction (vwap_execution entry_asks target) (vwap_execution exit_bids target)
      else markout_of fee direction (vwap_execution entry_bids target) (vwap_execution exit_asks target))"

section \<open>The friction guard\<close>

record l1_quote =
  q_bid :: flt
  q_ask :: flt
  q_ts :: time

record friction_guard =
  fg_fee :: flt
  fg_min_alpha :: flt
  fg_quotes :: "(symbol \<times> l1_quote) list"
  fg_stale :: flt

definition friction_guard_init :: "flt \<Rightarrow> flt \<Rightarrow> flt \<Rightarrow> friction_guard" where
  "friction_guard_init fee min_alpha stale = \<lparr>fg_fee = fee, fg_min_alpha = min_alpha, fg_quotes = [], fg_stale = stale\<rparr>"

definition update_quote :: "time \<Rightarrow> symbol \<Rightarrow> flt \<Rightarrow> flt \<Rightarrow> friction_guard \<Rightarrow> friction_guard" where
  "update_quote now s bid ask g = g\<lparr>fg_quotes := AList.update s \<lparr>q_bid = bid, q_ask = ask, q_ts = now\<rparr> (fg_quotes g)\<rparr>"

definition spread_bps :: "l1_quote \<Rightarrow> flt" where
  "spread_bps q = (q_ask q - q_bid q) / ((q_ask q + q_bid q) / 2) * 10000"

definition expected_alpha :: "flt \<Rightarrow> flt \<Rightarrow> flt" where
  "expected_alpha vpin threshold = (if 0 < threshold then (vpin - threshold) / threshold else 0) * 100"

definition is_tradable :: "time \<Rightarrow> symbol \<Rightarrow> flt \<Rightarrow> flt \<Rightarrow> friction_guard \<Rightarrow> bool" where
  "is_tradable now s vpin threshold g =
     (case map_of (fg_quotes g) s of
        None \<Rightarrow> True
      | Some q \<Rightarrow>
          if fg_stale g < now - q_ts q then True
          else if (q_ask q + q_bid q) / 2 \<le> 0 then True
          else \<not> expected_alpha vpin threshold - (spread_bps q + fg_fee g * 2) < fg_min_alpha g)"

section \<open>The toxicity monitor\<close>

text \<open>
  An audit of a trade waits for its three checkpoints in turn; \<open>au_next\<close> is the one it waits for.
  The state cache is read at each checkpoint: the entry of the symbol there, with its
  synchronisation flag and its mid price where it has one.
\<close>

record trade_audit =
  au_symbol :: symbol
  au_entry :: flt
  au_side :: string
  au_next :: nat
  au_results :: "(int \<times> flt) list"

record toxicity =
  tx_scores :: "(symbol \<times> flt) list"
  tx_audits :: "trade_audit list"

definition toxicity_init :: toxicity where
  "toxicity_init = \<lparr>tx_scores = [], tx_audits = []\<rparr>"

definition elapsed_at :: "nat \<Rightarrow> int" where
  "elapsed_at n = [1, 10, 60] ! n"

definition register_audit :: "symbol \<Rightarrow> flt \<Rightarrow> string \<Rightarrow> toxicity \<Rightarrow> toxicity" where
  "register_audit s entry side m =
     m\<lparr>tx_audits := tx_audits m @ [\<lparr>au_symbol = s, au_entry = entry, au_side = side, au_next = 0, au_results = []\<rparr>]\<rparr>"

definition pnl_bps :: "flt \<Rightarrow> flt \<Rightarrow> string \<Rightarrow> flt" where
  "pnl_bps entry current side = (if side = ''SELL'' then - ((current - entry) / entry) else (current - entry) / entry) * 10000"

definition get_multiplier :: "symbol \<Rightarrow> toxicity \<Rightarrow> flt" where
  "get_multiplier s m = (case map_of (tx_scores m) s of None \<Rightarrow> 1 | Some x \<Rightarrow> x)"

definition penalize :: "flt \<Rightarrow> symbol \<Rightarrow> toxicity \<Rightarrow> toxicity" where
  "penalize factor s m = m\<lparr>tx_scores := AList.update s (get_multiplier s m * factor) (tx_scores m)\<rparr>"

definition drop_audit :: "nat \<Rightarrow> toxicity \<Rightarrow> toxicity" where
  "drop_audit n m = m\<lparr>tx_audits := take n (tx_audits m) @ drop (Suc n) (tx_audits m)\<rparr>"

definition put_audit :: "nat \<Rightarrow> trade_audit \<Rightarrow> toxicity \<Rightarrow> toxicity" where
  "put_audit n a m = (if au_next a < 3 then m\<lparr>tx_audits := (tx_audits m)[n := a]\<rparr> else drop_audit n m)"

text \<open>
  One checkpoint of the audit at position \<open>n\<close>, which ends with its third.  A division by the
  entry price 0 ends the audit's task.
\<close>

definition checkpoint :: "flt \<Rightarrow> flt \<Rightarrow> nat \<Rightarrow> (bool \<times> flt option) option \<Rightarrow> toxicity \<Rightarrow> toxicity" where
  "checkpoint threshold factor n state m =
     (if n < length (tx_audits m) then
        let a = tx_audits m ! n; skip = a\<lparr>au_next := Suc (au_next a)\<rparr>
        in case state of
             None \<Rightarrow> put_audit n skip m
           | Some (synced, mid) \<Rightarrow>
               if \<not> synced then put_audit n skip m
               else if au_entry a = 0 then drop_audit n m
               else let pnl = pnl_bps (au_entry a) (case mid of None \<Rightarrow> au_entry a | Some p \<Rightarrow> p) (au_side a);
                        t = elapsed_at (au_next a);
                        done_a = skip\<lparr>au_results := au_results a @ [(t, pnl)]\<rparr>;
                        m1 = put_audit n done_a m
                    in if t = 1 \<and> pnl < threshold then penalize factor (au_symbol a) m1 else m1
      else m)"

text \<open>The adapter on the bus: an event object, or a dictionary with defaults.\<close>

datatype exec_event = Event_obj symbol "flt option" "string option" | Event_dict "symbol option" "flt option" "string option"

definition or_default :: "'a \<Rightarrow> 'a option \<Rightarrow> 'a" where
  "or_default d x = (case x of None \<Rightarrow> d | Some v \<Rightarrow> v)"

fun handle_execution :: "exec_event \<Rightarrow> toxicity \<Rightarrow> toxicity" where
  "handle_execution (Event_obj s p side) m = register_audit s (or_default 0 p) (or_default ''BUY'' side) m"
| "handle_execution (Event_dict s p side) m =
     register_audit (or_default ''UNKNOWN'' s) (or_default 0 p) (or_default ''BUY'' side) m"

section \<open>The exit is decided in order\<close>

text \<open>A position is left for the first reason that applies: the reason already set, the holding
  time, the collapse of the wall the position leans on, the wall against it, and only then
  not at all.\<close>

theorem exit_in_order:
  "evaluate_position e sig bids asks now = No_exit \<longleftrightarrow>
     as_reason sig = No_exit \<and> now - as_entry_ts sig \<le> ee_max_holding e
     \<and> \<not> wall_collapsed e sig bids asks \<and> \<not> counter_wall sig bids asks"
  by (auto simp: evaluate_position_def)

text \<open>A signal without an anchor is left at once.  With the anchor's volume at its default of 0 any
  volume at the best price of the other side counts as a wall, so that a fresh position in
  a book with an ask is told to take its profit.\<close>

theorem no_anchor_exits_at_once:
  assumes "asks \<noteq> []" "0 < lv_volume (hd asks)" "0 \<le> ee_max_holding e"
  shows "evaluate_position e (new_signal s now) bids asks now = Dynamic_target"
  using assms by (simp add: evaluate_position_def new_signal_def wall_collapsed_def counter_wall_def)

theorem no_anchor_exits_at_once_witness:
  "evaluate_position \<lparr>ee_max_holding = 180, ee_collapse = 3 / 4\<rparr> (new_signal ''X'' 7) [] [\<lparr>lv_price = 5, lv_volume = 1\<rparr>] 7
   = Dynamic_target"
  by (rule no_anchor_exits_at_once) simp_all

section \<open>The simulated price\<close>

definition notional :: "l2_level list \<Rightarrow> flt" where
  "notional levels = sum_list (map (\<lambda>l. lv_price l * lv_volume l) levels)"

definition solid :: "l2_level list \<Rightarrow> bool" where
  "solid levels \<longleftrightarrow> (\<forall>l \<in> set levels. 0 < lv_price l \<and> 0 \<le> lv_volume l)"

lemma solid_Cons [simp]: "solid (l # ls) \<longleftrightarrow> 0 < lv_price l \<and> 0 \<le> lv_volume l \<and> solid ls"
  by (auto simp: solid_def)

lemma notional_nonneg: "solid levels \<Longrightarrow> 0 \<le> notional levels"
  by (induction levels) (simp_all add: notional_def)

lemma vwap_walk_solid:
  assumes "solid levels" "0 \<le> left"
  shows "vwap_walk levels left cost = Some (max 0 (left - notional levels), cost + min left (notional levels))"
  using assms
proof (induction levels arbitrary: left cost)
  case Nil
  then show ?case by (simp add: notional_def)
next
  case (Cons l ls)
  show ?case
  proof (cases "left = 0")
    case True
    then show ?thesis using notional_nonneg [OF Cons.prems(1)] by simp
  next
    case False
    let ?w = "lv_price l * lv_volume l"
    have fill: "min (left / lv_price l) (lv_volume l) * lv_price l = min left ?w"
      using Cons.prems(1) by (simp add: min_def field_simps)
    have w: "0 \<le> ?w" and n: "0 \<le> notional ls" and total: "notional (l # ls) = ?w + notional ls"
      using Cons.prems(1) notional_nonneg by (simp_all add: notional_def)
    have "vwap_walk ls (left - min left ?w) (cost + min left ?w)
        = Some (max 0 (left - min left ?w - notional ls), cost + min left ?w + min (left - min left ?w) (notional ls))"
      using Cons.IH Cons.prems by simp
    then show ?thesis
      using False Cons.prems w n by (simp add: fill total Let_def) (auto simp: min_def max_def)
  qed
qed

lemma vwap_is_one_aux:
  "solid levels \<Longrightarrow> 0 < target \<Longrightarrow> vwap_execution levels target = (if target \<le> notional levels then Vwap 1 else Vwap_inf)"
  by (simp add: vwap_execution_def vwap_walk_solid min_def)

text \<open>The simulated average price does not depend on the book.  The cost is divided by the volume
  in dollars it was bought for, and not by the quantity, so that every order the book can fill
  has the price 1; an order it cannot fill has the price infinity.\<close>

theorem vwap_is_one:
  assumes "solid levels" "0 < target"
  shows "vwap_execution levels target = (if target \<le> notional levels then Vwap 1 else Vwap_inf)"
  using assms by (rule vwap_is_one_aux)

theorem vwap_is_one_witness:
  "vwap_execution [\<lparr>lv_price = 100, lv_volume = 3\<rparr>, \<lparr>lv_price = 101, lv_volume = 5\<rparr>] 400 = Vwap 1"
  using vwap_is_one [of "[\<lparr>lv_price = 100, lv_volume = 3\<rparr>, \<lparr>lv_price = 101, lv_volume = 5\<rparr>]" 400]
  by (simp add: notional_def solid_def)

text \<open>The simulated result of a trade is its fees.  Between any two books that can fill the order,
  however far the price moved, the markout is minus twice the taker fee.\<close>

theorem markout_is_fees:
  assumes "solid entry_asks" "solid exit_bids" "0 < target" "target \<le> notional entry_asks" "target \<le> notional exit_bids" "0 < direction"
  shows "real_markout_bps fee direction entry_bids entry_asks exit_bids exit_asks target = Some (- (fee * 2))"
  using assms by (simp add: real_markout_bps_def markout_of_def vwap_is_one_aux)

theorem markout_is_fees_witness:
  "real_markout_bps 4 1 [] [\<lparr>lv_price = 100, lv_volume = 3\<rparr>] [\<lparr>lv_price = 200, lv_volume = 3\<rparr>] [] 250 = Some (- 8)"
  using markout_is_fees [of "[\<lparr>lv_price = 100, lv_volume = 3\<rparr>]" "[\<lparr>lv_price = 200, lv_volume = 3\<rparr>]" 250 1 4 "[]" "[]"]
  by (simp add: notional_def solid_def)

section \<open>The friction filter\<close>

text \<open>The VPIN a signal needs to pay for its spread, its fees and the minimal edge.\<close>

definition required_vpin :: "friction_guard \<Rightarrow> l1_quote \<Rightarrow> flt \<Rightarrow> flt" where
  "required_vpin g q threshold = threshold * (1 + (spread_bps q + 2 * fg_fee g + fg_min_alpha g) / 100)"

text \<open>With a fresh quote a signal passes exactly when its VPIN reaches the threshold raised by the
  round trip's friction and the minimal edge, in percent of the threshold; without a fresh
  quote every signal passes.\<close>

theorem friction_filter_spec:
  assumes "0 < threshold"
  shows "is_tradable now s vpin threshold g \<longleftrightarrow>
    (case map_of (fg_quotes g) s of
       None \<Rightarrow> True
     | Some q \<Rightarrow> fg_stale g < now - q_ts q \<or> q_ask q + q_bid q \<le> 0 \<or> required_vpin g q threshold \<le> vpin)"
proof -
  have "\<not> expected_alpha vpin threshold - (spread_bps q + fg_fee g * 2) < fg_min_alpha g \<longleftrightarrow> required_vpin g q threshold \<le> vpin" for q
  proof -
    have "\<not> expected_alpha vpin threshold - (spread_bps q + fg_fee g * 2) < fg_min_alpha g
        \<longleftrightarrow> (spread_bps q + 2 * fg_fee g + fg_min_alpha g) / 100 \<le> (vpin - threshold) / threshold"
      using assms by (auto simp: expected_alpha_def)
    also have "\<dots> \<longleftrightarrow> (spread_bps q + 2 * fg_fee g + fg_min_alpha g) / 100 * threshold \<le> vpin - threshold"
      using assms by (rule pos_le_divide_eq)
    also have "\<dots> \<longleftrightarrow> required_vpin g q threshold \<le> vpin"
      by (simp add: required_vpin_def algebra_simps)
    finally show ?thesis .
  qed
  then show ?thesis by (auto simp: is_tradable_def split: option.split)
qed

theorem friction_filter_spec_witness:
  "\<not> is_tradable 10 ''X'' (7 / 10) (6 / 10) (update_quote 9 ''X'' 99 101 (friction_guard_init 6 5 30))"
  using friction_filter_spec [of "6 / 10" 10 "''X''" "7 / 10" "update_quote 9 ''X'' 99 101 (friction_guard_init 6 5 30)"]
  by (simp add: update_quote_def friction_guard_init_def required_vpin_def spread_bps_def)

section \<open>The penalties\<close>

datatype audit_op = Trade exec_event | Check nat "(bool \<times> flt option) option"

fun audit_step :: "flt \<Rightarrow> flt \<Rightarrow> audit_op \<Rightarrow> toxicity \<Rightarrow> toxicity" where
  "audit_step threshold factor (Trade ev) m = handle_execution ev m"
| "audit_step threshold factor (Check n state) m = checkpoint threshold factor n state m"

fun traded :: "symbol \<Rightarrow> audit_op \<Rightarrow> bool" where
  "traded s (Trade (Event_obj s' p side)) \<longleftrightarrow> s' = s"
| "traded s (Trade (Event_dict s' p side)) \<longleftrightarrow> or_default ''UNKNOWN'' s' = s"
| "traded s (Check n state) \<longleftrightarrow> False"

text \<open>The audits of a symbol that still wait for their first checkpoint.\<close>

definition fresh_audits :: "symbol \<Rightarrow> toxicity \<Rightarrow> nat" where
  "fresh_audits s m = length (filter (\<lambda>a. au_symbol a = s \<and> au_next a = 0) (tx_audits m))"

definition penalties_ok :: "flt \<Rightarrow> symbol \<Rightarrow> nat \<Rightarrow> toxicity \<Rightarrow> bool" where
  "penalties_ok factor s n m \<longleftrightarrow> (\<forall>a \<in> set (tx_audits m). au_next a < 3)
     \<and> (\<exists>k. get_multiplier s m = factor ^ k \<and> k + fresh_audits s m \<le> n)"

lemma count_remove:
  "n < length xs \<Longrightarrow> length (filter P (take n xs @ drop (Suc n) xs)) + (if P (xs ! n) then 1 else 0) = length (filter P xs)"
proof (induction xs arbitrary: n)
  case (Cons x xs)
  then show ?case by (cases n) auto
qed simp

lemma put_audit_frame [simp]:
  "get_multiplier s (put_audit n a m) = get_multiplier s m" "get_multiplier s (drop_audit n m) = get_multiplier s m"
  "tx_audits (penalize factor s' m) = tx_audits m"
  "get_multiplier s (penalize factor s' m) = (if s' = s then get_multiplier s m * factor else get_multiplier s m)"
  by (auto simp: put_audit_def drop_audit_def get_multiplier_def penalize_def update_conv' split: option.split)

lemma audits_drop: "tx_audits (drop_audit n m) = take n (tx_audits m) @ drop (Suc n) (tx_audits m)"
  by (simp add: drop_audit_def)

lemma drop_audit_fresh:
  "n < length (tx_audits m) \<Longrightarrow>
   fresh_audits s (drop_audit n m) + (if au_symbol (tx_audits m ! n) = s \<and> au_next (tx_audits m ! n) = 0 then 1 else 0) = fresh_audits s m"
  unfolding fresh_audits_def audits_drop by (rule count_remove)

lemma put_audit_fresh:
  "n < length (tx_audits m) \<Longrightarrow> 0 < au_next a \<Longrightarrow>
   fresh_audits s (put_audit n a m) + (if au_symbol (tx_audits m ! n) = s \<and> au_next (tx_audits m ! n) = 0 then 1 else 0) = fresh_audits s m"
proof (cases "au_next a < 3")
  case True
  assume n: "n < length (tx_audits m)" "0 < au_next a"
  show ?thesis
    using True n count_update [of n "tx_audits m" "\<lambda>a. au_symbol a = s \<and> au_next a = 0" a]
    by (simp only: fresh_audits_def put_audit_def if_True toxicity.simps) simp
qed (simp add: put_audit_def drop_audit_fresh)

lemma put_audit_bound:
  "\<forall>a \<in> set (tx_audits m). au_next a < 3 \<Longrightarrow> \<forall>a \<in> set (tx_audits (put_audit n a m)). au_next a < 3"
  "\<forall>a \<in> set (tx_audits m). au_next a < 3 \<Longrightarrow> \<forall>a \<in> set (tx_audits (drop_audit n m)). au_next a < 3"
  by (auto simp: put_audit_def drop_audit_def dest: in_set_takeD in_set_dropD dest!: set_update_subset_insert [THEN subsetD])

lemma elapsed_first: "k < 3 \<Longrightarrow> elapsed_at k = 1 \<longleftrightarrow> k = 0"
  by (cases k rule: nat.exhaust; simp add: elapsed_at_def nth_Cons split: nat.split)

lemma penalties_le:
  assumes "penalties_ok factor s k m" "get_multiplier s m' = get_multiplier s m" "fresh_audits s m' \<le> fresh_audits s m"
    and "\<forall>a \<in> set (tx_audits m'). au_next a < 3"
  shows "penalties_ok factor s k m'"
  using assms unfolding penalties_ok_def by (metis add_le_mono le_refl le_trans)

lemma penalties_put:
  assumes "penalties_ok factor s k m" "n < length (tx_audits m)"
  shows "0 < au_next a \<Longrightarrow> penalties_ok factor s k (put_audit n a m)" "penalties_ok factor s k (drop_audit n m)"
proof -
  have b: "\<forall>a \<in> set (tx_audits m). au_next a < 3" using assms(1) by (simp add: penalties_ok_def)
  show "penalties_ok factor s k (put_audit n a m)" if "0 < au_next a"
    using put_audit_fresh [OF assms(2) that, of s] by (intro penalties_le [OF assms(1)] put_audit_bound(1) [OF b]) simp_all
  show "penalties_ok factor s k (drop_audit n m)"
    using drop_audit_fresh [OF assms(2), of s] by (intro penalties_le [OF assms(1)] put_audit_bound(2) [OF b]) simp_all
qed

lemma penalties_check:
  assumes "penalties_ok factor s k m"
  shows "penalties_ok factor s k (checkpoint threshold factor n state m)"
proof (cases "n < length (tx_audits m)")
  case True
  let ?a = "tx_audits m ! n"
  have next3: "au_next ?a < 3" using assms True by (simp add: penalties_ok_def)
  have put: "penalties_ok factor s k (put_audit n a m)" if "0 < au_next a" for a
    using that by (rule penalties_put(1) [OF assms True])
  have drp: "penalties_ok factor s k (drop_audit n m)"
    by (rule penalties_put(2) [OF assms True])
  have pen: "penalties_ok factor s k (penalize factor (au_symbol ?a) (put_audit n a m))" if "0 < au_next a" "au_next ?a = 0" for a
  proof (cases "au_symbol ?a = s")
    case True
    obtain j where j: "get_multiplier s m = factor ^ j" "j + fresh_audits s m \<le> k" and b: "\<forall>a \<in> set (tx_audits m). au_next a < 3"
      using assms by (auto simp: penalties_ok_def)
    have "fresh_audits s (penalize factor s (put_audit n a m)) = fresh_audits s (put_audit n a m)"
      by (simp add: fresh_audits_def)
    with put_audit_fresh [OF \<open>n < length (tx_audits m)\<close> that(1), of s] True that(2) j(2)
    have "Suc j + fresh_audits s (penalize factor s (put_audit n a m)) \<le> k" by simp
    moreover have "get_multiplier s (penalize factor s (put_audit n a m)) = factor ^ Suc j" using j(1) by simp
    ultimately show ?thesis
      using put_audit_bound(1) [OF b, of n a] True unfolding penalties_ok_def by (intro conjI exI [of _ "Suc j"]) simp_all
  next
    case False
    then show ?thesis using put [OF that(1)] by (simp add: penalties_ok_def fresh_audits_def)
  qed
  show ?thesis
    using True next3 put drp pen by (simp add: checkpoint_def Let_def elapsed_first split: option.split)
qed (use assms in \<open>simp add: checkpoint_def\<close>)

lemma penalties_trade:
  "penalties_ok factor s k m \<Longrightarrow> penalties_ok factor s (if traded s (Trade ev) then Suc k else k) (handle_execution ev m)"
  by (cases ev) (fastforce simp: penalties_ok_def register_audit_def fresh_audits_def get_multiplier_def)+

lemma penalties_run:
  "penalties_ok factor s k m \<Longrightarrow> penalties_ok factor s (k + length (filter (traded s) evs)) (fold (audit_step threshold factor) evs m)"
proof (induction evs arbitrary: k m)
  case (Cons ev evs)
  show ?case
  proof (cases ev)
    case (Trade e)
    from Cons.IH [OF penalties_trade [OF Cons.prems, of e]] show ?thesis by (auto simp: Trade)
  next
    case (Check n state)
    from Cons.IH [OF penalties_check [OF Cons.prems, of threshold n state]] show ?thesis by (simp add: Check)
  qed
qed simp

text \<open>A trade is held against its symbol once.  After any run of trades and checkpoints the
  selectivity of a symbol is the penalty factor to the power of at most the number of its
  trades.\<close>

theorem one_penalty_per_trade:
  "\<exists>k. get_multiplier s (fold (audit_step threshold factor) evs toxicity_init) = factor ^ k \<and> k \<le> length (filter (traded s) evs)"
proof -
  have "penalties_ok factor s 0 toxicity_init"
    by (simp add: penalties_ok_def toxicity_init_def fresh_audits_def get_multiplier_def)
  from penalties_run [OF this, of evs threshold] show ?thesis by (auto simp: penalties_ok_def)
qed

end
