(* ===== verification/Anchor.thy ===== *)
theory Anchor
  imports Prelude "HOL-Library.AList" "HOL-Library.Sublist"
begin

text \<open>
  The gravitational anchor (\<open>src/src/domain/gravitational_anchor.py\<close>): the recent ticks of the
  leading symbols, and the blackout that a shock of a leader's price or spread starts.  A
  \<open>deque(maxlen=500)\<close> is a list cut to its newest 500 elements; \<open>time.monotonic()\<close> is the
  argument \<open>now\<close>.  Prices are scaled integers, and \<open>//\<close> on them is \<open>div\<close>.
\<close>

section \<open>The anchor\<close>

record macro_config =
  mc_shock :: int
  mc_window :: flt
  mc_blackout :: flt
  mc_spread :: int

definition default_macro :: macro_config where
  "default_macro = \<lparr>mc_shock = 35, mc_window = 3 / 2, mc_blackout = 5, mc_spread = 100\<rparr>"

type_synonym leader_tick = "time \<times> int"

record gravity =
  ga_config :: macro_config
  ga_leaders :: "(symbol \<times> leader_tick list) list"
  ga_until :: time
  ga_last :: "symbol \<times> int"
  ga_total :: int

definition anchor_init :: "macro_config \<Rightarrow> gravity" where
  "anchor_init c = \<lparr>ga_config = c, ga_leaders = [], ga_until = 0, ga_last = ('''', 0), ga_total = 0\<rparr>"

definition tick_buffer_size :: nat where
  "tick_buffer_size = 500"

definition register_leader :: "symbol \<Rightarrow> gravity \<Rightarrow> gravity" where
  "register_leader s A = (if s \<in> fst ` set (ga_leaders A) then A else A\<lparr>ga_leaders := ga_leaders A @ [(s, [])]\<rparr>)"

definition activate_blackout :: "symbol \<Rightarrow> int \<Rightarrow> time \<Rightarrow> gravity \<Rightarrow> gravity" where
  "activate_blackout s bps now A =
     (let deadline = now + mc_blackout (ga_config A)
      in A\<lparr>ga_total := (if ga_until A + 1 / 2 < deadline then ga_total A + 1 else ga_total A),
           ga_until := max (ga_until A) deadline, ga_last := (s, bps)\<rparr>)"

text \<open>Appending, and the eviction of the ticks before the window.\<close>

definition push_tick :: "flt \<Rightarrow> time \<Rightarrow> int \<Rightarrow> leader_tick list \<Rightarrow> leader_tick list" where
  "push_tick window now price buf =
     dropWhile (\<lambda>(t, p). t < now - window) (lastn tick_buffer_size (buf @ [(now, price)]))"

text \<open>The drift of the price since the oldest tick in the buffer, where there is one to compare with.\<close>

definition drift_bps :: "int \<Rightarrow> leader_tick list \<Rightarrow> int option" where
  "drift_bps price buf =
     (case buf of
        (t, oldest) # _ # _ \<Rightarrow> if oldest \<le> 0 then None else Some (\<bar>price - oldest\<bar> * 10000 div oldest)
      | _ \<Rightarrow> None)"

definition ingest_leader_tick :: "time \<Rightarrow> symbol \<Rightarrow> int \<Rightarrow> gravity \<Rightarrow> gravity" where
  "ingest_leader_tick now s price A =
     (case map_of (ga_leaders A) s of
        None \<Rightarrow> A
      | Some buf \<Rightarrow>
          let buf1 = push_tick (mc_window (ga_config A)) now price buf;
              A1 = A\<lparr>ga_leaders := AList.update s buf1 (ga_leaders A)\<rparr>
          in case drift_bps price buf1 of
               None \<Rightarrow> A1
             | Some d \<Rightarrow> if mc_shock (ga_config A) \<le> d then activate_blackout s d now A1 else A1)"

definition ingest_leader_spread :: "time \<Rightarrow> symbol \<Rightarrow> int \<Rightarrow> int \<Rightarrow> gravity \<Rightarrow> gravity" where
  "ingest_leader_spread now s bid ask A =
     (if bid \<le> 0 then A
      else let spread = (ask - bid) * 10000 div bid
           in if mc_spread (ga_config A) \<le> spread then activate_blackout s spread now A else A)"

definition is_blackout :: "time \<Rightarrow> gravity \<Rightarrow> bool" where
  "is_blackout now A \<longleftrightarrow> now < ga_until A"

definition blackout_remaining :: "time \<Rightarrow> gravity \<Rightarrow> flt" where
  "blackout_remaining now A = max 0 (ga_until A - now)"

lemma blackout_remaining_pos: "0 < blackout_remaining now A \<longleftrightarrow> is_blackout now A"
  by (auto simp: blackout_remaining_def is_blackout_def)

section \<open>The window over a leader's history\<close>

text \<open>What the buffer should hold: the ticks of the window among the newest 500.\<close>

definition recent_ticks :: "flt \<Rightarrow> time \<Rightarrow> leader_tick list \<Rightarrow> leader_tick list" where
  "recent_ticks window now hist = filter (\<lambda>(t, p). now - window \<le> t) (lastn tick_buffer_size hist)"

lemma sorted_ticks_simps:
  "sorted (map fst xs) \<Longrightarrow> sorted (map fst (lastn n xs))" "sorted (map fst xs) \<Longrightarrow> sorted (map fst (filter P xs))"
  by (simp_all add: sorted_map lastn_def sorted_wrt_drop sorted_wrt_filter)

lemma dropWhile_old: "sorted (map fst xs) \<Longrightarrow> dropWhile (\<lambda>(t, p). t < c) xs = filter (\<lambda>(t, p). c \<le> t) xs"
proof (induction xs)
  case (Cons x xs)
  show ?case
  proof (cases "fst x < c")
    case False
    then have "filter (\<lambda>(t, p). c \<le> t) xs = xs" using Cons.prems by (intro filter_True) fastforce
    with False show ?thesis by (auto split: prod.splits)
  qed (use Cons in \<open>auto split: prod.splits\<close>)
qed simp

text \<open>Cutting to the newest elements before or after an eviction makes no difference to what is new.\<close>

lemma filter_lastn_filter:
  fixes xs :: "leader_tick list" and c c' :: time
  assumes "sorted (map fst xs)" "c \<le> c'"
  shows "filter (\<lambda>(t, p). c' \<le> t) (lastn m (filter (\<lambda>(t, p). c \<le> t) xs)) = filter (\<lambda>(t, p). c' \<le> t) (lastn m xs)"
proof -
  let ?old = "takeWhile (\<lambda>(t, p). t < c) xs" and ?new = "dropWhile (\<lambda>(t, p). t < c) xs"
  have "filter (\<lambda>(t, p). c' \<le> t) (lastn k ?old) = []" for k
    using assms(2) set_lastn [of k ?old] by (fastforce simp: filter_empty_conv dest: set_takeWhileD)
  then have "filter (\<lambda>(t, p). c' \<le> t) (lastn m (?old @ ?new)) = filter (\<lambda>(t, p). c' \<le> t) (lastn m ?new)"
    by (simp only: lastn_append filter_append) simp
  then have "filter (\<lambda>(t, p). c' \<le> t) (lastn m xs) = filter (\<lambda>(t, p). c' \<le> t) (lastn m ?new)"
    unfolding takeWhile_dropWhile_id .
  then show ?thesis unfolding dropWhile_old [OF assms(1)] by (rule sym)
qed

text \<open>Only the buffer is needed to know the next one.\<close>

lemma recent_push:
  assumes "sorted (map fst (hist @ [(now', price)]))" "now \<le> now'"
  shows "push_tick window now' price (recent_ticks window now hist) = recent_ticks window now' (hist @ [(now', price)])"
proof -
  let ?n = tick_buffer_size and ?new = "\<lambda>(t :: time, p :: int). now' - window \<le> t"
  let ?buf = "recent_ticks window now hist"
  have h: "sorted (map fst hist)" "\<forall>x \<in> set hist. fst x \<le> now'" using assms(1) by (auto simp: sorted_append)
  have "sorted (map fst (?buf @ [(now', price)]))"
    using h set_lastn [of ?n hist] by (fastforce simp: recent_ticks_def sorted_append sorted_ticks_simps)
  then have "push_tick window now' price ?buf = filter ?new (lastn ?n (?buf @ [(now', price)]))"
    unfolding push_tick_def by (intro dropWhile_old sorted_ticks_simps)
  also have "\<dots> = filter ?new (lastn (?n - 1) ?buf) @ filter ?new [(now', price)]"
    by (simp add: lastn_snoc tick_buffer_size_def)
  also have "filter ?new (lastn (?n - 1) ?buf) = filter ?new (lastn (?n - 1) hist)"
    using filter_lastn_filter [OF sorted_ticks_simps(1) [OF h(1), of ?n], of "now - window" "now' - window" "?n - 1"] assms(2)
    by (simp add: recent_ticks_def lastn_lastn_less)
  also have "\<dots> @ filter ?new [(now', price)] = recent_ticks window now' (hist @ [(now', price)])"
    by (simp add: recent_ticks_def lastn_snoc tick_buffer_size_def)
  finally show ?thesis .
qed

section \<open>The blackouts of a run\<close>

datatype anchor_event = Leader_tick time symbol int | Leader_spread time symbol int int

fun anchor_time :: "anchor_event \<Rightarrow> time" where
  "anchor_time (Leader_tick t s p) = t"
| "anchor_time (Leader_spread t s b a) = t"

fun anchor_step :: "anchor_event \<Rightarrow> gravity \<Rightarrow> gravity" where
  "anchor_step (Leader_tick t s p) A = ingest_leader_tick t s p A"
| "anchor_step (Leader_spread t s b a) A = ingest_leader_spread t s b a A"

fun tick_of :: "symbol \<Rightarrow> anchor_event \<Rightarrow> leader_tick option" where
  "tick_of s (Leader_tick t s' p) = (if s' = s then Some (t, p) else None)"
| "tick_of s (Leader_spread t s' b a) = None"

definition history :: "symbol \<Rightarrow> anchor_event list \<Rightarrow> leader_tick list" where
  "history s evs = List.map_filter (tick_of s) evs"

text \<open>
  The specification: an event is a shock when the price moved too far from the oldest price of the
  window, read off the whole history of the leader, or when the spread is too wide.
\<close>

fun shock :: "macro_config \<Rightarrow> symbol set \<Rightarrow> anchor_event list \<Rightarrow> anchor_event \<Rightarrow> bool" where
  "shock c leaders past (Leader_tick t s p) \<longleftrightarrow> s \<in> leaders
     \<and> (case drift_bps p (recent_ticks (mc_window c) t (history s past @ [(t, p)])) of None \<Rightarrow> False | Some d \<Rightarrow> mc_shock c \<le> d)"
| "shock c leaders past (Leader_spread t s b a) \<longleftrightarrow> 0 < b \<and> mc_spread c \<le> (a - b) * 10000 div b"

text \<open>Whether some shock of the run holds the blackout open at the time given.\<close>

fun shocked_at :: "macro_config \<Rightarrow> symbol set \<Rightarrow> time \<Rightarrow> anchor_event list \<Rightarrow> anchor_event list \<Rightarrow> bool" where
  "shocked_at c leaders t past [] \<longleftrightarrow> False"
| "shocked_at c leaders t past (e # es) \<longleftrightarrow>
     shock c leaders past e \<and> t < anchor_time e + mc_blackout c \<or> shocked_at c leaders t (past @ [e]) es"

text \<open>The buffer of a leader is the window over its history at its newest tick.\<close>

definition window_of :: "flt \<Rightarrow> leader_tick list \<Rightarrow> leader_tick list" where
  "window_of w hist = (if hist = [] then [] else recent_ticks w (fst (last hist)) hist)"

definition anchor_inv :: "macro_config \<Rightarrow> symbol set \<Rightarrow> anchor_event list \<Rightarrow> gravity \<Rightarrow> bool" where
  "anchor_inv c leaders past A \<longleftrightarrow> ga_config A = c
     \<and> (\<forall>s. map_of (ga_leaders A) s = (if s \<in> leaders then Some (window_of (mc_window c) (history s past)) else None))"

lemma window_push:
  assumes "sorted (map fst (hist @ [(t, p)]))"
  shows "push_tick w t p (window_of w hist) = recent_ticks w t (hist @ [(t, p)])"
proof (cases "hist = []")
  case True
  have "recent_ticks w t [] = []" by (simp add: recent_ticks_def)
  with recent_push [of "[]" t p t w] True show ?thesis by (simp add: window_of_def)
next
  case False
  then have "fst (last hist) \<le> t" using assms by (auto simp: sorted_append)
  with recent_push [OF assms] False show ?thesis by (simp add: window_of_def)
qed

lemma history_simps [simp]:
  "history s [] = []" "history s (evs @ [e]) = history s evs @ (case tick_of s e of None \<Rightarrow> [] | Some x \<Rightarrow> [x])"
  by (simp_all add: history_def List.map_filter_def split: option.split)

lemma tick_of_time: "tick_of s e = Some x \<Longrightarrow> fst x = anchor_time e"
  by (cases e) (auto split: if_splits)

lemma history_times: "fst ` set (history s evs) \<subseteq> anchor_time ` set evs"
proof (induction evs rule: rev_induct)
  case (snoc e evs)
  then show ?case using tick_of_time [of s e] by (cases "tick_of s e") auto
qed simp

lemma history_sorted: "sorted (map anchor_time evs) \<Longrightarrow> sorted (map fst (history s evs))"
proof (induction evs rule: rev_induct)
  case (snoc e evs)
  then have le: "\<forall>x \<in> set (history s evs). fst x \<le> anchor_time e" using history_times [of s evs] by (fastforce simp: sorted_append)
  with snoc show ?case by (auto simp: sorted_append split: option.split dest!: tick_of_time)
qed simp

lemma until_activate [simp]:
  "ga_until (activate_blackout s d now A) = max (ga_until A) (now + mc_blackout (ga_config A))"
  "ga_config (activate_blackout s d now A) = ga_config A" "ga_leaders (activate_blackout s d now A) = ga_leaders A"
  by (simp_all add: activate_blackout_def Let_def)

lemma anchor_step_inv:
  assumes "anchor_inv c leaders past A" "sorted (map anchor_time (past @ [e]))"
  shows "anchor_inv c leaders (past @ [e]) (anchor_step e A)"
    and "ga_until (anchor_step e A) = (if shock c leaders past e then max (ga_until A) (anchor_time e + mc_blackout c) else ga_until A)"
proof -
  have srt: "sorted (map fst (history s (past @ [e])))" for s using history_sorted [OF assms(2)] .
  show "anchor_inv c leaders (past @ [e]) (anchor_step e A)"
  proof (cases e)
    case (Leader_tick t s p)
    then have "push_tick (mc_window c) t p (window_of (mc_window c) (history s past)) = window_of (mc_window c) (history s past @ [(t, p)])"
      using window_push [of "history s past" t p] srt [of s] by (simp add: window_of_def)
    with assms(1) Leader_tick show ?thesis
      by (auto simp: anchor_inv_def ingest_leader_tick_def Let_def update_conv' split: option.splits)
  next
    case (Leader_spread t s b a)
    with assms(1) show ?thesis by (simp add: anchor_inv_def ingest_leader_spread_def Let_def)
  qed
  show "ga_until (anchor_step e A) = (if shock c leaders past e then max (ga_until A) (anchor_time e + mc_blackout c) else ga_until A)"
  proof (cases e)
    case (Leader_tick t s p)
    then have "push_tick (mc_window c) t p (window_of (mc_window c) (history s past)) = recent_ticks (mc_window c) t (history s past @ [(t, p)])"
      using window_push [of "history s past" t p] srt [of s] by simp
    with assms(1) Leader_tick show ?thesis
      by (auto simp: anchor_inv_def ingest_leader_tick_def Let_def split: option.splits)
  next
    case (Leader_spread t s b a)
    with assms(1) show ?thesis by (auto simp: anchor_inv_def ingest_leader_spread_def Let_def)
  qed
qed

lemma blackout_run:
  "anchor_inv c leaders past A \<Longrightarrow> sorted (map anchor_time (past @ evs)) \<Longrightarrow>
     is_blackout t (fold anchor_step evs A) \<longleftrightarrow> is_blackout t A \<or> shocked_at c leaders t past evs"
proof (induction evs arbitrary: past A)
  case (Cons e evs)
  have srt: "sorted (map anchor_time (past @ [e]))" "sorted (map anchor_time ((past @ [e]) @ evs))"
    using Cons.prems(2) by (auto simp: sorted_append)
  note step = anchor_step_inv [OF Cons.prems(1) srt(1)]
  from Cons.IH [OF step(1) srt(2)] show ?case
    by (auto simp: is_blackout_def step(2) less_max_iff_disj)
qed simp

lemma registered_inv:
  "anchor_inv c (set ls) [] (fold register_leader ls (anchor_init c))"
proof -
  define inv where "inv = (\<lambda>L (A :: gravity). ga_config A = c \<and> (\<forall>s. map_of (ga_leaders A) s = (if s \<in> L then Some ([] :: leader_tick list) else None)))"
  have step: "inv (insert l L) (register_leader l A)" if "inv L A" for l L A
  proof (cases "l \<in> L")
    case True
    then have "l \<in> fst ` set (ga_leaders A)"
      using that by (metis inv_def map_of_eq_None_iff option.distinct(1))
    with True that show ?thesis by (simp add: register_leader_def insert_absorb)
  next
    case False
    then have "l \<notin> fst ` set (ga_leaders A)" using that by (metis inv_def map_of_eq_None_iff)
    with that show ?thesis by (auto simp: inv_def register_leader_def map_add_def split: option.split)
  qed
  have "inv (set ls \<union> L) (fold register_leader ls A)" if "inv L A" for L A
    using that
  proof (induction ls arbitrary: L A)
    case (Cons l ls)
    from Cons.IH [OF step [OF Cons.prems, of l]] show ?case by simp
  qed simp
  from this [of "{}" "anchor_init c"] show ?thesis by (auto simp: inv_def anchor_inv_def anchor_init_def window_of_def)
qed

text \<open>The blackout holds when it should and only then.  After any run of leader ticks and spreads in
  the order of the clock, trading is blocked at a time exactly when some event of the run was
  a shock less than the blackout's duration ago: the spread too wide, or the price too far from
  the oldest one of the leader's window, counted over its whole history.\<close>

theorem blackout_iff_shock:
  assumes "sorted (map anchor_time evs)" "0 \<le> t"
  shows "is_blackout t (fold anchor_step evs (fold register_leader ls (anchor_init c))) \<longleftrightarrow> shocked_at c (set ls) t [] evs"
proof -
  have "ga_until (fold register_leader ls A) = ga_until A" for A
    by (induction ls arbitrary: A) (simp_all add: register_leader_def)
  then have "\<not> is_blackout t (fold register_leader ls (anchor_init c))"
    using assms(2) by (simp add: is_blackout_def anchor_init_def)
  with blackout_run [OF registered_inv, of evs t] assms(1) show ?thesis by simp
qed

theorem blackout_iff_shock_witness:
  "is_blackout 6 (fold anchor_step [Leader_tick 1 ''BTC'' 10000, Leader_tick 2 ''BTC'' 10040]
     (fold register_leader [''BTC''] (anchor_init default_macro)))"
proof -
  have "shocked_at default_macro {''BTC''} 6 [] [Leader_tick 1 ''BTC'' 10000, Leader_tick 2 ''BTC'' 10040]"
    by (simp add: default_macro_def drift_bps_def recent_ticks_def lastn_def tick_buffer_size_def history_def List.map_filter_def)
  with blackout_iff_shock [of "[Leader_tick 1 ''BTC'' 10000, Leader_tick 2 ''BTC'' 10040]" 6 "[''BTC'']" default_macro]
  show ?thesis by simp
qed

text \<open>A deadline is never moved back, and no leader's buffer exceeds its bound.\<close>

lemma deadline_grows: "ga_until A \<le> ga_until (anchor_step e A)"
  by (cases e) (auto simp: ingest_leader_tick_def ingest_leader_spread_def Let_def split: option.split)

lemma push_tick_bound: "length (push_tick w t p buf) \<le> tick_buffer_size"
  by (simp add: push_tick_def) (metis length_dropWhile_le length_lastn min.cobounded1 order_trans)

end
