(* ===== verification/Resilience.thy ===== *)
theory Resilience
  imports Interfaces "HOL-Library.AList" "HOL-Library.Multiset"
begin

text \<open>
  The resilience managers (\<open>src/src/shared/resilience.py\<close>): the latency monitor with its two
  percentiles over one ring buffer, the admission and divergence guards, the emulated exchange
  clock, the healer of components and the manager that ties them together.  Clock readings are
  arguments; \<open>int()\<close> of a latency is taken to fit the buffer's 32 bits.
\<close>

section \<open>Percentiles\<close>

text \<open>\<open>int(np.percentile(xs, 99))\<close>: linear interpolation between the neighbours of rank \<open>0.99 (n - 1)\<close>.\<close>

definition p99 :: "int list \<Rightarrow> int" where
  "p99 xs =
     (let s = sort xs; v = real (length xs - 1) * 99 / 100; lo = nat \<lfloor>v\<rfloor>; hi = min (lo + 1) (length xs - 1)
      in py_int (real_of_int (s ! lo) + (v - real lo) * (real_of_int (s ! hi) - real_of_int (s ! lo))))"

section \<open>The latency monitor\<close>

definition wide_window :: nat where "wide_window = 1000"
definition short_window :: nat where "short_window = 200"
definition coherence_window :: int where "coherence_window = 10"
definition rearm_threshold :: int where "rearm_threshold = 100"
definition infra_breaker :: int where "infra_breaker = 150"
definition scaling_factor :: int where "scaling_factor = 10 ^ 8"

record entropy =
  en_tunnel :: bool
  en_heat :: flt
  en_buffer :: "int list"
  en_ptr :: nat
  en_warm :: bool
  en_wide :: int
  en_short :: int
  en_rtt :: flt
  en_tps :: int
  en_tps_count :: int
  en_tps_reset :: time

definition entropy_init :: "time \<Rightarrow> entropy" where
  "entropy_init now = \<lparr>en_tunnel = False, en_heat = 0, en_buffer = replicate wide_window 0, en_ptr = 0, en_warm = False,
     en_wide = 20, en_short = 20, en_rtt = 20, en_tps = 0, en_tps_count = 0, en_tps_reset = now\<rparr>"

definition measured :: "entropy \<Rightarrow> int list" where
  "measured e = (if en_warm e then en_buffer e else take (en_ptr e) (en_buffer e))"

text \<open>The newest 200 samples, with the wrap around the end of the buffer.\<close>

definition short_data :: "entropy \<Rightarrow> int list" where
  "short_data e =
     (if short_window \<le> en_ptr e then slice (en_buffer e) (en_ptr e - short_window) (en_ptr e)
      else lastn (short_window - en_ptr e) (en_buffer e) @ take (en_ptr e) (en_buffer e))"

definition update_resolutions :: "entropy \<Rightarrow> entropy" where
  "update_resolutions e =
     (if length (measured e) < short_window then e
      else e\<lparr>en_wide := p99 (measured e), en_short := p99 (short_data e)\<rparr>)"

definition count_tick :: "bool \<Rightarrow> time \<Rightarrow> entropy \<Rightarrow> entropy" where
  "count_tick pulse now e0 =
     (let e = (if pulse then e0\<lparr>en_tps_count := en_tps_count e0 + 1\<rparr> else e0)
      in if 1 \<le> now - en_tps_reset e then e\<lparr>en_tps := en_tps_count e, en_tps_count := 0, en_tps_reset := now\<rparr> else e)"

definition store_sample :: "int \<Rightarrow> entropy \<Rightarrow> entropy" where
  "store_sample x e =
     (let ptr = (en_ptr e + 1) mod wide_window
      in e\<lparr>en_buffer := (en_buffer e)[en_ptr e := x], en_ptr := ptr, en_warm := en_warm e \<or> ptr = 0\<rparr>)"

definition update_metrics :: "time \<Rightarrow> flt \<Rightarrow> flt \<Rightarrow> bool \<Rightarrow> entropy \<Rightarrow> entropy" where
  "update_metrics now heat rtt pulse e =
     (let e1 = store_sample (py_int rtt) (count_tick pulse now (e\<lparr>en_heat := heat, en_rtt := rtt\<rparr>))
      in if en_ptr e1 mod 10 = 0 then update_resolutions e1 else e1)"

definition check_infra_health :: "entropy \<Rightarrow> bool" where
  "check_infra_health e = (if en_wide e \<le> infra_breaker then True else en_short e < rearm_threshold)"

definition jitter_penalty :: "entropy \<Rightarrow> int" where
  "jitter_penalty e =
     (let effective = (if real_of_int (en_short e) < real_of_int (en_wide e) * (2 / 5) \<and> \<not> en_tps e < 10
                       then py_int (real_of_int (en_short e) * (7 / 10) + real_of_int (en_wide e) * (3 / 10)) else en_wide e)
      in 2 + max 0 (effective - 20) div 25)"

text \<open>\<open>sectors\<close> is the heat of the sectors where a sentry is bound, \<open>np.mean\<close> their mean.\<close>

definition check_global_pressure :: "flt list option \<Rightarrow> entropy \<Rightarrow> entropy \<times> bool" where
  "check_global_pressure sectors e =
     (case sectors of
        None \<Rightarrow> (e, False)
      | Some hs \<Rightarrow>
          let heat = sum_list hs / real (length hs); e1 = e\<lparr>en_heat := heat\<rparr>;
              e2 = (if 85 / 100 < heat \<and> \<not> en_tunnel e1 then e1\<lparr>en_tunnel := True\<rparr>
                    else if heat < 2 / 5 \<and> en_tunnel e1 then e1\<lparr>en_tunnel := False\<rparr> else e1)
          in (e2, en_tunnel e2))"

definition should_shed_tick :: "symbol \<Rightarrow> bool \<Rightarrow> symbol list \<Rightarrow> entropy \<Rightarrow> bool" where
  "should_shed_tick s private cortex e \<longleftrightarrow> \<not> private \<and> en_tunnel e \<and> s \<notin> set cortex"

section \<open>The guards and the clock\<close>

record ghost_quota =
  gq_limit :: int
  gq_zombies :: int

definition register_task :: "ghost_quota \<Rightarrow> ghost_quota" where
  "register_task q = q\<lparr>gq_zombies := gq_zombies q + 1\<rparr>"

definition release_task :: "ghost_quota \<Rightarrow> ghost_quota" where
  "release_task q = q\<lparr>gq_zombies := max 0 (gq_zombies q - 1)\<rparr>"

definition is_admission_allowed :: "ghost_quota \<Rightarrow> bool" where
  "is_admission_allowed q \<longleftrightarrow> gq_zombies q < gq_limit q"

definition calibrate :: "int \<Rightarrow> int \<Rightarrow> int \<Rightarrow> int" where
  "calibrate now_ns exchange_ms offset = (if exchange_ms \<le> 0 then offset else exchange_ms * 1000000 - now_ns)"

definition now_ms :: "int \<Rightarrow> int \<Rightarrow> int" where
  "now_ms now_ns offset = (now_ns + offset) div 1000000"

definition loop_starved :: "flt \<Rightarrow> time \<Rightarrow> time \<Rightarrow> int \<Rightarrow> int" where
  "loop_starved threshold_ms start woke n = (if threshold_ms / 1000 < woke - start - 1 / 100 then n + 1 else n)"

record divergence =
  dv_lagging :: bool
  dv_threshold :: flt

definition detect_desync :: "entropy \<Rightarrow> entropy \<Rightarrow> divergence \<Rightarrow> divergence \<times> bool" where
  "detect_desync primary ref d =
     (if dv_threshold d < en_heat primary - en_heat ref then (d\<lparr>dv_lagging := True\<rparr>, True) else (d\<lparr>dv_lagging := False\<rparr>, False))"

record volume_verifier =
  vv_threshold :: int
  vv_l1_ts :: int
  vv_l1_volume :: int

definition volume_verifier_init :: "flt \<Rightarrow> volume_verifier" where
  "volume_verifier_init t = \<lparr>vv_threshold = py_int (t * of_int scaling_factor), vv_l1_ts = 0, vv_l1_volume = 0\<rparr>"

definition update_reference_tape :: "int \<Rightarrow> int \<Rightarrow> volume_verifier \<Rightarrow> volume_verifier" where
  "update_reference_tape ts vol v = v\<lparr>vv_l1_ts := ts, vv_l1_volume := vol\<rparr>"

definition verify_sync :: "int \<Rightarrow> volume_verifier \<Rightarrow> bool" where
  "verify_sync l2_ts v \<longleftrightarrow> 0 \<le> l2_ts - vv_l1_ts v \<and> l2_ts - vv_l1_ts v \<le> coherence_window"

text \<open>\<open>None\<close> is the division by zero for an average volume of -1.\<close>

definition is_pulse_real :: "flt \<Rightarrow> int \<Rightarrow> int \<Rightarrow> int \<Rightarrow> volume_verifier \<Rightarrow> bool option" where
  "is_pulse_real imbalance l1_vol avg_vol l2_ts v =
     (if \<bar>imbalance\<bar> < 4 / 5 then Some False
      else if \<not> verify_sync l2_ts v then Some False
      else if avg_vol + 1 = 0 then None
      else Some (vv_threshold v < (l1_vol * scaling_factor) div (avg_vol + 1)))"

text \<open>The priorities are an \<open>IntEnum\<close>: they are compared by their numbers.\<close>

datatype hydration_priority = Critical_risk | Gravity_leader | Vip | Shared_prio | Default_prio

fun prio_number :: "hydration_priority \<Rightarrow> int" where
  "prio_number Critical_risk = 0"
| "prio_number Gravity_leader = 1"
| "prio_number Vip = 2"
| "prio_number Shared_prio = 3"
| "prio_number Default_prio = 4"

lemma prio_number_inj: "prio_number p = prio_number q \<Longrightarrow> p = q"
  by (cases p; cases q) simp_all

instantiation hydration_priority :: linorder
begin

definition less_eq_hydration_priority :: "hydration_priority \<Rightarrow> hydration_priority \<Rightarrow> bool" where
  "less_eq_hydration_priority p q \<longleftrightarrow> prio_number p \<le> prio_number q"

definition less_hydration_priority :: "hydration_priority \<Rightarrow> hydration_priority \<Rightarrow> bool" where
  "less_hydration_priority p q \<longleftrightarrow> prio_number p < prio_number q"

instance
  by standard (auto simp: less_eq_hydration_priority_def less_hydration_priority_def intro: prio_number_inj)

end

text \<open>The wait before a REST call.\<close>

definition rest_wait :: "hydration_priority \<Rightarrow> flt" where
  "rest_wait p = (if p \<le> Vip then 0 else 5 / 100)"

lemma rest_wait_mono: "p \<le> q \<Longrightarrow> rest_wait p \<le> rest_wait q"
  by (auto simp: rest_wait_def)

section \<open>The healer and the manager\<close>

text \<open>
  The failures of each component in the window, the components being healed, and (as the state
  of the event loop) the healing tasks that run.
\<close>

record healer =
  hl_limit :: nat
  hl_window :: flt
  hl_failures :: "(string \<times> time list) list"
  hl_locks :: "string list"
  hl_tasks :: "string list"

definition healer_init :: "nat \<Rightarrow> flt \<Rightarrow> healer" where
  "healer_init limit window = \<lparr>hl_limit = limit, hl_window = window, hl_failures = [], hl_locks = [], hl_tasks = []\<rparr>"

definition failures_of :: "string \<Rightarrow> healer \<Rightarrow> time list" where
  "failures_of c h = (case map_of (hl_failures h) c of None \<Rightarrow> [] | Some ts \<Rightarrow> ts)"

definition heal_register :: "time \<Rightarrow> string \<Rightarrow> bool \<Rightarrow> healer \<Rightarrow> healer \<times> bool" where
  "heal_register now c callback h =
     (let ts = filter (\<lambda>t. now - t \<le> hl_window h) (failures_of c h) @ [now];
          h1 = h\<lparr>hl_failures := AList.update c ts (hl_failures h)\<rparr>
      in if hl_limit h \<le> length ts \<and> c \<notin> set (hl_locks h)
         then (h1\<lparr>hl_locks := hl_locks h @ [c], hl_tasks := (if callback then hl_tasks h @ [c] else hl_tasks h)\<rparr>, True)
         else (h1, False))"

text \<open>The end of a healing task, whether its callback succeeded or raised.\<close>

definition heal_done :: "string \<Rightarrow> healer \<Rightarrow> healer" where
  "heal_done c h = h\<lparr>hl_failures := AList.update c [] (hl_failures h), hl_locks := removeAll c (hl_locks h), hl_tasks := remove1 c (hl_tasks h)\<rparr>"

record resilience =
  rs_entropy :: entropy
  rs_quota :: ghost_quota
  rs_healer :: healer
  rs_failures :: "(string \<times> int) list"
  rs_attempts :: "(string \<times> int) list"

definition resilience_init :: "time \<Rightarrow> resilience" where
  "resilience_init now = \<lparr>rs_entropy = entropy_init now, rs_quota = \<lparr>gq_limit = 50, gq_zombies = 0\<rparr>, rs_healer = healer_init 5 10,
     rs_failures = [], rs_attempts = [(''BybitWS_Public'', 0), (''BybitWS_Private'', 0), (''Redis'', 0), (''Telegram'', 0)]\<rparr>"

definition bump_count :: "string \<Rightarrow> (string \<times> int) list \<Rightarrow> (string \<times> int) list" where
  "bump_count s xs = AList.update s ((case map_of xs s of None \<Rightarrow> 0 | Some n \<Rightarrow> n) + 1) xs"

definition register_failure :: "time \<Rightarrow> string \<Rightarrow> bool \<Rightarrow> resilience \<Rightarrow> resilience" where
  "register_failure now s callback R =
     R\<lparr>rs_failures := bump_count s (rs_failures R), rs_attempts := bump_count s (rs_attempts R),
       rs_healer := fst (heal_register now s callback (rs_healer R))\<rparr>"

definition register_success :: "string \<Rightarrow> resilience \<Rightarrow> resilience" where
  "register_success s R = R\<lparr>rs_failures := AList.delete s (rs_failures R), rs_attempts := AList.delete s (rs_attempts R)\<rparr>"

text \<open>The shadow verification is switched off: its state is always armed.\<close>

definition is_armed :: "resilience \<Rightarrow> bool" where
  "is_armed R \<longleftrightarrow> is_admission_allowed (rs_quota R) \<and> check_infra_health (rs_entropy R)"

section \<open>The percentiles are those of the newest samples\<close>

text \<open>The samples in the buffer, oldest first.\<close>

definition samples :: "entropy \<Rightarrow> int list" where
  "samples e = (if en_warm e then drop (en_ptr e) (en_buffer e) @ take (en_ptr e) (en_buffer e) else take (en_ptr e) (en_buffer e))"

definition entropy_ok :: "entropy \<Rightarrow> bool" where
  "entropy_ok e \<longleftrightarrow> length (en_buffer e) = wide_window \<and> en_ptr e < wide_window"

lemma rotate_push:
  assumes "length xs = n" "p < n"
  shows "Suc p < n \<Longrightarrow> drop (Suc p) (xs[p := x]) @ take (Suc p) (xs[p := x]) = tl (drop p xs @ take p xs) @ [x]"
    and "Suc p = n \<Longrightarrow> xs[p := x] = tl (drop p xs @ take p xs) @ [x]"
proof -
  have d: "drop p xs = xs ! p # drop (Suc p) xs" using assms by (simp add: Cons_nth_drop_Suc)
  show "drop (Suc p) (xs[p := x]) @ take (Suc p) (xs[p := x]) = tl (drop p xs @ take p xs) @ [x]" if "Suc p < n"
    using assms that by (simp add: d take_Suc_conv_app_nth)
  show "xs[p := x] = tl (drop p xs @ take p xs) @ [x]" if "Suc p = n"
    using assms that by (simp add: d upd_conv_take_nth_drop)
qed

interpretation latency: bounded_log store_sample samples "\<lambda>_. wide_window" entropy_ok
proof unfold_locales
  fix e x
  assume ok: "entropy_ok e"
  then have len: "length (en_buffer e) = wide_window" and p: "en_ptr e < wide_window" by (simp_all add: entropy_ok_def)
  show "entropy_ok (store_sample x e)"
    using ok by (simp add: entropy_ok_def store_sample_def Let_def wide_window_def)
  show "length (samples e) \<le> wide_window" using len p by (simp add: samples_def)
  show "samples (store_sample x e) = lastn wide_window (samples e @ [x])"
  proof (cases "Suc (en_ptr e) < wide_window")
    case True
    then have ptr: "(en_ptr e + 1) mod wide_window = Suc (en_ptr e)" by simp
    show ?thesis
    proof (cases "en_warm e")
      case True
      have "length (samples e) = wide_window" using len p True by (simp add: samples_def)
      then have "lastn wide_window (samples e @ [x]) = tl (samples e) @ [x]" by (intro lastn_snoc_full) (simp_all add: wide_window_def)
      with True ptr rotate_push(1) [OF len p \<open>Suc (en_ptr e) < wide_window\<close>] show ?thesis
        by (simp add: samples_def store_sample_def Let_def)
    next
      case False
      with True ptr len p show ?thesis
        by (simp add: samples_def store_sample_def Let_def take_Suc_conv_app_nth)
    qed
  next
    case False
    with p have last: "Suc (en_ptr e) = wide_window" by simp
    show ?thesis
    proof (cases "en_warm e")
      case True
      have "length (samples e) = wide_window" using len p True by (simp add: samples_def)
      then have "lastn wide_window (samples e @ [x]) = tl (samples e) @ [x]" by (intro lastn_snoc_full) (simp_all add: wide_window_def)
      with True last rotate_push(2) [OF len p last] show ?thesis
        by (simp add: samples_def store_sample_def Let_def)
    next
      case False
      with last len p show ?thesis
        by (simp add: samples_def store_sample_def Let_def upd_conv_take_nth_drop)
    qed
  qed
qed simp

lemma p99_mset:
  assumes "mset xs = mset ys"
  shows "p99 xs = p99 ys"
proof -
  have "sort xs = sort ys" using assms by (intro properties_for_sort) simp_all
  then show ?thesis using mset_eq_length [OF assms] by (simp only: p99_def)
qed

lemma short_newest:
  assumes "entropy_ok e" "short_window \<le> length (samples e)"
  shows "short_data e = lastn short_window (samples e)"
proof -
  have len: "length (en_buffer e) = wide_window" and p: "en_ptr e < wide_window" using assms(1) by (simp_all add: entropy_ok_def)
  show ?thesis
  proof (cases "short_window \<le> en_ptr e")
    case True
    have "lastn short_window (samples e) = lastn short_window (take (en_ptr e) (en_buffer e))"
      using True len p by (simp add: samples_def lastn_append)
    also have "\<dots> = slice (en_buffer e) (en_ptr e - short_window) (en_ptr e)"
      using True len p by (simp add: lastn_def slice_def drop_take)
    finally show ?thesis using True by (simp add: short_data_def)
  next
    case False
    then have "en_warm e" using assms(2) by (auto simp: samples_def split: if_splits)
    then have "lastn short_window (samples e) = lastn (short_window - en_ptr e) (drop (en_ptr e) (en_buffer e)) @ take (en_ptr e) (en_buffer e)"
      using False len p by (simp add: samples_def lastn_append)
    also have "lastn (short_window - en_ptr e) (drop (en_ptr e) (en_buffer e)) = lastn (short_window - en_ptr e) (en_buffer e)"
      using False len by (simp add: lastn_def wide_window_def short_window_def)
    finally show ?thesis using False by (simp add: short_data_def)
  qed
qed

lemma measured_samples: "mset (measured e) = mset (samples e)"
  by (simp add: measured_def samples_def) (metis append_take_drop_id mset_append union_commute)

lemma measured_length: "length (measured e) = length (samples e)"
  using measured_samples [of e] by (rule mset_eq_length)

lemma buffer_frame [simp]:
  "samples (count_tick pulse now e) = samples e" "samples (e\<lparr>en_heat := h, en_rtt := r\<rparr>) = samples e"
  "samples (update_resolutions e) = samples e" "entropy_ok (count_tick pulse now e) = entropy_ok e"
  "entropy_ok (e\<lparr>en_heat := h, en_rtt := r\<rparr>) = entropy_ok e" "entropy_ok (update_resolutions e) = entropy_ok e"
  "en_ptr (count_tick pulse now e) = en_ptr e" "en_ptr (update_resolutions e) = en_ptr e"
  by (simp_all add: samples_def entropy_ok_def count_tick_def update_resolutions_def Let_def)

lemma store_ptr: "en_ptr (store_sample x e) = (en_ptr e + 1) mod wide_window"
  by (simp add: store_sample_def Let_def)

text \<open>The monitor after the samples \<open>xs\<close>.\<close>

definition monitor_inv :: "int list \<Rightarrow> entropy \<Rightarrow> bool" where
  "monitor_inv xs e \<longleftrightarrow> entropy_ok e \<and> samples e = lastn wide_window xs \<and> en_ptr e = length xs mod wide_window
     \<and> (length xs mod 10 = 0 \<and> short_window \<le> length xs \<longrightarrow>
          en_wide e = p99 (lastn wide_window xs) \<and> en_short e = p99 (lastn short_window xs))"

lemma monitor_init: "monitor_inv [] (entropy_init now)"
  by (simp add: monitor_inv_def entropy_ok_def entropy_init_def samples_def wide_window_def short_window_def)

lemma monitor_update:
  assumes "monitor_inv xs e"
  shows "monitor_inv (xs @ [py_int rtt]) (update_metrics now heat rtt pulse e)"
proof -
  define e1 where "e1 = store_sample (py_int rtt) (count_tick pulse now (e\<lparr>en_heat := heat, en_rtt := rtt\<rparr>))"
  let ?ys = "xs @ [py_int rtt]"
  have ok: "entropy_ok e1" using assms unfolding e1_def by (intro latency.ok_push) (simp add: monitor_inv_def)
  have "samples e1 = lastn wide_window (lastn wide_window xs @ [py_int rtt])"
    using assms unfolding e1_def by (subst latency.view_push) (simp_all add: monitor_inv_def)
  then have s: "samples e1 = lastn wide_window ?ys" by (simp add: lastn_lastn_append)
  have ptr: "en_ptr e1 = length ?ys mod wide_window"
    using assms by (simp add: e1_def store_ptr monitor_inv_def mod_Suc_eq)
  have aligned: "en_ptr e1 mod 10 = length ?ys mod 10"
    unfolding ptr wide_window_def by (rule mod_mod_cancel) simp
  have upd: "update_metrics now heat rtt pulse e = (if en_ptr e1 mod 10 = 0 then update_resolutions e1 else e1)"
    by (simp add: update_metrics_def e1_def Let_def)
  show ?thesis
  proof (cases "length ?ys mod 10 = 0 \<and> short_window \<le> length ?ys")
    case True
    then have long: "short_window \<le> length (samples e1)" by (simp add: s wide_window_def short_window_def)
    then have upd1: "update_resolutions e1 = e1\<lparr>en_wide := p99 (measured e1), en_short := p99 (short_data e1)\<rparr>"
      by (simp add: update_resolutions_def measured_length)
    have "en_wide (update_resolutions e1) = p99 (lastn wide_window ?ys)"
      using p99_mset [OF measured_samples [of e1]] by (simp add: upd1 s)
    moreover have "short_data e1 = lastn short_window ?ys"
      unfolding short_newest [OF ok long] s by (rule lastn_lastn_less) (simp add: wide_window_def short_window_def)
    then have "en_short (update_resolutions e1) = p99 (lastn short_window ?ys)" by (simp add: upd1)
    ultimately show ?thesis using True ok s ptr aligned by (simp add: monitor_inv_def upd)
  qed (use ok s ptr in \<open>auto simp: monitor_inv_def upd\<close>)
qed

text \<open>The latency percentiles are those of the newest samples.  After any number of samples that is a
  multiple of ten and at least 200, the wide percentile is that of the newest 1000 of them and
  the short one that of the newest 200, however often the ring buffer wrapped around.\<close>

theorem p99_of_newest:
  fixes evs :: "(time \<times> flt \<times> flt \<times> bool) list" and t0 :: time
  defines "e \<equiv> fold (\<lambda>(now, heat, rtt, pulse). update_metrics now heat rtt pulse) evs (entropy_init t0)"
    and "xs \<equiv> map (\<lambda>(now, heat, rtt, pulse). py_int rtt) evs"
  assumes "length evs mod 10 = 0" "200 \<le> length evs"
  shows "en_wide e = p99 (lastn 1000 xs) \<and> en_short e = p99 (lastn 200 xs)"
proof -
  have "monitor_inv (ys @ map (\<lambda>(now, heat, rtt, pulse). py_int rtt) evs)
      (fold (\<lambda>(now, heat, rtt, pulse). update_metrics now heat rtt pulse) evs e0)" if "monitor_inv ys e0" for ys e0
    using that
  proof (induction evs arbitrary: ys e0)
    case (Cons ev evs)
    obtain now heat rtt pulse where ev: "ev = (now, heat, rtt, pulse)" by (cases ev)
    from Cons.IH [OF monitor_update [OF Cons.prems, of rtt now heat pulse]] show ?case by (simp add: ev)
  qed simp
  from this [OF monitor_init [of t0]] have "monitor_inv xs e" by (simp add: e_def xs_def)
  with assms(3,4) show ?thesis by (simp add: monitor_inv_def xs_def wide_window_def short_window_def)
qed

theorem p99_of_newest_witness:
  "en_wide (fold (\<lambda>(now, heat, rtt, pulse). update_metrics now heat rtt pulse) (replicate 200 (0, 0, 7, True)) (entropy_init 0))
   = p99 (replicate 200 7)"
  using p99_of_newest [of "replicate 200 (0, 0, 7, True)" 0] by (simp add: py_int_def)

lemma penalty_at_least_two: "2 \<le> jitter_penalty e"
  by (simp add: jitter_penalty_def Let_def pos_imp_zdiv_nonneg_iff)

lemma tunnel_hysteresis:
  "en_tunnel (fst (check_global_pressure (Some hs) e)) \<longleftrightarrow>
     85 / 100 < sum_list hs / real (length hs) \<or> en_tunnel e \<and> 2 / 5 \<le> sum_list hs / real (length hs)"
proof -
  define q where "q = sum_list hs / real (length hs)"
  show ?thesis unfolding check_global_pressure_def option.case Let_def q_def [symmetric] by auto
qed

section \<open>The clock and the healer\<close>

text \<open>A calibrated clock reads the exchange's time plus what has passed since, in whole milliseconds.\<close>

theorem clock_tracks_exchange:
  assumes "0 < exchange_ms"
  shows "now_ms (now_ns + elapsed_ns) (calibrate now_ns exchange_ms offset) = exchange_ms + elapsed_ns div 1000000"
proof -
  have "now_ns + elapsed_ns + (exchange_ms * 1000000 - now_ns) = elapsed_ns + exchange_ms * 1000000" by simp
  with assms show ?thesis by (simp only: now_ms_def calibrate_def) simp
qed

theorem clock_tracks_exchange_witness: "now_ms (5 + 2500000) (calibrate 5 1000 0) = 1002"
  using clock_tracks_exchange [of 1000 5 2500000 0] by simp

datatype heal_event = Fails time string bool | Heals string

text \<open>A healing task ends only while it runs.\<close>

fun heal_step :: "heal_event \<Rightarrow> healer \<Rightarrow> healer" where
  "heal_step (Fails now c callback) h = fst (heal_register now c callback h)"
| "heal_step (Heals c) h = (if c \<in> set (hl_tasks h) then heal_done c h else h)"

definition healer_ok :: "healer \<Rightarrow> bool" where
  "healer_ok h \<longleftrightarrow> distinct (hl_locks h) \<and> distinct (hl_tasks h) \<and> set (hl_tasks h) \<subseteq> set (hl_locks h)"

lemma healer_ok_step: "healer_ok h \<Longrightarrow> healer_ok (heal_step ev h)"
  by (cases ev) (auto simp: healer_ok_def heal_register_def heal_done_def Let_def distinct_removeAll)

lemma healer_ok_run: "healer_ok h \<Longrightarrow> healer_ok (fold heal_step evs h)"
  by (induction evs arbitrary: h) (simp_all add: healer_ok_step)

text \<open>No component is healed twice at the same time, whatever failures and recoveries come.\<close>

theorem healing_exclusive: "distinct (hl_tasks (fold heal_step evs (healer_init limit window)))"
  using healer_ok_run [of "healer_init limit window" evs] by (simp add: healer_ok_def healer_init_def)

definition stuck :: "string \<Rightarrow> healer \<Rightarrow> bool" where
  "stuck c h \<longleftrightarrow> c \<in> set (hl_locks h) \<and> c \<notin> set (hl_tasks h)"

lemma stuck_step: "stuck c h \<Longrightarrow> stuck c (heal_step ev h)"
  by (cases ev) (auto simp: stuck_def heal_register_def heal_done_def Let_def dest: notin_set_remove1)

lemma stuck_run: "stuck c h \<Longrightarrow> stuck c (fold heal_step evs h)"
  by (induction evs arbitrary: h) (simp_all add: stuck_step)

text \<open>A breach without a recovery callback switches the healing of its component off for good.  The
  lock is taken although no task runs that would release it, so that no later breach, with a
  callback or without, is ever answered.\<close>

theorem breach_without_callback_locks:
  assumes "healer_ok h" "snd (heal_register now c False h)"
  shows "\<not> snd (heal_register later c callback (fold heal_step evs (fst (heal_register now c False h))))"
proof -
  have "stuck c (fst (heal_register now c False h))"
    using assms by (auto simp: stuck_def heal_register_def healer_ok_def Let_def split: if_splits)
  from stuck_run [OF this, of evs] show ?thesis by (auto simp: stuck_def heal_register_def Let_def)
qed

theorem breach_without_callback_locks_witness:
  "\<not> snd (heal_register 9 ''Redis'' True (fold heal_step [Fails 8 ''Redis'' True] (fst (heal_register 1 ''Redis'' False (healer_init 1 10)))))"
  by (rule breach_without_callback_locks)
     (simp_all add: healer_ok_def healer_init_def heal_register_def failures_of_def)

end
