(* ===== verification/Epoch_Healer.thy ===== *)
theory Epoch_Healer
  imports Signal_Store
begin

text \<open>
  The healer that rebuilds the state at start-up (\<open>src/src/infrastructure/state_healer.py\<close>): the
  projection of the spilled events, and the epoch transition that reconciles it with the
  exchange's open orders, with the signals pending in the local repository (the theory
  Signal_Store) and with the exchange's positions.

  The file is a list of its lines, each blank, torn, or the fields the projection reads of a
  parsed event; the numbers in the exchange's answers are taken as parsed.  What the
  exchange's client answers to one attempt is an argument; the healer records which batches
  it asked to be cancelled.
\<close>

section \<open>The projection\<close>

text \<open>The first element of the event's data; an empty list there raises.\<close>

record event_data =
  ed_symbol :: "symbol option"
  ed_size :: flt
  ed_price :: flt
  ed_order :: string
  ed_status :: "string option"

record spill_event =
  se_time :: int
  se_topic :: string
  se_symbol :: "symbol option"
  se_data :: "event_data option"

datatype spill_line = Blank | Torn | Spilled spill_event

record live_order =
  lo_status :: "string option"
  lo_leaves :: "flt option"
  lo_cum :: "flt option"

record symbol_state =
  ss_size :: flt
  ss_entry :: flt
  ss_orders :: "(string \<times> live_order) list"

type_synonym projection = "(symbol \<times> symbol_state) list"

record epoch_data =
  ep_hwm :: int
  ep_intents :: "string set"

definition empty_state :: symbol_state where
  "empty_state = \<lparr>ss_size = 0, ss_entry = 0, ss_orders = []\<rparr>"

definition ledger_state :: "symbol \<Rightarrow> projection \<Rightarrow> symbol_state" where
  "ledger_state s L = (case map_of L s of None \<Rightarrow> empty_state | Some st \<Rightarrow> st)"

definition closing_status :: "string option \<Rightarrow> bool" where
  "closing_status st \<longleftrightarrow> st \<in> {Some ''Filled'', Some ''Cancelled'', Some ''Deactivated''}"

definition apply_order_event :: "event_data \<Rightarrow> symbol_state \<Rightarrow> epoch_data \<Rightarrow> symbol_state \<times> epoch_data" where
  "apply_order_event d st ep =
     (if ed_order d \<notin> ep_intents ep then (st, ep)
      else if closing_status (ed_status d)
      then (st\<lparr>ss_orders := AList.delete (ed_order d) (ss_orders st)\<rparr>, ep\<lparr>ep_intents := ep_intents ep - {ed_order d}\<rparr>)
      else (st\<lparr>ss_orders := AList.update (ed_order d) \<lparr>lo_status = ed_status d, lo_leaves = None, lo_cum = None\<rparr> (ss_orders st)\<rparr>, ep))"

definition apply_event_delta :: "spill_event \<Rightarrow> projection \<Rightarrow> epoch_data \<Rightarrow> (projection \<times> epoch_data) option" where
  "apply_event_delta ev L ep =
     (if se_time ev < ep_hwm ep \<and> 0 < ep_hwm ep then Some (L, ep)
      else case se_data ev of
          None \<Rightarrow> None
        | Some d \<Rightarrow>
            (case (case ed_symbol d of None \<Rightarrow> se_symbol ev | Some s \<Rightarrow> Some s) of
               None \<Rightarrow> Some (L, ep)
             | Some s \<Rightarrow>
                 if s = [] then Some (L, ep)
                 else let st = ledger_state s L
                      in if contains ''position'' (se_topic ev)
                         then Some (AList.update s (st\<lparr>ss_size := ed_size d, ss_entry := ed_price d\<rparr>) L, ep)
                         else if contains ''order'' (se_topic ev)
                         then (let (st1, ep1) = apply_order_event d st ep in Some (AList.update s st1 L, ep1))
                         else Some (AList.update s st L, ep)))"

section \<open>The healer\<close>

datatype state_health = Clean | Tainted_torn_write | Tainted_rest_failed | Safe_hold

record epoch_healer =
  eh_health :: state_health
  eh_review :: bool
  eh_ledger :: projection
  eh_epoch :: epoch_data
  eh_db :: signal_db
  eh_cancelled :: "(symbol \<times> string) list list"

text \<open>An open order as the exchange lists it; an absent link is the empty text.\<close>

record open_order =
  oo_symbol :: symbol
  oo_id :: string
  oo_link :: string
  oo_status :: "string option"
  oo_leaves :: flt
  oo_cum :: flt

text \<open>\<open>chunked_iterable\<close>.\<close>

function batches :: "nat \<Rightarrow> 'a list \<Rightarrow> 'a list list" where
  "batches n [] = []"
| "batches n (x # xs) = (x # take (n - 1) xs) # batches n (drop (n - 1) xs)"
  by pat_completeness auto
termination by (relation "measure (\<lambda>(n, xs). length xs)") auto

text \<open>The reading of the file up to its end, a torn line, or an exception.\<close>

datatype hydration = Hydrated projection epoch_data | Stopped_torn projection epoch_data | Hydration_error

fun read_lines :: "spill_line list \<Rightarrow> projection \<Rightarrow> epoch_data \<Rightarrow> hydration" where
  "read_lines [] L ep = Hydrated L ep"
| "read_lines (Blank # ls) L ep = read_lines ls L ep"
| "read_lines (Torn # ls) L ep = Stopped_torn L ep"
| "read_lines (Spilled ev # ls) L ep =
     (case apply_event_delta ev L ep of None \<Rightarrow> Hydration_error | Some (L1, ep1) \<Rightarrow> read_lines ls L1 ep1)"

definition known_order :: "open_order \<Rightarrow> projection \<Rightarrow> bool" where
  "known_order ord L \<longleftrightarrow>
     (case map_of L (oo_symbol ord) of None \<Rightarrow> False | Some st \<Rightarrow> oo_id ord \<in> fst ` set (ss_orders st))"

definition adopt_order :: "open_order \<Rightarrow> projection \<Rightarrow> projection" where
  "adopt_order ord L =
     (let st = ledger_state (oo_symbol ord) L
      in AList.update (oo_symbol ord)
           (st\<lparr>ss_orders := AList.update (oo_id ord)
              \<lparr>lo_status = oo_status ord, lo_leaves = Some (oo_leaves ord), lo_cum = Some (oo_cum ord)\<rparr> (ss_orders st)\<rparr>) L)"

definition refresh_order :: "open_order \<Rightarrow> projection \<Rightarrow> projection" where
  "refresh_order ord L =
     (let st = ledger_state (oo_symbol ord) L;
          old = (case map_of (ss_orders st) (oo_id ord) of None \<Rightarrow> \<lparr>lo_status = None, lo_leaves = None, lo_cum = None\<rparr> | Some x \<Rightarrow> x)
      in AList.update (oo_symbol ord)
           (st\<lparr>ss_orders := AList.update (oo_id ord) (old\<lparr>lo_leaves := Some (oo_leaves ord), lo_cum := Some (oo_cum ord)\<rparr>) (ss_orders st)\<rparr>) L)"

text \<open>The signal of a lost order is recorded as sent.\<close>

definition settle_signal :: "(signal_row \<times> 'p) list \<Rightarrow> string \<Rightarrow> signal_db \<Rightarrow> signal_db" where
  "settle_signal rows link D =
     (case List.find (\<lambda>(r, p). sg_key r = link) rows of None \<Rightarrow> D | Some (r, p) \<Rightarrow> mark_as_sent (sg_id r) D)"

definition lost_order :: "(signal_row \<times> 'p) list \<Rightarrow> open_order \<Rightarrow> bool" where
  "lost_order rows ord \<longleftrightarrow> oo_link ord \<noteq> [] \<and> oo_link ord \<in> set (map (\<lambda>(r, p). sg_key r) rows)"

definition survive :: "open_order \<Rightarrow> epoch_healer \<Rightarrow> epoch_healer" where
  "survive ord h =
     h\<lparr>eh_ledger := refresh_order ord (eh_ledger h),
       eh_epoch := (eh_epoch h)\<lparr>ep_intents := ep_intents (eh_epoch h) \<union> {oo_id ord} \<union> (if oo_link ord = [] then {} else {oo_link ord})\<rparr>\<rparr>"

definition judge_order :: "(signal_row \<times> 'p) list \<Rightarrow> open_order \<Rightarrow> epoch_healer \<times> (symbol \<times> string) list
    \<Rightarrow> epoch_healer \<times> (symbol \<times> string) list" where
  "judge_order rows ord hz =
     (let (h, zs) = hz
      in if known_order ord (eh_ledger h) then (survive ord h, zs)
         else if lost_order rows ord
         then (survive ord (h\<lparr>eh_ledger := adopt_order ord (eh_ledger h), eh_db := settle_signal rows (oo_link ord) (eh_db h)\<rparr>), zs)
         else (h, zs @ [(oo_symbol ord, oo_id ord)]))"

definition rebuild_position :: "symbol \<times> flt \<times> flt \<Rightarrow> projection \<Rightarrow> projection" where
  "rebuild_position p L =
     (let (s, size, price) = p
      in if s \<noteq> [] \<and> 0 < size then AList.update s ((ledger_state s L)\<lparr>ss_size := size, ss_entry := price\<rparr>) L else L)"

text \<open>
  The exchange's answers to one attempt: its time with the open orders, and the positions; None
  is an exception.  \<open>repo\<close> says whether the repository is there and readable.
\<close>

record rest_answers =
  or_orders :: "(int \<times> open_order list) option"
  or_repo :: bool
  or_positions :: "(symbol \<times> flt \<times> flt) list option"

definition epoch_transition :: "(string \<Rightarrow> 'p) \<Rightarrow> rest_answers \<Rightarrow> epoch_healer \<Rightarrow> epoch_healer \<times> bool" where
  "epoch_transition loads o1 h =
     (case or_orders o1 of
        None \<Rightarrow> (h, False)
      | Some (t, orders) \<Rightarrow>
          if t = 0 then (h, False)
          else let rows = (if or_repo o1 then get_pending_signals loads (eh_db h) else []);
                   (h1, zombies) = fold (judge_order rows) orders (h, []);
                   h2 = h1\<lparr>eh_cancelled := eh_cancelled h1 @ batches 10 zombies\<rparr>
               in case or_positions o1 of
                    None \<Rightarrow> (h2, False)
                  | Some ps \<Rightarrow>
                      (h2\<lparr>eh_ledger := fold rebuild_position ps (eh_ledger h2), eh_epoch := (eh_epoch h2)\<lparr>ep_hwm := t\<rparr>\<rparr>, True))"

text \<open>At most seven attempts.\<close>

fun force_transition :: "(string \<Rightarrow> 'p) \<Rightarrow> rest_answers list \<Rightarrow> epoch_healer \<Rightarrow> epoch_healer \<times> bool" where
  "force_transition loads [] h = (h, False)"
| "force_transition loads (o1 # os) h =
     (let (h1, ok) = epoch_transition loads o1 h
      in if ok then (h1\<lparr>eh_health := Clean\<rparr>, True) else force_transition loads os h1)"

definition max_rest_retries :: nat where
  "max_rest_retries = 7"

definition fresh_epoch :: epoch_data where
  "fresh_epoch = \<lparr>ep_hwm = 0, ep_intents = {}\<rparr>"

definition finish_transition :: "(string \<Rightarrow> 'p) \<Rightarrow> rest_answers list \<Rightarrow> epoch_healer \<Rightarrow> epoch_healer" where
  "finish_transition loads os h =
     (let (h1, ok) = force_transition loads (take max_rest_retries os) h
      in if ok then h1 else h1\<lparr>eh_health := Safe_hold\<rparr>)"

text \<open>The start-up; None is an exception, and no file is a cold start.\<close>

definition hydrate :: "(string \<Rightarrow> 'p) \<Rightarrow> spill_line list option \<Rightarrow> rest_answers list \<Rightarrow> epoch_healer \<Rightarrow> epoch_healer option" where
  "hydrate loads file os h0 =
     (case file of
        None \<Rightarrow> Some (h0\<lparr>eh_ledger := [], eh_epoch := fresh_epoch, eh_health := Clean, eh_review := False\<rparr>)
      | Some ls \<Rightarrow>
          (case read_lines ls [] fresh_epoch of
             Hydration_error \<Rightarrow> None
           | Hydrated L ep \<Rightarrow> Some (finish_transition loads os (h0\<lparr>eh_ledger := L, eh_epoch := ep, eh_health := Clean, eh_review := False\<rparr>))
           | Stopped_torn L ep \<Rightarrow>
               Some (finish_transition loads os (h0\<lparr>eh_ledger := L, eh_epoch := ep, eh_health := Tainted_torn_write, eh_review := True\<rparr>))))"

definition is_trading_allowed :: "epoch_healer \<Rightarrow> bool" where
  "is_trading_allowed h \<longleftrightarrow> eh_health h = Clean"

section \<open>Batches\<close>

lemma batches_concat: "concat (batches n xs) = xs"
  by (induction n xs rule: batches.induct) simp_all

lemma batches_bound: "0 < n \<Longrightarrow> b \<in> set (batches n xs) \<Longrightarrow> b \<noteq> [] \<and> length b \<le> n"
  by (induction n xs rule: batches.induct) auto

section \<open>What the transition makes of the open orders\<close>

definition orders_of :: "symbol \<Rightarrow> projection \<Rightarrow> (string \<times> live_order) list" where
  "orders_of s L = ss_orders (ledger_state s L)"

lemma ledger_state_update [simp]: "ledger_state s (AList.update s' st L) = (if s = s' then st else ledger_state s L)"
  by (simp add: ledger_state_def update_conv')

lemma known_orders_of: "known_order ord L \<longleftrightarrow> map_of (orders_of (oo_symbol ord) L) (oo_id ord) \<noteq> None"
proof (cases "map_of L (oo_symbol ord)")
  case (Some st)
  then show ?thesis by (simp add: known_order_def orders_of_def ledger_state_def map_of_eq_None_iff)
qed (simp add: known_order_def orders_of_def ledger_state_def empty_state_def)

lemma refresh_orders [simp]:
  "map_of (orders_of s (refresh_order ord L)) i =
     (if s = oo_symbol ord \<and> i = oo_id ord
      then Some ((case map_of (orders_of s L) i of None \<Rightarrow> \<lparr>lo_status = None, lo_leaves = None, lo_cum = None\<rparr> | Some x \<Rightarrow> x)
        \<lparr>lo_leaves := Some (oo_leaves ord), lo_cum := Some (oo_cum ord)\<rparr>)
      else map_of (orders_of s L) i)"
  by (simp add: refresh_order_def orders_of_def Let_def update_conv')

lemma adopt_orders [simp]:
  "map_of (orders_of s (adopt_order ord L)) i =
     (if s = oo_symbol ord \<and> i = oo_id ord
      then Some \<lparr>lo_status = oo_status ord, lo_leaves = Some (oo_leaves ord), lo_cum = Some (oo_cum ord)\<rparr>
      else map_of (orders_of s L) i)"
  by (simp add: adopt_order_def orders_of_def Let_def update_conv')

text \<open>An order is tracked when the ledger has it with the exchange's quantities and the epoch lists it.\<close>

definition tracked :: "open_order \<Rightarrow> epoch_healer \<Rightarrow> bool" where
  "tracked ord h \<longleftrightarrow> oo_id ord \<in> ep_intents (eh_epoch h)
     \<and> (case map_of (orders_of (oo_symbol ord) (eh_ledger h)) (oo_id ord) of
          None \<Rightarrow> False | Some x \<Rightarrow> lo_leaves x = Some (oo_leaves ord) \<and> lo_cum x = Some (oo_cum ord))"

definition survivor :: "(signal_row \<times> 'p) list \<Rightarrow> projection \<Rightarrow> open_order \<Rightarrow> bool" where
  "survivor rows L ord \<longleftrightarrow> known_order ord L \<or> lost_order rows ord"

definition zombie_of :: "open_order \<Rightarrow> symbol \<times> string" where
  "zombie_of ord = (oo_symbol ord, oo_id ord)"

lemma judge_one:
  assumes "judge_order rows ord (h, zs) = (h', zs')"
  shows "zs' = zs @ (if survivor rows (eh_ledger h) ord then [] else [zombie_of ord])"
    and "survivor rows (eh_ledger h) ord \<Longrightarrow> tracked ord h'"
    and "oo_id x \<noteq> oo_id ord \<Longrightarrow> known_order x (eh_ledger h') = known_order x (eh_ledger h)"
    and "oo_id x \<noteq> oo_id ord \<Longrightarrow> tracked x h \<Longrightarrow> tracked x h'"
    and "eh_cancelled h' = eh_cancelled h" "eh_health h' = eh_health h" "eh_review h' = eh_review h"
  using assms
  by (auto simp: judge_order_def survivor_def survive_def tracked_def zombie_of_def known_orders_of split: if_splits option.splits)

lemma judge_all:
  assumes "fold (judge_order rows) orders (h, zs) = (h', zs')" "distinct (map oo_id orders)"
  shows "zs' = zs @ map zombie_of (filter (\<lambda>ord. \<not> survivor rows (eh_ledger h) ord) orders)
    \<and> (\<forall>ord \<in> set orders. survivor rows (eh_ledger h) ord \<longrightarrow> tracked ord h')
    \<and> eh_cancelled h' = eh_cancelled h
    \<and> (\<forall>x. oo_id x \<notin> oo_id ` set orders \<longrightarrow> tracked x h \<longrightarrow> tracked x h')"
  using assms
proof (induction orders arbitrary: h zs)
  case (Cons ord orders)
  obtain h1 zs1 where one: "judge_order rows ord (h, zs) = (h1, zs1)" by fastforce
  note j = judge_one [OF one]
  have rest: "fold (judge_order rows) orders (h1, zs1) = (h', zs')" "distinct (map oo_id orders)"
    using Cons.prems by (simp_all add: one)
  have other: "survivor rows (eh_ledger h1) x = survivor rows (eh_ledger h) x" if "x \<in> set orders" for x
  proof -
    have "oo_id x \<noteq> oo_id ord" using that Cons.prems(2) by (metis distinct.simps(2) image_eqI list.simps(9) set_map)
    then show ?thesis using j(3) [of x] by (simp add: survivor_def)
  qed
  then have "filter (\<lambda>x. \<not> survivor rows (eh_ledger h1) x) orders = filter (\<lambda>x. \<not> survivor rows (eh_ledger h) x) orders"
    by (intro filter_cong) simp_all
  with Cons.IH [OF rest] j other Cons.prems(2) show ?case by (simp add: image_iff)
qed simp

lemma rebuild_orders: "orders_of s (fold rebuild_position ps L) = orders_of s L"
proof (induction ps arbitrary: L)
  case (Cons p ps)
  obtain s' size price where p: "p = (s', size, price)" by (cases p)
  have "orders_of s (rebuild_position p L) = orders_of s L"
    by (simp add: p rebuild_position_def orders_of_def Let_def)
  with Cons.IH show ?case by simp
qed simp

text \<open>The orders are accounted for, after a transition that succeeded.\<close>

lemma transition_orders:
  assumes "epoch_transition loads o1 h = (h', True)" "distinct (map oo_id (snd (the (or_orders o1))))"
  defines "rows \<equiv> if or_repo o1 then get_pending_signals loads (eh_db h) else []"
  shows "eh_cancelled h' = eh_cancelled h
      @ batches 10 (map zombie_of (filter (\<lambda>ord. \<not> survivor rows (eh_ledger h) ord) (snd (the (or_orders o1)))))
    \<and> (\<forall>ord \<in> set (snd (the (or_orders o1))). survivor rows (eh_ledger h) ord \<longrightarrow> tracked ord h')"
proof -
  obtain t orders ps where a: "or_orders o1 = Some (t, orders)" "t \<noteq> 0" "or_positions o1 = Some ps"
    using assms(1) by (auto simp: epoch_transition_def Let_def split: option.splits if_splits prod.splits)
  obtain h1 zs where f: "fold (judge_order rows) orders (h, []) = (h1, zs)" by fastforce
  have h': "h' = h1\<lparr>eh_cancelled := eh_cancelled h1 @ batches 10 zs, eh_ledger := fold rebuild_position ps (eh_ledger h1),
      eh_epoch := (eh_epoch h1)\<lparr>ep_hwm := t\<rparr>\<rparr>"
    using assms(1) a f by (simp add: epoch_transition_def rows_def [symmetric] Let_def)
  have "tracked ord h' = tracked ord h1" for ord by (simp add: tracked_def h' rebuild_orders)
  with judge_all [OF f] assms(2) a(1) show ?thesis by (simp add: h')
qed

text \<open>C32: The epoch transition leaves no open order unaccounted for.  After an attempt that succeeded each
  of the exchange's open orders is tracked, with the quantities the exchange gave, or is in a
  batch that was sent for cancellation; a batch has at most ten orders.\<close>

theorem transition_accounts_orders:
  assumes "epoch_transition loads o1 h = (h', True)" "or_orders o1 = Some (t, orders)" "distinct (map oo_id orders)"
    and "eh_cancelled h = []" "ord \<in> set orders"
  shows "(tracked ord h' \<or> zombie_of ord \<in> set (concat (eh_cancelled h'))) \<and> (\<forall>b \<in> set (eh_cancelled h'). length b \<le> 10)"
  using transition_orders [OF assms(1)] assms(2-) batches_bound [of 10]
  by (auto simp: batches_concat)

text \<open>A healer before any start, and an order it knows nothing of.\<close>

definition idle_healer :: epoch_healer where
  "idle_healer = \<lparr>eh_health = Clean, eh_review = False, eh_ledger = [], eh_epoch = fresh_epoch, eh_db = signal_db_init, eh_cancelled = []\<rparr>"

definition stray_order :: open_order where
  "stray_order = \<lparr>oo_symbol = ''BTCUSDT'', oo_id = ''7'', oo_link = ''k'', oo_status = Some ''New'', oo_leaves = 2, oo_cum = 0\<rparr>"

definition stray_answers :: rest_answers where
  "stray_answers = \<lparr>or_orders = Some (9, [stray_order]), or_repo = True, or_positions = Some []\<rparr>"

theorem transition_accounts_orders_witness:
  "tracked stray_order (fst (epoch_transition id stray_answers idle_healer))
   \<or> zombie_of stray_order \<in> set (concat (eh_cancelled (fst (epoch_transition id stray_answers idle_healer))))"
proof -
  have "epoch_transition id stray_answers idle_healer = (fst (epoch_transition id stray_answers idle_healer), True)"
    by (simp add: epoch_transition_def stray_answers_def Let_def split_beta)
  from transition_accounts_orders [OF this, of 9 "[stray_order]" stray_order] show ?thesis
    by (simp add: stray_answers_def idle_healer_def)
qed

section \<open>What the file contributes\<close>

definition orderless :: "projection \<Rightarrow> bool" where
  "orderless L \<longleftrightarrow> (\<forall>s. orders_of s L = [])"

lemma apply_event_orderless:
  "apply_event_delta ev L ep = Some (L', ep') \<Longrightarrow> ep_intents ep = {} \<Longrightarrow> orderless L \<Longrightarrow> ep' = ep \<and> orderless L'"
  by (auto simp: apply_event_delta_def apply_order_event_def orderless_def orders_of_def Let_def split: if_splits option.splits)

lemma read_lines_orderless:
  "read_lines ls L ep = r \<Longrightarrow> ep_intents ep = {} \<Longrightarrow> orderless L \<Longrightarrow>
     (case r of Hydrated L' ep' \<Rightarrow> ep' = ep \<and> orderless L' | Stopped_torn L' ep' \<Rightarrow> ep' = ep \<and> orderless L' | Hydration_error \<Rightarrow> True)"
proof (induction ls L ep rule: read_lines.induct)
  case (4 ev ls L ep)
  show ?case
  proof (cases "apply_event_delta ev L ep")
    case (Some x)
    then obtain L1 ep1 where x: "apply_event_delta ev L ep = Some (L1, ep1)" by (cases x) auto
    from apply_event_orderless [OF x 4(3,4)] 4(1) [OF x refl] 4(2,3) show ?thesis by (cases r) (simp_all add: x)
  qed (use 4 in simp)
qed auto

lemma orderless_start: "orderless []"
  by (simp add: orderless_def orders_of_def ledger_state_def empty_state_def)

lemma orderless_unknown: "orderless L \<Longrightarrow> \<not> known_order ord L"
  by (simp add: known_orders_of orderless_def)

text \<open>The restart cancels every open order that is not pending in the repository.  The order events of
  the file are ignored, since the epoch they are checked against is empty at that point, so
  that an order whose signal was already recorded as sent is taken for a zombie although the
  file tells of it.\<close>

theorem restart_cancels_sent_orders:
  assumes "hydrate loads (Some ls) (o1 # os) h0 = Some h" "or_orders o1 = Some (t, orders)" "t \<noteq> 0" "or_positions o1 \<noteq> None"
    and "distinct (map oo_id orders)" "or_repo o1"
  shows "eh_cancelled h = eh_cancelled h0
    @ batches 10 (map zombie_of (filter (\<lambda>ord. \<not> lost_order (get_pending_signals loads (eh_db h0)) ord) orders))"
proof -
  obtain L ep hl rv where r: "orderless L" "h = finish_transition loads (o1 # os) (h0\<lparr>eh_ledger := L, eh_epoch := ep, eh_health := hl, eh_review := rv\<rparr>)"
    using assms(1) read_lines_orderless [OF refl, of fresh_epoch "[]" ls]
    by (auto simp: hydrate_def fresh_epoch_def orderless_start split: hydration.splits)
  let ?h1 = "h0\<lparr>eh_ledger := L, eh_epoch := ep, eh_health := hl, eh_review := rv\<rparr>"
  obtain h2 ok where tr: "epoch_transition loads o1 ?h1 = (h2, ok)" by fastforce
  have ok using tr assms(2-4) by (auto simp: epoch_transition_def Let_def split: option.splits prod.splits)
  then have h: "h = h2\<lparr>eh_health := Clean\<rparr>"
    using r(2) tr by (simp add: finish_transition_def max_rest_retries_def)
  have "survivor rows L ord = lost_order rows ord" for rows :: "(signal_row \<times> 'a) list" and ord
    using r(1) by (simp add: survivor_def orderless_unknown)
  with transition_orders [of loads o1 ?h1 h2] tr \<open>ok\<close> assms(2,5,6) show ?thesis by (simp add: h)
qed

theorem restart_cancels_sent_orders_witness:
  "map_option eh_cancelled (hydrate id (Some [Spilled \<lparr>se_time = 5, se_topic = ''order'', se_symbol = None,
      se_data = Some \<lparr>ed_symbol = Some ''BTCUSDT'', ed_size = 0, ed_price = 0, ed_order = ''7'', ed_status = Some ''New''\<rparr>\<rparr>])
     [stray_answers] idle_healer) = Some [[(''BTCUSDT'', ''7'')]]"
proof -
  let ?ls = "[Spilled \<lparr>se_time = 5, se_topic = ''order'', se_symbol = None,
      se_data = Some \<lparr>ed_symbol = Some ''BTCUSDT'', ed_size = 0, ed_price = 0, ed_order = ''7'', ed_status = Some ''New''\<rparr>\<rparr>]"
  obtain h where h: "hydrate id (Some ?ls) [stray_answers] idle_healer = Some h"
    by (cases "hydrate id (Some ?ls) [stray_answers] idle_healer")
       (simp_all add: hydrate_def fresh_epoch_def apply_event_delta_def Let_def split_beta split: if_splits)
  from restart_cancels_sent_orders [OF h, of 9 "[stray_order]"] show ?thesis unfolding h
    by (simp add: stray_answers_def idle_healer_def lost_order_def get_pending_signals_def signal_db_init_def zombie_of_def stray_order_def)
qed

section \<open>When trading is allowed, and what it rests on\<close>

definition answered_well :: "rest_answers \<Rightarrow> bool" where
  "answered_well o1 \<longleftrightarrow> (case or_orders o1 of None \<Rightarrow> False | Some (t, orders) \<Rightarrow> t \<noteq> 0) \<and> or_positions o1 \<noteq> None"

lemma transition_ok: "snd (epoch_transition loads o1 h) \<longleftrightarrow> answered_well o1"
  by (auto simp: epoch_transition_def answered_well_def Let_def split: option.split prod.split)

lemma force_ok: "snd (force_transition loads os h) \<longleftrightarrow> list_ex answered_well os"
proof (induction os arbitrary: h)
  case (Cons o1 os)
  obtain h1 ok where "epoch_transition loads o1 h = (h1, ok)" by fastforce
  with transition_ok [of loads o1 h] Cons.IH show ?case by simp
qed simp

lemma force_health: "snd (force_transition loads os h) \<Longrightarrow> eh_health (fst (force_transition loads os h)) = Clean"
proof (induction os arbitrary: h)
  case (Cons o1 os)
  obtain h1 ok where "epoch_transition loads o1 h = (h1, ok)" by fastforce
  with Cons show ?case by (cases ok) simp_all
qed simp

text \<open>After a restart with a file trading is allowed exactly when one of the first seven attempts reached
  the exchange, whether the file was whole or torn.\<close>

theorem trading_needs_exchange:
  assumes "hydrate loads (Some ls) os h0 = Some h"
  shows "is_trading_allowed h \<longleftrightarrow> list_ex answered_well (take 7 os)"
proof -
  have "is_trading_allowed (finish_transition loads os h1) \<longleftrightarrow> list_ex answered_well (take 7 os)" for h1
    using force_ok [of loads "take 7 os" h1] force_health [of loads "take 7 os" h1]
    by (auto simp: finish_transition_def is_trading_allowed_def max_rest_retries_def split_beta)
  with assms show ?thesis by (auto simp: hydrate_def split: hydration.splits)
qed

lemma rebuild_absent: "s \<notin> fst ` set ps \<Longrightarrow> ss_size (ledger_state s (fold rebuild_position ps L)) = ss_size (ledger_state s L)"
proof (induction ps arbitrary: L)
  case (Cons p ps)
  obtain s' size price where p: "p = (s', size, price)" by (cases p)
  have "ss_size (ledger_state s (rebuild_position p L)) = ss_size (ledger_state s L)"
    using Cons.prems by (auto simp: p rebuild_position_def Let_def)
  with Cons show ?case by simp
qed simp

theorem trading_needs_exchange_witness:
  "map_option is_trading_allowed (hydrate id (Some [Torn]) [stray_answers] idle_healer) = Some True"
proof -
  obtain h where h: "hydrate id (Some [Torn]) [stray_answers] idle_healer = Some h"
    by (simp add: hydrate_def)
  from trading_needs_exchange [OF h] show ?thesis unfolding h by (simp add: answered_well_def stray_answers_def)
qed

lemma judge_sizes: "ss_size (ledger_state s (eh_ledger (fst (fold (judge_order rows) orders hz)))) = ss_size (ledger_state s (eh_ledger (fst hz)))"
proof (induction orders arbitrary: hz)
  case (Cons ord orders)
  have "ss_size (ledger_state s (eh_ledger (fst (judge_order rows ord hz)))) = ss_size (ledger_state s (eh_ledger (fst hz)))"
    by (simp add: judge_order_def survive_def adopt_order_def refresh_order_def Let_def split_beta)
  with Cons.IH show ?case by simp
qed simp

text \<open>A position that was closed while the process was down stays open in the ledger.  The transition
  writes the sizes of the positions the exchange lists, and leaves those of any other symbol as the
  file had them.\<close>

theorem closed_position_stays:
  assumes "epoch_transition loads o1 h = (h', True)" "or_positions o1 = Some ps" "s \<notin> fst ` set ps"
  shows "ss_size (ledger_state s (eh_ledger h')) = ss_size (ledger_state s (eh_ledger h))"
  using assms judge_sizes [of s _ _ "(h, [])"]
  by (auto simp: epoch_transition_def Let_def split_beta rebuild_absent split: option.splits if_splits)

theorem closed_position_stays_witness:
  "ss_size (ledger_state ''X'' (eh_ledger (fst (epoch_transition id stray_answers
     (idle_healer\<lparr>eh_ledger := [(''X'', \<lparr>ss_size = 3, ss_entry = 5, ss_orders = []\<rparr>)]\<rparr>))))) = 3"
proof -
  let ?h = "idle_healer\<lparr>eh_ledger := [(''X'', \<lparr>ss_size = 3, ss_entry = 5, ss_orders = []\<rparr>)]\<rparr>"
  have "epoch_transition id stray_answers ?h = (fst (epoch_transition id stray_answers ?h), True)"
    by (simp add: epoch_transition_def stray_answers_def Let_def split_beta)
  from closed_position_stays [OF this, of "[]" "''X''"] show ?thesis by (simp add: stray_answers_def ledger_state_def)
qed

end
