(* ===== verification/Tick_Clocks.thy ===== *)
theory Tick_Clocks
  imports Conflation "HOL-Library.Word"
begin

text \<open>
  The other information clocks of the program: the bar generator of the batch worker, which
  slices a trade over bars (\<open>src/src/domain/dollar_bar.py\<close>), the hybrid clock of volume and
  time (\<open>src/src/domain/math_core.py\<close>), and the flat bar state of the shared-memory path
  (\<open>src/src/infrastructure/information_clocks.py\<close>), whose tick counter is a 32-bit word.
\<close>

section \<open>The slicing generator\<close>

record bar_generator =
  bg_symbol :: symbol
  bg_threshold :: flt
  bg_current :: "dollar_bar option"

definition generator_init :: "symbol \<Rightarrow> flt \<Rightarrow> bar_generator" where
  "generator_init s thr = \<lparr>bg_symbol = s, bg_threshold = thr, bg_current = None\<rparr>"

definition apply_chunk :: "flt \<Rightarrow> flt \<Rightarrow> bool \<Rightarrow> time \<Rightarrow> flt \<Rightarrow> dollar_bar \<Rightarrow> dollar_bar" where
  "apply_chunk price usd buy ts ofi b =
     b\<lparr>bar_high := max (bar_high b) price, bar_low := min (bar_low b) price, bar_close := price,
       volume_usd := volume_usd b + usd, volume_crypto := volume_crypto b + (if 0 < price then usd / price else 0),
       buy_volume_usd := (if buy then buy_volume_usd b + usd else buy_volume_usd b),
       sell_volume_usd := (if buy then sell_volume_usd b else sell_volume_usd b + usd),
       tick_count := tick_count b + 1, end_ts := ts, ofi_accum := ofi_accum b + ofi\<rparr>"

definition open_bar :: "flt \<Rightarrow> time \<Rightarrow> bar_generator \<Rightarrow> dollar_bar" where
  "open_bar price ts g = (case bg_current g of None \<Rightarrow> (fresh_bar (bg_symbol g) price ts)\<lparr>end_ts := ts\<rparr> | Some b \<Rightarrow> b)"

partial_function (option) slice_loop ::
  "flt \<Rightarrow> bool \<Rightarrow> time \<Rightarrow> flt \<Rightarrow> flt \<Rightarrow> dollar_bar list \<Rightarrow> bar_generator \<Rightarrow> (bar_generator \<times> dollar_bar list) option" where
  "slice_loop price buy ts usd ofi bars g =
     (if \<not> 0 < usd then Some (g, bars)
      else
        let b = open_bar price ts g; capacity = bg_threshold g - volume_usd b;
            ratio = (if 1 < capacity / usd then 1 else capacity / usd); chunk_ofi = ofi * ratio
        in if usd \<le> capacity then
             let b1 = apply_chunk price usd buy ts ofi b
             in if bg_threshold g \<le> volume_usd b1
                then slice_loop price buy ts 0 ofi (bars @ [b1]) (g\<lparr>bg_current := None\<rparr>)
                else slice_loop price buy ts 0 ofi bars (g\<lparr>bg_current := Some b1\<rparr>)
           else slice_loop price buy ts (usd - capacity) (ofi - chunk_ofi)
                  (bars @ [apply_chunk price capacity buy ts chunk_ofi b]) (g\<lparr>bg_current := None\<rparr>))"

definition generate_tick :: "flt \<Rightarrow> flt \<Rightarrow> string \<Rightarrow> time \<Rightarrow> flt \<Rightarrow> bar_generator \<Rightarrow> (bar_generator \<times> dollar_bar list) option" where
  "generate_tick price volume side ts ofi g = slice_loop price (py_upper side = ''BUY'') ts (price * volume) ofi [] g"

section \<open>The hybrid clock\<close>

record hybrid_clock =
  hc_symbol :: symbol
  hc_target :: flt
  hc_ttl :: flt
  hc_volume :: flt
  hc_ofi :: flt
  hc_ticks :: int
  hc_start :: time

datatype clock_trigger = Volume_target | Ttl_expiry

record bucket_result =
  br_symbol :: symbol
  br_vnofi :: flt
  br_volume :: flt
  br_ticks :: int
  br_trigger :: clock_trigger

definition reset_clock :: "time \<Rightarrow> hybrid_clock \<Rightarrow> hybrid_clock" where
  "reset_clock now c = c\<lparr>hc_volume := 0, hc_ofi := 0, hc_ticks := 0, hc_start := now\<rparr>"

definition hybrid_clock_init :: "symbol \<Rightarrow> flt \<Rightarrow> flt \<Rightarrow> time \<Rightarrow> hybrid_clock" where
  "hybrid_clock_init s target ttl now =
     \<lparr>hc_symbol = s, hc_target = target, hc_ttl = ttl, hc_volume = 0, hc_ofi = 0, hc_ticks = 0, hc_start = now\<rparr>"

definition harvest :: "clock_trigger \<Rightarrow> hybrid_clock \<Rightarrow> bucket_result" where
  "harvest trigger c = \<lparr>br_symbol = hc_symbol c, br_vnofi = (if 0 < hc_volume c then hc_ofi c / hc_volume c else 0),
     br_volume = hc_volume c, br_ticks = hc_ticks c, br_trigger = trigger\<rparr>"

text \<open>\<open>now\<close> is read on entry, \<open>later\<close> by the reset.\<close>

definition apply_data :: "time \<Rightarrow> time \<Rightarrow> flt \<Rightarrow> flt \<Rightarrow> hybrid_clock \<Rightarrow> hybrid_clock \<times> bucket_result option" where
  "apply_data now later usd ofi c0 =
     (let c = c0\<lparr>hc_volume := hc_volume c0 + usd, hc_ofi := hc_ofi c0 + ofi, hc_ticks := hc_ticks c0 + 1\<rparr>
      in if hc_target c \<le> hc_volume c then (reset_clock later c, Some (harvest Volume_target c))
         else if hc_ttl c \<le> now - hc_start c0
         then (reset_clock later c, if hc_target c * (8 / 10) \<le> hc_volume c then Some (harvest Ttl_expiry c) else None)
         else (c, None))"

section \<open>The flat bar state\<close>

record flat_bar =
  fb_open :: flt
  fb_high :: flt
  fb_low :: flt
  fb_close :: flt
  fb_volume :: flt
  fb_dollars :: flt
  fb_ticks :: "32 word"
  fb_threshold :: flt
  fb_ready :: bool
  fb_last_ts :: "64 word"
  fb_corrupted :: bool

definition ingest_flat_tick :: "flt \<Rightarrow> flt \<Rightarrow> flat_bar \<Rightarrow> flat_bar" where
  "ingest_flat_tick price qty s0 =
     (let s1 = (if fb_ticks s0 = 0 then s0\<lparr>fb_open := price, fb_high := price, fb_low := price\<rparr> else s0);
          s = s1\<lparr>fb_high := (if fb_high s1 < price then price else fb_high s1),
                 fb_low := (if price < fb_low s1 then price else fb_low s1), fb_close := price,
                 fb_volume := fb_volume s1 + qty, fb_dollars := fb_dollars s1 + price * qty, fb_ticks := fb_ticks s1 + 1\<rparr>
      in if fb_threshold s \<le> fb_dollars s
         then (if \<not> fb_corrupted s then s\<lparr>fb_ready := True\<rparr> else s\<lparr>fb_corrupted := False, fb_ready := False\<rparr>)
                \<lparr>fb_dollars := 0, fb_ticks := 0, fb_volume := 0\<rparr>
         else s)"

definition reconcile_gap :: "int \<Rightarrow> flat_bar \<Rightarrow> flat_bar" where
  "reconcile_gap now_ms s =
     (if fb_last_ts s = 0 then s
      else if 1500 < now_ms - uint (fb_last_ts s) then s\<lparr>fb_corrupted := True\<rparr> else s)"

section \<open>Slicing loses nothing\<close>

definition held_usd :: "bar_generator \<Rightarrow> flt" where
  "held_usd g = (case bg_current g of None \<Rightarrow> 0 | Some b \<Rightarrow> volume_usd b)"

definition held_ofi :: "bar_generator \<Rightarrow> flt" where
  "held_ofi g = (case bg_current g of None \<Rightarrow> 0 | Some b \<Rightarrow> ofi_accum b)"

definition generator_ok :: "bar_generator \<Rightarrow> bool" where
  "generator_ok g \<longleftrightarrow> 0 < bg_threshold g \<and> 0 \<le> held_usd g \<and> held_usd g < bg_threshold g"

definition sliced :: "flt \<Rightarrow> flt \<Rightarrow> bar_generator \<Rightarrow> bar_generator \<Rightarrow> dollar_bar list \<Rightarrow> bool" where
  "sliced usd ofi g g' bars \<longleftrightarrow> generator_ok g' \<and> bg_threshold g' = bg_threshold g
     \<and> (\<forall>b \<in> set bars. volume_usd b = bg_threshold g)
     \<and> bg_threshold g * real (length bars) + held_usd g' = held_usd g + usd
     \<and> sum_list (map ofi_accum bars) + held_ofi g' = held_ofi g + (if 0 < usd then ofi else 0)"

lemma open_bar_held [simp]: "volume_usd (open_bar price ts g) = held_usd g" "ofi_accum (open_bar price ts g) = held_ofi g"
  by (simp_all add: open_bar_def held_usd_def held_ofi_def fresh_bar_def split: option.split)

lemma chunk_volumes [simp]:
  "volume_usd (apply_chunk price usd buy ts ofi b) = volume_usd b + usd"
  "ofi_accum (apply_chunk price usd buy ts ofi b) = ofi_accum b + ofi"
  by (simp_all add: apply_chunk_def)

lemma slice_loop_zero [simp]: "slice_loop price buy ts 0 ofi bars g = Some (g, bars)"
  by (subst slice_loop.simps) simp

lemma slice_loop_result:
  "generator_ok g \<Longrightarrow> 0 \<le> usd \<Longrightarrow> held_usd g + usd \<le> real n * bg_threshold g \<Longrightarrow>
     \<exists>g' new. slice_loop price buy ts usd ofi bars g = Some (g', bars @ new) \<and> sliced usd ofi g g' new"
proof (induction n arbitrary: usd ofi bars g)
  case 0
  then have "usd = 0" by (simp add: generator_ok_def)
  with 0 show ?case by (auto simp: sliced_def)
next
  case (Suc n)
  let ?t = "bg_threshold g" and ?b = "open_bar price ts g"
  have ok: "0 < ?t" "0 \<le> held_usd g" "held_usd g < ?t" using Suc.prems(1) by (simp_all add: generator_ok_def)
  consider "usd = 0" | "0 < usd" "held_usd g + usd < ?t" | "0 < usd" "held_usd g + usd = ?t" | "0 < usd" "?t < held_usd g + usd"
    using Suc.prems(2) by linarith
  then show ?case
  proof cases
    case 1
    with Suc.prems show ?thesis by (auto simp: sliced_def)
  next
    case 2
    let ?g = "g\<lparr>bg_current := Some (apply_chunk price usd buy ts ofi ?b)\<rparr>"
    have "slice_loop price buy ts usd ofi bars g = Some (?g, bars @ [])"
      using 2 by (subst slice_loop.simps) (simp add: Let_def)
    moreover have "sliced usd ofi g ?g []" using 2 ok by (simp add: sliced_def generator_ok_def held_usd_def [of ?g] held_ofi_def [of ?g])
    ultimately show ?thesis by blast
  next
    case 3
    let ?g = "g\<lparr>bg_current := None\<rparr>" and ?c = "apply_chunk price usd buy ts ofi ?b"
    have "slice_loop price buy ts usd ofi bars g = Some (?g, bars @ [?c])"
      using 3 by (subst slice_loop.simps) (simp add: Let_def)
    moreover have "sliced usd ofi g ?g [?c]" using 3 ok by (simp add: sliced_def generator_ok_def held_usd_def [of ?g] held_ofi_def [of ?g])
    ultimately show ?thesis by blast
  next
    case 4
    let ?cap = "?t - held_usd g" and ?g = "g\<lparr>bg_current := None\<rparr>"
    define chunk where "chunk = ofi * (if 1 < ?cap / usd then 1 else ?cap / usd)"
    let ?c = "apply_chunk price ?cap buy ts chunk ?b"
    have g: "generator_ok ?g" "held_usd ?g = 0" "held_ofi ?g = 0" "bg_threshold ?g = ?t"
      using ok by (simp_all add: generator_ok_def held_usd_def held_ofi_def)
    have "held_usd ?g + (usd - ?cap) \<le> real n * bg_threshold ?g" using Suc.prems(3) by (simp add: g algebra_simps)
    from Suc.IH [OF g(1) _ this, of "ofi - chunk" "bars @ [?c]"] 4 obtain g' new where
      r: "slice_loop price buy ts (usd - ?cap) (ofi - chunk) (bars @ [?c]) ?g = Some (g', (bars @ [?c]) @ new)"
        "sliced (usd - ?cap) (ofi - chunk) ?g g' new" by auto
    have "slice_loop price buy ts usd ofi bars g = Some (g', bars @ ?c # new)"
      using 4 r(1) by (subst slice_loop.simps) (simp add: Let_def chunk_def)
    moreover have "sliced usd ofi g g' (?c # new)"
      using 4 r(2) by (simp add: sliced_def g algebra_simps)
    ultimately show ?thesis by blast
  qed
qed

text \<open>C13: The generator slices a trade without loss.  For a positive threshold and a trade of positive
  price and size it returns; every bar it closes has exactly the threshold's volume, the volume
  of the trade is what the closed and the open bars gained, and so is its order-flow imbalance.\<close>

theorem slicing_conserves:
  assumes "generator_ok g" "0 < price" "0 < volume"
  shows "\<exists>g' bars. generate_tick price volume side ts ofi g = Some (g', bars) \<and> generator_ok g'
    \<and> (\<forall>b \<in> set bars. volume_usd b = bg_threshold g)
    \<and> bg_threshold g * real (length bars) + held_usd g' = held_usd g + price * volume
    \<and> sum_list (map ofi_accum bars) + held_ofi g' = held_ofi g + ofi"
proof -
  have usd: "0 < price * volume" using assms(2,3) by simp
  obtain n :: nat where "(held_usd g + price * volume) / bg_threshold g \<le> real n" using real_arch_simple by blast
  then have "held_usd g + price * volume \<le> real n * bg_threshold g"
    using assms(1) by (simp add: generator_ok_def pos_divide_le_eq)
  from slice_loop_result [OF assms(1) less_imp_le [OF usd] this, of price "py_upper side = ''BUY''" ts ofi "[]"]
  show ?thesis using usd by (auto simp: generate_tick_def sliced_def)
qed

theorem slicing_conserves_witness:
  "\<exists>g' bars. generate_tick 10 5 ''buy'' 1 7 (generator_init ''X'' 20) = Some (g', bars)
    \<and> 20 * real (length bars) + held_usd g' = 50 \<and> sum_list (map ofi_accum bars) + held_ofi g' = 7"
proof -
  let ?g = "generator_init ''X'' 20"
  have ok: "generator_ok ?g" by (simp add: generator_ok_def generator_init_def held_usd_def)
  have g0: "held_usd ?g = 0" "held_ofi ?g = 0" "bg_threshold ?g = 20"
    by (simp_all add: generator_init_def held_usd_def held_ofi_def)
  obtain g' bars where "generate_tick 10 5 ''buy'' 1 7 ?g = Some (g', bars)"
    "bg_threshold ?g * real (length bars) + held_usd g' = held_usd ?g + 10 * 5"
    "sum_list (map ofi_accum bars) + held_ofi g' = held_ofi ?g + 7"
    using slicing_conserves [OF ok, of 10 5 "''buy''" 1 7] by auto
  then have "generate_tick 10 5 ''buy'' 1 7 ?g = Some (g', bars) \<and> 20 * real (length bars) + held_usd g' = 50
    \<and> sum_list (map ofi_accum bars) + held_ofi g' = 7" by (simp only: g0) simp
  then show ?thesis by blast
qed

section \<open>The hybrid clock's buckets\<close>

text \<open>A bucket is reported for its target, or at the end of its time when it has four fifths of it.\<close>

lemma bucket_significant:
  assumes "snd (apply_data now later usd ofi c) = Some r" "0 < hc_target c"
  shows "hc_target c * (8 / 10) \<le> br_volume r \<and> br_vnofi r * br_volume r = hc_ofi c + ofi \<and> br_ticks r = hc_ticks c + 1"
proof -
  have v: "br_volume r = hc_volume c + usd" "br_ticks r = hc_ticks c + 1"
    "br_vnofi r = (if 0 < hc_volume c + usd then (hc_ofi c + ofi) / (hc_volume c + usd) else 0)"
    "hc_target c \<le> hc_volume c + usd \<or> hc_target c * (8 / 10) \<le> hc_volume c + usd"
    using assms(1) by (auto simp: apply_data_def Let_def harvest_def split: if_splits)
  then have big: "hc_target c * (8 / 10) \<le> br_volume r" using assms(2) by auto
  moreover have "0 < hc_volume c + usd" using big assms(2) v(1) by linarith
  ultimately show ?thesis using v(1,2,3) by simp
qed

section \<open>The gap detector never fires\<close>

datatype flat_event = Flat_tick flt flt | Gap_check int

fun flat_step :: "flat_event \<Rightarrow> flat_bar \<Rightarrow> flat_bar" where
  "flat_step (Flat_tick price qty) s = ingest_flat_tick price qty s"
| "flat_step (Gap_check now_ms) s = reconcile_gap now_ms s"

lemma ingest_flat_frame [simp]: "fb_last_ts (ingest_flat_tick price qty s) = fb_last_ts s"
  by (simp add: ingest_flat_tick_def Let_def)

lemma ingest_flat_corrupted: "fb_corrupted (ingest_flat_tick price qty s) \<Longrightarrow> fb_corrupted s"
  by (auto simp: ingest_flat_tick_def Let_def split: if_splits)

text \<open>A gap in the stream is never noticed.  The detector compares with the time of the last tick,
  which no operation writes: from a fresh state no run of ticks and checks, however far apart,
  marks a bar as corrupted.\<close>

theorem gap_never_detected:
  assumes "fb_last_ts s = 0" "\<not> fb_corrupted s"
  shows "\<not> fb_corrupted (fold flat_step evs s)"
  using assms
proof (induction evs arbitrary: s)
  case (Cons ev evs)
  have "fb_last_ts (flat_step ev s) = 0 \<and> \<not> fb_corrupted (flat_step ev s)"
    using Cons.prems by (cases ev) (auto simp: reconcile_gap_def dest: ingest_flat_corrupted)
  with Cons.IH show ?case by simp
qed simp

theorem gap_never_detected_witness:
  "\<not> fb_corrupted (fold flat_step [Flat_tick 10 1, Gap_check 999999999]
     \<lparr>fb_open = 0, fb_high = 0, fb_low = 0, fb_close = 0, fb_volume = 0, fb_dollars = 0, fb_ticks = 0, fb_threshold = 1000,
      fb_ready = False, fb_last_ts = 0, fb_corrupted = False\<rparr>)"
  by (rule gap_never_detected) simp_all

end
