(* ===== verification/Feature_Store.thy ===== *)
theory Feature_Store
  imports Prelude "HOL-Library.Word" "HOL-Library.AList"
begin

text \<open>
  The feature store (\<open>src/src/infrastructure/feature_store.py\<close>): an append-only file of feature
  vectors with room for a label in each record, an index from intents to offsets, the scan that
  rebuilds the index after a crash, and the compaction.  The mapped file is a list of bytes; a
  slice assignment of another length raises, as mmap's does.
\<close>

section \<open>Numbers in bytes\<close>

type_synonym byte = "8 word"

fun le_digits :: "nat \<Rightarrow> int \<Rightarrow> byte list" where
  "le_digits 0 v = []"
| "le_digits (Suc k) v = word_of_int v # le_digits k (v div 256)"

fun le_value :: "byte list \<Rightarrow> int" where
  "le_value [] = 0"
| "le_value (b # bs) = uint b + 256 * le_value bs"

definition signed_of :: "nat \<Rightarrow> int \<Rightarrow> int" where
  "signed_of bits u = (if u < 2 ^ (bits - 1) then u else u - 2 ^ bits)"

definition fits :: "nat \<Rightarrow> int \<Rightarrow> bool" where
  "fits bits v \<longleftrightarrow> - (2 ^ (bits - 1)) \<le> v \<and> v < 2 ^ (bits - 1)"

text \<open>\<open>struct.pack\<close> raises on a value out of range, which \<open>None\<close> stands for.\<close>

definition header_bytes :: "int \<Rightarrow> int \<Rightarrow> int \<Rightarrow> byte list" where
  "header_bytes i ts n = le_digits 8 i @ le_digits 8 ts @ le_digits 8 n"

definition pack_header :: "int \<Rightarrow> int \<Rightarrow> int \<Rightarrow> byte list option" where
  "pack_header i ts n = (if fits 64 i \<and> fits 64 ts \<and> fits 64 n then Some (header_bytes i ts n) else None)"

definition label_bytes :: "int \<Rightarrow> int \<Rightarrow> int \<Rightarrow> int \<Rightarrow> byte list" where
  "label_bytes l px pnl flag = le_digits 8 l @ le_digits 8 px @ le_digits 8 pnl @ le_digits 1 flag"

definition pack_label :: "int \<Rightarrow> int \<Rightarrow> int \<Rightarrow> int \<Rightarrow> byte list option" where
  "pack_label l px pnl flag =
     (if fits 64 l \<and> fits 64 px \<and> fits 64 pnl \<and> fits 8 flag then Some (label_bytes l px pnl flag) else None)"

definition unpack_q :: "nat \<Rightarrow> byte list \<Rightarrow> int" where
  "unpack_q k bs = signed_of 64 (le_value (take 8 (drop (8 * k) bs)))"

definition unpack_b :: "byte list \<Rightarrow> int" where
  "unpack_b bs = signed_of 8 (le_value (drop 24 bs))"

definition array_bytes :: "int list \<Rightarrow> byte list" where
  "array_bytes vs = concat (map (le_digits 8) vs)"

fun array_of :: "nat \<Rightarrow> byte list \<Rightarrow> int list" where
  "array_of 0 bs = []"
| "array_of (Suc k) bs = signed_of 64 (le_value (take 8 bs)) # array_of k (drop 8 bs)"

section \<open>The mapped file\<close>

definition read_at :: "byte list \<Rightarrow> nat \<Rightarrow> nat \<Rightarrow> byte list" where
  "read_at m a k = take k (drop a m)"

definition write_at :: "byte list \<Rightarrow> nat \<Rightarrow> byte list \<Rightarrow> byte list option" where
  "write_at m a bs = (if bs = [] \<or> a + length bs \<le> length m then Some (take a m @ bs @ drop (a + length bs) m) else None)"

text \<open>Writes in a row: the memory as far as they came, and whether none raised.\<close>

fun write_seq :: "byte list \<Rightarrow> (nat \<times> byte list) list \<Rightarrow> byte list \<times> bool" where
  "write_seq m [] = (m, True)"
| "write_seq m ((a, bs) # ws) = (case write_at m a bs of None \<Rightarrow> (m, False) | Some m' \<Rightarrow> write_seq m' ws)"

section \<open>The store\<close>

type_synonym stitched = "int \<times> int \<times> int"

record feature_store =
  fs_mmap :: "byte list option"
  fs_n :: nat
  fs_max :: nat
  fs_count :: int
  fs_pos :: nat
  fs_index :: "(int \<times> nat) list"
  fs_pending :: "int \<rightharpoonup> stitched"

definition record_size :: "nat \<Rightarrow> nat" where
  "record_size n = 24 + n * 8 + 25"

function rebuild_loop :: "byte list \<Rightarrow> nat \<Rightarrow> nat \<Rightarrow> nat \<Rightarrow> (int \<times> nat) list \<Rightarrow> int \<Rightarrow> nat \<times> (int \<times> nat) list \<times> int" where
  "rebuild_loop m n max_pos pos idx cnt =
     (if pos + 24 \<le> max_pos then
        let hb = read_at m pos 24; i = unpack_q 0 hb; ts = unpack_q 1 hb; n_feat = unpack_q 2 hb
        in if i = 0 \<and> ts = 0 then (pos, idx, cnt)
           else if n_feat \<noteq> int n then (pos, idx, cnt)
           else rebuild_loop m n max_pos (pos + record_size n) (AList.update i pos idx) (cnt + 1)
      else (pos, idx, cnt))"
  by pat_completeness auto
termination by (relation "measure (\<lambda>(m, n, max_pos, pos, idx, cnt). max_pos - pos)") (auto simp: record_size_def)

declare rebuild_loop.simps [simp del]

definition rebuild_index :: "feature_store \<Rightarrow> feature_store" where
  "rebuild_index S = (case fs_mmap S of None \<Rightarrow> S
     | Some m \<Rightarrow> (case rebuild_loop m (fs_n S) (record_size (fs_n S) * fs_max S) 0 (fs_index S) (fs_count S) of
         (pos, idx, cnt) \<Rightarrow> S\<lparr>fs_index := idx, fs_count := cnt, fs_pos := pos\<rparr>))"

text \<open>The file, if there is one, is extended to the size of the mapping, which sees its first bytes.\<close>

definition wal_bytes :: "nat \<Rightarrow> byte list option \<Rightarrow> byte list" where
  "wal_bytes sz file = (case file of None \<Rightarrow> replicate sz 0 | Some f \<Rightarrow> take sz (f @ replicate (sz - length f) 0))"

definition store_init :: "nat \<Rightarrow> nat \<Rightarrow> byte list option \<Rightarrow> feature_store" where
  "store_init n mx file = rebuild_index
     \<lparr>fs_mmap = Some (wal_bytes (record_size n * mx) file), fs_n = n, fs_max = mx, fs_count = 0, fs_pos = 0,
      fs_index = [], fs_pending = Map.empty\<rparr>"

definition write_label_at :: "nat \<Rightarrow> stitched \<Rightarrow> feature_store \<Rightarrow> bool \<times> feature_store" where
  "write_label_at off lab S = (case (fs_mmap S, lab) of
       (None, _) \<Rightarrow> (False, S)
     | (Some m, l, px, pnl) \<Rightarrow> (case pack_label l px pnl 1 of
           None \<Rightarrow> (False, S)
         | Some bs \<Rightarrow> (case write_at m (off + 24 + fs_n S * 8) bs of
               None \<Rightarrow> (False, S)
             | Some m' \<Rightarrow> (True, S\<lparr>fs_mmap := Some m'\<rparr>))))"

definition take_pending :: "int \<Rightarrow> nat \<Rightarrow> feature_store \<Rightarrow> feature_store" where
  "take_pending i off S = (case fs_pending S i of None \<Rightarrow> S
     | Some lab \<Rightarrow> snd (write_label_at off lab (S\<lparr>fs_pending := (fs_pending S)(i := None)\<rparr>)))"

definition append_features :: "int \<Rightarrow> int \<Rightarrow> int list \<Rightarrow> int \<Rightarrow> feature_store \<Rightarrow> bool \<times> feature_store" where
  "append_features now i feats ts0 S = (case fs_mmap S of
       None \<Rightarrow> (False, S)
     | Some m \<Rightarrow>
         if int (fs_max S) \<le> fs_count S then (False, S)
         else if length feats \<noteq> fs_n S then (False, S)
         else
           let ts = (if ts0 = 0 then now else ts0); off = fs_pos S
           in (case pack_header i ts (int (fs_n S)) of
                 None \<Rightarrow> (False, S)
               | Some hb \<Rightarrow>
                   let fb = array_bytes feats
                   in (case write_seq m [(off, hb), (off + 24, fb), (off + 24 + length fb, label_bytes 0 0 0 0)] of
                         (m', False) \<Rightarrow> (False, S\<lparr>fs_mmap := Some m'\<rparr>)
                       | (m', True) \<Rightarrow> (True, take_pending i off
                           (S\<lparr>fs_mmap := Some m', fs_index := AList.update i off (fs_index S),
                              fs_pos := off + record_size (fs_n S), fs_count := fs_count S + 1\<rparr>)))))"

definition stitch_label :: "int \<Rightarrow> stitched \<Rightarrow> feature_store \<Rightarrow> bool \<times> feature_store" where
  "stitch_label i lab S = (case fs_mmap S of
       None \<Rightarrow> (False, S)
     | Some m \<Rightarrow> (case map_of (fs_index S) i of
           None \<Rightarrow> (False, S\<lparr>fs_pending := (fs_pending S)(i \<mapsto> lab)\<rparr>)
         | Some off \<Rightarrow> write_label_at off lab S))"

definition is_labeled :: "byte list \<Rightarrow> nat \<Rightarrow> nat \<Rightarrow> bool" where
  "is_labeled m n off \<longleftrightarrow> unpack_b (read_at m (off + 24 + n * 8) 25) \<noteq> 0"

definition export_training_data :: "bool \<Rightarrow> feature_store \<Rightarrow> (int list \<times> int) list" where
  "export_training_data only_labeled S = (case fs_mmap S of
       None \<Rightarrow> []
     | Some m \<Rightarrow> map (\<lambda>(i, off). (array_of (fs_n S) (read_at m (off + 24) (fs_n S * 8)),
                                   unpack_q 0 (read_at m (off + 24 + fs_n S * 8) 25)))
                   (filter (\<lambda>(i, off). \<not> (only_labeled \<and> \<not> is_labeled m (fs_n S) off)) (fs_index S)))"

fun compact_loop :: "nat \<Rightarrow> (int \<times> byte list) list \<Rightarrow> nat \<Rightarrow> byte list \<Rightarrow> (int \<times> nat) list \<Rightarrow> (nat \<times> byte list \<times> (int \<times> nat) list) option" where
  "compact_loop sz [] pos m idx = Some (pos, m, idx)"
| "compact_loop sz ((i, rec) # ks) pos m idx = (case write_at m pos rec of
       None \<Rightarrow> None
     | Some m' \<Rightarrow> compact_loop sz ks (pos + sz) m' (AList.update i pos idx))"

text \<open>\<open>None\<close> is an exception of a slice assignment, which nothing here catches.\<close>

definition compaction :: "feature_store \<Rightarrow> (int \<times> feature_store) option" where
  "compaction S = (case fs_mmap S of
       None \<Rightarrow> Some (0, S)
     | Some m \<Rightarrow>
         let sz = record_size (fs_n S);
             keep = filter (\<lambda>(i, off). \<not> is_labeled m (fs_n S) off) (fs_index S);
             removed = fs_count S - int (length keep)
         in if removed = 0 then Some (0, S)
            else (case compact_loop sz (map (\<lambda>(i, off). (i, read_at m off sz)) keep) 0 m [] of
                    None \<Rightarrow> None
                  | Some (pos, m1, idx) \<Rightarrow>
                      (case (if 0 < int (fs_max S * sz) - int pos
                             then write_at m1 pos (replicate (fs_max S * sz - pos) 0) else Some m1) of
                         None \<Rightarrow> None
                       | Some m2 \<Rightarrow> Some (removed, S\<lparr>fs_mmap := Some m2, fs_index := idx, fs_pos := pos,
                                                    fs_count := int (length keep)\<rparr>))))"

definition store_close :: "feature_store \<Rightarrow> feature_store" where
  "store_close S = S\<lparr>fs_mmap := None\<rparr>"

definition labeled_count :: "feature_store \<Rightarrow> nat" where
  "labeled_count S = (case fs_mmap S of None \<Rightarrow> 0
     | Some m \<Rightarrow> length (filter (\<lambda>(i, off). m ! (off + 24 + fs_n S * 8 + 24) \<noteq> 0) (fs_index S)))"

section \<open>Packing and unpacking\<close>

lemma length_le_digits [simp]: "length (le_digits k v) = k"
  by (induction k arbitrary: v) auto

lemma le_value_digits: "le_value (le_digits k v) = v mod 256 ^ k"
proof (induction k arbitrary: v)
  case (Suc k)
  have "uint (word_of_int v :: byte) = v mod 256" by (simp add: uint_word_of_int)
  moreover have "v mod (256 * 256 ^ k) = 256 * (v div 256 mod 256 ^ k) + v mod 256"
    by (rule zmod_zmult2_eq) simp
  ultimately show ?case using Suc by simp
qed simp

lemma signed_of_mod:
  assumes "fits bits v" "0 < bits"
  shows "signed_of bits (v mod 2 ^ bits) = v"
proof -
  have e: "(2::int) ^ bits = 2 * 2 ^ (bits - 1)" using assms(2) by (cases bits) auto
  show ?thesis
  proof (cases "0 \<le> v")
    case True
    then have "v mod 2 ^ bits = v" using assms(1) e by (intro mod_pos_pos_trivial) (auto simp: fits_def)
    with assms(1) show ?thesis by (simp add: signed_of_def fits_def)
  next
    case False
    then have "v mod 2 ^ bits = v + 2 ^ bits"
      using assms(1) e mod_pos_pos_trivial [of "v + 2 ^ bits" "2 ^ bits"] by (auto simp: fits_def)
    with assms(1) False e show ?thesis by (simp add: signed_of_def fits_def)
  qed
qed

lemma unpack_le8 [simp]: "fits 64 v \<Longrightarrow> signed_of 64 (le_value (le_digits 8 v)) = v"
  using signed_of_mod [of 64 v] by (simp add: le_value_digits)

lemma unpack_le1 [simp]: "fits 8 v \<Longrightarrow> signed_of 8 (le_value (le_digits 1 v)) = v"
  using signed_of_mod [of 8 v] le_value_digits [of 1 v] by (simp del: le_digits.simps)

lemma le_value_zeros [simp]: "le_value (replicate k 0) = 0"
  by (induction k) auto

lemma length_packed [simp]:
  "length (header_bytes i ts n) = 24" "length (label_bytes l px pnl f) = 25" "length (array_bytes vs) = 8 * length vs"
proof -
  show "length (header_bytes i ts n) = 24" by (simp add: header_bytes_def)
  show "length (label_bytes l px pnl f) = 25" by (simp add: label_bytes_def del: le_digits.simps)
  show "length (array_bytes vs) = 8 * length vs" by (induction vs) (auto simp: array_bytes_def)
qed

lemma unpack_header [simp]:
  assumes "fits 64 i" "fits 64 ts" "fits 64 n"
  shows "unpack_q 0 (header_bytes i ts n) = i" "unpack_q 1 (header_bytes i ts n) = ts" "unpack_q 2 (header_bytes i ts n) = n"
  using assms by (simp_all add: unpack_q_def header_bytes_def)

lemma unpack_label [simp]:
  assumes "fits 64 l"
  shows "unpack_q 0 (label_bytes l px pnl f) = l" "fits 8 f \<Longrightarrow> unpack_b (label_bytes l px pnl f) = f"
  using assms by (simp_all add: unpack_q_def unpack_b_def label_bytes_def del: le_digits.simps One_nat_def)

lemma array_roundtrip: "list_all (fits 64) vs \<Longrightarrow> array_of (length vs) (array_bytes vs) = vs"
  by (induction vs) (auto simp: array_bytes_def)

lemma fits_small [simp]: "fits 64 0" "fits 8 0" "fits 8 1"
  by (simp_all add: fits_def)

section \<open>The file as a list of records\<close>

record feature_row =
  fr_id :: int
  fr_ts :: int
  fr_feats :: "int list"
  fr_label :: "stitched option"

definition row_label :: "stitched option \<Rightarrow> byte list" where
  "row_label x = (case x of None \<Rightarrow> label_bytes 0 0 0 0 | Some (l, px, pnl) \<Rightarrow> label_bytes l px pnl 1)"

definition row_bytes :: "nat \<Rightarrow> feature_row \<Rightarrow> byte list" where
  "row_bytes n r = header_bytes (fr_id r) (fr_ts r) (int n) @ array_bytes (fr_feats r) @ row_label (fr_label r)"

definition label_fits :: "stitched \<Rightarrow> bool" where
  "label_fits lab = (case lab of (l, px, pnl) \<Rightarrow> fits 64 l \<and> fits 64 px \<and> fits 64 pnl)"

definition row_ok :: "nat \<Rightarrow> feature_row \<Rightarrow> bool" where
  "row_ok n r \<longleftrightarrow> fits 64 (fr_id r) \<and> fits 64 (fr_ts r) \<and> (fr_id r \<noteq> 0 \<or> fr_ts r \<noteq> 0) \<and> length (fr_feats r) = n
     \<and> list_all (fits 64) (fr_feats r) \<and> (case fr_label r of None \<Rightarrow> True | Some lab \<Rightarrow> label_fits lab)"

definition file_bytes :: "nat \<Rightarrow> nat \<Rightarrow> feature_row list \<Rightarrow> byte list" where
  "file_bytes n mx rows = concat (map (row_bytes n) rows) @ replicate ((mx - length rows) * record_size n) 0"

fun index_from :: "nat \<Rightarrow> nat \<Rightarrow> feature_row list \<Rightarrow> (int \<times> nat) list \<Rightarrow> (int \<times> nat) list" where
  "index_from sz pos [] idx = idx"
| "index_from sz pos (r # rs) idx = index_from sz (pos + sz) rs (AList.update (fr_id r) pos idx)"

definition holds_rows :: "feature_store \<Rightarrow> feature_row list \<Rightarrow> bool" where
  "holds_rows S rows \<longleftrightarrow> fs_mmap S = Some (file_bytes (fs_n S) (fs_max S) rows) \<and> length rows \<le> fs_max S
     \<and> list_all (row_ok (fs_n S)) rows \<and> fs_pos S = record_size (fs_n S) * length rows \<and> fs_count S = int (length rows)
     \<and> fs_index S = index_from (record_size (fs_n S)) 0 rows [] \<and> fits 64 (int (fs_n S))"

lemma length_row_label [simp]: "length (row_label x) = 25"
  by (simp add: row_label_def split: option.split prod.split)

lemma length_row [simp]: "length (fr_feats r) = n \<Longrightarrow> length (row_bytes n r) = record_size n"
  by (simp add: row_bytes_def record_size_def)

lemma length_rows [simp]: "list_all (row_ok n) rows \<Longrightarrow> length (concat (map (row_bytes n) rows)) = record_size n * length rows"
  by (induction rows) (auto simp: row_ok_def)

lemma length_file [simp]:
  "list_all (row_ok n) rows \<Longrightarrow> length rows \<le> mx \<Longrightarrow> length (file_bytes n mx rows) = record_size n * mx"
  by (simp add: file_bytes_def mult.commute [of _ "record_size n"] flip: add_mult_distrib2)

lemma index_from_snoc:
  "index_from sz pos (rows @ [r]) idx = AList.update (fr_id r) (pos + sz * length rows) (index_from sz pos rows idx)"
  by (induction rows arbitrary: pos idx) (auto simp: add.assoc)

lemma index_from_ids: "map fr_id rows = map fr_id rows' \<Longrightarrow> index_from sz pos rows idx = index_from sz pos rows' idx"
proof (induction rows arbitrary: rows' pos idx)
  case (Cons r rs)
  then obtain r' rs' where "rows' = r' # rs'" "fr_id r' = fr_id r" "map fr_id rs = map fr_id rs'" by auto
  with Cons.IH show ?case by simp
qed simp

lemma index_lookup:
  "map_of (index_from sz 0 rows []) i = Some off \<longleftrightarrow>
     (\<exists>a r b. rows = a @ r # b \<and> fr_id r = i \<and> i \<notin> fr_id ` set b \<and> off = sz * length a)"
proof (induction rows arbitrary: off rule: rev_induct)
  case Nil
  show ?case by simp
next
  case (snoc x rows)
  show ?case
  proof (cases "fr_id x = i")
    case True
    have "(\<exists>a r b. rows @ [x] = a @ r # b \<and> fr_id r = i \<and> i \<notin> fr_id ` set b \<and> off = sz * length a) \<longleftrightarrow> off = sz * length rows"
    proof
      assume "\<exists>a r b. rows @ [x] = a @ r # b \<and> fr_id r = i \<and> i \<notin> fr_id ` set b \<and> off = sz * length a"
      then obtain a r b where d: "rows @ [x] = a @ r # b" "i \<notin> fr_id ` set b" "off = sz * length a" by blast
      with True have "b = []" by (cases b rule: rev_cases) auto
      with d show "off = sz * length rows" by simp
    next
      assume "off = sz * length rows"
      with True show "\<exists>a r b. rows @ [x] = a @ r # b \<and> fr_id r = i \<and> i \<notin> fr_id ` set b \<and> off = sz * length a"
        by (intro exI [of _ rows] exI [of _ x] exI [of _ "[]"]) simp
    qed
    with True show ?thesis by (auto simp: index_from_snoc update_conv')
  next
    case False
    have "(\<exists>a r b. rows @ [x] = a @ r # b \<and> fr_id r = i \<and> i \<notin> fr_id ` set b \<and> off = sz * length a) \<longleftrightarrow>
        (\<exists>a r b. rows = a @ r # b \<and> fr_id r = i \<and> i \<notin> fr_id ` set b \<and> off = sz * length a)"
    proof
      assume "\<exists>a r b. rows @ [x] = a @ r # b \<and> fr_id r = i \<and> i \<notin> fr_id ` set b \<and> off = sz * length a"
      then obtain a r b where d: "rows @ [x] = a @ r # b" "fr_id r = i" "i \<notin> fr_id ` set b" "off = sz * length a" by blast
      then obtain b' where "b = b' @ [x]" using False by (cases b rule: rev_cases) auto
      with d show "\<exists>a r b. rows = a @ r # b \<and> fr_id r = i \<and> i \<notin> fr_id ` set b \<and> off = sz * length a" by auto
    next
      assume "\<exists>a r b. rows = a @ r # b \<and> fr_id r = i \<and> i \<notin> fr_id ` set b \<and> off = sz * length a"
      then obtain a r b where d: "rows = a @ r # b" "fr_id r = i" "i \<notin> fr_id ` set b" "off = sz * length a" by blast
      then show "\<exists>a r b. rows @ [x] = a @ r # b \<and> fr_id r = i \<and> i \<notin> fr_id ` set b \<and> off = sz * length a"
        using False by (intro exI [of _ a] exI [of _ r] exI [of _ "b @ [x]"]) auto
    qed
    with False snoc show ?thesis by (simp add: index_from_snoc update_conv')
  qed
qed

section \<open>Reading and writing one record\<close>

lemma write_at_middle:
  "length old = length new \<Longrightarrow> write_at (a @ old @ b) (length a) new = Some (a @ new @ b)"
  by (simp add: write_at_def)

lemma file_split:
  assumes "list_all (row_ok n) (a @ r # b)"
  shows "file_bytes n mx (a @ r # b) = concat (map (row_bytes n) a) @ row_bytes n r @
      (concat (map (row_bytes n) b) @ replicate ((mx - length (a @ r # b)) * record_size n) 0)"
  using assms by (simp add: file_bytes_def)

lemma read_row:
  assumes "list_all (row_ok n) (a @ r # b)" "j + k \<le> record_size n"
  shows "read_at (file_bytes n mx (a @ r # b)) (record_size n * length a + j) k = take k (drop j (row_bytes n r))"
  using assms by (simp add: file_split read_at_def row_ok_def)

lemma read_label:
  assumes "list_all (row_ok n) (a @ r # b)"
  shows "read_at (file_bytes n mx (a @ r # b)) (record_size n * length a + 24 + n * 8) 25 = row_label (fr_label r)"
proof -
  have "length (fr_feats r) = n" using assms by (simp add: row_ok_def)
  then have "take 25 (drop (24 + n * 8) (row_bytes n r)) = row_label (fr_label r)"
    by (simp add: row_bytes_def mult.commute)
  then show ?thesis using read_row [OF assms, of "24 + n * 8" 25 mx] by (simp add: record_size_def add.assoc)
qed

lemma read_feats:
  assumes "list_all (row_ok n) (a @ r # b)"
  shows "array_of n (read_at (file_bytes n mx (a @ r # b)) (record_size n * length a + 24) (n * 8)) = fr_feats r"
proof -
  have r: "length (fr_feats r) = n" "list_all (fits 64) (fr_feats r)" using assms by (simp_all add: row_ok_def)
  then have "take (n * 8) (drop 24 (row_bytes n r)) = array_bytes (fr_feats r)"
    by (simp add: row_bytes_def mult.commute)
  then show ?thesis
    using read_row [OF assms, of 24 "n * 8" mx] array_roundtrip [OF r(2)] r(1) by (simp add: record_size_def)
qed

lemma read_header:
  assumes "list_all (row_ok n) (a @ r # b)"
  shows "read_at (file_bytes n mx (a @ r # b)) (record_size n * length a) 24 = header_bytes (fr_id r) (fr_ts r) (int n)"
  using read_row [OF assms, of 0 24 mx] by (simp add: record_size_def row_bytes_def)

lemma write_label_row:
  assumes "list_all (row_ok n) (a @ r # b)"
  shows "write_at (file_bytes n mx (a @ r # b)) (record_size n * length a + 24 + n * 8) (label_bytes l px pnl 1)
    = Some (file_bytes n mx (a @ r\<lparr>fr_label := Some (l, px, pnl)\<rparr> # b))"
proof -
  let ?a = "concat (map (row_bytes n) a)" and ?h = "header_bytes (fr_id r) (fr_ts r) (int n) @ array_bytes (fr_feats r)"
    and ?z = "concat (map (row_bytes n) b) @ replicate ((mx - length (a @ r # b)) * record_size n) 0"
  have "length (fr_feats r) = n" using assms by (simp add: row_ok_def)
  then have "length (?a @ ?h) = record_size n * length a + 24 + n * 8" using assms by simp
  moreover have "file_bytes n mx (a @ r # b) = (?a @ ?h) @ row_label (fr_label r) @ ?z"
    by (simp add: file_bytes_def row_bytes_def)
  moreover have "file_bytes n mx (a @ r\<lparr>fr_label := Some (l, px, pnl)\<rparr> # b) = (?a @ ?h) @ label_bytes l px pnl 1 @ ?z"
    by (simp add: file_bytes_def row_bytes_def row_label_def)
  ultimately show ?thesis by (metis length_packed(2) length_row_label write_at_middle)
qed

lemma file_room:
  assumes "length rows < mx"
  shows "file_bytes n mx rows = concat (map (row_bytes n) rows) @ replicate (record_size n) 0
    @ replicate ((mx - Suc (length rows)) * record_size n) 0"
proof -
  have "(mx - length rows) * record_size n = record_size n + (mx - Suc (length rows)) * record_size n"
    using assms Suc_diff_Suc [OF assms] by (metis mult_Suc)
  then show ?thesis by (simp add: file_bytes_def replicate_add)
qed

lemma write_row:
  assumes "list_all (row_ok n) rows" "length rows < mx" "length feats = n"
  shows "write_seq (file_bytes n mx rows) [(record_size n * length rows, header_bytes i ts (int n)),
      (record_size n * length rows + 24, array_bytes feats), (record_size n * length rows + 24 + length (array_bytes feats), label_bytes 0 0 0 0)]
    = (file_bytes n mx (rows @ [\<lparr>fr_id = i, fr_ts = ts, fr_feats = feats, fr_label = None\<rparr>]), True)"
proof -
  let ?a = "concat (map (row_bytes n) rows)" and ?z = "replicate ((mx - Suc (length rows)) * record_size n) (0 :: byte)"
    and ?h = "header_bytes i ts (int n)" and ?f = "array_bytes feats" and ?o = "record_size n * length rows"
  have a: "length ?a = ?o" using assms(1) by simp
  have z: "replicate (record_size n) (0 :: byte) = replicate 24 0 @ replicate (n * 8) 0 @ replicate 25 0"
    by (simp only: record_size_def replicate_add append_assoc)
  have "write_at (file_bytes n mx rows) ?o ?h = Some (?a @ ?h @ replicate (n * 8) 0 @ replicate 25 0 @ ?z)"
    using write_at_middle [of "replicate 24 0" ?h ?a "replicate (n * 8) 0 @ replicate 25 0 @ ?z"] a
    by (simp add: file_room [OF assms(2)] z)
  moreover have "write_at (?a @ ?h @ replicate (n * 8) 0 @ replicate 25 0 @ ?z) (?o + 24) ?f
      = Some (?a @ ?h @ ?f @ replicate 25 0 @ ?z)"
    using write_at_middle [of "replicate (n * 8) 0" ?f "?a @ ?h" "replicate 25 0 @ ?z"] a assms(3) by (simp add: mult.commute)
  moreover have "write_at (?a @ ?h @ ?f @ replicate 25 0 @ ?z) (?o + 24 + length ?f) (label_bytes 0 0 0 0)
      = Some (?a @ ?h @ ?f @ label_bytes 0 0 0 0 @ ?z)"
    using write_at_middle [of "replicate 25 0" "label_bytes 0 0 0 0" "?a @ ?h @ ?f" ?z] a by (simp add: add.assoc)
  ultimately show ?thesis by (simp add: file_bytes_def row_bytes_def row_label_def)
qed

section \<open>The scan after a crash\<close>

lemma rebuild_rows:
  assumes "list_all (row_ok n) (done @ todo)" "length (done @ todo) \<le> mx" "fits 64 (int n)"
  shows "rebuild_loop (file_bytes n mx (done @ todo)) n (record_size n * mx) (record_size n * length done) idx cnt =
    (record_size n * length (done @ todo), index_from (record_size n) (record_size n * length done) todo idx, cnt + int (length todo))"
  using assms
proof (induction todo arbitrary: "done" idx cnt)
  case Nil
  have "24 \<le> record_size n" by (simp add: record_size_def)
  show ?case
  proof (cases "length done < mx")
    case True
    let ?zero = "read_at (file_bytes n mx done) (record_size n * length done) 24"
    have "?zero = replicate 24 0"
      using Nil(1) \<open>24 \<le> record_size n\<close> by (simp add: file_room [OF True] read_at_def)
    then have "unpack_q 0 ?zero = 0" "unpack_q (Suc 0) ?zero = 0" by (simp_all add: unpack_q_def signed_of_def)
    then show ?thesis by (subst rebuild_loop.simps) (simp add: Let_def)
  next
    case False
    with Nil show ?thesis by (subst rebuild_loop.simps) (simp add: not_less)
  qed
next
  case (Cons r rs)
  let ?o = "record_size n * length done" and ?m = "file_bytes n mx (done @ r # rs)"
  have ok: "fits 64 (fr_id r)" "fits 64 (fr_ts r)" "fr_id r \<noteq> 0 \<or> fr_ts r \<noteq> 0" using Cons.prems by (simp_all add: row_ok_def)
  have "Suc (length done) \<le> mx" using Cons.prems by simp
  then have "record_size n * Suc (length done) \<le> record_size n * mx" by (rule mult_le_mono2)
  then have room: "?o + 24 \<le> record_size n * mx" by (simp add: record_size_def)
  have "rebuild_loop ?m n (record_size n * mx) ?o idx cnt
      = rebuild_loop ?m n (record_size n * mx) (?o + record_size n) (AList.update (fr_id r) ?o idx) (cnt + 1)"
    using room ok Cons.prems(3)
    by (subst rebuild_loop.simps) (auto simp: Let_def read_header [OF Cons.prems(1)] simp del: One_nat_def)
  also have "\<dots> = (record_size n * length (done @ r # rs),
      index_from (record_size n) (?o + record_size n) rs (AList.update (fr_id r) ?o idx), cnt + int (length (r # rs)))"
    using Cons.IH [of "done @ [r]" "AList.update (fr_id r) ?o idx" "cnt + 1"] Cons.prems by (simp add: add.commute)
  finally show ?case by simp
qed

lemma reopen_rows:
  assumes "holds_rows S rows"
  shows "store_init (fs_n S) (fs_max S) (fs_mmap S) = S\<lparr>fs_pending := Map.empty\<rparr>"
proof -
  have l: "length (file_bytes (fs_n S) (fs_max S) rows) = record_size (fs_n S) * fs_max S"
    using assms by (simp add: holds_rows_def)
  from assms rebuild_rows [of "fs_n S" "[]" rows "fs_max S" "[]" 0] show ?thesis
    by (simp add: store_init_def rebuild_index_def holds_rows_def wal_bytes_def l)
qed

lemma init_rows:
  assumes "fits 64 (int n)"
  shows "holds_rows (store_init n mx None) []"
proof -
  have f: "wal_bytes (record_size n * mx) None = file_bytes n mx []" by (simp add: wal_bytes_def file_bytes_def mult.commute)
  show ?thesis
    using rebuild_rows [of n "[]" "[]" mx "[]" 0] assms
    by (simp add: store_init_def rebuild_index_def f holds_rows_def)
qed

section \<open>What the store means\<close>

text \<open>
  The specification: a map from intents to their features and label, the labels that wait for
  features, and how many records of the file are used.
\<close>

record store_spec =
  ab_rows :: "int \<rightharpoonup> int list \<times> stitched option"
  ab_pending :: "int \<rightharpoonup> stitched"
  ab_used :: int

definition label_cells :: "byte list \<Rightarrow> stitched" where
  "label_cells lb = (unpack_q 0 lb, unpack_q 1 lb, unpack_q 2 lb)"

definition store_view :: "feature_store \<Rightarrow> store_spec" where
  "store_view S = \<lparr>ab_rows = (\<lambda>i. case fs_mmap S of None \<Rightarrow> None
       | Some m \<Rightarrow> map_option (\<lambda>off. (array_of (fs_n S) (read_at m (off + 24) (fs_n S * 8)),
             if is_labeled m (fs_n S) off then Some (label_cells (read_at m (off + 24 + fs_n S * 8) 25)) else None))
           (map_of (fs_index S) i)),
     ab_pending = fs_pending S, ab_used = fs_count S\<rparr>"

definition good_label :: "stitched option \<Rightarrow> stitched option" where
  "good_label x = (case x of None \<Rightarrow> None | Some lab \<Rightarrow> if label_fits lab then Some lab else None)"

definition spec_append :: "nat \<Rightarrow> nat \<Rightarrow> int \<Rightarrow> int list \<Rightarrow> int \<Rightarrow> store_spec \<Rightarrow> bool \<times> store_spec" where
  "spec_append n mx i feats ts A =
     (if ab_used A < int mx \<and> length feats = n \<and> fits 64 i \<and> fits 64 ts
      then (True, A\<lparr>ab_rows := (ab_rows A)(i \<mapsto> (feats, good_label (ab_pending A i))),
                    ab_pending := (ab_pending A)(i := None), ab_used := ab_used A + 1\<rparr>)
      else (False, A))"

definition spec_stitch :: "int \<Rightarrow> stitched \<Rightarrow> store_spec \<Rightarrow> bool \<times> store_spec" where
  "spec_stitch i lab A = (case ab_rows A i of
       None \<Rightarrow> (False, A\<lparr>ab_pending := (ab_pending A)(i \<mapsto> lab)\<rparr>)
     | Some (feats, _) \<Rightarrow> if label_fits lab then (True, A\<lparr>ab_rows := (ab_rows A)(i \<mapsto> (feats, Some lab))\<rparr>) else (False, A))"

definition unlabelled :: "store_spec \<Rightarrow> int set" where
  "unlabelled A = {i. \<exists>feats. ab_rows A i = Some (feats, None)}"

definition spec_compact :: "store_spec \<Rightarrow> int \<times> store_spec" where
  "spec_compact A = (ab_used A - int (card (unlabelled A)),
     A\<lparr>ab_rows := ab_rows A |` unlabelled A, ab_used := int (card (unlabelled A))\<rparr>)"

definition spec_reopen :: "store_spec \<Rightarrow> store_spec" where
  "spec_reopen A = A\<lparr>ab_pending := Map.empty\<rparr>"

definition table :: "feature_row list \<Rightarrow> int \<rightharpoonup> int list \<times> stitched option" where
  "table rows = map_of (rev (map (\<lambda>r. (fr_id r, fr_feats r, fr_label r)) rows))"

lemma table_snoc: "table (rows @ [r]) = (table rows)(fr_id r \<mapsto> (fr_feats r, fr_label r))"
  by (simp add: table_def)

lemma table_split: "fr_id r \<notin> fr_id ` set b \<Longrightarrow> table (a @ r # b) = (table (a @ b))(fr_id r \<mapsto> (fr_feats r, fr_label r))"
proof (induction b rule: rev_induct)
  case (snoc x b)
  then show ?case
    using table_snoc [of "a @ r # b" x] table_snoc [of "a @ b" x] by (auto simp: fun_eq_iff)
qed (simp add: table_snoc)

lemma table_None: "table rows i = None \<longleftrightarrow> i \<notin> fr_id ` set rows"
  by (simp add: table_def map_of_eq_None_iff image_image)

lemma index_None: "map_of (index_from sz 0 rows []) i = None \<longleftrightarrow> i \<notin> fr_id ` set rows"
proof (induction rows rule: rev_induct)
  case (snoc r rows)
  then show ?case by (auto simp: index_from_snoc update_conv')
qed simp

lemma last_occurrence:
  fixes rows :: "feature_row list"
  assumes "i \<in> fr_id ` set rows"
  obtains a r b where "rows = a @ r # b" "fr_id r = i" "i \<notin> fr_id ` set b"
proof -
  have "map_of (index_from 1 0 rows []) i \<noteq> None" using assms by (simp add: index_None)
  then obtain off where "map_of (index_from 1 0 rows []) i = Some off" by blast
  then show ?thesis using that by (auto simp: index_lookup)
qed

lemma row_label_read:
  assumes "case x of None \<Rightarrow> True | Some lab \<Rightarrow> label_fits lab"
  shows "unpack_b (row_label x) \<noteq> 0 \<longleftrightarrow> x \<noteq> None" "x = Some lab \<Longrightarrow> label_cells (row_label x) = lab"
proof -
  show "unpack_b (row_label x) \<noteq> 0 \<longleftrightarrow> x \<noteq> None"
    using assms by (auto simp: row_label_def label_fits_def split: option.splits)
  show "x = Some lab \<Longrightarrow> label_cells (row_label x) = lab"
    using assms by (cases lab) (simp add: row_label_def label_fits_def label_cells_def unpack_q_def label_bytes_def)
qed

lemma is_labeled_row:
  assumes "list_all (row_ok n) (a @ r # b)"
  shows "is_labeled (file_bytes n mx (a @ r # b)) n (record_size n * length a) \<longleftrightarrow> fr_label r \<noteq> None"
  using assms row_label_read(1) [of "fr_label r"] by (simp add: is_labeled_def read_label row_ok_def)

lemma view_rows:
  assumes "holds_rows S rows"
  shows "ab_rows (store_view S) = table rows"
proof
  fix i
  let ?idx = "map_of (fs_index S) i"
  show "ab_rows (store_view S) i = table rows i"
  proof (cases "i \<in> fr_id ` set rows")
    case True
    then obtain a r b where d: "rows = a @ r # b" "fr_id r = i" "i \<notin> fr_id ` set b" by (rule last_occurrence)
    then have off: "?idx = Some (record_size (fs_n S) * length a)"
      using assms by (auto simp: holds_rows_def index_lookup)
    have ok: "list_all (row_ok (fs_n S)) (a @ r # b)" and m: "fs_mmap S = Some (file_bytes (fs_n S) (fs_max S) (a @ r # b))"
      using assms d by (simp_all add: holds_rows_def)
    have "case fr_label r of None \<Rightarrow> True | Some lab \<Rightarrow> label_fits lab" using ok by (simp add: row_ok_def)
    then have "ab_rows (store_view S) i = Some (fr_feats r, fr_label r)"
      using row_label_read(2) [of "fr_label r"]
      by (cases "fr_label r") (auto simp: store_view_def m off read_feats [OF ok] is_labeled_row [OF ok] read_label [OF ok])
    then show ?thesis using d table_split [of r b a] by simp
  next
    case False
    then have "table rows i = None" "?idx = None" using assms by (simp_all add: holds_rows_def index_None table_None)
    then show ?thesis by (simp add: store_view_def split: option.split)
  qed
qed

lemma view_fields [simp]: "ab_pending (store_view S) = fs_pending S" "ab_used (store_view S) = fs_count S"
  by (simp_all add: store_view_def)

lemma spec_eqI: "ab_rows A = ab_rows B \<Longrightarrow> ab_pending A = ab_pending B \<Longrightarrow> ab_used A = ab_used B \<Longrightarrow> A = (B :: store_spec)"
  by simp

section \<open>Every operation keeps its meaning\<close>

lemma holds_pending [simp]: "holds_rows (S\<lparr>fs_pending := p\<rparr>) rows = holds_rows S rows"
  by (simp add: holds_rows_def)

lemma write_label_holds:
  assumes "holds_rows S (a @ r # b)"
  defines "off \<equiv> record_size (fs_n S) * length a"
  shows "label_fits lab \<Longrightarrow> fst (write_label_at off lab S) \<and> holds_rows (snd (write_label_at off lab S)) (a @ r\<lparr>fr_label := Some lab\<rparr> # b)
      \<and> fs_pending (snd (write_label_at off lab S)) = fs_pending S \<and> fs_count (snd (write_label_at off lab S)) = fs_count S
      \<and> fs_n (snd (write_label_at off lab S)) = fs_n S \<and> fs_max (snd (write_label_at off lab S)) = fs_max S"
    and "\<not> label_fits lab \<Longrightarrow> write_label_at off lab S = (False, S)"
proof -
  obtain l px pnl where lab: "lab = (l, px, pnl)" by (cases lab)
  have m: "fs_mmap S = Some (file_bytes (fs_n S) (fs_max S) (a @ r # b))" and ok: "list_all (row_ok (fs_n S)) (a @ r # b)"
    using assms(1) by (simp_all add: holds_rows_def)
  have ids: "index_from sz 0 (a @ r\<lparr>fr_label := x\<rparr> # b) [] = index_from sz 0 (a @ r # b) []" for sz x
    by (rule index_from_ids) simp
  assume "label_fits lab"
  then have "write_label_at off lab S = (True, S\<lparr>fs_mmap := Some (file_bytes (fs_n S) (fs_max S) (a @ r\<lparr>fr_label := Some lab\<rparr> # b))\<rparr>)"
    using write_label_row [OF ok, of "fs_max S" l px pnl]
    by (simp add: write_label_at_def m lab pack_label_def label_fits_def off_def)
  then show "fst (write_label_at off lab S) \<and> holds_rows (snd (write_label_at off lab S)) (a @ r\<lparr>fr_label := Some lab\<rparr> # b)
      \<and> fs_pending (snd (write_label_at off lab S)) = fs_pending S \<and> fs_count (snd (write_label_at off lab S)) = fs_count S
      \<and> fs_n (snd (write_label_at off lab S)) = fs_n S \<and> fs_max (snd (write_label_at off lab S)) = fs_max S"
    using assms(1) \<open>label_fits lab\<close> by (simp add: holds_rows_def ids row_ok_def)
next
  assume "\<not> label_fits lab"
  then show "write_label_at off lab S = (False, S)"
    by (auto simp: write_label_at_def pack_label_def label_fits_def split: option.split prod.splits)
qed

lemma stitch_refines:
  assumes "holds_rows S rows"
  shows "(\<exists>rows'. holds_rows (snd (stitch_label i lab S)) rows')
    \<and> fst (stitch_label i lab S) = fst (spec_stitch i lab (store_view S))
    \<and> store_view (snd (stitch_label i lab S)) = snd (spec_stitch i lab (store_view S))
    \<and> fs_n (snd (stitch_label i lab S)) = fs_n S \<and> fs_max (snd (stitch_label i lab S)) = fs_max S"
proof -
  obtain m where m: "fs_mmap S = Some m" using assms by (simp add: holds_rows_def)
  note v = view_rows [OF assms]
  show ?thesis
  proof (cases "i \<in> fr_id ` set rows")
    case True
    then obtain a r b where d: "rows = a @ r # b" "fr_id r = i" "i \<notin> fr_id ` set b" by (rule last_occurrence)
    then have off: "map_of (fs_index S) i = Some (record_size (fs_n S) * length a)"
      using assms by (auto simp: holds_rows_def index_lookup)
    have t: "table rows i = Some (fr_feats r, fr_label r)" using d table_split [of r b a] by simp
    show ?thesis
    proof (cases "label_fits lab")
      case True
      note w = write_label_holds(1) [OF assms [unfolded d(1)] True]
      have "table (a @ r\<lparr>fr_label := Some lab\<rparr> # b) = (table rows)(i \<mapsto> (fr_feats r, Some lab))"
        using d table_split [of r b a] table_split [of "r\<lparr>fr_label := Some lab\<rparr>" b a] by (simp add: fun_eq_iff)
      then have "store_view (snd (stitch_label i lab S)) = snd (spec_stitch i lab (store_view S))"
        using w True view_rows [of "snd (write_label_at (record_size (fs_n S) * length a) lab S)" "a @ r\<lparr>fr_label := Some lab\<rparr> # b"]
        by (intro spec_eqI) (simp_all add: stitch_label_def m off spec_stitch_def v t)
      then show ?thesis using w True by (auto simp: stitch_label_def m off spec_stitch_def v t)
    next
      case False
      then show ?thesis
        using write_label_holds(2) [OF assms [unfolded d(1)] False] assms
        by (auto simp: stitch_label_def m off spec_stitch_def v t)
    qed
  next
    case False
    then have n: "map_of (fs_index S) i = None" "table rows i = None"
      using assms by (simp_all add: holds_rows_def index_None table_None)
    have "store_view (S\<lparr>fs_pending := (fs_pending S)(i \<mapsto> lab)\<rparr>) = snd (spec_stitch i lab (store_view S))"
      using view_rows [of "S\<lparr>fs_pending := (fs_pending S)(i \<mapsto> lab)\<rparr>" rows] assms
      by (intro spec_eqI) (simp_all add: spec_stitch_def v n)
    then show ?thesis using assms by (auto simp: stitch_label_def m spec_stitch_def v n)
  qed
qed

lemma pending_refines:
  assumes "holds_rows S (rows @ [r])" "fr_id r = i" "fr_label r = None"
  defines "S' \<equiv> take_pending i (record_size (fs_n S) * length rows) S"
  shows "holds_rows S' (rows @ [r\<lparr>fr_label := good_label (fs_pending S i)\<rparr>]) \<and> fs_pending S' = (fs_pending S)(i := None)
    \<and> fs_count S' = fs_count S \<and> fs_n S' = fs_n S \<and> fs_max S' = fs_max S"
proof (cases "fs_pending S i")
  case None
  then have "r\<lparr>fr_label := good_label (fs_pending S i)\<rparr> = r" "(fs_pending S)(i := None) = fs_pending S"
    using assms(3) by (auto simp: good_label_def)
  with None assms(1) show ?thesis by (simp add: S'_def take_pending_def)
next
  case (Some lab)
  let ?S = "S\<lparr>fs_pending := (fs_pending S)(i := None)\<rparr>"
  have h: "holds_rows ?S (rows @ r # [])" using assms(1) by simp
  have s: "S' = snd (write_label_at (record_size (fs_n ?S) * length rows) lab ?S)" by (simp add: S'_def take_pending_def Some)
  show ?thesis
  proof (cases "label_fits lab")
    case True
    with write_label_holds(1) [OF h True] show ?thesis by (simp add: s Some good_label_def)
  next
    case False
    have "r\<lparr>fr_label := None\<rparr> = r" using assms(3) by simp
    with False h write_label_holds(2) [OF h False] show ?thesis by (simp add: s Some good_label_def)
  qed
qed

lemma append_refines:
  fixes S :: feature_store and ts i :: int
  assumes "holds_rows S rows" "list_all (fits 64) feats" "now \<noteq> 0"
  defines "T \<equiv> append_features now i feats ts S"
    and "A \<equiv> spec_append (fs_n S) (fs_max S) i feats (if ts = 0 then now else ts) (store_view S)"
  shows "(\<exists>rows'. holds_rows (snd T) rows') \<and> fst T = fst A \<and> store_view (snd T) = snd A
    \<and> fs_n (snd T) = fs_n S \<and> fs_max (snd T) = fs_max S"
proof -
  let ?t = "if ts = 0 then now else ts" and ?n = "fs_n S"
  have m: "fs_mmap S = Some (file_bytes ?n (fs_max S) rows)" and c: "fs_count S = int (length rows)"
    and pos: "fs_pos S = record_size ?n * length rows" and ok: "list_all (row_ok ?n) rows" and n64: "fits 64 (int ?n)"
    using assms(1) by (simp_all add: holds_rows_def)
  show ?thesis
  proof (cases "length rows < fs_max S \<and> length feats = ?n \<and> fits 64 i \<and> fits 64 ?t")
    case False
    then have "T = (False, S)" "A = (False, store_view S)"
      by (auto simp: T_def A_def append_features_def spec_append_def m c pack_header_def Let_def)
    then show ?thesis using assms(1) by auto
  next
    case True
    define r where "r = \<lparr>fr_id = i, fr_ts = ?t, fr_feats = feats, fr_label = None\<rparr>"
    define S1 where "S1 = S\<lparr>fs_mmap := Some (file_bytes ?n (fs_max S) (rows @ [r])), fs_index := AList.update i (fs_pos S) (fs_index S),
                            fs_pos := fs_pos S + record_size ?n, fs_count := fs_count S + 1\<rparr>"
    have w: "write_seq (file_bytes ?n (fs_max S) rows) [(fs_pos S, header_bytes i ?t (int ?n)), (fs_pos S + 24, array_bytes feats),
        (fs_pos S + 24 + length (array_bytes feats), label_bytes 0 0 0 0)] = (file_bytes ?n (fs_max S) (rows @ [r]), True)"
      unfolding pos r_def using True by (intro write_row [OF ok]) simp_all
    have "T = (True, take_pending i (fs_pos S) S1)"
      using True n64 unfolding T_def append_features_def
      by (simp add: m c pack_header_def Let_def w S1_def del: write_seq.simps length_packed)
    moreover have "row_ok ?n r" using True assms(2,3) by (auto simp: row_ok_def r_def)
    then have h: "holds_rows S1 (rows @ [r])"
      using assms(1) True by (simp add: holds_rows_def S1_def index_from_snoc r_def)
    note p = pending_refines [OF h, of i]
    moreover have "fs_pending S1 = fs_pending S" "fs_n S1 = ?n" "fs_max S1 = fs_max S" "fs_count S1 = fs_count S + 1" by (simp_all add: S1_def)
    ultimately have q: "holds_rows (snd T) (rows @ [r\<lparr>fr_label := good_label (fs_pending S i)\<rparr>])" "fst T"
      "fs_pending (snd T) = (fs_pending S)(i := None)" "fs_count (snd T) = fs_count S + 1" "fs_n (snd T) = ?n" "fs_max (snd T) = fs_max S"
      by (simp_all add: r_def pos)
    have "fst A" "store_view (snd T) = snd A"
      using True q view_rows [OF q(1)] view_rows [OF assms(1)]
      by (auto simp: A_def spec_append_def c table_snoc r_def intro!: spec_eqI)
    with q show ?thesis by blast
  qed
qed

section \<open>Compaction\<close>

definition stored_row :: "nat \<Rightarrow> feature_row list \<Rightarrow> nat \<Rightarrow> feature_row" where
  "stored_row n rows off = rows ! (off div record_size n)"

lemma stored_row_split [simp]: "stored_row n (a @ r # b) (record_size n * length a) = r"
  by (simp add: stored_row_def record_size_def)

lemma distinct_index: "distinct (map fst idx) \<Longrightarrow> distinct (map fst (index_from sz pos rows idx))"
  by (induction rows arbitrary: pos idx) (auto simp: distinct_update)

lemma length_index: "length (index_from sz pos rows idx) \<le> length idx + length rows"
proof (induction rows arbitrary: pos idx)
  case (Cons r rs)
  have "length (AList.update (fr_id r) pos idx) \<le> Suc (length idx)" by (induction idx) auto
  with Cons [of "pos + sz" "AList.update (fr_id r) pos idx"] show ?case by simp
qed simp

lemma index_entry:
  fixes mx n :: nat and rows :: "feature_row list"
  assumes "(i, off) \<in> set (index_from (record_size n) 0 rows [])" "list_all (row_ok n) rows"
  defines "m \<equiv> file_bytes n mx rows"
  shows "fr_id (stored_row n rows off) = i" "row_ok n (stored_row n rows off)" "table rows i = Some (fr_feats (stored_row n rows off), fr_label (stored_row n rows off))"
    "is_labeled m n off \<longleftrightarrow> fr_label (stored_row n rows off) \<noteq> None" "read_at m off (record_size n) = row_bytes n (stored_row n rows off)"
proof -
  have "map_of (index_from (record_size n) 0 rows []) i = Some off"
    using assms(1) distinct_index [of "[]"] by simp
  then obtain a r b where d: "rows = a @ r # b" "fr_id r = i" "i \<notin> fr_id ` set b" "off = record_size n * length a"
    by (auto simp: index_lookup)
  then show "fr_id (stored_row n rows off) = i" "row_ok n (stored_row n rows off)" using assms(2) by simp_all
  show "table rows i = Some (fr_feats (stored_row n rows off), fr_label (stored_row n rows off))"
    using d table_split [of r b a] by simp
  show "is_labeled m n off \<longleftrightarrow> fr_label (stored_row n rows off) \<noteq> None"
    using d assms(2) by (simp add: m_def is_labeled_row)
  have "list_all (row_ok n) (a @ r # b)" using d assms(2) by simp
  from read_row [OF this, of 0 "record_size n" mx] show "read_at m off (record_size n) = row_bytes n (stored_row n rows off)"
    using d assms(2) by (simp add: m_def row_ok_def)
qed

lemma table_distinct:
  "distinct (map fr_id rows) \<Longrightarrow> table rows i = Some x \<longleftrightarrow> (\<exists>r \<in> set rows. fr_id r = i \<and> x = (fr_feats r, fr_label r))"
  unfolding table_def by (subst map_of_eq_Some_iff) (auto simp: rev_map comp_def simp flip: rev_map)

lemma compact_loop_rows:
  assumes "list_all (row_ok n) (done @ ks)" "record_size n * length ks \<le> length rest"
  shows "compact_loop (record_size n) (map (\<lambda>r. (fr_id r, row_bytes n r)) ks) (record_size n * length done)
      (concat (map (row_bytes n) done) @ rest) idx
    = Some (record_size n * length (done @ ks), concat (map (row_bytes n) (done @ ks)) @ drop (record_size n * length ks) rest,
        index_from (record_size n) (record_size n * length done) ks idx)"
  using assms
proof (induction ks arbitrary: "done" rest idx)
  case (Cons r ks)
  let ?z = "record_size n" and ?d = "concat (map (row_bytes n) done)"
  have z: "?z \<le> length rest" using Cons.prems(2) by simp
  have r: "length (row_bytes n r) = ?z" using Cons.prems(1) by (simp add: row_ok_def)
  moreover have "length ?d = ?z * length done" using Cons.prems(1) by simp
  ultimately have r: "length (row_bytes n r) = ?z" "length ?d = ?z * length done" .
  have w: "write_at (?d @ rest) (?z * length done) (row_bytes n r) = Some (?d @ row_bytes n r @ drop ?z rest)"
    using write_at_middle [of "take ?z rest" "row_bytes n r" ?d "drop ?z rest"] z r by simp
  have "?z * length ks \<le> length (drop ?z rest)" using Cons.prems(2) by simp
  from Cons.IH [of "done @ [r]" "drop ?z rest" "AList.update (fr_id r) (?z * length done) idx", OF _ this] Cons.prems(1)
  show ?case by (simp add: w add.commute)
qed simp

lemma compaction_rows:
  assumes "holds_rows S rows"
  defines "keep \<equiv> filter (\<lambda>e. fr_label (stored_row (fs_n S) rows (snd e)) = None) (fs_index S)"
  defines "kept \<equiv> map (\<lambda>e. stored_row (fs_n S) rows (snd e)) keep"
  shows "\<exists>S'. compaction S = Some (fs_count S - int (length keep), S')
    \<and> (if fs_count S = int (length keep) then S' = S else holds_rows S' kept)
    \<and> fs_pending S' = fs_pending S \<and> fs_count S' = int (length keep) \<and> fs_n S' = fs_n S \<and> fs_max S' = fs_max S"
proof -
  let ?n = "fs_n S" and ?mx = "fs_max S" and ?z = "record_size (fs_n S)"
  let ?m = "file_bytes ?n ?mx rows"
  have m: "fs_mmap S = Some ?m" and ok: "list_all (row_ok ?n) rows" and idx: "fs_index S = index_from ?z 0 rows []"
    and len: "length rows \<le> ?mx" "fs_count S = int (length rows)" and n64: "fits 64 (int ?n)"
    using assms(1) by (simp_all add: holds_rows_def)
  note entry = index_entry [where n = ?n and rows = rows, folded idx, OF _ ok]
  have flt: "filter (\<lambda>(i, off). \<not> is_labeled ?m ?n off) (fs_index S) = keep"
    unfolding keep_def by (intro filter_cong) (auto simp: entry(4) simp del: not_None_eq)
  have data: "map (\<lambda>(i, off). (i, read_at ?m off ?z)) keep = map (\<lambda>r. (fr_id r, row_bytes ?n r)) kept"
    by (auto simp: kept_def keep_def entry(1,5))
  have kept_ok: "list_all (row_ok ?n) kept" by (auto simp: kept_def keep_def list_all_iff entry(2))
  have "length keep \<le> length (fs_index S)" by (simp add: keep_def)
  then have few: "length kept \<le> length rows" using length_index [of ?z 0 rows "[]"] by (simp add: kept_def idx)
  then have "length kept \<le> ?mx" using len by simp
  then have fit: "?z * length kept \<le> ?z * ?mx" by (rule mult_le_mono2)
  have mlen: "length ?m = ?z * ?mx" using ok len by simp
  have loop: "compact_loop ?z (map (\<lambda>r. (fr_id r, row_bytes ?n r)) kept) 0 ?m []
      = Some (?z * length kept, concat (map (row_bytes ?n) kept) @ drop (?z * length kept) ?m, index_from ?z 0 kept [])"
    using compact_loop_rows [of ?n "[]" kept ?m "[]"] kept_ok fit mlen by simp
  let ?k = "concat (map (row_bytes ?n) kept)"
  have k: "length ?k = ?z * length kept" using kept_ok by simp
  define M where "M = drop (?z * length kept) ?m"
  have M: "length M = ?mx * ?z - ?z * length kept" by (simp add: M_def mlen mult.commute)
  have fk: "file_bytes ?n ?mx kept = ?k @ replicate (?mx * ?z - ?z * length kept) 0"
    by (simp add: file_bytes_def diff_mult_distrib mult.commute [of ?z])
  have zeros: "(if 0 < int (?mx * ?z) - int (?z * length kept)
        then write_at (?k @ M) (?z * length kept) (replicate (?mx * ?z - ?z * length kept) 0)
        else Some (?k @ M)) = Some (file_bytes ?n ?mx kept)"
  proof (cases "?mx * ?z \<le> ?z * length kept")
    case True
    then have "\<not> 0 < int (?mx * ?z) - int (?z * length kept)" by linarith
    moreover have "M = []" "?mx * ?z - ?z * length kept = 0" using True M by simp_all
    ultimately show ?thesis by (simp only: fk if_False replicate_0)
  next
    case False
    then have "0 < int (?mx * ?z) - int (?z * length kept)" by linarith
    then show ?thesis
      using write_at_middle [of M "replicate (?mx * ?z - ?z * length kept) 0" ?k "[]"] M
      by (simp only: fk k if_True length_replicate append_Nil2)
  qed
  have klen: "length keep = length kept" by (simp add: kept_def)
  show ?thesis
  proof (cases "fs_count S = int (length keep)")
    case True
    then show ?thesis by (simp add: compaction_def m Let_def flt)
  next
    case False
    define S' where "S' = S\<lparr>fs_mmap := Some (file_bytes ?n ?mx kept), fs_index := index_from ?z 0 kept [], fs_pos := ?z * length kept,
      fs_count := int (length keep)\<rparr>"
    have "compaction S = Some (fs_count S - int (length keep), S')"
      using False unfolding compaction_def m by (simp add: Let_def flt data loop zeros S'_def del: of_nat_mult diff_gt_0_iff_gt flip: M_def)
    moreover have "holds_rows S' kept" using kept_ok \<open>length kept \<le> ?mx\<close> n64 by (simp add: holds_rows_def S'_def klen)
    ultimately show ?thesis using False by (auto simp: S'_def)
  qed
qed

lemma compaction_refines:
  assumes "holds_rows S rows"
  shows "\<exists>S' rows'. compaction S = Some (fst (spec_compact (store_view S)), S') \<and> holds_rows S' rows'
    \<and> store_view S' = snd (spec_compact (store_view S)) \<and> fs_n S' = fs_n S \<and> fs_max S' = fs_max S"
proof -
  let ?row = "\<lambda>e. stored_row (fs_n S) rows (snd e)" and ?A = "store_view S"
  define keep where "keep = filter (\<lambda>e. fr_label (?row e) = None) (fs_index S)"
  define kept where "kept = map ?row keep"
  have ok: "list_all (row_ok (fs_n S)) rows" and idx: "fs_index S = index_from (record_size (fs_n S)) 0 rows []"
    and c: "fs_count S = int (length rows)"
    using assms by (simp_all add: holds_rows_def)
  note entry = index_entry [where n = "fs_n S" and rows = rows, folded idx, OF _ ok]
  note v = view_rows [OF assms]
  have dis: "distinct (map fst (fs_index S))" by (simp add: idx distinct_index)
  have ids: "map fr_id kept = map fst keep" by (auto simp: kept_def keep_def entry(1))
  have dk: "distinct (map fst keep)" using dis by (simp add: keep_def distinct_map_filter)
  have inn: "table rows i = Some (f, None) \<longleftrightarrow> (\<exists>e \<in> set keep. fst e = i \<and> f = fr_feats (?row e))" for i f
  proof
    assume t: "table rows i = Some (f, None)"
    then have "map_of (fs_index S) i \<noteq> None" by (simp add: idx index_None flip: table_None)
    then obtain off where off: "(i, off) \<in> set (fs_index S)" using map_of_SomeD by fastforce
    with t entry(3) [OF off] have "(i, off) \<in> set keep" "f = fr_feats (?row (i, off))" by (simp_all add: keep_def)
    then show "\<exists>e \<in> set keep. fst e = i \<and> f = fr_feats (?row e)" by force
  next
    assume "\<exists>e \<in> set keep. fst e = i \<and> f = fr_feats (?row e)"
    then show "table rows i = Some (f, None)" using entry(3) by (auto simp: keep_def)
  qed
  have U: "unlabelled ?A = fst ` set keep" unfolding unlabelled_def v by (auto simp: inn)
  have card: "card (unlabelled ?A) = length keep"
    using dk by (simp add: U distinct_card flip: set_map)
  have tab: "table kept = table rows |` unlabelled ?A"
  proof
    fix i
    have "table kept i = Some x \<longleftrightarrow> (\<exists>f. x = (f, None) \<and> table rows i = Some (f, None))" for x
    proof -
      have "table kept i = Some x \<longleftrightarrow> (\<exists>r \<in> set kept. fr_id r = i \<and> x = (fr_feats r, fr_label r))"
        by (rule table_distinct) (simp add: ids dk)
      also have "\<dots> \<longleftrightarrow> (\<exists>e \<in> set keep. fst e = i \<and> x = (fr_feats (?row e), None))"
        by (auto simp: kept_def keep_def entry(1)) (metis entry(1) snd_conv)+
      finally show ?thesis by (auto simp: inn)
    qed
    then have "table kept i = (if i \<in> unlabelled ?A then table rows i else None)"
      by (cases "table kept i") (auto simp: unlabelled_def v split: if_splits)
    then show "table kept i = (table rows |` unlabelled ?A) i" by (simp add: restrict_map_def)
  qed
  obtain S' where S': "compaction S = Some (fs_count S - int (length keep), S')"
    "if fs_count S = int (length keep) then S' = S else holds_rows S' kept" "fs_pending S' = fs_pending S"
    "fs_count S' = int (length keep)" "fs_n S' = fs_n S" "fs_max S' = fs_max S"
    using compaction_rows [OF assms, folded keep_def, folded kept_def] by blast
  have all: "table rows |` unlabelled ?A = table rows" if "fs_count S = int (length keep)"
  proof -
    have "length keep \<le> length (fs_index S)" "length (fs_index S) \<le> length rows"
      using length_index [of _ 0 rows "[]"] by (simp_all add: keep_def idx)
    with that c have "length keep = length (fs_index S)" by simp
    then have "keep = fs_index S" unfolding keep_def by (metis filter_True length_filter_less less_irrefl)
    then have un: "i \<in> unlabelled ?A" if "table rows i \<noteq> None" for i
    proof -
      have "map_of (fs_index S) i \<noteq> None" using that by (simp add: idx index_None flip: table_None)
      then have "i \<in> fst ` set (fs_index S)" by (simp add: map_of_eq_None_iff)
      then show ?thesis using U \<open>keep = fs_index S\<close> by simp
    qed
    show ?thesis
    proof
      fix i show "(table rows |` unlabelled ?A) i = table rows i"
        by (cases "table rows i = None") (simp_all add: restrict_map_def un)
    qed
  qed
  have rows: "\<exists>rows'. holds_rows S' rows' \<and> table rows' = table rows |` unlabelled ?A"
    using S'(2) all tab assms by (auto split: if_splits)
  then obtain rows' where h: "holds_rows S' rows'" "table rows' = table rows |` unlabelled ?A" by blast
  then have "store_view S' = snd (spec_compact ?A)"
    using view_rows [OF h(1)] S' by (intro spec_eqI) (simp_all add: spec_compact_def v card)
  with S' h show ?thesis by (auto simp: spec_compact_def card)
qed

section \<open>Runs with crashes\<close>

text \<open>
  The operations of a process, and a crash: the mapped bytes survive it, and a new process
  opens the file.
\<close>

datatype store_op =
    Append_op int int "int list" int
  | Stitch_op int stitched
  | Compact_op
  | Reopen_op

datatype store_answer = Said bool | Removed int | Slice_raised | Opened

fun store_step :: "feature_store \<Rightarrow> store_op \<Rightarrow> feature_store \<times> store_answer" where
  "store_step S (Append_op now i feats ts) = (case append_features now i feats ts S of (ok, S') \<Rightarrow> (S', Said ok))"
| "store_step S (Stitch_op i lab) = (case stitch_label i lab S of (ok, S') \<Rightarrow> (S', Said ok))"
| "store_step S Compact_op = (case compaction S of None \<Rightarrow> (S, Slice_raised) | Some (k, S') \<Rightarrow> (S', Removed k))"
| "store_step S Reopen_op = (store_init (fs_n S) (fs_max S) (fs_mmap S), Opened)"

fun spec_step :: "nat \<Rightarrow> nat \<Rightarrow> store_spec \<Rightarrow> store_op \<Rightarrow> store_spec \<times> store_answer" where
  "spec_step n mx A (Append_op now i feats ts) =
     (case spec_append n mx i feats (if ts = 0 then now else ts) A of (ok, A') \<Rightarrow> (A', Said ok))"
| "spec_step n mx A (Stitch_op i lab) = (case spec_stitch i lab A of (ok, A') \<Rightarrow> (A', Said ok))"
| "spec_step n mx A Compact_op = (case spec_compact A of (k, A') \<Rightarrow> (A', Removed k))"
| "spec_step n mx A Reopen_op = (spec_reopen A, Opened)"

definition spec_init :: store_spec where
  "spec_init = \<lparr>ab_rows = Map.empty, ab_pending = Map.empty, ab_used = 0\<rparr>"

text \<open>The vectors hold 64-bit integers, and the clock does not read zero.\<close>

fun op_ok :: "store_op \<Rightarrow> bool" where
  "op_ok (Append_op now i feats ts) \<longleftrightarrow> list_all (fits 64) feats \<and> now \<noteq> 0"
| "op_ok _ \<longleftrightarrow> True"

lemma step_refines:
  assumes "holds_rows S rows" "op_ok opn" "fs_n S = n" "fs_max S = mx"
  shows "(\<exists>rows'. holds_rows (fst (store_step S opn)) rows') \<and> store_view (fst (store_step S opn)) = fst (spec_step n mx (store_view S) opn)
    \<and> snd (store_step S opn) = snd (spec_step n mx (store_view S) opn)
    \<and> fs_n (fst (store_step S opn)) = n \<and> fs_max (fst (store_step S opn)) = mx"
proof (cases opn)
  case (Append_op now i feats ts)
  then show ?thesis
    using append_refines [OF assms(1), of feats now i ts] assms(2-4) by (simp add: split_beta)
next
  case (Stitch_op i lab)
  then show ?thesis using stitch_refines [OF assms(1), of i lab] assms(3,4) by (simp add: split_beta)
next
  case Compact_op
  then show ?thesis using compaction_refines [OF assms(1)] assms(3,4) by (auto simp: split_beta)
next
  case Reopen_op
  have "store_view (S\<lparr>fs_pending := Map.empty\<rparr>) = spec_reopen (store_view S)"
    using view_rows [OF assms(1)] view_rows [of "S\<lparr>fs_pending := Map.empty\<rparr>" rows] assms(1)
    by (intro spec_eqI) (simp_all add: spec_reopen_def)
  then show ?thesis using reopen_rows [OF assms(1)] assms Reopen_op by auto
qed

lemma label_sizes [simp]:
  "fs_n (snd (write_label_at off lab S)) = fs_n S" "fs_max (snd (write_label_at off lab S)) = fs_max S"
  "fs_n (take_pending i off S) = fs_n S" "fs_max (take_pending i off S) = fs_max S"
proof -
  show w: "fs_n (snd (write_label_at off lab S)) = fs_n S" "fs_max (snd (write_label_at off lab S)) = fs_max S" for lab S
    by (simp_all add: write_label_at_def split: option.split prod.split)
  show "fs_n (take_pending i off S) = fs_n S" "fs_max (take_pending i off S) = fs_max S"
    by (simp_all add: take_pending_def w split: option.split)
qed

lemma store_sizes: "fs_n (fst (store_step S opn)) = fs_n S \<and> fs_max (fst (store_step S opn)) = fs_max S"
proof (cases opn)
  case (Append_op now i feats ts)
  then show ?thesis by (simp add: append_features_def Let_def split: option.split prod.split bool.split)
next
  case (Stitch_op i lab)
  then show ?thesis using label_sizes(1,2) [of _ lab S] by (simp add: stitch_label_def split_beta split: option.split)
next
  case Compact_op
  then show ?thesis by (auto simp: compaction_def Let_def split: option.split prod.split if_splits)
next
  case Reopen_op
  then show ?thesis by (simp add: store_init_def rebuild_index_def split: prod.split)
qed

lemma run_refines:
  assumes "holds_rows S rows" "\<forall>opn \<in> set ops. op_ok opn" "fs_n S = n" "fs_max S = mx"
  shows "(\<exists>rows'. holds_rows (run_final store_step S ops) rows') \<and> store_view (run_final store_step S ops) = run_final (spec_step n mx) (store_view S) ops
    \<and> run_log store_step S ops = run_log (spec_step n mx) (store_view S) ops"
  using assms
proof (induction ops arbitrary: S rows)
  case (Cons opn ops)
  note st = step_refines [OF Cons.prems(1) _ Cons.prems(3,4), of opn]
  then obtain rows' where "holds_rows (fst (store_step S opn)) rows'" using Cons.prems(2) by auto
  from Cons.IH [OF this] st Cons.prems(2) show ?case by auto
qed auto

lemma init_view: "fits 64 (int n) \<Longrightarrow> store_view (store_init n mx None) = spec_init"
  using init_rows [of n mx] view_rows [OF init_rows [of n mx]]
  by (intro spec_eqI) (auto simp: spec_init_def table_def holds_rows_def store_init_def rebuild_index_def split: prod.split)

lemma init_sizes [simp]: "fs_n (store_init n mx f) = n" "fs_max (store_init n mx f) = mx"
  by (simp_all add: store_init_def rebuild_index_def split: prod.split)

text \<open>C17: the feature store is a map from intents to features and label, through crashes.  After any
  run of appends, labels, compactions and crashes on a new file, the decoded file means what
  the specification's map says, and every call answered as the specification does: an append
  for an intent replaces its features and takes the label that waited for it, a label goes to
  its intent's features, a compaction removes exactly the labelled intents and never raises,
  and a crash loses the waiting labels and nothing else.\<close>

theorem store_refines_map:
  assumes "fits 64 (int n)" "\<forall>opn \<in> set ops. op_ok opn"
  shows "store_view (run_final store_step (store_init n mx None) ops) = run_final (spec_step n mx) spec_init ops
    \<and> run_log store_step (store_init n mx None) ops = run_log (spec_step n mx) spec_init ops"
  using run_refines [OF init_rows [OF assms(1), of mx] assms(2), of n mx] init_view [OF assms(1), of mx] by simp

theorem store_refines_map_witness:
  "run_log store_step (store_init 1 2 None) [Stitch_op 7 (1, 5, 3), Append_op 9 7 [42] 0, Reopen_op, Compact_op]
   = run_log (spec_step 1 2) spec_init [Stitch_op 7 (1, 5, 3), Append_op 9 7 [42] 0, Reopen_op, Compact_op]"
proof -
  have "fits 64 (int 1)" "\<forall>opn \<in> set [Stitch_op 7 (1, 5, 3), Append_op 9 7 [42] 0, Reopen_op, Compact_op]. op_ok opn"
    by (simp_all add: fits_def)
  from store_refines_map [OF this, of 2] show ?thesis by simp
qed

text \<open>The training rows are the features of the labelled intents with their own label.\<close>

lemma exported_rows:
  assumes "holds_rows S rows"
  shows "set (export_training_data True S) = {(f, l) | f l. \<exists>i px pnl. table rows i = Some (f, Some (l, px, pnl))}"
    and "labeled_count S = length (export_training_data True S)"
proof -
  let ?row = "\<lambda>off. stored_row (fs_n S) rows off"
  have m: "fs_mmap S = Some (file_bytes (fs_n S) (fs_max S) rows)" and ok: "list_all (row_ok (fs_n S)) rows"
    and idx: "fs_index S = index_from (record_size (fs_n S)) 0 rows []"
    using assms by (simp_all add: holds_rows_def)
  note entry = index_entry [where n = "fs_n S" and rows = rows, folded idx, OF _ ok]
  have split: "\<exists>a b. rows = a @ ?row off # b \<and> off = record_size (fs_n S) * length a" if "(i, off) \<in> set (fs_index S)" for i off
  proof -
    have "map_of (fs_index S) i = Some off" using that distinct_index [of "[]"] by (simp add: idx)
    then obtain a r b where "rows = a @ r # b" "off = record_size (fs_n S) * length a" by (auto simp: idx index_lookup)
    then show ?thesis by force
  qed
  have feats: "array_of (fs_n S) (read_at (file_bytes (fs_n S) (fs_max S) rows) (off + 24) (fs_n S * 8)) = fr_feats (?row off)"
    and lab: "read_at (file_bytes (fs_n S) (fs_max S) rows) (off + 24 + fs_n S * 8) 25 = row_label (fr_label (?row off))"
    if e: "(i, off) \<in> set (fs_index S)" for i off
  proof -
    obtain a b where d: "rows = a @ ?row off # b" "off = record_size (fs_n S) * length a" using split [OF e] by blast
    have "list_all (row_ok (fs_n S)) (a @ ?row off # b)" using ok d(1) by simp
    note r = read_feats [OF this, of "fs_max S"] read_label [OF this, of "fs_max S"]
    show "array_of (fs_n S) (read_at (file_bytes (fs_n S) (fs_max S) rows) (off + 24) (fs_n S * 8)) = fr_feats (?row off)"
      using r(1) by (simp only: flip: d)
    show "read_at (file_bytes (fs_n S) (fs_max S) rows) (off + 24 + fs_n S * 8) 25 = row_label (fr_label (?row off))"
      using r(2) by (simp only: flip: d)
  qed
  have flag: "is_labeled (file_bytes (fs_n S) (fs_max S) rows) (fs_n S) off \<longleftrightarrow> fr_label (?row off) \<noteq> None" if "(i, off) \<in> set (fs_index S)" for i off
    using entry(4) [OF that] .
  have first: "unpack_q 0 (row_label x) = fst (the x)" if "x \<noteq> None" "case x of None \<Rightarrow> True | Some lb \<Rightarrow> label_fits lb" for x
    using that row_label_read(2) [of x] by (cases x) (auto simp: label_cells_def)
  have lbl: "unpack_q 0 (read_at (file_bytes (fs_n S) (fs_max S) rows) (off + 24 + fs_n S * 8) 25) = fst (the (fr_label (?row off)))"
    if "(i, off) \<in> set (fs_index S)" "fr_label (?row off) \<noteq> None" for i off
    unfolding lab [OF that(1)] using entry(2) [OF that(1)] that(2) by (intro first) (simp_all add: row_ok_def)
  let ?E = "filter (\<lambda>(i, off). fr_label (?row off) \<noteq> None) (fs_index S)"
  have sel: "filter (\<lambda>(i, off). \<not> (True \<and> \<not> is_labeled (file_bytes (fs_n S) (fs_max S) rows) (fs_n S) off)) (fs_index S) = ?E"
    by (intro filter_cong) (auto simp: flag simp del: not_None_eq)
  have ex: "export_training_data True S = map (\<lambda>(i, off). (fr_feats (?row off), fst (the (fr_label (?row off))))) ?E"
    unfolding export_training_data_def m option.case sel
    by (intro map_cong refl) (auto simp: feats lbl simp del: not_None_eq)
  have mem: "(f, l) \<in> set (export_training_data True S) \<longleftrightarrow> (\<exists>i px pnl. table rows i = Some (f, Some (l, px, pnl)))" for f l
  proof
    assume "(f, l) \<in> set (export_training_data True S)"
    then obtain i off where e: "(i, off) \<in> set (fs_index S)" "fr_label (?row off) \<noteq> None" "f = fr_feats (?row off)" "l = fst (the (fr_label (?row off)))"
      by (auto simp: ex simp del: not_None_eq)
    then show "\<exists>i px pnl. table rows i = Some (f, Some (l, px, pnl))"
      using entry(3) [OF e(1)] by - (rule exI [of _ i], auto)
  next
    assume "\<exists>i px pnl. table rows i = Some (f, Some (l, px, pnl))"
    then obtain i px pnl where t: "table rows i = Some (f, Some (l, px, pnl))" by blast
    then have "map_of (fs_index S) i \<noteq> None" by (simp add: idx index_None flip: table_None)
    then obtain off where e: "(i, off) \<in> set (fs_index S)" using map_of_SomeD by fastforce
    with t entry(3) [OF e] have "(i, off) \<in> set ?E" "f = fr_feats (?row off)" "l = fst (the (fr_label (?row off)))" by auto
    then show "(f, l) \<in> set (export_training_data True S)" unfolding ex by force
  qed
  show "set (export_training_data True S) = {(f, l) | f l. \<exists>i px pnl. table rows i = Some (f, Some (l, px, pnl))}"
  proof (rule set_eqI)
    fix x :: "int list \<times> int"
    obtain f l where x: "x = (f, l)" by (cases x)
    show "x \<in> set (export_training_data True S) \<longleftrightarrow> x \<in> {(f, l) | f l. \<exists>i px pnl. table rows i = Some (f, Some (l, px, pnl))}"
      unfolding x mem by blast
  qed
  have byte: "file_bytes (fs_n S) (fs_max S) rows ! (off + 24 + fs_n S * 8 + 24) \<noteq> 0 \<longleftrightarrow> fr_label (?row off) \<noteq> None"
    if e: "(i, off) \<in> set (fs_index S)" for i off
  proof -
    have l25: "length (read_at (file_bytes (fs_n S) (fs_max S) rows) (off + 24 + fs_n S * 8) 25) = 25" by (simp add: lab [OF e])
    have "file_bytes (fs_n S) (fs_max S) rows ! (off + 24 + fs_n S * 8 + 24)
        = read_at (file_bytes (fs_n S) (fs_max S) rows) (off + 24 + fs_n S * 8) 25 ! 24"
      using l25 by (simp add: read_at_def)
    also have "\<dots> = row_label (fr_label (?row off)) ! 24" by (simp add: lab [OF e])
    also have "\<dots> \<noteq> 0 \<longleftrightarrow> fr_label (?row off) \<noteq> None"
      by (cases "fr_label (?row off)") (auto simp: row_label_def label_bytes_def nth_append)
    finally show ?thesis .
  qed
  have "filter (\<lambda>(i, off). file_bytes (fs_n S) (fs_max S) rows ! (off + 24 + fs_n S * 8 + 24) \<noteq> 0) (fs_index S) = ?E"
    by (rule filter_cong [OF refl], simp only: split_paired_all prod.case, erule byte)
  then show "labeled_count S = length (export_training_data True S)" by (simp add: labeled_count_def m ex)
qed

text \<open>What the learner reads is what the specification holds.  After any run on a new file the
  exported rows are exactly the pairs of features and label of the labelled intents, and as many
  as the store counts.\<close>

theorem export_is_joined:
  fixes mx :: nat
  assumes "fits 64 (int n)" "\<forall>opn \<in> set ops. op_ok opn"
  defines "S \<equiv> run_final store_step (store_init n mx None) ops"
    and "A \<equiv> run_final (spec_step n mx) spec_init ops"
  shows "set (export_training_data True S) = {(f, l) | f l. \<exists>i px pnl. ab_rows A i = Some (f, Some (l, px, pnl))}
    \<and> length (export_training_data True S) = labeled_count S"
proof -
  note r = run_refines [OF init_rows [OF assms(1), of mx] assms(2), of n mx]
  then obtain rows where h: "holds_rows S rows" unfolding S_def by auto
  have "ab_rows A = table rows" using r init_view [OF assms(1), of mx] view_rows [OF h] by (simp add: S_def A_def)
  with exported_rows [OF h] show ?thesis by simp
qed

theorem export_is_joined_witness:
  "set (export_training_data True (run_final store_step (store_init 1 2 None) [Append_op 9 7 [42] 0, Stitch_op 7 (1, 5, 3)]))
   = {([42], 1)}"
proof -
  let ?ops = "[Append_op 9 7 [42] 0, Stitch_op 7 (1, 5, 3)]"
  have ok: "fits 64 (int 1)" "\<forall>opn \<in> set ?ops. op_ok opn" by (simp_all add: fits_def)
  have "ab_rows (run_final (spec_step 1 2) spec_init ?ops) = [7 \<mapsto> ([42], Some (1, 5, 3))]"
    by (simp add: spec_init_def spec_append_def spec_stitch_def good_label_def label_fits_def fits_def)
  with export_is_joined [OF ok, of 2] show ?thesis by (auto split: if_splits)
qed

text \<open>C18: a crash loses no record.  Opening the file again restores the index, the position and the
  count of the process that died; only labels still waiting for their features are gone.\<close>

theorem recovery_restores:
  fixes mx :: nat
  assumes "fits 64 (int n)" "\<forall>opn \<in> set ops. op_ok opn"
  defines "S \<equiv> run_final store_step (store_init n mx None) ops"
  shows "store_init n mx (fs_mmap S) = S\<lparr>fs_pending := Map.empty\<rparr>"
proof -
  obtain rows where h: "holds_rows S rows"
    using run_refines [OF init_rows [OF assms(1), of mx] assms(2), of n mx] unfolding S_def by auto
  have "fs_n S = n \<and> fs_max S = mx"
    unfolding S_def by (rule run_final_inv) (auto simp: store_sizes)
  with reopen_rows [OF h] show ?thesis by simp
qed

theorem recovery_restores_witness:
  "store_init 1 2 (fs_mmap (run_final store_step (store_init 1 2 None) [Append_op 9 7 [42] 0]))
    = (run_final store_step (store_init 1 2 None) [Append_op 9 7 [42] 0])\<lparr>fs_pending := Map.empty\<rparr>"
proof -
  have "fits 64 (int 1)" "\<forall>opn \<in> set [Append_op 9 7 [42] 0]. op_ok opn" by (simp_all add: fits_def)
  from recovery_restores [OF this, of 2] show ?thesis by simp
qed

end
