(* ===== verification/Legacy_Book.thy ===== *)
theory Legacy_Book
  imports Digits "HOL-Library.Word" "HOL-Library.AList"
begin

text \<open>
  The order book of the shared-memory path: the fixed-point reader
  (\<open>src/src/infrastructure/hydration.py\<close>), the book that splices a REST snapshot with buffered
  deltas (\<open>src/src/domain/markets.py\<close>) and its image in shared memory with the epoch of the
  seqlock (\<open>src/src/infrastructure/shm_layout.py\<close>).  A side is the dictionary from price to
  quantity with the list of its prices in order; the shared cells are 64-bit words.  The status
  is assigned to the Python object only, the shared structure has no such field.
\<close>

section \<open>Reading fixed-point text\<close>

definition price_scale :: int where "price_scale = 100000000"

definition hydrate_scaled :: "string \<Rightarrow> int option" where
  "hydrate_scaled s =
     (if CHR ''.'' \<notin> set s then map_option (\<lambda>v. v * price_scale) (py_int_text s)
      else
        let whole = takeWhile (\<lambda>c. c \<noteq> CHR ''.'') s;
            frac0 = tl (dropWhile (\<lambda>c. c \<noteq> CHR ''.'') s);
            frac = take 8 (frac0 @ replicate (8 - length frac0) CHR ''0'')
        in (case (py_int_text whole, py_int_text frac) of
              (Some w, Some f) \<Rightarrow>
                let v = \<bar>w\<bar> * price_scale + f in Some (if take 1 s = ''-'' then - v else v)
            | _ \<Rightarrow> None))"

section \<open>One side\<close>

type_synonym dict_side = "(int \<times> int) list \<times> int list"

text \<open>
  The loop \<open>while lo < hi\<close> of the bids, on negated prices; \<open>bisect_left\<close> of the standard library,
  which the asks use, is the same loop on the prices.
\<close>

function search_left :: "(int \<Rightarrow> int) \<Rightarrow> int list \<Rightarrow> int \<Rightarrow> nat \<Rightarrow> nat \<Rightarrow> nat" where
  "search_left key ps x lo hi =
     (if lo < hi then let mid = (lo + hi) div 2
        in if key (ps ! mid) < x then search_left key ps x (mid + 1) hi else search_left key ps x lo mid
      else lo)"
  by pat_completeness auto
termination by (relation "measure (\<lambda>(key, ps, x, lo, hi). hi - lo)") auto

declare search_left.simps [simp del]

definition drop_price :: "(int \<Rightarrow> int) \<Rightarrow> int \<Rightarrow> int list \<Rightarrow> int list" where
  "drop_price key p ps =
     (let i = search_left key ps (key p) 0 (length ps)
      in if i < length ps \<and> ps ! i = p then take i ps @ drop (i + 1) ps else ps)"

definition add_price :: "(int \<Rightarrow> int) \<Rightarrow> int \<Rightarrow> int list \<Rightarrow> int list" where
  "add_price key p ps = (let i = search_left key ps (key p) 0 (length ps) in take i ps @ p # drop i ps)"

definition put_level :: "(int \<Rightarrow> int) \<Rightarrow> int \<Rightarrow> int \<Rightarrow> dict_side \<Rightarrow> dict_side" where
  "put_level key p q s = (case s of (d, ps) \<Rightarrow>
     if q \<le> 0 then (if p \<in> fst ` set d then (AList.delete p d, drop_price key p ps) else (d, ps))
     else (AList.update p q d, if p \<notin> fst ` set d then add_price key p ps else ps))"

text \<open>The rows of a delta; a cell that is no number raises and leaves the rows before it applied.\<close>

fun update_side :: "(int \<Rightarrow> int) \<Rightarrow> (string \<times> string) list \<Rightarrow> dict_side \<Rightarrow> dict_side \<times> bool" where
  "update_side key [] s = (s, True)"
| "update_side key ((p, q) # rows) s = (case (hydrate_scaled p, hydrate_scaled q) of
       (Some price, Some qty) \<Rightarrow> update_side key rows (put_level key price qty s)
     | _ \<Rightarrow> (s, False))"

definition update_bids :: "(string \<times> string) list \<Rightarrow> dict_side \<Rightarrow> dict_side \<times> bool" where
  [simp]: "update_bids = update_side uminus"

definition update_asks :: "(string \<times> string) list \<Rightarrow> dict_side \<Rightarrow> dict_side \<times> bool" where
  [simp]: "update_asks = update_side (\<lambda>p. p)"

section \<open>The book\<close>

record ws_event =
  we_u :: "int option"
  we_U :: "int option"
  we_b :: "(string \<times> string) list"
  we_a :: "(string \<times> string) list"

datatype lb_state = Lb_unsynced | Lb_synced | Lb_degraded

type_synonym shm_level = "64 word \<times> 64 word"

record shm_book =
  sb_epoch :: "64 word"
  sb_bids :: "shm_level list"
  sb_asks :: "shm_level list"

record state_book =
  lb_bids :: dict_side
  lb_asks :: dict_side
  lb_last :: int
  lb_sync :: bool
  lb_hydrating :: bool
  lb_buffer :: "ws_event list"
  lb_status :: lb_state
  lb_shm :: shm_book
  lb_shm_status :: "nat option"

definition playback_len :: nat where "playback_len = 2000"

definition state_book_init :: "shm_book \<Rightarrow> state_book" where
  "state_book_init shm = \<lparr>lb_bids = ([], []), lb_asks = ([], []), lb_last = 0, lb_sync = False, lb_hydrating = False,
     lb_buffer = [], lb_status = Lb_unsynced, lb_shm = shm, lb_shm_status = None\<rparr>"

definition is_crossed :: "state_book \<Rightarrow> bool" where
  "is_crossed B = (case (snd (lb_bids B), snd (lb_asks B)) of (b # _, a # _) \<Rightarrow> a \<le> b | _ \<Rightarrow> False)"

definition begin_write :: "state_book \<Rightarrow> state_book" where
  "begin_write B = B\<lparr>lb_shm := (lb_shm B)\<lparr>sb_epoch := sb_epoch (lb_shm B) + 1\<rparr>\<rparr>"

definition end_write :: "state_book \<Rightarrow> state_book" where
  "end_write B = B\<lparr>lb_shm := (lb_shm B)\<lparr>sb_epoch := sb_epoch (lb_shm B) + 1\<rparr>\<rparr>"

text \<open>The first fifty prices with their quantities overwrite as many cells, the cells behind stay.\<close>

definition shm_row :: "dict_side \<Rightarrow> int \<Rightarrow> shm_level" where
  "shm_row s p = (word_of_int p, word_of_int (the (map_of (fst s) p)))"

definition put_rows :: "dict_side \<Rightarrow> shm_level list \<Rightarrow> shm_level list" where
  "put_rows s cells = (let n = min 50 (length (snd s)) in map (shm_row s) (take n (snd s)) @ drop n cells)"

definition write_shm :: "state_book \<Rightarrow> state_book" where
  "write_shm B = B\<lparr>
     lb_shm := (lb_shm B)\<lparr>sb_bids := put_rows (lb_bids B) (sb_bids (lb_shm B)), sb_asks := put_rows (lb_asks B) (sb_asks (lb_shm B))\<rparr>,
     lb_shm_status := Some (if is_crossed B then 2
        else case lb_status B of Lb_synced \<Rightarrow> 1 | Lb_degraded \<Rightarrow> 2 | Lb_unsynced \<Rightarrow> 0)\<rparr>"

definition sync_to_shm :: "state_book \<Rightarrow> state_book" where
  "sync_to_shm B = end_write (write_shm (begin_write B))"

definition trigger_desync :: "state_book \<Rightarrow> state_book" where
  "trigger_desync B = B\<lparr>lb_status := Lb_unsynced, lb_sync := False, lb_hydrating := True, lb_buffer := []\<rparr>"

definition ev_get :: "int option \<Rightarrow> int \<Rightarrow> int" where
  "ev_get x d = (case x of None \<Rightarrow> d | Some v \<Rightarrow> v)"

definition apply_book_delta :: "ws_event \<Rightarrow> state_book \<Rightarrow> state_book \<times> bool" where
  "apply_book_delta ev B = (case update_bids (we_b ev) (lb_bids B) of
       (bids, False) \<Rightarrow> (B\<lparr>lb_bids := bids\<rparr>, False)
     | (bids, True) \<Rightarrow> (case update_asks (we_a ev) (lb_asks B) of
           (asks, False) \<Rightarrow> (B\<lparr>lb_bids := bids, lb_asks := asks\<rparr>, False)
         | (asks, True) \<Rightarrow> (B\<lparr>lb_bids := bids, lb_asks := asks, lb_last := ev_get (we_u ev) (ev_get (we_U ev) (lb_last B))\<rparr>, True)))"

text \<open>\<open>None\<close> is the exception of an unreadable row; the bracket of the write is closed all the same.\<close>

definition on_ws_delta :: "ws_event \<Rightarrow> state_book \<Rightarrow> state_book \<times> bool option" where
  "on_ws_delta ev B =
     (if lb_hydrating B then
        (if 10000 \<le> length (lb_buffer B) then (B\<lparr>lb_buffer := [], lb_hydrating := False, lb_sync := False\<rparr>, Some False)
         else (B\<lparr>lb_buffer := lastn playback_len (lb_buffer B @ [ev])\<rparr>, Some True))
      else if ev_get (we_u ev) 0 < lb_last B then (B, Some True)
      else if lb_last B + 5000 < ev_get (we_U ev) 0 then (trigger_desync B, Some False)
      else case apply_book_delta ev (begin_write B) of
             (B', ok) \<Rightarrow> (end_write B', if ok then Some True else None))"

datatype stitch_end = Stitched | Stitch_gap | Stitch_raised

text \<open>The loop over the playback buffer, which each round shortens by its head.\<close>

fun stitch_loop :: "ws_event list \<Rightarrow> state_book \<Rightarrow> state_book \<times> stitch_end" where
  "stitch_loop [] B = (B\<lparr>lb_buffer := []\<rparr>, Stitched)"
| "stitch_loop (ev # rest) B =
     (let B1 = B\<lparr>lb_buffer := rest\<rparr>
      in if ev_get (we_u ev) 0 \<le> lb_last B1 then stitch_loop rest B1
         else if lb_last B1 + 1 < ev_get (we_U ev) 0 then (trigger_desync B1, Stitch_gap)
         else (case apply_book_delta ev B1 of
                 (B2, False) \<Rightarrow> (B2, Stitch_raised)
               | (B2, True) \<Rightarrow> stitch_loop rest B2))"

definition load_side :: "(int \<times> int) list \<Rightarrow> (int \<times> int) list" where
  "load_side rows = foldl (\<lambda>d (p, q). if 0 < q then AList.update p q d else d) [] rows"

definition install_snapshot :: "int \<Rightarrow> (int \<times> int) list \<Rightarrow> (int \<times> int) list \<Rightarrow> state_book \<Rightarrow> state_book" where
  "install_snapshot anchor bids asks B =
     (let db = load_side bids; da = load_side asks
      in B\<lparr>lb_bids := (db, rev (sort (map fst db))), lb_asks := (da, sort (map fst da)), lb_last := anchor, lb_sync := True,
           lb_hydrating := False, lb_status := Lb_synced\<rparr>)"

definition apply_rest_snapshot :: "int \<Rightarrow> (int \<times> int) list \<Rightarrow> (int \<times> int) list \<Rightarrow> state_book \<Rightarrow> state_book \<times> stitch_end" where
  "apply_rest_snapshot anchor bids asks B =
     (case stitch_loop (lb_buffer B) (install_snapshot anchor bids asks (begin_write B)) of
        (B', Stitched) \<Rightarrow> (end_write (write_shm B'), Stitched)
      | (B', e) \<Rightarrow> (end_write B', e))"

text \<open>A trade takes its volume from the level it hit: a buy from the asks.\<close>

definition py_capitalize :: "string \<Rightarrow> string" where
  "py_capitalize s = (case s of [] \<Rightarrow> [] | c # cs \<Rightarrow> upper_char c # py_lower cs)"

definition ghost_level :: "(int \<Rightarrow> int) \<Rightarrow> int \<Rightarrow> int \<Rightarrow> dict_side \<Rightarrow> dict_side" where
  "ghost_level key p vol s = (case s of (d, ps) \<Rightarrow> (case map_of d p of
       None \<Rightarrow> (d, ps)
     | Some q \<Rightarrow> if q - vol \<le> 0 then (AList.delete p d, drop_price key p ps) else (AList.update p (q - vol) d, ps)))"

definition apply_trade_ghost :: "string \<Rightarrow> string \<Rightarrow> string \<Rightarrow> state_book \<Rightarrow> state_book \<times> bool" where
  "apply_trade_ghost side price vol B0 =
     (let B = begin_write B0
      in case (hydrate_scaled price, hydrate_scaled vol) of
           (Some p, Some v) \<Rightarrow>
             (end_write (if py_capitalize side = ''Buy'' then B\<lparr>lb_asks := ghost_level (\<lambda>p. p) p v (lb_asks B)\<rparr>
                         else B\<lparr>lb_bids := ghost_level uminus p v (lb_bids B)\<rparr>), True)
         | _ \<Rightarrow> (end_write B, False))"

definition level_pairs :: "dict_side \<Rightarrow> nat \<Rightarrow> (int \<times> int) list" where
  "level_pairs s n = map (\<lambda>p. (p, the (map_of (fst s) p))) (take n (snd s))"

definition get_vwap_levels :: "bool \<Rightarrow> nat \<Rightarrow> state_book \<Rightarrow> (int \<times> int) list" where
  "get_vwap_levels buy depth B = (if \<not> lb_sync B then [] else level_pairs (if buy then lb_asks B else lb_bids B) depth)"

definition book_snapshot :: "nat \<Rightarrow> state_book \<Rightarrow> 64 word \<times> lb_state \<times> (int \<times> int) list \<times> (int \<times> int) list \<times> bool" where
  "book_snapshot depth B = (sb_epoch (lb_shm B), lb_status B, level_pairs (lb_bids B) depth, level_pairs (lb_asks B) depth,
     odd (sb_epoch (lb_shm B)))"

section \<open>The index of a side\<close>

definition side_index_ok :: "(int \<Rightarrow> int) \<Rightarrow> dict_side \<Rightarrow> bool" where
  "side_index_ok key s \<longleftrightarrow> distinct (map fst (fst s)) \<and> sorted_wrt (<) (map key (snd s)) \<and> set (snd s) = fst ` set (fst s)
     \<and> (\<forall>l \<in> set (fst s). 0 < snd l)"

lemma search_left_bounds:
  assumes "sorted_wrt (<) (map key ps)" "lo \<le> hi" "hi \<le> length ps" "\<forall>j < lo. key (ps ! j) < x" "\<forall>j < length ps. hi \<le> j \<longrightarrow> x \<le> key (ps ! j)"
  defines "r \<equiv> search_left key ps x lo hi"
  shows "r \<le> length ps \<and> (\<forall>j < r. key (ps ! j) < x) \<and> (\<forall>j < length ps. r \<le> j \<longrightarrow> x \<le> key (ps ! j))"
  using assms(1-5) unfolding r_def
proof (induction key ps x lo hi rule: search_left.induct)
  case (1 key ps x lo hi)
  have mono: "key (ps ! i) \<le> key (ps ! j)" if "i \<le> j" "j < length ps" for i j
    using 1(3) that by (cases "i = j") (auto simp: sorted_wrt_iff_nth_less less_imp_le)
  let ?mid = "(lo + hi) div 2"
  consider "\<not> lo < hi" | "lo < hi" "key (ps ! ?mid) < x" | "lo < hi" "\<not> key (ps ! ?mid) < x" by blast
  then show ?case
  proof cases
    case 1
    then show ?thesis using 1 \<open>lo \<le> hi\<close> \<open>hi \<le> length ps\<close> "1.prems" by (subst (1 2 3) search_left.simps) auto
  next
    case 2
    then have mid: "?mid < length ps" "?mid + 1 \<le> hi" using "1.prems"(3) by linarith+
    have "\<forall>j < ?mid + 1. key (ps ! j) < x"
    proof (intro allI impI)
      fix j assume "j < ?mid + 1"
      then have "key (ps ! j) \<le> key (ps ! ?mid)" using mono [of j ?mid] mid(1) by simp
      with 2(2) show "key (ps ! j) < x" by simp
    qed
    with "1.IH"(1) [OF 2(1) refl 2(2) "1.prems"(1) mid(2) "1.prems"(3) _ "1.prems"(5)]
    show ?thesis using 2 by (subst (1 2 3) search_left.simps) (simp add: Let_def)
  next
    case 3
    then have mid: "lo \<le> ?mid" "?mid \<le> length ps" using "1.prems"(3) by linarith+
    have "\<forall>j < length ps. ?mid \<le> j \<longrightarrow> x \<le> key (ps ! j)" using mono [of ?mid] 3(2) by (meson not_less order_trans)
    with "1.IH"(2) [OF 3(1) refl 3(2) "1.prems"(1) mid "1.prems"(4)]
    show ?thesis using 3 by (subst (1 2 3) search_left.simps) (simp add: Let_def)
  qed
qed

lemma search_left_split:
  fixes x :: int
  assumes "sorted_wrt (<) (map key ps)"
  defines "i \<equiv> search_left key ps x 0 (length ps)"
  shows "i \<le> length ps" "p \<in> set (take i ps) \<Longrightarrow> key p < x" "p \<in> set (drop i ps) \<Longrightarrow> x \<le> key p"
proof -
  note b = search_left_bounds [OF assms(1), of 0 "length ps" x, folded i_def]
  show "i \<le> length ps" using b by simp
  show "key p < x" if p: "p \<in> set (take i ps)"
  proof -
    obtain j where "j < length (take i ps)" "take i ps ! j = p" using p by (auto simp: in_set_conv_nth)
    with b show ?thesis by auto
  qed
  show "x \<le> key p" if p: "p \<in> set (drop i ps)"
  proof -
    obtain j where "j < length ps - i" "drop i ps ! j = p" using p by (auto simp: in_set_conv_nth)
    with b have "i + j < length ps" "ps ! (i + j) = p" by auto
    with b show ?thesis by force
  qed
qed

lemma add_price_sorted:
  assumes "sorted_wrt (<) (map key ps)" "p \<notin> set ps" "inj key"
  shows "sorted_wrt (<) (map key (add_price key p ps))" "set (add_price key p ps) = insert p (set ps)"
proof -
  let ?i = "search_left key ps (key p) 0 (length ps)"
  note s = search_left_split [OF assms(1), where x = "key p"]
  have ps: "ps = take ?i ps @ drop ?i ps" by simp
  have "key p < key r" if "r \<in> set (drop ?i ps)" for r
    using s(3) [OF that] assms(2,3) that by (metis in_set_dropD inj_eq order_le_less)
  moreover have "sorted_wrt (<) (map key (take ?i ps @ drop ?i ps))" using assms(1) by simp
  ultimately show "sorted_wrt (<) (map key (add_price key p ps))"
    using s(2) unfolding map_append by (auto simp: add_price_def Let_def sorted_wrt_append)
  have "set ps = set (take ?i ps) \<union> set (drop ?i ps)" by (subst ps) (simp only: set_append)
  then show "set (add_price key p ps) = insert p (set ps)" by (simp add: add_price_def Let_def)
qed

lemma drop_price_sorted:
  assumes "sorted_wrt (<) (map key ps)" "p \<in> set ps"
  shows "sorted_wrt (<) (map key (drop_price key p ps))" "set (drop_price key p ps) = set ps - {p}"
proof -
  let ?i = "search_left key ps (key p) 0 (length ps)"
  note s = search_left_split [OF assms(1), where x = "key p"]
  have "set ps = set (take ?i ps) \<union> set (drop ?i ps)" by (metis append_take_drop_id set_append)
  then have "p \<in> set (drop ?i ps)" using s(2) assms(2) by auto
  then obtain a b where ab: "drop ?i ps = a @ p # b" by (meson split_list)
  have "a = []"
  proof (rule ccontr)
    assume "a \<noteq> []"
    then obtain y a' where a: "a = y # a'" by (cases a) auto
    then have "key p \<le> key y" using search_left_split(3) [OF assms(1), where p = y and x = "key p"] ab by simp
    moreover have "sorted_wrt (<) (map key (take ?i ps @ drop ?i ps))" using assms(1) by simp
    then have "key y < key p" unfolding map_append ab by (simp add: a sorted_wrt_append)
    ultimately show False by simp
  qed
  then have d: "drop ?i ps = p # b" using ab by simp
  have i: "?i < length ps" using d by (metis drop_all list.distinct(1) not_less)
  then have "ps ! ?i # drop (?i + 1) ps = p # b" using d Cons_nth_drop_Suc [OF i] by simp
  then have j: "ps ! ?i = p" "drop (?i + 1) ps = b" by simp_all
  have ps: "ps = take ?i ps @ p # b" by (metis append_take_drop_id d)
  have dp: "drop_price key p ps = take ?i ps @ b" using i j by (simp add: drop_price_def Let_def)
  have st: "sorted_wrt (<) (map key (take ?i ps @ p # b))" using assms(1) ps by metis
  then show "sorted_wrt (<) (map key (drop_price key p ps))" by (simp add: dp sorted_wrt_append)
  have "p \<notin> set (take ?i ps)" "p \<notin> set b" using st by (auto simp: sorted_wrt_append)
  then have "set (take ?i ps @ b) = set (take ?i ps @ p # b) - {p}" by auto
  then show "set (drop_price key p ps) = set ps - {p}" by (simp only: dp flip: ps)
qed

lemma put_level_ok:
  assumes "side_index_ok key s" "inj key"
  shows "side_index_ok key (put_level key p q s)"
    and "map_of (fst (put_level key p q s)) = (if q \<le> 0 then (map_of (fst s))(p := None) else (map_of (fst s))(p \<mapsto> q))"
proof -
  obtain d ps where s: "s = (d, ps)" by (cases s)
  note ok = assms(1) [unfolded side_index_ok_def s fst_conv snd_conv]
  show "side_index_ok key (put_level key p q s)"
  proof (cases "q \<le> 0")
    case True
    have del: "l \<in> set (AList.delete p d) \<Longrightarrow> l \<in> set d" for l by (auto simp: AList.delete_eq)
    show ?thesis
    proof (cases "p \<in> fst ` set d")
      case True
      then have "p \<in> set ps" using ok by simp
      note dp = drop_price_sorted [OF _ this, of key]
      have "set (drop_price key p ps) = fst ` set (AList.delete p d)" using dp(2) ok by (force simp: AList.delete_eq)
      then show ?thesis
        using True \<open>q \<le> 0\<close> dp(1) ok del by (auto simp: side_index_ok_def s put_level_def distinct_delete)
    next
      case False
      then show ?thesis using assms(1) \<open>q \<le> 0\<close> by (simp add: put_level_def s)
    qed
  next
    case False
    have ins: "l \<in> set (AList.update p q d) \<Longrightarrow> l = (p, q) \<or> l \<in> set d" for l
      by (induction d) (auto split: if_splits)
    show ?thesis
    proof (cases "p \<in> fst ` set d")
      case True
      have "\<forall>l \<in> set (AList.update p q d). 0 < snd l" using False ok ins by fastforce
      moreover have "put_level key p q s = (AList.update p q d, ps)" using False True by (simp add: s put_level_def)
      moreover have "fst ` set (AList.update p q d) = fst ` set d" using True by (auto simp: dom_update)
      ultimately show ?thesis using ok by (simp add: side_index_ok_def distinct_update)
    next
      case nin: False
      then have "p \<notin> set ps" using ok by simp
      note ap = add_price_sorted [OF _ this assms(2)]
      have "\<forall>l \<in> set (AList.update p q d). 0 < snd l" using False ok ins by fastforce
      moreover have "put_level key p q s = (AList.update p q d, add_price key p ps)" using False nin by (simp add: s put_level_def)
      ultimately show ?thesis using ap ok by (simp add: side_index_ok_def distinct_update dom_update)
    qed
  qed
  show "map_of (fst (put_level key p q s)) = (if q \<le> 0 then (map_of (fst s))(p := None) else (map_of (fst s))(p \<mapsto> q))"
  proof (cases "p \<in> fst ` set d")
    case True
    then show ?thesis by (simp add: put_level_def s update_conv' delete_conv')
  next
    case False
    then have "map_of d p = None" by (simp add: map_of_eq_None_iff)
    then have "(map_of d)(p := None) = map_of d" by auto
    with False show ?thesis by (simp add: put_level_def s update_conv')
  qed
qed

section \<open>The book's invariant\<close>

definition state_book_ok :: "state_book \<Rightarrow> bool" where
  "state_book_ok B \<longleftrightarrow> side_index_ok uminus (lb_bids B) \<and> side_index_ok (\<lambda>p. p) (lb_asks B) \<and> length (lb_buffer B) \<le> playback_len
     \<and> length (sb_bids (lb_shm B)) = 50 \<and> length (sb_asks (lb_shm B)) = 50"

lemma inj_keys [simp]: "inj (uminus :: int \<Rightarrow> int)" "inj (\<lambda>p :: int. p)"
  by (auto simp: inj_def)

lemma update_side_ok: "side_index_ok key s \<Longrightarrow> inj key \<Longrightarrow> side_index_ok key (fst (update_side key rows s))"
  by (induction key rows s rule: update_side.induct) (auto simp: put_level_ok split: option.split)

lemma begin_end_simps [simp, frame_simps]:
  "lb_bids (begin_write B) = lb_bids B" "lb_asks (begin_write B) = lb_asks B" "lb_buffer (begin_write B) = lb_buffer B"
  "lb_bids (end_write B) = lb_bids B" "lb_asks (end_write B) = lb_asks B" "lb_buffer (end_write B) = lb_buffer B"
  "lb_last (begin_write B) = lb_last B" "lb_last (end_write B) = lb_last B"
  "lb_status (begin_write B) = lb_status B" "lb_status (end_write B) = lb_status B"
  "lb_hydrating (begin_write B) = lb_hydrating B" "lb_hydrating (end_write B) = lb_hydrating B"
  "lb_sync (begin_write B) = lb_sync B" "lb_sync (end_write B) = lb_sync B"
  "sb_bids (lb_shm (begin_write B)) = sb_bids (lb_shm B)" "sb_asks (lb_shm (begin_write B)) = sb_asks (lb_shm B)"
  "sb_bids (lb_shm (end_write B)) = sb_bids (lb_shm B)" "sb_asks (lb_shm (end_write B)) = sb_asks (lb_shm B)"
  "sb_epoch (lb_shm (begin_write B)) = sb_epoch (lb_shm B) + 1" "sb_epoch (lb_shm (end_write B)) = sb_epoch (lb_shm B) + 1"
  by (simp_all add: begin_write_def end_write_def)

lemma bracket_ok [simp]: "state_book_ok (begin_write B) = state_book_ok B" "state_book_ok (end_write B) = state_book_ok B"
  by (simp_all add: state_book_ok_def)

lemma desync_simps [simp]:
  "lb_shm (trigger_desync B) = lb_shm B" "lb_bids (trigger_desync B) = lb_bids B" "lb_asks (trigger_desync B) = lb_asks B"
  "lb_buffer (trigger_desync B) = []"
  by (simp_all add: trigger_desync_def)

lemma apply_delta_frame [simp, frame_simps]:
  "lb_shm (fst (apply_book_delta ev B)) = lb_shm B" "lb_buffer (fst (apply_book_delta ev B)) = lb_buffer B"
  "lb_status (fst (apply_book_delta ev B)) = lb_status B" "lb_sync (fst (apply_book_delta ev B)) = lb_sync B"
  "lb_hydrating (fst (apply_book_delta ev B)) = lb_hydrating B"
  by (simp_all add: apply_book_delta_def split: prod.split bool.split)

lemma apply_delta_ok: "state_book_ok B \<Longrightarrow> state_book_ok (fst (apply_book_delta ev B))"
  using update_side_ok [of uminus "lb_bids B" "we_b ev"] update_side_ok [of "\<lambda>p. p" "lb_asks B" "we_a ev"]
  by (auto simp: apply_book_delta_def state_book_ok_def split: prod.split bool.split)

lemma stitch_ok:
  "state_book_ok B \<Longrightarrow> length evs \<le> playback_len \<Longrightarrow>
     state_book_ok (fst (stitch_loop evs B)) \<and> lb_shm (fst (stitch_loop evs B)) = lb_shm B"
proof (induction evs arbitrary: B)
  case Nil
  then show ?case by (simp add: state_book_ok_def)
next
  case (Cons ev rest)
  let ?B = "B\<lparr>lb_buffer := rest\<rparr>"
  have ok: "state_book_ok ?B" "length rest \<le> playback_len" using Cons.prems by (simp_all add: state_book_ok_def)
  obtain B2 w where d: "apply_book_delta ev ?B = (B2, w)" by (cases "apply_book_delta ev ?B")
  have "state_book_ok B2" "lb_shm B2 = lb_shm B"
    using apply_delta_ok [OF ok(1), of ev] apply_delta_frame(1) [of ev ?B] d by simp_all
  moreover have "state_book_ok (trigger_desync ?B)" using ok by (simp add: state_book_ok_def)
  ultimately show ?case
    using Cons.IH [OF ok] Cons.IH [of B2] ok(2) d by (simp add: Let_def split: bool.split)
qed

lemma load_side_ok: "distinct (map fst (load_side rows)) \<and> (\<forall>l \<in> set (load_side rows). 0 < snd l)"
proof -
  have pos: "\<forall>l \<in> set (AList.update p q d). 0 < snd l" if "0 < q" "\<forall>l \<in> set d. 0 < snd l" for p q and d :: "(int \<times> int) list"
    using that by (induction d) auto
  have "distinct (map fst d) \<Longrightarrow> \<forall>l \<in> set d. 0 < snd l \<Longrightarrow>
      distinct (map fst (foldl (\<lambda>d (p, q). if 0 < q then AList.update p q d else d) d rows))
      \<and> (\<forall>l \<in> set (foldl (\<lambda>d (p, q). if 0 < q then AList.update p q d else d) d rows). 0 < snd l)" for d
  proof (induction rows arbitrary: d)
    case (Cons row rows)
    obtain p q where row: "row = (p, q)" by (cases row)
    let ?d = "if 0 < q then AList.update p q d else d"
    have "distinct (map fst ?d)" "\<forall>l \<in> set ?d. 0 < snd l" using Cons.prems pos [of q d p] by (simp_all add: distinct_update)
    from Cons.IH [OF this] show ?case by (simp add: row)
  qed simp
  from this [of "[]"] show ?thesis by (simp add: load_side_def)
qed

lemma install_ok: "state_book_ok B \<Longrightarrow> state_book_ok (install_snapshot anchor bids asks B)"
proof -
  assume B: "state_book_ok B"
  have neg: "sorted_wrt (<) (map uminus (rev (sort xs)))" if "distinct xs" for xs :: "int list"
  proof -
    have "sorted_wrt (<) (sort xs)" using that by (simp add: strict_sorted_iff)
    then show ?thesis by (simp add: sorted_wrt_map sorted_wrt_rev)
  qed
  have pos: "sorted_wrt (<) (sort xs)" if "distinct xs" for xs :: "int list"
    using that by (simp add: strict_sorted_iff)
  show ?thesis
    using B load_side_ok [of bids] load_side_ok [of asks] neg pos
    by (simp add: install_snapshot_def Let_def state_book_ok_def side_index_ok_def)
qed

lemma write_shm_ok: "state_book_ok B \<Longrightarrow> state_book_ok (write_shm B)"
  by (simp add: state_book_ok_def write_shm_def put_rows_def Let_def)

lemma ghost_ok:
  assumes "side_index_ok key s" "inj key"
  shows "side_index_ok key (ghost_level key p v s)"
proof -
  obtain d ps where s: "s = (d, ps)" by (cases s)
  have d: "distinct (map fst d)" using assms(1) by (simp add: side_index_ok_def s)
  show ?thesis
  proof (cases "map_of d p")
    case None
    then show ?thesis using assms(1) by (simp add: ghost_level_def s)
  next
    case (Some q)
    then have "p \<in> fst ` set d" by (force dest: map_of_SomeD)
    then have "ghost_level key p v s = put_level key p (q - v) s" using Some by (simp add: ghost_level_def put_level_def s)
    then show ?thesis using put_level_ok(1) [OF assms] by simp
  qed
qed

datatype legacy_op =
    Ws_delta ws_event
  | Rest_snapshot int "(int \<times> int) list" "(int \<times> int) list"
  | Trade_ghost string string string
  | Shm_sync

fun legacy_step :: "legacy_op \<Rightarrow> state_book \<Rightarrow> state_book" where
  "legacy_step (Ws_delta ev) B = fst (on_ws_delta ev B)"
| "legacy_step (Rest_snapshot anchor bids asks) B = fst (apply_rest_snapshot anchor bids asks B)"
| "legacy_step (Trade_ghost side p v) B = fst (apply_trade_ghost side p v B)"
| "legacy_step Shm_sync B = sync_to_shm B"

lemma on_ws_delta_ok: "state_book_ok B \<Longrightarrow> state_book_ok (fst (on_ws_delta ev B))"
proof -
  assume B: "state_book_ok B"
  have "state_book_ok (fst (apply_book_delta ev (begin_write B)))" using B by (simp add: apply_delta_ok)
  moreover have "state_book_ok (trigger_desync B)" "state_book_ok (B\<lparr>lb_buffer := [], lb_hydrating := False, lb_sync := False\<rparr>)"
    "state_book_ok (B\<lparr>lb_buffer := lastn playback_len (lb_buffer B @ [ev])\<rparr>)"
    using B by (simp_all add: state_book_ok_def)
  ultimately show ?thesis using B by (auto simp: on_ws_delta_def split: prod.split)
qed

lemma legacy_step_ok: "state_book_ok B \<Longrightarrow> state_book_ok (legacy_step opn B)"
proof (cases opn)
  case (Rest_snapshot anchor bids asks)
  assume B: "state_book_ok B"
  have i: "state_book_ok (install_snapshot anchor bids asks (begin_write B))" using B by (simp add: install_ok)
  have "length (lb_buffer B) \<le> playback_len" using B by (simp add: state_book_ok_def)
  from stitch_ok [OF i this] show ?thesis
    by (auto simp: Rest_snapshot apply_rest_snapshot_def write_shm_ok split: prod.split stitch_end.split)
next
  case (Trade_ghost side p v)
  assume B: "state_book_ok B"
  then show ?thesis
    by (auto simp: Trade_ghost apply_trade_ghost_def Let_def state_book_ok_def ghost_ok split: option.split)
qed (simp_all add: on_ws_delta_ok sync_to_shm_def write_shm_ok)

lemma legacy_run_ok:
  assumes "length (sb_bids shm) = 50" "length (sb_asks shm) = 50"
  shows "state_book_ok (fold legacy_step ops (state_book_init shm))"
proof (rule fold_inv)
  show "state_book_ok (state_book_init shm)"
    using assms by (simp add: state_book_ok_def state_book_init_def side_index_ok_def)
qed (rule legacy_step_ok)

lemma level_pairs_ok:
  assumes "side_index_ok key s"
  shows "sorted_wrt (<) (map (key \<circ> fst) (level_pairs s n))" "\<forall>l \<in> set (level_pairs s n). 0 < snd l \<and> map_of (fst s) (fst l) = Some (snd l)"
proof -
  have "sorted_wrt (<) (take n (map key (snd s)))" using assms by (simp add: side_index_ok_def sorted_wrt_take)
  then show "sorted_wrt (<) (map (key \<circ> fst) (level_pairs s n))" by (simp add: level_pairs_def comp_def take_map)
  show "\<forall>l \<in> set (level_pairs s n). 0 < snd l \<and> map_of (fst s) (fst l) = Some (snd l)"
  proof
    fix l assume "l \<in> set (level_pairs s n)"
    then obtain p where p: "p \<in> set (take n (snd s))" "l = (p, the (map_of (fst s) p))" by (auto simp: level_pairs_def)
    then have "p \<in> fst ` set (fst s)" using assms in_set_takeD by (force simp: side_index_ok_def)
    then obtain q where "map_of (fst s) p = Some q" using map_of_eq_None_iff [of "fst s" p] by (cases "map_of (fst s) p") auto
    moreover from this have "0 < q" using assms map_of_SomeD by (force simp: side_index_ok_def)
    ultimately show "0 < snd l \<and> map_of (fst s) (fst l) = Some (snd l)" using p by simp
  qed
qed

text \<open>The price lists of the shared-memory book are an index of its dictionaries, whatever comes.
  After any run of deltas, snapshots, trades and synchronisations, also those cut short by an
  unreadable row or a gap, the levels a reader gets are ordered from the best price on, bids
  falling and asks rising, each with the positive quantity the dictionary has for its price.\<close>

theorem legacy_levels_ordered:
  fixes ops :: "legacy_op list"
  assumes "length (sb_bids shm) = 50" "length (sb_asks shm) = 50"
  defines "B \<equiv> fold legacy_step ops (state_book_init shm)"
  shows "sorted_wrt (>) (map fst (level_pairs (lb_bids B) n)) \<and> sorted_wrt (<) (map fst (level_pairs (lb_asks B) n))
    \<and> (\<forall>l \<in> set (level_pairs (lb_bids B) n). 0 < snd l \<and> map_of (fst (lb_bids B)) (fst l) = Some (snd l))
    \<and> (\<forall>l \<in> set (level_pairs (lb_asks B) n). 0 < snd l \<and> map_of (fst (lb_asks B)) (fst l) = Some (snd l))"
proof -
  have ok: "side_index_ok uminus (lb_bids B)" "side_index_ok (\<lambda>p. p) (lb_asks B)"
    using legacy_run_ok [OF assms(1,2)] by (simp_all add: state_book_ok_def B_def)
  have "sorted_wrt (<) (map uminus (map fst (level_pairs (lb_bids B) n)))"
    using level_pairs_ok(1) [OF ok(1)] by (simp add: comp_def)
  then have "sorted_wrt (>) (map fst (level_pairs (lb_bids B) n))" by (simp only: sorted_wrt_map neg_less_iff_less)
  with level_pairs_ok(1) [OF ok(2)] level_pairs_ok(2) [OF ok(1)] level_pairs_ok(2) [OF ok(2)] show ?thesis
    by (simp add: comp_def)
qed

definition demo_shm :: shm_book where
  "demo_shm = \<lparr>sb_epoch = 0, sb_bids = replicate 50 (0, 0), sb_asks = replicate 50 (0, 0)\<rparr>"

theorem legacy_levels_ordered_witness:
  "sorted_wrt (>) (map fst (level_pairs (lb_bids (fold legacy_step [Rest_snapshot 5 [(100, 2), (300, 1), (200, 4)] []] (state_book_init demo_shm))) 2))"
  using legacy_levels_ordered [of demo_shm "[Rest_snapshot 5 [(100, 2), (300, 1), (200, 4)] []]" 2] by (simp add: demo_shm_def)

text \<open>The overflow guard of the buffer can never act.  It waits for ten thousand deltas, and the
  buffer keeps the newest two thousand: while a book is filled every delta is taken, and the
  oldest is dropped without a word.\<close>

theorem overflow_never_noticed:
  assumes "length (sb_bids shm) = 50" "length (sb_asks shm) = 50" "lb_hydrating (fold legacy_step ops (state_book_init shm))"
  shows "on_ws_delta ev (fold legacy_step ops (state_book_init shm)) =
    ((fold legacy_step ops (state_book_init shm))\<lparr>lb_buffer := lastn 2000 (lb_buffer (fold legacy_step ops (state_book_init shm)) @ [ev])\<rparr>, Some True)"
  using legacy_run_ok [OF assms(1,2), of ops] assms(3) by (simp add: on_ws_delta_def state_book_ok_def playback_len_def)

theorem overflow_never_noticed_witness:
  "snd (on_ws_delta \<lparr>we_u = Some 6003, we_U = Some 6003, we_b = [], we_a = []\<rparr>
     (fold legacy_step [Ws_delta \<lparr>we_u = Some 6001, we_U = Some 6001, we_b = [], we_a = []\<rparr>] (state_book_init demo_shm))) = Some True"
proof -
  have "lb_hydrating (fold legacy_step [Ws_delta \<lparr>we_u = Some 6001, we_U = Some 6001, we_b = [], we_a = []\<rparr>] (state_book_init demo_shm))"
    by (simp add: on_ws_delta_def state_book_init_def ev_get_def trigger_desync_def)
  from overflow_never_noticed [OF _ _ this] show ?thesis by (simp add: demo_shm_def)
qed

section \<open>Stitching\<close>

text \<open>
  What the splice promises: of the buffered deltas those inside the snapshot are skipped, the
  others are applied in order while each begins at most one after the book, and the first that
  begins later is a gap.
\<close>

definition readable :: "ws_event \<Rightarrow> bool" where
  "readable ev \<longleftrightarrow> list_all (\<lambda>(p, q). hydrate_scaled p \<noteq> None \<and> hydrate_scaled q \<noteq> None) (we_b ev @ we_a ev)"

fun splice_plan :: "int \<Rightarrow> ws_event list \<Rightarrow> ws_event list \<times> bool" where
  "splice_plan anchor [] = ([], True)"
| "splice_plan anchor (ev # evs) =
     (if ev_get (we_u ev) 0 \<le> anchor then splice_plan anchor evs
      else if anchor + 1 < ev_get (we_U ev) 0 then ([], False)
      else case splice_plan (ev_get (we_u ev) (ev_get (we_U ev) anchor)) evs of (es, whole) \<Rightarrow> (ev # es, whole))"

definition level_map :: "(string \<times> string) \<Rightarrow> (int \<rightharpoonup> int) \<Rightarrow> (int \<rightharpoonup> int)" where
  "level_map row m = (case row of (p, q) \<Rightarrow> (case (hydrate_scaled p, hydrate_scaled q) of
       (Some price, Some qty) \<Rightarrow> if qty \<le> 0 then m(price := None) else m(price \<mapsto> qty)
     | _ \<Rightarrow> m))"

definition rows_map :: "(string \<times> string) list \<Rightarrow> (int \<rightharpoonup> int) \<Rightarrow> (int \<rightharpoonup> int)" where
  "rows_map rows m = fold level_map rows m"

definition snapshot_map :: "(int \<times> int) list \<Rightarrow> (int \<rightharpoonup> int)" where
  "snapshot_map rows = map_of (rev (filter (\<lambda>r. 0 < snd r) rows))"

lemma update_side_map:
  assumes "list_all (\<lambda>(p, q). hydrate_scaled p \<noteq> None \<and> hydrate_scaled q \<noteq> None) rows" "side_index_ok key s" "inj key"
  shows "snd (update_side key rows s)" "map_of (fst (fst (update_side key rows s))) = rows_map rows (map_of (fst s))"
proof -
  have "snd (update_side key rows s) \<and> map_of (fst (fst (update_side key rows s))) = rows_map rows (map_of (fst s))"
    using assms
  proof (induction key rows s rule: update_side.induct)
    case (2 key p q rows s)
    then obtain price qty where v: "hydrate_scaled p = Some price" "hydrate_scaled q = Some qty" by auto
    have "side_index_ok key (put_level key price qty s)" using 2(3,4) by (simp add: put_level_ok)
    with 2 v put_level_ok(2) [OF 2(3,4), of price qty] show ?case by (simp add: rows_map_def level_map_def)
  qed (simp add: rows_map_def)
  then show "snd (update_side key rows s)" "map_of (fst (fst (update_side key rows s))) = rows_map rows (map_of (fst s))" by simp_all
qed

lemma apply_delta_map:
  assumes "state_book_ok B" "readable ev"
  shows "snd (apply_book_delta ev B)" "map_of (fst (lb_bids (fst (apply_book_delta ev B)))) = rows_map (we_b ev) (map_of (fst (lb_bids B)))"
    "map_of (fst (lb_asks (fst (apply_book_delta ev B)))) = rows_map (we_a ev) (map_of (fst (lb_asks B)))"
    "lb_last (fst (apply_book_delta ev B)) = ev_get (we_u ev) (ev_get (we_U ev) (lb_last B))"
proof -
  have b: "snd (update_bids (we_b ev) (lb_bids B))" "map_of (fst (fst (update_bids (we_b ev) (lb_bids B)))) = rows_map (we_b ev) (map_of (fst (lb_bids B)))"
    using update_side_map [of "we_b ev" uminus "lb_bids B"] assms by (auto simp: readable_def state_book_ok_def)
  have a: "snd (update_asks (we_a ev) (lb_asks B))" "map_of (fst (fst (update_asks (we_a ev) (lb_asks B)))) = rows_map (we_a ev) (map_of (fst (lb_asks B)))"
    using update_side_map [of "we_a ev" "\<lambda>p. p" "lb_asks B"] assms by (auto simp: readable_def state_book_ok_def)
  show "snd (apply_book_delta ev B)" "map_of (fst (lb_bids (fst (apply_book_delta ev B)))) = rows_map (we_b ev) (map_of (fst (lb_bids B)))"
    "map_of (fst (lb_asks (fst (apply_book_delta ev B)))) = rows_map (we_a ev) (map_of (fst (lb_asks B)))"
    "lb_last (fst (apply_book_delta ev B)) = ev_get (we_u ev) (ev_get (we_U ev) (lb_last B))"
    using a b by (auto simp: apply_book_delta_def split: prod.splits bool.splits)
qed

lemma stitch_spec:
  assumes "state_book_ok B" "length evs \<le> playback_len" "\<forall>ev \<in> set evs. readable ev"
  defines "r \<equiv> stitch_loop evs B" and "es \<equiv> fst (splice_plan (lb_last B) evs)"
  shows "map_of (fst (lb_bids (fst r))) = fold (rows_map \<circ> we_b) es (map_of (fst (lb_bids B)))
    \<and> map_of (fst (lb_asks (fst r))) = fold (rows_map \<circ> we_a) es (map_of (fst (lb_asks B)))
    \<and> lb_buffer (fst r) = []
    \<and> (if snd (splice_plan (lb_last B) evs) then snd r = Stitched \<and> lb_status (fst r) = lb_status B \<and> lb_sync (fst r) = lb_sync B \<and> lb_hydrating (fst r) = lb_hydrating B
       else snd r = Stitch_gap \<and> lb_status (fst r) = Lb_unsynced \<and> \<not> lb_sync (fst r) \<and> lb_hydrating (fst r))"
  using assms(1-3) unfolding r_def es_def
proof (induction evs arbitrary: B)
  case Nil
  then show ?case by simp
next
  case (Cons ev evs)
  let ?B = "B\<lparr>lb_buffer := evs\<rparr>"
  have ok: "state_book_ok ?B" and len: "length evs \<le> playback_len" and rd: "\<forall>ev \<in> set evs. readable ev" "readable ev"
    using Cons.prems by (simp_all add: state_book_ok_def)
  let ?B2 = "fst (apply_book_delta ev ?B)"
  note ad = apply_delta_map [OF ok rd(2)]
  note fr = apply_delta_frame [of ev ?B]
  consider "ev_get (we_u ev) 0 \<le> lb_last B" | "lb_last B < ev_get (we_u ev) 0" "lb_last B + 1 < ev_get (we_U ev) 0"
    | "lb_last B < ev_get (we_u ev) 0" "ev_get (we_U ev) 0 \<le> lb_last B + 1" by linarith
  then show ?case
  proof cases
    case 1
    then show ?thesis using Cons.IH [OF ok len rd(1)] by simp
  next
    case 2
    then show ?thesis by (simp add: trigger_desync_def)
  next
    case 3
    have st: "stitch_loop (ev # evs) B = stitch_loop evs ?B2"
      using 3 ad(1) by (cases "apply_book_delta ev ?B") (simp add: Let_def)
    show ?thesis
      using Cons.IH [OF apply_delta_ok [OF ok, of ev] len rd(1)] 3 ad fr
      unfolding st by (simp add: split_beta)
  qed
qed

lemma load_side_map: "map_of (load_side rows) = snapshot_map rows"
proof (induction rows rule: rev_induct)
  case (snoc r rows)
  obtain p q where r: "r = (p, q)" by (cases r)
  have "load_side (rows @ [r]) = (if 0 < q then AList.update p q (load_side rows) else load_side rows)"
    by (simp add: load_side_def r)
  with snoc show ?case by (simp add: r snapshot_map_def update_conv')
qed (simp add: load_side_def snapshot_map_def)

lemma install_simps [simp]:
  "fst (lb_bids (install_snapshot anchor bids asks B)) = load_side bids"
  "fst (lb_asks (install_snapshot anchor bids asks B)) = load_side asks"
  "lb_last (install_snapshot anchor bids asks B) = anchor" "lb_status (install_snapshot anchor bids asks B) = Lb_synced"
  "lb_sync (install_snapshot anchor bids asks B)" "\<not> lb_hydrating (install_snapshot anchor bids asks B)"
  "lb_shm (install_snapshot anchor bids asks B) = lb_shm B"
  by (simp_all add: install_snapshot_def Let_def)

text \<open>C19: stitching is replay.  For readable deltas in the buffer the book after a snapshot is the
  snapshot with the deltas of the splice applied in order.  Without a gap it is live and the
  shared status says so unless the book is crossed; at a gap it asks for another snapshot, and the
  shared levels are the ones from before.\<close>

theorem stitching_replays:
  fixes anchor :: int and bids asks :: "(int \<times> int) list"
  assumes "state_book_ok B" "\<forall>ev \<in> set (lb_buffer B). readable ev"
  defines "es \<equiv> fst (splice_plan anchor (lb_buffer B))" and "B' \<equiv> fst (apply_rest_snapshot anchor bids asks B)"
  shows "map_of (fst (lb_bids B')) = fold (rows_map \<circ> we_b) es (snapshot_map bids)
    \<and> map_of (fst (lb_asks B')) = fold (rows_map \<circ> we_a) es (snapshot_map asks)
    \<and> (if snd (splice_plan anchor (lb_buffer B))
       then lb_status B' = Lb_synced \<and> \<not> lb_hydrating B' \<and> lb_shm_status B' = Some (if is_crossed B' then 2 else 1)
       else lb_status B' = Lb_unsynced \<and> lb_hydrating B' \<and> sb_bids (lb_shm B') = sb_bids (lb_shm B) \<and> sb_asks (lb_shm B') = sb_asks (lb_shm B))"
proof -
  let ?I = "install_snapshot anchor bids asks (begin_write B)"
  have ok: "state_book_ok ?I" using assms(1) by (simp add: install_ok)
  have len: "length (lb_buffer B) \<le> playback_len" using assms(1) by (simp add: state_book_ok_def)
  note sp = stitch_spec [OF ok len assms(2)]
  have shm: "lb_shm (fst (stitch_loop (lb_buffer B) ?I)) = lb_shm (begin_write B)" using stitch_ok [OF ok len] by simp
  obtain R e where R: "stitch_loop (lb_buffer B) ?I = (R, e)" by (cases "stitch_loop (lb_buffer B) ?I")
  have frame: "lb_bids (write_shm R) = lb_bids R" "lb_asks (write_shm R) = lb_asks R" "lb_status (write_shm R) = lb_status R"
    "lb_hydrating (write_shm R) = lb_hydrating R" by (simp_all add: write_shm_def)
  have cross: "is_crossed (end_write (write_shm R)) = is_crossed R" by (simp add: is_crossed_def frame)
  have st: "lb_shm_status (end_write (write_shm R)) = Some (if is_crossed R then 2 else 1)" if "lb_status R = Lb_synced"
    using that by (simp add: end_write_def write_shm_def)
  show ?thesis
  proof (cases "snd (splice_plan anchor (lb_buffer B))")
    case True
    then have "B' = end_write (write_shm R)" using sp R by (simp add: B'_def apply_rest_snapshot_def)
    then show ?thesis using sp R True st cross by (simp add: es_def frame load_side_map)
  next
    case False
    then have "B' = end_write R" using sp R by (simp add: B'_def apply_rest_snapshot_def)
    then show ?thesis using sp R False shm by (simp add: es_def load_side_map)
  qed
qed

theorem stitching_replays_witness:
  "lb_status (fst (apply_rest_snapshot 5 [(100, 1)] [] ((state_book_init demo_shm)\<lparr>lb_buffer :=
     [\<lparr>we_u = Some 5, we_U = Some 4, we_b = [], we_a = []\<rparr>, \<lparr>we_u = Some 9, we_U = Some 7, we_b = [(''1.5'', ''2'')], we_a = []\<rparr>]\<rparr>)))
   = Lb_unsynced"
proof -
  let ?B = "(state_book_init demo_shm)\<lparr>lb_buffer :=
     [\<lparr>we_u = Some 5, we_U = Some 4, we_b = [], we_a = []\<rparr>, \<lparr>we_u = Some 9, we_U = Some 7, we_b = [(''1.5'', ''2'')], we_a = []\<rparr>]\<rparr>"
  have "state_book_ok ?B"
    by (simp add: state_book_ok_def state_book_init_def side_index_ok_def demo_shm_def playback_len_def)
  moreover have "hydrate_scaled ''1.5'' \<noteq> None" "hydrate_scaled ''2'' \<noteq> None"
    by (simp_all add: hydrate_scaled_def py_int_text_def strip_def is_space_def split_sign_def is_digit_def Let_def list_all_iff)
  then have "\<forall>ev \<in> set (lb_buffer ?B). readable ev" by (simp add: readable_def)
  ultimately show ?thesis using stitching_replays [of ?B 5 "[(100, 1)]" "[]"] by (simp add: ev_get_def)
qed

section \<open>What a live delta does and does not do\<close>

lemma live_delta:
  assumes "state_book_ok B" "readable ev" "\<not> lb_hydrating B" "lb_last B \<le> ev_get (we_u ev) 0" "ev_get (we_U ev) 0 \<le> lb_last B + 5000"
  shows "snd (on_ws_delta ev B) = Some True" "lb_status (fst (on_ws_delta ev B)) = lb_status B"
    "lb_last (fst (on_ws_delta ev B)) = ev_get (we_u ev) (ev_get (we_U ev) (lb_last B))"
    "map_of (fst (lb_bids (fst (on_ws_delta ev B)))) = rows_map (we_b ev) (map_of (fst (lb_bids B)))"
proof -
  have ok: "state_book_ok (begin_write B)" using assms(1) by simp
  note ad = apply_delta_map [OF ok assms(2)] and fr = apply_delta_frame [of ev "begin_write B"]
  obtain B' w where d: "apply_book_delta ev (begin_write B) = (B', w)" by (cases "apply_book_delta ev (begin_write B)")
  show "snd (on_ws_delta ev B) = Some True" "lb_status (fst (on_ws_delta ev B)) = lb_status B"
    "lb_last (fst (on_ws_delta ev B)) = ev_get (we_u ev) (ev_get (we_U ev) (lb_last B))"
    "map_of (fst (lb_bids (fst (on_ws_delta ev B)))) = rows_map (we_b ev) (map_of (fst (lb_bids B)))"
    using ad fr assms(3-5) by (simp_all add: on_ws_delta_def d)
qed

text \<open>A live book misses gaps of up to five thousand updates.  A readable delta that begins after
  the next update is applied as if nothing were missing, the book stays live, and its number is
  the delta's.\<close>

theorem small_gap_unnoticed:
  assumes "state_book_ok B" "readable ev" "\<not> lb_hydrating B" "we_U ev = Some first" "we_u ev = Some final" "lb_status B = Lb_synced"
    "lb_last B + 1 < first" "first \<le> lb_last B + 5000" "first \<le> final"
  shows "snd (on_ws_delta ev B) = Some True \<and> lb_status (fst (on_ws_delta ev B)) = Lb_synced \<and> lb_last (fst (on_ws_delta ev B)) = final"
  using live_delta [OF assms(1-3)] assms(4-9) by (simp add: ev_get_def)

theorem small_gap_unnoticed_witness:
  "snd (on_ws_delta \<lparr>we_u = Some 40, we_U = Some 30, we_b = [], we_a = []\<rparr> ((state_book_init demo_shm)\<lparr>lb_status := Lb_synced\<rparr>)) = Some True"
proof -
  let ?B = "(state_book_init demo_shm)\<lparr>lb_status := Lb_synced\<rparr>" and ?ev = "\<lparr>we_u = Some 40, we_U = Some 30, we_b = [], we_a = []\<rparr>"
  have "state_book_ok ?B" by (simp add: state_book_ok_def state_book_init_def side_index_ok_def demo_shm_def playback_len_def)
  moreover have "readable ?ev" by (simp add: readable_def)
  ultimately show ?thesis using small_gap_unnoticed [of ?B ?ev 30 40] by (simp add: state_book_init_def)
qed

text \<open>A live delta is not published.  Whatever the delta, the levels in shared memory are the same
  after it, although the epoch has moved by two as if they had been written.\<close>

theorem live_delta_unpublished:
  "sb_bids (lb_shm (fst (on_ws_delta ev B))) = sb_bids (lb_shm B) \<and> sb_asks (lb_shm (fst (on_ws_delta ev B))) = sb_asks (lb_shm B)"
  using apply_delta_frame(1) [of ev "begin_write B"]
  by (cases "apply_book_delta ev (begin_write B)") (simp add: on_ws_delta_def)

text \<open>Levels that left the book stay in shared memory behind the ones that are written.\<close>

lemma stale_levels_stay:
  assumes "length (sb_bids (lb_shm B)) = 50" "length (snd (lb_bids B)) \<le> i" "i < 50"
  shows "sb_bids (lb_shm (sync_to_shm B)) ! i = sb_bids (lb_shm B) ! i"
  using assms by (simp add: sync_to_shm_def write_shm_def put_rows_def Let_def nth_append)

text \<open>Every write is bracketed: the epoch is even after each operation, so that readers go on.\<close>

lemma epoch_even_kept: "even (sb_epoch (lb_shm B)) \<Longrightarrow> even (sb_epoch (lb_shm (legacy_step opn B)))"
proof (cases opn)
  case (Ws_delta ev)
  assume "even (sb_epoch (lb_shm B))"
  then show ?thesis
    using apply_delta_frame(1) [of ev "begin_write B"]
    by (cases "apply_book_delta ev (begin_write B)") (simp add: Ws_delta on_ws_delta_def)
next
  case (Rest_snapshot anchor bids asks)
  have shm: "sb_epoch (lb_shm (fst (stitch_loop evs B))) = sb_epoch (lb_shm B)" for evs B
  proof (induction evs arbitrary: B)
    case (Cons ev evs)
    obtain B2 w where d: "apply_book_delta ev (B\<lparr>lb_buffer := evs\<rparr>) = (B2, w)" by (cases "apply_book_delta ev (B\<lparr>lb_buffer := evs\<rparr>)")
    have "lb_shm B2 = lb_shm B" using apply_delta_frame(1) [of ev "B\<lparr>lb_buffer := evs\<rparr>"] d by simp
    with Cons d show ?case by (simp add: Let_def split: bool.split)
  qed simp
  assume e: "even (sb_epoch (lb_shm B))"
  obtain R r where R: "stitch_loop (lb_buffer B) (install_snapshot anchor bids asks (begin_write B)) = (R, r)"
    by (cases "stitch_loop (lb_buffer B) (install_snapshot anchor bids asks (begin_write B))")
  have "sb_epoch (lb_shm R) = sb_epoch (lb_shm B) + 1"
    using shm [of "lb_buffer B" "install_snapshot anchor bids asks (begin_write B)"] R by simp
  with e show ?thesis by (cases r) (simp_all add: Rest_snapshot apply_rest_snapshot_def R write_shm_def)
next
  case (Trade_ghost side p v)
  assume "even (sb_epoch (lb_shm B))"
  then show ?thesis by (simp add: Trade_ghost apply_trade_ghost_def Let_def split: option.split)
next
  case Shm_sync
  assume "even (sb_epoch (lb_shm B))"
  then show ?thesis by (simp add: Shm_sync sync_to_shm_def write_shm_def)
qed

section \<open>Fixed-point text\<close>

lemma strip_digits: "k \<noteq> 0 \<Longrightarrow> strip (digits_n k n) = digits_n k n"
proof -
  assume "k \<noteq> 0"
  then have "digits_n k n \<noteq> []" by (rule digits_n_nonempty)
  then show ?thesis
    using digits_n_digits [of "hd (digits_n k n)" k n] digits_n_digits [of "last (digits_n k n)" k n]
    by (intro strip_id) (auto dest: digit_no_space)
qed

lemma py_int_digits: "k \<noteq> 0 \<Longrightarrow> py_int_text (digits_n k n) = Some (int (n mod 10 ^ k))"
  using split_sign_digits [of k n "[]"] digits_n_nonempty [of k n]
  by (auto simp: py_int_text_def strip_digits digits_value_n list_all_iff dest: digits_n_digits)

lemma py_int_minus_digits: "k \<noteq> 0 \<Longrightarrow> py_int_text (CHR ''-'' # digits_n k n) = Some (- int (n mod 10 ^ k))"
proof -
  assume k: "k \<noteq> 0"
  then have ne: "digits_n k n \<noteq> []" by (rule digits_n_nonempty)
  have "strip (CHR ''-'' # digits_n k n) = CHR ''-'' # digits_n k n"
    using digits_n_digits [of "last (digits_n k n)" k n] ne
    by (intro strip_id) (auto simp: is_space_def dest: digit_no_space)
  then show ?thesis
    using ne by (auto simp: py_int_text_def split_sign_def digits_value_n list_all_iff dest: digits_n_digits)
qed

text \<open>Both order-book engines read the same prices.  The exchange's text of a scaled integer with
  eight digits after the point is read as that integer, its sign included, also when only the
  digits after the point are not zero.\<close>

theorem hydrate_fixed_roundtrip:
  assumes "k \<noteq> 0" "nat \<bar>n\<bar> div 10 ^ 8 < 10 ^ k"
  shows "hydrate_scaled (fixed8 k n) = Some n"
proof -
  let ?a = "nat \<bar>n\<bar>"
  let ?w = "digits_n k (?a div 10 ^ 8)" and ?f = "digits_n 8 ?a"
  have nodot: "c \<noteq> CHR ''.''" if "c \<in> set (digits_n j m)" for c j m
    using digits_n_digits [OF that] by (auto simp: is_digit_def)
  have nominus: "c \<noteq> CHR ''-''" if "c \<in> set (digits_n j m)" for c j m
    using digits_n_digits [OF that] by (auto simp: is_digit_def)
  let ?pre = "(if n < 0 then ''-'' else []) @ ?w"
  have txt8: "fixed8 k n = ?pre @ CHR ''.'' # ?f" by (simp add: fixed8_def del: digits_n.simps)
  have pre: "\<forall>c \<in> set ?pre. c \<noteq> CHR ''.''" using nodot by auto
  have whole: "takeWhile (\<lambda>c. c \<noteq> CHR ''.'') (fixed8 k n) = ?pre" and rest: "dropWhile (\<lambda>c. c \<noteq> CHR ''.'') (fixed8 k n) = CHR ''.'' # ?f"
    unfolding txt8 using pre by (simp_all add: takeWhile_append2 dropWhile_append2 del: digits_n.simps set_append)
  have w: "py_int_text ?pre = Some ((if n < 0 then -1 else 1) * int (?a div 10 ^ 8))"
    using py_int_digits [OF assms(1), of "?a div 10 ^ 8"] py_int_minus_digits [OF assms(1), of "?a div 10 ^ 8"] assms(2)
    by (cases "n < 0") (simp_all del: digits_n.simps)
  have f: "py_int_text ?f = Some (int (?a mod 10 ^ 8))" using py_int_digits [of 8 ?a] by (simp del: digits_n.simps)
  have sign: "take 1 (fixed8 k n) = ''-'' \<longleftrightarrow> n < 0"
  proof -
    obtain c cs where c: "?w = c # cs" using digits_n_nonempty [OF assms(1)] neq_Nil_conv by metis
    then have "c \<noteq> CHR ''-''" using nominus [of c] by (metis list.set_intros(1))
    then have ne: "take 1 (?w @ r) \<noteq> ''-''" for r unfolding c by simp
    show ?thesis
    proof (cases "n < 0")
      case True
      then show ?thesis unfolding txt8 by simp
    next
      case False
      then have "fixed8 k n = ?w @ CHR ''.'' # ?f" by (simp only: txt8 if_False append_Nil)
      with ne False show ?thesis by (simp only: simp_thms)
    qed
  qed
  have "int (?a div 10 ^ 8) * 10 ^ 8 + int (?a mod 10 ^ 8) = int ?a"
    using arg_cong [OF div_mult_mod_eq [of ?a "10 ^ 8"], of int] by (simp only: of_nat_add of_nat_mult of_nat_numeral of_nat_power)
  then have v: "\<bar>(if n < 0 then -1 else 1) * int (?a div 10 ^ 8)\<bar> * price_scale + int (?a mod 10 ^ 8) = \<bar>n\<bar>"
    by (cases "n < 0") (simp_all add: price_scale_def abs_mult)
  have dot: "CHR ''.'' \<in> set (fixed8 k n)" by (simp add: fixed8_def)
  have frac: "take 8 (?f @ replicate (8 - length ?f) CHR ''0'') = ?f" by (simp del: digits_n.simps)
  show ?thesis
    unfolding hydrate_scaled_def Let_def whole rest list.sel frac w f
    using dot v sign by (auto split: if_splits)
qed

theorem hydrate_fixed_roundtrip_witness: "hydrate_scaled (fixed8 1 (-50000000)) = Some (-50000000)"
  by (rule hydrate_fixed_roundtrip) simp_all

end
