(* ===== verification/Oracle_Healer.thy ===== *)
theory Oracle_Healer
  imports Interfaces "HOL-Library.AList"
begin

text \<open>
  The flight recorder's table of intents (\<open>src/src/infrastructure/flight_recorder.py\<close>) and the
  reconciliation of the shadow exposures with the exchange (\<open>src/src/application/state_healer.py\<close>).
  The gateway and the shadow ledger are classes outside the repository: what the healer calls of
  them is an argument, the sets and dictionaries it reads and writes itself are its state.  An
  answer \<open>None\<close> of the exchange is a timeout or an exception.
\<close>

section \<open>The flight recorder\<close>

datatype flight_status = Fl_pending | Fl_dispatched | Fl_filled

record flight_row =
  fl_id :: string
  fl_symbol :: symbol
  fl_side :: string
  fl_qty :: flt
  fl_price :: flt
  fl_status :: flight_status
  fl_dispatched_at :: "time option"
  fl_msq :: flt
  fl_exec :: "flt option"

type_synonym flight_table = "flight_row list"

text \<open>An insertion with a key that is there raises, which is logged and changes nothing.\<close>

definition log_flight :: "string \<Rightarrow> symbol \<Rightarrow> string \<Rightarrow> flt \<Rightarrow> flt \<Rightarrow> flt \<Rightarrow> flight_table \<Rightarrow> flight_table" where
  "log_flight cl s side qty price msq T =
     (if cl \<in> fl_id ` set T then T
      else T @ [\<lparr>fl_id = cl, fl_symbol = s, fl_side = side, fl_qty = qty, fl_price = price, fl_status = Fl_pending,
                 fl_dispatched_at = None, fl_msq = msq, fl_exec = None\<rparr>])"

definition update_flight :: "string \<Rightarrow> (flight_row \<Rightarrow> flight_row) \<Rightarrow> flight_table \<Rightarrow> flight_table" where
  "update_flight cl f T = map (\<lambda>r. if fl_id r = cl then f r else r) T"

definition mark_dispatched :: "string \<Rightarrow> time \<Rightarrow> flight_table \<Rightarrow> flight_table" where
  "mark_dispatched cl now T = update_flight cl (\<lambda>r. r\<lparr>fl_status := Fl_dispatched, fl_dispatched_at := Some now\<rparr>) T"

definition mark_filled :: "string \<Rightarrow> flt \<Rightarrow> flight_table \<Rightarrow> flight_table" where
  "mark_filled cl px T = update_flight cl (\<lambda>r. r\<lparr>fl_status := Fl_filled, fl_exec := Some px\<rparr>) T"

definition mark_terminal :: "string \<Rightarrow> flight_table \<Rightarrow> flight_table" where
  "mark_terminal cl T = filter (\<lambda>r. fl_id r \<noteq> cl) T"

definition unresolved_flights :: "flight_table \<Rightarrow> flight_row list" where
  "unresolved_flights T = filter (\<lambda>r. fl_status r \<in> {Fl_pending, Fl_dispatched}) T"

section \<open>The healer's state\<close>

record exposure =
  sp_size :: flt
  sp_avg :: flt
  sp_side :: string

record exchange_pos =
  xp_symbol :: symbol
  xp_size :: flt
  xp_avg :: flt
  xp_side :: string

record exchange_order =
  xo_link :: string
  xo_symbol :: symbol
  xo_id :: string

type_synonym exposures = "symbol \<rightharpoonup> exposure"

text \<open>
  What is called of the classes outside: the ledger's setter and clearer of an exposure, the
  release of an intent, the quiet period, the proof of a closure by the socket's events, and
  whether a symbol still has a zombie lock.
\<close>

record healer_calls =
  hc_set :: "symbol \<Rightarrow> flt \<Rightarrow> flt \<Rightarrow> string \<Rightarrow> exposures \<Rightarrow> exposures"
  hc_clear :: "symbol \<Rightarrow> exposures \<Rightarrow> exposures"
  hc_release :: "symbol \<Rightarrow> symbol set \<Rightarrow> symbol set"
  hc_quiet :: "symbol \<Rightarrow> bool"
  hc_proof :: "symbol \<Rightarrow> bool"

record oracle_state =
  os_exposures :: exposures
  os_active :: "symbol set"
  os_cache :: "string set"
  os_zombies :: "symbol \<rightharpoonup> string set"
  os_ws_ts :: "symbol \<rightharpoonup> int"
  os_glitch :: "symbol \<rightharpoonup> int"
  os_healing :: bool
  os_tainted :: bool
  os_fallback :: bool

definition get_or :: "'v \<Rightarrow> ('k \<rightharpoonup> 'v) \<Rightarrow> 'k \<Rightarrow> 'v" where
  "get_or d m k = (case m k of None \<Rightarrow> d | Some v \<Rightarrow> v)"

definition oracle_init :: oracle_state where
  "oracle_init = \<lparr>os_exposures = Map.empty, os_active = {}, os_cache = {}, os_zombies = Map.empty, os_ws_ts = Map.empty,
     os_glitch = Map.empty, os_healing = False, os_tainted = False, os_fallback = False\<rparr>"

definition high_water_mark :: "symbol \<Rightarrow> int \<Rightarrow> oracle_state \<Rightarrow> oracle_state" where
  "high_water_mark s ts S =
     (if get_or 0 (os_ws_ts S) s < ts then S\<lparr>os_ws_ts := (os_ws_ts S)(s \<mapsto> ts), os_glitch := (os_glitch S)(s \<mapsto> 0)\<rparr> else S)"

section \<open>One symbol's gap\<close>

definition force_purge :: "healer_calls \<Rightarrow> symbol \<Rightarrow> oracle_state \<Rightarrow> oracle_state" where
  "force_purge C s S = S\<lparr>os_exposures := hc_clear C s (os_exposures S), os_active := hc_release C s (os_active S),
                         os_glitch := (os_glitch S)(s \<mapsto> 0)\<rparr>"

text \<open>The trade history answers a code and the prices of the executions, newest first.\<close>

definition fetch_real_avg_price :: "(int \<times> flt list) option \<Rightarrow> flt" where
  "fetch_real_avg_price ans = (case ans of Some (code, px # _) \<Rightarrow> if code = 0 then px else 0 | _ \<Rightarrow> 0)"

definition adopt_exposure :: "healer_calls \<Rightarrow> symbol \<Rightarrow> flt \<Rightarrow> flt \<Rightarrow> string \<Rightarrow> oracle_state \<Rightarrow> oracle_state" where
  "adopt_exposure C s qty px side S =
     S\<lparr>os_exposures := hc_set C s qty px (py_upper side) (os_exposures S), os_glitch := (os_glitch S)(s \<mapsto> 0)\<rparr>"

definition resolve_symbol_gap ::
  "healer_calls \<Rightarrow> (symbol \<Rightarrow> (int \<times> flt list) option) \<Rightarrow> symbol \<Rightarrow> exposure option \<Rightarrow> exchange_pos option \<Rightarrow> oracle_state \<Rightarrow> oracle_state" where
  "resolve_symbol_gap C hist s local exch S =
     (if hc_quiet C s then S
      else
        let ex = (case exch of None \<Rightarrow> 0 | Some p \<Rightarrow> xp_size p); loc = (case local of None \<Rightarrow> 0 | Some e \<Rightarrow> sp_size e);
            side = (case exch of None \<Rightarrow> [] | Some p \<Rightarrow> xp_side p)
        in if ex = 0 \<and> loc \<noteq> 0 then
             (if hc_proof C s then force_purge C s S
              else if get_or 0 (os_glitch S) s < 2
              then S\<lparr>os_glitch := (os_glitch S)(s \<mapsto> get_or 0 (os_glitch S) s + 1)\<rparr>
              else force_purge C s S)
           else if ex \<noteq> 0 \<and> loc = 0 then
             (adopt_exposure C s ex (fetch_real_avg_price (hist s)) side S)\<lparr>os_active := insert s (os_active S)\<rparr>
           else if 1 / 10 ^ 8 < \<bar>ex - loc\<bar> then
             (let avg = (case exch of None \<Rightarrow> 0 | Some p \<Rightarrow> xp_avg p)
              in adopt_exposure C s ex (if avg \<le> 0 then fetch_real_avg_price (hist s) else avg) side S)
           else S)"

section \<open>The audits\<close>

text \<open>\<open>{p["symbol"]: p for p in ... if size > 0}\<close>.\<close>

definition exchange_truth :: "exchange_pos list \<Rightarrow> (symbol \<times> exchange_pos) list" where
  "exchange_truth ps = fold (\<lambda>p. AList.update (xp_symbol p) p) (filter (\<lambda>p. 0 < xp_size p) ps) []"

definition audit_symbols :: "bool \<Rightarrow> oracle_state \<Rightarrow> exchange_pos list \<Rightarrow> symbol set" where
  "audit_symbols shedding S ps =
     (let loc = dom (os_exposures S); exch = fst ` set (exchange_truth ps); syms = loc \<union> exch
      in if shedding then {s \<in> syms. s \<in> {''BTCUSDT'', ''ETHUSDT'', ''SOLUSDT''} \<union> loc \<union> exch} else syms)"

text \<open>The loop over a set comes in some order, which is an argument; orders are cancelled by identifier.\<close>

definition cleanup_orphans :: "healer_calls \<Rightarrow> exchange_order list \<Rightarrow> oracle_state \<Rightarrow> string list" where
  "cleanup_orphans C orders S =
     map xo_id (filter (\<lambda>x. xo_link x \<notin> os_cache S \<and> \<not> hc_quiet C (xo_symbol x)) orders)"

definition reconcile_all ::
  "healer_calls \<Rightarrow> (symbol \<Rightarrow> (int \<times> flt list) option) \<Rightarrow> symbol list \<Rightarrow> (exchange_pos list \<times> exchange_order list) option
   \<Rightarrow> oracle_state \<Rightarrow> oracle_state \<times> string list" where
  "reconcile_all C hist order ans S =
     (if os_healing S then (S, [])
      else case ans of
             None \<Rightarrow> (S, [])
           | Some (ps, orders) \<Rightarrow>
               let S1 = fold (\<lambda>s T. resolve_symbol_gap C hist s (os_exposures T s) (map_of (exchange_truth ps) s) T) order S
               in (S1, cleanup_orphans C orders S1))"

definition oracle_reconciliation :: "healer_calls \<Rightarrow> exchange_pos list option \<Rightarrow> oracle_state \<Rightarrow> oracle_state" where
  "oracle_reconciliation C ans S = (case ans of
       None \<Rightarrow> S\<lparr>os_fallback := True, os_tainted := True\<rparr>
     | Some ps \<Rightarrow>
         S\<lparr>os_exposures := fold (\<lambda>(s, p). hc_set C s (xp_size p) (xp_avg p) (py_upper (xp_side p))) (exchange_truth ps) Map.empty,
           os_tainted := False, os_fallback := False\<rparr>)"

section \<open>One order in flight\<close>

record order_answer =
  oa_status :: string
  oa_avg :: flt
  oa_qty :: flt

record trade_answer =
  ta_link :: string
  ta_price :: flt
  ta_qty :: flt

text \<open>\<open>locked\<close> answers whether the symbol has a zombie lock left after its own is removed.\<close>

definition unlock_symbol :: "healer_calls \<Rightarrow> (oracle_state \<Rightarrow> symbol \<Rightarrow> bool) \<Rightarrow> symbol \<Rightarrow> string \<Rightarrow> oracle_state \<Rightarrow> oracle_state" where
  "unlock_symbol C locked s cl S0 =
     (let S = S0\<lparr>os_zombies := (case os_zombies S0 s of None \<Rightarrow> os_zombies S0 | Some Z \<Rightarrow> (os_zombies S0)(s \<mapsto> Z - {cl})),
                 os_cache := os_cache S0 - {cl}\<rparr>
      in if locked S s then S else S\<lparr>os_active := hc_release C s (os_active S)\<rparr>)"

definition set_exposure_of :: "healer_calls \<Rightarrow> symbol \<Rightarrow> flt \<Rightarrow> flt \<Rightarrow> string \<Rightarrow> oracle_state \<Rightarrow> oracle_state" where
  "set_exposure_of C s qty px side S = S\<lparr>os_exposures := hc_set C s qty px (py_upper side) (os_exposures S)\<rparr>"

definition history_phase ::
  "healer_calls \<Rightarrow> (oracle_state \<Rightarrow> symbol \<Rightarrow> bool) \<Rightarrow> flight_row \<Rightarrow> trade_answer list option \<Rightarrow> oracle_state \<Rightarrow> (oracle_state \<times> string) option" where
  "history_phase C locked r hist S =
     (if fl_status r \<noteq> Fl_dispatched then None
      else case hist of
             None \<Rightarrow> None
           | Some trades \<Rightarrow> (case filter (\<lambda>t. ta_link t = fl_id r) trades of
                 [] \<Rightarrow> None
               | t # ts \<Rightarrow> Some (unlock_symbol C locked (fl_symbol r) (fl_id r)
                     (set_exposure_of C (fl_symbol r) (sum_list (map ta_qty (t # ts))) (ta_price t) (fl_side r) S), ''FILLED'')))"

definition position_phase ::
  "healer_calls \<Rightarrow> (oracle_state \<Rightarrow> symbol \<Rightarrow> bool) \<Rightarrow> flight_row \<Rightarrow> exchange_pos list option \<Rightarrow> oracle_state \<Rightarrow> (oracle_state \<times> string) option" where
  "position_phase C locked r ps S = (case ps of
       None \<Rightarrow> None
     | Some positions \<Rightarrow> (case List.find (\<lambda>p. xp_symbol p = fl_symbol r) positions of
           None \<Rightarrow> None
         | Some p \<Rightarrow>
             if 1 / 10 ^ 8 < \<bar>xp_size p - (case os_exposures S (fl_symbol r) of None \<Rightarrow> 0 | Some e \<Rightarrow> sp_size e)\<bar> \<and> 0 < xp_size p
             then Some (unlock_symbol C locked (fl_symbol r) (fl_id r)
                    (set_exposure_of C (fl_symbol r) (xp_size p) (xp_avg p) (xp_side p) S), ''FILLED'')
             else None))"

definition resolve_single_intent ::
  "healer_calls \<Rightarrow> (oracle_state \<Rightarrow> symbol \<Rightarrow> bool) \<Rightarrow> flight_row \<Rightarrow> order_answer list option \<Rightarrow> trade_answer list option
   \<Rightarrow> exchange_pos list option \<Rightarrow> oracle_state \<Rightarrow> oracle_state \<times> string" where
  "resolve_single_intent C locked r orders hist ps S =
     (let s = fl_symbol r; cl = fl_id r;
          later = (case history_phase C locked r hist S of
              Some out \<Rightarrow> out
            | None \<Rightarrow> (case position_phase C locked r ps S of
                  Some out \<Rightarrow> out
                | None \<Rightarrow> (unlock_symbol C locked s cl S, if fl_status r = Fl_pending then ''NEVER_EXISTED'' else ''CANCELLED'')))
      in case orders of
           Some (ord # _) \<Rightarrow>
             (let st = py_upper (oa_status ord)
              in if st = ''FILLED'' then
                   (unlock_symbol C locked s cl (set_exposure_of C s (oa_qty ord) (oa_avg ord) (fl_side r) S), ''FILLED'')
                 else if st \<in> {''CANCELLED'', ''DEACTIVATED'', ''REJECTED''} then (unlock_symbol C locked s cl S, ''CANCELLED'')
                 else if st \<in> {''PARTIALLYFILLED'', ''NEW'', ''UNTRIGGERED''} then (S, ''DEFERRED_'' @ st)
                 else later)
         | _ \<Rightarrow> later)"

section \<open>Every order has its own life in the table\<close>

datatype flight_op =
    Log_flight string symbol string flt flt flt
  | Dispatch_flight string time
  | Fill_flight string flt
  | End_flight string

fun flight_key :: "flight_op \<Rightarrow> string" where
  "flight_key (Log_flight cl s side qty price msq) = cl"
| "flight_key (Dispatch_flight cl now) = cl"
| "flight_key (Fill_flight cl px) = cl"
| "flight_key (End_flight cl) = cl"

fun flight_step :: "flight_table \<Rightarrow> flight_op \<Rightarrow> flight_table \<times> unit" where
  "flight_step T (Log_flight cl s side qty price msq) = (log_flight cl s side qty price msq T, ())"
| "flight_step T (Dispatch_flight cl now) = (mark_dispatched cl now T, ())"
| "flight_step T (Fill_flight cl px) = (mark_filled cl px T, ())"
| "flight_step T (End_flight cl) = (mark_terminal cl T, ())"

definition flight_of :: "flight_table \<Rightarrow> string \<Rightarrow> flight_row option" where
  "flight_of T cl = List.find (\<lambda>r. fl_id r = cl) T"

lemma flight_None: "flight_of T cl = None \<longleftrightarrow> cl \<notin> fl_id ` set T"
  by (auto simp: flight_of_def find_None_iff)

lemma flight_key_kept: "flight_of T cl = Some r \<Longrightarrow> fl_id r = cl"
  by (auto simp: flight_of_def find_Some_iff)

lemma flight_of_log: "flight_of (log_flight cl s side qty price msq T) k =
    (if k = cl \<and> cl \<notin> fl_id ` set T then Some \<lparr>fl_id = cl, fl_symbol = s, fl_side = side, fl_qty = qty, fl_price = price,
        fl_status = Fl_pending, fl_dispatched_at = None, fl_msq = msq, fl_exec = None\<rparr> else flight_of T k)"
proof -
  have "flight_of (T @ [r]) k = (case flight_of T k of None \<Rightarrow> if fl_id r = k then Some r else None | Some x \<Rightarrow> Some x)" for r
    by (induction T) (auto simp: flight_of_def)
  then show ?thesis using flight_None [of T k] by (auto simp: log_flight_def split: option.split)
qed

lemma flight_of_update:
  "(\<And>r. fl_id (f r) = fl_id r) \<Longrightarrow> flight_of (update_flight cl f T) k = (if k = cl then map_option f (flight_of T k) else flight_of T k)"
  by (induction T) (auto simp: update_flight_def flight_of_def)

lemma flight_of_terminal: "flight_of (mark_terminal cl T) k = (if k = cl then None else flight_of T k)"
  by (induction T) (auto simp: mark_terminal_def flight_of_def)

lemmas flight_simps = flight_of_log flight_of_update flight_of_terminal mark_dispatched_def mark_filled_def

interpretation flights: isolated flight_step flight_key "\<lambda>k T T'. flight_of T k = flight_of T' k"
proof
  fix T T' :: flight_table and ev k
  show "flight_of T k = flight_of T k" by simp
  show "snd (flight_step T ev) = snd (flight_step T' ev)" by simp
  show "flight_of (fst (flight_step T ev)) (flight_key ev) = flight_of (fst (flight_step T' ev)) (flight_key ev)"
    if "flight_of T (flight_key ev) = flight_of T' (flight_key ev)"
    using that flight_None [of T "flight_key ev"] flight_None [of T' "flight_key ev"] by (cases ev) (auto simp: flight_simps)
  show "flight_of (fst (flight_step T ev)) k = flight_of T' k" if "flight_key ev \<noteq> k" "flight_of T k = flight_of T' k"
    using that by (cases ev) (auto simp: flight_simps)
qed

fun track :: "flight_op \<Rightarrow> flight_status option \<Rightarrow> flight_status option" where
  "track (Log_flight cl s side qty price msq) x = (case x of None \<Rightarrow> Some Fl_pending | Some y \<Rightarrow> Some y)"
| "track (Dispatch_flight cl now) x = map_option (\<lambda>_. Fl_dispatched) x"
| "track (Fill_flight cl px) x = map_option (\<lambda>_. Fl_filled) x"
| "track (End_flight cl) x = None"

lemma track_own:
  "\<forall>ev \<in> set evs. flight_key ev = k \<Longrightarrow>
     map_option fl_status (flight_of (run_final flight_step T evs) k) = fold track evs (map_option fl_status (flight_of T k))"
proof (induction evs arbitrary: T)
  case (Cons ev evs)
  have "map_option fl_status (flight_of (fst (flight_step T ev)) k) = track ev (map_option fl_status (flight_of T k))"
    using Cons.prems flight_None [of T k]
    by (cases ev; cases "flight_of T k") (auto simp: flight_simps)
  with Cons show ?case by simp
qed simp

lemma flight_ids_distinct: "distinct (map fl_id T) \<Longrightarrow> distinct (map fl_id (fst (flight_step T ev)))"
proof (cases ev)
  case (End_flight cl)
  assume "distinct (map fl_id T)"
  then show ?thesis by (simp add: End_flight mark_terminal_def distinct_map_filter)
next
  case (Log_flight cl s side qty price msq)
  assume "distinct (map fl_id T)"
  then show ?thesis by (auto simp: Log_flight log_flight_def)
qed (auto simp: mark_dispatched_def mark_filled_def update_flight_def comp_def if_distrib [of fl_id] cong: if_cong)

lemma unresolved_flight: "distinct (map fl_id T) \<Longrightarrow>
    cl \<in> fl_id ` set (unresolved_flights T) \<longleftrightarrow> map_option fl_status (flight_of T cl) \<in> {Some Fl_pending, Some Fl_dispatched}"
  by (induction T) (force simp: unresolved_flights_def flight_of_def find_None_iff)+

text \<open>The recorder tells the orders of unknown fate from the others, whatever the interleaving.
  After any sequence of writes an order is handed out for recovery exactly when its own writes,
  taken alone, leave it pending or dispatched: a second log of an order changes nothing, a fill
  settles it, its end forgets it, and a dispatch that is recorded after the fill reopens it.\<close>

theorem unresolved_iff_tracked:
  "cl \<in> fl_id ` set (unresolved_flights (run_final flight_step [] evs)) \<longleftrightarrow>
     fold track (filter (\<lambda>ev. flight_key ev = cl) evs) None \<in> {Some Fl_pending, Some Fl_dispatched}"
proof -
  have d: "distinct (map fl_id (run_final flight_step [] evs))"
    by (rule run_final_inv) (simp_all add: flight_ids_distinct)
  have "flight_of (run_final flight_step [] evs) cl = flight_of (run_final flight_step [] (filter (\<lambda>ev. flight_key ev = cl) evs)) cl"
    by (rule flights.run_agree) simp
  moreover have "map_option fl_status (flight_of (run_final flight_step [] (filter (\<lambda>ev. flight_key ev = cl) evs)) cl)
      = fold track (filter (\<lambda>ev. flight_key ev = cl) evs) None"
    using track_own [of "filter (\<lambda>ev. flight_key ev = cl) evs" cl "[]"] by (simp add: flight_of_def)
  ultimately show ?thesis by (simp only: unresolved_flight [OF d])
qed

section \<open>What an audit achieves\<close>

definition calls_ok :: "healer_calls \<Rightarrow> bool" where
  "calls_ok C \<longleftrightarrow> (\<forall>s q px side E. hc_set C s q px side E = E(s \<mapsto> \<lparr>sp_size = q, sp_avg = px, sp_side = side\<rparr>))
     \<and> (\<forall>s E. hc_clear C s E = E(s := None))"

definition loc_size :: "exposures \<Rightarrow> symbol \<Rightarrow> flt" where
  "loc_size E s = (case E s of None \<Rightarrow> 0 | Some e \<Rightarrow> sp_size e)"

definition exch_size :: "exchange_pos option \<Rightarrow> flt" where
  "exch_size p = (case p of None \<Rightarrow> 0 | Some p \<Rightarrow> xp_size p)"

definition doubted :: "healer_calls \<Rightarrow> oracle_state \<Rightarrow> symbol \<Rightarrow> flt \<Rightarrow> bool" where
  "doubted C S s ex \<longleftrightarrow> ex = 0 \<and> loc_size (os_exposures S) s \<noteq> 0 \<and> \<not> hc_proof C s \<and> get_or 0 (os_glitch S) s < 2"

lemma gap_other: "calls_ok C \<Longrightarrow> t \<noteq> s \<Longrightarrow>
    os_exposures (resolve_symbol_gap C hist s l e S) t = os_exposures S t \<and> os_glitch (resolve_symbol_gap C hist s l e S) t = os_glitch S t"
  by (simp add: resolve_symbol_gap_def force_purge_def adopt_exposure_def calls_ok_def Let_def)

lemma gap_own:
  fixes e :: "exchange_pos option" and S :: oracle_state
    and hist :: "symbol \<Rightarrow> (int \<times> flt list) option"
  assumes "calls_ok C" "\<not> hc_quiet C s"
  defines "S' \<equiv> resolve_symbol_gap C hist s (os_exposures S s) e S"
  shows "if doubted C S s (exch_size e) then os_exposures S' s = os_exposures S s \<and> get_or 0 (os_glitch S') s = get_or 0 (os_glitch S) s + 1
    else \<bar>loc_size (os_exposures S') s - exch_size e\<bar> \<le> 1 / 10 ^ 8"
  using assms(1,2)
  by (auto simp: S'_def resolve_symbol_gap_def doubted_def force_purge_def adopt_exposure_def calls_ok_def Let_def loc_size_def exch_size_def
      get_or_def abs_minus_commute split: option.splits)

lemma audit_other:
  "calls_ok C \<Longrightarrow> t \<notin> set order \<Longrightarrow>
    os_exposures (fold (\<lambda>s T. resolve_symbol_gap C hist s (os_exposures T s) (truth s) T) order S) t = os_exposures S t
    \<and> os_glitch (fold (\<lambda>s T. resolve_symbol_gap C hist s (os_exposures T s) (truth s) T) order S) t = os_glitch S t"
  by (induction order arbitrary: S) (simp_all add: gap_other)


definition demo_calls :: healer_calls where
  "demo_calls = \<lparr>hc_set = (\<lambda>s q px side E. E(s \<mapsto> \<lparr>sp_size = q, sp_avg = px, sp_side = side\<rparr>)), hc_clear = (\<lambda>s E. E(s := None)),
     hc_release = (\<lambda>s A. A - {s}), hc_quiet = (\<lambda>s. False), hc_proof = (\<lambda>s. False)\<rparr>"

lemma demo_calls_ok: "calls_ok demo_calls"
  by (simp add: calls_ok_def demo_calls_def)


text \<open>
  Doubts are said to be consecutive; an audit that finds the position where it was does not
  forget them.  The answers of a symbol's audits are here whether the exchange reported it.
\<close>

definition seen_audit :: "healer_calls \<Rightarrow> symbol \<Rightarrow> exchange_pos \<Rightarrow> bool \<Rightarrow> oracle_state \<Rightarrow> oracle_state" where
  "seen_audit C s p present S = resolve_symbol_gap C (\<lambda>s. None) s (os_exposures S s) (if present then Some p else None) S"

lemma seen_audit_step:
  assumes "\<not> hc_quiet C s" "\<not> hc_proof C s" "os_exposures S s = Some e" "sp_size e = xp_size p" "xp_size p \<noteq> 0" "get_or 0 (os_glitch S) s < 2"
  shows "os_exposures (seen_audit C s p present S) s = Some e"
    and "get_or 0 (os_glitch (seen_audit C s p present S)) s = get_or 0 (os_glitch S) s + (if present then 0 else 1)"
  using assms by (auto simp: seen_audit_def resolve_symbol_gap_def get_or_def)

lemma seen_audits:
  "\<not> hc_quiet C s \<Longrightarrow> \<not> hc_proof C s \<Longrightarrow> os_exposures S s = Some e \<Longrightarrow> sp_size e = xp_size p \<Longrightarrow> xp_size p \<noteq> 0 \<Longrightarrow>
   0 \<le> get_or 0 (os_glitch S) s \<Longrightarrow> get_or 0 (os_glitch S) s + int (length (filter Not outs)) \<le> 2 \<Longrightarrow>
     os_exposures (fold (seen_audit C s p) outs S) s = Some e
     \<and> get_or 0 (os_glitch (fold (seen_audit C s p) outs S)) s = get_or 0 (os_glitch S) s + int (length (filter Not outs))"
proof (induction outs arbitrary: S)
  case (Cons present outs)
  let ?S = "seen_audit C s p present S"
  have few: "get_or 0 (os_glitch S) s < 2 \<or> present \<and> get_or 0 (os_glitch S) s = 2" using Cons.prems(7) by (cases present) auto
  have keep: "seen_audit C s p True S = S" using Cons.prems by (simp add: seen_audit_def resolve_symbol_gap_def)
  have "os_exposures ?S s = Some e \<and> get_or 0 (os_glitch ?S) s = get_or 0 (os_glitch S) s + (if present then 0 else 1)"
    using few seen_audit_step [OF Cons.prems(1-5), of present] keep Cons.prems(3) by (cases present) auto
  with Cons.IH [of ?S] Cons.prems show ?case by (cases present) auto
qed simp

text \<open>The third absence purges a position, however many audits confirmed it in between.  A position
  held locally, never in its quiet period and without a closure on the socket, survives two audits
  that miss it and is cleared by the third, although every other audit reported its exact size.\<close>

theorem third_absence_purges:
  assumes "calls_ok C" "\<not> hc_quiet C s" "\<not> hc_proof C s" "os_exposures S s = Some e" "sp_size e = xp_size p" "xp_size p \<noteq> 0"
    "os_glitch S s = None" "length (filter Not outs) = 2"
  shows "os_exposures (fold (seen_audit C s p) outs S) s = Some e
    \<and> os_exposures (fold (seen_audit C s p) (outs @ [False]) S) s = None"
proof -
  have "get_or 0 (os_glitch S) s = 0" using assms(7) by (simp add: get_or_def)
  then have before: "os_exposures (fold (seen_audit C s p) outs S) s = Some e" "get_or 0 (os_glitch (fold (seen_audit C s p) outs S)) s = 2"
    using seen_audits [OF assms(2-6), of outs] assms(8) by auto
  then show ?thesis
    using assms(1-3,5,6) by (simp add: seen_audit_def resolve_symbol_gap_def force_purge_def calls_ok_def)
qed

theorem third_absence_purges_witness:
  "os_exposures (fold (seen_audit demo_calls ''X'' \<lparr>xp_symbol = ''X'', xp_size = 2, xp_avg = 7, xp_side = ''Buy''\<rparr>)
     [False, True, True, False, True, False] (oracle_init\<lparr>os_exposures := [''X'' \<mapsto> \<lparr>sp_size = 2, sp_avg = 7, sp_side = ''BUY''\<rparr>]\<rparr>)) ''X'' = None"
  using third_absence_purges [OF demo_calls_ok, of "''X''" "oracle_init\<lparr>os_exposures := [''X'' \<mapsto> \<lparr>sp_size = 2, sp_avg = 7, sp_side = ''BUY''\<rparr>]\<rparr>"
      "\<lparr>sp_size = 2, sp_avg = 7, sp_side = ''BUY''\<rparr>" "\<lparr>xp_symbol = ''X'', xp_size = 2, xp_avg = 7, xp_side = ''Buy''\<rparr>"
      "[False, True, True, False, True]"]
  by (simp add: demo_calls_def oracle_init_def)

text \<open>A position that turned from long to short keeps its local side: sizes have no sign.\<close>

lemma side_flip_unseen:
  "sp_size e = xp_size p \<Longrightarrow> resolve_symbol_gap C hist s (Some e) (Some p) S = S"
  by (simp add: resolve_symbol_gap_def)

text \<open>The triage of a storm drops no symbol: all of them are local or on the exchange.\<close>

lemma triage_keeps_all: "audit_symbols True S ps = audit_symbols False S ps"
  by (auto simp: audit_symbols_def Let_def)

text \<open>A dispatch recorded after the fill reopens the order.\<close>

lemma late_dispatch_reopens:
  "cl \<in> fl_id ` set T \<Longrightarrow> cl \<in> fl_id ` set (unresolved_flights (mark_dispatched cl now (mark_filled cl px T)))"
proof -
  assume "cl \<in> fl_id ` set T"
  then obtain r where r: "r \<in> set T" "fl_id r = cl" by blast
  let ?r = "r\<lparr>fl_status := Fl_dispatched, fl_exec := Some px, fl_dispatched_at := Some now\<rparr>"
  have "?r \<in> set (mark_dispatched cl now (mark_filled cl px T))"
    using r by (force simp: mark_dispatched_def mark_filled_def update_flight_def)
  then have "?r \<in> set (unresolved_flights (mark_dispatched cl now (mark_filled cl px T)))" by (simp add: unresolved_flights_def)
  then show "cl \<in> fl_id ` set (unresolved_flights (mark_dispatched cl now (mark_filled cl px T)))"
    by (rule image_eqI [rotated]) (simp add: r(2))
qed

text \<open>
  Whatever the exchange answers, an order that is not deferred is unlocked: its own zombie lock and
  its cached identifier are gone.
\<close>

lemma unlock_clears:
  "cl \<notin> os_cache (unlock_symbol C locked s cl S) \<and> (\<forall>Z. os_zombies (unlock_symbol C locked s cl S) s = Some Z \<longrightarrow> cl \<notin> Z)"
  by (auto simp: unlock_symbol_def Let_def split: option.split)

theorem resolved_is_unlocked:
  assumes "snd (resolve_single_intent C locked r orders hist ps S) = out" "take 9 out \<noteq> ''DEFERRED_''"
  defines "S' \<equiv> fst (resolve_single_intent C locked r orders hist ps S)"
  shows "fl_id r \<notin> os_cache S' \<and> (\<forall>Z. os_zombies S' (fl_symbol r) = Some Z \<longrightarrow> fl_id r \<notin> Z)"
proof -
  have h: "history_phase C locked r hist S = Some (T, o1) \<Longrightarrow> \<exists>T0. T = unlock_symbol C locked (fl_symbol r) (fl_id r) T0" for T o1
    by (auto simp: history_phase_def split: if_splits option.splits list.splits)
  have p: "position_phase C locked r ps S = Some (T, o1) \<Longrightarrow> \<exists>T0. T = unlock_symbol C locked (fl_symbol r) (fl_id r) T0" for T o1
    by (auto simp: position_phase_def split: if_splits option.splits)
  define later where "later = (case history_phase C locked r hist S of Some out \<Rightarrow> out
      | None \<Rightarrow> (case position_phase C locked r ps S of Some out \<Rightarrow> out
          | None \<Rightarrow> (unlock_symbol C locked (fl_symbol r) (fl_id r) S, if fl_status r = Fl_pending then ''NEVER_EXISTED'' else ''CANCELLED'')))"
  have l: "\<exists>T0. fst later = unlock_symbol C locked (fl_symbol r) (fl_id r) T0"
    using h p by (cases "history_phase C locked r hist S"; cases "position_phase C locked r ps S") (force simp: later_def)+
  have res: "resolve_single_intent C locked r orders hist ps S = (case orders of
      Some (ord # _) \<Rightarrow>
        (if py_upper (oa_status ord) = ''FILLED'' then
           (unlock_symbol C locked (fl_symbol r) (fl_id r) (set_exposure_of C (fl_symbol r) (oa_qty ord) (oa_avg ord) (fl_side r) S), ''FILLED'')
         else if py_upper (oa_status ord) \<in> {''CANCELLED'', ''DEACTIVATED'', ''REJECTED''} then (unlock_symbol C locked (fl_symbol r) (fl_id r) S, ''CANCELLED'')
         else if py_upper (oa_status ord) \<in> {''PARTIALLYFILLED'', ''NEW'', ''UNTRIGGERED''} then (S, ''DEFERRED_'' @ py_upper (oa_status ord))
         else later)
    | _ \<Rightarrow> later)"
    by (simp only: resolve_single_intent_def Let_def later_def)
  have "\<exists>T0. S' = unlock_symbol C locked (fl_symbol r) (fl_id r) T0"
  proof (cases "\<exists>ord rest. orders = Some (ord # rest)")
    case True
    then obtain ord rest where oo: "orders = Some (ord # rest)" by blast
    let ?st = "py_upper (oa_status ord)"
    have "\<not> (?st \<in> {''PARTIALLYFILLED'', ''NEW'', ''UNTRIGGERED''} \<and> ?st \<noteq> ''FILLED'' \<and> ?st \<notin> {''CANCELLED'', ''DEACTIVATED'', ''REJECTED''})"
      using assms(1,2) unfolding res unfolding oo by auto
    then show ?thesis using l unfolding S'_def res unfolding oo by auto
  next
    case False
    then have "resolve_single_intent C locked r orders hist ps S = later"
      unfolding res by (auto split: option.split list.split)
    with l show ?thesis by (simp add: S'_def)
  qed
  then show ?thesis using unlock_clears by metis
qed

end
