(* ===== verification/Regime.thy ===== *)
theory Regime
  imports Interfaces Conflation
begin

text \<open>
  The judges of the market's state beside the radar: the baseline that mutes alerts while
  Bitcoin panics (\<open>src/src/domain/macro_regime.py\<close>), the filter for structural breaks
  (\<open>src/src/domain/cortex.py\<close>), the model that turns a toxicity signal into an intent
  (\<open>src/src/domain/alpha_model.py\<close>), and the engine on a window of bars
  (\<open>src/src/domain/quant_radar.py\<close>).
\<close>

section \<open>The baseline\<close>

datatype panic_reason = No_panic | Toxic_flow | Flash_crash | Cooling_down int

record macro_health =
  mh_panic :: bool
  mh_vpin :: flt
  mh_delta :: flt
  mh_reason :: panic_reason

record macro_filter =
  mf_vpin :: flt
  mf_delta :: flt
  mf_health :: macro_health
  mf_window :: "(time \<times> flt) list"
  mf_last_panic :: time

definition window_sec :: time where "window_sec = 60"
definition cooldown_sec :: time where "cooldown_sec = 180"

definition macro_init :: "flt \<Rightarrow> flt \<Rightarrow> macro_filter" where
  "macro_init vpin delta = \<lparr>mf_vpin = vpin, mf_delta = delta,
     mf_health = \<lparr>mh_panic = False, mh_vpin = 0, mh_delta = 0, mh_reason = No_panic\<rparr>, mf_window = [], mf_last_panic = 0\<rparr>"

text \<open>The result tells whether the division by the reference price raised.\<close>

definition update_baseline :: "time \<Rightarrow> symbol \<Rightarrow> flt \<Rightarrow> flt \<Rightarrow> macro_filter \<Rightarrow> macro_filter \<times> bool" where
  "update_baseline now s vpin price F =
     (if s \<noteq> ''BTCUSDT'' then (F, False)
      else
        let win = dropWhile (\<lambda>e. window_sec < now - fst e) (mf_window F @ [(now, price)]);
            F1 = F\<lparr>mf_window := win\<rparr>
        in if win = [] \<or> length win < 2 then (F1, False)
           else
             let ref = snd (hd win)
             in if ref = 0 then (F1, True)
                else
                  let delta = (price - ref) / ref;
                      why = (if mf_vpin F < vpin then Toxic_flow else if delta < mf_delta F then Flash_crash else No_panic);
                      panic = (why \<noteq> No_panic);
                      last = (if panic then now else mf_last_panic F);
                      cooling = (now - last < cooldown_sec)
                  in (F1\<lparr>mf_last_panic := last,
                         mf_health := \<lparr>mh_panic = panic \<or> cooling, mh_vpin = vpin, mh_delta = delta,
                           mh_reason = (if panic then why else if cooling then Cooling_down (py_int (cooldown_sec - (now - last))) else No_panic)\<rparr>\<rparr>,
                      False))"

definition should_mute :: "symbol \<Rightarrow> macro_filter \<Rightarrow> bool" where
  "should_mute s F = (if s = ''BTCUSDT'' then False else mh_panic (mf_health F))"

definition is_trend_reset :: "flt \<Rightarrow> symbol \<Rightarrow> flt \<Rightarrow> bool" where
  "is_trend_reset exhaustion s vpin = (if s = ''BTCUSDT'' then True else vpin < exhaustion)"

section \<open>Structural breaks\<close>

record cusum =
  cu_decay :: flt
  cu_threshold :: flt
  cu_drift :: flt
  cu_mean :: "flt option"
  cu_var :: flt
  cu_pos :: flt
  cu_neg :: flt

definition cusum_init :: "flt \<Rightarrow> flt \<Rightarrow> flt \<Rightarrow> cusum" where
  "cusum_init decay threshold drift = \<lparr>cu_decay = decay, cu_threshold = threshold, cu_drift = drift, cu_mean = None,
     cu_var = 1 / 10 ^ 8, cu_pos = 0, cu_neg = 0\<rparr>"

definition reset_cusum :: "cusum \<Rightarrow> cusum" where
  "reset_cusum c = c\<lparr>cu_pos := 0, cu_neg := 0\<rparr>"

definition process_close :: "flt \<Rightarrow> cusum \<Rightarrow> cusum \<times> int" where
  "process_close price c = (case cu_mean c of
       None \<Rightarrow> (c\<lparr>cu_mean := Some price\<rparr>, 0)
     | Some mean \<Rightarrow>
         let delta = price - mean;
             var = (1 - cu_decay c) * (cu_var c + cu_decay c * delta\<^sup>2);
             z = delta / (sqrt var + 1 / 10 ^ 8);
             c1 = c\<lparr>cu_mean := Some (mean + cu_decay c * delta), cu_var := var,
                    cu_pos := max 0 (cu_pos c + z - cu_drift c), cu_neg := min 0 (cu_neg c + z + cu_drift c)\<rparr>
         in if cu_threshold c < cu_pos c1 then (reset_cusum c1, 1)
            else if cu_neg c1 < - cu_threshold c then (reset_cusum c1, -1)
            else (c1, 0))"

section \<open>From a signal to an intent\<close>

record vpin_toxicity =
  vt_symbol :: symbol
  vt_toxicity :: flt
  vt_leader_bps :: int
  vt_ts :: int

record alpha_intent =
  ai_symbol :: symbol
  ai_side :: string
  ai_price :: flt
  ai_qty :: flt
  ai_ttl_ms :: int

record alpha_params =
  ap_toxicity :: flt
  ap_min_profit :: int
  ap_fee :: int

definition msq_realism :: "(flt \<times> flt) list \<Rightarrow> flt \<times> flt" where
  "msq_realism side = (case side of
       [] \<Rightarrow> (0, 0)
     | best # _ \<Rightarrow> (min (sum_list (map snd (take 2 side))) 5, fst best))"

definition evaluate_signal :: "alpha_params \<Rightarrow> vpin_toxicity \<Rightarrow> (flt \<times> flt) list \<Rightarrow> (flt \<times> flt) list \<Rightarrow> alpha_intent option" where
  "evaluate_signal P sg bids asks =
     (if vt_toxicity sg < ap_toxicity P then None
      else
        let short = vt_leader_bps sg < -10; long = 10 < vt_leader_bps sg
        in if \<not> (short \<or> long) then None
           else case msq_realism (if short then bids else asks) of (qty, price) \<Rightarrow>
             if qty \<le> 0 then None
             else Some \<lparr>ai_symbol = vt_symbol sg, ai_side = (if short then ''SELL'' else ''BUY''), ai_price = price,
                        ai_qty = qty, ai_ttl_ms = 5000\<rparr>)"

section \<open>The engine on a window of bars\<close>

record bar_ring =
  br_capacity :: nat
  br_index :: nat
  br_full :: bool
  br_closes :: "flt list"
  br_ofis :: "flt list"

definition bar_ring_init :: "nat \<Rightarrow> bar_ring" where
  "bar_ring_init n = \<lparr>br_capacity = n, br_index = 0, br_full = False, br_closes = replicate n 0, br_ofis = replicate n 0\<rparr>"

definition ring_append :: "flt \<times> flt \<Rightarrow> bar_ring \<Rightarrow> bar_ring" where
  "ring_append x b =
     (let i = (br_index b + 1) mod br_capacity b
      in b\<lparr>br_closes := (br_closes b)[br_index b := fst x], br_ofis := (br_ofis b)[br_index b := snd x], br_index := i,
           br_full := (br_full b \<or> i = 0)\<rparr>)"

definition ordered_arrays :: "bar_ring \<Rightarrow> flt list \<times> flt list" where
  "ordered_arrays b =
     (if \<not> br_full b then (take (br_index b) (br_closes b), take (br_index b) (br_ofis b))
      else (drop (br_index b) (br_closes b) @ take (br_index b) (br_closes b),
            drop (br_index b) (br_ofis b) @ take (br_index b) (br_ofis b)))"

definition ofi_divergence :: "flt list \<Rightarrow> flt list \<Rightarrow> nat \<Rightarrow> flt" where
  "ofi_divergence closes ofis w =
     (if length closes < w then 0
      else sum_list (lastn w ofis) - (last closes - closes ! (length closes - w)))"

record radar_intent =
  ri_symbol :: symbol
  ri_divergence :: flt
  ri_ts :: time

record quant_engine =
  qe_window :: nat
  qe_buffers :: "symbol \<rightharpoonup> bar_ring"
  qe_out :: "radar_intent list"
  qe_out_max :: nat

text \<open>A full queue drops its head; \<open>asyncio.Queue(0)\<close> has no bound.\<close>

definition dispatch_intent :: "radar_intent \<Rightarrow> quant_engine \<Rightarrow> quant_engine" where
  "dispatch_intent x E =
     (if qe_out_max E = 0 \<or> length (qe_out E) < qe_out_max E then E\<lparr>qe_out := qe_out E @ [x]\<rparr>
      else E\<lparr>qe_out := tl (qe_out E) @ [x]\<rparr>)"

definition analyze_alpha :: "dollar_bar \<Rightarrow> quant_engine \<Rightarrow> quant_engine" where
  "analyze_alpha b E =
     (let s = bar_symbol b;
          buf0 = (case qe_buffers E s of None \<Rightarrow> bar_ring_init (qe_window E) | Some r \<Rightarrow> r);
          buf = ring_append (bar_close b, order_flow_imbalance b) buf0;
          E1 = E\<lparr>qe_buffers := (qe_buffers E)(s \<mapsto> buf)\<rparr>
      in if \<not> br_full buf then E1
         else case ordered_arrays buf of (closes, ofis) \<Rightarrow>
           let d = ofi_divergence closes ofis 100
           in if 5000000 < d then dispatch_intent \<lparr>ri_symbol = s, ri_divergence = d, ri_ts = end_ts b\<rparr> E1 else E1)"

section \<open>The ring is the newest bars\<close>

definition bars_kept :: "bar_ring \<Rightarrow> bool" where
  "bars_kept b \<longleftrightarrow> 0 < br_capacity b \<and> length (br_closes b) = br_capacity b \<and> length (br_ofis b) = br_capacity b \<and> br_index b < br_capacity b"

definition bar_view :: "bar_ring \<Rightarrow> (flt \<times> flt) list" where
  "bar_view b = zip (fst (ordered_arrays b)) (snd (ordered_arrays b))"

lemma zip_ring: "length xs = length ys \<Longrightarrow> zip (ring_list xs i) (ring_list ys i) = ring_list (zip xs ys) i"
  by (simp add: ring_list_def zip_append take_zip drop_zip)

lemma zip_update: "length xs = length ys \<Longrightarrow> zip (xs[i := a]) (ys[i := b]) = (zip xs ys)[i := (a, b)]"
  by (simp add: update_zip)

lemma bar_view_alt: "bars_kept b \<Longrightarrow> bar_view b =
    (if br_full b then ring_list (zip (br_closes b) (br_ofis b)) (br_index b) else take (br_index b) (zip (br_closes b) (br_ofis b)))"
  by (simp add: bar_view_def ordered_arrays_def bars_kept_def take_zip zip_ring flip: ring_list_def)

lemma bar_ring_append: "bars_kept b \<Longrightarrow> bars_kept (ring_append x b)"
  by (simp add: bars_kept_def ring_append_def Let_def)

lemma bar_view_append:
  assumes "bars_kept b"
  shows "bar_view (ring_append x b) = lastn (br_capacity b) (bar_view b @ [x])"
proof -
  let ?cells = "zip (br_closes b) (br_ofis b)" and ?i = "br_index b" and ?n = "br_capacity b"
  have l: "length ?cells = ?n" "?i < ?n" "length (br_closes b) = length (br_ofis b)" using assms by (simp_all add: bars_kept_def)
  have new: "zip (br_closes (ring_append x b)) (br_ofis (ring_append x b)) = ?cells[?i := x]"
    using l by (simp add: ring_append_def Let_def zip_update)
  have idx: "br_index (ring_append x b) = ring_next ?n ?i" "br_full (ring_append x b) = (br_full b \<or> ring_next ?n ?i = 0)"
    using l(2) by (simp_all add: ring_append_def Let_def ring_next_mod)
  note v = bar_view_alt [OF assms] bar_view_alt [OF bar_ring_append [OF assms], of x, unfolded new idx]
  show ?thesis
  proof (cases "br_full b")
    case True
    then have "bar_view (ring_append x b) = tl (bar_view b) @ [x]"
      using ring_list_push [of ?i ?cells x] l by (simp add: v)
    moreover have "length (bar_view b) = ?n" using True l by (simp add: v)
    ultimately show ?thesis using lastn_snoc_full [of "bar_view b" ?n x] l by auto
  next
    case False
    have t: "take (Suc ?i) (?cells[?i := x]) = take ?i ?cells @ [x]" using l by (simp add: take_Suc_conv_app_nth)
    have small: "lastn ?n (take ?i ?cells @ [x]) = take ?i ?cells @ [x]" using l by simp
    show ?thesis
    proof (cases "Suc ?i = ?n")
      case last: True
      then have "bar_view (ring_append x b) = ?cells[?i := x]" using False by (simp add: v ring_next_def)
      also have "\<dots> = take (Suc ?i) (?cells[?i := x])" using l last by simp
      finally show ?thesis using False t small by (simp add: v)
    next
      case mid: False
      then have "bar_view (ring_append x b) = take (Suc ?i) (?cells[?i := x])" using False l by (simp add: v ring_next_def)
      then show ?thesis using False t small by (simp add: v)
    qed
  qed
qed

lemma bar_view_length: "bars_kept b \<Longrightarrow> length (bar_view b) = (if br_full b then br_capacity b else br_index b)"
  by (simp add: bar_view_alt bars_kept_def)

lemma bar_ring_capacity [simp]: "br_capacity (ring_append x b) = br_capacity b"
  by (simp add: ring_append_def Let_def)

interpretation bar_log: bounded_log ring_append bar_view br_capacity bars_kept
proof
  fix b :: bar_ring and x
  assume b: "bars_kept b"
  show "bars_kept (ring_append x b)" using b by (rule bar_ring_append)
  show "br_capacity (ring_append x b) = br_capacity b" by simp
  show "bar_view (ring_append x b) = lastn (br_capacity b) (bar_view b @ [x])" using b by (rule bar_view_append)
  show "length (bar_view b) \<le> br_capacity b" using bar_view_length [OF b] b by (simp add: bars_kept_def)
qed

definition bar_cell :: "dollar_bar \<Rightarrow> flt \<times> flt" where
  "bar_cell b = (bar_close b, order_flow_imbalance b)"

definition quant_init :: "nat \<Rightarrow> nat \<Rightarrow> quant_engine" where
  "quant_init w m = \<lparr>qe_window = w, qe_buffers = Map.empty, qe_out = [], qe_out_max = m\<rparr>"

lemma analyze_buffers: "qe_buffers (analyze_alpha b E) = (qe_buffers E)(bar_symbol b \<mapsto>
    ring_append (bar_cell b) (case qe_buffers E (bar_symbol b) of None \<Rightarrow> bar_ring_init (qe_window E) | Some r \<Rightarrow> r))"
  by (simp add: analyze_alpha_def Let_def dispatch_intent_def bar_cell_def split: prod.split)

lemma analyze_window [simp]: "qe_window (analyze_alpha b E) = qe_window E"
  by (simp add: analyze_alpha_def Let_def dispatch_intent_def split: prod.split)

lemma quant_buffers:
  "qe_buffers (fold analyze_alpha bars E) s = (case filter (\<lambda>b. bar_symbol b = s) bars of
       [] \<Rightarrow> qe_buffers E s
     | own \<Rightarrow> Some (fold ring_append (map bar_cell own) (case qe_buffers E s of None \<Rightarrow> bar_ring_init (qe_window E) | Some r \<Rightarrow> r)))"
proof (induction bars arbitrary: E)
  case (Cons b bars)
  then show ?case by (auto simp: analyze_buffers split: list.split option.split)
qed simp

text \<open>The engine judges exactly the newest bars of a symbol.  After any stream of bars of any
  symbols the ring of a symbol read in order is its last closes and imbalances, as many as the
  window, and it counts as full when that many bars have come.\<close>

theorem quant_window_exact:
  assumes "0 < w" "filter (\<lambda>b. bar_symbol b = s) bars \<noteq> []"
  shows "\<exists>r. qe_buffers (fold analyze_alpha bars (quant_init w m)) s = Some r
    \<and> bar_view r = lastn w (map bar_cell (filter (\<lambda>b. bar_symbol b = s) bars))
    \<and> (br_full r \<longleftrightarrow> w \<le> length (filter (\<lambda>b. bar_symbol b = s) bars))"
proof -
  let ?own = "filter (\<lambda>b. bar_symbol b = s) bars" and ?init = "bar_ring_init w"
  let ?r = "fold ring_append (map bar_cell ?own) ?init"
  have ok: "bars_kept ?init" "br_capacity ?init = w" "bar_view ?init = []"
    using assms(1) by (simp_all add: bars_kept_def bar_ring_init_def bar_view_def ordered_arrays_def)
  have okr: "bars_kept ?r" and capr: "br_capacity ?r = w" and v: "bar_view ?r = lastn w (map bar_cell ?own)"
    using bar_log.ok_pushes [OF ok(1)] bar_log.cap_pushes [OF ok(1)] bar_log.view_pushes [OF ok(1)] ok by simp_all
  have "min w (length ?own) = (if br_full ?r then w else br_index ?r)"
    using bar_view_length [OF okr] v capr by simp
  moreover have "br_index ?r < w" using okr capr by (simp add: bars_kept_def)
  ultimately have "br_full ?r \<longleftrightarrow> w \<le> length ?own" by (auto split: if_splits)
  moreover have "qe_buffers (fold analyze_alpha bars (quant_init w m)) s = Some ?r"
    using assms(2) by (simp add: quant_buffers quant_init_def split: list.split)
  ultimately show ?thesis using v by blast
qed

theorem quant_window_exact_witness:
  "\<exists>r. qe_buffers (fold analyze_alpha [fresh_bar ''A'' 5 0, fresh_bar ''B'' 7 0, fresh_bar ''A'' 6 1] (quant_init 2 4)) ''A'' = Some r
    \<and> bar_view r = [(5, 0), (6, 0)] \<and> br_full r"
  using quant_window_exact [of 2 "''A''" "[fresh_bar ''A'' 5 0, fresh_bar ''B'' 7 0, fresh_bar ''A'' 6 1]" 4]
  by (simp add: fresh_bar_def bar_cell_def order_flow_imbalance_def)

text \<open>The newest intent is always in the queue, and the queue keeps its bound.\<close>

lemma dispatch_keeps_newest:
  assumes "qe_out_max E \<noteq> 0" "length (qe_out E) \<le> qe_out_max E"
  shows "qe_out (dispatch_intent x E) = lastn (qe_out_max E) (qe_out E @ [x])"
proof (cases "length (qe_out E) < qe_out_max E")
  case True
  then show ?thesis by (simp add: dispatch_intent_def)
next
  case False
  then have "length (qe_out E) = qe_out_max E" using assms(2) by simp
  then show ?thesis using False assms(1) lastn_snoc_full [of "qe_out E" "qe_out_max E" x] by (simp add: dispatch_intent_def)
qed

section \<open>The baseline's memory\<close>

record baseline_tick =
  bl_now :: time
  bl_symbol :: symbol
  bl_vpin :: flt
  bl_price :: flt

definition baseline_step :: "baseline_tick \<Rightarrow> macro_filter \<Rightarrow> macro_filter" where
  "baseline_step u F = fst (update_baseline (bl_now u) (bl_symbol u) (bl_vpin u) (bl_price u) F)"

lemma baseline_other: "bl_symbol u \<noteq> ''BTCUSDT'' \<Longrightarrow> baseline_step u F = F"
  by (simp add: baseline_step_def update_baseline_def)

lemma baseline_window:
  "bl_symbol u = ''BTCUSDT'' \<Longrightarrow>
     mf_window (baseline_step u F) = dropWhile (\<lambda>e. window_sec < bl_now u - fst e) (mf_window F @ [(bl_now u, bl_price u)])"
  by (simp add: baseline_step_def update_baseline_def Let_def)

lemma dropWhile_sorted:
  "sorted (map fst xs) \<Longrightarrow> dropWhile (\<lambda>e. c < (t :: real) - fst e) xs = filter (\<lambda>e. t - fst e \<le> c) xs"
proof (induction xs)
  case (Cons x xs)
  show ?case
  proof (cases "c < t - fst x")
    case False
    then have "\<forall>e \<in> set xs. t - fst e \<le> c" using Cons.prems by force
    then have "filter (\<lambda>e. t - fst e \<le> c) xs = xs" by simp
    with False show ?thesis by simp
  qed (use Cons in simp)
qed simp

definition btc_ticks :: "baseline_tick list \<Rightarrow> (time \<times> flt) list" where
  "btc_ticks us = map (\<lambda>u. (bl_now u, bl_price u)) (filter (\<lambda>u. bl_symbol u = ''BTCUSDT'') us)"

lemma btc_ticks_snoc: "btc_ticks (us @ [u]) = btc_ticks us @ (if bl_symbol u = ''BTCUSDT'' then [(bl_now u, bl_price u)] else [])"
  by (simp add: btc_ticks_def)

text \<open>The rate of change is taken over the last minute.  For clock readings that do not run back
  the filter's window is, after any updates of any symbols, exactly Bitcoin's prices of the minute
  before its newest one.\<close>

theorem baseline_window_is_minute:
  assumes "sorted (map fst (btc_ticks us))"
  shows "mf_window (fold baseline_step us (macro_init vpin delta))
    = filter (\<lambda>e. fst (last (btc_ticks us)) - fst e \<le> 60) (btc_ticks us)"
  using assms
proof (induction us rule: rev_induct)
  case Nil
  then show ?case by (simp add: macro_init_def btc_ticks_def)
next
  case (snoc u us)
  let ?F = "fold baseline_step us (macro_init vpin delta)" and ?h = "btc_ticks us"
  show ?case
  proof (cases "bl_symbol u = ''BTCUSDT''")
    case False
    then show ?thesis using snoc by (simp add: btc_ticks_snoc baseline_other)
  next
    case True
    let ?x = "(bl_now u, bl_price u)"
    have s: "sorted (map fst (?h @ [?x]))" using snoc.prems True by (simp add: btc_ticks_snoc)
    then have sh: "sorted (map fst ?h)" and le: "\<forall>e \<in> set ?h. fst e \<le> bl_now u" by (auto simp: sorted_append)
    have w: "mf_window ?F = filter (\<lambda>e. fst (last ?h) - fst e \<le> 60) ?h" using snoc.IH [OF sh] .
    have sw: "sorted (map fst (mf_window ?F @ [?x]))"
      using sh le by (auto simp: w sorted_append intro: sorted_filter)
    have "mf_window (baseline_step u ?F) = filter (\<lambda>e. bl_now u - fst e \<le> 60) (mf_window ?F @ [?x])"
      using dropWhile_sorted [OF sw, of 60 "bl_now u"] by (simp add: baseline_window [OF True] window_sec_def)
    also have "\<dots> = filter (\<lambda>e. bl_now u - fst e \<le> 60) (?h @ [?x])"
    proof (cases "?h = []")
      case False
      then have "fst (last ?h) \<le> bl_now u" using le by simp
      then show ?thesis by (auto simp: w intro!: filter_cong)
    qed (simp add: w)
    finally show ?thesis using True by (simp add: btc_ticks_snoc)
  qed
qed

theorem baseline_window_is_minute_witness:
  "mf_window (fold baseline_step [\<lparr>bl_now = 0, bl_symbol = ''BTCUSDT'', bl_vpin = 0, bl_price = 9\<rparr>, \<lparr>bl_now = 5, bl_symbol = ''X'', bl_vpin = 0, bl_price = 1\<rparr>,
     \<lparr>bl_now = 70, bl_symbol = ''BTCUSDT'', bl_vpin = 0, bl_price = 8\<rparr>] (macro_init 1 0)) = [(70, 8)]"
  by (subst baseline_window_is_minute) (simp_all add: btc_ticks_def)

definition muted_since :: "time \<Rightarrow> macro_filter \<Rightarrow> bool" where
  "muted_since til F \<longleftrightarrow> mh_panic (mf_health F) \<and> til - 180 < mf_last_panic F"

lemma baseline_mute:
  assumes "muted_since til F" "bl_now u < til" "til - 180 < bl_now u"
  shows "muted_since til (baseline_step u F)"
  using assms by (auto simp: muted_since_def baseline_step_def update_baseline_def cooldown_sec_def Let_def)

text \<open>A panic mutes the market for three minutes.  From a panic found at the time \<open>t\<close> on, whatever
  updates follow within the next three minutes, every symbol but Bitcoin stays muted, and Bitcoin
  never is.\<close>

theorem panic_mutes_three_minutes:
  assumes "mh_panic (mf_health F)" "mf_last_panic F = t" "\<forall>u \<in> set us. t \<le> bl_now u \<and> bl_now u < t + 180"
  shows "should_mute s (fold baseline_step us F) \<longleftrightarrow> s \<noteq> ''BTCUSDT''"
proof -
  have "muted_since (t + 180 - e) (fold baseline_step us F)" if e: "0 < e" "\<forall>u \<in> set us. bl_now u < t + 180 - e" for e
  proof (rule fold_inv)
    show "muted_since (t + 180 - e) F" using assms(1,2) e by (simp add: muted_since_def)
    fix G u assume "muted_since (t + 180 - e) G" "u \<in> set us"
    then show "muted_since (t + 180 - e) (baseline_step u G)" using assms(3) e by (intro baseline_mute) auto
  qed
  moreover have "\<exists>e > 0. \<forall>u \<in> set us. bl_now u < t + 180 - e"
    using assms(3)
  proof (induction us)
    case (Cons u us)
    then obtain e where e: "0 < e" "\<forall>u \<in> set us. bl_now u < t + 180 - e" by auto
    then show ?case using Cons.prems by (intro exI [of _ "min e ((t + 180 - bl_now u) / 2)"]) (auto simp: min_def field_simps)
  qed (intro exI [of _ 1], simp)
  ultimately show ?thesis by (auto simp: should_mute_def muted_since_def)
qed

theorem panic_mutes_three_minutes_witness:
  "should_mute ''ETHUSDT'' (fold baseline_step [\<lparr>bl_now = 1100, bl_symbol = ''BTCUSDT'', bl_vpin = 0, bl_price = 9\<rparr>]
     ((macro_init 1 0)\<lparr>mf_health := \<lparr>mh_panic = True, mh_vpin = 1, mh_delta = 0, mh_reason = Toxic_flow\<rparr>, mf_last_panic := 1000\<rparr>))"
  using panic_mutes_three_minutes [of "(macro_init 1 0)\<lparr>mf_health := \<lparr>mh_panic = True, mh_vpin = 1, mh_delta = 0, mh_reason = Toxic_flow\<rparr>, mf_last_panic := 1000\<rparr>"
      1000 "[\<lparr>bl_now = 1100, bl_symbol = ''BTCUSDT'', bl_vpin = 0, bl_price = 9\<rparr>]" "''ETHUSDT''"]
  by simp

text \<open>Only a Bitcoin update lifts the panic: without one it outlasts its cooldown.\<close>

lemma panic_outlasts_cooldown:
  "\<forall>u \<in> set us. bl_symbol u \<noteq> ''BTCUSDT'' \<Longrightarrow> fold baseline_step us F = F"
  by (induction us) (simp_all add: baseline_other)

section \<open>The structural breaks\<close>

definition cusum_ok :: "cusum \<Rightarrow> bool" where
  "cusum_ok c \<longleftrightarrow> 0 < cu_decay c \<and> cu_decay c < 1 \<and> 0 \<le> cu_threshold c \<and> 0 < cu_var c
     \<and> 0 \<le> cu_pos c \<and> cu_pos c \<le> cu_threshold c \<and> - cu_threshold c \<le> cu_neg c \<and> cu_neg c \<le> 0"

lemma process_close_ok: "cusum_ok c \<Longrightarrow> cusum_ok (fst (process_close price c))"
proof (cases "cu_mean c")
  case None
  assume "cusum_ok c"
  then show ?thesis by (simp add: process_close_def None cusum_ok_def)
next
  case (Some mean)
  assume c: "cusum_ok c"
  then have "0 < (1 - cu_decay c) * (cu_var c + cu_decay c * (price - mean)\<^sup>2)"
    by (intro mult_pos_pos add_pos_nonneg) (auto simp: cusum_ok_def)
  with c show ?thesis by (auto simp: process_close_def Some Let_def cusum_ok_def reset_cusum_def)
qed

text \<open>The filter's sums never leave the band of its threshold.  Whatever prices come, the sums stay
  between zero and the threshold on their side, the variance stays positive, and after a break of
  either direction both sums are zero.\<close>

theorem cusum_in_band:
  fixes drift :: flt and prices :: "flt list"
  assumes "0 < decay" "decay < 1" "0 \<le> threshold"
  defines "c \<equiv> fold (\<lambda>p c. fst (process_close p c)) prices (cusum_init decay threshold drift)"
  shows "0 \<le> cu_pos c \<and> cu_pos c \<le> threshold \<and> - threshold \<le> cu_neg c \<and> cu_neg c \<le> 0 \<and> 0 < cu_var c
    \<and> (snd (process_close p c) \<noteq> 0 \<longrightarrow> cu_pos (fst (process_close p c)) = 0 \<and> cu_neg (fst (process_close p c)) = 0)"
proof -
  have "cusum_ok c \<and> cu_threshold c = threshold"
    unfolding c_def
  proof (rule fold_inv)
    show "cusum_ok (cusum_init decay threshold drift) \<and> cu_threshold (cusum_init decay threshold drift) = threshold"
      using assms(1-3) by (simp add: cusum_ok_def cusum_init_def)
    fix c p assume "cusum_ok c \<and> cu_threshold c = threshold"
    then show "cusum_ok (fst (process_close p c)) \<and> cu_threshold (fst (process_close p c)) = threshold"
      using process_close_ok by (auto simp: process_close_def Let_def reset_cusum_def split: option.splits)
  qed
  moreover have "snd (process_close p c) \<noteq> 0 \<longrightarrow> cu_pos (fst (process_close p c)) = 0 \<and> cu_neg (fst (process_close p c)) = 0"
    by (auto simp: process_close_def Let_def reset_cusum_def split: option.splits)
  ultimately show ?thesis by (auto simp: cusum_ok_def)
qed

theorem cusum_in_band_witness:
  "0 < cu_var (fold (\<lambda>p c. fst (process_close p c)) [100, 101, 99] (cusum_init (1 / 20) 3 (1 / 2)))"
  using cusum_in_band [of "1 / 20" 3 "[100, 101, 99]" "1 / 2" 0] by simp

section \<open>What an intent is\<close>

text \<open>An intent follows the leader and never exceeds the book.  When the model gives an intent, the
  signal was toxic enough, Bitcoin moved by more than ten basis points, the side is that of the
  move, the price is the best of the side it takes, and the quantity is positive, at most five, and
  at most what the first two levels hold.\<close>

theorem intent_within_book:
  assumes "evaluate_signal P sg bids asks = Some x"
  defines "side \<equiv> (if vt_leader_bps sg < -10 then bids else asks)"
  shows "ap_toxicity P \<le> vt_toxicity sg \<and> 10 < \<bar>vt_leader_bps sg\<bar> \<and> (ai_side x = ''SELL'' \<longleftrightarrow> vt_leader_bps sg < -10)
    \<and> side \<noteq> [] \<and> ai_price x = fst (hd side) \<and> 0 < ai_qty x \<and> ai_qty x \<le> 5 \<and> ai_qty x \<le> sum_list (map snd (take 2 side))"
  using assms(1) unfolding side_def
  by (auto simp: evaluate_signal_def msq_realism_def Let_def split: if_splits list.splits)

theorem intent_within_book_witness:
  "\<exists>x. evaluate_signal \<lparr>ap_toxicity = 1 / 2, ap_min_profit = 0, ap_fee = 5\<rparr> \<lparr>vt_symbol = ''X'', vt_toxicity = 1, vt_leader_bps = 20, vt_ts = 0\<rparr>
     [] [(10, 3), (11, 4), (12, 9)] = Some x \<and> ai_qty x \<le> 5"
proof -
  let ?P = "\<lparr>ap_toxicity = 1 / 2, ap_min_profit = 0, ap_fee = 5\<rparr>"
    and ?s = "\<lparr>vt_symbol = ''X'', vt_toxicity = 1, vt_leader_bps = 20, vt_ts = 0\<rparr>"
  obtain x where "evaluate_signal ?P ?s [] [(10, 3), (11, 4), (12, 9)] = Some x"
    by (simp add: evaluate_signal_def msq_realism_def)
  from intent_within_book [OF this] this show ?thesis by blast
qed

end
