(* ===== verification/Sentinels.thy ===== *)
theory Sentinels
  imports Interfaces "HOL-Library.AList" "HOL-Library.List_Lexorder" "HOL-Library.Char_ord"
begin

text \<open>
  Guards and buffers around the radar: the sentinels of the outbox and of silent symbols
  (\<open>src/src/application/sentinel.py\<close>), the firewall that blinds the operator
  (\<open>src/src/domain/shadow_ledger.py\<close>) and the performance window of the other shadow ledger
  (\<open>src/src/infrastructure/shadow_ledger.py\<close>), the directional buffer of ticks
  (\<open>src/src/infrastructure/conflation.py\<close>), the queue simulator
  (\<open>src/src/domain/entities/fill_simulator.py\<close>) and the sector matrix
  (\<open>src/src/application/sentry_brain.py\<close>).
\<close>

section \<open>The outbox sentinel\<close>

record blackout_sentinel =
  bs_timeout :: int
  bs_last :: int
  bs_stagnation :: int
  bs_live :: bool

definition outbox_sentinel :: "int \<Rightarrow> blackout_sentinel" where
  "outbox_sentinel timeout = \<lparr>bs_timeout = timeout, bs_last = 0, bs_stagnation = 0, bs_live = True\<rparr>"

text \<open>One poll, ten seconds after the one before; a query that fails answers \<open>None\<close>.\<close>

definition sentinel_poll :: "int option \<Rightarrow> blackout_sentinel \<Rightarrow> blackout_sentinel" where
  "sentinel_poll answer S = (case answer of
       None \<Rightarrow> S
     | Some n \<Rightarrow>
         let S1 = (if 0 < n \<and> bs_last S \<le> n then
                     (let st = bs_stagnation S + 10
                      in S\<lparr>bs_stagnation := st, bs_live := (if bs_timeout S \<le> st then False else bs_live S)\<rparr>)
                   else S\<lparr>bs_stagnation := 0\<rparr>)
         in S1\<lparr>bs_last := n\<rparr>)"

section \<open>Silent symbols\<close>

record flatline =
  fl_threshold :: time
  fl_ticks :: "symbol \<rightharpoonup> time"
  fl_blind :: "symbol set"

definition update_pulse :: "time \<Rightarrow> symbol \<Rightarrow> flatline \<Rightarrow> flatline" where
  "update_pulse now s F = F\<lparr>fl_ticks := (fl_ticks F)(s \<mapsto> now), fl_blind := fl_blind F - {s}\<rparr>"

text \<open>The set of active symbols is walked in some order, the list \<open>active\<close>.\<close>

fun flat_scan :: "time \<Rightarrow> symbol list \<Rightarrow> flatline \<Rightarrow> flatline \<times> symbol list" where
  "flat_scan now [] F = (F, [])"
| "flat_scan now (s # ss) F = (case fl_ticks F s of
       None \<Rightarrow> flat_scan now ss F
     | Some t \<Rightarrow>
         if t = 0 \<or> s \<in> fl_blind F then flat_scan now ss F
         else if fl_threshold F < now - t
         then (case flat_scan now ss (F\<lparr>fl_blind := insert s (fl_blind F)\<rparr>) of (F', new) \<Rightarrow> (F', s # new))
         else flat_scan now ss F)"

definition check_flatlines :: "time \<Rightarrow> symbol list \<Rightarrow> flatline \<Rightarrow> flatline \<times> symbol list" where
  "check_flatlines now active F =
     (let gone = dom (fl_ticks F) - set active
      in flat_scan now active (F\<lparr>fl_ticks := fl_ticks F |` (- gone), fl_blind := fl_blind F - gone\<rparr>))"

definition flat_remove :: "symbol \<Rightarrow> flatline \<Rightarrow> flatline" where
  "flat_remove s F = F\<lparr>fl_ticks := (fl_ticks F)(s := None), fl_blind := fl_blind F - {s}\<rparr>"

section \<open>The firewall\<close>

record firewall =
  fw_until :: time
  fw_active :: bool
  fw_failures :: int
  fw_pending :: "(symbol \<times> time) list"
  fw_saved :: time

definition quarantine_duration :: time where "quarantine_duration = 14400"
definition biological_offset :: time where "biological_offset = 12 / 10"
definition tilt_threshold :: int where "tilt_threshold = 3"

definition firewall_init :: "time \<Rightarrow> firewall" where
  "firewall_init until = \<lparr>fw_until = until, fw_active = (0 < until), fw_failures = 0, fw_pending = [], fw_saved = until\<rparr>"

definition register_fw_intent :: "symbol \<Rightarrow> time \<Rightarrow> firewall \<Rightarrow> firewall" where
  "register_fw_intent s ts W = (if fw_active W then W else W\<lparr>fw_pending := fw_pending W @ [(s, ts + biological_offset)]\<rparr>)"

definition check_alpha_decay :: "symbol \<Rightarrow> flt \<Rightarrow> bool" where
  "check_alpha_decay s price = False"

definition trigger_blackout :: "time \<Rightarrow> firewall \<Rightarrow> firewall" where
  "trigger_blackout ts W =
     (if \<not> fw_active W then W\<lparr>fw_active := True, fw_until := ts + quarantine_duration, fw_saved := ts + quarantine_duration\<rparr> else W)"

definition lift_quarantine :: "firewall \<Rightarrow> firewall" where
  "lift_quarantine W = W\<lparr>fw_active := False, fw_until := 0, fw_failures := 0, fw_saved := 0\<rparr>"

definition evaluate_reality :: "symbol \<Rightarrow> flt \<Rightarrow> time \<Rightarrow> firewall \<Rightarrow> firewall" where
  "evaluate_reality s price ts W =
     (if check_alpha_decay s price then W\<lparr>fw_failures := 0\<rparr>
      else let W1 = W\<lparr>fw_failures := fw_failures W + 1\<rparr>
           in if tilt_threshold \<le> fw_failures W1 then trigger_blackout ts W1 else W1)"

definition firewall_tick :: "flt \<Rightarrow> time \<Rightarrow> firewall \<Rightarrow> firewall" where
  "firewall_tick price ts W =
     (if fw_active W then (if fw_until W \<le> ts then lift_quarantine W else W)
      else case fw_pending W of
             [] \<Rightarrow> W
           | (s, v) # rest \<Rightarrow> if v \<le> ts then evaluate_reality s price ts (W\<lparr>fw_pending := rest\<rparr>) else W)"

section \<open>The performance window\<close>

record tilt_window =
  tw_results :: "int list"
  tw_compromised :: bool

definition alpha_valid :: "flt \<Rightarrow> flt \<Rightarrow> flt \<Rightarrow> bool" where
  "alpha_valid side final intent = (if side = 1 then intent < final else if 0 < final then final < intent else False)"

definition update_tilt :: "int \<Rightarrow> tilt_window \<Rightarrow> tilt_window" where
  "update_tilt win W =
     (let rs0 = tw_results W @ [win]; rs = (if 10 < length rs0 then tl rs0 else rs0)
      in if length rs = 10 then W\<lparr>tw_results := rs, tw_compromised := (real_of_int (sum_list rs) / 10 < 3 / 10)\<rparr>
         else W\<lparr>tw_results := rs\<rparr>)"

section \<open>The directional buffer\<close>

record directional =
  dt_price :: flt
  dt_buy :: flt
  dt_sell :: flt
  dt_ts :: int

record mega_tick =
  mt_symbol :: symbol
  mt_price :: flt
  mt_volume :: flt
  mt_side :: string
  mt_ts :: int

record directional_buffer =
  db_critical :: nat
  db_buffer :: "(symbol \<times> directional) list"
  db_conflated :: int

text \<open>A tick that does not parse is \<open>None\<close>: it is logged and left out.\<close>

record raw_tick =
  rt_symbol :: symbol
  rt_price :: flt
  rt_volume :: flt
  rt_ts :: int
  rt_buy :: bool

definition ingest_immediate :: "raw_tick option \<Rightarrow> directional_buffer \<Rightarrow> directional_buffer" where
  "ingest_immediate tick B = (case tick of
       None \<Rightarrow> B
     | Some t \<Rightarrow> (case map_of (db_buffer B) (rt_symbol t) of
           Some d \<Rightarrow> B\<lparr>db_buffer := AList.update (rt_symbol t)
               \<lparr>dt_price = rt_price t, dt_buy = (if rt_buy t then dt_buy d + rt_volume t else dt_buy d),
                dt_sell = (if rt_buy t then dt_sell d else dt_sell d + rt_volume t), dt_ts = rt_ts t\<rparr> (db_buffer B),
               db_conflated := db_conflated B + 1\<rparr>
         | None \<Rightarrow>
             if db_critical B \<le> length (db_buffer B) then B
             else B\<lparr>db_buffer := AList.update (rt_symbol t)
               \<lparr>dt_price = rt_price t, dt_buy = (if rt_buy t then rt_volume t else 0),
                dt_sell = (if rt_buy t then 0 else rt_volume t), dt_ts = rt_ts t\<rparr> (db_buffer B)\<rparr>))"

definition flush_entry :: "symbol \<times> directional \<Rightarrow> mega_tick list" where
  "flush_entry e = (case e of (s, d) \<Rightarrow>
     (if 0 < dt_buy d then [\<lparr>mt_symbol = s, mt_price = dt_price d, mt_volume = dt_buy d, mt_side = ''Buy'', mt_ts = dt_ts d\<rparr>] else [])
     @ (if 0 < dt_sell d then [\<lparr>mt_symbol = s, mt_price = dt_price d, mt_volume = dt_sell d, mt_side = ''Sell'', mt_ts = dt_ts d\<rparr>] else []))"

definition flush_buffer :: "directional_buffer \<Rightarrow> directional_buffer \<times> mega_tick list" where
  "flush_buffer B =
     (if db_buffer B = [] then (B, [])
      else (B\<lparr>db_buffer := [], db_conflated := 0\<rparr>, concat (map flush_entry (db_buffer B))))"

section \<open>The queue simulator\<close>

record sim_order =
  so_price :: flt
  so_volume :: flt
  so_side :: string
  so_ahead :: flt
  so_filled :: flt
  so_done :: bool

definition place_virtual :: "flt \<Rightarrow> flt \<Rightarrow> string \<Rightarrow> flt \<Rightarrow> sim_order" where
  "place_virtual price volume side l2 =
     \<lparr>so_price = price, so_volume = volume, so_side = side, so_ahead = l2, so_filled = 0, so_done = False\<rparr>"

definition trade_impact :: "flt \<Rightarrow> flt \<Rightarrow> flt \<Rightarrow> flt" where
  "trade_impact cur prev vol = max 0 (vol - max 0 (vol + (cur - prev)))"

definition burn_queue :: "flt \<Rightarrow> sim_order \<Rightarrow> sim_order" where
  "burn_queue impact ord =
     (let burn = (if 0 < so_ahead ord then min (so_ahead ord) impact else 0);
          ord1 = ord\<lparr>so_ahead := so_ahead ord - burn\<rparr>; rest = impact - burn
      in if so_ahead ord1 \<le> 0 \<and> 0 < rest then
           (let filled = so_filled ord + min (so_volume ord - so_filled ord) rest
            in ord1\<lparr>so_filled := filled, so_done := (so_done ord \<or> so_volume ord \<le> filled)\<rparr>)
         else ord1)"

definition process_update :: "flt \<Rightarrow> flt \<Rightarrow> flt \<Rightarrow> flt \<Rightarrow> sim_order \<Rightarrow> sim_order" where
  "process_update cur prev price vol ord =
     (if so_done ord then ord
      else if so_side ord = ''BUY'' \<and> price < so_price ord \<or> so_side ord = ''SELL'' \<and> so_price ord < price
      then ord\<lparr>so_filled := so_volume ord, so_done := True\<rparr>
      else let ord1 = (if price = so_price ord then burn_queue (trade_impact cur prev vol) ord else ord)
           in if 0 < cur then ord1\<lparr>so_ahead := min (so_ahead ord1) (cur - (so_volume ord1 - so_filled ord1))\<rparr> else ord1)"

section \<open>The sector matrix\<close>

record sentry =
  sy_sector :: "symbol \<rightharpoonup> nat"
  sy_heat :: "flt list"
  sy_fatigue :: "flt list"

definition sentry_init :: "symbol list \<Rightarrow> (symbol \<times> string) list \<Rightarrow> sentry" where
  "sentry_init symbols config =
     (let named = sort (remdups (map snd config)); sectors = (if named = [] then [''UNKNOWN''] else named)
      in \<lparr>sy_sector = (\<lambda>s. if s \<notin> set symbols then None
             else Some (case map_of config s of None \<Rightarrow> 0 | Some sec \<Rightarrow> length (takeWhile (\<lambda>x. x \<noteq> sec) sectors))),
          sy_heat = replicate (length sectors) 0, sy_fatigue = replicate (length sectors) 0\<rparr>)"

definition on_awakening :: "symbol \<Rightarrow> sentry \<Rightarrow> sentry" where
  "on_awakening s Y = (case sy_sector Y s of None \<Rightarrow> Y
     | Some i \<Rightarrow> Y\<lparr>sy_heat := (sy_heat Y)[i := min 2 (sy_heat Y ! i + 4 / 10)]\<rparr>)"

definition on_awakening_failed :: "symbol \<Rightarrow> sentry \<Rightarrow> sentry" where
  "on_awakening_failed s Y = (case sy_sector Y s of None \<Rightarrow> Y
     | Some i \<Rightarrow> Y\<lparr>sy_fatigue := (sy_fatigue Y)[i := min 50 (sy_fatigue Y ! i + 1)]\<rparr>)"

definition on_intent_generated :: "symbol \<Rightarrow> sentry \<Rightarrow> sentry" where
  "on_intent_generated s Y = (case sy_sector Y s of None \<Rightarrow> Y
     | Some i \<Rightarrow> Y\<lparr>sy_fatigue := (sy_fatigue Y)[i := max 0 (sy_fatigue Y ! i - 2)]\<rparr>)"

definition tick_decay :: "sentry \<Rightarrow> sentry" where
  "tick_decay Y = Y\<lparr>sy_heat := map2 (\<lambda>h f. h * ((995 / 1000) / (1 + f * (1 / 10)))) (sy_heat Y) (sy_fatigue Y)\<rparr>"

definition clip :: "flt \<Rightarrow> flt \<Rightarrow> flt \<Rightarrow> flt" where
  "clip x lo hi = min hi (max lo x)"

definition adjusted_threshold :: "symbol \<Rightarrow> flt \<Rightarrow> sentry \<Rightarrow> flt" where
  "adjusted_threshold s base Y = (case sy_sector Y s of None \<Rightarrow> base
     | Some i \<Rightarrow> base * clip (1 - sy_heat Y ! i * (8 / 10)) (2 / 10) 1 * exp (max 0 (sy_fatigue Y ! i - 10) * (3 / 10)))"

definition sector_confidence :: "symbol \<Rightarrow> sentry \<Rightarrow> flt" where
  "sector_confidence s Y = (case sy_sector Y s of None \<Rightarrow> 1 / 2
     | Some i \<Rightarrow> clip (sy_heat Y ! i / (1 + sy_fatigue Y ! i * (1 / 2))) 0 (3 / 2))"

section \<open>A silent symbol is reported once\<close>

lemma flat_scan_facts:
  "fl_ticks (fst (flat_scan now ss F)) = fl_ticks F \<and> fl_threshold (fst (flat_scan now ss F)) = fl_threshold F
   \<and> fl_blind (fst (flat_scan now ss F)) = fl_blind F \<union> set (snd (flat_scan now ss F))
   \<and> set (snd (flat_scan now ss F)) \<inter> fl_blind F = {}"
proof (induction ss arbitrary: F)
  case (Cons s ss)
  show ?case
  proof (cases "fl_ticks F s")
    case None
    then show ?thesis using Cons by simp
  next
    case (Some t)
    let ?G = "F\<lparr>fl_blind := insert s (fl_blind F)\<rparr>"
    obtain G' new where g: "flat_scan now ss ?G = (G', new)" by (cases "flat_scan now ss ?G")
    show ?thesis using Cons [of F] Cons [of ?G] Some g by auto
  qed
qed simp

lemma flat_scan_reports:
  "distinct ss \<Longrightarrow> set (snd (flat_scan now ss F)) =
     {s \<in> set ss. s \<notin> fl_blind F \<and> (\<exists>t. fl_ticks F s = Some t \<and> t \<noteq> 0 \<and> fl_threshold F < now - t)}"
proof (induction ss arbitrary: F)
  case (Cons s ss)
  let ?G = "F\<lparr>fl_blind := insert s (fl_blind F)\<rparr>"
  obtain G' new where g: "flat_scan now ss ?G = (G', new)" by (cases "flat_scan now ss ?G")
  have "s \<notin> set ss" "distinct ss" using Cons.prems by simp_all
  with Cons.IH [of F] Cons.IH [of ?G] g show ?case by (cases "fl_ticks F s") auto
qed simp

datatype flat_input = Pulse_in time symbol | Check_in time "symbol list" | Remove_in symbol

fun flat_answer :: "flatline \<Rightarrow> flat_input \<Rightarrow> flatline \<times> symbol list" where
  "flat_answer F (Pulse_in now s) = (update_pulse now s F, [])"
| "flat_answer F (Check_in now active) = check_flatlines now active F"
| "flat_answer F (Remove_in s) = (flat_remove s F, [])"

text \<open>Inputs between which a symbol is silent and still watched.\<close>

fun leaves_silent :: "symbol \<Rightarrow> flat_input \<Rightarrow> bool" where
  "leaves_silent s (Pulse_in now r) \<longleftrightarrow> r \<noteq> s"
| "leaves_silent s (Check_in now active) \<longleftrightarrow> s \<in> set active"
| "leaves_silent s (Remove_in r) \<longleftrightarrow> r \<noteq> s"

lemma stays_blind:
  assumes "s \<in> fl_blind F" "leaves_silent s ev"
  shows "s \<in> fl_blind (fst (flat_answer F ev)) \<and> s \<notin> set (snd (flat_answer F ev))"
proof (cases ev)
  case (Check_in now active)
  let ?gone = "dom (fl_ticks F) - set active"
  let ?G = "F\<lparr>fl_ticks := fl_ticks F |` (- ?gone), fl_blind := fl_blind F - ?gone\<rparr>"
  have "s \<in> fl_blind ?G" using assms Check_in by simp
  then show ?thesis
    using flat_scan_facts [of now active ?G] by (auto simp: Check_in check_flatlines_def Let_def)
qed (use assms in \<open>auto simp: update_pulse_def flat_remove_def\<close>)

text \<open>The blindness of a symbol is reported once.  A check reports the watched symbols that have
  ticked, are not yet blind, and have been silent for longer than the threshold; a reported symbol is blind and
  is not reported again, however many pulses of others, removals of others and checks follow, until
  it ticks again or stops being watched.\<close>

theorem blindness_reported_once:
  assumes "s \<in> set (snd (check_flatlines now active F))" "\<forall>ev \<in> set evs. leaves_silent s ev"
  shows "\<forall>(ev, new) \<in> set (run_log flat_answer (fst (check_flatlines now active F)) evs). s \<notin> set new"
proof -
  have "s \<in> fl_blind (fst (check_flatlines now active F))"
    using assms(1) flat_scan_facts by (auto simp: check_flatlines_def Let_def)
  then show ?thesis
    using assms(2)
  proof (induction evs arbitrary: F now active)
    case (Cons ev evs)
    have gen: "\<forall>(ev, new) \<in> set (run_log flat_answer G evs). s \<notin> set new" if "s \<in> fl_blind G" "\<forall>ev \<in> set evs. leaves_silent s ev" for G evs
      using that by (induction evs arbitrary: G) (auto dest: stays_blind)
    show ?case by (rule gen) (use Cons.prems in auto)
  qed simp
qed

theorem blindness_reported_once_witness:
  "\<forall>(ev, new) \<in> set (run_log flat_answer (fst (check_flatlines 30 [''A'', ''B''] \<lparr>fl_threshold = 15, fl_ticks = [''A'' \<mapsto> 1], fl_blind = {}\<rparr>))
     [Pulse_in 31 ''B'', Check_in 60 [''A'', ''B'']]). ''A'' \<notin> set new"
  by (rule blindness_reported_once) (simp_all add: check_flatlines_def restrict_map_def)

text \<open>A frozen outbox is never thawed by the sentinel, although it reports the bridge as recovered.\<close>

lemma freeze_is_final: "\<not> bs_live S \<Longrightarrow> \<not> bs_live (fold sentinel_poll answers S)"
  by (induction answers arbitrary: S) (auto simp: sentinel_poll_def Let_def split: option.splits)

section \<open>The firewall fails every intent\<close>

text \<open>Three evaluated intents blind the operator, whatever the market did.  Every evaluation counts
  as a failure: with as many failures missing as ticks come, and an intent due for each, the last
  tick starts a quarantine of four hours, and the intents that were waiting behind keep waiting.\<close>

theorem third_intent_blacks_out:
  assumes "\<not> fw_active W" "fw_failures W = 3 - int (length ticks)" "ticks \<noteq> []" "length ticks \<le> length (fw_pending W)"
    "\<forall>t \<in> set ticks. \<forall>p \<in> set (fw_pending W). snd p \<le> snd t"
  defines "W' \<equiv> fold (\<lambda>(price, ts). firewall_tick price ts) ticks W"
  shows "fw_active W' \<and> fw_until W' = snd (last ticks) + 14400 \<and> fw_pending W' = drop (length ticks) (fw_pending W)"
  using assms(1-5) unfolding W'_def
proof (induction ticks arbitrary: W)
  case (Cons t ticks)
  obtain price ts where t: "t = (price, ts)" by (cases t)
  obtain s v rest where p: "fw_pending W = (s, v) # rest" using Cons.prems(4) by (cases "fw_pending W") auto
  then have due: "v \<le> ts" using Cons.prems(5) t by simp
  show ?case
  proof (cases "ticks = []")
    case True
    then show ?thesis
      using Cons.prems(1,2) due
      by (simp add: t p firewall_tick_def evaluate_reality_def check_alpha_decay_def tilt_threshold_def trigger_blackout_def
          quarantine_duration_def Let_def)
  next
    case False
    then have "0 < length ticks" by simp
    let ?W = "W\<lparr>fw_pending := rest, fw_failures := fw_failures W + 1\<rparr>"
    have "fw_failures W + 1 < 3" using Cons.prems(2) \<open>0 < length ticks\<close> by simp
    then have st: "firewall_tick price ts W = ?W"
      using Cons.prems(1) due
      by (simp add: p firewall_tick_def evaluate_reality_def check_alpha_decay_def tilt_threshold_def Let_def)
    show ?thesis
      using Cons.IH [of ?W] Cons.prems False by (simp add: t st p)
  qed
qed simp

theorem third_intent_blacks_out_witness:
  "fw_active (fold (\<lambda>(price, ts). firewall_tick price ts) [(10, 5), (10, 6), (10, 7)]
     (fold (\<lambda>s. register_fw_intent s 0) [''A'', ''B'', ''C''] (firewall_init 0)))"
  using third_intent_blacks_out [of "fold (\<lambda>s. register_fw_intent s 0) [''A'', ''B'', ''C''] (firewall_init 0)" "[(10, 5), (10, 6), (10, 7)]"]
  by (simp add: register_fw_intent_def firewall_init_def biological_offset_def)

text \<open>While the quarantine lasts nothing is registered and nothing evaluated.\<close>

lemma quarantine_holds: "fw_active W \<Longrightarrow> \<forall>t \<in> set ticks. snd t < fw_until W \<Longrightarrow> fold (\<lambda>(price, ts). firewall_tick price ts) ticks W = W"
  by (induction ticks) (auto simp: firewall_tick_def)

section \<open>The performance window\<close>

text \<open>The operator is blinded for fewer than three hits in the last ten.  After any results the window
  is the last ten, and the mark is set exactly when there are ten and fewer than three of them won.\<close>

theorem compromised_iff_last_ten:
  "fold update_tilt rs \<lparr>tw_results = [], tw_compromised = False\<rparr>
    = \<lparr>tw_results = lastn 10 rs, tw_compromised = (10 \<le> length rs \<and> sum_list (lastn 10 rs) < 3)\<rparr>"
proof (induction rs rule: rev_induct)
  case (snoc r rs)
  have one: "(real_of_int k / 10 < 3 / 10) = (k < 3)" for k by linarith
  have small: "(real_of_int (k + j) / 10 < 3 / 10) = (k + j < 3)" for k j by (rule one)
  show ?case
  proof (cases "10 \<le> length rs")
    case True
    then have "lastn 10 (rs @ [r]) = tl (lastn 10 rs) @ [r]"
      using lastn_lastn_append [of 10 rs "[r]"] lastn_snoc_full [of "lastn 10 rs" 10 r] by simp
    moreover have "tl (lastn 10 rs @ [r]) = tl (lastn 10 rs) @ [r]" using True by (cases "lastn 10 rs") (auto simp: lastn_def)
    ultimately show ?thesis using True snoc small by (simp add: update_tilt_def Let_def del: of_int_add)
  next
    case False
    then show ?thesis using snoc one by (simp add: update_tilt_def Let_def del: of_int_add)
  qed
qed simp

section \<open>The buffer and the flush\<close>

definition bought :: "symbol \<Rightarrow> raw_tick list \<Rightarrow> flt" where
  "bought s ts = sum_list (map rt_volume (filter (\<lambda>t. rt_symbol t = s \<and> rt_buy t) ts))"

definition sold :: "symbol \<Rightarrow> raw_tick list \<Rightarrow> flt" where
  "sold s ts = sum_list (map rt_volume (filter (\<lambda>t. rt_symbol t = s \<and> \<not> rt_buy t) ts))"

definition latest :: "symbol \<Rightarrow> raw_tick list \<Rightarrow> raw_tick" where
  "latest s ts = last (filter (\<lambda>t. rt_symbol t = s) ts)"

definition summary :: "symbol \<Rightarrow> raw_tick list \<Rightarrow> directional" where
  "summary s ts = \<lparr>dt_price = rt_price (latest s ts), dt_buy = bought s ts, dt_sell = sold s ts, dt_ts = rt_ts (latest s ts)\<rparr>"

lemma summary_snoc_other: "rt_symbol t \<noteq> s \<Longrightarrow> summary s (ts @ [t]) = summary s ts"
  by (simp add: summary_def bought_def sold_def latest_def)

lemma summary_snoc_same: "rt_symbol t = s \<Longrightarrow> summary s (ts @ [t]) =
    \<lparr>dt_price = rt_price t, dt_buy = (if rt_buy t then bought s ts + rt_volume t else bought s ts),
     dt_sell = (if rt_buy t then sold s ts else sold s ts + rt_volume t), dt_ts = rt_ts t\<rparr>"
  by (simp add: summary_def bought_def sold_def latest_def)

lemma nothing_traded: "s \<notin> rt_symbol ` set ts \<Longrightarrow> bought s ts = 0 \<and> sold s ts = 0"
  by (induction ts) (auto simp: bought_def sold_def)

definition buffer_of :: "raw_tick list \<Rightarrow> directional_buffer \<Rightarrow> bool" where
  "buffer_of ts B \<longleftrightarrow> distinct (map fst (db_buffer B)) \<and> fst ` set (db_buffer B) = rt_symbol ` set ts
     \<and> (\<forall>s \<in> rt_symbol ` set ts. map_of (db_buffer B) s = Some (summary s ts))"

lemma buffer_of_snoc:
  assumes "buffer_of ts B" and room: "card (rt_symbol ` set (ts @ [t])) \<le> db_critical B"
  shows "buffer_of (ts @ [t]) (ingest_immediate (Some t) B)"
proof -
  have d: "distinct (map fst (db_buffer B))" and k: "fst ` set (db_buffer B) = rt_symbol ` set ts"
    and v: "\<forall>s \<in> rt_symbol ` set ts. map_of (db_buffer B) s = Some (summary s ts)"
    using assms(1) by (auto simp: buffer_of_def)
  have n: "length (db_buffer B) = card (rt_symbol ` set ts)"
    using distinct_card [OF d] k by simp
  have "ingest_immediate (Some t) B = B\<lparr>db_buffer := AList.update (rt_symbol t) (summary (rt_symbol t) (ts @ [t])) (db_buffer B),
      db_conflated := db_conflated (ingest_immediate (Some t) B)\<rparr>"
  proof (cases "rt_symbol t \<in> rt_symbol ` set ts")
    case True
    then have "map_of (db_buffer B) (rt_symbol t) = Some (summary (rt_symbol t) ts)" using v by blast
    then show ?thesis by (simp add: ingest_immediate_def summary_snoc_same) (simp add: summary_def)
  next
    case False
    then have "map_of (db_buffer B) (rt_symbol t) = None" using k by (simp add: map_of_eq_None_iff)
    moreover have "length (db_buffer B) < db_critical B" using room n False by simp
    ultimately show ?thesis using nothing_traded [OF False] by (simp add: ingest_immediate_def summary_snoc_same)
  qed
  then have b: "db_buffer (ingest_immediate (Some t) B) = AList.update (rt_symbol t) (summary (rt_symbol t) (ts @ [t])) (db_buffer B)"
    by (metis directional_buffer.select_convs(2) directional_buffer.surjective directional_buffer.update_convs(2,3))
  show ?thesis
    using d k v unfolding buffer_of_def b
    by (auto simp: update_conv' distinct_update dom_update summary_snoc_other simp flip: dom_map_of_conv_image_fst)
qed

lemma buffer_of_fold:
  "card (rt_symbol ` set ts) \<le> db_critical B \<Longrightarrow> db_buffer B = [] \<Longrightarrow>
    buffer_of ts (fold (\<lambda>t. ingest_immediate (Some t)) ts B)
    \<and> db_critical (fold (\<lambda>t. ingest_immediate (Some t)) ts B) = db_critical B"
proof (induction ts rule: rev_induct)
  case (snoc t ts)
  let ?C = "fold (\<lambda>t. ingest_immediate (Some t)) ts B"
  have "card (rt_symbol ` set ts) \<le> card (rt_symbol ` set (ts @ [t]))" by (intro card_mono) auto
  then have i: "buffer_of ts ?C" "db_critical ?C = db_critical B" using snoc by auto
  have "buffer_of (ts @ [t]) (ingest_immediate (Some t) ?C)" using buffer_of_snoc [OF i(1)] snoc.prems(1) i(2) by simp
  moreover have "db_critical (ingest_immediate (Some t) ?C) = db_critical ?C"
    by (auto simp: ingest_immediate_def split: option.splits)
  ultimately show ?case using i by simp
qed (simp add: buffer_of_def)

lemma flushed_of: "filter (\<lambda>m. mt_symbol m = s) (flush_entry e) = (if fst e = s then flush_entry e else [])"
  by (auto simp: flush_entry_def split: prod.splits)

lemma flushed_entries:
  "distinct (map fst b) \<Longrightarrow> filter (\<lambda>m. mt_symbol m = s) (concat (map flush_entry b))
    = (case map_of b s of None \<Rightarrow> [] | Some d \<Rightarrow> flush_entry (s, d))"
proof (induction b)
  case (Cons e b)
  show ?case
  proof (cases "fst e = s")
    case True
    then have "map_of b s = None" using Cons.prems by (auto simp: map_of_eq_None_iff)
    then show ?thesis using True Cons by (cases e) (simp add: flushed_of)
  next
    case False
    then show ?thesis using Cons by (cases e) (simp add: flushed_of)
  qed
qed simp

text \<open>Conflation loses no volume.  However many ticks are conflated, as long as they are of no more
  symbols than the buffer holds, the flush has for each symbol at most one tick per side, with the whole
  volume of that side, the last price and the last time stamp, and leaves the buffer empty.\<close>

theorem flush_conserves:
  defines "run ts B \<equiv> fold (\<lambda>t. ingest_immediate (Some t)) ts B"
  assumes "db_buffer B = []" and "card (rt_symbol ` set ts) \<le> db_critical B"
  shows "filter (\<lambda>m. mt_symbol m = s) (snd (flush_buffer (run ts B)))
      = (if 0 < bought s ts then [\<lparr>mt_symbol = s, mt_price = rt_price (latest s ts), mt_volume = bought s ts, mt_side = ''Buy'', mt_ts = rt_ts (latest s ts)\<rparr>] else [])
      @ (if 0 < sold s ts then [\<lparr>mt_symbol = s, mt_price = rt_price (latest s ts), mt_volume = sold s ts, mt_side = ''Sell'', mt_ts = rt_ts (latest s ts)\<rparr>] else [])
    \<and> db_buffer (fst (flush_buffer (run ts B))) = []"
proof -
  have b: "buffer_of ts (run ts B)" using buffer_of_fold [OF assms(3) assms(2)] by (simp add: run_def)
  have f: "snd (flush_buffer (run ts B)) = concat (map flush_entry (db_buffer (run ts B)))" by (simp add: flush_buffer_def)
  have "filter (\<lambda>m. mt_symbol m = s) (snd (flush_buffer (run ts B)))
      = (case map_of (db_buffer (run ts B)) s of None \<Rightarrow> [] | Some d \<Rightarrow> flush_entry (s, d))"
    unfolding f using b by (intro flushed_entries) (simp add: buffer_of_def)
  also have "\<dots> = flush_entry (s, summary s ts)"
  proof (cases "s \<in> rt_symbol ` set ts")
    case True
    then have "map_of (db_buffer (run ts B)) s = Some (summary s ts)" using b unfolding buffer_of_def by blast
    then show ?thesis by simp
  next
    case False
    then have "map_of (db_buffer (run ts B)) s = None" using b by (simp add: buffer_of_def map_of_eq_None_iff)
    then show ?thesis using nothing_traded [OF False] by (simp add: flush_entry_def summary_def)
  qed
  finally show ?thesis by (simp add: flush_entry_def summary_def flush_buffer_def)
qed

theorem flush_conserves_witness:
  "snd (flush_buffer (fold (\<lambda>t. ingest_immediate (Some t))
      [\<lparr>rt_symbol = ''A'', rt_price = 5, rt_volume = 2, rt_ts = 1, rt_buy = True\<rparr>,
       \<lparr>rt_symbol = ''A'', rt_price = 6, rt_volume = 3, rt_ts = 2, rt_buy = True\<rparr>]
      \<lparr>db_critical = 1, db_buffer = [], db_conflated = 0\<rparr>))
    = [\<lparr>mt_symbol = ''A'', mt_price = 6, mt_volume = 5, mt_side = ''Buy'', mt_ts = 2\<rparr>]"
  using flush_conserves [where s = "''A''" and B = "\<lparr>db_critical = 1, db_buffer = [], db_conflated = 0\<rparr>"
    and ts = "[\<lparr>rt_symbol = ''A'', rt_price = 5, rt_volume = 2, rt_ts = 1, rt_buy = True\<rparr>,
       \<lparr>rt_symbol = ''A'', rt_price = 6, rt_volume = 3, rt_ts = 2, rt_buy = True\<rparr>]"]
  by (simp add: bought_def sold_def latest_def ingest_immediate_def flush_buffer_def flush_entry_def)

section \<open>Fills are backed by the tape\<close>

record sim_update =
  su_cur :: flt
  su_prev :: flt
  su_price :: flt
  su_vol :: flt

definition sim_step :: "sim_update \<Rightarrow> sim_order \<Rightarrow> sim_order" where
  "sim_step u = process_update (su_cur u) (su_prev u) (su_price u) (su_vol u)"

text \<open>The volume an update can fill at a price, and whether it trades through the price.\<close>

definition backing :: "flt \<Rightarrow> sim_update \<Rightarrow> flt" where
  "backing p u = (if su_price u = p then trade_impact (su_cur u) (su_prev u) (su_vol u) else 0)"

definition through :: "flt \<Rightarrow> string \<Rightarrow> sim_update \<Rightarrow> bool" where
  "through p side u \<longleftrightarrow> side = ''BUY'' \<and> su_price u < p \<or> side = ''SELL'' \<and> p < su_price u"

lemma backing_nonneg: "0 \<le> backing p u"
  by (simp add: backing_def trade_impact_def)

definition sim_ok :: "sim_order \<Rightarrow> bool" where
  "sim_ok ord \<longleftrightarrow> 0 \<le> so_filled ord \<and> so_filled ord \<le> so_volume ord \<and> (so_done ord \<longrightarrow> so_filled ord = so_volume ord)"

lemma burn_queue_ok:
  assumes "sim_ok ord" "0 \<le> impact" "\<not> so_done ord"
  shows "sim_ok (burn_queue impact ord) \<and> so_filled ord \<le> so_filled (burn_queue impact ord)
    \<and> so_filled (burn_queue impact ord) \<le> so_filled ord + impact
    \<and> so_volume (burn_queue impact ord) = so_volume ord \<and> so_price (burn_queue impact ord) = so_price ord
    \<and> so_side (burn_queue impact ord) = so_side ord"
  using assms by (auto simp: burn_queue_def sim_ok_def Let_def min_def)

lemma sim_step_same [simp]:
  "so_volume (sim_step u ord) = so_volume ord" "so_price (sim_step u ord) = so_price ord" "so_side (sim_step u ord) = so_side ord"
  by (simp_all add: sim_step_def process_update_def burn_queue_def Let_def)

lemma sim_step_ok:
  assumes "sim_ok ord"
  shows "sim_ok (sim_step u ord) \<and> (\<not> through (so_price ord) (so_side ord) u \<longrightarrow>
    so_filled (sim_step u ord) \<le> so_filled ord + backing (so_price ord) u)"
  using assms burn_queue_ok [OF assms, of "trade_impact (su_cur u) (su_prev u) (su_vol u)"] backing_nonneg [of "so_price ord" u]
  by (auto simp: sim_step_def process_update_def Let_def sim_ok_def through_def backing_def)

lemma sim_run_ok:
  "sim_ok ord \<Longrightarrow> let end_state = fold sim_step us ord in sim_ok end_state
     \<and> so_volume end_state = so_volume ord \<and> so_price end_state = so_price ord \<and> so_side end_state = so_side ord
     \<and> ((\<exists>u \<in> set us. through (so_price ord) (so_side ord) u)
        \<or> so_filled end_state \<le> so_filled ord + sum_list (map (backing (so_price ord)) us))"
proof (induction us arbitrary: ord)
  case (Cons u us)
  then have one: "sim_ok (sim_step u ord)" by (simp add: sim_step_ok)
  show ?case using Cons.IH [OF one] sim_step_ok [OF Cons.prems, of u]
    by (auto simp: Let_def)
qed simp

text \<open>The simulator never invents a fill.  Over any sequence of book updates a virtual order is filled
  by no less than nothing and no more than its volume, by all of it when it is reported filled, and, unless the
  tape traded through its price, by no more than the trades at its price that really burned displayed
  volume; a trade that the level replenished (an iceberg) fills nothing.\<close>

theorem fill_is_backed:
  fixes volume price l2 :: flt and us :: "sim_update list" and side :: string
  assumes "0 \<le> volume"
  defines "ord \<equiv> fold sim_step us (place_virtual price volume side l2)"
  shows "0 \<le> so_filled ord \<and> so_filled ord \<le> volume \<and> (so_done ord \<longrightarrow> so_filled ord = volume)
    \<and> ((\<exists>u \<in> set us. through price side u) \<or> so_filled ord \<le> sum_list (map (backing price) us))
    \<and> (\<forall>u. su_price u = price \<longrightarrow> su_prev u \<le> su_cur u \<longrightarrow> backing price u = 0)"
proof -
  have "sim_ok (place_virtual price volume side l2)" using assms(1) by (simp add: sim_ok_def place_virtual_def)
  then have "sim_ok ord \<and> so_volume ord = volume
     \<and> ((\<exists>u \<in> set us. through price side u) \<or> so_filled ord \<le> sum_list (map (backing price) us))"
    unfolding ord_def using sim_run_ok [of "place_virtual price volume side l2" us]
    by (simp add: Let_def place_virtual_def)
  then show ?thesis by (auto simp: sim_ok_def backing_def trade_impact_def)
qed

theorem fill_is_backed_witness:
  "so_filled (fold sim_step [\<lparr>su_cur = 4, su_prev = 10, su_price = 100, su_vol = 6\<rparr>] (place_virtual 100 5 ''BUY'' 2)) \<le> 6"
  using fill_is_backed [where volume = 5 and us = "[\<lparr>su_cur = 4, su_prev = 10, su_price = 100, su_vol = 6\<rparr>]" and price = 100 and side = "''BUY''" and ?l2.0 = 2]
  by (simp add: through_def backing_def trade_impact_def)

section \<open>The sector matrix stays in its ranges\<close>

datatype sentry_event = Awakened symbol | Failed symbol | Intent_made symbol | Decayed

fun sentry_step :: "sentry_event \<Rightarrow> sentry \<Rightarrow> sentry" where
  "sentry_step (Awakened s) Y = on_awakening s Y"
| "sentry_step (Failed s) Y = on_awakening_failed s Y"
| "sentry_step (Intent_made s) Y = on_intent_generated s Y"
| "sentry_step Decayed Y = tick_decay Y"

definition sentry_ok :: "sentry \<Rightarrow> bool" where
  "sentry_ok Y \<longleftrightarrow> length (sy_fatigue Y) = length (sy_heat Y) \<and> (\<forall>h \<in> set (sy_heat Y). 0 \<le> h \<and> h \<le> 2)
     \<and> (\<forall>f \<in> set (sy_fatigue Y). 0 \<le> f \<and> f \<le> 50) \<and> (\<forall>i \<in> ran (sy_sector Y). i < length (sy_heat Y))"

lemma set_updated: "\<forall>x \<in> set xs. P x \<Longrightarrow> P y \<Longrightarrow> \<forall>x \<in> set (xs[i := y]). P x"
  using set_update_subset_insert [of xs i y] by blast

lemma takeWhile_shorter: "x \<in> set xs \<Longrightarrow> length (takeWhile (\<lambda>y. y \<noteq> x) xs) < length xs"
  by (induction xs) auto

lemma clip_between: "lo \<le> hi \<Longrightarrow> lo \<le> clip x lo hi \<and> clip x lo hi \<le> hi"
  by (simp add: clip_def)

lemma cooled:
  assumes "0 \<le> h" "h \<le> 2" "0 \<le> f"
  shows "0 \<le> h * ((995 / 1000) / (1 + f * (1 / 10))) \<and> h * ((995 / 1000) / (1 + f * (1 / 10))) \<le> (2 :: real)"
proof -
  have "(995 / 1000) / (1 + f * (1 / 10)) \<le> 1" "0 \<le> (995 / 1000) / (1 + f * (1 / 10))" using assms by (simp_all add: divide_simps)
  then show ?thesis using assms mult_mono [of h 2 "(995 / 1000) / (1 + f * (1 / 10))" 1] by simp
qed

lemma sector_cell:
  "sentry_ok Y \<Longrightarrow> sy_sector Y s = Some i \<Longrightarrow> 0 \<le> sy_heat Y ! i \<and> sy_heat Y ! i \<le> 2 \<and> 0 \<le> sy_fatigue Y ! i \<and> sy_fatigue Y ! i \<le> 50"
  unfolding sentry_ok_def by (metis nth_mem ranI)

lemma sentry_step_ok:
  assumes "sentry_ok Y"
  shows "sentry_ok (sentry_step e Y)"
proof (cases e)
  case Decayed
  have "\<forall>p \<in> set (zip (sy_heat Y) (sy_fatigue Y)). 0 \<le> fst p * ((995 / 1000) / (1 + snd p * (1 / 10)))
      \<and> fst p * ((995 / 1000) / (1 + snd p * (1 / 10))) \<le> 2"
  proof
    fix p assume p: "p \<in> set (zip (sy_heat Y) (sy_fatigue Y))"
    have "fst p \<in> set (sy_heat Y)" using p set_zip_leftD [of "fst p" "snd p"] by simp
    moreover have "snd p \<in> set (sy_fatigue Y)" using p set_zip_rightD [of "fst p" "snd p"] by simp
    ultimately have "0 \<le> fst p" "fst p \<le> 2" "0 \<le> snd p" using assms by (simp_all add: sentry_ok_def)
    then show "0 \<le> fst p * ((995 / 1000) / (1 + snd p * (1 / 10))) \<and> fst p * ((995 / 1000) / (1 + snd p * (1 / 10))) \<le> 2"
      by (rule cooled)
  qed
  then show ?thesis using assms Decayed by (simp add: sentry_ok_def tick_decay_def split_def)
next
  case (Awakened s)
  show ?thesis
  proof (cases "sy_sector Y s")
    case (Some i)
    have "\<forall>x \<in> set ((sy_heat Y)[i := min 2 (sy_heat Y ! i + 4 / 10)]). 0 \<le> x \<and> x \<le> 2"
      by (rule set_updated) (use assms sector_cell [OF assms Some] in \<open>simp_all add: sentry_ok_def\<close>)
    then show ?thesis using assms Awakened Some by (simp add: sentry_ok_def on_awakening_def)
  qed (use assms Awakened in \<open>simp add: on_awakening_def\<close>)
next
  case (Failed s)
  show ?thesis
  proof (cases "sy_sector Y s")
    case (Some i)
    have "\<forall>x \<in> set ((sy_fatigue Y)[i := min 50 (sy_fatigue Y ! i + 1)]). 0 \<le> x \<and> x \<le> 50"
      by (rule set_updated) (use assms sector_cell [OF assms Some] in \<open>simp_all add: sentry_ok_def\<close>)
    then show ?thesis using assms Failed Some by (simp add: sentry_ok_def on_awakening_failed_def)
  qed (use assms Failed in \<open>simp add: on_awakening_failed_def\<close>)
next
  case (Intent_made s)
  show ?thesis
  proof (cases "sy_sector Y s")
    case (Some i)
    have "\<forall>x \<in> set ((sy_fatigue Y)[i := max 0 (sy_fatigue Y ! i - 2)]). 0 \<le> x \<and> x \<le> 50"
      by (rule set_updated) (use assms sector_cell [OF assms Some] in \<open>simp_all add: sentry_ok_def\<close>)
    then show ?thesis using assms Intent_made Some by (simp add: sentry_ok_def on_intent_generated_def)
  qed (use assms Intent_made in \<open>simp add: on_intent_generated_def\<close>)
qed

lemma sentry_init_ok: "sentry_ok (sentry_init symbols config)"
proof -
  let ?named = "sort (remdups (map snd config))"
  have "i < length (if ?named = [] then [''UNKNOWN''] else ?named)" if "i \<in> ran (sy_sector (sentry_init symbols config))" for i
  proof -
    from that obtain s where s: "sy_sector (sentry_init symbols config) s = Some i" by (auto simp: ran_def)
    show ?thesis
    proof (cases "map_of config s")
      case None
      then show ?thesis using s by (auto simp: sentry_init_def Let_def split: if_splits)
    next
      case (Some sec)
      then have "sec \<in> set ?named" by (force dest: map_of_SomeD)
      then have "length (takeWhile (\<lambda>x. x \<noteq> sec) ?named) < length ?named" "?named \<noteq> []"
        using takeWhile_shorter [of sec ?named] by (blast, metis empty_iff empty_set)
      then show ?thesis using s Some by (auto simp: sentry_init_def Let_def split: if_splits)
    qed
  qed
  then show ?thesis by (simp add: sentry_ok_def sentry_init_def Let_def)
qed

text \<open>The sector matrix keeps to its documented ranges.  After any awakenings, failures, intents and
  decays every heat lies in 0..2, every fatigue in 0..50, the confidence in 0..1.5, and the adjusted
  threshold is between a fifth of the base and the base times the top of the fatigue wall.\<close>

theorem sentry_in_range:
  assumes "0 \<le> base"
  shows "let Y = fold sentry_step es (sentry_init symbols config)
    in (\<forall>h \<in> set (sy_heat Y). 0 \<le> h \<and> h \<le> 2) \<and> (\<forall>f \<in> set (sy_fatigue Y). 0 \<le> f \<and> f \<le> 50)
     \<and> 0 \<le> sector_confidence s Y \<and> sector_confidence s Y \<le> 3 / 2
     \<and> base * (2 / 10) \<le> adjusted_threshold s base Y \<and> adjusted_threshold s base Y \<le> base * exp 12"
proof -
  let ?Y = "fold sentry_step es (sentry_init symbols config)"
  have k: "sentry_ok ?Y"
    by (rule fold_invariant [where Q = "\<lambda>_. True"]) (simp_all add: sentry_step_ok sentry_init_ok)
  have "base * (2 / 10) \<le> adjusted_threshold s base ?Y \<and> adjusted_threshold s base ?Y \<le> base * exp 12"
  proof (cases "sy_sector ?Y s")
    case None
    then show ?thesis using assms mult_left_mono [of 1 "exp 12" base] by (simp add: adjusted_threshold_def)
  next
    case (Some i)
    let ?c = "clip (1 - sy_heat ?Y ! i * (8 / 10)) (2 / 10) 1" and ?e = "exp (max 0 (sy_fatigue ?Y ! i - 10) * (3 / 10))"
    have "2 / 10 \<le> ?c" "?c \<le> 1" by (simp_all add: clip_def)
    moreover have "1 \<le> ?e" "?e \<le> exp 12" using sector_cell [OF k Some] by simp_all
    ultimately have "2 / 10 * 1 \<le> ?c * ?e" "?c * ?e \<le> 1 * exp 12" by (intro mult_mono; simp)+
    then have "base * (2 / 10) \<le> base * (?c * ?e)" "base * (?c * ?e) \<le> base * exp 12"
      using assms by (intro mult_left_mono; simp)+
    then show ?thesis using Some by (simp add: adjusted_threshold_def mult.assoc)
  qed
  moreover have "0 \<le> sector_confidence s ?Y \<and> sector_confidence s ?Y \<le> 3 / 2"
    using clip_between [of 0 "3 / 2"] by (simp add: sector_confidence_def split: option.split)
  ultimately show ?thesis using k by (simp add: sentry_ok_def Let_def)
qed

theorem sentry_in_range_witness:
  "adjusted_threshold ''A'' 5 (fold sentry_step [Awakened ''A'', Decayed] (sentry_init [''A''] [(''A'', ''L1'')])) \<le> 5 * exp 12"
  using sentry_in_range [of 5 "[Awakened ''A'', Decayed]" "[''A'']" "[(''A'', ''L1'')]" "''A''"] unfolding Let_def by linarith

end
