(* ===== verification/Ingest_Buffer.thy ===== *)
theory Ingest_Buffer
  imports Interfaces Digits "HOL-Library.Countable"
begin

text \<open>
  The buffer in front of the database (\<open>src/src/infrastructure/database/connection.py\<close>): the queue of
  SQL statements on a Redis server with its worker, sweeper and dead letters, the spill queue and
  file for the time the server is away, their recovery, and the circuit breaker of direct calls.

  The server, the JSON codec, the parser of ISO dates and the database are not the program's: a
  record of calls stands for the server, whose documented effect on the lists is the hypothesis
  \<open>redis_ok\<close>; what a call or a statement answered is an argument of the step that made it.  Every step
  is a stretch between two awaits, so that a list of events is an interleaving of the tasks.
\<close>

section \<open>The server and the codec\<close>

record 'r redis_calls =
  rd_list :: "'r \<Rightarrow> string \<Rightarrow> string list"
  rd_lpush :: "string \<Rightarrow> string \<Rightarrow> 'r \<Rightarrow> 'r"
  rd_lrem :: "string \<Rightarrow> string \<Rightarrow> 'r \<Rightarrow> 'r"
  rd_lmove :: "string \<Rightarrow> string \<Rightarrow> 'r \<Rightarrow> 'r \<times> string option"

text \<open>\<open>LPUSH\<close>, \<open>LREM\<close> with count 1, and \<open>LMOVE\<close> from the left to the right of another list.\<close>

definition redis_ok :: "'r redis_calls \<Rightarrow> bool" where
  "redis_ok C \<longleftrightarrow>
     (\<forall>k x R. rd_list C (rd_lpush C k x R) = (rd_list C R)(k := x # rd_list C R k))
   \<and> (\<forall>k x R. rd_list C (rd_lrem C k x R) = (rd_list C R)(k := remove1 x (rd_list C R k)))
   \<and> (\<forall>a b R. a \<noteq> b \<longrightarrow> (case rd_list C R a of
         [] \<Rightarrow> rd_lmove C a b R = (R, None)
       | x # xs \<Rightarrow> snd (rd_lmove C a b R) = Some x
           \<and> rd_list C (fst (rd_lmove C a b R)) = (rd_list C R)(a := xs, b := rd_list C R b @ [x])))"

datatype 'v param = Str_param string | Raw_param 'v
datatype 'v sql_params = Dict_params "(string \<times> 'v param) list" | Plain_params "'v option"

record 'v sql_task =
  tk_query :: string
  tk_params :: "'v sql_params"
  tk_ts :: time

text \<open>What a text decodes to: an object with the keys of a task, another value, or nothing.\<close>

datatype 'v loaded = Loaded "'v sql_task" | Other_json | Torn_json

record 'v codec =
  cd_dumps :: "'v sql_task \<Rightarrow> string"
  cd_loads :: "string \<Rightarrow> 'v loaded"
  cd_iso :: "string \<Rightarrow> 'v option"

definition blank_to_T :: "string \<Rightarrow> string" where
  "blank_to_T s = map (\<lambda>c. if c = CHR '' '' then CHR ''T'' else c) s"

text \<open>A text of 19 letters or more that reads as a date is handed over as one.\<close>

definition convert_param :: "'v codec \<Rightarrow> 'v param \<Rightarrow> 'v param" where
  "convert_param cd v = (case v of
       Str_param s \<Rightarrow> if 19 \<le> length s then (case cd_iso cd (blank_to_T s) of Some d \<Rightarrow> Raw_param d | None \<Rightarrow> v) else v
     | Raw_param _ \<Rightarrow> v)"

definition convert_params :: "'v codec \<Rightarrow> 'v sql_params \<Rightarrow> 'v sql_params" where
  "convert_params cd ps = (case ps of
       Dict_params kvs \<Rightarrow> Dict_params (map (\<lambda>(k, v). (k, convert_param cd v)) kvs)
     | Plain_params v \<Rightarrow> Plain_params v)"

section \<open>The state\<close>

definition queue_key :: string where "queue_key = ''gektor:ingest:queue''"
definition processing_key :: string where "processing_key = ''gektor:ingest:processing''"
definition dlq_key :: string where "dlq_key = ''gektor:ingest:dlq''"
definition spill_limit :: nat where "spill_limit = 100000"
definition spill_batch_size :: nat where "spill_batch_size = 500"

text \<open>What the worker holds: nothing, a text it took, one whose statement is committed, one that failed.\<close>

datatype worker_hand = Empty_hand | Took string | Wrote string | Failed_text string

text \<open>
  \<open>ib_temp\<close> is the file under its name for the recovery, \<open>ib_drain\<close> the lines of it the sentinel has
  still to read, \<open>ib_swept\<close> the rest of the sweeper's snapshot, and \<open>ib_exec\<close> the statements the database
  has committed.
\<close>

record ('r, 'v) ingest_buffer =
  ib_redis :: 'r
  ib_up :: bool
  ib_running :: bool
  ib_worker :: bool
  ib_sweeper :: bool
  ib_spill :: "string list"
  ib_batch :: "string list"
  ib_file :: "string list"
  ib_temp :: "string list option"
  ib_drain :: "string list option"
  ib_swept :: "string list"
  ib_hand :: worker_hand
  ib_exec :: "(string \<times> 'v sql_params) list"

definition ingest_init :: "'r \<Rightarrow> ('r, 'v) ingest_buffer" where
  "ingest_init R = \<lparr>ib_redis = R, ib_up = False, ib_running = False, ib_worker = False, ib_sweeper = False, ib_spill = [],
     ib_batch = [], ib_file = [], ib_temp = None, ib_drain = None, ib_swept = [], ib_hand = Empty_hand, ib_exec = []\<rparr>"

section \<open>The operations\<close>

text \<open>A call to the server answers, or raises, and then the server may have carried it out.\<close>

datatype call_answer = Answered | Raised bool

definition reached :: "call_answer \<Rightarrow> bool" where
  "reached a \<longleftrightarrow> (case a of Answered \<Rightarrow> True | Raised b \<Rightarrow> b)"

definition redis_memory_ok :: "(int \<times> int) option \<Rightarrow> bool" where
  "redis_memory_ok info = (case info of
       None \<Rightarrow> False
     | Some (used, most) \<Rightarrow> \<not> (0 < most \<and> 8 / 10 < real_of_int used / real_of_int most))"

text \<open>\<open>put_nowait\<close> on the spill queue, and whether it did not raise.\<close>

definition spill_put :: "string \<Rightarrow> ('r, 'v) ingest_buffer \<Rightarrow> ('r, 'v) ingest_buffer \<times> bool" where
  "spill_put x B = (if length (ib_spill B) < spill_limit then (B\<lparr>ib_spill := ib_spill B @ [x]\<rparr>, True) else (B, False))"

definition on_redis :: "('r \<Rightarrow> 'r) \<Rightarrow> call_answer \<Rightarrow> ('r, 'v) ingest_buffer \<Rightarrow> ('r, 'v) ingest_buffer" where
  "on_redis f a B = (if reached a then B\<lparr>ib_redis := f (ib_redis B)\<rparr> else B)"

definition push_query :: "'r redis_calls \<Rightarrow> 'v codec \<Rightarrow> 'v sql_task \<Rightarrow> (int \<times> int) option \<Rightarrow> call_answer \<Rightarrow> ('r, 'v) ingest_buffer \<Rightarrow> ('r, 'v) ingest_buffer" where
  "push_query C cd t info a B =
     (let x = cd_dumps cd t
      in if ib_up B \<and> redis_memory_ok info then
           (let B1 = on_redis (rd_lpush C queue_key x) a B
            in if a = Answered then B1 else fst (spill_put x B1))
         else fst (spill_put x B))"

definition recover_stranded :: "'r redis_calls \<Rightarrow> 'r \<Rightarrow> 'r" where
  "recover_stranded C R = fold (\<lambda>x R. rd_lpush C queue_key x (rd_lrem C processing_key x R)) (rd_list C R processing_key) R"

text \<open>The start with the server's answer to the version check and to the recovery's pipeline.\<close>

definition buffer_start :: "'r redis_calls \<Rightarrow> bool \<Rightarrow> call_answer \<Rightarrow> ('r, 'v) ingest_buffer \<Rightarrow> ('r, 'v) ingest_buffer" where
  "buffer_start C up a B =
     (let B1 = B\<lparr>ib_up := up\<rparr>
      in if ib_running B then B1
         else let B2 = B1\<lparr>ib_running := True\<rparr>
              in if up then (on_redis (recover_stranded C) a B2)\<lparr>ib_worker := True, ib_sweeper := True\<rparr> else B2)"

text \<open>The daemon takes a batch, and a thread appends it; an error of the disk is logged inside.\<close>

definition daemon_take :: "('r, 'v) ingest_buffer \<Rightarrow> ('r, 'v) ingest_buffer" where
  "daemon_take B = (if ib_running B \<and> ib_batch B = [] then
       B\<lparr>ib_batch := take spill_batch_size (ib_spill B), ib_spill := drop spill_batch_size (ib_spill B)\<rparr> else B)"

definition daemon_write :: "bool \<Rightarrow> ('r, 'v) ingest_buffer \<Rightarrow> ('r, 'v) ingest_buffer" where
  "daemon_write ok B = B\<lparr>ib_file := (if ok then ib_file B @ ib_batch B else ib_file B), ib_batch := []\<rparr>"

text \<open>
  The worker.  A text that is no task raises before the database is asked and stays where the move
  put it; then the server counts as away.
\<close>

definition worker_take :: "'r redis_calls \<Rightarrow> 'v codec \<Rightarrow> call_answer \<Rightarrow> ('r, 'v) ingest_buffer \<Rightarrow> ('r, 'v) ingest_buffer" where
  "worker_take C cd a B =
     (if \<not> (ib_running B \<and> ib_worker B \<and> ib_hand B = Empty_hand) then B
      else
        let B1 = on_redis (\<lambda>R. fst (rd_lmove C queue_key processing_key R)) a B
        in if a \<noteq> Answered then B1\<lparr>ib_up := False\<rparr>
           else (case snd (rd_lmove C queue_key processing_key (ib_redis B)) of
                   None \<Rightarrow> B1
                 | Some [] \<Rightarrow> B1
                 | Some x \<Rightarrow> (case cd_loads cd x of
                      Loaded _ \<Rightarrow> B1\<lparr>ib_hand := Took x\<rparr>
                    | _ \<Rightarrow> B1\<lparr>ib_up := False\<rparr>)))"

text \<open>The statement and its commit: done, done but the answer was lost, or refused.\<close>

datatype db_answer = Committed | Commit_lost | Refused_stmt

definition log_task :: "'v codec \<Rightarrow> string \<Rightarrow> db_answer \<Rightarrow> ('r, 'v) ingest_buffer \<Rightarrow> ('r, 'v) ingest_buffer" where
  "log_task cd x a B = (case cd_loads cd x of
       Loaded t \<Rightarrow> if a = Refused_stmt then B else B\<lparr>ib_exec := ib_exec B @ [(tk_query t, convert_params cd (tk_params t))]\<rparr>
     | _ \<Rightarrow> B)"

definition worker_exec :: "'v codec \<Rightarrow> db_answer \<Rightarrow> ('r, 'v) ingest_buffer \<Rightarrow> ('r, 'v) ingest_buffer" where
  "worker_exec cd a B = (case ib_hand B of
       Took x \<Rightarrow> (log_task cd x a B)\<lparr>ib_hand := (if a = Committed then Wrote x else Failed_text x)\<rparr>
     | _ \<Rightarrow> B)"

text \<open>A removal that raises after the commit goes to the dead letters as well.\<close>

definition worker_ack :: "'r redis_calls \<Rightarrow> call_answer \<Rightarrow> ('r, 'v) ingest_buffer \<Rightarrow> ('r, 'v) ingest_buffer" where
  "worker_ack C a B = (case ib_hand B of
       Wrote x \<Rightarrow> (on_redis (rd_lrem C processing_key x) a B)\<lparr>ib_hand := (if a = Answered then Empty_hand else Failed_text x)\<rparr>
     | Failed_text x \<Rightarrow>
         (let B1 = (on_redis (\<lambda>R. rd_lpush C dlq_key x (rd_lrem C processing_key x R)) a B)\<lparr>ib_hand := Empty_hand\<rparr>
          in if a = Answered then B1 else B1\<lparr>ib_up := False\<rparr>)
     | _ \<Rightarrow> B)"

text \<open>The sweeper: its snapshot of the list in processing, then one text after the other.\<close>

definition sweep_begin :: "'r redis_calls \<Rightarrow> call_answer \<Rightarrow> ('r, 'v) ingest_buffer \<Rightarrow> ('r, 'v) ingest_buffer" where
  "sweep_begin C a B =
     (if ib_running B \<and> ib_sweeper B \<and> ib_up B \<and> ib_swept B = [] \<and> a = Answered
      then B\<lparr>ib_swept := rd_list C (ib_redis B) processing_key\<rparr> else B)"

definition sweep_next :: "'r redis_calls \<Rightarrow> 'v codec \<Rightarrow> time \<Rightarrow> call_answer \<Rightarrow> ('r, 'v) ingest_buffer \<Rightarrow> ('r, 'v) ingest_buffer" where
  "sweep_next C cd now a B = (case ib_swept B of
       [] \<Rightarrow> B
     | x # xs \<Rightarrow>
         let go = (if a = Answered then xs else [])
         in case cd_loads cd x of
              Loaded t \<Rightarrow>
                if 60 < now - tk_ts t
                then (on_redis (\<lambda>R. rd_lpush C queue_key (cd_dumps cd (t\<lparr>tk_ts := now\<rparr>)) (rd_lrem C processing_key x R)) a B)\<lparr>ib_swept := go\<rparr>
                else B\<lparr>ib_swept := xs\<rparr>
            | Torn_json \<Rightarrow> (on_redis (rd_lrem C processing_key x) a B)\<lparr>ib_swept := go\<rparr>
            | Other_json \<Rightarrow> B\<lparr>ib_swept := []\<rparr>)"

text \<open>The sentinel of the spill file: its round, one line, the end, and the way out of an exception.\<close>

definition drain_begin :: "bool \<Rightarrow> (int \<times> int) option \<Rightarrow> ('r, 'v) ingest_buffer \<Rightarrow> ('r, 'v) ingest_buffer" where
  "drain_begin ping info B =
     (if \<not> ib_running B \<or> ib_drain B \<noteq> None \<or> ib_file B = [] then B
      else if \<not> ib_up B \<and> \<not> ping then B
      else
        let B1 = (if ib_up B then B else B\<lparr>ib_up := True, ib_worker := True\<rparr>)
        in if \<not> redis_memory_ok info then B1
           else B1\<lparr>ib_temp := Some (ib_file B), ib_drain := Some (ib_file B), ib_file := []\<rparr>)"

text \<open>The recovered file takes the place of the spill file, with what was appended there meanwhile.\<close>

definition drain_fail :: "('r, 'v) ingest_buffer \<Rightarrow> ('r, 'v) ingest_buffer" where
  "drain_fail B = (case ib_temp B of
       None \<Rightarrow> B\<lparr>ib_drain := None\<rparr>
     | Some xs \<Rightarrow> B\<lparr>ib_file := xs, ib_temp := None, ib_drain := None\<rparr>)"

definition process_direct :: "'v codec \<Rightarrow> string \<Rightarrow> db_answer \<Rightarrow> ('r, 'v) ingest_buffer \<Rightarrow> ('r, 'v) ingest_buffer \<times> bool" where
  "process_direct cd x a B = (case cd_loads cd x of
       Torn_json \<Rightarrow> (B, True)
     | Other_json \<Rightarrow> spill_put x B
     | Loaded _ \<Rightarrow> if a = Committed then (log_task cd x a B, True) else spill_put x (log_task cd x a B))"

definition drain_line :: "'r redis_calls \<Rightarrow> 'v codec \<Rightarrow> (int \<times> int) option \<Rightarrow> call_answer \<Rightarrow> db_answer \<Rightarrow> ('r, 'v) ingest_buffer \<Rightarrow> ('r, 'v) ingest_buffer" where
  "drain_line C cd info a d B = (case ib_drain B of
       None \<Rightarrow> B
     | Some [] \<Rightarrow> B\<lparr>ib_temp := None, ib_drain := None\<rparr>
     | Some (line # rest) \<Rightarrow>
         let x = strip line; B1 = B\<lparr>ib_drain := Some rest\<rparr>
         in if x = [] \<or> cd_loads cd x = Torn_json then B1
            else if ib_up B \<and> redis_memory_ok info then
              (let B2 = on_redis (rd_lpush C queue_key x) a B1 in if a = Answered then B2 else drain_fail B2)
            else (case process_direct cd x d B1 of (B2, ok) \<Rightarrow> if ok then B2 else drain_fail B2))"

text \<open>
  A graceful stop cancels the tasks; a batch that is with its thread is still written, the queue in
  memory is not.  A crash leaves of the last batch whatever lines the disk has.
\<close>

definition end_process :: "string list \<Rightarrow> ('r, 'v) ingest_buffer \<Rightarrow> ('r, 'v) ingest_buffer" where
  "end_process left B = B\<lparr>ib_up := False, ib_running := False, ib_worker := False, ib_sweeper := False, ib_spill := [],
     ib_batch := [], ib_file := ib_file B @ left, ib_drain := None, ib_swept := [], ib_hand := Empty_hand\<rparr>"

definition buffer_stop :: "('r, 'v) ingest_buffer \<Rightarrow> ('r, 'v) ingest_buffer" where
  "buffer_stop B = end_process (ib_batch B) B"

datatype 'v ingest_event =
    Ib_start bool call_answer
  | Ib_push "'v sql_task" "(int \<times> int) option" call_answer
  | Ib_spill
  | Ib_write bool
  | Ib_take call_answer
  | Ib_exec db_answer
  | Ib_ack call_answer
  | Ib_snapshot call_answer
  | Ib_sweep time call_answer
  | Ib_drain bool "(int \<times> int) option"
  | Ib_line "(int \<times> int) option" call_answer db_answer
  | Ib_stop
  | Ib_crash "string list"

fun ingest_step :: "'r redis_calls \<Rightarrow> 'v codec \<Rightarrow> 'v ingest_event \<Rightarrow> ('r, 'v) ingest_buffer \<Rightarrow> ('r, 'v) ingest_buffer" where
  "ingest_step C cd (Ib_start up a) = buffer_start C up a"
| "ingest_step C cd (Ib_push t info a) = push_query C cd t info a"
| "ingest_step C cd Ib_spill = daemon_take"
| "ingest_step C cd (Ib_write ok) = daemon_write ok"
| "ingest_step C cd (Ib_take a) = worker_take C cd a"
| "ingest_step C cd (Ib_exec a) = worker_exec cd a"
| "ingest_step C cd (Ib_ack a) = worker_ack C a"
| "ingest_step C cd (Ib_snapshot a) = sweep_begin C a"
| "ingest_step C cd (Ib_sweep now a) = sweep_next C cd now a"
| "ingest_step C cd (Ib_drain ping info) = drain_begin ping info"
| "ingest_step C cd (Ib_line info a d) = drain_line C cd info a d"
| "ingest_step C cd Ib_stop = buffer_stop"
| "ingest_step C cd (Ib_crash left) = end_process left"

section \<open>What the server has is served at least once\<close>

text \<open>The codec reads back the query and the parameters it wrote, up to the time stamp's rounding.\<close>

definition codec_ok :: "'v codec \<Rightarrow> bool" where
  "codec_ok cd \<longleftrightarrow> (\<forall>t. (\<exists>ts. cd_loads cd (cd_dumps cd t) = Loaded (t\<lparr>tk_ts := ts\<rparr>)) \<and> strip (cd_dumps cd t) = cd_dumps cd t)
     \<and> cd_loads cd [] = Torn_json"

type_synonym 'v job = "string \<times> 'v sql_params"

definition job_of :: "'v codec \<Rightarrow> string \<Rightarrow> 'v job option" where
  "job_of cd x = (case cd_loads cd x of Loaded t \<Rightarrow> Some (tk_query t, tk_params t) | _ \<Rightarrow> None)"

definition server_keys :: "string set" where
  "server_keys = {queue_key, processing_key, dlq_key}"

definition server_jobs :: "'r redis_calls \<Rightarrow> 'v codec \<Rightarrow> 'r \<Rightarrow> 'v job set" where
  "server_jobs C cd R = {j. \<exists>k \<in> server_keys. \<exists>x \<in> set (rd_list C R k). job_of cd x = Some j}"

definition done_jobs :: "'v codec \<Rightarrow> ('r, 'v) ingest_buffer \<Rightarrow> 'v job set" where
  "done_jobs cd B = {j. (fst j, convert_params cd (snd j)) \<in> set (ib_exec B)}"

definition kept_jobs :: "'r redis_calls \<Rightarrow> 'v codec \<Rightarrow> ('r, 'v) ingest_buffer \<Rightarrow> 'v job set" where
  "kept_jobs C cd B = server_jobs C cd (ib_redis B) \<union> done_jobs cd B"

definition hand_ok :: "'v codec \<Rightarrow> ('r, 'v) ingest_buffer \<Rightarrow> bool" where
  "hand_ok cd B \<longleftrightarrow> (\<forall>x j. ib_hand B = Wrote x \<longrightarrow> job_of cd x = Some j \<longrightarrow> j \<in> done_jobs cd B)"

lemma job_dumped: "codec_ok cd \<Longrightarrow> job_of cd (cd_dumps cd t) = Some (tk_query t, tk_params t)"
proof -
  assume "codec_ok cd"
  then obtain ts where "cd_loads cd (cd_dumps cd t) = Loaded (t\<lparr>tk_ts := ts\<rparr>)" unfolding codec_ok_def by blast
  then show ?thesis by (simp add: job_of_def)
qed

lemma keys_distinct [simp]: "queue_key \<noteq> processing_key" "processing_key \<noteq> queue_key" "dlq_key \<noteq> processing_key"
    "processing_key \<noteq> dlq_key" "queue_key \<noteq> dlq_key" "dlq_key \<noteq> queue_key"
  by (simp_all add: queue_key_def processing_key_def dlq_key_def)

lemma keys_in [simp]: "queue_key \<in> server_keys" "processing_key \<in> server_keys" "dlq_key \<in> server_keys"
  by (simp_all add: server_keys_def)

lemma list_lpush: "redis_ok C \<Longrightarrow> rd_list C (rd_lpush C k x R) = (rd_list C R)(k := x # rd_list C R k)"
  and list_lrem: "redis_ok C \<Longrightarrow> rd_list C (rd_lrem C k x R) = (rd_list C R)(k := remove1 x (rd_list C R k))"
  by (simp_all add: redis_ok_def)

lemma list_lmove:
  assumes "redis_ok C" "a \<noteq> b"
  shows "rd_list C R a = [] \<Longrightarrow> rd_lmove C a b R = (R, None)"
    and "rd_list C R a = x # xs \<Longrightarrow> snd (rd_lmove C a b R) = Some x \<and> rd_list C (fst (rd_lmove C a b R)) = (rd_list C R)(a := xs, b := rd_list C R b @ [x])"
proof -
  have c: "case rd_list C R a of [] \<Rightarrow> rd_lmove C a b R = (R, None)
      | x # xs \<Rightarrow> snd (rd_lmove C a b R) = Some x \<and> rd_list C (fst (rd_lmove C a b R)) = (rd_list C R)(a := xs, b := rd_list C R b @ [x])"
    using assms unfolding redis_ok_def by blast
  show "rd_list C R a = [] \<Longrightarrow> rd_lmove C a b R = (R, None)" using c by simp
  show "rd_list C R a = x # xs \<Longrightarrow> snd (rd_lmove C a b R) = Some x \<and> rd_list C (fst (rd_lmove C a b R)) = (rd_list C R)(a := xs, b := rd_list C R b @ [x])"
    using c by simp
qed

lemma jobs_lpush: "redis_ok C \<Longrightarrow> server_jobs C cd R \<subseteq> server_jobs C cd (rd_lpush C k x R)"
  by (auto simp: server_jobs_def list_lpush)

lemma jobs_pushed: "redis_ok C \<Longrightarrow> k \<in> server_keys \<Longrightarrow> job_of cd x = Some j \<Longrightarrow> j \<in> server_jobs C cd (rd_lpush C k x R)"
  by (auto simp: server_jobs_def list_lpush)

lemma jobs_lrem: "redis_ok C \<Longrightarrow> j \<in> server_jobs C cd R \<Longrightarrow> j \<in> server_jobs C cd (rd_lrem C k x R) \<or> job_of cd x = Some j"
  unfolding server_jobs_def by (auto simp: list_lrem) (metis in_set_remove1)

lemma jobs_moved:
  assumes "redis_ok C" "k' \<in> server_keys" "job_of cd y = job_of cd x"
  shows "server_jobs C cd R \<subseteq> server_jobs C cd (rd_lpush C k' y (rd_lrem C k x R))"
proof
  fix j assume "j \<in> server_jobs C cd R"
  from jobs_lrem [OF assms(1) this, of k x] show "j \<in> server_jobs C cd (rd_lpush C k' y (rd_lrem C k x R))"
    using jobs_lpush [OF assms(1), of cd "rd_lrem C k x R" k' y] jobs_pushed [OF assms(1,2), of cd y j] assms(3) by auto
qed

lemma jobs_lmove:
  assumes "redis_ok C"
  shows "server_jobs C cd R \<subseteq> server_jobs C cd (fst (rd_lmove C queue_key processing_key R))"
proof (cases "rd_list C R queue_key")
  case Nil
  then show ?thesis using list_lmove(1) [OF assms, of queue_key processing_key] by simp
next
  case (Cons x xs)
  then show ?thesis using list_lmove(2) [OF assms, of queue_key processing_key R x xs]
    by (fastforce simp: server_jobs_def server_keys_def)
qed

lemma jobs_recovered: "redis_ok C \<Longrightarrow> server_jobs C cd R \<subseteq> server_jobs C cd (recover_stranded C R)"
  unfolding recover_stranded_def by (rule fold_inv) (auto dest: jobs_moved [OF _ keys_in(1) refl, THEN subsetD])

lemma on_redis_frame [simp]:
  "ib_exec (on_redis f a B) = ib_exec B" "ib_hand (on_redis f a B) = ib_hand B" "ib_spill (on_redis f a B) = ib_spill B"
  "ib_batch (on_redis f a B) = ib_batch B" "ib_file (on_redis f a B) = ib_file B" "ib_temp (on_redis f a B) = ib_temp B"
  "ib_drain (on_redis f a B) = ib_drain B"
  by (simp_all add: on_redis_def)

lemma spill_put_frame [simp]:
  "ib_redis (fst (spill_put x B)) = ib_redis B" "ib_exec (fst (spill_put x B)) = ib_exec B" "ib_hand (fst (spill_put x B)) = ib_hand B"
  "ib_batch (fst (spill_put x B)) = ib_batch B" "ib_file (fst (spill_put x B)) = ib_file B" "ib_temp (fst (spill_put x B)) = ib_temp B"
  "ib_drain (fst (spill_put x B)) = ib_drain B"
  by (simp_all add: spill_put_def)

lemma log_task_frame [simp]:
  "ib_redis (log_task cd x d B) = ib_redis B" "ib_hand (log_task cd x d B) = ib_hand B" "ib_spill (log_task cd x d B) = ib_spill B"
  "ib_batch (log_task cd x d B) = ib_batch B" "ib_file (log_task cd x d B) = ib_file B" "ib_temp (log_task cd x d B) = ib_temp B"
  "ib_drain (log_task cd x d B) = ib_drain B"
  by (auto simp: log_task_def split: loaded.splits)

lemma on_redis_grows: "(\<And>R. server_jobs C cd R \<subseteq> server_jobs C cd (f R)) \<Longrightarrow> server_jobs C cd (ib_redis B) \<subseteq> server_jobs C cd (ib_redis (on_redis f a B))"
  by (simp add: on_redis_def)

lemma drain_fail_frame [simp]:
  "ib_redis (drain_fail B) = ib_redis B" "ib_exec (drain_fail B) = ib_exec B" "ib_hand (drain_fail B) = ib_hand B"
  "ib_spill (drain_fail B) = ib_spill B" "ib_batch (drain_fail B) = ib_batch B"
  by (simp_all add: drain_fail_def split: option.split)

lemma log_task_exec: "set (ib_exec B) \<subseteq> set (ib_exec (log_task cd x d B))"
  by (auto simp: log_task_def split: loaded.splits)

lemma log_task_done: "d \<noteq> Refused_stmt \<Longrightarrow> job_of cd x = Some j \<Longrightarrow> j \<in> done_jobs cd (log_task cd x d B)"
  by (auto simp: log_task_def job_of_def done_jobs_def split: loaded.splits)

lemma process_direct_frame [simp]:
  "ib_redis (fst (process_direct cd x d B)) = ib_redis B" "ib_hand (fst (process_direct cd x d B)) = ib_hand B"
  "ib_batch (fst (process_direct cd x d B)) = ib_batch B" "ib_file (fst (process_direct cd x d B)) = ib_file B"
  "ib_temp (fst (process_direct cd x d B)) = ib_temp B" "ib_drain (fst (process_direct cd x d B)) = ib_drain B"
  by (simp_all add: process_direct_def split: loaded.split)

lemma process_direct_exec: "set (ib_exec B) \<subseteq> set (ib_exec (fst (process_direct cd x d B)))"
  using log_task_exec [of B cd x] by (simp add: process_direct_def split: loaded.split)

definition grows :: "'r redis_calls \<Rightarrow> 'v codec \<Rightarrow> ('r, 'v) ingest_buffer \<Rightarrow> ('r, 'v) ingest_buffer \<Rightarrow> bool" where
  "grows C cd B B' \<longleftrightarrow> server_jobs C cd (ib_redis B) \<subseteq> server_jobs C cd (ib_redis B') \<and> set (ib_exec B) \<subseteq> set (ib_exec B')"

lemma grows_kept: "grows C cd B B' \<Longrightarrow> kept_jobs C cd B \<subseteq> kept_jobs C cd B'"
  by (auto simp: grows_def kept_jobs_def done_jobs_def)

lemma grows_hand: "grows C cd B B' \<Longrightarrow> hand_ok cd B \<Longrightarrow> (\<And>x. ib_hand B' = Wrote x \<Longrightarrow> ib_hand B = Wrote x) \<Longrightarrow> hand_ok cd B'"
  by (auto simp: grows_def hand_ok_def done_jobs_def)

lemma grows_refl: "ib_redis B' = ib_redis B \<Longrightarrow> ib_exec B' = ib_exec B \<Longrightarrow> grows C cd B B'"
  by (simp add: grows_def)

lemma grows_trans: "grows C cd A B \<Longrightarrow> grows C cd B D \<Longrightarrow> grows C cd A D"
  by (auto simp: grows_def)

lemma grows_call:
  assumes "\<And>R. server_jobs C cd R \<subseteq> server_jobs C cd (f R)" "ib_redis B' = ib_redis (on_redis f a B)" "ib_exec B' = ib_exec B"
  shows "grows C cd B B'"
  using assms by (simp add: grows_def on_redis_grows)

lemma grows_push: "redis_ok C \<Longrightarrow> grows C cd B (push_query C cd t info a B)"
  using jobs_lpush [of C cd "ib_redis B" queue_key "cd_dumps cd t"]
  by (simp add: push_query_def Let_def grows_def on_redis_def)

lemma grows_start: "redis_ok C \<Longrightarrow> grows C cd B (buffer_start C up a B)"
  using jobs_recovered [of C cd "ib_redis B"] by (simp add: buffer_start_def Let_def grows_def on_redis_def)

lemma grows_take: "redis_ok C \<Longrightarrow> grows C cd B (worker_take C cd a B)"
proof (cases "ib_running B \<and> ib_worker B \<and> ib_hand B = Empty_hand")
  case True
  let ?f = "\<lambda>R. fst (rd_lmove C queue_key processing_key R)"
  assume "redis_ok C"
  then show ?thesis using True
    by (intro grows_call [where f = ?f and a = a]) (auto simp: worker_take_def Let_def split: option.split list.split loaded.split dest: jobs_lmove [THEN subsetD])
qed (auto simp: worker_take_def intro: grows_refl)

lemma grows_exec: "grows C cd B (worker_exec cd d B)"
  using log_task_exec [of B cd _ d] by (auto simp: worker_exec_def grows_def split: worker_hand.split)

lemma grows_ack:
  assumes "redis_ok C" "hand_ok cd B"
  shows "kept_jobs C cd B \<subseteq> kept_jobs C cd (worker_ack C a B)" and "set (ib_exec B) = set (ib_exec (worker_ack C a B))"
proof -
  show e: "set (ib_exec B) = set (ib_exec (worker_ack C a B))"
    by (simp add: worker_ack_def Let_def split: worker_hand.split)
  show "kept_jobs C cd B \<subseteq> kept_jobs C cd (worker_ack C a B)"
  proof (cases "ib_hand B")
    case (Wrote x)
    have "server_jobs C cd (ib_redis B) \<subseteq> server_jobs C cd (ib_redis (worker_ack C a B)) \<union> done_jobs cd B"
      using jobs_lrem [OF assms(1)] assms(2) Wrote by (fastforce simp: worker_ack_def on_redis_def hand_ok_def)
    then show ?thesis using e by (auto simp: kept_jobs_def done_jobs_def)
  next
    case (Failed_text x)
    have "grows C cd B (worker_ack C a B)"
      using Failed_text jobs_moved [OF assms(1) keys_in(3) refl]
      by (intro grows_call [where f = "\<lambda>R. rd_lpush C dlq_key x (rd_lrem C processing_key x R)" and a = a]) (simp_all add: worker_ack_def Let_def)
    then show ?thesis by (rule grows_kept)
  qed (simp_all add: worker_ack_def)
qed

lemma job_resent: "codec_ok cd \<Longrightarrow> cd_loads cd x = Loaded t \<Longrightarrow> job_of cd (cd_dumps cd (t\<lparr>tk_ts := now\<rparr>)) = job_of cd x"
  by (simp add: job_dumped) (simp add: job_of_def)

lemma jobs_torn: "redis_ok C \<Longrightarrow> cd_loads cd x = Torn_json \<Longrightarrow> server_jobs C cd R \<subseteq> server_jobs C cd (rd_lrem C k x R)"
  using jobs_lrem [of C _ cd R k x] by (auto simp: job_of_def)

lemma grows_sweep:
  assumes "redis_ok C" "codec_ok cd"
  shows "grows C cd B (sweep_next C cd now a B)"
proof (cases "ib_swept B")
  case (Cons x xs)
  show ?thesis
  proof (cases "cd_loads cd x")
    case (Loaded t)
    show ?thesis
    proof (cases "60 < now - tk_ts t")
      case True
      then show ?thesis using Cons Loaded jobs_moved [OF assms(1) keys_in(1) job_resent [OF assms(2) Loaded]]
        by (intro grows_call [where f = "\<lambda>R. rd_lpush C queue_key (cd_dumps cd (t\<lparr>tk_ts := now\<rparr>)) (rd_lrem C processing_key x R)" and a = a])
          (simp_all add: sweep_next_def Let_def)
    qed (use Cons Loaded in \<open>auto simp: sweep_next_def Let_def intro: grows_refl\<close>)
  next
    case Torn_json
    then show ?thesis using Cons jobs_torn [OF assms(1) Torn_json]
      by (intro grows_call [where f = "rd_lrem C processing_key x" and a = a]) (simp_all add: sweep_next_def Let_def)
  qed (use Cons in \<open>auto simp: sweep_next_def Let_def intro: grows_refl\<close>)
qed (auto simp: sweep_next_def intro: grows_refl)

lemma grows_line:
  assumes "redis_ok C"
  shows "grows C cd B (drain_line C cd info a d B)"
proof (cases "ib_drain B")
  case (Some ls)
  show ?thesis
  proof (cases ls)
    case (Cons line rest)
    let ?x = "strip line" and ?B = "B\<lparr>ib_drain := Some rest\<rparr>"
    show ?thesis
    proof (cases "ib_up B \<and> redis_memory_ok info")
      case True
      then show ?thesis using Cons Some jobs_lpush [OF assms, of cd "ib_redis B" queue_key ?x]
        by (simp add: drain_line_def Let_def grows_def on_redis_def)
    next
      case False
      then show ?thesis using Cons Some process_direct_exec [of ?B cd ?x d]
        by (auto simp: drain_line_def Let_def grows_def split_def)
    qed
  qed (use Some in \<open>auto simp: drain_line_def intro: grows_refl\<close>)
qed (auto simp: drain_line_def intro: grows_refl)

lemma hand_frame [simp]:
  "ib_hand (buffer_start C up a B) = ib_hand B" "ib_hand (push_query C cd t info a B) = ib_hand B"
  "ib_hand (sweep_next C cd now a B) = ib_hand B" "ib_hand (sweep_begin C a B) = ib_hand B"
  "ib_hand (drain_line C cd info a d B) = ib_hand B" "ib_hand (drain_begin ping info B) = ib_hand B"
  "ib_hand (daemon_take B) = ib_hand B" "ib_hand (daemon_write ok B) = ib_hand B"
  by (simp_all add: buffer_start_def push_query_def sweep_next_def sweep_begin_def drain_line_def drain_begin_def daemon_take_def
      daemon_write_def Let_def split_def split: option.split list.split loaded.split)

lemma take_hand: "ib_hand (worker_take C cd a B) = Wrote x \<Longrightarrow> ib_hand B = Wrote x"
  by (auto simp: worker_take_def Let_def split: if_splits option.splits list.splits loaded.splits)

lemma stop_hand: "ib_hand (end_process left B) = Empty_hand" "ib_hand (buffer_stop B) = Empty_hand"
  by (simp_all add: buffer_stop_def end_process_def)

lemma grows_local:
  "grows C cd B (daemon_take B)" "grows C cd B (daemon_write ok B)" "grows C cd B (sweep_begin C a B)"
  "grows C cd B (drain_begin ping info B)" "grows C cd B (end_process left B)" "grows C cd B (buffer_stop B)"
  by (simp_all add: grows_def buffer_stop_def daemon_take_def daemon_write_def sweep_begin_def drain_begin_def end_process_def Let_def)

lemma kept_step:
  assumes "redis_ok C" "codec_ok cd" "hand_ok cd B"
  shows "kept_jobs C cd B \<subseteq> kept_jobs C cd (ingest_step C cd ev B) \<and> hand_ok cd (ingest_step C cd ev B)"
proof -
  have grown: ?thesis if "grows C cd B (ingest_step C cd ev B)" "\<And>x. ib_hand (ingest_step C cd ev B) = Wrote x \<Longrightarrow> ib_hand B = Wrote x"
    using grows_kept [OF that(1)] grows_hand [OF that(1) assms(3) that(2)] by simp
  show ?thesis
  proof (cases ev)
    case (Ib_exec d)
    have "hand_ok cd (worker_exec cd d B)"
      using assms(3) log_task_done [of Committed cd] by (auto simp: hand_ok_def worker_exec_def done_jobs_def split: worker_hand.splits if_splits)
    then show ?thesis using Ib_exec grows_kept [OF grows_exec] by simp
  next
    case (Ib_ack a)
    have "hand_ok cd (worker_ack C a B)"
      using assms(3) by (auto simp: hand_ok_def worker_ack_def Let_def done_jobs_def split: worker_hand.splits if_splits)
    then show ?thesis using Ib_ack grows_ack(1) [OF assms(1,3)] by simp
  next
    case (Ib_start up a)
    then show ?thesis using grows_start [OF assms(1), of cd B up a] by (intro grown) simp_all
  next
    case (Ib_push t info a)
    then show ?thesis using grows_push [OF assms(1), of cd B t info a] by (intro grown) simp_all
  next
    case (Ib_take a)
    then show ?thesis using grows_take [OF assms(1), of cd B a] take_hand by (intro grown) auto
  next
    case (Ib_sweep now a)
    then show ?thesis using grows_sweep [OF assms(1,2), of B now a] by (intro grown) simp_all
  next
    case (Ib_line info a d)
    then show ?thesis using grows_line [OF assms(1), of cd B info a d] by (intro grown) simp_all
  next
    case Ib_spill
    then show ?thesis by (intro grown) (simp_all add: grows_local stop_hand)
  next
    case (Ib_write ok)
    then show ?thesis by (intro grown) (simp_all add: grows_local stop_hand)
  next
    case (Ib_snapshot a)
    then show ?thesis by (intro grown) (simp_all add: grows_local stop_hand)
  next
    case (Ib_drain ping info)
    then show ?thesis by (intro grown) (simp_all add: grows_local stop_hand)
  next
    case Ib_stop
    then show ?thesis by (intro grown) (simp_all add: grows_local stop_hand)
  next
    case (Ib_crash left)
    then show ?thesis by (intro grown) (simp_all add: grows_local stop_hand)
  qed
qed

definition ingest_run :: "'r redis_calls \<Rightarrow> 'v codec \<Rightarrow> 'v ingest_event list \<Rightarrow> ('r, 'v) ingest_buffer \<Rightarrow> ('r, 'v) ingest_buffer" where
  "ingest_run C cd evs B = fold (ingest_step C cd) evs B"

lemma kept_run:
  assumes "redis_ok C" "codec_ok cd"
  shows "hand_ok cd B \<Longrightarrow> kept_jobs C cd B \<subseteq> kept_jobs C cd (ingest_run C cd evs B) \<and> hand_ok cd (ingest_run C cd evs B)"
proof (induction evs arbitrary: B)
  case (Cons ev evs)
  have s: "kept_jobs C cd B \<subseteq> kept_jobs C cd (ingest_step C cd ev B)" "hand_ok cd (ingest_step C cd ev B)"
    using kept_step [OF assms Cons.prems, of ev] by blast+
  then show ?case using Cons.IH [OF s(2)] by (auto simp: ingest_run_def)
qed (simp add: ingest_run_def)

text \<open>C3: a statement the server took is served at least once.  If a push was answered, or ran on the
  server although its answer was lost, then after any interleaving of worker, sweeper, daemon and
  sentinel, with any calls failing before or after they took effect, with stops, crashes and
  restarts, the statement is still in one of the server's three lists or the database has
  committed it.\<close>

theorem at_least_once:
  assumes "redis_ok C" "codec_ok cd" "ib_up B" "redis_memory_ok info" "reached a"
    and "B = ingest_run C cd before (ingest_init R)"
  shows "(tk_query t, tk_params t) \<in> kept_jobs C cd (ingest_run C cd evs (push_query C cd t info a B))"
proof -
  let ?j = "(tk_query t, tk_params t)" and ?B = "push_query C cd t info a B"
  have "hand_ok cd (ingest_init R :: ('a, 'b) ingest_buffer)" by (simp add: hand_ok_def ingest_init_def)
  then have h: "hand_ok cd B" using kept_run [OF assms(1,2)] assms(6) by blast
  have "job_of cd (cd_dumps cd t) = Some ?j" using assms(2) by (rule job_dumped)
  then have "?j \<in> server_jobs C cd (rd_lpush C queue_key (cd_dumps cd t) (ib_redis B))" by (intro jobs_pushed assms(1)) simp_all
  then have "?j \<in> kept_jobs C cd ?B" using assms(3,4,5) by (simp add: push_query_def Let_def kept_jobs_def on_redis_def)
  moreover have "hand_ok cd ?B" using kept_step [OF assms(1,2) h, of "Ib_push t info a"] by simp
  ultimately show ?thesis using kept_run [OF assms(1,2)] by blast
qed

text \<open>A server and a codec to instantiate the theorems: lists by key, and tasks by number.\<close>

definition list_server :: "(string \<Rightarrow> string list) redis_calls" where
  "list_server = \<lparr>rd_list = (\<lambda>R. R), rd_lpush = (\<lambda>k x R. R(k := x # R k)), rd_lrem = (\<lambda>k x R. R(k := remove1 x (R k))),
     rd_lmove = (\<lambda>a b R. case R a of [] \<Rightarrow> (R, None) | x # xs \<Rightarrow> (R(a := xs, b := R b @ [x]), Some x))\<rparr>"

lemma list_server_ok: "redis_ok list_server"
  by (simp add: redis_ok_def list_server_def split: list.split)

instance param :: (countable) countable by countable_datatype
instance sql_params :: (countable) countable by countable_datatype

definition number_codec :: "nat codec" where
  "number_codec = \<lparr>cd_dumps = (\<lambda>t. nat_text (to_nat (tk_query t, tk_params t))),
     cd_loads = (\<lambda>s. if s = [] then Torn_json else case from_nat (text_nat s) of (q, ps) \<Rightarrow> Loaded \<lparr>tk_query = q, tk_params = ps, tk_ts = 0\<rparr>),
     cd_iso = (\<lambda>_. None)\<rparr>"

lemma nat_text_nonempty: "nat_text n \<noteq> []"
  by (subst nat_text.simps) simp

lemma strip_nat_text: "strip (nat_text n) = nat_text n"
proof -
  have "\<not> is_space c" if "c \<in> set (nat_text n)" for c
    using nat_text_digits [OF that] by (auto simp: is_space_def)
  then have "dropWhile is_space (nat_text n) = nat_text n" "dropWhile is_space (rev (nat_text n)) = rev (nat_text n)"
    by (simp_all add: dropWhile_eq_self_iff hd_rev nat_text_nonempty)
  then show ?thesis by (simp add: strip_def)
qed

lemma number_codec_ok: "codec_ok number_codec"
proof -
  have "\<exists>ts. cd_loads number_codec (cd_dumps number_codec t) = Loaded (t\<lparr>tk_ts := ts\<rparr>)" for t
    by (rule exI [of _ 0]) (simp add: number_codec_def nat_text_nonempty text_nat_inverse)
  then show ?thesis by (simp add: codec_ok_def) (simp add: number_codec_def strip_nat_text)
qed

theorem at_least_once_witness:
  "(''INSERT'', Plain_params (Some 7)) \<in> kept_jobs list_server number_codec
     (ingest_run list_server number_codec [Ib_take Answered, Ib_crash [], Ib_start True Answered, Ib_take Answered]
       (push_query list_server number_codec \<lparr>tk_query = ''INSERT'', tk_params = Plain_params (Some 7), tk_ts = 0\<rparr> (Some (1, 10)) Answered
         (ingest_run list_server number_codec [Ib_start True Answered] (ingest_init (\<lambda>_. [])))))"
proof -
  let ?B = "ingest_run list_server number_codec [Ib_start True Answered] (ingest_init (\<lambda>_. []))"
  have "ib_up ?B" by (simp add: ingest_run_def ingest_init_def buffer_start_def Let_def on_redis_def)
  moreover have "redis_memory_ok (Some (1, 10))" "reached Answered" by (simp_all add: redis_memory_ok_def reached_def)
  ultimately show ?thesis
    using at_least_once [OF list_server_ok number_codec_ok, where B = ?B and info = "Some (1, 10)" and a = Answered
      and before = "[Ib_start True Answered]" and R = "\<lambda>_. []"
      and t = "\<lparr>tk_query = ''INSERT'', tk_params = Plain_params (Some 7), tk_ts = 0\<rparr>"
      and evs = "[Ib_take Answered, Ib_crash [], Ib_start True Answered, Ib_take Answered]"] by (simp only: sql_task.select_convs)
qed

section \<open>A backlog runs backwards\<close>

definition statement :: "'v codec \<Rightarrow> 'v sql_task \<Rightarrow> string \<times> 'v sql_params" where
  "statement cd t = (tk_query t, convert_params cd (tk_params t))"

definition serve_round :: "'v ingest_event list" where
  "serve_round = [Ib_take Answered, Ib_exec Committed, Ib_ack Answered]"

definition idle_worker :: "('r, 'v) ingest_buffer \<Rightarrow> bool" where
  "idle_worker B \<longleftrightarrow> ib_running B \<and> ib_worker B \<and> ib_hand B = Empty_hand"

lemma dumped: 
  assumes "codec_ok cd"
  obtains ts where "cd_loads cd (cd_dumps cd t) = Loaded (t\<lparr>tk_ts := ts\<rparr>)" "cd_dumps cd t \<noteq> []"
proof -
  obtain ts where t: "cd_loads cd (cd_dumps cd t) = Loaded (t\<lparr>tk_ts := ts\<rparr>)" using assms unfolding codec_ok_def by blast
  moreover from t have "cd_dumps cd t \<noteq> []" using assms by (auto simp: codec_ok_def)
  ultimately show ?thesis by (rule that)
qed

lemma served_round:
  assumes "redis_ok C" "codec_ok cd" "idle_worker B" "rd_list C (ib_redis B) queue_key = cd_dumps cd t # xs"
  defines "B' \<equiv> ingest_run C cd serve_round B"
  shows "ib_exec B' = ib_exec B @ [statement cd t] \<and> idle_worker B' \<and> rd_list C (ib_redis B') queue_key = xs"
proof -
  obtain ts where l: "cd_loads cd (cd_dumps cd t) = Loaded (t\<lparr>tk_ts := ts\<rparr>)" and n: "cd_dumps cd t \<noteq> []"
    using dumped [OF assms(2)] by blast
  let ?B1 = "worker_take C cd Answered B"
  have "?B1 = B\<lparr>ib_redis := fst (rd_lmove C queue_key processing_key (ib_redis B)), ib_hand := Took (cd_dumps cd t)\<rparr>"
    using list_lmove(2) [OF assms(1), of queue_key processing_key] assms(3,4) l n
    by (cases "cd_dumps cd t") (auto simp: worker_take_def idle_worker_def on_redis_def reached_def)
  moreover have "rd_list C (fst (rd_lmove C queue_key processing_key (ib_redis B))) queue_key = xs"
    using list_lmove(2) [OF assms(1), of queue_key processing_key] assms(4) by simp
  ultimately show ?thesis using assms(3) l list_lrem [OF assms(1)]
    by (simp add: B'_def ingest_run_def serve_round_def worker_exec_def log_task_def worker_ack_def on_redis_def reached_def
        statement_def idle_worker_def)
qed

lemma serve_backlog:
  assumes "redis_ok C" "codec_ok cd"
  shows "idle_worker B \<Longrightarrow> rd_list C (ib_redis B) queue_key = map (cd_dumps cd) us \<Longrightarrow>
    ib_exec (ingest_run C cd (concat (replicate (length us) serve_round)) B) = ib_exec B @ map (statement cd) us"
proof (induction us arbitrary: B)
  case (Cons u us)
  then show ?case using served_round [OF assms Cons.prems(1), of u "map (cd_dumps cd) us"] by (simp add: ingest_run_def)
qed (simp add: ingest_run_def)

lemma pushed_backlog:
  assumes "redis_ok C" "redis_memory_ok info"
  shows "ib_up B \<Longrightarrow> idle_worker B \<Longrightarrow> (let B' = ingest_run C cd (map (\<lambda>t. Ib_push t info Answered) ts) B in
    rd_list C (ib_redis B') queue_key = rev (map (cd_dumps cd) ts) @ rd_list C (ib_redis B) queue_key
    \<and> idle_worker B' \<and> ib_exec B' = ib_exec B)"
proof (induction ts arbitrary: B)
  case (Cons t ts)
  let ?B = "push_query C cd t info Answered B"
  have "ib_up ?B" "idle_worker ?B" "ib_exec ?B = ib_exec B"
    "rd_list C (ib_redis ?B) queue_key = cd_dumps cd t # rd_list C (ib_redis B) queue_key"
    using Cons.prems assms(2) list_lpush [OF assms(1)] by (simp_all add: push_query_def Let_def on_redis_def reached_def idle_worker_def)
  then show ?case using Cons.IH [of ?B] by (simp add: ingest_run_def Let_def)
qed (simp add: ingest_run_def)

text \<open>C33: the queue is a stack.  A push and the worker's move are both at the left end of the list: the
  statements that pile up while the worker is busy are committed in the reverse of the order they
  were pushed in.\<close>

theorem backlog_runs_backwards:
  assumes "redis_ok C" "codec_ok cd" "redis_memory_ok info" "ib_up B" "idle_worker B" "rd_list C (ib_redis B) queue_key = []"
  shows "ib_exec (ingest_run C cd (map (\<lambda>t. Ib_push t info Answered) ts @ concat (replicate (length ts) serve_round)) B)
    = ib_exec B @ rev (map (statement cd) ts)"
proof -
  let ?B = "ingest_run C cd (map (\<lambda>t. Ib_push t info Answered) ts) B"
  have "rd_list C (ib_redis ?B) queue_key = map (cd_dumps cd) (rev ts)" "idle_worker ?B" "ib_exec ?B = ib_exec B"
    using pushed_backlog [OF assms(1,3-5), of cd ts] assms(6) by (simp_all add: Let_def rev_map)
  then show ?thesis using serve_backlog [OF assms(1,2), of ?B "rev ts"] by (simp add: ingest_run_def rev_map)
qed

theorem backlog_runs_backwards_witness:
  "ib_exec (ingest_run list_server number_codec
     (map (\<lambda>t. Ib_push t (Some (1, 10)) Answered) [\<lparr>tk_query = ''A'', tk_params = Plain_params None, tk_ts = 0\<rparr>, \<lparr>tk_query = ''B'', tk_params = Plain_params None, tk_ts = 1\<rparr>]
       @ concat (replicate 2 serve_round))
     (ingest_run list_server number_codec [Ib_start True Answered] (ingest_init (\<lambda>_. []))))
   = [(''B'', Plain_params None), (''A'', Plain_params None)]"
proof -
  let ?B = "ingest_run list_server number_codec [Ib_start True Answered] (ingest_init (\<lambda>_. []))"
  have e: "ib_up ?B" "idle_worker ?B" "rd_list list_server (ib_redis ?B) queue_key = []" "ib_exec ?B = []"
    by (simp_all add: ingest_run_def ingest_init_def buffer_start_def Let_def on_redis_def idle_worker_def reached_def recover_stranded_def list_server_def)
  have m: "redis_memory_ok (Some (1, 10))" by (simp add: redis_memory_ok_def)
  have "length [\<lparr>tk_query = ''A'', tk_params = Plain_params None, tk_ts = 0\<rparr>, \<lparr>tk_query = ''B'', tk_params = Plain_params (None :: nat option), tk_ts = 1\<rparr>] = 2"
    by simp
  with backlog_runs_backwards [OF list_server_ok number_codec_ok m e(1-3),
      of "[\<lparr>tk_query = ''A'', tk_params = Plain_params None, tk_ts = 0\<rparr>, \<lparr>tk_query = ''B'', tk_params = Plain_params None, tk_ts = 1\<rparr>]"]
  show ?thesis by (simp only: e) (simp add: statement_def convert_params_def)
qed

section \<open>When nothing is lost while the server is away\<close>

definition in_memory_or_file :: "('r, 'v) ingest_buffer \<Rightarrow> string list" where
  "in_memory_or_file B = ib_spill B @ ib_batch B @ ib_file B @ (case ib_drain B of None \<Rightarrow> [] | Some d \<Rightarrow> d)"

definition text_jobs :: "'v codec \<Rightarrow> string list \<Rightarrow> 'v job set" where
  "text_jobs cd xs = {j. \<exists>x \<in> set xs. job_of cd (strip x) = Some j}"

definition all_jobs :: "'r redis_calls \<Rightarrow> 'v codec \<Rightarrow> ('r, 'v) ingest_buffer \<Rightarrow> 'v job set" where
  "all_jobs C cd B = kept_jobs C cd B \<union> text_jobs cd (in_memory_or_file B)"

definition drain_inv :: "('r, 'v) ingest_buffer \<Rightarrow> bool" where
  "drain_inv B \<longleftrightarrow> (\<forall>d. ib_drain B = Some d \<longrightarrow> (\<exists>xs. ib_temp B = Some xs \<and> set d \<subseteq> set xs))"

text \<open>
  The events that lose nothing: no full queue, no failed write, no end of the process with texts in
  memory or a recovery under way, and no failure of a recovery while the spill file has new lines.
\<close>

fun harmless :: "'v ingest_event \<Rightarrow> ('r, 'v) ingest_buffer \<Rightarrow> bool" where
  "harmless (Ib_push t info a) B \<longleftrightarrow> ib_up B \<and> redis_memory_ok info \<and> a = Answered \<or> length (ib_spill B) < spill_limit"
| "harmless (Ib_write ok) B \<longleftrightarrow> ok \<or> ib_batch B = []"
| "harmless (Ib_line info a d) B \<longleftrightarrow> a = Answered \<and> length (ib_spill B) < spill_limit \<or> ib_file B = []"
| "harmless Ib_stop B \<longleftrightarrow> ib_spill B = [] \<and> ib_drain B = None"
| "harmless (Ib_crash left) B \<longleftrightarrow> ib_spill B = [] \<and> set (ib_batch B) \<subseteq> set left \<and> ib_drain B = None"
| "harmless ev B \<longleftrightarrow> True"

fun harmless_run :: "'r redis_calls \<Rightarrow> 'v codec \<Rightarrow> 'v ingest_event list \<Rightarrow> ('r, 'v) ingest_buffer \<Rightarrow> bool" where
  "harmless_run C cd [] B \<longleftrightarrow> True"
| "harmless_run C cd (ev # evs) B \<longleftrightarrow> harmless ev B \<and> harmless_run C cd evs (ingest_step C cd ev B)"

lemma strip_strip [simp]: "strip (strip x) = strip x"
proof -
  let ?y = "dropWhile is_space x" and ?z = "strip x"
  have z: "?z = rev (dropWhile is_space (rev ?y))" by (simp add: strip_def)
  have "dropWhile is_space ?z = ?z"
  proof (cases ?z)
    case (Cons c cs)
    obtain us where "rev ?y = us @ rev ?z" using z takeWhile_dropWhile_id [of is_space "rev ?y"] by (metis rev_rev_ident)
    then have "?y = ?z @ rev us" by (metis rev_append rev_rev_ident)
    then have "hd ?y = c" "?y \<noteq> []" using Cons by auto
    then have "\<not> is_space c" using hd_dropWhile by metis
    then show ?thesis using Cons by simp
  qed simp
  moreover have "dropWhile is_space (rev ?z) = rev ?z" by (simp add: z)
  ultimately show ?thesis by (simp add: strip_def [of ?z])
qed

lemma text_jobs_simps [simp]:
  "text_jobs cd [] = {}" "text_jobs cd (xs @ ys) = text_jobs cd xs \<union> text_jobs cd ys"
  "text_jobs cd (x # xs) = {j. job_of cd (strip x) = Some j} \<union> text_jobs cd xs"
  by (auto simp: text_jobs_def)

lemma text_jobs_mono: "set xs \<subseteq> set ys \<Longrightarrow> text_jobs cd xs \<subseteq> text_jobs cd ys"
  by (auto simp: text_jobs_def)

lemma text_jobs_split: "text_jobs cd (take n xs) \<union> text_jobs cd (drop n xs) = text_jobs cd xs"
  by (metis append_take_drop_id text_jobs_simps(2))

definition texts_stay :: "'v codec \<Rightarrow> ('r, 'v) ingest_buffer \<Rightarrow> ('r, 'v) ingest_buffer \<Rightarrow> bool" where
  "texts_stay cd B B' \<longleftrightarrow> text_jobs cd (in_memory_or_file B) \<subseteq> text_jobs cd (in_memory_or_file B') \<and> (drain_inv B \<longrightarrow> drain_inv B')"

lemma texts_same:
  "ib_spill B' = ib_spill B \<Longrightarrow> ib_batch B' = ib_batch B \<Longrightarrow> ib_file B' = ib_file B \<Longrightarrow> ib_temp B' = ib_temp B \<Longrightarrow> ib_drain B' = ib_drain B
    \<Longrightarrow> texts_stay cd B B'"
  by (simp add: texts_stay_def in_memory_or_file_def drain_inv_def)

lemma texts_stay_step:
  assumes "harmless ev B" "\<And>info a d. ev \<noteq> Ib_line info a d"
  shows "texts_stay cd B (ingest_step C cd ev B)"
proof (cases ev)
  case (Ib_line info a d)
  then show ?thesis using assms(2) by simp
next
  case (Ib_push t info a)
  then show ?thesis
    by (auto simp: texts_stay_def in_memory_or_file_def drain_inv_def push_query_def Let_def spill_put_def)
next
  case Ib_spill
  then show ?thesis using text_jobs_split [of cd spill_batch_size "ib_spill B"]
    by (auto simp: texts_stay_def in_memory_or_file_def drain_inv_def daemon_take_def)
next
  case (Ib_write ok)
  then show ?thesis using assms(1) by (auto simp: texts_stay_def in_memory_or_file_def drain_inv_def daemon_write_def)
next
  case Ib_stop
  then show ?thesis using assms(1) by (auto simp: texts_stay_def in_memory_or_file_def drain_inv_def buffer_stop_def end_process_def)
next
  case (Ib_crash left)
  then show ?thesis using assms(1) text_jobs_mono [of "ib_batch B" left cd]
    by (auto simp: texts_stay_def in_memory_or_file_def drain_inv_def end_process_def)
next
  case (Ib_drain ping info)
  then show ?thesis by (auto simp: texts_stay_def in_memory_or_file_def drain_inv_def drain_begin_def Let_def)
next
  case (Ib_start up a)
  then show ?thesis by (intro texts_same) (simp_all add: buffer_start_def Let_def)
next
  case (Ib_take a)
  then show ?thesis by (intro texts_same) (simp_all add: worker_take_def Let_def split: option.split list.split loaded.split)
next
  case (Ib_exec d)
  then show ?thesis by (intro texts_same) (simp_all add: worker_exec_def split: worker_hand.split)
next
  case (Ib_ack a)
  then show ?thesis by (intro texts_same) (simp_all add: worker_ack_def Let_def split: worker_hand.split)
next
  case (Ib_snapshot a)
  then show ?thesis by (intro texts_same) (simp_all add: sweep_begin_def)
next
  case (Ib_sweep now a)
  then show ?thesis by (intro texts_same) (simp_all add: sweep_next_def Let_def split: list.split loaded.split)
qed

lemma job_torn: "cd_loads cd x = Torn_json \<Longrightarrow> job_of cd x = None" "codec_ok cd \<Longrightarrow> job_of cd [] = None"
  by (simp_all add: job_of_def codec_ok_def)

lemma failed_drain_texts:
  assumes "drain_inv B" "ib_drain B = Some d" "ib_file B = []" "ib_spill B' = ib_spill B" "ib_batch B' = ib_batch B" "ib_temp B' = ib_temp B"
  shows "text_jobs cd (in_memory_or_file B) \<subseteq> text_jobs cd (in_memory_or_file (drain_fail B')) \<and> drain_inv (drain_fail B')"
proof -
  obtain xs where "ib_temp B = Some xs" "set d \<subseteq> set xs" using assms(1,2) by (auto simp: drain_inv_def)
  then show ?thesis using assms text_jobs_mono [of d xs cd] by (auto simp: in_memory_or_file_def drain_fail_def drain_inv_def)
qed

lemma direct_keeps:
  "\<not> snd (process_direct cd x d B) \<Longrightarrow> spill_limit \<le> length (ib_spill B) \<and> ib_spill (fst (process_direct cd x d B)) = ib_spill B"
  "set (ib_spill B) \<subseteq> set (ib_spill (fst (process_direct cd x d B)))"
  by (auto simp: process_direct_def spill_put_def split: loaded.splits if_splits)

lemma direct_job:
  assumes "snd (process_direct cd x d B)" "job_of cd x = Some j"
  shows "j \<in> done_jobs cd (fst (process_direct cd x d B)) \<or> x \<in> set (ib_spill (fst (process_direct cd x d B)))"
  using assms log_task_done [of Committed cd x j B]
  by (auto simp: process_direct_def job_of_def spill_put_def split: loaded.splits if_splits)

lemma spilled_job: "x \<in> set (ib_spill B) \<Longrightarrow> job_of cd (strip x) = Some j \<Longrightarrow> j \<in> all_jobs C cd B"
  by (auto simp: all_jobs_def in_memory_or_file_def text_jobs_def)

lemma line_jobs:
  assumes "redis_ok C" "codec_ok cd" "drain_inv B" "harmless (Ib_line info a d) B"
  defines "B' \<equiv> drain_line C cd info a d B"
  shows "all_jobs C cd B \<subseteq> all_jobs C cd B' \<and> drain_inv B'"
proof (cases "ib_drain B")
  case None
  then show ?thesis using assms(3) by (simp add: B'_def drain_line_def)
next
  case (Some ls)
  note g = grows_kept [OF grows_line [OF assms(1), of cd B info a d], folded B'_def]
  show ?thesis
  proof (cases ls)
    case Nil
    then show ?thesis using Some by (auto simp: B'_def drain_line_def all_jobs_def kept_jobs_def done_jobs_def in_memory_or_file_def drain_inv_def)
  next
    case (Cons line rest)
    let ?x = "strip line" and ?B = "B\<lparr>ib_drain := Some rest\<rparr>"
    have di: "drain_inv ?B" using assms(3) Some Cons by (auto simp: drain_inv_def)
    have others: "text_jobs cd (in_memory_or_file B) = text_jobs cd (in_memory_or_file ?B) \<union> {j. job_of cd ?x = Some j}"
      using Some Cons by (auto simp: in_memory_or_file_def)
    have failing: ?thesis if "B' = drain_fail D" "ib_file B = []" "ib_spill D = ib_spill B" "ib_batch D = ib_batch B" "ib_temp D = ib_temp B" for D
      using failed_drain_texts [OF assms(3) Some that(2-5), of cd] g that(1) by (auto simp: all_jobs_def)
    consider (skip) "?x = [] \<or> cd_loads cd ?x = Torn_json"
      | (send) "?x \<noteq> []" "cd_loads cd ?x \<noteq> Torn_json" "ib_up B \<and> redis_memory_ok info"
      | (direct) "?x \<noteq> []" "cd_loads cd ?x \<noteq> Torn_json" "\<not> (ib_up B \<and> redis_memory_ok info)"
      by blast
    then show ?thesis
    proof cases
      case skip
      then have "B' = ?B" using Some Cons by (auto simp: B'_def drain_line_def Let_def)
      moreover have "job_of cd ?x = None" using skip job_torn assms(2) by auto
      ultimately show ?thesis using others di g by (auto simp: all_jobs_def)
    next
      case send
      show ?thesis
      proof (cases "a = Answered")
        case True
        then have b: "B' = on_redis (rd_lpush C queue_key ?x) a ?B" using Some Cons send by (simp add: B'_def drain_line_def Let_def)
        then have "j \<in> server_jobs C cd (ib_redis B')" if "job_of cd ?x = Some j" for j
          using True jobs_pushed [OF assms(1) keys_in(1) that] by (simp add: on_redis_def reached_def)
        then show ?thesis using others di g b by (auto simp: all_jobs_def kept_jobs_def in_memory_or_file_def drain_inv_def)
      next
        case False
        then show ?thesis using assms(4) Some Cons send
          by (intro failing [of "on_redis (rd_lpush C queue_key ?x) a ?B"]) (simp_all add: B'_def drain_line_def Let_def)
      qed
    next
      case direct
      let ?D = "process_direct cd ?x d ?B"
      have b: "B' = (if snd ?D then fst ?D else drain_fail (fst ?D))"
        using Some Cons direct by (auto simp: B'_def drain_line_def Let_def split_def)
      show ?thesis
      proof (cases "snd ?D")
        case True
        have "text_jobs cd (in_memory_or_file ?B) \<subseteq> text_jobs cd (in_memory_or_file (fst ?D))"
          using direct_keeps(2) [of ?B cd ?x d] by (intro text_jobs_mono) (auto simp: in_memory_or_file_def)
        moreover have "j \<in> all_jobs C cd (fst ?D)" if "job_of cd ?x = Some j" for j
          using direct_job [OF True that] spilled_job [of ?x "fst ?D" cd j C] that by (auto simp: all_jobs_def kept_jobs_def)
        ultimately show ?thesis using others di g True b by (auto simp: all_jobs_def drain_inv_def)
      next
        case False
        then show ?thesis using direct_keeps(1) [OF False] assms(4) b by (intro failing [of "fst ?D"]) auto
      qed
    qed
  qed
qed

lemma harmless_step:
  assumes "redis_ok C" "codec_ok cd" "hand_ok cd B" "drain_inv B" "harmless ev B"
  shows "all_jobs C cd B \<subseteq> all_jobs C cd (ingest_step C cd ev B) \<and> drain_inv (ingest_step C cd ev B)"
proof (cases "\<exists>info a d. ev = Ib_line info a d")
  case True
  then obtain info a d where ev: "ev = Ib_line info a d" by blast
  show ?thesis using line_jobs [OF assms(1,2,4), of info a d] assms(5) unfolding ev ingest_step.simps by blast
next
  case False
  then show ?thesis using texts_stay_step [OF assms(5), of cd C] kept_step [OF assms(1-3), of ev] assms(4)
    by (auto simp: texts_stay_def all_jobs_def)
qed

lemma push_enters:
  assumes "redis_ok C" "codec_ok cd" "harmless (Ib_push t info a) B"
  shows "(tk_query t, tk_params t) \<in> all_jobs C cd (push_query C cd t info a B)"
proof (cases "ib_up B \<and> redis_memory_ok info \<and> a = Answered")
  case True
  then show ?thesis using jobs_pushed [OF assms(1) keys_in(1) job_dumped [OF assms(2)]]
    by (simp add: push_query_def Let_def all_jobs_def kept_jobs_def on_redis_def reached_def)
next
  case False
  then have "cd_dumps cd t \<in> set (ib_spill (push_query C cd t info a B))"
    using assms(3) by (auto simp: push_query_def Let_def spill_put_def)
  moreover have "strip (cd_dumps cd t) = cd_dumps cd t" using assms(2) by (simp add: codec_ok_def)
  ultimately show ?thesis using job_dumped [OF assms(2)] by (auto intro: spilled_job)
qed

fun pushed_jobs :: "'v ingest_event list \<Rightarrow> 'v job set" where
  "pushed_jobs [] = {}"
| "pushed_jobs (Ib_push t info a # evs) = insert (tk_query t, tk_params t) (pushed_jobs evs)"
| "pushed_jobs (ev # evs) = pushed_jobs evs"

lemma pushed_Cons: "pushed_jobs (ev # evs) = (case ev of Ib_push t info a \<Rightarrow> {(tk_query t, tk_params t)} | _ \<Rightarrow> {}) \<union> pushed_jobs evs"
  by (cases ev) simp_all

lemma harmless_keeps:
  assumes "redis_ok C" "codec_ok cd"
  shows "hand_ok cd B \<Longrightarrow> drain_inv B \<Longrightarrow> harmless_run C cd evs B \<Longrightarrow>
    all_jobs C cd B \<union> pushed_jobs evs \<subseteq> all_jobs C cd (ingest_run C cd evs B)"
proof (induction evs arbitrary: B)
  case (Cons ev evs)
  let ?B = "ingest_step C cd ev B"
  have h: "harmless ev B" "harmless_run C cd evs ?B" using Cons.prems(3) by simp_all
  note s = harmless_step [OF assms Cons.prems(1,2) h(1)]
  have "hand_ok cd ?B" using kept_step [OF assms Cons.prems(1)] by blast
  then have "all_jobs C cd ?B \<union> pushed_jobs evs \<subseteq> all_jobs C cd (ingest_run C cd evs ?B)"
    using Cons.IH s h(2) by blast
  moreover have "(case ev of Ib_push t info a \<Rightarrow> {(tk_query t, tk_params t)} | _ \<Rightarrow> {}) \<subseteq> all_jobs C cd ?B"
    using push_enters [OF assms] h(1) by (cases ev) auto
  ultimately show ?case using s unfolding pushed_Cons by (auto simp: ingest_run_def)
qed (simp add: ingest_run_def)



text \<open>
  Each exception is a real loss.  A graceful stop while the server is away drops the statements in
  the spill queue, and with them the message that announces the stop; a recovery that fails puts
  its old file over the lines that were spilled meanwhile; and the file of a recovery that was
  cut short is never read again.
\<close>

lemma stop_drops_spill:
  assumes "\<not> ib_up B" "ib_running B" "length (ib_spill B) < spill_limit"
  shows "let B' = ingest_run C cd [Ib_push t info a, Ib_stop] B in ib_spill B' = [] \<and> ib_file B' = ib_file B @ ib_batch B
    \<and> ib_redis B' = ib_redis B \<and> ib_exec B' = ib_exec B"
  using assms by (simp add: ingest_run_def push_query_def spill_put_def buffer_stop_def end_process_def Let_def)

lemma failed_recovery_overwrites:
  assumes "ib_running B" "ib_up B" "ib_drain B = None" "ib_file B = old" "old \<noteq> []" "redis_memory_ok info"
    "strip (hd old) \<noteq> []" "cd_loads cd (strip (hd old)) \<noteq> Torn_json" "ib_batch B = new"
  shows "ib_file (ingest_run C cd [Ib_drain True info, Ib_write True, Ib_line info (Raised False) d] B) = old"
  using assms by (cases old) (auto simp: ingest_run_def drain_begin_def daemon_write_def drain_line_def drain_fail_def Let_def)

lemma crashed_recovery_stranded:
  assumes "ib_running B" "ib_up B" "ib_drain B = None" "ib_file B = old" "old \<noteq> []" "redis_memory_ok info"
  shows "let B' = ingest_run C cd [Ib_drain True info, Ib_crash []] B in ib_file B' = [] \<and> ib_temp B' = Some old
    \<and> (\<forall>ping info. drain_begin ping info (buffer_start C True a B') = buffer_start C True a B')"
  using assms by (auto simp: ingest_run_def drain_begin_def end_process_def buffer_start_def on_redis_def Let_def)

section \<open>The circuit breaker\<close>

datatype breaker_state = Circuit_closed | Circuit_open | Circuit_half

record db_breaker =
  cb_failures :: nat
  cb_threshold :: nat
  cb_timeout :: time
  cb_last :: time
  cb_state :: breaker_state

definition breaker_init :: "nat \<Rightarrow> time \<Rightarrow> db_breaker" where
  "breaker_init threshold timeout =
     \<lparr>cb_failures = 0, cb_threshold = threshold, cb_timeout = timeout, cb_last = 0, cb_state = Circuit_closed\<rparr>"

definition record_db_failure :: "time \<Rightarrow> db_breaker \<Rightarrow> db_breaker" where
  "record_db_failure now b =
     (let n = cb_failures b + 1; b1 = b\<lparr>cb_failures := n, cb_last := now\<rparr>
      in if cb_threshold b \<le> n then b1\<lparr>cb_state := Circuit_open\<rparr> else b1)"

definition record_db_success :: "db_breaker \<Rightarrow> db_breaker" where
  "record_db_success b = b\<lparr>cb_failures := 0, cb_state := Circuit_closed\<rparr>"

definition is_available :: "time \<Rightarrow> db_breaker \<Rightarrow> db_breaker \<times> bool" where
  "is_available now b =
     (if cb_state b = Circuit_open then
        (if cb_timeout b < now - cb_last b then (b\<lparr>cb_state := Circuit_half\<rparr>, True) else (b, False))
      else (b, True))"

text \<open>A call: refused without one, or the outcome of the statement at its later time.\<close>

definition execute_with_breaker :: "time \<Rightarrow> time \<Rightarrow> bool \<Rightarrow> db_breaker \<Rightarrow> db_breaker \<times> bool option" where
  "execute_with_breaker now later ok b = (case is_available now b of
       (b1, False) \<Rightarrow> (b1, None)
     | (b1, True) \<Rightarrow> if ok then (record_db_success b1, Some True) else (record_db_failure later b1, Some False))"

record db_call =
  dc_now :: time
  dc_later :: time
  dc_ok :: bool

definition breaker_step :: "db_breaker \<Rightarrow> db_call \<Rightarrow> db_breaker \<times> bool option" where
  "breaker_step b c = execute_with_breaker (dc_now c) (dc_later c) (dc_ok c) b"

text \<open>The statements that reached the database, and how many of the last ones failed in a row.\<close>

definition reached_db :: "db_breaker \<Rightarrow> db_call list \<Rightarrow> (time \<times> bool) list" where
  "reached_db b cs = map (\<lambda>(c, a). (dc_later c, dc_ok c)) (filter (\<lambda>(c, a). a \<noteq> None) (run_log breaker_step b cs))"

definition fail_streak :: "(time \<times> bool) list \<Rightarrow> nat" where
  "fail_streak rs = length (takeWhile (\<lambda>(t, ok). \<not> ok) (rev rs))"

definition breaker_means :: "db_breaker \<Rightarrow> (time \<times> bool) list \<Rightarrow> bool" where
  "breaker_means b rs \<longleftrightarrow> cb_failures b = fail_streak rs \<and> cb_state b \<noteq> Circuit_half
     \<and> (cb_state b = Circuit_open \<longleftrightarrow> cb_threshold b \<le> fail_streak rs) \<and> (0 < fail_streak rs \<longrightarrow> cb_last b = fst (last rs))"

lemma fail_streak_snoc [simp]: "fail_streak (rs @ [(t, ok)]) = (if ok then 0 else Suc (fail_streak rs))"
  by (simp add: fail_streak_def)

lemma breaker_step_means:
  assumes "breaker_means b rs" "0 < cb_threshold b"
  shows "cb_threshold (fst (breaker_step b c)) = cb_threshold b \<and> cb_timeout (fst (breaker_step b c)) = cb_timeout b
    \<and> breaker_means (fst (breaker_step b c)) (rs @ (if snd (breaker_step b c) = None then [] else [(dc_later c, dc_ok c)]))"
  using assms
  by (auto simp: breaker_means_def breaker_step_def execute_with_breaker_def is_available_def record_db_success_def record_db_failure_def Let_def)

lemma reached_db_Cons: "reached_db b (c # cs) =
    (if snd (breaker_step b c) = None then [] else [(dc_later c, dc_ok c)]) @ reached_db (fst (breaker_step b c)) cs"
  by (simp add: reached_db_def)

lemma breaker_run_means:
  "breaker_means b rs \<Longrightarrow> 0 < cb_threshold b \<Longrightarrow>
    breaker_means (run_final breaker_step b cs) (rs @ reached_db b cs)
    \<and> cb_threshold (run_final breaker_step b cs) = cb_threshold b \<and> cb_timeout (run_final breaker_step b cs) = cb_timeout b"
proof (induction cs arbitrary: b rs)
  case (Cons c cs)
  note s = breaker_step_means [OF Cons.prems, of c]
  show ?case using Cons.IH [OF s [THEN conjunct2, THEN conjunct2]] s Cons.prems(2) by (auto simp: reached_db_Cons split: if_splits)
qed (simp add: reached_db_def)

text \<open>The breaker fails fast exactly when it should.  After any calls the next one is let through if
  and only if fewer than the threshold of the last statements that reached the database failed in
  a row, or the timeout has passed since the last of those failures; a success in between closes
  it, a failure of the trial call opens it for another timeout.\<close>

theorem breaker_admits_iff:
  fixes timeout now :: time and cs :: "db_call list"
  assumes "0 < threshold"
  defines "rs \<equiv> reached_db (breaker_init threshold timeout) cs"
  shows "snd (is_available now (run_final breaker_step (breaker_init threshold timeout) cs))
    \<longleftrightarrow> fail_streak rs < threshold \<or> timeout < now - fst (last rs)"
proof -
  let ?b = "run_final breaker_step (breaker_init threshold timeout) cs"
  have "breaker_means (breaker_init threshold timeout) []" using assms(1) by (simp add: breaker_means_def breaker_init_def fail_streak_def)
  then have "breaker_means ?b rs \<and> cb_threshold ?b = threshold \<and> cb_timeout ?b = timeout"
    using breaker_run_means [of "breaker_init threshold timeout" "[]" cs] assms(1) by (simp add: rs_def breaker_init_def)
  then show ?thesis using assms(1) by (auto simp: breaker_means_def is_available_def)
qed

theorem breaker_admits_iff_witness:
  "\<not> snd (is_available 30 (run_final breaker_step (breaker_init 2 30)
     [\<lparr>dc_now = 0, dc_later = 1, dc_ok = False\<rparr>, \<lparr>dc_now = 2, dc_later = 3, dc_ok = False\<rparr>]))"
  using breaker_admits_iff [where threshold = 2 and timeout = 30 and now = 30
    and cs = "[\<lparr>dc_now = 0, dc_later = 1, dc_ok = False\<rparr>, \<lparr>dc_now = 2, dc_later = 3, dc_ok = False\<rparr>]"]
  by (simp add: reached_db_def breaker_init_def breaker_step_def execute_with_breaker_def is_available_def record_db_failure_def
      fail_streak_def Let_def)

end
