(* ===== verification/Notifier.thy ===== *)
theory Notifier
  imports Outbox Ingest_Buffer "HOL-Library.AList" "HOL-Library.Sublist"
begin

text \<open>
  The last leg of an alert (\<open>src/src/infrastructure/telegram_notifier.py\<close>): the debouncer, the queue of
  instant messages with its worker, the delivery of an outbox row with its retries, the recovery of
  the fallback file, and the events that become outbox rows; and the decoupled gateway with its
  batches and its token (\<open>src/src/infrastructure/telegram_gateway.py\<close>).

  What a request answered or raised is an argument.  The JSON codec, the digest of an event, the
  formatter of a message and the truth of a JSON value are parameters.
\<close>

section \<open>The debouncer\<close>

record debouncer =
  de_cooldown :: time
  de_last :: "string \<rightharpoonup> time"

definition debouncer_init :: "time \<Rightarrow> debouncer" where
  "debouncer_init cooldown = \<lparr>de_cooldown = cooldown, de_last = Map.empty\<rparr>"

definition should_notify :: "time \<Rightarrow> string \<Rightarrow> debouncer \<Rightarrow> debouncer \<times> bool" where
  "should_notify now sig D =
     (let prev = (case de_last D sig of None \<Rightarrow> 0 | Some t \<Rightarrow> t)
      in if now - prev < de_cooldown D then (D, False) else (D\<lparr>de_last := (de_last D)(sig \<mapsto> now)\<rparr>, True))"

section \<open>Instant messages\<close>

record notifier =
  nt_debounce :: debouncer
  nt_queue :: "(string \<times> string) list"
  nt_posted :: "(string \<times> string) list"
  nt_retry_after :: int
  nt_session :: bool
  nt_throttled :: bool
  nt_live :: bool
  nt_cache :: "string list"
  nt_fallback :: "string list"

definition notify_queue_max :: nat where "notify_queue_max = 100"
definition sent_cache_max :: nat where "sent_cache_max = 1000"

definition notifier_init :: notifier where
  "notifier_init = \<lparr>nt_debounce = debouncer_init 300, nt_queue = [], nt_posted = [], nt_retry_after = 5, nt_session = False,
     nt_throttled = False, nt_live = True, nt_cache = [], nt_fallback = []\<rparr>"

definition notify_manual :: "string \<Rightarrow> string \<Rightarrow> notifier \<Rightarrow> notifier" where
  "notify_manual msg kind N =
     (if length (nt_queue N) < notify_queue_max then N\<lparr>nt_queue := nt_queue N @ [(msg, kind)]\<rparr> else N)"

text \<open>An exception, by the classes of the handlers it is an instance of.\<close>

record post_exn =
  ex_timeout :: bool
  ex_os :: bool
  ex_proxy :: bool

datatype post_result = Posted int | Post_raised post_exn

definition bypass_kinds :: "string list" where
  "bypass_kinds = [''STARTUP'', ''SHUTDOWN'', ''SAFE_HOLD'', ''SYSTEM_ERROR'', ''DEFAULT'']"

text \<open>The handlers in their order; only the third puts the message back.\<close>

definition handle_post :: "string \<times> string \<Rightarrow> post_result \<Rightarrow> notifier \<Rightarrow> notifier" where
  "handle_post packet res N = (case res of
       Posted code \<Rightarrow> if code = 200 then N\<lparr>nt_posted := nt_posted N @ [packet]\<rparr> else N
     | Post_raised e \<Rightarrow>
         if ex_timeout e then N
         else if ex_os e then N
         else if ex_proxy e then
           (let N1 = N\<lparr>nt_retry_after := 5\<rparr>
            in if length (nt_queue N1) < notify_queue_max then N1\<lparr>nt_queue := nt_queue N1 @ [packet]\<rparr> else N1)
         else N)"

definition worker_step :: "time \<Rightarrow> post_result \<Rightarrow> notifier \<Rightarrow> notifier" where
  "worker_step now res N = (case nt_queue N of
       [] \<Rightarrow> N
     | packet # rest \<Rightarrow>
         let N1 = N\<lparr>nt_queue := rest\<rparr>
         in if snd packet \<in> set bypass_kinds then handle_post packet res N1
            else (case should_notify now (snd packet) (nt_debounce N1) of
                    (D, False) \<Rightarrow> N1
                  | (D, True) \<Rightarrow> handle_post packet res (N1\<lparr>nt_debounce := D\<rparr>)))"

section \<open>The delivery of a row\<close>

text \<open>A limit without a readable number of seconds is \<open>Limited None\<close>.\<close>

datatype http_result = Http_status int | Limited "int option" | Proxy_down | Http_raised

fun send_loop :: "nat \<Rightarrow> http_result list \<Rightarrow> int \<Rightarrow> bool \<times> int \<times> int list" where
  "send_loop attempt [] r = (False, r, [])"
| "send_loop attempt (x # xs) r =
     (let again = (case send_loop (Suc attempt) xs r of (ok, r', w) \<Rightarrow> (ok, r', 2 ^ attempt # w))
      in case x of
           Http_status code \<Rightarrow> if code = 200 then (True, r, []) else again
         | Limited (Some n) \<Rightarrow> (False, n, [n])
         | Limited None \<Rightarrow> again
         | Proxy_down \<Rightarrow> (False, 5, [5])
         | Http_raised \<Rightarrow> again)"

definition send_text :: "http_result list \<Rightarrow> notifier \<Rightarrow> notifier \<times> bool" where
  "send_text answers N = (case send_loop 0 (take 3 answers) (nt_retry_after N) of (ok, r, w) \<Rightarrow> (N\<lparr>nt_retry_after := r\<rparr>, ok))"

text \<open>What the relay makes of it; a message that cannot be formatted raises.\<close>

definition notify_row :: "'m option \<Rightarrow> http_result list \<Rightarrow> notifier \<Rightarrow> notifier \<times> outcome" where
  "notify_row msg answers N = (case msg of
       None \<Rightarrow> (N, Failed)
     | Some _ \<Rightarrow> (case send_text answers N of (N', ok) \<Rightarrow> (N', if ok then Sent else Deferred (nt_retry_after N'))))"

section \<open>The fallback file\<close>

text \<open>The other sender: a limit is waited for, and then counts as a failed attempt.\<close>

fun resend_loop :: "nat \<Rightarrow> http_result list \<Rightarrow> bool \<Rightarrow> bool \<times> bool" where
  "resend_loop attempt [] thr = (False, thr)"
| "resend_loop attempt (x # xs) thr = (case x of
       Http_status code \<Rightarrow> if code = 200 then (True, False) else resend_loop (Suc attempt) xs thr
     | Limited n \<Rightarrow> resend_loop (Suc attempt) xs True
     | _ \<Rightarrow> resend_loop (Suc attempt) xs thr)"

definition send_with_retry :: "string \<Rightarrow> bool \<Rightarrow> http_result list \<Rightarrow> notifier \<Rightarrow> notifier \<times> bool" where
  "send_with_retry dump recovering answers N =
     (if \<not> nt_session N then (N, False)
      else case resend_loop 0 (take 3 answers) (nt_throttled N) of
             (True, thr) \<Rightarrow> (N\<lparr>nt_throttled := thr\<rparr>, True)
           | (False, thr) \<Rightarrow>
               ((if recovering then N else N\<lparr>nt_fallback := nt_fallback N @ [dump]\<rparr>)\<lparr>nt_throttled := thr\<rparr>, False))"

record 'e alert_codec =
  ac_loads :: "string \<Rightarrow> 'e option"
  ac_digest :: "'e \<Rightarrow> string"
  ac_format :: "'e \<Rightarrow> string option"

text \<open>
  The lines of the file, each with whether its delivery succeeds if it is tried: the cache, the lines
  that remain, and whether a line raised.
\<close>

fun recover_lines :: "'e alert_codec \<Rightarrow> (string \<times> bool) list \<Rightarrow> string list \<Rightarrow> string list \<times> string list \<times> bool" where
  "recover_lines A [] cache = (cache, [], False)"
| "recover_lines A ((line, ok) # ls) cache =
     (if strip line = [] then recover_lines A ls cache
      else case ac_loads A (strip line) of
             None \<Rightarrow> (cache, [], True)
           | Some e \<Rightarrow>
               if ac_digest A e \<in> set cache then recover_lines A ls cache
               else if ac_format A e = None then (cache, [], True)
               else if ok then recover_lines A ls (lastn sent_cache_max (cache @ [ac_digest A e]))
               else (case recover_lines A ls cache of (c, left, r) \<Rightarrow> (c, line # left, r)))"

definition run_recovery :: "'e alert_codec \<Rightarrow> bool list \<Rightarrow> notifier \<Rightarrow> notifier" where
  "run_recovery A oks N =
     (if nt_fallback N = [] then N
      else case recover_lines A (zip (nt_fallback N) oks) (nt_cache N) of
             (cache, left, raised) \<Rightarrow> N\<lparr>nt_cache := cache, nt_fallback := left, nt_live := (left = [])\<rparr>)"

section \<open>Events become rows\<close>

record 'v json_ops =
  jo_str :: "'v \<Rightarrow> string"
  jo_truthy :: "'v \<Rightarrow> bool"
  jo_text :: "string \<Rightarrow> 'v"
  jo_true :: 'v
  jo_dumps :: "(string \<times> 'v) list \<Rightarrow> string"

definition get_text :: "'v json_ops \<Rightarrow> (string \<times> 'v) list \<Rightarrow> string \<Rightarrow> string \<Rightarrow> string" where
  "get_text J d k dflt = (case map_of d k of None \<Rightarrow> dflt | Some v \<Rightarrow> jo_str J v)"

definition event_priority :: "'v json_ops \<Rightarrow> (string \<times> 'v) list \<Rightarrow> int" where
  "event_priority J payload =
     (let ty = py_upper (get_text J payload ''event_type'' ''APPROVED'')
      in if ty \<in> {''APPROVED'', ''ABORT''} \<or> (case map_of payload ''abort_mission'' of None \<Rightarrow> False | Some v \<Rightarrow> jo_truthy J v) then 1
         else if ty \<in> {''REJECTED'', ''HEARTBEAT''} then 10 else 2)"

text \<open>The text and the priority of the row, unless the symbol is debounced.\<close>

definition notify_event :: "'v json_ops \<Rightarrow> time \<Rightarrow> (string \<times> 'v) list \<Rightarrow> notifier \<Rightarrow> notifier \<times> (string \<times> int) option" where
  "notify_event J now data N =
     (let payload = (if map_of data ''event_type'' = None then data @ [(''event_type'', jo_text J ''APPROVED'')] else data)
      in case should_notify now (''EVENT_'' @ get_text J data ''symbol'' ''GLOBAL'') (nt_debounce N) of
           (D, False) \<Rightarrow> (N, None)
         | (D, True) \<Rightarrow> (N\<lparr>nt_debounce := D\<rparr>, Some (jo_dumps J payload, event_priority J payload)))"

definition insert_statement :: string where
  "insert_statement = ''INSERT INTO outbox_events (payload, priority, status) VALUES (:msg, :pri, 'PENDING')''"

definition outbox_task :: "(int \<Rightarrow> 'w) \<Rightarrow> time \<Rightarrow> string \<times> int \<Rightarrow> 'w sql_task" where
  "outbox_task num now row = \<lparr>tk_query = insert_statement,
     tk_params = Dict_params [(''msg'', Str_param (fst row)), (''pri'', Raw_param (num (snd row)))], tk_ts = now\<rparr>"

text \<open>The handlers of the bus: the event's fields, the metadata over them, and the mark of a conflated one.\<close>

definition execution_data :: "(string \<times> 'v) list \<Rightarrow> (string \<times> 'v) list \<Rightarrow> (string \<times> 'v) list" where
  "execution_data flds meta = fold (\<lambda>(k, v). AList.update k v) meta flds"

definition conflated_data :: "'v json_ops \<Rightarrow> (string \<times> 'v) list \<Rightarrow> (string \<times> 'v) list" where
  "conflated_data J flds = AList.update ''is_conflated'' (jo_true J) flds"

definition event_id_text :: "'v json_ops \<Rightarrow> (string \<times> 'v) list \<Rightarrow> string" where
  "event_id_text J d = get_text J d ''symbol'' ''None'' @ ''_'' @ get_text J d ''timestamp'' ''None'' @ ''_'' @ get_text J d ''price'' ''None''"

section \<open>One event per symbol and five minutes\<close>

definition debounce_step :: "debouncer \<Rightarrow> string \<times> time \<Rightarrow> debouncer \<times> unit option" where
  "debounce_step D c = (case should_notify (snd c) (fst c) D of (D', ok) \<Rightarrow> (D', if ok then Some () else None))"

interpretation debounce_gate: cooldown_gate debounce_step fst snd de_last de_cooldown
  by unfold_locales (auto simp: debounce_step_def should_notify_def Let_def split: if_splits)

type_synonym 'v raised_event = "time \<times> (string \<times> 'v) list"

definition event_signature :: "'v json_ops \<Rightarrow> 'v raised_event \<Rightarrow> string" where
  "event_signature J ev = ''EVENT_'' @ get_text J (snd ev) ''symbol'' ''GLOBAL''"

definition event_step :: "'v json_ops \<Rightarrow> notifier \<Rightarrow> 'v raised_event \<Rightarrow> notifier \<times> (string \<times> int) option" where
  "event_step J N ev = notify_event J (fst ev) (snd ev) N"

interpretation event_gate: cooldown_gate "event_step J" "event_signature J" fst "\<lambda>N. de_last (nt_debounce N)" "\<lambda>N. de_cooldown (nt_debounce N)" for J
  by unfold_locales (auto simp: event_step_def event_signature_def notify_event_def should_notify_def Let_def split: if_splits)

text \<open>C35: the notifier writes at most one row per symbol and five minutes, of whatever type.  The rows of one
  symbol are at least 300 seconds apart, and an event less than 300 seconds after a written one of
  the same symbol is dropped before it is persisted, be it the order to abort.\<close>

theorem abort_suppressed:
  assumes "event_signature J late = event_signature J first" "snd (event_step J N first) \<noteq> None"
    and "fst late < fst first + de_cooldown (nt_debounce N)" "\<forall>ev \<in> set between. event_signature J ev \<noteq> event_signature J first"
  shows "snd (event_step J (run_final (event_step J) (fst (event_step J N first)) between) late) = None
    \<and> spaced (de_cooldown (nt_debounce N)) (fire_times (event_step J) (event_signature J) fst k N evs)"
proof -
  let ?P = "\<lambda>M :: notifier. de_last (nt_debounce M) (event_signature J first) = Some (fst first) \<and> de_cooldown (nt_debounce M) = de_cooldown (nt_debounce N)"
  have "?P (fst (event_step J N first))"
    using event_gate.fires [OF assms(2)] by (simp add: event_gate.cooldown_step)
  then have p: "?P (run_final (event_step J) (fst (event_step J N first)) between)"
  proof (rule run_final_inv)
    fix M e assume m: "?P M" "e \<in> set between"
    show "?P (fst (event_step J M e))"
      using m assms(4) event_gate.silent [of J M e] event_gate.fires [of J M e] event_gate.cooldown_step [of J M e]
      by (cases "snd (event_step J M e)") auto
  qed
  let ?M = "run_final (event_step J) (fst (event_step J N first)) between"
  have "\<not> (snd (event_step J ?M late) \<noteq> None)"
  proof
    assume "snd (event_step J ?M late) \<noteq> None"
    from event_gate.fires_late [OF this, of "fst first"] p assms(1,3) show False by simp
  qed
  then show ?thesis using event_gate.fires_spaced by blast
qed

definition plain_json :: "string json_ops" where
  "plain_json = \<lparr>jo_str = (\<lambda>s. s), jo_truthy = (\<lambda>s. s \<noteq> []), jo_text = (\<lambda>s. s), jo_true = ''true'', jo_dumps = (\<lambda>d. concat (map snd d))\<rparr>"

theorem abort_suppressed_witness:
  "snd (event_step plain_json (fst (event_step plain_json notifier_init (1000, [(''symbol'', ''BTCUSDT''), (''event_type'', ''APPROVED'')])))
     (1200, [(''symbol'', ''BTCUSDT''), (''event_type'', ''ABORT'')])) = None"
  using abort_suppressed [of plain_json "(1200, [(''symbol'', ''BTCUSDT''), (''event_type'', ''ABORT'')])"
      "(1000, [(''symbol'', ''BTCUSDT''), (''event_type'', ''APPROVED'')])" notifier_init "[]"]
  by (simp add: event_signature_def get_text_def plain_json_def event_step_def notify_event_def should_notify_def
      notifier_init_def debouncer_init_def Let_def)

section \<open>The worker never repeats\<close>

definition proxy_is_os :: "post_result \<Rightarrow> bool" where
  "proxy_is_os r \<longleftrightarrow> (case r of Posted _ \<Rightarrow> True | Post_raised e \<Rightarrow> ex_proxy e \<longrightarrow> ex_os e)"

lemma handle_post_queue: "proxy_is_os r \<Longrightarrow> nt_queue (handle_post p r N) = nt_queue N"
  by (auto simp: handle_post_def proxy_is_os_def split: post_result.splits)

lemma worker_step_queue: "proxy_is_os r \<Longrightarrow> nt_queue (worker_step now r N) = tl (nt_queue N)"
  by (cases "nt_queue N") (auto simp: worker_step_def Let_def handle_post_queue split: prod.split bool.split)

lemma handle_posted: "nt_posted (handle_post p r N) = nt_posted N @ (if r = Posted 200 then [p] else [])"
  by (simp add: handle_post_def Let_def split: post_result.split)

lemma worker_posted: "nt_posted (worker_step now r N) = nt_posted N \<or> nt_posted (worker_step now r N) = nt_posted N @ take 1 (nt_queue N)"
  by (cases "nt_queue N") (auto simp: worker_step_def handle_posted Let_def split: prod.split bool.split)

text \<open>A message is tried once.  Since aiohttp's error for a proxy is an \<open>OSError\<close>, the handler before
  it takes it: the branch that puts the message back for a dead proxy is never reached.  A round of
  the worker always shortens the queue by its head, whatever the request does, and a queue of
  messages is worked off in as many rounds as it has messages, delivered
  in their order and at most once.\<close>

theorem worker_tries_once:
  fixes N :: notifier
  assumes "\<forall>(now, r) \<in> set rounds. proxy_is_os r"
  defines "N' \<equiv> fold (\<lambda>(now, r). worker_step now r) rounds N"
  shows "nt_queue N' = drop (length rounds) (nt_queue N)
    \<and> (\<exists>sent. nt_posted N' = nt_posted N @ sent \<and> subseq sent (take (length rounds) (nt_queue N)))"
  using assms(1) unfolding N'_def
proof (induction rounds arbitrary: N)
  case (Cons x rounds)
  obtain now r where x: "x = (now, r)" by (cases x)
  let ?M = "worker_step now r N"
  have q: "nt_queue ?M = tl (nt_queue N)" using Cons.prems x worker_step_queue by simp
  have "\<exists>one. nt_posted ?M = nt_posted N @ one \<and> subseq one (take 1 (nt_queue N))"
    using worker_posted [of now r N] by (metis append_Nil2 list_emb_Nil subseq_order.refl)
  then obtain one where one: "nt_posted ?M = nt_posted N @ one" "subseq one (take 1 (nt_queue N))" by blast
  have rest: "\<forall>(now, r) \<in> set rounds. proxy_is_os r" using Cons.prems by simp
  obtain sent where sent: "nt_posted (fold (\<lambda>(now, r). worker_step now r) rounds ?M) = nt_posted ?M @ sent"
    "subseq sent (take (length rounds) (nt_queue ?M))"
    using Cons.IH [OF rest, of ?M] by blast
  have "take (Suc (length rounds)) (nt_queue N) = take 1 (nt_queue N) @ take (length rounds) (nt_queue ?M)"
    unfolding q by (cases "nt_queue N") simp_all
  then have "subseq (one @ sent) (take (Suc (length rounds)) (nt_queue N))"
    using list_emb_append_mono [OF one(2) sent(2)] by simp
  moreover have "nt_posted (fold (\<lambda>(now, r). worker_step now r) rounds ?M) = nt_posted N @ (one @ sent)" using one(1) sent(1) by simp
  moreover have "nt_queue (fold (\<lambda>(now, r). worker_step now r) rounds ?M) = drop (Suc (length rounds)) (nt_queue N)"
    using Cons.IH [OF rest, of ?M] by (simp add: q drop_Suc)
  ultimately show ?case unfolding x fold_Cons comp_apply prod.case length_Cons by blast
qed simp

theorem worker_tries_once_witness:
  "nt_queue (fold (\<lambda>(now, r). worker_step now r) [(0, Post_raised \<lparr>ex_timeout = False, ex_os = True, ex_proxy = True\<rparr>)]
     (notify_manual ''down'' ''SHUTDOWN'' notifier_init)) = []"
  using worker_tries_once [of "[(0, Post_raised \<lparr>ex_timeout = False, ex_os = True, ex_proxy = True\<rparr>)]" "notify_manual ''down'' ''SHUTDOWN'' notifier_init"]
  by (simp add: proxy_is_os_def notify_manual_def notifier_init_def notify_queue_max_def)

section \<open>A limit outlives its cause\<close>

fun retriable :: "http_result \<Rightarrow> bool" where
  "retriable (Http_status code) \<longleftrightarrow> code \<noteq> 200"
| "retriable (Limited n) \<longleftrightarrow> n = None"
| "retriable Proxy_down \<longleftrightarrow> False"
| "retriable Http_raised \<longleftrightarrow> True"

text \<open>The answer that decides a delivery, if one of three attempts gets one.\<close>

definition deciding :: "http_result list \<Rightarrow> http_result option" where
  "deciding answers = List.find (\<lambda>x. \<not> retriable x) (take 3 answers)"

definition own_limit :: "http_result list \<Rightarrow> int option" where
  "own_limit answers = (case deciding answers of Some (Limited n) \<Rightarrow> n | Some Proxy_down \<Rightarrow> Some 5 | _ \<Rightarrow> None)"

lemma send_loop_verdict:
  "(case send_loop a xs r of (ok, r', w) \<Rightarrow> (ok, r')) = (case List.find (\<lambda>x. \<not> retriable x) xs of
       None \<Rightarrow> (False, r)
     | Some (Http_status code) \<Rightarrow> (True, r)
     | Some (Limited n) \<Rightarrow> (False, case n of None \<Rightarrow> r | Some k \<Rightarrow> k)
     | Some Proxy_down \<Rightarrow> (False, 5)
     | Some Http_raised \<Rightarrow> (False, r))"
  by (induction a xs r rule: send_loop.induct)
    (auto simp: Let_def split: http_result.splits option.splits prod.splits)

lemma send_text_verdict: "send_text answers N = (N\<lparr>nt_retry_after := (case own_limit answers of None \<Rightarrow> nt_retry_after N | Some n \<Rightarrow> n)\<rparr>,
    (case deciding answers of Some (Http_status code) \<Rightarrow> True | _ \<Rightarrow> False))"
  using send_loop_verdict [of 0 "take 3 answers" "nt_retry_after N"]
  by (auto simp: send_text_def own_limit_def deciding_def split: prod.splits option.splits http_result.splits)

definition row_step :: "notifier \<Rightarrow> 'm option \<times> http_result list \<Rightarrow> notifier \<times> outcome" where
  "row_step N c = notify_row (fst c) (snd c) N"

lemma row_step_retry: "nt_retry_after (fst (row_step N c)) =
    (if fst c = None then nt_retry_after N else case own_limit (snd c) of None \<Rightarrow> nt_retry_after N | Some n \<Rightarrow> n)"
  by (auto simp: row_step_def notify_row_def send_text_verdict split: option.split prod.split)

text \<open>A limit is never forgotten.  The wait of a limited delivery stays with the notifier: after
  deliveries without a limit of their own, successful ones among them, a delivery that fails for
  any other reason is put off in the outbox by the old limit again.\<close>

theorem limit_outlives_cause:
  fixes N :: notifier and m :: 'm
  assumes "own_limit answers = Some n" "\<forall>c \<in> set later. own_limit (snd c) = None"
    and "own_limit failing = None" "\<forall>code. deciding failing \<noteq> Some (Http_status code)"
  defines "N' \<equiv> run_final row_step (fst (row_step N (Some m, answers))) later"
  shows "settle r (snd (row_step N' (Some m', failing))) now T = mark_failed_for_retry (ob_id r) (max 1 n) now T"
proof -
  have "nt_retry_after N' = n" unfolding N'_def
  proof (rule run_final_inv)
    show "nt_retry_after (fst (row_step N (Some m, answers))) = n" using assms(1) by (simp add: row_step_retry)
    show "nt_retry_after (fst (row_step M c)) = n" if "nt_retry_after M = n" "c \<in> set later" for M c
      using that assms(2) by (simp add: row_step_retry)
  qed
  then have "snd (row_step N' (Some m', failing)) = Deferred n"
    using assms(3,4) by (auto simp: row_step_def notify_row_def send_text_verdict split: option.split http_result.split)
  then show ?thesis by (simp add: settle_def)
qed

theorem limit_outlives_cause_witness:
  "let r = \<lparr>ob_id = 1, ob_payload = ''{}'', ob_priority = 1, ob_status = PROCESSING, ob_created = 0, ob_execute_after = 0, ob_retries = 0\<rparr>;
       N = run_final row_step (fst (row_step notifier_init (Some (), [Limited (Some 3600)]))) [(Some (), [Http_status 200])]
   in settle r (snd (row_step N (Some (), [Http_status 500, Http_status 500, Http_raised]))) 0 \<lparr>ob_rows = [r], ob_next = 2\<rparr>
     = mark_failed_for_retry 1 (max 1 3600) 0 \<lparr>ob_rows = [r], ob_next = 2\<rparr>"
  using limit_outlives_cause [of "[Limited (Some 3600)]" 3600 "[(Some (), [Http_status 200])]" "[Http_status 500, Http_status 500, Http_raised]"
    "\<lparr>ob_id = 1, ob_payload = ''{}'', ob_priority = 1, ob_status = PROCESSING, ob_created = 0, ob_execute_after = 0, ob_retries = 0\<rparr>"
    notifier_init "()" "()" 0]
  by (simp add: own_limit_def deciding_def)

section \<open>What a recovery keeps\<close>

definition readable_line :: "'e alert_codec \<Rightarrow> string \<Rightarrow> bool" where
  "readable_line A line \<longleftrightarrow> strip line = [] \<or> (\<exists>e. ac_loads A (strip line) = Some e \<and> ac_format A e \<noteq> None)"

definition digest_of :: "'e alert_codec \<Rightarrow> string \<Rightarrow> string option" where
  "digest_of A line = map_option (ac_digest A) (ac_loads A (strip line))"

lemma recover_readable:
  assumes "\<forall>(line, ok) \<in> set ls. readable_line A line"
  shows "\<not> snd (snd (recover_lines A ls cache)) \<and> subseq (fst (snd (recover_lines A ls cache))) (map fst ls)
    \<and> (\<forall>(line, ok) \<in> set ls. strip line = [] \<or> line \<in> set (fst (snd (recover_lines A ls cache)))
        \<or> (\<exists>d. digest_of A line = Some d \<and> (d \<in> set cache \<or> (\<exists>(l, ok) \<in> set ls. ok \<and> digest_of A l = Some d))))"
  using assms
proof (induction A ls cache rule: recover_lines.induct)
  case (2 A line ok ls cache)
  show ?case
  proof (cases "strip line = []")
    case True
    then show ?thesis using "2.IH"(1) "2.prems" by (fastforce intro: list_emb_Cons)
  next
    case False
    then obtain e where e: "ac_loads A (strip line) = Some e" "ac_format A e \<noteq> None"
      using "2.prems" by (auto simp: readable_line_def)
    then have d: "digest_of A line = Some (ac_digest A e)" by (simp add: digest_of_def)
    have rest: "\<forall>(line, ok) \<in> set ls. readable_line A line" using "2.prems" by simp
    consider (seen) "ac_digest A e \<in> set cache" | (sent) "ac_digest A e \<notin> set cache" ok | (kept) "ac_digest A e \<notin> set cache" "\<not> ok" by blast
    then show ?thesis
    proof cases
      case seen
      then show ?thesis using "2.IH"(2) [OF False e(1) seen rest] False e d by (fastforce intro: list_emb_Cons)
    next
      case sent
      let ?c = "lastn sent_cache_max (cache @ [ac_digest A e])"
      have c: "set ?c \<subseteq> insert (ac_digest A e) (set cache)" using set_lastn [of sent_cache_max "cache @ [ac_digest A e]"] by simp
      have "ac_format A e = None \<Longrightarrow> False" using e(2) by simp
      then show ?thesis using "2.IH"(3) [OF False e(1) sent(1)] e sent False d c rest by (fastforce intro: list_emb_Cons)
    next
      case kept
      obtain c left bad where r: "recover_lines A ls cache = (c, left, bad)" by (cases "recover_lines A ls cache")
      have "recover_lines A ((line, ok) # ls) cache = (c, line # left, bad)" using kept e False r by simp
      moreover have "\<not> bad \<and> subseq left (map fst ls)
          \<and> (\<forall>(line, ok) \<in> set ls. strip line = [] \<or> line \<in> set left
            \<or> (\<exists>d. digest_of A line = Some d \<and> (d \<in> set cache \<or> (\<exists>(l, ok) \<in> set ls. ok \<and> digest_of A l = Some d))))"
        using "2.IH"(4) [OF False e(1) kept(1) e(2) kept(2) rest] r by simp
      ultimately show ?thesis by (fastforce simp: case_prod_beta)
    qed
  qed
qed simp

text \<open>A recovery of readable lines loses none.  A line that is not blank is afterwards still in the file,
  in the file's order, or its event was delivered, now or among the last thousand before; and live
  messages are allowed again exactly when the file is empty.\<close>

theorem recovery_keeps_unsent:
  assumes "nt_fallback N \<noteq> []" "\<forall>line \<in> set (nt_fallback N). readable_line A line" "length oks = length (nt_fallback N)"
  defines "N' \<equiv> run_recovery A oks N"
  shows "subseq (nt_fallback N') (nt_fallback N) \<and> (nt_live N' \<longleftrightarrow> nt_fallback N' = [])
    \<and> (\<forall>line \<in> set (nt_fallback N). strip line \<noteq> [] \<longrightarrow> line \<in> set (nt_fallback N')
      \<or> (\<exists>d. digest_of A line = Some d \<and> (d \<in> set (nt_cache N) \<or> (\<exists>(l, ok) \<in> set (zip (nt_fallback N) oks). ok \<and> digest_of A l = Some d))))"
proof -
  let ?ls = "zip (nt_fallback N) oks"
  have "\<forall>(line, ok) \<in> set ?ls. readable_line A line" using assms(2) by (auto dest: set_zip_leftD)
  note k = recover_readable [OF this, of "nt_cache N"]
  have "map fst ?ls = nt_fallback N" using assms(3) by simp
  moreover have "nt_fallback N' = fst (snd (recover_lines A ?ls (nt_cache N)))" "nt_live N' \<longleftrightarrow> nt_fallback N' = []"
    using assms(1) by (simp_all add: N'_def run_recovery_def split: prod.split)
  moreover have "\<exists>ok. (line, ok) \<in> set ?ls" if "line \<in> set (nt_fallback N)" for line
    using that calculation(1) by (metis in_set_zip in_set_conv_nth prod.sel assms(3))
  ultimately show ?thesis using k by fastforce
qed

definition demo_lines :: "string alert_codec" where
  "demo_lines = \<lparr>ac_loads = (\<lambda>s. if s = ''{'' then None else Some s), ac_digest = (\<lambda>s. s), ac_format = Some\<rparr>"

definition with_fallback :: "string list \<Rightarrow> notifier" where
  "with_fallback lines = notifier_init\<lparr>nt_fallback := lines\<rparr>"

lemma demo_strip: "strip ''a'' = ''a''" "strip ''b'' = ''b''" "strip ''{'' = ''{''"
  by (simp_all add: strip_def is_space_def)

theorem recovery_keeps_unsent_witness:
  "subseq (nt_fallback (run_recovery demo_lines [True, False] (with_fallback [''a'', ''b'']))) [''a'', ''b'']"
proof -
  let ?N = "with_fallback [''a'', ''b'']"
  have "nt_fallback ?N = [''a'', ''b'']" "\<forall>line \<in> set (nt_fallback ?N). readable_line demo_lines line"
    by (simp_all add: with_fallback_def readable_line_def demo_lines_def demo_strip)
  with recovery_keeps_unsent [of ?N demo_lines "[True, False]"] show ?thesis by simp
qed

lemma recover_bad:
  assumes "strip bad \<noteq> []" "ac_loads A (strip bad) = None"
  shows "\<forall>(line, ok) \<in> set xs. readable_line A line \<Longrightarrow>
    snd (recover_lines A (xs @ (bad, ok) # ys) cache) = (fst (snd (recover_lines A xs cache)), True)"
proof (induction xs arbitrary: cache)
  case (Cons x xs)
  obtain line ok' where x: "x = (line, ok')" by (cases x)
  show ?case
  proof (cases "strip line = []")
    case False
    then obtain e m where e: "ac_loads A (strip line) = Some e" "ac_format A e = Some m"
      using Cons.prems x by (auto simp: readable_line_def)
    have ih: "snd (recover_lines A (xs @ (bad, ok) # ys) c) = (fst (snd (recover_lines A xs c)), True)" for c
      using Cons.IH Cons.prems by simp
    obtain c left bd where r: "recover_lines A xs cache = (c, left, bd)" by (cases "recover_lines A xs cache")
    obtain c' where r': "recover_lines A (xs @ (bad, ok) # ys) cache = (c', left, True)"
      using ih [of cache] r by (cases "recover_lines A (xs @ (bad, ok) # ys) cache") auto
    show ?thesis using False e ih r r' by (simp add: x)
  qed (use Cons x in simp)
qed (use assms in simp)

text \<open>C36: one torn line loses the rest.  A line of the file that is no JSON, as a crash in the middle of a
  write leaves it, ends the recovery; the file is then written with the unsent lines before it, so
  that it and everything behind it is gone, and if the lines before it were delivered the
  recovery counts as complete and live messages are allowed.\<close>

theorem torn_line_loses_rest:
  assumes "nt_fallback N = before @ bad # rest" "length oks = length (nt_fallback N)"
    and "strip bad \<noteq> []" "ac_loads A (strip bad) = None" "\<forall>line \<in> set before. readable_line A line"
  shows "subseq (nt_fallback (run_recovery A oks N)) before
    \<and> nt_fallback (run_recovery A oks N) = fst (snd (recover_lines A (zip before oks) (nt_cache N)))
    \<and> (nt_live (run_recovery A oks N) \<longleftrightarrow> nt_fallback (run_recovery A oks N) = [])"
proof -
  have "oks = take (length before) oks @ oks ! length before # drop (Suc (length before)) oks"
    using assms(1,2) by (simp add: id_take_nth_drop)
  then obtain o1 b o2 where oks: "oks = o1 @ b # o2" "length o1 = length before"
    using assms(1,2) by (metis length_append length_take min.absorb2 le_add1)
  then have z: "zip (nt_fallback N) oks = zip before oks @ (bad, b) # zip rest o2" by (simp add: assms(1) zip_append2)
  have ok: "\<forall>(line, ok) \<in> set (zip before oks). readable_line A line" using assms(5) by (auto dest: set_zip_leftD)
  have "map fst (zip before oks) = before" using assms(1,2) by (simp add: map_fst_zip_take)
  then have sub: "subseq (fst (snd (recover_lines A (zip before oks) (nt_cache N)))) before"
    using recover_readable [OF ok, of "nt_cache N"] by simp
  have "snd (recover_lines A (zip (nt_fallback N) oks) (nt_cache N)) = (fst (snd (recover_lines A (zip before oks) (nt_cache N))), True)"
    unfolding z by (rule recover_bad [OF assms(3,4) ok])
  moreover have "nt_fallback N \<noteq> []" by (simp add: assms(1))
  ultimately show ?thesis using sub by (auto simp: run_recovery_def split: prod.split)
qed

theorem torn_line_loses_rest_witness:
  "nt_fallback (run_recovery demo_lines [True, True, True] (with_fallback [''a'', ''{'', ''b''])) = []
    \<and> nt_live (run_recovery demo_lines [True, True, True] (with_fallback [''a'', ''{'', ''b'']))"
proof -
  have "nt_fallback (with_fallback [''a'', ''{'', ''b'']) = [''a''] @ ''{'' # [''b'']" "nt_cache (with_fallback [''a'', ''{'', ''b'']) = []"
    by (simp_all add: with_fallback_def notifier_init_def)
  with torn_line_loses_rest [OF this(1), of "[True, True, True]" demo_lines] show ?thesis
    by (simp add: demo_strip demo_lines_def readable_line_def)
qed

section \<open>From an event to the buffer\<close>

text \<open>A written event is a statement that the buffer then keeps.\<close>

lemma event_enters_buffer:
  assumes "snd (event_step J N ev) = Some row" "redis_ok C" "codec_ok cd" "harmless (Ib_push (outbox_task num now row) info a) B"
  shows "(insert_statement, Dict_params [(''msg'', Str_param (fst row)), (''pri'', Raw_param (num (snd row)))])
    \<in> all_jobs C cd (push_query C cd (outbox_task num now row) info a B)"
  using push_enters [OF assms(2-4)] by (simp add: outbox_task_def)

section \<open>The gateway\<close>

record signal_payload =
  sp_asset :: symbol
  sp_anomaly :: string
  sp_kde :: flt
  sp_regime :: string
  sp_action :: string

record gateway =
  gw_capacity :: flt
  gw_tokens :: flt
  gw_rate :: flt
  gw_last_fill :: time
  gw_threshold :: nat

definition gateway_init :: "time \<Rightarrow> gateway" where
  "gateway_init now = \<lparr>gw_capacity = 1, gw_tokens = 1, gw_rate = 1, gw_last_fill = now, gw_threshold = 3\<rparr>"

text \<open>A round of the wait for a token: granted, or the time to sleep.\<close>

definition consume_token :: "time \<Rightarrow> gateway \<Rightarrow> gateway \<times> flt option" where
  "consume_token now g =
     (let tokens = min (gw_capacity g) (gw_tokens g + (now - gw_last_fill g) * gw_rate g)
      in if 1 \<le> tokens then (g\<lparr>gw_tokens := tokens - 1, gw_last_fill := now\<rparr>, None)
         else (g\<lparr>gw_tokens := tokens, gw_last_fill := now\<rparr>, Some (1 - tokens)))"

text \<open>The message for a batch: its signals, or their number with the five most extreme.\<close>

datatype gateway_text = Each_signal "signal_payload list" | Mass_anomaly nat "signal_payload list"

definition most_extreme :: "signal_payload list \<Rightarrow> signal_payload list" where
  "most_extreme xs = rev (sort_key (\<lambda>s. \<bar>sp_kde s\<bar>) (rev xs))"

definition format_gateway_batch :: "signal_payload list \<Rightarrow> gateway_text" where
  "format_gateway_batch xs = Mass_anomaly (length xs) (take 5 (most_extreme xs))"

definition gateway_message :: "gateway \<Rightarrow> signal_payload list \<Rightarrow> gateway_text" where
  "gateway_message g batch = (if gw_threshold g \<le> length batch then format_gateway_batch batch else Each_signal batch)"

text \<open>A mass message names the most extreme signals of its batch.\<close>

lemma mass_names_extremes:
  assumes "format_gateway_batch xs = Mass_anomaly n named"
  shows "length named = min 5 (length xs) \<and> set named \<subseteq> set xs
    \<and> (\<exists>others. mset xs = mset named + mset others \<and> (\<forall>s \<in> set named. \<forall>t \<in> set others. \<bar>sp_kde t\<bar> \<le> \<bar>sp_kde s\<bar>))"
proof -
  let ?ys = "most_extreme xs"
  have m: "mset ?ys = mset xs" by (simp add: most_extreme_def)
  have "sorted (rev (map (\<lambda>s. \<bar>sp_kde s\<bar>) ?ys))" by (simp add: most_extreme_def rev_map)
  then have "sorted_wrt (\<lambda>s t. \<bar>sp_kde t\<bar> \<le> \<bar>sp_kde s\<bar>) (take 5 ?ys @ drop 5 ?ys)"
    by (simp add: sorted_wrt_rev sorted_wrt_map)
  then have "\<forall>s \<in> set (take 5 ?ys). \<forall>t \<in> set (drop 5 ?ys). \<bar>sp_kde t\<bar> \<le> \<bar>sp_kde s\<bar>" unfolding sorted_wrt_append by blast
  moreover have "mset xs = mset (take 5 ?ys) + mset (drop 5 ?ys)" using m by (metis append_take_drop_id mset_append)
  moreover have "length ?ys = length xs" "set ?ys = set xs" using m by (metis size_mset, metis set_mset_mset)
  ultimately show ?thesis using assms set_take_subset [of 5 ?ys] by (auto simp: format_gateway_batch_def min.commute)
qed

fun grants :: "gateway \<Rightarrow> time list \<Rightarrow> time list" where
  "grants g [] = []"
| "grants g (t # ts) = (if snd (consume_token t g) = None then [t] else []) @ grants (fst (consume_token t g)) ts"

lemma grants_after:
  "gw_capacity g = 1 \<Longrightarrow> gw_rate g = 1 \<Longrightarrow> gw_tokens g \<le> gw_last_fill g - t0 \<Longrightarrow> spaced 1 (t0 # grants g ts)"
proof (induction ts arbitrary: g t0)
  case (Cons t ts)
  let ?g = "fst (consume_token t g)"
  have c: "gw_capacity ?g = 1" "gw_rate ?g = 1" using Cons.prems by (simp_all add: consume_token_def Let_def)
  show ?case
  proof (cases "snd (consume_token t g) = None")
    case True
    then have "1 \<le> t - t0" "gw_tokens ?g \<le> gw_last_fill ?g - t" using Cons.prems by (auto simp: consume_token_def Let_def split: if_splits)
    then show ?thesis using Cons.IH [OF c, of t] True by simp
  next
    case False
    then have "gw_tokens ?g \<le> gw_last_fill ?g - t0" using Cons.prems by (auto simp: consume_token_def Let_def split: if_splits)
    then show ?thesis using Cons.IH [OF c, of t0] False by auto
  qed
qed simp

text \<open>
  Whatever tasks wait for a token and whenever they look, two messages leave the gateway at least a
  second apart.
\<close>

theorem gateway_spaced: "spaced 1 (grants (gateway_init now) ts)"
proof -
  have "spaced 1 (grants g ts)" if "gw_capacity g = 1" "gw_rate g = 1" for g
    using that
  proof (induction ts arbitrary: g)
    case (Cons t ts)
    let ?g = "fst (consume_token t g)"
    have c: "gw_capacity ?g = 1" "gw_rate ?g = 1" using Cons.prems by (simp_all add: consume_token_def Let_def)
    show ?case
    proof (cases "snd (consume_token t g) = None")
      case True
      then have "gw_tokens ?g \<le> gw_last_fill ?g - t" using Cons.prems by (auto simp: consume_token_def Let_def split: if_splits)
      then show ?thesis using grants_after [OF c, of t ts] True by simp
    qed (use Cons.IH [OF c] in auto)
  qed simp
  then show ?thesis by (simp add: gateway_init_def)
qed

end
