(* ===== verification/Seqlock_Bytes.thy ===== *)
theory Seqlock_Bytes
  imports Prelude "HOL-Library.Word"
begin

text \<open>
  The order book in a shared segment under a sequence lock
  (\<open>src/src/infrastructure/seqlock_orderbook.py\<close>): a counter of 64 bits and the bytes of a snapshot.
  The writer is cut into its single stores, the reader into its single loads, so that a reader's
  loads fall anywhere among the writer's stores.  Stores are taken in program order.
\<close>

section \<open>The segment and the writer\<close>

type_synonym cell = "8 word"

record seq_segment =
  sq_counter :: "64 word"
  sq_cells :: "cell list"

datatype seq_store = Bump | Put nat cell

fun do_store :: "seq_store \<Rightarrow> seq_segment \<Rightarrow> seq_segment" where
  "do_store Bump S = S\<lparr>sq_counter := sq_counter S + 1\<rparr>"
| "do_store (Put i c) S = S\<lparr>sq_cells := (sq_cells S)[i := c]\<rparr>"

text \<open>One snapshot: what does not fit is cut off.\<close>

definition snapshot_stores :: "nat \<Rightarrow> cell list \<Rightarrow> seq_store list" where
  "snapshot_stores n bs = Bump # map (\<lambda>(i, c). Put i c) (zip [0..<n] bs) @ [Bump]"

definition write_snapshot :: "cell list \<Rightarrow> seq_segment \<Rightarrow> seq_segment" where
  "write_snapshot bs S = fold do_store (snapshot_stores (length (sq_cells S)) bs) S"

definition segment_init :: "nat \<Rightarrow> seq_segment" where
  "segment_init n = \<lparr>sq_counter = 0, sq_cells = replicate n 0\<rparr>"

section \<open>The reader\<close>

text \<open>
  One round of the reader: the counter it loaded first, the bytes it copied, and the counter it
  loaded last; \<open>None\<close> is another round.
\<close>

definition read_round :: "64 word \<Rightarrow> cell list \<Rightarrow> 64 word \<Rightarrow> cell list option" where
  "read_round seq1 copy seq2 = (if odd (uint seq1) then None else if seq1 = seq2 then Some copy else None)"

text \<open>The segment after the first \<open>k\<close> stores of a writer, and the bytes loaded at the times \<open>ts\<close>.\<close>

definition segment_at :: "seq_store list \<Rightarrow> seq_segment \<Rightarrow> nat \<Rightarrow> seq_segment" where
  "segment_at ss S k = fold do_store (take k ss) S"

definition copy_at :: "seq_store list \<Rightarrow> seq_segment \<Rightarrow> nat list \<Rightarrow> cell list" where
  "copy_at ss S ts = map (\<lambda>i. sq_cells (segment_at ss S (ts ! i)) ! i) [0..<length (sq_cells S)]"

section \<open>What is written\<close>

definition overlay :: "cell list \<Rightarrow> cell list \<Rightarrow> cell list" where
  "overlay bs old = take (length old) bs @ drop (length bs) old"

lemma length_overlay [simp]: "length (overlay bs old) = length old"
  by (simp add: overlay_def)

lemma length_cells [simp]: "length (sq_cells (fold do_store ss S)) = length (sq_cells S)"
proof (induction ss arbitrary: S)
  case (Cons s ss)
  then show ?case by (cases s) simp_all
qed simp

lemma put_all:
  "length bs \<le> n \<Longrightarrow> k + n = length (sq_cells S) \<Longrightarrow>
    fold do_store (map (\<lambda>(i, c). Put i c) (zip [k..<k + n] bs)) S
      = S\<lparr>sq_cells := take k (sq_cells S) @ bs @ drop (k + length bs) (sq_cells S)\<rparr>"
proof (induction bs arbitrary: k n S)
  case (Cons b bs)
  obtain m where n: "n = Suc m" using Cons.prems(1) by (cases n) simp_all
  have u: "[k..<k + n] = k # [Suc k..<Suc k + m]" using n by (simp add: upt_conv_Cons)
  let ?S = "S\<lparr>sq_cells := (sq_cells S)[k := b]\<rparr>"
  have k: "k < length (sq_cells S)" using Cons.prems(2) n by simp
  have "fold do_store (map (\<lambda>(i, c). Put i c) (zip [Suc k..<Suc k + m] bs)) ?S
      = ?S\<lparr>sq_cells := take (Suc k) (sq_cells ?S) @ bs @ drop (Suc k + length bs) (sq_cells ?S)\<rparr>"
    using Cons.prems n by (intro Cons.IH) simp_all
  moreover have "take (Suc k) ((sq_cells S)[k := b]) = take k (sq_cells S) @ [b]"
    using k by (simp add: take_Suc_conv_app_nth)
  ultimately show ?case unfolding u by (simp add: drop_update_cancel)
qed simp

lemma write_snapshot_eq:
  "write_snapshot bs S = S\<lparr>sq_counter := sq_counter S + 2, sq_cells := overlay bs (sq_cells S)\<rparr>"
proof -
  let ?n = "length (sq_cells S)"
  let ?S = "S\<lparr>sq_counter := sq_counter S + 1\<rparr>"
  have "zip [0..<?n] bs = zip [0..<0 + ?n] (take ?n bs)"
    by (rule nth_equalityI) auto
  then show ?thesis
    using put_all [of "take ?n bs" ?n 0 ?S]
    by (cases "length bs \<le> ?n")
      (simp_all add: write_snapshot_def snapshot_stores_def overlay_def)
qed

section \<open>Where a reader can stand\<close>

definition bumps :: "seq_store list \<Rightarrow> nat" where
  "bumps ss = length (filter (\<lambda>s. s = Bump) ss)"

definition snapshots_stores :: "nat \<Rightarrow> cell list list \<Rightarrow> seq_store list" where
  "snapshots_stores n xs = concat (map (snapshot_stores n) xs)"

lemma bumps_simps [simp]:
  "bumps [] = 0" "bumps (Bump # ss) = Suc (bumps ss)" "bumps (Put i c # ss) = bumps ss"
  "bumps (ss @ ts) = bumps ss + bumps ts"
  by (simp_all add: bumps_def)

lemma bumps_puts: "set ss \<subseteq> range (\<lambda>(i, c). Put i c) \<Longrightarrow> bumps ss = 0"
  by (induction ss) auto

lemma bumps_snapshot [simp]: "bumps (snapshot_stores n bs) = 2"
proof -
  have "bumps (map (\<lambda>(i, c). Put i c) (zip [0..<n] bs)) = 0" by (rule bumps_puts) auto
  then show ?thesis by (simp add: snapshot_stores_def)
qed

lemma bumps_inside:
  assumes "0 < k" "k < length (snapshot_stores n bs)"
  shows "bumps (take k (snapshot_stores n bs)) = 1"
proof -
  let ?ps = "map (\<lambda>(i, c). Put i c) (zip [0..<n] bs)"
  obtain j where k: "k = Suc j" using assms(1) by (cases k) simp_all
  have "j \<le> length ?ps" using assms(2) k by (simp add: snapshot_stores_def less_Suc_eq_le)
  then have "take k (snapshot_stores n bs) = Bump # take j ?ps"
    using k by (simp only: snapshot_stores_def take_Suc_Cons take_append diff_is_0_eq' take_0 append_Nil2)
  moreover have "bumps (take j ?ps) = 0"
    by (rule bumps_puts) (use set_take_subset [of j ?ps] in auto)
  ultimately show ?thesis by simp
qed

lemma bumps_snapshots: "bumps (snapshots_stores n xs) = 2 * length xs"
  by (induction xs) (simp_all add: snapshots_stores_def)

text \<open>An even number of bumps has happened only between two whole snapshots.\<close>

lemma even_bumps_whole:
  "even (bumps (take k (snapshots_stores n xs))) \<Longrightarrow>
    \<exists>m\<le>length xs. take k (snapshots_stores n xs) = snapshots_stores n (take m xs)"
proof (induction xs arbitrary: k)
  case (Cons b xs)
  let ?w = "snapshot_stores n b"
  have split: "take k (snapshots_stores n (b # xs)) = take k ?w @ take (k - length ?w) (snapshots_stores n xs)"
    by (simp add: snapshots_stores_def)
  consider "k = 0" | "0 < k" "k < length ?w" | "length ?w \<le> k" by linarith
  then show ?case
  proof cases
    case 1
    then show ?thesis by (intro exI [of _ 0]) (simp add: snapshots_stores_def)
  next
    case 2
    then show ?thesis using Cons.prems unfolding split by (simp add: bumps_inside)
  next
    case 3
    then have "even (bumps (take (k - length ?w) (snapshots_stores n xs)))"
      using Cons.prems unfolding split by simp
    then obtain m where "m \<le> length xs"
      "take (k - length ?w) (snapshots_stores n xs) = snapshots_stores n (take m xs)"
      using Cons.IH by blast
    then show ?thesis using 3 unfolding split
      by (intro exI [of _ "Suc m"]) (simp add: snapshots_stores_def)
  qed
qed (simp add: snapshots_stores_def)

lemma bumps_take_mono: "i \<le> j \<Longrightarrow> bumps (take i ss) \<le> bumps (take j ss)"
proof -
  assume "i \<le> j"
  then have "take j ss = take i ss @ take (j - i) (drop i ss)"
    using take_add [of i "j - i" ss] by simp
  then show ?thesis by simp
qed

lemma counter_bumps: "sq_counter (fold do_store ss S) = sq_counter S + of_nat (bumps ss)"
proof (induction ss arbitrary: S)
  case (Cons s ss)
  then show ?case by (cases s) (simp_all add: algebra_simps)
qed simp

lemma cells_snapshots:
  "n = length (sq_cells S) \<Longrightarrow>
    sq_cells (fold do_store (snapshots_stores n xs) S) = fold overlay xs (sq_cells S)"
proof (induction xs arbitrary: S)
  case (Cons b xs)
  have "fold do_store (snapshots_stores n (b # xs)) S = fold do_store (snapshots_stores n xs) (write_snapshot b S)"
    using Cons.prems by (simp add: snapshots_stores_def write_snapshot_def)
  moreover have "sq_cells (fold do_store (snapshots_stores n xs) (write_snapshot b S))
      = fold overlay xs (sq_cells (write_snapshot b S))"
    using Cons.prems by (intro Cons.IH) (simp add: write_snapshot_eq)
  ultimately show ?case by (simp add: write_snapshot_eq)
qed (simp add: snapshots_stores_def)

lemma counter_at:
  assumes "2 * length xs < 2 ^ 64"
  shows "uint (sq_counter (segment_at (snapshots_stores n xs) (segment_init n) k))
    = int (bumps (take k (snapshots_stores n xs)))"
proof -
  have "bumps (take k (snapshots_stores n xs)) \<le> 2 * length xs"
    using bumps_take_mono [of k "k + length (snapshots_stores n xs)" "snapshots_stores n xs"]
    by (simp add: bumps_snapshots)
  then show ?thesis using assms
    by (simp add: segment_at_def counter_bumps segment_init_def uint_nat unat_of_nat)
qed

text \<open>
  A round of the reader that returns has copied the cells as some whole number of snapshots left
  them, whatever the writer did between its loads, as long as the counter does not come round.
\<close>

theorem snapshot_never_torn:
  assumes "2 * length xs < 2 ^ 64" and ss: "ss = snapshots_stores n xs"
    and loads: "length ts = n" "t0 \<le> t1" "\<forall>t\<in>set ts. t0 \<le> t \<and> t \<le> t1"
    and returns: "read_round (sq_counter (segment_at ss (segment_init n) t0)) (copy_at ss (segment_init n) ts)
        (sq_counter (segment_at ss (segment_init n) t1)) = Some c"
  shows "\<exists>m\<le>length xs. c = fold overlay (take m xs) (replicate n 0)"
proof -
  have same: "bumps (take t1 ss) = bumps (take t0 ss)" and even: "even (bumps (take t0 ss))"
    using returns counter_at [OF assms(1), of n t0] counter_at [OF assms(1), of n t1]
    by (auto simp: read_round_def ss split: if_splits)
  obtain m where m: "m \<le> length xs" "take t0 ss = snapshots_stores n (take m xs)"
    using even_bumps_whole even unfolding ss by blast
  have cells: "sq_cells (segment_at ss (segment_init n) t) = fold overlay (take m xs) (replicate n 0)"
    if "t0 \<le> t" "t \<le> t1" for t
  proof -
    have eq: "bumps (take t ss) = bumps (take t0 ss)"
      using same bumps_take_mono [OF that(1), of ss] bumps_take_mono [OF that(2), of ss] by simp
    obtain k where k: "k \<le> length xs" "take t ss = snapshots_stores n (take k xs)"
      using even_bumps_whole eq even unfolding ss by metis
    have "k = m" using eq m k by (simp add: bumps_snapshots)
    then show ?thesis
      using k(2) cells_snapshots [of n "segment_init n" "take m xs"]
      by (simp add: segment_at_def segment_init_def)
  qed
  have len: "length (fold overlay ys (replicate n 0)) = n" for ys :: "cell list list"
    using cells_snapshots [of n "segment_init n" ys] length_cells [of "snapshots_stores n ys" "segment_init n"]
    by (simp add: segment_init_def)
  have "copy_at ss (segment_init n) ts = fold overlay (take m xs) (replicate n 0)"
    by (rule nth_equalityI) (use loads in \<open>simp_all add: copy_at_def segment_init_def len cells [unfolded segment_init_def]\<close>)
  then have "c = fold overlay (take m xs) (replicate n 0)"
    using returns by (simp add: read_round_def split: if_splits)
  then show ?thesis using m(1) by blast
qed

text \<open>What a returned snapshot need not be: a shorter snapshot leaves the tail of the one before.\<close>

lemma short_snapshot_keeps_tail:
  "length bs \<le> length old \<Longrightarrow> drop (length bs) (overlay bs old) = drop (length bs) old"
  by (simp add: overlay_def)

text \<open>A writer that dies inside a snapshot leaves a counter on which every reader spins for ever.\<close>

lemma dead_writer_blocks:
  assumes "0 < k" "k < length (snapshot_stores n bs)" and "even (uint (sq_counter S))"
  shows "read_round (sq_counter (segment_at (snapshot_stores n bs) S k)) copy seq2 = None"
proof -
  have "odd (uint (sq_counter S + 1))"
    using assms(3) by (simp add: uint_word_ariths dvd_mod_iff)
  then show ?thesis
    by (simp add: read_round_def segment_at_def counter_bumps bumps_inside [OF assms(1,2)])
qed

end
