(* ===== verification/Bybit_Ingest.thy ===== *)
theory Bybit_Ingest
  imports Feed Microstructure
begin

text \<open>
  The exchange client (\<open>src/src/infrastructure/bybit.py\<close>): the WebSocket ingestor with its guards,
  its queue and its watchdog, the listener of the private stream, and what the REST client makes
  of an answer.  The JSON parser is an argument; a message is what it found.  The callbacks are a
  predicate that says which of their calls return.
\<close>

section \<open>The dictionary book\<close>

record l2_book =
  l2_symbol :: symbol
  l2_bids :: "(flt \<times> flt) list"
  l2_asks :: "(flt \<times> flt) list"

definition l2_book_init :: "symbol \<Rightarrow> l2_book" where
  "l2_book_init sy = \<lparr>l2_symbol = sy, l2_bids = [], l2_asks = []\<rparr>"

definition set_price :: "flt \<Rightarrow> flt \<Rightarrow> (flt \<times> flt) list \<Rightarrow> (flt \<times> flt) list" where
  "set_price p v xs = (if v = 0 then AList.delete p xs else AList.update p v xs)"

definition l2_apply_delta :: "string \<Rightarrow> flt \<Rightarrow> flt \<Rightarrow> l2_book \<Rightarrow> l2_book" where
  "l2_apply_delta side p v b =
     (if side = ''bids'' then b\<lparr>l2_bids := set_price p v (l2_bids b)\<rparr>
      else b\<lparr>l2_asks := set_price p v (l2_asks b)\<rparr>)"

section \<open>The public stream\<close>

text \<open>A row of a trade message; \<open>None\<close> is a field that is missing or that cannot be converted.\<close>

record trade_row =
  tw_s :: "string option"
  tw_T :: "int option"
  tw_p :: "flt option"
  tw_v :: "flt option"
  tw_S :: "string option"

record market_tick =
  mt_symbol :: symbol
  mt_price :: flt
  mt_volume :: flt
  mt_side :: string
  mt_ts :: int

definition parse_trade :: "trade_row \<Rightarrow> market_tick option" where
  "parse_trade t =
     (case (tw_s t, tw_T t, tw_p t, tw_v t, tw_S t) of
        (Some s, Some T, Some p, Some v, Some S) \<Rightarrow>
          Some \<lparr>mt_symbol = s, mt_price = p, mt_volume = v, mt_side = S, mt_ts = T\<rparr>
      | _ \<Rightarrow> None)"

text \<open>
  What stands under \<open>data\<close>: nothing, a list of rows, a book with or without a side and with its
  number, or anything else.
\<close>

datatype stream_data =
    No_data
  | Rows "trade_row list"
  | Book bool "int option"
  | Other_data

record stream_msg =
  sm_service :: bool
  sm_topic :: string
  sm_type :: "string option"
  sm_data :: stream_data

datatype stream_call =
    On_tick market_tick
  | On_snapshot symbol stream_msg
  | On_ticker symbol
  | On_alert symbol
  | Kill_socket

text \<open>The four dictionaries by symbol; a raw message is its text and whether it came as bytes.\<close>

record raw_message =
  rm_text :: string
  rm_binary :: bool

record ingestor =
  bi_symbols :: "symbol list"
  bi_connected :: bool
  bi_bbo_only :: bool
  bi_books :: "symbol \<rightharpoonup> l2_book"
  bi_analyzers :: "symbol \<rightharpoonup> analyzer"
  bi_discriminators :: "symbol \<rightharpoonup> discriminator"
  bi_guards :: "symbol \<rightharpoonup> sequence_guard"
  bi_queue :: "raw_message list"
  bi_last_tick :: time
  bi_last_pong :: time

definition ingestor_init :: "symbol list \<Rightarrow> time \<Rightarrow> ingestor" where
  "ingestor_init symbols now =
     \<lparr>bi_symbols = symbols, bi_connected = False, bi_bbo_only = False, bi_books = Map.empty,
      bi_analyzers = Map.empty, bi_discriminators = Map.empty, bi_guards = Map.empty, bi_queue = [],
      bi_last_tick = now, bi_last_pong = now\<rparr>"

definition enable_backpressure :: "bool \<Rightarrow> ingestor \<Rightarrow> ingestor" where
  "enable_backpressure enabled I = I\<lparr>bi_bbo_only := enabled\<rparr>"

definition invalidate_all_l2 :: "ingestor \<Rightarrow> ingestor" where
  "invalidate_all_l2 I = I\<lparr>bi_books := Map.empty, bi_analyzers := Map.empty, bi_discriminators := Map.empty,
     bi_guards := Map.empty\<rparr>"

definition force_kill_socket :: "ingestor \<Rightarrow> ingestor" where
  "force_kill_socket I = invalidate_all_l2 (I\<lparr>bi_connected := False\<rparr>)"

text \<open>The rows of a trade message; a callback that raises ends the message.\<close>

fun handle_rows :: "(stream_call \<Rightarrow> bool) \<Rightarrow> time \<Rightarrow> trade_row list \<Rightarrow> ingestor \<Rightarrow> ingestor \<times> stream_call list" where
  "handle_rows returns now [] I = (I, [])"
| "handle_rows returns now (t # ts) I =
     (let I1 = I\<lparr>bi_last_tick := now\<rparr>
      in case parse_trade t of
           None \<Rightarrow> handle_rows returns now ts I1
         | Some k \<Rightarrow>
             let I2 = (case bi_discriminators I1 (mt_symbol k) of
                         None \<Rightarrow> I1
                       | Some d \<Rightarrow> I1\<lparr>bi_discriminators := (bi_discriminators I1)
                           (mt_symbol k \<mapsto> register_trade (mt_price k) (mt_volume k) d)\<rparr>)
             in if returns (On_tick k)
                then let (I3, cs) = handle_rows returns now ts I2 in (I3, On_tick k # cs)
                else (I2, [On_tick k]))"

text \<open>A symbol that is new gets its book, analyser, discriminator and guard.\<close>

definition ensure_book :: "symbol \<Rightarrow> ingestor \<Rightarrow> ingestor" where
  "ensure_book sy I =
     (if bi_books I sy = None
      then I\<lparr>bi_books := (bi_books I)(sy \<mapsto> l2_book_init sy), bi_analyzers := (bi_analyzers I)(sy \<mapsto> analyzer_init),
             bi_discriminators := (bi_discriminators I)(sy \<mapsto> discriminator_init (95 / 100)),
             bi_guards := (bi_guards I)(sy \<mapsto> sequence_guard_init)\<rparr>
      else I)"

definition guard_view :: "stream_msg \<Rightarrow> guard_msg" where
  "guard_view m = \<lparr>gm_type = sm_type m, gm_u = (case sm_data m of Book _ u \<Rightarrow> u | _ \<Rightarrow> None)\<rparr>"

definition handle_book :: "(stream_call \<Rightarrow> bool) \<Rightarrow> time \<Rightarrow> symbol \<Rightarrow> stream_msg \<Rightarrow> ingestor \<Rightarrow> ingestor \<times> stream_call list" where
  "handle_book returns now sy m I =
     (let I1 = ensure_book sy I
      in case bi_guards I1 sy of
           None \<Rightarrow> (I1, [])
         | Some g \<Rightarrow>
             let (g', ok) = validate_msg (guard_view m) g;
                 I2 = I1\<lparr>bi_guards := (bi_guards I1)(sy \<mapsto> g')\<rparr>
             in if \<not> ok then
                  (if returns (On_alert sy) then (force_kill_socket I2, [On_alert sy, Kill_socket]) else (I2, [On_alert sy]))
                else (I2\<lparr>bi_last_tick := now\<rparr>, [On_snapshot sy m]))"

definition handle_update :: "(stream_call \<Rightarrow> bool) \<Rightarrow> time \<Rightarrow> stream_msg \<Rightarrow> ingestor \<Rightarrow> ingestor \<times> stream_call list" where
  "handle_update returns now m I =
     (if sm_service m \<or> sm_topic m = [] \<or> sm_data m = No_data then (I, [])
      else if starts_with (sm_topic m) ''publicTrade'' then
        (case sm_data m of Rows ts \<Rightarrow> handle_rows returns now ts I | _ \<Rightarrow> (I, []))
      else if starts_with (sm_topic m) ''orderbook'' then
        (case sm_data m of Book True u \<Rightarrow> handle_book returns now (last_segment (sm_topic m)) m I | _ \<Rightarrow> (I, []))
      else if starts_with (sm_topic m) ''tickers'' then (I, [On_ticker (last_segment (sm_topic m))])
      else (I, []))"

section \<open>The socket, the queue and the watchdog\<close>

definition queue_bound :: nat where
  "queue_bound = 75000"

definition enqueue_raw :: "raw_message \<Rightarrow> ingestor \<Rightarrow> ingestor" where
  "enqueue_raw r I = (if length (bi_queue I) < queue_bound then I\<lparr>bi_queue := bi_queue I @ [r]\<rparr> else I)"

text \<open>
  A message from the socket.  Anything with \<open>pong\<close> in it is taken for the answer to a ping.  With
  the backpressure on, the topic is looked for in the message: in bytes that raises, which is
  \<open>None\<close> and ends the session.
\<close>

definition is_pong :: "string \<Rightarrow> bool" where
  "is_pong s \<longleftrightarrow> contains ''pong'' (py_lower s) \<or> contains ''op\":\"pong\"'' (filter (\<lambda>c. c \<noteq> CHR '' '') s)"

definition receive_raw :: "time \<Rightarrow> raw_message \<Rightarrow> ingestor \<Rightarrow> ingestor option" where
  "receive_raw now r I =
     (if is_pong (rm_text r) then Some (I\<lparr>bi_last_pong := now\<rparr>)
      else if bi_bbo_only I \<and> rm_binary r then None
      else if bi_bbo_only I \<and> contains ''\"topic\":\"orderbook.50'' (rm_text r) then Some I
      else Some (enqueue_raw r I))"

text \<open>A session that starts: the state is purged first, then the socket is open.\<close>

definition session_start :: "time \<Rightarrow> ingestor \<Rightarrow> ingestor" where
  "session_start now I = (invalidate_all_l2 I)\<lparr>bi_connected := True, bi_last_pong := now\<rparr>"

definition subscribe_args :: "symbol list \<Rightarrow> string list" where
  "subscribe_args symbols = concat (map (\<lambda>s. [''publicTrade.'' @ s, ''orderbook.50.'' @ s]) symbols)"

definition subscribe_to_symbol :: "symbol \<Rightarrow> ingestor \<Rightarrow> ingestor \<times> string list option" where
  "subscribe_to_symbol sy I =
     (let I1 = (if sy \<in> set (bi_symbols I) then I else I\<lparr>bi_symbols := bi_symbols I @ [sy]\<rparr>)
      in (I1, if bi_connected I1 then Some (subscribe_args [sy]) else None))"

text \<open>One message of the queue; a message that does not parse is logged.\<close>

definition drain_one ::
  "(string \<Rightarrow> stream_msg option) \<Rightarrow> (stream_call \<Rightarrow> bool) \<Rightarrow> time \<Rightarrow> ingestor \<Rightarrow> ingestor \<times> stream_call list" where
  "drain_one loads returns now I =
     (case bi_queue I of
        [] \<Rightarrow> (I, [])
      | r # rs \<Rightarrow>
          (case loads (rm_text r) of
             None \<Rightarrow> (I\<lparr>bi_queue := rs\<rparr>, [])
           | Some m \<Rightarrow> handle_update returns now m (I\<lparr>bi_queue := rs\<rparr>)))"

definition watchdog_poll :: "time \<Rightarrow> ingestor \<Rightarrow> ingestor \<times> stream_call list" where
  "watchdog_poll now I =
     (if 5 < now - bi_last_tick I
      then ((force_kill_socket I)\<lparr>bi_last_tick := now, bi_last_pong := now\<rparr>, [Kill_socket])
      else if 20 < now - bi_last_pong I
      then ((force_kill_socket I)\<lparr>bi_last_tick := now, bi_last_pong := now\<rparr>, [Kill_socket])
      else (I, []))"

text \<open>The pause before the next attempt; \<open>jitter\<close> is the random factor.\<close>

definition ingest_pause :: "nat \<Rightarrow> flt \<Rightarrow> flt" where
  "ingest_pause attempt jitter = min 60 (2 ^ attempt) * jitter"

text \<open>The events of an ingestor, one stretch between awaits each.\<close>

datatype feed_event =
    Session_start time
  | Session_end
  | Receive time raw_message
  | Drain time
  | Poll time
  | Backpressure bool

definition feed_step ::
  "(string \<Rightarrow> stream_msg option) \<Rightarrow> (stream_call \<Rightarrow> bool) \<Rightarrow> ingestor \<Rightarrow> feed_event \<Rightarrow> ingestor \<times> stream_call list" where
  "feed_step loads returns I e =
     (case e of
        Session_start now \<Rightarrow> (session_start now I, [])
      | Session_end \<Rightarrow> (I\<lparr>bi_connected := False\<rparr>, [])
      | Receive now r \<Rightarrow> ((case receive_raw now r I of None \<Rightarrow> I\<lparr>bi_connected := False\<rparr> | Some I' \<Rightarrow> I'), [])
      | Drain now \<Rightarrow> drain_one loads returns now I
      | Poll now \<Rightarrow> watchdog_poll now I
      | Backpressure b \<Rightarrow> (enable_backpressure b I, []))"

section \<open>What is delivered\<close>

text \<open>The book messages of a symbol that were passed on, as the guard sees them.\<close>

definition books_of :: "symbol \<Rightarrow> stream_call list \<Rightarrow> guard_msg list" where
  "books_of sy cs = List.map_filter (\<lambda>c. case c of On_snapshot s m \<Rightarrow> if s = sy then Some (guard_view m) else None | _ \<Rightarrow> None) cs"

definition delivered ::
  "(string \<Rightarrow> stream_msg option) \<Rightarrow> (stream_call \<Rightarrow> bool) \<Rightarrow> symbol \<Rightarrow> ingestor \<Rightarrow> feed_event list \<Rightarrow> guard_msg list" where
  "delivered loads returns sy I es = books_of sy (concat (map snd (run_log (feed_step loads returns) I es)))"

lemma books_of_simps [simp]:
  "books_of sy [] = []"
  "books_of sy (On_tick k # cs) = books_of sy cs"
  "books_of sy (On_ticker s # cs) = books_of sy cs"
  "books_of sy (On_alert s # cs) = books_of sy cs"
  "books_of sy (Kill_socket # cs) = books_of sy cs"
  "books_of sy (On_snapshot s m # cs) = (if s = sy then [guard_view m] else []) @ books_of sy cs"
  "books_of sy (cs @ ds) = books_of sy cs @ books_of sy ds"
  by (simp_all add: books_of_def List.map_filter_def)

lemma delivered_Cons: "delivered loads returns sy I (e # es)
    = books_of sy (snd (feed_step loads returns I e)) @ delivered loads returns sy (fst (feed_step loads returns I e)) es"
  by (simp add: delivered_def)

text \<open>A guard that is in step has the number of the message that was delivered last.\<close>

definition in_step :: "symbol \<Rightarrow> guard_msg option \<Rightarrow> ingestor \<Rightarrow> bool" where
  "in_step sy a I \<longleftrightarrow> (case bi_guards I sy of None \<Rightarrow> True
     | Some g \<Rightarrow> sg_synced g \<longrightarrow> (\<exists>m. a = Some m \<and> sg_last_u g = msg_u m))"

text \<open>An answer delivers at most one message, which continues the last one, and leaves the guard in step.\<close>

definition carries :: "symbol \<Rightarrow> guard_msg option \<Rightarrow> ingestor \<times> stream_call list \<Rightarrow> bool" where
  "carries sy a r \<longleftrightarrow> (case books_of sy (snd r) of
      [] \<Rightarrow> in_step sy a (fst r)
    | v # vs \<Rightarrow> vs = [] \<and> (a = None \<or> follows (the a) v) \<and> in_step sy (Some v) (fst r))"

lemma rows_keep_guards:
  "bi_guards (fst (handle_rows returns now ts I)) = bi_guards I \<and> books_of sy (snd (handle_rows returns now ts I)) = []"
  by (induction ts arbitrary: I) (auto simp: Let_def split_beta split: option.split)

lemma killed_guards [simp]: "bi_guards (force_kill_socket I) = Map.empty" "bi_books (force_kill_socket I) = Map.empty"
  "\<not> bi_connected (force_kill_socket I)" "bi_queue (force_kill_socket I) = bi_queue I"
  by (simp_all add: force_kill_socket_def invalidate_all_l2_def)

lemma ensure_book_guard: "bi_guards (ensure_book sy I) s
    = (if s = sy \<and> bi_books I sy = None then Some sequence_guard_init else bi_guards I s)"
  by (simp add: ensure_book_def)

lemma book_in_step:
  assumes "in_step sy a I"
  shows "carries sy a (handle_book returns now s m I)"
proof (cases "bi_guards (ensure_book s I) s")
  case None
  then show ?thesis using assms by (auto simp: carries_def handle_book_def in_step_def ensure_book_guard sequence_guard_init_def split: if_splits)
next
  case (Some g)
  have g: "s = sy \<Longrightarrow> sg_synced g \<Longrightarrow> \<exists>m. a = Some m \<and> sg_last_u g = msg_u m"
    using assms Some by (auto simp: in_step_def ensure_book_guard sequence_guard_init_def split: if_splits)
  obtain g' ok where v: "validate_msg (guard_view m) g = (g', ok)" by (metis prod.collapse)
  have next_ok: "a = None \<or> follows (the a) (guard_view m)" "g' = \<lparr>sg_last_u = msg_u (guard_view m), sg_synced = True\<rparr>"
    if "s = sy" "ok"
    using that v g accepted_state [of "guard_view m" g] by (auto simp: validate_msg_def follows_def split: if_splits)
  have rejected: "sg_synced g' \<Longrightarrow> g' = g" if "\<not> ok" using that v by (auto simp: validate_msg_def split: if_splits)
  show ?thesis
    using assms Some v next_ok rejected g
    by (auto simp: carries_def handle_book_def in_step_def ensure_book_guard Let_def split: if_splits option.splits)
qed

lemma rows_carry: "in_step sy a I \<Longrightarrow> carries sy a (handle_rows returns now ts I)"
  using rows_keep_guards [of returns now ts I sy] by (simp add: carries_def in_step_def)

lemma step_in_step:
  assumes "in_step sy a I"
  shows "carries sy a (feed_step loads returns I e)"
proof (cases e)
  case (Drain now)
  show ?thesis
  proof (cases "\<exists>r rs m. bi_queue I = r # rs \<and> loads (rm_text r) = Some m")
    case True
    then obtain r rs m where q: "bi_queue I = r # rs" "loads (rm_text r) = Some m" by blast
    let ?I = "I\<lparr>bi_queue := rs\<rparr>"
    have I: "in_step sy a ?I" using assms by (simp add: in_step_def)
    show ?thesis
      using I by (auto simp: Drain feed_step_def drain_one_def q handle_update_def book_in_step rows_carry
          carries_def [of _ _ "(_, [])"] carries_def [of _ _ "(_, [_])"] split: stream_data.split bool.split)
  next
    case False
    then show ?thesis using assms
      by (auto simp: Drain feed_step_def drain_one_def in_step_def carries_def split: list.split option.split)
  qed
qed (use assms in \<open>auto simp: carries_def feed_step_def session_start_def invalidate_all_l2_def in_step_def receive_raw_def
      enqueue_raw_def watchdog_poll_def enable_backpressure_def split: option.split\<close>)

lemma delivered_follows_from:
  "in_step sy a I \<Longrightarrow>
    successively follows ((case a of None \<Rightarrow> [] | Some m \<Rightarrow> [m]) @ delivered loads returns sy I es)"
proof (induction es arbitrary: I a)
  case Nil
  then show ?case by (simp add: delivered_def split: option.split)
next
  case (Cons e es)
  let ?I = "fst (feed_step loads returns I e)"
  show ?case
  proof (cases "books_of sy (snd (feed_step loads returns I e))")
    case Nil
    then show ?thesis using step_in_step [OF Cons.prems, of loads returns e] Cons.IH [of a ?I]
      by (simp add: delivered_Cons carries_def)
  next
    case (Cons v vs)
    then show ?thesis using step_in_step [OF Cons.prems, of loads returns e] Cons.IH [of "Some v" ?I]
      by (auto simp: delivered_Cons carries_def split: option.split)
  qed
qed


section \<open>After a gap\<close>

text \<open>A queued message that parses to a delta of some book.\<close>

definition stale_delta :: "(string \<Rightarrow> stream_msg option) \<Rightarrow> raw_message \<Rightarrow> bool" where
  "stale_delta loads r \<longleftrightarrow>
     (case loads (rm_text r) of None \<Rightarrow> False
      | Some m \<Rightarrow> \<not> sm_service m \<and> starts_with (sm_topic m) ''orderbook'' \<and> sm_type m = Some ''delta''
          \<and> (case sm_data m of Book True u \<Rightarrow> True | _ \<Rightarrow> False))"

definition purged :: "ingestor \<Rightarrow> bool" where
  "purged I \<longleftrightarrow> bi_books I = Map.empty \<and> bi_guards I = Map.empty"

lemma killed_purged [simp]: "purged (force_kill_socket I)"
  by (simp add: purged_def)

lemma starts_with_hd: "starts_with s (c # p) \<Longrightarrow> s \<noteq> [] \<and> hd s = c"
  by (cases s) (auto simp: starts_with_def)

lemma stale_kills:
  assumes "purged I" "bi_queue I = r # rs" "stale_delta loads r" and "\<And>s. returns (On_alert s)"
  shows "\<exists>sy I'. drain_one loads returns now I = (force_kill_socket I', [On_alert sy, Kill_socket]) \<and> bi_queue I' = rs"
proof -
  obtain m u where m: "loads (rm_text r) = Some m" "\<not> sm_service m" "starts_with (sm_topic m) ''orderbook''"
    "sm_type m = Some ''delta''" "sm_data m = Book True u"
    using assms(3) by (auto simp: stale_delta_def split: option.splits stream_data.splits bool.splits)
  have topic: "sm_topic m \<noteq> []" "\<not> starts_with (sm_topic m) ''publicTrade''"
    using m(3) starts_with_hd [of "sm_topic m" "CHR ''o''" "''rderbook''"]
      starts_with_hd [of "sm_topic m" "CHR ''p''" "''ublicTrade''"] by auto
  have "validate_msg (guard_view m) sequence_guard_init = (sequence_guard_init, False)"
    using m(4) by (simp add: validate_msg_def guard_view_def sequence_guard_init_def)
  then show ?thesis
    using assms(1,2,4) m topic
    by (simp add: drain_one_def handle_update_def handle_book_def ensure_book_def purged_def Let_def) force
qed

definition drains :: "feed_event list \<Rightarrow> nat" where
  "drains es = length (filter (\<lambda>e. case e of Drain t \<Rightarrow> True | _ \<Rightarrow> False) es)"

lemma drains_simps [simp]:
  "drains [] = 0" "drains (Drain t # es) = Suc (drains es)" "drains (Session_start t # es) = drains es"
  by (simp_all add: drains_def)

lemma feed_step_simps [simp]:
  "feed_step loads returns I (Drain now) = drain_one loads returns now I"
  "feed_step loads returns I (Session_start now) = (session_start now I, [])"
  by (simp_all add: feed_step_def)


definition demo_stale :: stream_msg where
  "demo_stale = \<lparr>sm_service = False, sm_topic = ''orderbook.50.ETHUSDT'', sm_type = Some ''delta'', sm_data = Book True (Some 9)\<rparr>"

definition demo_gap :: ingestor where
  "demo_gap = (ingestor_init [''ETHUSDT''] 0)\<lparr>bi_queue := replicate 2 \<lparr>rm_text = ''d'', rm_binary = False\<rparr>\<rparr>"


text \<open>A duplicate counts as a gap: any book message that the guard does not accept kills the socket and with it
  the books of all symbols.\<close>

lemma duplicate_kills:
  assumes "bi_books I sy = Some b" "bi_guards I sy = Some \<lparr>sg_last_u = u, sg_synced = True\<rparr>" "0 < u"
    and "sm_type m = Some ''delta''" "sm_data m = Book True (Some u)" "returns (On_alert sy)"
  shows "snd (handle_book returns now sy m I) = [On_alert sy, Kill_socket] \<and> purged (fst (handle_book returns now sy m I))"
  using assms by (simp add: handle_book_def ensure_book_def validate_msg_def guard_view_def msg_u_def)

section \<open>Backpressure, pongs and silence\<close>

text \<open>A message of the books that the backpressure skips.\<close>

definition skipped :: "raw_message \<Rightarrow> bool" where
  "skipped r \<longleftrightarrow> \<not> is_pong (rm_text r) \<and> \<not> rm_binary r \<and> contains ''\"topic\":\"orderbook.50'' (rm_text r)"

lemma skip_run:
  "bi_bbo_only I \<Longrightarrow> \<forall>r\<in>set rs. skipped r \<Longrightarrow>
    run_final (feed_step loads returns) I (map (Receive t) rs) = I"
  by (induction rs) (simp_all add: feed_step_def receive_raw_def skipped_def)

text \<open>Ending the backpressure costs the connection.  The deltas it skipped are missing for the guard: the
  first delta of a symbol after it kills the socket and purges the books of all symbols.\<close>

theorem backpressure_ends_in_kill:
  fixes t :: time
  assumes "bi_bbo_only I" "bi_books I sy = Some b" "bi_guards I sy = Some \<lparr>sg_last_u = u, sg_synced = True\<rparr>" "0 < u"
    and "bi_queue I = []" "\<forall>r\<in>set rs. skipped r" "rs \<noteq> []"
    and "\<not> is_pong (rm_text r)" "loads (rm_text r) = Some m" "\<not> sm_service m" "sm_topic m = ''orderbook.50.'' @ sy"
    and "CHR ''.'' \<notin> set sy" "sm_type m = Some ''delta''" "sm_data m = Book True (Some (u + int (length rs) + 1))"
    and "returns (On_alert sy)"
  defines "es \<equiv> map (Receive t) rs @ [Backpressure False, Receive t r]"
  shows "snd (feed_step loads returns (run_final (feed_step loads returns) I es) (Drain t)) = [On_alert sy, Kill_socket]
    \<and> purged (fst (feed_step loads returns (run_final (feed_step loads returns) I es) (Drain t)))"
proof -
  have "run_final (feed_step loads returns) I es = (I\<lparr>bi_bbo_only := False, bi_queue := [r]\<rparr>)"
    using assms(1,5,6,8) skip_run [of I rs loads returns t]
    by (simp add: es_def feed_step_def enable_backpressure_def receive_raw_def enqueue_raw_def queue_bound_def)
  moreover have "last_segment (sm_topic m) = sy"
    using assms(11,12) by (auto simp: last_segment_def takeWhile_append)
  moreover have "starts_with (sm_topic m) ''orderbook''" "\<not> starts_with (sm_topic m) ''publicTrade''"
    using assms(11) by (simp_all add: starts_with_def)
  ultimately show ?thesis
    using assms by (simp add: feed_step_def drain_one_def handle_update_def handle_book_def ensure_book_def validate_msg_def
        guard_view_def msg_u_def purged_def force_kill_socket_def invalidate_all_l2_def)
qed

theorem backpressure_ends_in_kill_witness:
  "\<exists>I m r rs. snd (feed_step (\<lambda>_. Some m) (\<lambda>_. True)
      (run_final (feed_step (\<lambda>_. Some m) (\<lambda>_. True)) I (map (Receive 1) rs @ [Backpressure False, Receive 1 r])) (Drain 1))
    = [On_alert ''X'', Kill_socket]"
proof -
  let ?I = "(ingestor_init [''X''] 0)\<lparr>bi_bbo_only := True, bi_books := [''X'' \<mapsto> l2_book_init ''X''],
    bi_guards := [''X'' \<mapsto> \<lparr>sg_last_u = 5, sg_synced = True\<rparr>]\<rparr>"
  let ?m = "\<lparr>sm_service = False, sm_topic = ''orderbook.50.X'', sm_type = Some ''delta'', sm_data = Book True (Some 7)\<rparr>"
  let ?r = "\<lparr>rm_text = ''\"topic\":\"orderbook.50.X\"'', rm_binary = False\<rparr>"
  have "skipped ?r" "\<not> is_pong (rm_text ?r)"
    by (simp_all add: skipped_def is_pong_def py_lower_def lower_char_def)
  then show ?thesis
    using backpressure_ends_in_kill [of ?I "''X''" "l2_book_init ''X''" 5 "[?r]" ?r "\<lambda>_. Some ?m" ?m "\<lambda>_. True" 1]
    by (intro exI [of _ ?I] exI [of _ ?m] exI [of _ ?r] exI [of _ "[?r]"]) (simp add: ingestor_init_def)
qed

text \<open>Whatever mentions \<open>pong\<close>, a symbol of that name too, is taken for a heartbeat and not queued.\<close>

lemma pong_symbol_swallowed:
  "contains ''pong'' (py_lower (rm_text r)) \<Longrightarrow> receive_raw now r I = Some (I\<lparr>bi_last_pong := now\<rparr>)"
  by (simp add: receive_raw_def is_pong_def)

text \<open>Only trades and accepted books count as data: a session that receives nothing but pongs is killed by the
  first poll more than five seconds after the last of them.\<close>

lemma pongs_do_not_feed:
  assumes "\<forall>e\<in>set es. \<exists>t r. e = Session_start t \<or> (e = Receive t r \<and> is_pong (rm_text r))" and "5 < now - bi_last_tick I"
  shows "snd (feed_step loads returns (run_final (feed_step loads returns) I es) (Poll now)) = [Kill_socket]"
proof -
  have "bi_last_tick (run_final (feed_step loads returns) I es) = bi_last_tick I"
    by (rule run_final_inv [where P = "\<lambda>J. bi_last_tick J = bi_last_tick I"])
      (use assms(1) in \<open>auto simp: feed_step_def session_start_def invalidate_all_l2_def receive_raw_def\<close>)
  then show ?thesis using assms(2) by (simp add: feed_step_def watchdog_poll_def)
qed

lemma queue_stays_bounded:
  "length (bi_queue I) \<le> queue_bound \<Longrightarrow> receive_raw now r I = Some I' \<Longrightarrow> length (bi_queue I') \<le> queue_bound"
  by (auto simp: receive_raw_def enqueue_raw_def split: if_splits)

lemma ingest_pause_bounds:
  "8 / 10 \<le> j \<Longrightarrow> j \<le> 12 / 10 \<Longrightarrow> 8 / 10 \<le> ingest_pause n j \<and> ingest_pause n j \<le> 72"
proof -
  assume j: "8 / 10 \<le> j" "j \<le> 12 / 10"
  have "1 \<le> min 60 ((2::real) ^ n)" by simp
  then show ?thesis
    using mult_mono [of 1 "min 60 ((2::real) ^ n)" "8 / 10" j] mult_mono [of "min 60 ((2::real) ^ n)" 60 j "12 / 10"] j
    by (simp add: ingest_pause_def)
qed

section \<open>The private stream\<close>

text \<open>A number of a row is missing, cannot be converted, or a number; missing keys of the position rows raise.\<close>

record stream_position =
  pr_symbol :: "symbol option"
  pr_size :: field_val
  pr_entry :: field_val
  pr_side :: string
  pr_time :: "int option"

record stream_order =
  or_symbol :: symbol
  or_status :: string
  or_id :: "string option"
  or_side :: "string option"
  or_price :: field_val
  or_qty :: field_val
  or_value :: field_val

datatype private_msg =
    Positions int "stream_position list"
  | Orders "stream_order list"
  | Other_topic

datatype private_call =
    Clear_exposure symbol
  | Set_exposure symbol flt flt string int
  | Order_update symbol string string flt flt flt

record private_feed =
  pf_terminal :: "symbol \<rightharpoonup> time"
  pf_last_rx :: time
  pf_retries :: nat
  pf_listener :: bool

definition private_init :: "time \<Rightarrow> bool \<Rightarrow> private_feed" where
  "private_init now listener = \<lparr>pf_terminal = Map.empty, pf_last_rx = now, pf_retries = 0, pf_listener = listener\<rparr>"

definition has_recent_terminal_event :: "time \<Rightarrow> symbol \<Rightarrow> time \<Rightarrow> private_feed \<Rightarrow> bool" where
  "has_recent_terminal_event now sy window P \<longleftrightarrow>
     now - (case pf_terminal P sy of None \<Rightarrow> 0 | Some t \<Rightarrow> t) < window"

definition register_terminal_event :: "time \<Rightarrow> symbol \<Rightarrow> private_feed \<Rightarrow> private_feed" where
  "register_terminal_event now sy P = P\<lparr>pf_terminal := (pf_terminal P)(sy \<mapsto> now)\<rparr>"

text \<open>A row that raises ends the session: \<open>None\<close>.\<close>

definition handle_position :: "time \<Rightarrow> int \<Rightarrow> stream_position \<Rightarrow> private_feed \<Rightarrow> (private_feed \<times> private_call) option" where
  "handle_position now ts r P =
     (case (pr_symbol r, pr_size r, pr_entry r) of
        (Some sy, Parsed n, Parsed px) \<Rightarrow>
          if n = 0 then Some (register_terminal_event now sy P, Clear_exposure sy)
          else Some (P, Set_exposure sy n px (py_upper (pr_side r)) (case pr_time r of None \<Rightarrow> ts | Some t \<Rightarrow> t))
      | _ \<Rightarrow> None)"

definition terminal_status :: "string \<Rightarrow> bool" where
  "terminal_status s \<longleftrightarrow> s \<in> {''Filled'', ''Cancelled'', ''Rejected'', ''Deactivated''}"

text \<open>\<open>float(x.get(k, 0))\<close>\<close>

definition float_or_zero :: "field_val \<Rightarrow> flt option" where
  "float_or_zero v = (case v of Missing \<Rightarrow> Some 0 | Unparsable \<Rightarrow> None | Parsed x \<Rightarrow> Some x)"

definition handle_order :: "time \<Rightarrow> stream_order \<Rightarrow> private_feed \<Rightarrow> (private_feed \<times> private_call list) option" where
  "handle_order now r P =
     (let P1 = (if terminal_status (or_status r) then register_terminal_event now (or_symbol r) P else P)
      in if \<not> pf_listener P then Some (P1, [])
         else (case (or_id r, or_side r, float_or_zero (or_price r), float_or_zero (or_qty r), float_or_zero (or_value r)) of
                 (Some oid, Some sd, Some px, Some q, Some v) \<Rightarrow> Some (P1, [Order_update (or_symbol r) oid (or_status r) px q v])
               | _ \<Rightarrow> None))"

fun handle_positions ::
  "time \<Rightarrow> int \<Rightarrow> stream_position list \<Rightarrow> private_feed \<Rightarrow> private_feed \<times> private_call list \<times> bool" where
  "handle_positions now ts [] P = (P, [], True)"
| "handle_positions now ts (r # rs) P =
     (case handle_position now ts r P of
        None \<Rightarrow> (P, [], False)
      | Some (P1, c) \<Rightarrow> (let (P2, cs, fine) = handle_positions now ts rs P1 in (P2, c # cs, fine)))"

text \<open>The order's terminal event is registered before its fields are read.\<close>

fun handle_orders :: "time \<Rightarrow> stream_order list \<Rightarrow> private_feed \<Rightarrow> private_feed \<times> private_call list \<times> bool" where
  "handle_orders now [] P = (P, [], True)"
| "handle_orders now (r # rs) P =
     (case handle_order now r P of
        None \<Rightarrow> ((if terminal_status (or_status r) then register_terminal_event now (or_symbol r) P else P), [], False)
      | Some (P1, cs) \<Rightarrow> (let (P2, ds, fine) = handle_orders now rs P1 in (P2, cs @ ds, fine)))"

definition private_message :: "time \<Rightarrow> private_msg \<Rightarrow> private_feed \<Rightarrow> private_feed \<times> private_call list \<times> bool" where
  "private_message now m P =
     (let P1 = P\<lparr>pf_last_rx := now\<rparr>
      in case m of
           Positions ts rs \<Rightarrow> handle_positions now ts rs P1
         | Orders rs \<Rightarrow> handle_orders now rs P1
         | Other_topic \<Rightarrow> (P1, [], True))"

text \<open>The end of a session: after an exception the retries are counted and the loop sleeps, after a close it does not.\<close>

definition private_pause :: "nat \<Rightarrow> flt" where
  "private_pause n = (if n \<le> 3 then 2 else min 10 (2 * (12 / 10) ^ (n - 3)))"

definition session_ended :: "bool \<Rightarrow> private_feed \<Rightarrow> private_feed \<times> flt" where
  "session_ended raised P =
     (if raised then (P\<lparr>pf_retries := Suc (pf_retries P)\<rparr>, private_pause (Suc (pf_retries P))) else (P, 0))"

definition private_poll :: "time \<Rightarrow> private_feed \<Rightarrow> private_feed \<times> bool" where
  "private_poll now P = (if 60 < now - pf_last_rx P then (P\<lparr>pf_last_rx := now\<rparr>, True) else (P, False))"

section \<open>Recent terminal events\<close>

text \<open>A message whose rows all convert, and what it ends: a position of size 0 or an order in a final status.\<close>

definition rows_convert :: "private_msg \<Rightarrow> bool" where
  "rows_convert m \<longleftrightarrow> (case m of
     Positions ts rs \<Rightarrow> \<forall>r\<in>set rs. \<exists>sy n px. pr_symbol r = Some sy \<and> pr_size r = Parsed n \<and> pr_entry r = Parsed px
   | Orders rs \<Rightarrow> \<forall>r\<in>set rs. or_id r \<noteq> None \<and> or_side r \<noteq> None
       \<and> Unparsable \<notin> {or_price r, or_qty r, or_value r}
   | Other_topic \<Rightarrow> True)"

definition ends_at :: "symbol \<Rightarrow> private_msg \<Rightarrow> bool" where
  "ends_at sy m \<longleftrightarrow> (case m of
     Positions ts rs \<Rightarrow> \<exists>r\<in>set rs. pr_symbol r = Some sy \<and> pr_size r = Parsed 0
   | Orders rs \<Rightarrow> \<exists>r\<in>set rs. or_symbol r = sy \<and> terminal_status (or_status r)
   | Other_topic \<Rightarrow> False)"

definition private_run :: "(time \<times> private_msg) list \<Rightarrow> private_feed \<Rightarrow> private_feed" where
  "private_run ms P = fold (\<lambda>(t, m) P. fst (private_message t m P)) ms P"

lemma positions_terminal:
  "\<forall>r\<in>set rs. \<exists>sy n px. pr_symbol r = Some sy \<and> pr_size r = Parsed n \<and> pr_entry r = Parsed px \<Longrightarrow>
    pf_terminal (fst (handle_positions now ts rs P)) sy
      = (if \<exists>r\<in>set rs. pr_symbol r = Some sy \<and> pr_size r = Parsed 0 then Some now else pf_terminal P sy)"
proof (induction rs arbitrary: P)
  case (Cons r rs)
  obtain s n px where r: "pr_symbol r = Some s" "pr_size r = Parsed n" "pr_entry r = Parsed px"
    using Cons.prems by auto
  show ?case using Cons r
    by (auto simp: handle_position_def register_terminal_event_def Let_def split_beta)
qed simp

lemma orders_terminal:
  "\<forall>r\<in>set rs. or_id r \<noteq> None \<and> or_side r \<noteq> None \<and> Unparsable \<notin> {or_price r, or_qty r, or_value r} \<Longrightarrow>
    pf_terminal (fst (handle_orders now rs P)) sy
      = (if \<exists>r\<in>set rs. or_symbol r = sy \<and> terminal_status (or_status r) then Some now else pf_terminal P sy)"
proof (induction rs arbitrary: P)
  case (Cons r rs)
  let ?P = "if terminal_status (or_status r) then register_terminal_event now (or_symbol r) P else P"
  have "\<exists>cs. handle_order now r P = Some (?P, cs)"
    using Cons.prems by (auto simp: handle_order_def Let_def float_or_zero_def split: field_val.split)
  then obtain cs where h: "handle_order now r P = Some (?P, cs)" by blast
  have "pf_terminal (fst (handle_orders now rs ?P)) sy
      = (if \<exists>r\<in>set rs. or_symbol r = sy \<and> terminal_status (or_status r) then Some now else pf_terminal ?P sy)"
    using Cons.prems by (intro Cons.IH) simp
  then show ?case by (auto simp: h Let_def split_beta register_terminal_event_def)
qed simp

lemma message_terminal:
  "rows_convert m \<Longrightarrow> pf_terminal (fst (private_message now m P)) sy
    = (if ends_at sy m then Some now else pf_terminal P sy)"
  by (cases m) (auto simp: private_message_def rows_convert_def ends_at_def Let_def positions_terminal orders_terminal)

lemma run_terminal:
  "\<forall>(t, m)\<in>set ms. rows_convert m \<Longrightarrow> sorted (map fst ms) \<Longrightarrow> pf_terminal P sy = None \<Longrightarrow>
    (case pf_terminal (private_run ms P) sy of
       None \<Rightarrow> \<forall>(t, m)\<in>set ms. \<not> ends_at sy m
     | Some t \<Rightarrow> (\<exists>m. (t, m) \<in> set ms \<and> ends_at sy m) \<and> (\<forall>(t', m)\<in>set ms. t' \<le> t \<or> \<not> ends_at sy m))"
proof (induction ms rule: rev_induct)
  case (snoc x ms)
  obtain t m where x: "x = (t, m)" by (cases x)
  have "case pf_terminal (private_run ms P) sy of
       None \<Rightarrow> \<forall>(t, m)\<in>set ms. \<not> ends_at sy m
     | Some t \<Rightarrow> (\<exists>m. (t, m) \<in> set ms \<and> ends_at sy m) \<and> (\<forall>(t', m)\<in>set ms. t' \<le> t \<or> \<not> ends_at sy m)"
    using snoc by (simp add: sorted_append)
  moreover have "\<forall>(t', m)\<in>set ms. t' \<le> t" using snoc.prems(2) x by (force simp: sorted_append)
  moreover have "pf_terminal (private_run (ms @ [x]) P) sy = (if ends_at sy m then Some t else pf_terminal (private_run ms P) sy)"
    using snoc.prems(1) x by (simp add: private_run_def message_terminal)
  ultimately show ?case using x by (auto split: option.splits)
qed (simp add: private_run_def)

text \<open>The question whether something of a symbol ended lately.  On a stream whose rows convert, it is answered
  yes exactly when a position of the symbol was closed or an order of it ended within the window - or when the
  monotonic clock itself is younger than the window, because a symbol without an event counts as ended at 0.\<close>

theorem recent_terminal_iff:
  assumes "\<forall>(t, m)\<in>set ms. rows_convert m" "sorted (0 # map fst ms)"
  shows "has_recent_terminal_event now sy window (private_run ms (private_init boot listener))
    \<longleftrightarrow> now < window \<or> (\<exists>(t, m)\<in>set ms. ends_at sy m \<and> now - t < window)"
proof -
  have pos: "\<forall>(t, m)\<in>set ms. 0 \<le> t" using assms(2) by auto
  have "case pf_terminal (private_run ms (private_init boot listener)) sy of
       None \<Rightarrow> \<forall>(t, m)\<in>set ms. \<not> ends_at sy m
     | Some t \<Rightarrow> (\<exists>m. (t, m) \<in> set ms \<and> ends_at sy m) \<and> (\<forall>(t', m)\<in>set ms. t' \<le> t \<or> \<not> ends_at sy m)"
    using assms by (intro run_terminal) (simp_all add: private_init_def)
  then show ?thesis using pos
    by (fastforce simp: has_recent_terminal_event_def split: option.splits)
qed

theorem recent_terminal_iff_witness:
  "has_recent_terminal_event 105 ''X'' 10 (private_run
     [(97, Orders [\<lparr>or_symbol = ''X'', or_status = ''Filled'', or_id = Some ''1'', or_side = Some ''Buy'',
        or_price = Parsed 5, or_qty = Missing, or_value = Missing\<rparr>])] (private_init 0 True))"
  (is "has_recent_terminal_event 105 ''X'' 10 (private_run ?ms _)")
  using recent_terminal_iff [of ?ms 105 "''X''" 10 0 True]
  by (simp add: rows_convert_def ends_at_def terminal_status_def)

text \<open>The pauses after exceptions stay between 2 and 10 seconds; the retries are never reset, so that after a
  dozen of them every exception costs 10 seconds; a stream that the server closes is reopened at once.\<close>

lemma private_pause_bounds: "2 \<le> private_pause n \<and> private_pause n \<le> 10"
proof -
  have "1 \<le> (12 / 10 :: real) ^ (n - 3)" by (rule one_le_power) simp
  then show ?thesis by (simp add: private_pause_def)
qed

lemma retries_never_reset:
  "pf_retries (fst (private_message now m P)) = pf_retries P \<and> pf_retries P \<le> pf_retries (fst (session_ended raised P))"
proof -
  have "pf_retries (fst (handle_positions now ts rs P)) = pf_retries P" for ts rs P
    by (induction rs arbitrary: P)
      (auto simp: handle_position_def register_terminal_event_def Let_def split_beta split: option.split field_val.split)
  moreover have "pf_retries (fst (handle_orders now rs P)) = pf_retries P" for rs P
    by (induction rs arbitrary: P)
      (auto simp: handle_order_def register_terminal_event_def Let_def split_beta split: option.split)
  ultimately show ?thesis by (simp add: private_message_def session_ended_def Let_def split: private_msg.split)
qed

lemma closed_stream_not_paced: "session_ended False P = (P, 0)"
  by (simp add: session_ended_def)

end
