(* ===== verification/Rest_Client.thy ===== *)
theory Rest_Client
  imports Feed "HOL-Library.AList"
begin

text \<open>
  The REST client of the exchange (\<open>BybitRestClient\<close> in \<open>src/src/infrastructure/bybit.py\<close>): the
  requests it sends, as values, and what it makes of the answers.  HMAC-SHA256, the JSON encoder
  and the clock reading are arguments; an answer is what the JSON parser found, or that the
  call raised.
\<close>

section \<open>The requests\<close>

record rest_client =
  rc_key :: "string option"
  rc_secret :: "string option"

datatype http_method = GET | POST

record http_request =
  rq_method :: http_method
  rq_path :: string
  rq_query :: "string option"
  rq_headers :: "(string \<times> string) list"
  rq_body :: "string option"

definition or_text :: "string option \<Rightarrow> string" where
  "or_text s = (case s of None \<Rightarrow> [] | Some t \<Rightarrow> t)"

definition has_keys :: "rest_client \<Rightarrow> bool" where
  "has_keys C \<longleftrightarrow> or_text (rc_key C) \<noteq> [] \<and> or_text (rc_secret C) \<noteq> []"

definition recv_window :: string where
  "recv_window = ''5000''"

definition signature :: "(string \<Rightarrow> string \<Rightarrow> string) \<Rightarrow> rest_client \<Rightarrow> string \<Rightarrow> string \<Rightarrow> string" where
  "signature hmac C ts payload =
     hmac (or_text (rc_secret C)) (ts @ or_text (rc_key C) @ recv_window @ payload)"

definition signed_headers :: "(string \<Rightarrow> string \<Rightarrow> string) \<Rightarrow> rest_client \<Rightarrow> string \<Rightarrow> string \<Rightarrow> (string \<times> string) list" where
  "signed_headers hmac C ts payload =
     [(''X-BAPI-API-KEY'', or_text (rc_key C)), (''X-BAPI-SIGN'', signature hmac C ts payload),
      (''X-BAPI-TIMESTAMP'', ts), (''X-BAPI-RECV-WINDOW'', recv_window)]"

definition signed_get :: "(string \<Rightarrow> string \<Rightarrow> string) \<Rightarrow> rest_client \<Rightarrow> string \<Rightarrow> string \<Rightarrow> string \<Rightarrow> http_request" where
  "signed_get hmac C ts path params =
     \<lparr>rq_method = GET, rq_path = path, rq_query = Some params, rq_headers = signed_headers hmac C ts params, rq_body = None\<rparr>"

definition signed_post :: "(string \<Rightarrow> string \<Rightarrow> string) \<Rightarrow> rest_client \<Rightarrow> string \<Rightarrow> string \<Rightarrow> string \<Rightarrow> http_request" where
  "signed_post hmac C ts path payload =
     \<lparr>rq_method = POST, rq_path = path, rq_query = None,
      rq_headers = signed_headers hmac C ts payload @ [(''Content-Type'', ''application/json'')], rq_body = Some payload\<rparr>"

definition wallet_raw_request where
  "wallet_raw_request hmac C ts account =
     signed_get hmac C ts ''/v5/account/wallet-balance'' (''accountType='' @ account)"

definition active_positions_request where
  "active_positions_request hmac C ts =
     (if has_keys C then Some (signed_get hmac C ts ''/v5/position/list'' ''category=linear&settleCoin=USDT'') else None)"

definition amend_request where
  "amend_request hmac dumps C ts order_id price sy =
     signed_post hmac C ts ''/v5/order/amend''
       (dumps [(''category'', ''linear''), (''symbol'', sy), (''orderId'', order_id), (''price'', price)])"

definition positions_request where
  "positions_request hmac C ts sy = signed_get hmac C ts ''/v5/position/list'' (''category=linear&symbol='' @ sy)"

definition trade_history_request where
  "trade_history_request hmac C ts sy max_rows =
     signed_get hmac C ts ''/v5/execution/list'' (''category=linear&symbol='' @ sy @ ''&limit='' @ int_text max_rows)"

text \<open>\<open>if order_id:\<close> leaves an empty id out as well as none.\<close>

definition cancel_request where
  "cancel_request hmac dumps C ts sy order_id link_id =
     signed_post hmac C ts ''/v5/order/cancel''
       (dumps ([(''category'', ''linear''), (''symbol'', sy)]
          @ (if or_text order_id = [] then [] else [(''orderId'', or_text order_id)])
          @ (if or_text link_id = [] then [] else [(''orderLinkId'', or_text link_id)])))"

definition open_orders_request where
  "open_orders_request hmac C ts sy =
     signed_get hmac C ts ''/v5/order/realtime'' (''category=linear&symbol='' @ sy @ ''&openOnly=0&limit=50'')"

definition wallet_request where
  "wallet_request hmac C ts coin =
     (if has_keys C then Some (signed_get hmac C ts ''/v5/account/wallet-balance'' (''accountType=UNIFIED&coin='' @ coin)) else None)"

text \<open>The public requests carry no signature.\<close>

definition public_get :: "string \<Rightarrow> string option \<Rightarrow> http_request" where
  "public_get path q = \<lparr>rq_method = GET, rq_path = path, rq_query = q, rq_headers = [], rq_body = None\<rparr>"

definition server_time_request :: http_request where
  "server_time_request = public_get ''/v5/market/time'' None"

definition tickers_request :: "symbol option \<Rightarrow> http_request" where
  "tickers_request sy = public_get ''/v5/market/tickers''
     (Some (''category=linear'' @ (if or_text sy = [] then [] else ''&symbol='' @ or_text sy)))"

definition recent_trades_request :: "symbol \<Rightarrow> int \<Rightarrow> http_request" where
  "recent_trades_request sy max_rows = public_get ''/v5/market/recent-trade''
     (Some (''category=linear&symbol='' @ sy @ ''&limit='' @ int_text max_rows))"

definition orderbook_request :: "symbol \<Rightarrow> int \<Rightarrow> http_request" where
  "orderbook_request sy max_rows = public_get ''/v5/market/orderbook''
     (Some (''category=linear&symbol='' @ sy @ ''&limit='' @ int_text max_rows))"

section \<open>The answers\<close>

text \<open>A call raised, or the parser found something.\<close>

datatype 'a reply = Raised string | Answer 'a

definition answer_or :: "'a \<Rightarrow> 'a reply \<Rightarrow> 'a" where
  "answer_or d r = (case r of Raised e \<Rightarrow> d | Answer x \<Rightarrow> x)"

text \<open>\<open>retCode\<close>, and the list of the result (an absent one is empty).\<close>

record 'a listing =
  ls_code :: int
  ls_rows :: "'a list"

definition active_positions :: "rest_client \<Rightarrow> 'a listing reply \<Rightarrow> 'a list" where
  "active_positions C r =
     (if \<not> has_keys C then []
      else case r of Raised e \<Rightarrow> [] | Answer a \<Rightarrow> if ls_code a = 0 then ls_rows a else [])"

definition amend_accepted :: "int reply \<Rightarrow> bool" where
  "amend_accepted r = (case r of Raised e \<Rightarrow> False | Answer code \<Rightarrow> code = 0)"

text \<open>The history and the cancellation answer a failed call with the code -1.\<close>

definition code_or_failed :: "int reply \<Rightarrow> int" where
  "code_or_failed r = answer_or (-1) r"

definition safe_float :: "field_val \<Rightarrow> flt" where
  "safe_float v = (case v of Parsed x \<Rightarrow> x | _ \<Rightarrow> 0)"

text \<open>\<open>a or b or c\<close> of three numbers.\<close>

definition first_truthy :: "flt \<Rightarrow> flt \<Rightarrow> flt \<Rightarrow> flt" where
  "first_truthy a b c = (if a \<noteq> 0 then a else if b \<noteq> 0 then b else c)"

record coin_row =
  cn_coin :: string
  cn_available :: field_val
  cn_wallet :: field_val
  cn_total :: field_val

record account_row =
  ac_coins :: "coin_row list"
  ac_available :: field_val
  ac_wallet :: field_val
  ac_equity :: field_val

definition coin_balance :: "string \<Rightarrow> coin_row list \<Rightarrow> flt" where
  "coin_balance coin cs =
     (case List.find (\<lambda>c. cn_coin c = coin) cs of
        None \<Rightarrow> 0
      | Some c \<Rightarrow> first_truthy (safe_float (cn_available c)) (safe_float (cn_wallet c)) (safe_float (cn_total c)))"

definition account_balance :: "string \<Rightarrow> account_row \<Rightarrow> flt" where
  "account_balance coin a =
     (let b = coin_balance coin (ac_coins a)
      in if b \<le> 0 then first_truthy (safe_float (ac_available a)) (safe_float (ac_wallet a)) (safe_float (ac_equity a)) else b)"

definition virtual_balance :: flt where
  "virtual_balance = 1000"

definition wallet_balance :: "rest_client \<Rightarrow> string \<Rightarrow> account_row listing reply \<Rightarrow> flt" where
  "wallet_balance C coin r =
     (if \<not> has_keys C then virtual_balance
      else case r of
          Raised e \<Rightarrow> virtual_balance
        | Answer a \<Rightarrow>
            if ls_code a \<noteq> 0 then virtual_balance
            else case ls_rows a of
                [] \<Rightarrow> virtual_balance
              | acc # _ \<Rightarrow> if 0 < account_balance coin acc then account_balance coin acc else virtual_balance)"

text \<open>The tickers: the rows (with their symbol, where they have one, and their last price).\<close>

record price_row =
  pw_symbol :: "symbol option"
  pw_last :: field_val

definition ticker_price :: "price_row listing reply \<Rightarrow> flt" where
  "ticker_price r =
     (case r of
        Raised e \<Rightarrow> 0
      | Answer a \<Rightarrow> (case ls_rows a of [] \<Rightarrow> 0 | t # _ \<Rightarrow> safe_float (pw_last t)))"

definition ticker_rows :: "price_row listing reply \<Rightarrow> price_row list" where
  "ticker_rows r = (case r of Raised e \<Rightarrow> [] | Answer a \<Rightarrow> ls_rows a)"

text \<open>The discovery of the symbols: a row without a symbol raises, and only that takes the fallback.\<close>

definition fetch_active_symbols :: "price_row listing reply \<Rightarrow> symbol list" where
  "fetch_active_symbols r =
     (if \<exists>t\<in>set (ticker_rows r). pw_symbol t = None then [''BTCUSDT'', ''ETHUSDT'']
      else filter (\<lambda>s. ends_with s ''USDT'') (map (\<lambda>t. or_text (pw_symbol t)) (ticker_rows r)))"

section \<open>What is signed is what is sent\<close>

definition header :: "string \<Rightarrow> http_request \<Rightarrow> string" where
  "header k q = (case map_of (rq_headers q) k of None \<Rightarrow> [] | Some v \<Rightarrow> v)"

text \<open>What the exchange signs when it checks a request: the query of a GET, the body of a POST.\<close>

definition sent_payload :: "http_request \<Rightarrow> string" where
  "sent_payload q = (case rq_method q of GET \<Rightarrow> or_text (rq_query q) | POST \<Rightarrow> or_text (rq_body q))"

definition verifies :: "(string \<Rightarrow> string \<Rightarrow> string) \<Rightarrow> string \<Rightarrow> http_request \<Rightarrow> bool" where
  "verifies hmac secret q \<longleftrightarrow>
     header ''X-BAPI-SIGN'' q = hmac secret (header ''X-BAPI-TIMESTAMP'' q @ header ''X-BAPI-API-KEY'' q
       @ header ''X-BAPI-RECV-WINDOW'' q @ sent_payload q)"

lemma signed_verifies [simp]:
  "verifies hmac (or_text (rc_secret C)) (signed_get hmac C ts path params)"
  "verifies hmac (or_text (rc_secret C)) (signed_post hmac C ts path payload)"
  by (simp_all add: verifies_def header_def signed_get_def signed_post_def signed_headers_def signature_def
      sent_payload_def or_text_def)

datatype private_op =
    Op_wallet string
  | Op_positions
  | Op_amend string string symbol
  | Op_position symbol
  | Op_history symbol int
  | Op_cancel symbol "string option" "string option"
  | Op_open symbol
  | Op_balance string

definition request_of :: "(string \<Rightarrow> string \<Rightarrow> string) \<Rightarrow> ((string \<times> string) list \<Rightarrow> string) \<Rightarrow> rest_client \<Rightarrow> string \<Rightarrow> private_op \<Rightarrow> http_request option" where
  "request_of hmac dumps C ts op = (case op of
     Op_wallet account \<Rightarrow> Some (wallet_raw_request hmac C ts account)
   | Op_positions \<Rightarrow> active_positions_request hmac C ts
   | Op_amend oid px sy \<Rightarrow> Some (amend_request hmac dumps C ts oid px sy)
   | Op_position sy \<Rightarrow> Some (positions_request hmac C ts sy)
   | Op_history sy max_rows \<Rightarrow> Some (trade_history_request hmac C ts sy max_rows)
   | Op_cancel sy oid lid \<Rightarrow> Some (cancel_request hmac dumps C ts sy oid lid)
   | Op_open sy \<Rightarrow> Some (open_orders_request hmac C ts sy)
   | Op_balance coin \<Rightarrow> wallet_request hmac C ts coin)"

text \<open>The exchange accepts the signature of every private request: what the client signs is exactly the query or
  body that is sent, with the timestamp, key and window of the headers; and only the two requests
  that ask for keys are left unsent without them.\<close>

theorem requests_verify:
  "(case request_of hmac dumps C ts op of None \<Rightarrow> True | Some q \<Rightarrow> verifies hmac (or_text (rc_secret C)) q)
    \<and> (request_of hmac dumps C ts op = None \<longleftrightarrow> \<not> has_keys C \<and> (op = Op_positions \<or> (\<exists>coin. op = Op_balance coin)))"
  by (cases op) (simp_all add: request_of_def wallet_raw_request_def active_positions_request_def amend_request_def
      positions_request_def trade_history_request_def cancel_request_def open_orders_request_def wallet_request_def)

section \<open>The balance\<close>

text \<open>
  The balance that is reported is always positive.  A call that raised, a rejected one and an account without
  funds are reported as 1000; a real balance is never invented otherwise.
\<close>

theorem balance_or_virtual:
  "0 < wallet_balance C coin r \<and>
   (wallet_balance C coin r = virtual_balance \<or>
    (\<exists>a acc rest. has_keys C \<and> r = Answer a \<and> ls_code a = 0 \<and> ls_rows a = acc # rest
       \<and> wallet_balance C coin r = account_balance coin acc))"
  by (auto simp: wallet_balance_def virtual_balance_def split: reply.split list.split)

lemma empty_account_reports_1000:
  "has_keys C \<Longrightarrow> ac_coins acc = [] \<Longrightarrow> ac_available acc = Parsed 0 \<Longrightarrow> ac_wallet acc = Parsed 0 \<Longrightarrow>
    ac_equity acc = Parsed 0 \<Longrightarrow> wallet_balance C coin (Answer \<lparr>ls_code = 0, ls_rows = [acc]\<rparr>) = 1000"
  by (simp add: wallet_balance_def account_balance_def coin_balance_def first_truthy_def safe_float_def virtual_balance_def)

text \<open>A call that raises gives no symbols; the fallback of two symbols is not taken for it.\<close>

lemma failed_discovery_is_empty: "fetch_active_symbols (Raised e) = []"
  by (simp add: fetch_active_symbols_def ticker_rows_def)

end
