(* ===== verification/Scouts.thy ===== *)
theory Scouts
  imports Feed "HOL-Library.List_Lexorder" "HOL-Library.Char_ord"
begin

text \<open>
  The scanner that chooses which symbols are watched (\<open>src/src/application/vanguard.py\<close>) and the purged
  cross-validation of labelled events (\<open>src/src/domain/entities/purged_cv.py\<close>).
\<close>

section \<open>The scanner\<close>

record market_row =
  mw_symbol :: symbol
  mw_turnover :: flt

definition core_symbols :: "symbol list" where
  "core_symbols = [''BTCUSDT'', ''ETHUSDT'', ''SOLUSDT'']"

text \<open>\<open>xs[:k]\<close>: a negative bound counts from the end.\<close>

definition slice_to :: "'a list \<Rightarrow> int \<Rightarrow> 'a list" where
  "slice_to xs k = (if 0 \<le> k then take (nat k) xs else take (length xs - nat (- k)) xs)"

definition filter_top_liquidity :: "int \<Rightarrow> market_row list \<Rightarrow> symbol set" where
  "filter_top_liquidity max_symbols rows =
     (let candidates = filter (\<lambda>t. ends_with (mw_symbol t) ''USDT'' \<and> \<not> mw_turnover t < 50000000) rows
      in set (map mw_symbol (slice_to (sort_key (\<lambda>t. - mw_turnover t) candidates) (max_symbols - 3))))"

text \<open>
  A rebalance.  The set iterators give the symbols in some order; stopping a symbol may raise, starting one
  raises (\<open>None\<close>) or answers whether it was hydrated.
\<close>

fun cool_down :: "(symbol \<Rightarrow> bool) \<Rightarrow> symbol list \<Rightarrow> symbol set \<Rightarrow> symbol set \<times> bool" where
  "cool_down stops [] A = (A, True)"
| "cool_down stops (s # ss) A = (if stops s then cool_down stops ss (A - {s}) else (A, False))"

fun heat_up :: "(symbol \<Rightarrow> bool option) \<Rightarrow> symbol list \<Rightarrow> symbol set \<Rightarrow> symbol set" where
  "heat_up starts [] A = A"
| "heat_up starts (s # ss) A =
     (case starts s of None \<Rightarrow> A | Some armed \<Rightarrow> heat_up starts ss (if armed then insert s A else A))"

definition rebalance ::
  "(symbol \<Rightarrow> bool) \<Rightarrow> (symbol \<Rightarrow> bool option) \<Rightarrow> symbol list \<Rightarrow> symbol list \<Rightarrow> symbol set \<Rightarrow> symbol set" where
  "rebalance stops starts to_remove to_add A =
     (case cool_down stops to_remove A of (A1, done) \<Rightarrow> if done then heat_up starts to_add A1 else A1)"

definition target_universe :: "symbol set \<Rightarrow> symbol set" where
  "target_universe hot = hot \<union> set core_symbols"

text \<open>One scan: a failed request for the tickers leaves the universe as it is.\<close>

record scan_env =
  se_rows :: "market_row list option"
  se_stops :: "symbol \<Rightarrow> bool"
  se_starts :: "symbol \<Rightarrow> bool option"
  se_order :: "symbol set \<Rightarrow> symbol list"

definition scan_cycle :: "int \<Rightarrow> scan_env \<Rightarrow> symbol set \<Rightarrow> symbol set" where
  "scan_cycle max_symbols env A =
     (case se_rows env of
        None \<Rightarrow> A
      | Some rows \<Rightarrow>
          let target = target_universe (filter_top_liquidity max_symbols rows)
          in rebalance (se_stops env) (se_starts env) (se_order env (A - target)) (se_order env (target - A)) A)"

definition order_ok :: "(symbol set \<Rightarrow> symbol list) \<Rightarrow> bool" where
  "order_ok order \<longleftrightarrow> (\<forall>S. finite S \<longrightarrow> set (order S) = S)"

lemma cool_down_spec:
  "cool_down stops ss A = (A', done) \<Longrightarrow> A - set ss \<subseteq> A' \<and> A' \<subseteq> A \<and> (done \<longrightarrow> A' = A - set ss)"
  by (induction ss arbitrary: A) (auto split: if_splits)

lemma heat_up_spec: "A \<subseteq> heat_up starts ss A \<and> heat_up starts ss A \<subseteq> A \<union> set ss"
proof (induction ss arbitrary: A)
  case (Cons s ss)
  have "A \<subseteq> B \<Longrightarrow> B \<subseteq> insert s A \<Longrightarrow> A \<subseteq> heat_up starts ss B \<and> heat_up starts ss B \<subseteq> A \<union> set (s # ss)" for B
    using Cons.IH [of B] by auto
  then show ?case by (auto split: option.split)
qed simp

lemma finite_target [simp]: "finite (target_universe (filter_top_liquidity n rows))"
  by (simp add: target_universe_def filter_top_liquidity_def Let_def)

lemma card_filter_top: "3 \<le> max_symbols \<Longrightarrow> card (filter_top_liquidity max_symbols rows) \<le> nat (max_symbols - 3)"
  unfolding filter_top_liquidity_def Let_def slice_to_def
  by (rule order_trans [OF card_length]) simp

lemma card_target:
  assumes "3 \<le> max_symbols"
  shows "int (card (target_universe (filter_top_liquidity max_symbols rows))) \<le> max_symbols"
proof -
  let ?hot = "filter_top_liquidity max_symbols rows"
  have "card ?hot \<le> nat (max_symbols - 3)"
    using assms by (rule card_filter_top)
  moreover have "card (set core_symbols) \<le> 3" by (rule order_trans [OF card_length]) (simp add: core_symbols_def)
  moreover have "card (?hot \<union> set core_symbols) \<le> card ?hot + card (set core_symbols)" by (rule card_Un_le)
  ultimately show ?thesis using assms by (simp add: target_universe_def)
qed

definition universe_ok :: "int \<Rightarrow> symbol set \<Rightarrow> bool" where
  "universe_ok max_symbols A \<longleftrightarrow> set core_symbols \<subseteq> A \<and> finite A \<and> int (card A) \<le> max_symbols"

lemma scan_keeps_universe:
  assumes "universe_ok max_symbols A" "3 \<le> max_symbols" "order_ok (se_order env)"
  shows "universe_ok max_symbols (scan_cycle max_symbols env A)"
proof (cases "se_rows env")
  case (Some rows)
  let ?T = "target_universe (filter_top_liquidity max_symbols rows)"
  obtain A1 ok where cd: "cool_down (se_stops env) (se_order env (A - ?T)) A = (A1, ok)" by (metis prod.collapse)
  have fin: "finite A" "finite ?T" using assms(1) by (simp_all add: universe_ok_def)
  then have A1: "A \<inter> ?T \<subseteq> A1" "A1 \<subseteq> A" "ok \<Longrightarrow> A1 = A \<inter> ?T"
    using cool_down_spec [OF cd] assms(3) by (auto simp: order_ok_def)
  have core: "set core_symbols \<subseteq> A1" using A1(1) assms(1) by (auto simp: universe_ok_def target_universe_def)
  show ?thesis
  proof (cases ok)
    case True
    let ?A = "heat_up (se_starts env) (se_order env (?T - A)) A1"
    have "set (se_order env (?T - A)) = ?T - A" using assms(3) fin by (simp add: order_ok_def)
    then have "A1 \<subseteq> ?A" "?A \<subseteq> ?T"
      using heat_up_spec [of A1 "se_starts env" "se_order env (?T - A)"] A1(3) [OF True] by blast+
    have "card ?A \<le> card ?T" using \<open>?A \<subseteq> ?T\<close> by (rule card_mono [OF fin(2)])
    then have "int (card ?A) \<le> max_symbols" using card_target [OF assms(2), of rows] by linarith
    moreover have "finite ?A" using \<open>?A \<subseteq> ?T\<close> fin(2) by (rule finite_subset)
    moreover have "set core_symbols \<subseteq> ?A" using core \<open>A1 \<subseteq> ?A\<close> by (rule subset_trans)
    ultimately show ?thesis using cd True Some by (simp add: universe_ok_def scan_cycle_def rebalance_def)
  next
    case False
    have "int (card A1) \<le> max_symbols" using card_mono [OF fin(1) A1(2)] assms(1) by (simp add: universe_ok_def)
    then show ?thesis using core finite_subset [OF A1(2) fin(1)] cd False Some
      by (simp add: universe_ok_def scan_cycle_def rebalance_def)
  qed
qed (use assms in \<open>simp add: scan_cycle_def\<close>)

text \<open>The watched universe over any number of scans, whatever requests, stops and starts fail: the three leaders
  are always watched, and never more than the configured number of symbols.\<close>

theorem universe_bounded:
  assumes "3 \<le> max_symbols" "\<forall>env\<in>set envs. order_ok (se_order env)"
  shows "universe_ok max_symbols (fold (scan_cycle max_symbols) envs (set core_symbols))"
proof (rule fold_inv)
  show "universe_ok max_symbols (set core_symbols)"
    using assms(1) card_length [of core_symbols] by (simp add: universe_ok_def core_symbols_def)
qed (use assms scan_keeps_universe in blast)

definition demo_scan :: scan_env where
  "demo_scan = \<lparr>se_rows = Some [\<lparr>mw_symbol = ''XRPUSDT'', mw_turnover = 60000000\<rparr>], se_stops = (\<lambda>_. True),
     se_starts = (\<lambda>_. Some True), se_order = sorted_list_of_set\<rparr>"

theorem universe_bounded_witness: "universe_ok 8 (fold (scan_cycle 8) [demo_scan] (set core_symbols))"
proof (rule universe_bounded)
  show "\<forall>env\<in>set [demo_scan]. order_ok (se_order env)"
    by (simp add: demo_scan_def order_ok_def)
qed simp

text \<open>Below three the bound of the slice is negative and the scanner takes all but the last candidates.\<close>

lemma small_bound_takes_nearly_all:
  "\<forall>t\<in>set rows. ends_with (mw_symbol t) ''USDT'' \<and> 50000000 \<le> mw_turnover t \<Longrightarrow>
    filter_top_liquidity 2 rows = set (map mw_symbol (take (length rows - 1) (sort_key (\<lambda>t. - mw_turnover t) rows)))"
  by (simp add: filter_top_liquidity_def Let_def slice_to_def not_less filter_id_conv)

text \<open>The slots kept for the leaders are not used by others when the leaders are among the candidates.\<close>

lemma leaders_take_slots:
  assumes "set core_symbols \<subseteq> filter_top_liquidity max_symbols rows" "3 \<le> max_symbols"
  shows "int (card (target_universe (filter_top_liquidity max_symbols rows))) \<le> max_symbols - 3"
proof -
  have "target_universe (filter_top_liquidity max_symbols rows) = filter_top_liquidity max_symbols rows"
    using assms(1) by (auto simp: target_universe_def)
  moreover have "card (filter_top_liquidity max_symbols rows) \<le> nat (max_symbols - 3)"
    using assms(2) by (rule card_filter_top)
  ultimately show ?thesis using assms(2) by simp
qed

section \<open>Purged cross-validation\<close>

text \<open>An event with its entry and its exit time; the table is ordered by the entries.\<close>

record label_event =
  le_entry :: time
  le_exit :: time

record purged_kfold =
  pk_splits :: nat
  pk_embargo_pct :: flt

text \<open>\<open>numpy.array_split\<close>: the first \<open>n mod k\<close> chunks have one index more.\<close>

definition chunk_start :: "nat \<Rightarrow> nat \<Rightarrow> nat \<Rightarrow> nat" where
  "chunk_start n k j = j * (n div k) + min j (n mod k)"

definition test_bounds :: "nat \<Rightarrow> nat \<Rightarrow> (nat \<times> nat) list" where
  "test_bounds n k = map (\<lambda>j. (chunk_start n k j, chunk_start n k (Suc j))) [0..<k]"

text \<open>Whether an event outside the test fold may be trained on.\<close>

definition survives :: "label_event list \<Rightarrow> nat \<Rightarrow> nat \<Rightarrow> nat \<Rightarrow> nat \<Rightarrow> bool" where
  "survives events embargo a b i =
     (let t0 = le_entry (events ! a); t1 = le_exit (events ! (b - 1)); e = events ! i
      in if le_entry e \<le> t1 \<and> t0 \<le> le_exit e then False
         else if t1 < le_entry e
         then \<not> le_entry e \<le> le_entry (events ! min (b + embargo) (length events - 1))
         else True)"

definition split_fold :: "label_event list \<Rightarrow> nat \<Rightarrow> nat \<times> nat \<Rightarrow> nat list \<times> nat list" where
  "split_fold events embargo ab =
     (case ab of (a, b) \<Rightarrow>
        (filter (\<lambda>i. \<not> (a \<le> i \<and> i < b) \<and> survives events embargo a b i) [0..<length events], [a..<b]))"

text \<open>No folds are refused by numpy; with fewer events than folds the bounds of an empty chunk raise.\<close>

definition purged_split :: "purged_kfold \<Rightarrow> label_event list \<Rightarrow> py_error + (nat list \<times> nat list) list" where
  "purged_split K events =
     (if pk_splits K = 0 then Inl (ValueError ''number sections must be larger than 0.'')
      else if length events < pk_splits K then Inl IndexError
      else Inr (map (split_fold events (nat (py_int (real (length events) * pk_embargo_pct K))))
             (test_bounds (length events) (pk_splits K))))"

definition entries_sorted :: "label_event list \<Rightarrow> bool" where
  "entries_sorted events \<longleftrightarrow> sorted (map le_entry events)"

definition exits_sorted :: "label_event list \<Rightarrow> bool" where
  "exits_sorted events \<longleftrightarrow> sorted (map le_exit events)"

text \<open>Two events overlap when their windows have a moment in common.\<close>

definition overlap :: "label_event \<Rightarrow> label_event \<Rightarrow> bool" where
  "overlap e f \<longleftrightarrow> le_entry e \<le> le_exit f \<and> le_entry f \<le> le_exit e"

lemma chunk_start_0 [simp]: "chunk_start n k 0 = 0"
  by (simp add: chunk_start_def)

lemma chunk_start_end: "0 < k \<Longrightarrow> chunk_start n k k = n"
  by (simp add: chunk_start_def min_absorb2 less_imp_le)

lemma chunk_start_less: "0 < k \<Longrightarrow> k \<le> n \<Longrightarrow> chunk_start n k j < chunk_start n k (Suc j)"
proof -
  assume "0 < k" "k \<le> n"
  then have "0 < n div k" by (simp add: div_greater_zero_iff)
  then show ?thesis by (simp add: chunk_start_def add_less_le_mono min.coboundedI1)
qed

lemma chunk_start_mono: "i \<le> j \<Longrightarrow> chunk_start n k i \<le> chunk_start n k j"
  unfolding chunk_start_def by (intro add_mono mult_right_mono) auto

lemma test_folds_cover:
  assumes "0 < k"
  shows "concat (map (\<lambda>(a, b). [a..<b]) (test_bounds n k)) = [0..<n]"
proof -
  have "concat (map (\<lambda>(a, b). [a..<b]) (map (\<lambda>j. (chunk_start n k j, chunk_start n k (Suc j))) [0..<m])) = [0..<chunk_start n k m]" for m
  proof (induction m)
    case (Suc m)
    have "[0..<chunk_start n k m] @ [chunk_start n k m..<chunk_start n k (Suc m)] = [0..<chunk_start n k (Suc m)]"
      using upt_add_eq_append [of 0 "chunk_start n k m" "chunk_start n k (Suc m) - chunk_start n k m"]
        chunk_start_mono [of m "Suc m" n k] by simp
    then show ?case using Suc by simp
  qed simp
  from this [of k] show ?thesis using chunk_start_end [OF assms, of n] by (simp add: test_bounds_def)
qed

lemma survivor_apart:
  assumes "entries_sorted events" "exits_sorted events" "a < b" "b \<le> length events"
    and "i < length events" "survives events embargo a b i" "a \<le> j" "j < b"
  shows "\<not> overlap (events ! i) (events ! j)"
proof -
  have "le_entry (events ! a) \<le> le_entry (events ! j)"
    using assms(1,4,7,8) sorted_nth_mono [of "map le_entry events" a j] by (simp add: entries_sorted_def)
  moreover have "le_exit (events ! j) \<le> le_exit (events ! (b - 1))"
    using assms(2,4,8) sorted_nth_mono [of "map le_exit events" j "b - 1"] by (simp add: exits_sorted_def)
  ultimately show ?thesis using assms(6) by (auto simp: survives_def overlap_def Let_def split: if_splits)
qed

lemma survivor_embargoed:
  assumes "entries_sorted events" "b \<le> length events" "i < length events"
    and "survives events embargo a b i"
  shows "le_entry (events ! i) \<le> le_exit (events ! (b - 1)) \<or> b + embargo < i"
proof (rule ccontr)
  assume late: "\<not> (le_entry (events ! i) \<le> le_exit (events ! (b - 1)) \<or> b + embargo < i)"
  then have "i \<le> min (b + embargo) (length events - 1)" using assms(3) by simp
  then have "le_entry (events ! i) \<le> le_entry (events ! min (b + embargo) (length events - 1))"
    using assms(1,3) sorted_nth_mono [of "map le_entry events" i "min (b + embargo) (length events - 1)"]
    by (simp add: entries_sorted_def)
  then show False using assms(4) late by (simp add: survives_def)
qed

text \<open>What a split promises: nothing of the test is trained on, no trained event overlaps a tested one, and a trained
  event after the test starts beyond the embargo.\<close>

definition fold_clean :: "label_event list \<Rightarrow> nat \<Rightarrow> nat list \<times> nat list \<Rightarrow> bool" where
  "fold_clean events embargo tt \<longleftrightarrow> set (fst tt) \<inter> set (snd tt) = {} \<and> snd tt \<noteq> [] \<and>
     list_all (\<lambda>i. list_all (\<lambda>j. \<not> overlap (events ! i) (events ! j)) (snd tt)
       \<and> (le_entry (events ! i) \<le> le_exit (events ! last (snd tt)) \<or> last (snd tt) + 1 + embargo < i)) (fst tt)"

lemma split_fold_clean:
  assumes "entries_sorted events" "exits_sorted events" "a < b" "b \<le> length events"
  shows "fold_clean events embargo (split_fold events embargo (a, b))"
proof -
  have last: "last [a..<b] = b - 1" "Suc (b - 1) = b" using assms(3) by simp_all
  have "\<not> overlap (events ! i) (events ! j)" if "i < length events" "survives events embargo a b i" "j \<in> set [a..<b]" for i j
    using survivor_apart [OF assms that(1,2)] that(3) by simp
  moreover have "le_entry (events ! i) \<le> le_exit (events ! last [a..<b]) \<or> last [a..<b] + 1 + embargo < i"
    if "i < length events" "survives events embargo a b i" for i
    using survivor_embargoed [OF assms(1,4) that] last assms(3) by simp
  ultimately show ?thesis
    using assms(3) unfolding fold_clean_def split_fold_def prod.case fst_conv snd_conv list_all_iff by auto
qed

text \<open>C38: Purging keeps the test out of the training.  With at least as many events as folds the split succeeds; its
  test folds cover every event exactly once and in order; and on a table whose entries and exits
  are both in order each fold is clean, with the embargo as configured.\<close>

theorem purged_split_clean:
  assumes "0 < pk_splits K" "pk_splits K \<le> length events" "entries_sorted events" "exits_sorted events"
  shows "case purged_split K events of Inl e \<Rightarrow> False
    | Inr splits \<Rightarrow> concat (map snd splits) = [0..<length events] \<and> length splits = pk_splits K
        \<and> list_all (fold_clean events (nat (py_int (real (length events) * pk_embargo_pct K)))) splits"
proof -
  let ?n = "length events" and ?k = "pk_splits K" and ?emb = "nat (py_int (real (length events) * pk_embargo_pct K))"
  have "fold_clean events ?emb (split_fold events ?emb (chunk_start ?n ?k j, chunk_start ?n ?k (Suc j)))" if "j < ?k" for j
    using that assms chunk_start_less [OF assms(1,2)] chunk_start_mono [of "Suc j" ?k ?n ?k] chunk_start_end [OF assms(1), of ?n]
    by (intro split_fold_clean) auto
  moreover have "concat (map snd (map (split_fold events ?emb) (test_bounds ?n ?k))) = [0..<?n]"
    using test_folds_cover [OF assms(1), of ?n] by (simp add: split_fold_def comp_def case_prod_beta')
  ultimately show ?thesis
    using assms by (simp add: purged_split_def list_all_iff test_bounds_def)
qed

definition demo_labels :: "label_event list" where
  "demo_labels = map (\<lambda>i. \<lparr>le_entry = real i, le_exit = real i + 3 / 2\<rparr>) [0..<6]"

theorem purged_split_clean_witness:
  "case purged_split \<lparr>pk_splits = 2, pk_embargo_pct = 0\<rparr> demo_labels of Inl e \<Rightarrow> False
    | Inr splits \<Rightarrow> concat (map snd splits) = [0..<6]"
proof -
  have "entries_sorted demo_labels" "exits_sorted demo_labels" "length demo_labels = 6"
    by (simp_all add: entries_sorted_def exits_sorted_def demo_labels_def upt_rec)
  then show ?thesis
    using purged_split_clean [of "\<lparr>pk_splits = 2, pk_embargo_pct = 0\<rparr>" demo_labels] by (simp split: sum.splits)
qed

text \<open>The end of a test fold is the exit of its last event and not the latest exit: with an earlier event that lasts
  longer, an event inside its window is trained on.\<close>

lemma long_label_leaks:
  defines "events \<equiv> [\<lparr>le_entry = 0, le_exit = 10\<rparr>, \<lparr>le_entry = 1, le_exit = 2\<rparr>, \<lparr>le_entry = 3, le_exit = 4\<rparr>, \<lparr>le_entry = 5, le_exit = 6\<rparr>]"
  shows "split_fold events 0 (0, 2) = ([3], [0, 1]) \<and> overlap (events ! 3) (events ! 0)"
  by (simp add: events_def split_fold_def survives_def overlap_def upt_rec)

end
