(* ===== verification/Clock_Guard.thy ===== *)
theory Clock_Guard
  imports Digits
begin

text \<open>
  The clocks of the ingestion and the filters by age: the synchronisers, the hybrid clock and the loop-lag
  monitor of \<open>src/src/infrastructure/monitoring.py\<close>, and the filter that reads the time stamp out of the
  raw bytes of a packet (\<open>src/src/infrastructure/latency_shield.py\<close>).  Clock readings are arguments.
\<close>

section \<open>Calibration by round trips\<close>

record hw_clock =
  hc_offset :: flt
  hc_alpha :: flt
  hc_rtt :: flt

definition hw_clock_init :: "flt \<Rightarrow> hw_clock" where
  "hw_clock_init alpha = \<lparr>hc_offset = 0, hc_alpha = alpha, hc_rtt = 0\<rparr>"

definition calibrate_trip :: "flt \<Rightarrow> flt \<Rightarrow> flt \<Rightarrow> hw_clock \<Rightarrow> hw_clock" where
  "calibrate_trip t0 t1 t2 C =
     (let rtt = t2 - t0; current = t1 - (t0 + rtt / 2)
      in C\<lparr>hc_rtt := rtt,
           hc_offset := (if hc_offset C = 0 then current
                         else hc_alpha C * current + (1 - hc_alpha C) * hc_offset C)\<rparr>)"

definition exchange_time_ns :: "int \<Rightarrow> hw_clock \<Rightarrow> int" where
  "exchange_time_ns perf_ns C = py_int ((of_int perf_ns / 1000000 + hc_offset C) * 1000000)"

text \<open>A round trip whose stamp was taken by a clock ahead of ours by \<open>theta\<close> while the packet was under way.\<close>

definition causal_trip :: "flt \<Rightarrow> flt \<Rightarrow> flt \<times> flt \<times> flt \<Rightarrow> bool" where
  "causal_trip theta R trip \<longleftrightarrow>
     (case trip of (t0, t1, t2) \<Rightarrow> t0 \<le> t1 - theta \<and> t1 - theta \<le> t2 \<and> t2 - t0 \<le> R)"

lemma convex_between:
  fixes a b w L :: real
  assumes "0 \<le> w" "w \<le> 1" "\<bar>a - c\<bar> \<le> L" "\<bar>b - c\<bar> \<le> L"
  shows "\<bar>w * a + (1 - w) * b - c\<bar> \<le> L"
proof -
  have "w * a + (1 - w) * b - c = w * (a - c) + (1 - w) * (b - c)" by (simp add: algebra_simps)
  then have "\<bar>w * a + (1 - w) * b - c\<bar> \<le> w * \<bar>a - c\<bar> + (1 - w) * \<bar>b - c\<bar>"
    using assms(1,2) by (simp add: abs_mult order_trans [OF abs_triangle_ineq])
  also have "\<dots> \<le> w * L + (1 - w) * L"
    using assms by (intro add_mono mult_left_mono) auto
  finally show ?thesis by (simp add: algebra_simps)
qed

lemma calibrate_trip_error:
  assumes "0 \<le> hc_alpha C" "hc_alpha C \<le> 1" "causal_trip theta R (t0, t1, t2)"
    and "hc_offset C = 0 \<or> \<bar>hc_offset C - theta\<bar> \<le> R / 2"
  shows "\<bar>hc_offset (calibrate_trip t0 t1 t2 C) - theta\<bar> \<le> R / 2 \<and> hc_alpha (calibrate_trip t0 t1 t2 C) = hc_alpha C"
proof -
  have "\<bar>(t1 - (t0 + (t2 - t0) / 2)) - theta\<bar> \<le> R / 2"
    using assms(3) by (auto simp: causal_trip_def abs_le_iff field_simps)
  then show ?thesis
    using assms(1,2,4) convex_between [of "hc_alpha C" "t1 - (t0 + (t2 - t0) / 2)" theta "R / 2" "hc_offset C"]
    by (auto simp: calibrate_trip_def Let_def)
qed



section \<open>The hybrid clock and the age of a message\<close>

record anchored_clock =
  hy_epoch :: flt
  hy_mono :: flt

definition hybrid_init :: "time \<Rightarrow> time \<Rightarrow> anchored_clock" where
  "hybrid_init wall up = \<lparr>hy_epoch = wall * 1000, hy_mono = up * 1000\<rparr>"

definition hybrid_now_ms :: "time \<Rightarrow> anchored_clock \<Rightarrow> flt" where
  "hybrid_now_ms up H = hy_epoch H + (up * 1000 - hy_mono H)"

record lag_filter =
  lf_alpha :: flt
  lf_limit :: flt
  lf_baseline :: "flt option"
  lf_clock :: anchored_clock

definition lag_filter_init :: "flt \<Rightarrow> flt \<Rightarrow> time \<Rightarrow> time \<Rightarrow> lag_filter" where
  "lag_filter_init alpha limit wall up =
     \<lparr>lf_alpha = alpha, lf_limit = limit, lf_baseline = None, lf_clock = hybrid_init wall up\<rparr>"

definition check_exchange_lag :: "time \<Rightarrow> int \<Rightarrow> lag_filter \<Rightarrow> lag_filter \<times> bool" where
  "check_exchange_lag up ts F =
     (let raw = hybrid_now_ms up (lf_clock F) - of_int ts
      in case lf_baseline F of
           None \<Rightarrow> (F\<lparr>lf_baseline := Some raw\<rparr>, True)
         | Some b \<Rightarrow>
             if lf_limit F < raw - b then (F, False)
             else (F\<lparr>lf_baseline := Some (lf_alpha F * raw + (1 - lf_alpha F) * b)\<rparr>, True))"

definition raw_lag :: "lag_filter \<Rightarrow> time \<times> int \<Rightarrow> flt" where
  "raw_lag F e = hybrid_now_ms (fst e) (lf_clock F) - of_int (snd e)"

definition lag_step :: "lag_filter \<Rightarrow> time \<times> int \<Rightarrow> lag_filter \<times> bool" where
  "lag_step F e = check_exchange_lag (fst e) (snd e) F"

lemma lag_step_frame [simp]:
  "lf_alpha (fst (lag_step F e)) = lf_alpha F" "lf_limit (fst (lag_step F e)) = lf_limit F"
  "lf_clock (fst (lag_step F e)) = lf_clock F"
  by (simp_all add: lag_step_def check_exchange_lag_def Let_def split: option.split)

lemma raw_lag_step [simp]: "raw_lag (fst (lag_step F e)) = raw_lag F"
  by (simp add: raw_lag_def fun_eq_iff)

text \<open>A link whose delays vary by no more than the limit loses nothing.\<close>

theorem steady_link_accepted:
  assumes "0 \<le> lf_alpha F" "lf_alpha F \<le> 1" "0 \<le> L" "2 * L \<le> lf_limit F"
    and "\<forall>e\<in>set es. \<bar>raw_lag F e - c\<bar> \<le> L" "case lf_baseline F of None \<Rightarrow> True | Some b \<Rightarrow> \<bar>b - c\<bar> \<le> L"
  shows "list_all snd (run_log lag_step F es)"
  using assms
proof (induction es arbitrary: F)
  case (Cons e es)
  have e: "\<bar>raw_lag F e - c\<bar> \<le> L" using Cons.prems(5) by simp
  have step: "snd (lag_step F e)" "case lf_baseline (fst (lag_step F e)) of None \<Rightarrow> True | Some b \<Rightarrow> \<bar>b - c\<bar> \<le> L"
  proof -
    have "snd (lag_step F e) \<and> (\<exists>b. lf_baseline (fst (lag_step F e)) = Some b \<and> \<bar>b - c\<bar> \<le> L)"
    proof (cases "lf_baseline F")
      case None
      then show ?thesis using e by (simp add: lag_step_def check_exchange_lag_def raw_lag_def Let_def)
    next
      case (Some b)
      then have b: "\<bar>b - c\<bar> \<le> L" using Cons.prems(6) by simp
      have "\<not> lf_limit F < raw_lag F e - b" using e b Cons.prems(4) by (auto simp: abs_le_iff)
      then show ?thesis
        using Some convex_between [OF Cons.prems(1,2) e b] by (simp add: lag_step_def check_exchange_lag_def raw_lag_def Let_def)
    qed
    then show "snd (lag_step F e)" "case lf_baseline (fst (lag_step F e)) of None \<Rightarrow> True | Some b \<Rightarrow> \<bar>b - c\<bar> \<le> L" by auto
  qed
  have "list_all snd (run_log lag_step (fst (lag_step F e)) es)"
    using Cons.prems(1-5) step(2) by (intro Cons.IH) simp_all
  then show ?case using step(1) by simp
qed simp

text \<open>A lasting increase of the delay by more than the limit - a new route, a jump of the exchange's clock - is never
  learned: every message is dropped from then on, and the baseline stays where it was.\<close>

theorem shifted_link_starves:
  assumes "lf_baseline F = Some b" "\<forall>e\<in>set es. lf_limit F < raw_lag F e - b"
  shows "run_final lag_step F es = F \<and> list_all (\<lambda>x. \<not> snd x) (run_log lag_step F es)"
  using assms
proof (induction es)
  case (Cons e es)
  have "lag_step F e = (F, False)"
    using Cons.prems by (simp add: lag_step_def check_exchange_lag_def raw_lag_def Let_def)
  then show ?case using Cons by simp
qed simp

theorem shifted_link_starves_witness:
  "list_all (\<lambda>x. \<not> snd x) (run_log lag_step ((lag_filter_init (1 / 20) 300 1000 0)\<lparr>lf_baseline := Some 50\<rparr>)
     [(1, 1000000), (2, 1001000)])"
  using shifted_link_starves [of "(lag_filter_init (1 / 20) 300 1000 0)\<lparr>lf_baseline := Some 50\<rparr>" 50 "[(1, 1000000), (2, 1001000)]"]
  by (simp add: lag_filter_init_def raw_lag_def hybrid_now_ms_def hybrid_init_def)

section \<open>The lag of the event loop\<close>

record loop_monitor =
  lm_interval :: time
  lm_threshold_ms :: flt
  lm_lag_ms :: flt

definition loop_round :: "time \<Rightarrow> loop_monitor \<Rightarrow> loop_monitor \<times> bool" where
  "loop_round elapsed M =
     (let lag = lm_lag_ms M * (1 / 2) + max 0 ((elapsed - lm_interval M) * 1000) * (1 / 2)
      in (M\<lparr>lm_lag_ms := lag\<rparr>, lm_threshold_ms M < lag \<and> lm_threshold_ms M * 2 < lag))"

text \<open>A single stall is halved by every round that is on time.\<close>

lemma stall_halves:
  "\<forall>x\<in>set xs. x \<le> lm_interval M \<Longrightarrow> lm_lag_ms (fold (\<lambda>x M. fst (loop_round x M)) xs M) = lm_lag_ms M / 2 ^ length xs"
proof (induction xs arbitrary: M)
  case (Cons x xs)
  have "max 0 ((x - lm_interval M) * 1000) = 0" using Cons.prems by simp
  then have "lm_lag_ms (fst (loop_round x M)) = lm_lag_ms M / 2" "lm_interval (fst (loop_round x M)) = lm_interval M"
    by (simp_all add: loop_round_def Let_def)
  then show ?case using Cons by (simp add: field_simps del: divide_minus_left)
qed simp

section \<open>The time stamp in the raw bytes\<close>

text \<open>\<open>bytes.find\<close> from a position on.\<close>

fun find_text :: "string \<Rightarrow> string \<Rightarrow> nat \<Rightarrow> nat option" where
  "find_text p [] i = (if p = [] then Some i else None)"
| "find_text p (c # cs) i = (if take (length p) (c # cs) = p then Some i else find_text p cs (Suc i))"

definition find_from :: "string \<Rightarrow> string \<Rightarrow> nat \<Rightarrow> nat option" where
  "find_from p s i = find_text p (drop i s) i"

record latency_shield =
  ls_offset :: flt
  ls_max :: int
  ls_checked :: int
  ls_dropped :: int

definition shield_init :: "flt \<Rightarrow> int \<Rightarrow> latency_shield" where
  "shield_init offset max_ms = \<lparr>ls_offset = offset, ls_max = max_ms, ls_checked = 0, ls_dropped = 0\<rparr>"

definition ts_marker :: string where "ts_marker = ''\"ts\":''"
definition e_marker :: string where "e_marker = ''\"E\":''"

text \<open>The text of the number: from five bytes after the start of the marker to a comma, else to a brace, else to the last
  byte but one.\<close>

definition stamp_text :: "string \<Rightarrow> nat \<Rightarrow> string" where
  "stamp_text raw idx =
     (let start = idx + 5
      in case find_from '','' raw start of
           Some e \<Rightarrow> slice raw start e
         | None \<Rightarrow> (case find_from ''}'' raw start of
                      Some e \<Rightarrow> slice raw start e
                    | None \<Rightarrow> slice raw start (length raw - 1)))"

definition is_packet_dead :: "time \<Rightarrow> string \<Rightarrow> latency_shield \<Rightarrow> latency_shield \<times> bool" where
  "is_packet_dead now raw S =
     (let S1 = S\<lparr>ls_checked := ls_checked S + 1\<rparr>
      in case (case find_from ts_marker raw 0 of Some i \<Rightarrow> Some i | None \<Rightarrow> find_from e_marker raw 0) of
           None \<Rightarrow> (S1, False)
         | Some idx \<Rightarrow>
             (case py_int_text (stamp_text raw idx) of
                None \<Rightarrow> (S1, False)
              | Some ts \<Rightarrow>
                  if of_int (ls_max S) < now * 1000 - ls_offset S - of_int ts
                  then (S1\<lparr>ls_dropped := ls_dropped S + 1\<rparr>, True) else (S1, False)))"

definition drop_ratio :: "latency_shield \<Rightarrow> flt" where
  "drop_ratio S = (if ls_checked S = 0 then 0 else of_int (ls_dropped S) / of_int (ls_checked S))"

definition shield_ok :: "latency_shield \<Rightarrow> bool" where
  "shield_ok S \<longleftrightarrow> 0 \<le> ls_dropped S \<and> ls_dropped S \<le> ls_checked S"

lemma shield_ok_step: "shield_ok S \<Longrightarrow> shield_ok (fst (is_packet_dead now raw S))"
  by (auto simp: shield_ok_def is_packet_dead_def Let_def split: option.split)

lemma drop_ratio_bounds: "shield_ok S \<Longrightarrow> 0 \<le> drop_ratio S \<and> drop_ratio S \<le> 1"
  by (auto simp: shield_ok_def drop_ratio_def divide_le_eq)

lemma digits_value_less: "list_all is_digit ds \<Longrightarrow> digits_value ds < 10 ^ length ds"
proof (induction ds rule: rev_induct)
  case (snoc d ds)
  have "digit_of d \<le> 9" using snoc.prems by (simp add: digit_of_def is_digit_def le_diff_conv)
  moreover have "digits_value ds + 1 \<le> 10 ^ length ds" using snoc by simp
  ultimately have "10 * digits_value ds + digit_of d < 10 * 10 ^ length ds" by linarith
  then show ?case by (simp add: digits_value_def)
qed (simp add: digits_value_def)

lemma comma_after_digits: "list_all is_digit ds \<Longrightarrow> find_text '','' (ds @ CHR '','' # post) i = Some (i + length ds)"
  by (induction ds arbitrary: i) (auto simp: is_digit_def)

lemma digits_read: "list_all is_digit ds \<Longrightarrow> ds \<noteq> [] \<Longrightarrow> py_int_text ds = Some (int (digits_value ds))"
proof -
  assume ds: "list_all is_digit ds" "ds \<noteq> []"
  obtain c cs where c: "ds = c # cs" using ds(2) by (cases ds) simp_all
  obtain e es where e: "rev ds = e # es" using ds(2) by (cases "rev ds") auto
  have "e \<in> set ds" using e by (metis list.set_intros(1) set_rev)
  then have "is_digit c" "is_digit e" using ds(1) c by (auto simp: list_all_iff)
  then have "dropWhile is_space ds = ds" "dropWhile is_space (rev ds) = rev ds"
    unfolding e by (simp_all add: c digit_no_space)
  then have "strip ds = ds" by (simp add: strip_def)
  moreover have "split_sign ds = (1, ds)" using c \<open>is_digit c\<close> by (auto simp: split_sign_def is_digit_def)
  ultimately show ?thesis using ds by (simp add: py_int_text_def)
qed

lemma stamp_after_marker:
  assumes "raw = pre @ mark @ ds @ CHR '','' # post" "length mark = 5" "list_all is_digit ds"
  shows "stamp_text raw (length pre) = ds"
proof -
  have "drop (length pre + 5) raw = ds @ CHR '','' # post" using assms(1,2) by simp
  then show ?thesis
    using comma_after_digits [OF assms(3), of post "length pre + 5"]
    by (simp add: stamp_text_def find_from_def slice_def)
qed

text \<open>A packet with the stamp of the exchange under \<open>ts\<close> is dropped exactly when its transit time exceeds the limit.\<close>

theorem ts_packet_exact:
  assumes "raw = pre @ ts_marker @ ds @ CHR '','' # post" "find_from ts_marker raw 0 = Some (length pre)"
    and "list_all is_digit ds" "ds \<noteq> []"
  shows "snd (is_packet_dead now raw S) \<longleftrightarrow> of_int (ls_max S) < now * 1000 - ls_offset S - real (digits_value ds)"
  using assms stamp_after_marker [OF assms(1) _ assms(3)] digits_read [OF assms(3,4)]
  by (simp add: is_packet_dead_def Let_def ts_marker_def)



end
