(* ===== verification/Lossy_Writers.thy ===== *)
theory Lossy_Writers
  imports Interfaces "HOL-Library.Sublist" "HOL-Library.Product_Lexorder" "HOL-Library.List_Lexorder"
    "HOL-Library.Char_ord"
begin

text \<open>
  Background writers with a bounded queue and the throttler of order-book fetches: the telemetry logger
  (\<open>src/src/infrastructure/telemetry.py\<close>), the spill-over writer
  (\<open>src/src/infrastructure/spillover_writer.py\<close>), the flight recorder and the hydration manager of
  \<open>src/src/infrastructure/monitoring.py\<close>.  A write succeeds or raises \<open>OSError\<close>; the file is the list of
  the lines that were written.  What the three writers have in common is a locale.
\<close>

section \<open>The contract of a writer\<close>

text \<open>
  \<open>put\<close> is the call on the hot path, \<open>drain\<close> one round of the background loop whose write succeeds or not.
  Nothing is written twice or out of order; with room in the queue and writes that succeed nothing is lost;
  and every round takes something off a queue that is not empty.
\<close>

locale background_writer =
  fixes put :: "'a \<Rightarrow> 's \<Rightarrow> 's"
    and drain :: "bool \<Rightarrow> 's \<Rightarrow> 's"
    and pending :: "'s \<Rightarrow> 'a list"
    and written :: "'s \<Rightarrow> 'a list"
    and room :: "'s \<Rightarrow> bool"
    and good :: "'s \<Rightarrow> bool"
  assumes good_put: "good s \<Longrightarrow> good (put x s)"
    and good_drain: "good s \<Longrightarrow> good (drain fine s)"
    and put_order: "subseq (written (put x s) @ pending (put x s)) (written s @ pending s @ [x])"
    and put_kept: "room s \<Longrightarrow> written (put x s) @ pending (put x s) = written s @ pending s @ [x]"
    and drain_order: "subseq (written (drain fine s) @ pending (drain fine s)) (written s @ pending s)"
    and drain_kept: "written (drain True s) @ pending (drain True s) = written s @ pending s"
    and drain_idle: "pending s = [] \<Longrightarrow> drain fine s = s"
    and drain_progress: "good s \<Longrightarrow> pending s \<noteq> [] \<Longrightarrow> length (pending (drain fine s)) < length (pending s)"
begin

fun operate :: "'a + bool \<Rightarrow> 's \<Rightarrow> 's" where
  "operate (Inl x) s = put x s"
| "operate (Inr fine) s = drain fine s"

definition offered :: "('a + bool) list \<Rightarrow> 'a list" where
  "offered es = List.map_filter (\<lambda>e. case e of Inl x \<Rightarrow> Some x | Inr fine \<Rightarrow> None) es"

fun undisturbed :: "('a + bool) list \<Rightarrow> 's \<Rightarrow> bool" where
  "undisturbed [] s \<longleftrightarrow> True"
| "undisturbed (Inl x # es) s \<longleftrightarrow> room s \<and> undisturbed es (put x s)"
| "undisturbed (Inr fine # es) s \<longleftrightarrow> fine \<and> undisturbed es (drain fine s)"

lemma offered_simps [simp]: "offered [] = []" "offered (Inl x # es) = x # offered es" "offered (Inr fine # es) = offered es"
  by (simp_all add: offered_def List.map_filter_def)

lemma good_run: "good s \<Longrightarrow> good (fold operate es s)"
proof (rule fold_inv)
  fix s e assume "good s"
  then show "good (operate e s)" by (cases e) (simp_all add: good_put good_drain)
qed

lemma run_ordered:
  "subseq (written (fold operate es s) @ pending (fold operate es s)) (written s @ pending s @ offered es)"
proof (induction es arbitrary: s)
  case (Cons e es)
  show ?case
  proof (cases e)
    case (Inl x)
    have "subseq ((written (put x s) @ pending (put x s)) @ offered es) ((written s @ pending s @ [x]) @ offered es)"
      by (rule list_emb_append_mono) (simp_all add: put_order del: append_assoc)
    then show ?thesis using Inl Cons [of "put x s"] by (auto intro: subseq_order.order_trans)
  next
    case (Inr fine)
    have "subseq ((written (drain fine s) @ pending (drain fine s)) @ offered es) ((written s @ pending s) @ offered es)"
      by (rule list_emb_append_mono) (simp_all add: drain_order)
    then show ?thesis using Inr Cons [of "drain fine s"] by (auto intro: subseq_order.order_trans)
  qed
qed simp

lemma run_complete:
  "undisturbed es s \<Longrightarrow> written (fold operate es s) @ pending (fold operate es s) = written s @ pending s @ offered es"
proof (induction es s rule: undisturbed.induct)
  case (2 x es s)
  then show ?case using put_kept [of s x] by (simp flip: append_assoc)
next
  case (3 fine es s)
  moreover have "fine" using "3.prems" by simp
  ultimately show ?case using drain_kept [of s] by (simp flip: append_assoc)
qed simp

lemma drains_empty: "good s \<Longrightarrow> length (pending s) \<le> n \<Longrightarrow> pending ((drain fine ^^ n) s) = []"
proof (induction n arbitrary: s)
  case (Suc n)
  have "length (pending (drain fine s)) \<le> n"
    using drain_progress [of s fine] drain_idle [of s fine] Suc.prems by (cases "pending s = []") auto
  then show ?case using Suc.IH Suc.prems(1) good_drain by (simp add: funpow_swap1)
qed simp

lemma drains_kept: "written ((drain True ^^ n) s) @ pending ((drain True ^^ n) s) = written s @ pending s"
  by (induction n) (simp_all add: drain_kept)

lemma flush_complete:
  "good s \<Longrightarrow> undisturbed es s \<Longrightarrow> length (pending (fold operate es s)) \<le> n \<Longrightarrow>
    written ((drain True ^^ n) (fold operate es s)) = written s @ pending s @ offered es"
  using drains_kept [of n "fold operate es s"] drains_empty [OF good_run, of s es n True] run_complete [of es s] by simp

end

section \<open>The telemetry logger\<close>

text \<open>The queue is a deque that drops its oldest line when it is full.\<close>

record telemetry =
  zl_queue :: "string list"
  zl_max :: nat
  zl_batch :: nat
  zl_file :: "string list"

definition telemetry_init :: "nat \<Rightarrow> nat \<Rightarrow> telemetry" where
  "telemetry_init max_queue batch = \<lparr>zl_queue = [], zl_max = max_queue, zl_batch = batch, zl_file = []\<rparr>"

definition sink_line :: "string \<Rightarrow> telemetry \<Rightarrow> telemetry" where
  "sink_line x Z = Z\<lparr>zl_queue := lastn (zl_max Z) (zl_queue Z @ [x])\<rparr>"

definition flush_lines :: "bool \<Rightarrow> string list \<Rightarrow> telemetry \<Rightarrow> telemetry" where
  "flush_lines fine batch Z = (if fine then Z\<lparr>zl_file := zl_file Z @ batch\<rparr> else Z)"

definition drain_telemetry :: "bool \<Rightarrow> telemetry \<Rightarrow> telemetry" where
  "drain_telemetry fine Z =
     (if zl_queue Z = [] then Z
      else flush_lines fine (take (zl_batch Z) (zl_queue Z)) (Z\<lparr>zl_queue := drop (zl_batch Z) (zl_queue Z)\<rparr>))"

text \<open>The stop waits for the round in progress and writes the rest in one go.\<close>

definition stop_telemetry :: "bool \<Rightarrow> telemetry \<Rightarrow> telemetry" where
  "stop_telemetry fine Z = (if zl_queue Z = [] then Z else flush_lines fine (zl_queue Z) Z)"

section \<open>The spill-over writer\<close>

text \<open>The queue refuses a line when it is full; a batch has at most 500 lines.\<close>

record spill_writer =
  sw_queue :: "string list"
  sw_max :: nat
  sw_file :: "string list"

definition spill_writer_init :: "nat \<Rightarrow> spill_writer" where
  "spill_writer_init max_queue = \<lparr>sw_queue = [], sw_max = max_queue, sw_file = []\<rparr>"

definition spill_enqueue :: "string \<Rightarrow> spill_writer \<Rightarrow> spill_writer" where
  "spill_enqueue x W = (if length (sw_queue W) < sw_max W then W\<lparr>sw_queue := sw_queue W @ [x]\<rparr> else W)"

definition spill_sync_write :: "bool \<Rightarrow> string list \<Rightarrow> spill_writer \<Rightarrow> spill_writer" where
  "spill_sync_write fine batch W = (if fine then W\<lparr>sw_file := sw_file W @ batch\<rparr> else W)"

definition spill_drain :: "bool \<Rightarrow> spill_writer \<Rightarrow> spill_writer" where
  "spill_drain fine W =
     (if sw_queue W = [] then W
      else spill_sync_write fine (take 500 (sw_queue W)) (W\<lparr>sw_queue := drop 500 (sw_queue W)\<rparr>))"

section \<open>The flight recorder\<close>

text \<open>The queue refuses an event when it is full; the thread writes one event at a time.\<close>

record disk_recorder =
  dr_queue :: "string list"
  dr_max :: nat
  dr_file :: "string list"

definition disk_recorder_init :: "nat \<Rightarrow> disk_recorder" where
  "disk_recorder_init max_queue = \<lparr>dr_queue = [], dr_max = max_queue, dr_file = []\<rparr>"

definition record_nowait :: "string \<Rightarrow> disk_recorder \<Rightarrow> disk_recorder" where
  "record_nowait x D = (if length (dr_queue D) < dr_max D then D\<lparr>dr_queue := dr_queue D @ [x]\<rparr> else D)"

definition disk_write :: "bool \<Rightarrow> disk_recorder \<Rightarrow> disk_recorder" where
  "disk_write fine D =
     (case dr_queue D of
        [] \<Rightarrow> D
      | x # xs \<Rightarrow> D\<lparr>dr_queue := xs, dr_file := (if fine then dr_file D @ [x] else dr_file D)\<rparr>)"

section \<open>The three writers keep the contract\<close>

lemma subseq_drop: "subseq (drop k xs) xs"
  by (metis append_take_drop_id list_emb_append2 subseq_order.order_refl)

lemma subseq_lastn: "subseq (lastn n xs) xs"
  by (simp add: lastn_def subseq_drop)

interpretation tele: background_writer sink_line drain_telemetry zl_queue zl_file
  "\<lambda>Z. length (zl_queue Z) < zl_max Z" "\<lambda>Z. 0 < zl_batch Z"
  by unfold_locales
    (auto simp: sink_line_def drain_telemetry_def flush_lines_def subseq_drop subseq_lastn lastn_def list_emb_append_mono)

interpretation spill: background_writer spill_enqueue spill_drain sw_queue sw_file
  "\<lambda>W. length (sw_queue W) < sw_max W" "\<lambda>W. True"
  by unfold_locales
    (auto simp: spill_enqueue_def spill_drain_def spill_sync_write_def subseq_drop list_emb_append_mono)

interpretation recorder: background_writer record_nowait disk_write dr_queue dr_file
  "\<lambda>D. length (dr_queue D) < dr_max D" "\<lambda>D. True"
  by unfold_locales
    (auto simp: record_nowait_def disk_write_def list_emb_append_mono list_emb_Cons split: list.split)

text \<open>The spill-over file.  Whatever was offered while the queue was full or the disk failed, the file and the queue
  hold a part of the offered lines in their order, none of them twice.\<close>

theorem spill_file_ordered:
  "subseq (sw_file (fold spill.operate es (spill_writer_init n)) @ sw_queue (fold spill.operate es (spill_writer_init n)))
    (spill.offered es)"
  using spill.run_ordered [of es "spill_writer_init n"] by (simp add: spill_writer_init_def)

text \<open>The telemetry file.  When the queue never overflowed and the writes succeed, the stop leaves exactly the lines that
  were offered, in their order.\<close>

theorem telemetry_complete:
  assumes "tele.undisturbed es (telemetry_init cap batch)"
  shows "zl_file (stop_telemetry True (fold tele.operate es (telemetry_init cap batch))) = tele.offered es"
  using tele.run_complete [OF assms] by (auto simp: stop_telemetry_def flush_lines_def telemetry_init_def)

theorem telemetry_complete_witness:
  "zl_file (stop_telemetry True (fold tele.operate [Inl ''a'', Inl ''b'', Inr True, Inl ''c''] (telemetry_init 3 1))) = [''a'', ''b'', ''c'']"
  using telemetry_complete [of "[Inl ''a'', Inl ''b'', Inr True, Inl ''c'']" 3 1]
  by (simp add: telemetry_init_def sink_line_def drain_telemetry_def flush_lines_def lastn_def)

text \<open>A full telemetry queue displaces its oldest line; a full spill-over queue refuses the newest.\<close>

lemma telemetry_displaces: "length (zl_queue Z) = zl_max Z \<Longrightarrow> 0 < zl_max Z \<Longrightarrow> zl_queue (sink_line x Z) = tl (zl_queue Z) @ [x]"
  by (simp add: sink_line_def lastn_snoc_full)

lemma spill_refuses: "length (sw_queue W) = sw_max W \<Longrightarrow> spill_enqueue x W = W"
  by (simp add: spill_enqueue_def)

text \<open>A failed write costs a batch of up to 500 lines, which are not put back.\<close>

lemma failed_write_loses_batch: "length (sw_queue W) \<le> 500 \<Longrightarrow> sw_queue (spill_drain False W) = [] \<and> sw_file (spill_drain False W) = sw_file W"
  by (simp add: spill_drain_def spill_sync_write_def)

section \<open>The hydration manager\<close>

text \<open>
  A priority queue of (priority, symbol) pairs, of which the least comes first, the symbols that are queued or being
  fetched, and the time of the last answer.
\<close>

record book_fetcher =
  hd_queue :: "(int \<times> string) list"
  hd_pending :: "string set"
  hd_last_call :: time
  hd_rate :: time

definition hydration_init :: "flt \<Rightarrow> book_fetcher" where
  "hydration_init per_second = \<lparr>hd_queue = [], hd_pending = {}, hd_last_call = 0, hd_rate = 1 / per_second\<rparr>"

definition lead_assets :: "string set" where
  "lead_assets = {''BTCUSDT'', ''ETHUSDT'', ''SOLUSDT''}"

definition request_hydration :: "string \<Rightarrow> int \<Rightarrow> book_fetcher \<Rightarrow> book_fetcher" where
  "request_hydration sy priority H =
     (if sy \<in> hd_pending H then H
      else H\<lparr>hd_pending := insert sy (hd_pending H),
             hd_queue := insort (if sy \<in> lead_assets then 0 else priority, sy) (hd_queue H)\<rparr>)"

text \<open>The loop takes the least pair and waits; the answer gives a book, nothing, or raises.\<close>

definition hydration_take :: "time \<Rightarrow> book_fetcher \<Rightarrow> (book_fetcher \<times> string \<times> time) option" where
  "hydration_take now H =
     (case hd_queue H of
        [] \<Rightarrow> None
      | (p, sy) # q \<Rightarrow> Some (H\<lparr>hd_queue := q\<rparr>, sy, max 0 (hd_last_call H + hd_rate H - now)))"

datatype hydration_answer = Book_answer | Empty_answer | Raised_answer

definition hydration_done :: "time \<Rightarrow> string \<Rightarrow> hydration_answer \<Rightarrow> book_fetcher \<Rightarrow> book_fetcher \<times> time" where
  "hydration_done now sy ans H =
     ((if ans = Book_answer then H\<lparr>hd_last_call := now\<rparr> else H)\<lparr>hd_pending := hd_pending H - {sy}\<rparr>,
      if ans = Raised_answer then 1 else 0)"

text \<open>The events: a request, or a whole fetch - taken, and answered later with requests in between.\<close>

datatype hydration_event =
    Request_book string int
  | Take_next time
  | Fetched time string hydration_answer

definition hydration_step :: "book_fetcher \<Rightarrow> hydration_event \<Rightarrow> book_fetcher \<times> string option" where
  "hydration_step H e =
     (case e of
        Request_book sy p \<Rightarrow> (request_hydration sy p H, None)
      | Take_next now \<Rightarrow> (case hydration_take now H of None \<Rightarrow> (H, None) | Some (H', sy, w) \<Rightarrow> (H', Some sy))
      | Fetched now sy ans \<Rightarrow> (fst (hydration_done now sy ans H), None))"

text \<open>The queue is in order, holds no symbol twice, and only symbols that are pending; a request with an ordinary
  priority comes after the leaders.\<close>

definition hydration_ok :: "book_fetcher \<Rightarrow> bool" where
  "hydration_ok H \<longleftrightarrow> sorted (hd_queue H) \<and> distinct (map snd (hd_queue H)) \<and> snd ` set (hd_queue H) \<subseteq> hd_pending H
     \<and> (\<forall>(p, sy)\<in>set (hd_queue H). 0 < p \<longleftrightarrow> sy \<notin> lead_assets)"

text \<open>A fetch ends for a symbol that was taken, and requests have a positive priority, as the default is.\<close>

fun plausible :: "hydration_event list \<Rightarrow> book_fetcher \<Rightarrow> bool" where
  "plausible [] H \<longleftrightarrow> True"
| "plausible (e # es) H \<longleftrightarrow>
     (case e of Request_book sy p \<Rightarrow> 0 < p | Take_next now \<Rightarrow> True | Fetched now sy ans \<Rightarrow> sy \<notin> snd ` set (hd_queue H))
     \<and> plausible es (fst (hydration_step H e))"

lemma request_ok:
  assumes "hydration_ok H" "0 < p"
  shows "hydration_ok (request_hydration sy p H)"
proof (cases "sy \<in> hd_pending H")
  case False
  then have "sy \<notin> snd ` set (hd_queue H)" using assms(1) by (auto simp: hydration_ok_def)
  then have "distinct (map snd (insort x (hd_queue H)))" if "snd x = sy" for x
    using assms(1) that by (simp add: hydration_ok_def distinct_map distinct_insort set_insort_key) (auto simp: inj_on_def)
  then show ?thesis using assms False
    by (auto simp: request_hydration_def hydration_ok_def sorted_insort set_insort_key lead_assets_def)
qed (simp add: request_hydration_def assms)

lemma hydration_step_ok:
  assumes "hydration_ok H" "plausible [e] H"
  shows "hydration_ok (fst (hydration_step H e))"
proof (cases e)
  case (Request_book sy p)
  then show ?thesis using assms request_ok [of H p sy] by (simp add: hydration_step_def)
next
  case (Take_next now)
  then show ?thesis using assms(1)
    by (cases "hd_queue H") (simp_all add: hydration_step_def hydration_take_def hydration_ok_def split_beta)
next
  case (Fetched now sy ans)
  then show ?thesis using assms by (auto simp: hydration_step_def hydration_done_def hydration_ok_def)
qed

lemma run_hydration_ok: "hydration_ok H \<Longrightarrow> plausible es H \<Longrightarrow> hydration_ok (run_final hydration_step H es)"
proof (induction es arbitrary: H)
  case (Cons e es)
  have "hydration_ok (fst (hydration_step H e))" using Cons.prems by (intro hydration_step_ok) simp_all
  then show ?case using Cons by simp
qed simp

lemma init_hydration_ok: "hydration_ok (hydration_init r)"
  by (simp add: hydration_ok_def hydration_init_def)

text \<open>The leaders recover first: after any sequence of requests, fetches and answers, a symbol that is taken while a
  leader waits is a leader itself; and it is taken off the queue for good until it is requested anew.\<close>

theorem leaders_recover_first:
  assumes "plausible es (hydration_init r)"
    and "hydration_take now (run_final hydration_step (hydration_init r) es) = Some (H', sy, wait)"
    and "lead \<in> snd ` set (hd_queue (run_final hydration_step (hydration_init r) es))" "lead \<in> lead_assets"
  shows "sy \<in> lead_assets \<and> sy \<notin> snd ` set (hd_queue H')"
proof -
  let ?H = "run_final hydration_step (hydration_init r) es"
  have ok: "hydration_ok ?H" by (rule run_hydration_ok [OF init_hydration_ok assms(1)])
  obtain p q where q: "hd_queue ?H = (p, sy) # q" "hd_queue H' = q"
    using assms(2) by (auto simp: hydration_take_def split: list.splits)
  obtain k where k: "(k, lead) \<in> set (hd_queue ?H)" using assms(3) by auto
  have "\<not> 0 < k" using ok k assms(4) by (auto simp: hydration_ok_def)
  moreover have "p \<le> k" using ok k by (force simp: hydration_ok_def q(1) less_eq_prod_def)
  ultimately have "sy \<in> lead_assets" using ok by (auto simp: hydration_ok_def q(1))
  then show ?thesis using ok by (auto simp: hydration_ok_def q)
qed

theorem leaders_recover_first_witness: "''ETHUSDT'' \<in> lead_assets \<and> ''ETHUSDT'' \<notin> {''ADAUSDT''}"
proof -
  let ?es = "[Request_book ''ADAUSDT'' 1, Request_book ''ETHUSDT'' 1]"
  have q: "hd_queue (run_final hydration_step (hydration_init 15) ?es) = [(0, ''ETHUSDT''), (1, ''ADAUSDT'')]"
    by (simp add: hydration_step_def request_hydration_def hydration_init_def lead_assets_def)
  obtain H' w where t: "hydration_take 1 (run_final hydration_step (hydration_init 15) ?es) = Some (H', ''ETHUSDT'', w)"
    "hd_queue H' = [(1, ''ADAUSDT'')]"
    unfolding hydration_take_def q by simp
  show ?thesis
    using leaders_recover_first [of ?es 15 1 H' "''ETHUSDT''" w "''ETHUSDT''"] t q by (simp add: lead_assets_def)
qed

text \<open>A symbol that loses its book again while its fetch is under way is not fetched again: the request finds it pending.\<close>

lemma request_in_flight_lost:
  assumes "hydration_take now H = Some (H1, sy, w)" "hydration_ok H"
  shows "request_hydration sy p H1 = H1 \<and> sy \<notin> hd_pending (fst (hydration_done later sy ans (request_hydration sy p H1)))
    \<and> sy \<notin> snd ` set (hd_queue (fst (hydration_done later sy ans (request_hydration sy p H1))))"
  using assms by (force simp: hydration_take_def hydration_ok_def request_hydration_def hydration_done_def split: list.splits)

text \<open>Only an answer with a book advances the time of the last call: fetches that get nothing are not spaced at all.\<close>

lemma empty_answers_unpaced:
  assumes "hd_last_call H + hd_rate H \<le> now" "hydration_take now H = Some (H1, sy, w)"
    and "hydration_take now (fst (hydration_done now sy Empty_answer H1)) = Some (H2, sy2, w2)"
  shows "w = 0 \<and> w2 = 0 \<and> snd (hydration_done now sy Empty_answer H1) = 0"
  using assms by (auto simp: hydration_take_def hydration_done_def split: list.splits)

end
