(* ===== verification/Formatter.thy ===== *)
theory Formatter
  imports Digits
begin

text \<open>
  The messages to the operator: the escaped templates of \<open>src/src/application/formatters.py\<close> and the older
  ones of \<open>_format_message\<close> in \<open>src/src/infrastructure/telegram_notifier.py\<close>, which do not escape.
  A message is a list of tags and texts that is rendered at the end.  The fixed Russian texts stand
  under an English gloss, which the argument \<open>caps\<close> turns into the text; the decimal text of a number
  (\<open>str\<close>) and \<open>float\<close> of a text are arguments as well.
\<close>

section \<open>Values and numbers\<close>

datatype pv = P_none | P_text string | P_num real | P_bool bool

type_synonym payload = "(string \<times> pv) list"

record format_env =
  fe_caps :: "string \<Rightarrow> string"
  fe_str :: "real \<Rightarrow> string"
  fe_float :: "string \<Rightarrow> real option"
  fe_now :: time

definition field_or :: "payload \<Rightarrow> string \<Rightarrow> pv \<Rightarrow> pv" where
  "field_or p k d = (case map_of p k of None \<Rightarrow> d | Some v \<Rightarrow> v)"

definition py_str :: "format_env \<Rightarrow> pv \<Rightarrow> string" where
  "py_str E v = (case v of P_none \<Rightarrow> ''None'' | P_text s \<Rightarrow> s | P_num x \<Rightarrow> fe_str E x
     | P_bool b \<Rightarrow> if b then ''True'' else ''False'')"

definition truthy :: "pv \<Rightarrow> bool" where
  "truthy v = (case v of P_none \<Rightarrow> False | P_text s \<Rightarrow> s \<noteq> [] | P_num x \<Rightarrow> x \<noteq> 0 | P_bool b \<Rightarrow> b)"

definition number_of :: "pv \<Rightarrow> real option" where
  "number_of v = (case v of P_num x \<Rightarrow> Some x | P_bool b \<Rightarrow> Some (if b then 1 else 0) | _ \<Rightarrow> None)"

definition float_value :: "format_env \<Rightarrow> pv \<Rightarrow> real option" where
  "float_value E v = (case v of P_text s \<Rightarrow> fe_float E s | _ \<Rightarrow> number_of v)"

definition safe_number :: "format_env \<Rightarrow> pv \<Rightarrow> real" where
  "safe_number E v = (case float_value E v of None \<Rightarrow> 0 | Some x \<Rightarrow> x)"

text \<open>\<open>format(x, ".df")\<close> and the same with thousands separators.\<close>

definition fixed_with :: "(nat \<Rightarrow> string) \<Rightarrow> nat \<Rightarrow> real \<Rightarrow> string" where
  "fixed_with whole d x =
     (let m = nat \<bar>round_half_even (x * 10 ^ d)\<bar>
      in (if x < 0 then ''-'' else []) @ whole (m div 10 ^ d) @ ''.'' @ digits_n d m)"

definition fixed_text :: "nat \<Rightarrow> real \<Rightarrow> string" where
  "fixed_text d x = fixed_with nat_text d x"

function grouped_nat :: "nat \<Rightarrow> string" where
  "grouped_nat n = (if n < 1000 then nat_text n else grouped_nat (n div 1000) @ '','' @ digits_n 3 n)"
  by pat_completeness auto
termination by (relation "measure id") auto

declare grouped_nat.simps [simp del]

definition grouped_text :: "nat \<Rightarrow> real \<Rightarrow> string" where
  "grouped_text d x = fixed_with grouped_nat d x"

definition signed_text :: "nat \<Rightarrow> real \<Rightarrow> string" where
  "signed_text d x = (if x < 0 then [] else ''+'') @ fixed_text d x"

text \<open>\<open>datetime.fromtimestamp(t, utc).strftime("%H:%M:%S")\<close>, \<open>None\<close> outside the years 1 to 9999.\<close>

definition clock_text :: "real \<Rightarrow> string option" where
  "clock_text t =
     (let s = round_half_even (t * 1000000) div 1000000
      in if s < -62135596800 \<or> 253402300799 < s then None
         else let d = nat (s mod 86400)
              in Some (digits_n 2 (d div 3600) @ '':'' @ digits_n 2 (d div 60 mod 60) @ '':'' @ digits_n 2 (d mod 60)))"

section \<open>Escaping and rendering\<close>

fun escape_char :: "char \<Rightarrow> string" where
  "escape_char c =
     (if c = CHR ''&'' then ''&amp;'' else if c = CHR ''<'' then ''&lt;'' else if c = CHR ''>'' then ''&gt;''
      else if c = CHR 0x22 then ''&quot;'' else if c = CHR 0x27 then ''&#x27;'' else [c])"

definition html_escape :: "string \<Rightarrow> string" where
  "html_escape s = concat (map escape_char s)"

datatype token = Open string | Close string | Txt string

fun token_text :: "token \<Rightarrow> string" where
  "token_text (Open t) = ''<'' @ t @ ''>''"
| "token_text (Close t) = ''</'' @ t @ ''>''"
| "token_text (Txt s) = s"

definition render :: "token list \<Rightarrow> string" where
  "render ts = concat (map token_text ts)"

definition tag :: "string \<Rightarrow> token list \<Rightarrow> token list" where
  "tag t xs = Open t # xs @ [Close t]"

definition code_txt :: "string \<Rightarrow> token list" where
  "code_txt s = tag ''code'' [Txt s]"

definition cap :: "format_env \<Rightarrow> string \<Rightarrow> token list" where
  "cap E k = [Txt (fe_caps E k)]"

definition bold_cap :: "format_env \<Rightarrow> string \<Rightarrow> token list" where
  "bold_cap E k = tag ''b'' (cap E k)"

text \<open>A line with a sign, a bold caption and what follows it, a line in italics, and lines joined by line feeds.\<close>

definition labelled :: "format_env \<Rightarrow> string \<Rightarrow> token list \<Rightarrow> token list" where
  "labelled E k xs = cap E (''sign: '' @ k) @ bold_cap E k @ (if xs = [] then [] else Txt '' '' # xs)"

definition italic_line :: "format_env \<Rightarrow> string \<Rightarrow> token list" where
  "italic_line E k = cap E (''sign: '' @ k) @ tag ''i'' (cap E k)"

fun join_lines :: "token list list \<Rightarrow> token list" where
  "join_lines [] = []"
| "join_lines [l] = l"
| "join_lines (l # ls) = l @ Txt [CHR 0x0A] # join_lines ls"

section \<open>The templates\<close>

definition esc :: "format_env \<Rightarrow> pv \<Rightarrow> string" where
  "esc E v = (case v of P_none \<Rightarrow> html_escape (fe_caps E ''n/a'') | _ \<Rightarrow> html_escape (py_str E v))"

definition ts_utc :: "format_env \<Rightarrow> payload \<Rightarrow> string" where
  "ts_utc E p =
     (case field_or p ''timestamp'' P_none of
        P_none \<Rightarrow> (case clock_text (fe_now E) of None \<Rightarrow> ''??:??:??'' | Some s \<Rightarrow> s)
      | v \<Rightarrow>
          (case float_value E v of
             None \<Rightarrow> ''??:??:??''
           | Some t \<Rightarrow> (case clock_text (if 10 ^ 12 < t then t / 1000 else t) of None \<Rightarrow> ''??:??:??'' | Some s \<Rightarrow> s)))"

definition ts_line :: "format_env \<Rightarrow> payload \<Rightarrow> token list" where
  "ts_line E p = cap E ''clock'' @ code_txt (ts_utc E p @ '' UTC'')"

definition fmt_startup :: "format_env \<Rightarrow> payload \<Rightarrow> token list" where
  "fmt_startup E p = join_lines
     [labelled E ''[GEKTOR] system initialised'' [],
      cap E ''rule'',
      cap E ''radar active, version'' @ code_txt (esc E (field_or p ''version'' (P_text ''v13.7.1''))),
      ts_line E p,
      cap E ''rule'',
      labelled E ''status: combat mode'' []]"

definition fmt_heartbeat :: "format_env \<Rightarrow> payload \<Rightarrow> token list" where
  "fmt_heartbeat E p = join_lines
     [labelled E ''[PULSE] control signal'' [],
      cap E ''rule'',
      cap E ''processed'' @ tag ''b'' [Txt (int_text (py_int (safe_number E (field_or p ''snapshot_count'' (P_num 0)))))]
        @ cap E ''book snapshots'',
      cap E ''no memory leaks'',
      ts_line E p,
      cap E ''rule'',
      labelled E ''status: normal'' []]"

definition fmt_approved :: "format_env \<Rightarrow> payload \<Rightarrow> token list" where
  "fmt_approved E p =
     (let direction = py_upper (py_str E (field_or p ''direction'' (field_or p ''side'' (P_text ''LONG''))));
          num = (\<lambda>k d. safe_number E (field_or p k d))
      in join_lines
     [labelled E ''GEKTOR: combat signal'' (cap E ''alarm''),
      cap E ''rule'',
      labelled E ''ticker'' (code_txt (''#'' @ esc E (field_or p ''symbol'' (P_text ''UNKNOWN'')))),
      labelled E ''direction'' (cap E (if direction \<in> {''LONG'', ''BUY'', ''BUY_IMPULSE''} then ''LONG (buy)'' else ''SHORT (sell)'')),
      labelled E ''price'' (code_txt (''$'' @ grouped_text 2 (num ''price'' (P_num 0)))),
      labelled E ''OFI'' (code_txt (fixed_text 2 (num ''ofi_pct'' (field_or p ''ofi'' (P_num 0))) @ ''%'')),
      labelled E ''spread'' (code_txt (fixed_text 2 (num ''spread_bps'' (P_num 0)) @ '' bps'')),
      labelled E ''distance'' (code_txt (fixed_text 3 (num ''kde_distance_pct'' (P_num 0)) @ ''%'')),
      labelled E ''top volume'' (code_txt (fixed_text 2 (num ''top_volume'' (field_or p ''top_level_volume'' (P_num 0))))),
      ts_line E p,
      cap E ''rule'',
      italic_line E ''signal passed to execution''])"

definition fmt_rejected :: "format_env \<Rightarrow> payload \<Rightarrow> token list" where
  "fmt_rejected E p =
     (let na = P_text (fe_caps E ''n/a'')
      in join_lines
     [labelled E ''signal rejected'' (code_txt (''#'' @ esc E (field_or p ''symbol'' (P_text ''UNKNOWN'')))),
      cap E ''rule'',
      labelled E ''reason'' [Txt (esc E (field_or p ''reason'' (P_text (fe_caps E ''unknown reason''))))],
      labelled E ''fact'' (code_txt (esc E (field_or p ''fact'' (field_or p ''current_value'' na)))),
      labelled E ''limit'' (code_txt (esc E (field_or p ''limit'' (field_or p ''required_value'' na)))),
      ts_line E p])"

definition fmt_error :: "format_env \<Rightarrow> payload \<Rightarrow> token list" where
  "fmt_error E p = join_lines
     [labelled E ''[ERROR] module failure'' [],
      cap E ''rule'',
      labelled E ''module'' (code_txt (esc E (field_or p ''module'' (field_or p ''source'' (P_text ''UNKNOWN''))))),
      labelled E ''asset'' (code_txt (esc E (field_or p ''symbol'' (P_text ''GLOBAL'')))),
      labelled E ''details'' (code_txt (esc E (field_or p ''message'' (field_or p ''error'' (P_text (fe_caps E ''no details'')))))),
      ts_line E p,
      cap E ''rule'',
      italic_line E ''operator attention required'']"

definition fmt_critical :: "format_env \<Rightarrow> payload \<Rightarrow> token list" where
  "fmt_critical E p = join_lines
     [labelled E ''[CRITICAL] emergency'' (cap E ''alarm''),
      cap E ''rule'',
      labelled E ''module'' (code_txt (esc E (field_or p ''module'' (field_or p ''source'' (P_text ''UNKNOWN''))))),
      labelled E ''asset'' (code_txt (esc E (field_or p ''symbol'' (P_text ''GLOBAL'')))),
      labelled E ''details'' (code_txt (esc E (field_or p ''message'' (field_or p ''error'' (P_text (fe_caps E ''system failure'')))))),
      ts_line E p,
      cap E ''rule'',
      labelled E ''immediate intervention required'' []]"

definition friendly_reasons :: "(string \<times> string) list" where
  "friendly_reasons =
     [(''VPIN_DECAY'', ''toxicity decayed / loss of interest''), (''STOP_LOSS'', ''price stop hit''),
      (''VOLATILITY_EXPANSION'', ''volatility explosion (risk)''), (''TIME_DECAY'', ''no longer current''),
      (''WALL_COLLAPSE'', ''liquidity wall collapsed''), (''CUSUM_REVERSAL'', ''CUSUM reversal'')]"

definition friendly_reason :: "format_env \<Rightarrow> (string \<times> string) list \<Rightarrow> string \<Rightarrow> string" where
  "friendly_reason E table r = (case map_of table r of None \<Rightarrow> r | Some k \<Rightarrow> fe_caps E k)"

text \<open>The VPIN of an abort is converted without a guard: \<open>None\<close> is the exception.\<close>

definition fmt_abort :: "format_env \<Rightarrow> payload \<Rightarrow> token list option" where
  "fmt_abort E p =
     (let sy = esc E (field_or p ''symbol'' (P_text ''UNKNOWN''));
          raw = py_str E (field_or p ''abort_reason'' (field_or p ''exit_reason'' (P_text (fe_caps E ''broken structure''))));
          body = (\<lambda>vpin. join_lines
            [labelled E ''[CAPITAL PROTECTION: RESET]'' [],
             cap E ''risk cut for the asset'' @ tag ''b'' [Txt sy],
             cap E ''rule'',
             labelled E ''asset'' (code_txt sy),
             labelled E ''type'' (cap E ''trading hypothesis withdrawn''),
             labelled E ''reason'' (tag ''i'' [Txt (html_escape (friendly_reason E friendly_reasons raw))]),
             labelled E ''VPIN'' (code_txt vpin),
             labelled E ''price'' (code_txt (''$'' @ grouped_text 2 (safe_number E (field_or p ''price'' (P_num 0))))),
             ts_line E p,
             cap E ''rule'',
             labelled E ''status: exit / off-market'' []])
      in case field_or p ''vpin'' P_none of
           P_none \<Rightarrow> Some (body (fe_caps E ''n/a''))
         | v \<Rightarrow> (case float_value E v of None \<Rightarrow> None | Some x \<Rightarrow> Some (body (fixed_text 4 x))))"

definition fmt_raw_text :: "format_env \<Rightarrow> payload \<Rightarrow> token list" where
  "fmt_raw_text E p = [Txt (esc E (field_or p ''text'' (field_or p ''fact'' (P_text []))))]"

definition fmt_radar_alert :: "format_env \<Rightarrow> payload \<Rightarrow> token list" where
  "fmt_radar_alert E p =
     (let direction = py_upper (py_str E (field_or p ''direction'' (P_text [])));
          num = (\<lambda>k. safe_number E (field_or p k P_none))
      in join_lines
     [labelled E ''[GEKTOR APEX] RADAR ALERT'' (cap E ''alarm''),
      cap E ''rule'',
      cap E ''instrument'' @ code_txt (esc E (field_or p ''symbol'' (P_text ''UNKNOWN''))),
      cap E ''heading'' @ cap E (if direction = ''LONG'' then ''LONG (buy)'' else if direction = ''SHORT'' then ''SHORT (sell)'' else ''NEUTRAL''),
      cap E ''VPIN'' @ code_txt (fixed_text 4 (num ''vpin'')),
      cap E ''Z-Score'' @ code_txt (fixed_text 2 (num ''z_score'')),
      cap E ''Bar'' @ code_txt (fixed_text 4 (num ''bar_open'')) @ cap E ''arrow'' @ code_txt (fixed_text 4 (num ''bar_close'')),
      (if truthy (field_or p ''absorption'' (P_bool False)) then labelled E ''Iceberg detected'' (cap E ''hidden liquidity absorbs the flow'')
       else cap E ''pure impulse (no absorption)''),
      ts_line E p,
      cap E ''rule'',
      labelled E ''status: medium-term anomaly, verify by hand'' []])"

text \<open>The router; an unknown type is an abort when the payload says so, else an approved signal.\<close>

definition format_tokens :: "format_env \<Rightarrow> payload \<Rightarrow> token list option" where
  "format_tokens E p =
     (let t = py_upper (py_str E (field_or p ''event_type'' (P_text [])))
      in if t = ''STARTUP'' then Some (fmt_startup E p)
         else if t = ''HEARTBEAT'' then Some (fmt_heartbeat E p)
         else if t = ''APPROVED'' then Some (fmt_approved E p)
         else if t = ''REJECTED'' then Some (fmt_rejected E p)
         else if t = ''ERROR'' then Some (fmt_error E p)
         else if t = ''CRITICAL'' then Some (fmt_critical E p)
         else if t = ''ABORT'' then fmt_abort E p
         else if t = ''RAW_TEXT'' then Some (fmt_raw_text E p)
         else if t = ''RADAR_ALERT'' then Some (fmt_radar_alert E p)
         else if truthy (field_or p ''abort_mission'' P_none) then fmt_abort E p
         else Some (fmt_approved E p))"

definition format_payload :: "format_env \<Rightarrow> payload \<Rightarrow> string option" where
  "format_payload E p = map_option render (format_tokens E p)"

section \<open>The older templates\<close>

text \<open>Format specifiers and the time raise on anything that is no number: \<open>None\<close>.\<close>

definition old_reasons :: "(string \<times> string) list" where
  "old_reasons = take 4 friendly_reasons"

definition conflation_tag :: "format_env \<Rightarrow> payload \<Rightarrow> token list option" where
  "conflation_tag E p =
     (if truthy (field_or p ''is_conflated'' P_none)
      then map_option (\<lambda>d. Txt [CHR 0x0A] # labelled E ''aggregation'' (code_txt
             (py_str E (field_or p ''tick_count'' (P_num 0)) @ fe_caps E ''ticks /'' @ fixed_text 1 d @ ''ms'')))
           (number_of (field_or p ''duration_ms'' (P_num 0)))
      else Some [])"

definition old_message :: "format_env \<Rightarrow> bool \<Rightarrow> payload \<Rightarrow> token list option" where
  "old_message E delayed p =
     (let sy = py_str E (field_or p ''symbol'' (P_text ''UNKNOWN''));
          time_line = (\<lambda>t. labelled E ''time'' (code_txt (t @ '' UTC'')))
      in case (case field_or p ''vpin'' P_none of P_none \<Rightarrow> Some (fe_caps E ''n/a'')
                 | v \<Rightarrow> map_option (fixed_text 4) (number_of v)) of
           None \<Rightarrow> None
         | Some vpin \<Rightarrow>
         (case Option.bind (number_of (field_or p ''timestamp'' (P_num (fe_now E * 1000)))) (\<lambda>t. clock_text (t / 1000)) of
           None \<Rightarrow> None
         | Some time \<Rightarrow>
         (case conflation_tag E p of
           None \<Rightarrow> None
         | Some agg \<Rightarrow>
             (case number_of (field_or p ''price'' (P_num 0)) of
                None \<Rightarrow> None
              | Some x \<Rightarrow>
                  let price = code_txt (''$'' @ grouped_text 2 x)
                  in if truthy (field_or p ''abort_mission'' P_none)
                     then Some (join_lines
                       [labelled E ''[CAPITAL PROTECTION: RESET]'' [],
                        cap E ''risk cut for the asset'' @ tag ''b'' [Txt sy],
                        cap E ''rule'',
                        labelled E ''asset'' (code_txt sy),
                        labelled E ''type'' (cap E ''trading hypothesis withdrawn''),
                        labelled E ''reason'' (tag ''i'' [Txt (friendly_reason E old_reasons
                          (py_str E (field_or p ''abort_reason'' (P_text (fe_caps E ''broken structure'')))))]),
                        labelled E ''VPIN'' (code_txt vpin),
                        labelled E ''price'' price,
                        time_line time,
                        cap E ''rule'',
                        labelled E ''status: exit / off-market'' []])
                     else if field_or p ''type'' P_none = P_text ''MICRO_IMPULSE''
                     then let buy = (field_or p ''side'' (P_text ''NEUTRAL'') = P_text ''ACCUMULATION'')
                          in map_option (\<lambda>ofi. join_lines
                       [labelled E (if buy then ''[MICROSTRUCTURE: ACCUMULATION]'' else ''[MICROSTRUCTURE: DISTRIBUTION]'') [],
                        cap E (if buy then ''limit buyers dominate'' else ''limit sellers dominate''),
                        cap E ''rule'',
                        labelled E ''asset'' (code_txt sy),
                        labelled E ''OFI Delta'' (code_txt (signed_text 2 ofi)),
                        labelled E ''price'' price,
                        time_line time,
                        cap E ''rule'',
                        labelled E ''status: monitoring'' []]) (number_of (field_or p ''ofi'' (P_num 0)))
                     else Some (join_lines
                       [(if delayed then cap E ''[BACKUP CHANNEL]'' else labelled E ''anomaly detected (ALPHA)'' []),
                        cap E ''institutional shift of probability'',
                        cap E ''rule'',
                        labelled E ''asset'' (code_txt sy),
                        labelled E ''signal'' (cap E ''probable impulse''),
                        labelled E ''VPIN (information risk)'' (code_txt vpin),
                        labelled E ''price'' (price @ agg),
                        time_line time,
                        cap E ''rule'',
                        labelled E ''status: ready for execution'' []])))))"

section \<open>Escaping loses nothing\<close>

text \<open>What a reader of HTML makes of the five entities.\<close>

fun unescape :: "string \<Rightarrow> string" where
  "unescape [] = []"
| "unescape (c # cs) =
     (if take 5 (c # cs) = ''&amp;'' then CHR ''&'' # unescape (drop 5 (c # cs))
      else if take 4 (c # cs) = ''&lt;'' then CHR ''<'' # unescape (drop 4 (c # cs))
      else if take 4 (c # cs) = ''&gt;'' then CHR ''>'' # unescape (drop 4 (c # cs))
      else if take 6 (c # cs) = ''&quot;'' then CHR 0x22 # unescape (drop 6 (c # cs))
      else if take 6 (c # cs) = ''&#x27;'' then CHR 0x27 # unescape (drop 6 (c # cs))
      else c # unescape cs)"

lemma unescape_char: "unescape (escape_char c @ s) = c # unescape s"
  by (cases "c \<in> {CHR ''&'', CHR ''<'', CHR ''>'', CHR 0x22, CHR 0x27}") auto

text \<open>Every text comes back from its escaped form: two different values never look the same to the operator.\<close>

theorem escape_roundtrip: "unescape (html_escape s) = s"
proof (induction s)
  case (Cons c s)
  have "html_escape (c # s) = escape_char c @ html_escape s" by (simp add: html_escape_def)
  then show ?case using Cons unescape_char by simp
qed (simp add: html_escape_def)

section \<open>The tags of a message\<close>

text \<open>A scanner for the tags of a text: what stands between \<open><\<close> and \<open>></\<close>.  A tag that is not closed counts too.\<close>

fun tags :: "string option \<Rightarrow> string \<Rightarrow> string list" where
  "tags None [] = []"
| "tags (Some t) [] = [t]"
| "tags None (c # cs) = (if c = CHR ''<'' then tags (Some []) cs else tags None cs)"
| "tags (Some t) (c # cs) = (if c = CHR ''>'' then t # tags None cs else tags (Some (t @ [c])) cs)"

text \<open>The tags nest: every one is closed, in the right order.\<close>

fun nested :: "string list \<Rightarrow> string list \<Rightarrow> bool" where
  "nested st [] \<longleftrightarrow> st = []"
| "nested st (t # ts) \<longleftrightarrow>
     (case t of
        [] \<Rightarrow> False
      | c # n \<Rightarrow> if c = CHR ''/'' then (case st of [] \<Rightarrow> False | x # st' \<Rightarrow> x = n \<and> nested st' ts) else nested (t # st) ts)"

definition balanced_html :: "string \<Rightarrow> bool" where
  "balanced_html s \<longleftrightarrow> nested [] (tags None s)"

definition plain :: "string \<Rightarrow> bool" where
  "plain s \<longleftrightarrow> CHR ''<'' \<notin> set s"

fun token_plain :: "token \<Rightarrow> bool" where
  "token_plain (Open t) \<longleftrightarrow> CHR ''>'' \<notin> set t"
| "token_plain (Close t) \<longleftrightarrow> CHR ''>'' \<notin> set t"
| "token_plain (Txt s) \<longleftrightarrow> plain s"

fun token_tags :: "token \<Rightarrow> string list" where
  "token_tags (Open t) = [t]"
| "token_tags (Close t) = [CHR ''/'' # t]"
| "token_tags (Txt s) = []"

lemma tags_plain: "plain s \<Longrightarrow> tags None (s @ r) = tags None r"
  by (induction s) (auto simp: plain_def)

lemma tags_open: "CHR ''>'' \<notin> set t \<Longrightarrow> tags (Some a) (t @ CHR ''>'' # r) = (a @ t) # tags None r"
  by (induction t arbitrary: a) auto

lemma tags_render: "list_all token_plain ts \<Longrightarrow> tags None (render ts) = concat (map token_tags ts)"
proof (induction ts)
  case (Cons t ts)
  have "tags None (token_text t @ render ts) = token_tags t @ tags None (render ts)"
    using Cons.prems tags_open [of _ "[]" "render ts"] tags_open [of "CHR ''/'' # _" "[]" "render ts"]
    by (cases t) (auto simp: tags_plain)
  then show ?case using Cons by (simp add: render_def)
qed (simp add: render_def)

text \<open>A list of tokens that opens and closes its own tags can stand anywhere.\<close>

definition closed_tokens :: "token list \<Rightarrow> bool" where
  "closed_tokens ts \<longleftrightarrow> list_all token_plain ts \<and>
     (\<forall>st rest. nested st (concat (map token_tags ts) @ rest) = nested st rest)"

named_theorems closed_rules \<open>pieces of a message that close their tags\<close>

lemma closed_nil [closed_rules]: "closed_tokens []"
  by (simp add: closed_tokens_def)

lemma closed_append [closed_rules]: "closed_tokens xs \<Longrightarrow> closed_tokens ys \<Longrightarrow> closed_tokens (xs @ ys)"
  by (simp add: closed_tokens_def)

lemma closed_text [closed_rules]: "plain s \<Longrightarrow> closed_tokens ts \<Longrightarrow> closed_tokens (Txt s # ts)"
  by (simp add: closed_tokens_def)

lemma closed_tag [closed_rules]:
  "closed_tokens xs \<Longrightarrow> CHR ''>'' \<notin> set t \<Longrightarrow> t \<noteq> [] \<Longrightarrow> hd t \<noteq> CHR ''/'' \<Longrightarrow> closed_tokens (tag t xs)"
  by (cases t) (simp_all add: closed_tokens_def tag_def)

lemma closed_join [closed_rules]: "list_all closed_tokens ls \<Longrightarrow> closed_tokens (join_lines ls)"
  by (induction ls rule: join_lines.induct) (auto intro!: closed_rules simp: plain_def)

lemma closed_balanced: "closed_tokens ts \<Longrightarrow> balanced_html (render ts)"
  unfolding balanced_html_def closed_tokens_def by (metis append_Nil2 nested.simps(1) tags_render)

section \<open>Every message is well formed\<close>

definition caps_plain :: "format_env \<Rightarrow> bool" where
  "caps_plain E \<longleftrightarrow> (\<forall>k. plain (fe_caps E k))"

lemma plain_simps [simp]:
  "plain []" "plain (c # cs) \<longleftrightarrow> c \<noteq> CHR ''<'' \<and> plain cs" "plain (xs @ ys) \<longleftrightarrow> plain xs \<and> plain ys"
  by (auto simp: plain_def)

lemma plain_escape [simp]: "plain (html_escape s)"
  by (induction s) (auto simp: html_escape_def)

lemma plain_esc [simp]: "plain (esc E v)"
  by (simp add: esc_def split: pv.split)

lemma plain_nat_text [simp]: "plain (nat_text n)"
  using nat_text_digits [of "CHR ''<''" n] by (auto simp: plain_def)

lemma plain_int_text [simp]: "plain (int_text n)"
  by (simp add: int_text_def)

lemma plain_digits_n [simp]: "plain (digits_n k n)"
  using digits_n_digits [of "CHR ''<''" k n] by (auto simp: plain_def is_digit_def)

lemma plain_grouped_nat [simp]: "plain (grouped_nat n)"
proof (induction n rule: grouped_nat.induct)
  case (1 n)
  then show ?case by (subst grouped_nat.simps) simp
qed

lemma plain_fixed [simp]: "plain (fixed_text d x)" "plain (grouped_text d x)"
  by (simp_all add: fixed_text_def grouped_text_def fixed_with_def Let_def)

lemma plain_clock: "clock_text t = Some s \<Longrightarrow> plain s"
  by (auto simp: clock_text_def Let_def split: if_splits)

lemma plain_ts [simp]: "plain (ts_utc E p)"
  by (auto simp: ts_utc_def plain_clock split: pv.split option.split)

lemma closed_code [closed_rules]: "plain s \<Longrightarrow> closed_tokens (code_txt s)"
  unfolding code_txt_def by (intro closed_rules) simp_all

lemma closed_caps [closed_rules]:
  assumes "caps_plain E"
  shows "closed_tokens (cap E k)" "closed_tokens (bold_cap E k)" "closed_tokens (italic_line E k)"
    "closed_tokens xs \<Longrightarrow> closed_tokens (labelled E k xs)"
proof -
  have cap: "closed_tokens (cap E l)" for l
    using assms unfolding cap_def caps_plain_def by (intro closed_rules) simp_all
  show "closed_tokens (cap E k)" by (rule cap)
  show bold: "closed_tokens (bold_cap E k)" unfolding bold_cap_def by (intro closed_rules cap) simp_all
  show "closed_tokens (italic_line E k)" unfolding italic_line_def by (intro closed_rules cap) simp_all
  show "closed_tokens (labelled E k xs)" if "closed_tokens xs"
    unfolding labelled_def using that by (cases "xs = []") (simp_all add: closed_append cap bold closed_text closed_nil)
qed

lemma closed_ts_line [closed_rules]: "caps_plain E \<Longrightarrow> closed_tokens (ts_line E p)"
  unfolding ts_line_def by (intro closed_rules) simp_all

lemma closed_bold_text [closed_rules]: "plain s \<Longrightarrow> closed_tokens (tag ''b'' [Txt s])" "plain s \<Longrightarrow> closed_tokens (tag ''i'' [Txt s])"
  by (intro closed_rules; simp)+

lemmas closed_simps = closed_nil closed_append closed_text closed_code closed_caps closed_ts_line closed_bold_text

lemma plain_templates:
  assumes "caps_plain E"
  shows "closed_tokens (fmt_startup E p)" "closed_tokens (fmt_heartbeat E p)" "closed_tokens (fmt_rejected E p)"
    "closed_tokens (fmt_error E p)" "closed_tokens (fmt_critical E p)" "closed_tokens (fmt_raw_text E p)"
  unfolding fmt_startup_def fmt_heartbeat_def fmt_rejected_def fmt_error_def fmt_critical_def Let_def
  by ((rule closed_join, simp add: closed_simps assms)+, simp add: fmt_raw_text_def closed_simps)

lemma signal_templates:
  assumes "caps_plain E"
  shows "closed_tokens (fmt_approved E p)" "closed_tokens (fmt_radar_alert E p)"
    "fmt_abort E p = Some ts \<Longrightarrow> closed_tokens ts"
proof -
  have caps: "plain (fe_caps E k)" for k using assms by (simp add: caps_plain_def)
  show "closed_tokens (fmt_approved E p)" "closed_tokens (fmt_radar_alert E p)"
    unfolding fmt_approved_def fmt_radar_alert_def Let_def by (rule closed_join, simp add: closed_simps assms)+
  show "closed_tokens ts" if "fmt_abort E p = Some ts"
    using that unfolding fmt_abort_def Let_def
    by (auto simp: closed_simps assms caps split: pv.splits option.splits)
qed

text \<open>C37: Whatever a payload contains - error texts, tags, quotes in any of its fields - the message that is formatted from
  it is well-formed: every tag is closed, in the right order.\<close>

theorem messages_well_formed:
  assumes "caps_plain E" "format_payload E p = Some s"
  shows "balanced_html s"
proof -
  obtain ts where ts: "format_tokens E p = Some ts" "s = render ts"
    using assms(2) by (auto simp: format_payload_def)
  then have "closed_tokens ts"
    using plain_templates [OF assms(1), of p] signal_templates [OF assms(1), of p]
    by (auto simp: format_tokens_def Let_def split: if_splits)
  then show ?thesis unfolding ts(2) by (rule closed_balanced)
qed

definition demo_env :: format_env where
  "demo_env = \<lparr>fe_caps = (\<lambda>k. ''x''), fe_str = (\<lambda>x. ''1''), fe_float = (\<lambda>s. None), fe_now = 0\<rparr>"

theorem messages_well_formed_witness:
  "\<exists>s. format_payload demo_env [(''event_type'', P_text ''RAW_TEXT''), (''text'', P_text ''<b>'')] = Some s \<and> balanced_html s"
proof -
  let ?p = "[(''event_type'', P_text ''RAW_TEXT''), (''text'', P_text ''<b>'')]"
  have "\<exists>s. format_payload demo_env ?p = Some s"
    by (simp add: format_payload_def format_tokens_def field_or_def py_str_def py_upper_def upper_char_def)
  moreover have "caps_plain demo_env" by (simp add: caps_plain_def demo_env_def)
  ultimately show ?thesis using messages_well_formed [of demo_env ?p] by blast
qed

text \<open>When formatting fails: for an abort - by its type, or by its flag under an unknown type - whose VPIN is neither
  absent nor a number; every other payload has a message.\<close>

definition routed_to_abort :: "format_env \<Rightarrow> payload \<Rightarrow> bool" where
  "routed_to_abort E p \<longleftrightarrow>
     (let t = py_upper (py_str E (field_or p ''event_type'' (P_text [])))
      in t = ''ABORT'' \<or> (t \<notin> {''STARTUP'', ''HEARTBEAT'', ''APPROVED'', ''REJECTED'', ''ERROR'', ''CRITICAL'', ''RAW_TEXT'', ''RADAR_ALERT''}
           \<and> truthy (field_or p ''abort_mission'' P_none)))"

theorem format_fails_iff:
  "format_payload E p = None \<longleftrightarrow>
    routed_to_abort E p \<and> field_or p ''vpin'' P_none \<noteq> P_none \<and> float_value E (field_or p ''vpin'' P_none) = None"
proof -
  have "fmt_abort E p = None \<longleftrightarrow> field_or p ''vpin'' P_none \<noteq> P_none \<and> float_value E (field_or p ''vpin'' P_none) = None"
    unfolding fmt_abort_def Let_def by (simp split: pv.split option.split)
  then show ?thesis
    by (auto simp: format_payload_def format_tokens_def routed_to_abort_def Let_def)
qed

text \<open>The older templates take the fields as they are: an angle bracket in a reason breaks the message.\<close>

lemma old_message_breaks:
  "\<exists>s. map_option render (old_message demo_env False [(''abort_mission'', P_bool True), (''abort_reason'', P_text ''vpin<b'')]) = Some s
     \<and> \<not> balanced_html s"
proof -
  have "clock_text 0 \<noteq> None" by (simp add: clock_text_def round_half_even_def)
  then obtain y where y: "clock_text 0 = Some y" "plain y" using plain_clock by blast
  then show ?thesis
    by (simp add: old_message_def field_or_def demo_env_def number_of_def conflation_tag_def truthy_def py_str_def Let_def
        friendly_reason_def old_reasons_def friendly_reasons_def balanced_html_def render_def labelled_def bold_cap_def
        cap_def tag_def code_txt_def tags_plain)
qed

end
