(* ===== verification/Radar_Core.thy ===== *)
theory Radar_Core
  imports Radar Feed Digits
begin

text \<open>
  The entry point and its configuration: the settings with their validators and the sensitivity tiers
  (\<open>src/src/infrastructure/config.py\<close>), and the core that builds the radar, the threshold provider, the
  detectors and the watchdog from them, spreads the symbols over connections and feeds the radar
  (\<open>GektorRadarCore\<close> in \<open>src/main.py\<close>).  This is the composition of the live program: a tick uses the
  turnover and the thresholds of the last refresh.
\<close>

section \<open>Sensitivity and validation\<close>

record tier =
  ti_z :: flt
  ti_window :: int
  ti_cooldown :: flt

definition sensitivity_tiers :: "(string \<times> tier) list" where
  "sensitivity_tiers =
     [(''conservative'', \<lparr>ti_z = 5/2, ti_window = 50, ti_cooldown = 600\<rparr>),
      (''active'', \<lparr>ti_z = 2, ti_window = 50, ti_cooldown = 300\<rparr>),
      (''scanner'', \<lparr>ti_z = 17/10, ti_window = 30, ti_cooldown = 120\<rparr>)]"

definition resolve_sensitivity :: "string \<Rightarrow> tier" where
  "resolve_sensitivity s =
     (case map_of sensitivity_tiers (py_lower (strip s)) of
        Some t \<Rightarrow> t
      | None \<Rightarrow> the (map_of sensitivity_tiers ''active''))"

definition alnum :: "char \<Rightarrow> bool" where
  "alnum c \<longleftrightarrow> is_digit c \<or> (65 \<le> (of_char c :: nat) \<and> (of_char c :: nat) \<le> 90)
     \<or> (97 \<le> (of_char c :: nat) \<and> (of_char c :: nat) \<le> 122)"

text \<open>\<open>^\d+:[A-Za-z0-9_-]{35,45}$\<close> on stripped text, and the format of a key.\<close>

definition token_format :: "string \<Rightarrow> bool" where
  "token_format s \<longleftrightarrow> takeWhile is_digit s \<noteq> [] \<and>
     (case dropWhile is_digit s of
        [] \<Rightarrow> False
      | c # rest \<Rightarrow> c = CHR '':'' \<and> 35 \<le> length rest \<and> length rest \<le> 45
          \<and> list_all (\<lambda>x. alnum x \<or> x = CHR ''_'' \<or> x = CHR ''-'') rest)"

definition key_format :: "nat \<Rightarrow> nat \<Rightarrow> string \<Rightarrow> bool" where
  "key_format lo hi s \<longleftrightarrow> lo \<le> length s \<and> length s \<le> hi \<and> list_all alnum s"

record secrets =
  sc_db_url :: string
  sc_token :: string
  sc_api_key :: string
  sc_api_secret :: string

definition validate_settings :: "secrets \<Rightarrow> py_error + secrets" where
  "validate_settings c =
     (if strip (sc_db_url c) = [] then Inl (ValueError ''async_database_url'')
      else if sc_token c \<noteq> [] \<and> \<not> token_format (strip (sc_token c)) then Inl (ValueError ''Telegram Bot Token'')
      else if strip (sc_api_key c) \<noteq> [] \<and> \<not> key_format 18 24 (strip (sc_api_key c)) then Inl (ValueError ''Bybit API Key'')
      else if strip (sc_api_secret c) \<noteq> [] \<and> \<not> key_format 36 50 (strip (sc_api_secret c)) then Inl (ValueError ''Bybit API Secret'')
      else Inr c)"

text \<open>
  The token is looked for under four names, in any case; the wipe removes names from the environment exactly as
  they are written.
\<close>

type_synonym environ = "(string \<times> string) list"

definition token_aliases :: "string list" where
  "token_aliases = [''bot_token'', ''telegram_bot_token'', ''tg_bot_token'', ''gerald_bot_token'']"

definition env_lookup :: "environ \<Rightarrow> string \<Rightarrow> string option" where
  "env_lookup env name = map_of (map (\<lambda>(k, v). (py_lower k, v)) env) name"

definition resolve_token :: "environ \<Rightarrow> string" where
  "resolve_token env = (case List.map_filter (env_lookup env) token_aliases of [] \<Rightarrow> [] | v # _ \<Rightarrow> v)"

definition wiped_names :: "string list" where
  "wiped_names = [''BYBIT_API_KEY'', ''BYBIT_API_SECRET'', ''BOT_TOKEN'', ''TELEGRAM_BOT_TOKEN'', ''TG_BOT_TOKEN'',
     ''GERALD_BOT_TOKEN'', ''CHAT_ID'', ''TELEGRAM_CHAT_ID'', ''TG_CHAT_ID'']"

definition wipe_sensitive :: "secrets \<times> environ \<Rightarrow> secrets \<times> environ" where
  "wipe_sensitive ce =
     (case ce of (c, env) \<Rightarrow>
        (c\<lparr>sc_api_key := [], sc_api_secret := [], sc_token := []\<rparr>,
         filter (\<lambda>(k, v). k \<notin> set wiped_names) env))"

section \<open>Building the core\<close>

record core_settings =
  cs_tier :: string
  cs_base :: flt
  cs_adaptive :: bool
  cs_target_bars :: int
  cs_min_usd :: flt
  cs_max_usd :: flt
  cs_detectors :: bool
  cs_sweep_trades :: int
  cs_sweep_window :: flt
  cs_sweep_notional :: flt
  cs_large_pct :: flt
  cs_large_notional :: flt
  cs_ofi_bucket :: flt
  cs_ofi_history :: nat
  cs_ofi_k :: flt
  cs_ofi_notional :: flt

text \<open>The overrides: the two alpha constants (0 is unset) and two variables of the environment.\<close>

record overrides =
  ov_z :: flt
  ov_window :: int
  ov_cooldown :: "flt option"
  ov_base :: "flt option"

definition z_of :: "core_settings \<Rightarrow> overrides \<Rightarrow> flt" where
  "z_of cs ov = (if ov_z ov \<noteq> 0 then ov_z ov else ti_z (resolve_sensitivity (cs_tier cs)))"

definition vpin_window_of :: "core_settings \<Rightarrow> overrides \<Rightarrow> int" where
  "vpin_window_of cs ov = (if ov_window ov \<noteq> 0 then ov_window ov else ti_window (resolve_sensitivity (cs_tier cs)))"

definition cooldown_of :: "core_settings \<Rightarrow> overrides \<Rightarrow> flt" where
  "cooldown_of cs ov = (case ov_cooldown ov of Some c \<Rightarrow> c | None \<Rightarrow> ti_cooldown (resolve_sensitivity (cs_tier cs)))"

definition base_of :: "core_settings \<Rightarrow> overrides \<Rightarrow> flt" where
  "base_of cs ov = (case ov_base ov of Some b \<Rightarrow> b | None \<Rightarrow> cs_base cs)"

record live_core =
  co_adaptive :: "adaptive option"
  co_radar :: radar

definition live_provider :: "adaptive option \<Rightarrow> (symbol \<Rightarrow> provider_answer) option" where
  "live_provider ad = map_option (\<lambda>a sy. Given (adaptive_threshold_for a sy)) ad"

definition build_adaptive :: "core_settings \<Rightarrow> overrides \<Rightarrow> py_error + adaptive option" where
  "build_adaptive cs ov =
     (if \<not> cs_adaptive cs then Inr None
      else case adaptive_init (cs_target_bars cs) (cs_min_usd cs) (cs_max_usd cs) (base_of cs ov) of
          Inl e \<Rightarrow> Inl e
        | Inr a \<Rightarrow> Inr (Some a))"

definition build_bank :: "core_settings \<Rightarrow> overrides \<Rightarrow> py_error + detector_bank option" where
  "build_bank cs ov =
     (if \<not> cs_detectors cs then Inr None
      else case sweep_init (cs_sweep_trades cs) (cs_sweep_window cs) (cs_sweep_notional cs) (cooldown_of cs ov) of
          Inl e \<Rightarrow> Inl e
        | Inr sw \<Rightarrow>
            (case large_init (cs_large_pct cs) (cs_large_notional cs) (cooldown_of cs ov) of
               Inl e \<Rightarrow> Inl e
             | Inr lp \<Rightarrow>
                 (case ofi_init (cs_ofi_bucket cs) (cs_ofi_history cs) (cs_ofi_k cs) (cs_ofi_notional cs) 5
                         (cooldown_of cs ov * 2) of
                    Inl e \<Rightarrow> Inl e
                  | Inr ofi \<Rightarrow> Inr (Some (bank_init (Some sw) (Some lp) (Some ofi))))))"

definition core_init :: "core_settings \<Rightarrow> overrides \<Rightarrow> py_error + live_core" where
  "core_init cs ov =
     (case build_adaptive cs ov of
        Inl e \<Rightarrow> Inl e
      | Inr ad \<Rightarrow>
          (case build_bank cs ov of
             Inl e \<Rightarrow> Inl e
           | Inr bank \<Rightarrow>
               (case radar_init (base_of cs ov) (nat (vpin_window_of cs ov)) (z_of cs ov) 500 (cooldown_of cs ov)
                       (live_provider ad) bank False of
                  Inl e \<Rightarrow> Inl e
                | Inr rp \<Rightarrow> Inr \<lparr>co_adaptive = ad, co_radar = rp\<rparr>)))"

section \<open>The running core\<close>

text \<open>Connections of at most 180 symbols; without symbols the radar does not start.\<close>

definition max_per_ws :: nat where
  "max_per_ws = 180"

function ws_chunks :: "'a list \<Rightarrow> 'a list list" where
  "ws_chunks xs = (if xs = [] then [] else take max_per_ws xs # ws_chunks (drop max_per_ws xs))"
  by pat_completeness auto
termination by (relation "measure length") (auto simp: max_per_ws_def)

declare ws_chunks.simps [simp del]

definition turnover_now :: "live_core \<Rightarrow> symbol \<Rightarrow> flt" where
  "turnover_now C sy = (case co_adaptive C of None \<Rightarrow> 0 | Some a \<Rightarrow> adaptive_turnover_for a sy)"

datatype core_event =
    Core_tick time tick
  | Core_refresh rest_answer

definition core_refresh :: "rest_answer \<Rightarrow> live_core \<Rightarrow> live_core" where
  "core_refresh ans C =
     (case co_adaptive C of
        None \<Rightarrow> C
      | Some a \<Rightarrow>
          let ad = Some (fst (adaptive_refresh ans a)); rp = co_radar C
          in C\<lparr>co_adaptive := ad, co_radar := rp\<lparr>rp_bars := (rp_bars rp)\<lparr>provider := live_provider ad\<rparr>\<rparr>\<rparr>)"

definition core_step :: "alpha_cfg \<Rightarrow> (radar_msg \<Rightarrow> bool) \<Rightarrow> live_core \<Rightarrow> core_event \<Rightarrow> live_core \<times> handed list" where
  "core_step cfg sink C e =
     (case e of
        Core_tick now t \<Rightarrow>
          let (rp, out) = radar_tick cfg sink (co_radar C) (now, turnover_now C (tk_symbol t), t)
          in (C\<lparr>co_radar := rp\<rparr>, out)
      | Core_refresh ans \<Rightarrow> (core_refresh ans C, []))"

section \<open>When the core can be built\<close>

definition bank_settings_ok :: "core_settings \<Rightarrow> overrides \<Rightarrow> bool" where
  "bank_settings_ok cs ov \<longleftrightarrow> 2 \<le> cs_sweep_trades cs \<and> 0 < cs_sweep_window cs \<and> 0 < cs_sweep_notional cs
     \<and> 0 \<le> cooldown_of cs ov \<and> 0 < cs_large_pct cs \<and> 0 < cs_large_notional cs
     \<and> 0 < cs_ofi_bucket cs \<and> 2 \<le> cs_ofi_history cs \<and> 1 < cs_ofi_k cs"

definition adaptive_settings_ok :: "core_settings \<Rightarrow> overrides \<Rightarrow> bool" where
  "adaptive_settings_ok cs ov \<longleftrightarrow> 1 \<le> cs_target_bars cs \<and> 0 < cs_min_usd cs \<and> cs_min_usd cs \<le> base_of cs ov
     \<and> base_of cs ov \<le> cs_max_usd cs"

text \<open>The core is built exactly when the base threshold is positive and, where they are switched on, the detectors'
  settings are in range and the base threshold lies within the adaptive bounds.\<close>

theorem core_builds_iff:
  "(case core_init cs ov of Inl e \<Rightarrow> False | Inr C \<Rightarrow> True) \<longleftrightarrow>
    0 < base_of cs ov \<and> (if cs_adaptive cs then adaptive_settings_ok cs ov else True)
      \<and> (if cs_detectors cs then bank_settings_ok cs ov else True)"
  by (auto simp: core_init_def build_adaptive_def build_bank_def radar_init_def bar_engine_init_def adaptive_init_def
      sweep_init_def large_init_def ofi_init_def adaptive_settings_ok_def bank_settings_ok_def not_less not_le)

section \<open>The core keeps its invariants\<close>

definition core_ok :: "core_settings \<Rightarrow> live_core \<Rightarrow> bool" where
  "core_ok cs C \<longleftrightarrow> radar_ok (co_radar C) \<and> provider (rp_bars (co_radar C)) = live_provider (co_adaptive C) \<and>
     (case co_adaptive C of None \<Rightarrow> True
      | Some a \<Rightarrow> adaptive_ok a \<and> ad_min_usd a = cs_min_usd cs \<and> ad_max_usd a = cs_max_usd cs)"

lemma bars_tick_provider: "provider (fst (bars_process_tick e t)) = provider e"
  by (simp add: process_tick_eq Let_def frame_simps)

lemma radar_tick_provider: "provider (rp_bars (fst (radar_tick cfg sink rp ev))) = provider (rp_bars rp)"
proof -
  obtain now turnover t where ev: "ev = (now, turnover, t)" by (cases ev) auto
  let ?rp1 = "rp\<lparr>rp_ticks := Suc (rp_ticks rp), rp_last_tick := Some (tk_ts t)\<rparr>"
  obtain rp2 out1 where d: "run_detectors sink now turnover t ?rp1 = (rp2, out1)" by force
  have "rp_bars rp2 = rp_bars rp"
    using run_detectors_core [of ?rp1 sink now turnover t] d by (simp add: same_core_def)
  moreover have "rp_bars (fst (on_bar_closed cfg sink now bar r)) = rp_bars r" for bar r
    by (simp add: on_bar_closed_def dispatch_vpin_def Let_def case_prod_unfold split: option.split sum.split)
  ultimately show ?thesis
    by (simp add: radar_tick_def ev d Let_def case_prod_unfold bars_tick_provider split: option.split)
qed

lemma core_step_ok:
  assumes "core_ok cs C" "case e of Core_tick now t \<Rightarrow> tick_ok t | Core_refresh ans \<Rightarrow> True"
  shows "core_ok cs (fst (core_step cfg sink C e))"
proof (cases e)
  case (Core_tick now t)
  then show ?thesis
    using assms radar_tick_ok [of "co_radar C" "(now, turnover_now C (tk_symbol t), t)" cfg sink]
    by (simp add: core_step_def core_ok_def case_prod_unfold Let_def radar_tick_provider)
next
  case (Core_refresh ans)
  have keep: "ad_min_usd (fst (adaptive_refresh ans a)) = ad_min_usd a" "ad_max_usd (fst (adaptive_refresh ans a)) = ad_max_usd a" for a
    using adaptive_run_bounds [of a "[ans]"] by simp_all
  have "radar_ok rp \<Longrightarrow> radar_ok (rp\<lparr>rp_bars := (rp_bars rp)\<lparr>provider := p\<rparr>\<rparr>)" for rp p
    by (simp add: radar_ok_def engine_ok_def vpin_slot_ok_def)
  then show ?thesis using assms(1) Core_refresh
    by (auto simp: core_step_def core_refresh_def core_ok_def keep adaptive_refresh_ok Let_def split: option.split)
qed

lemma core_init_ok:
  assumes "core_init cs ov = Inr C" "whole_cents (cs_min_usd cs)" "whole_cents (cs_max_usd cs)"
  shows "core_ok cs C"
proof -
  obtain ad bank rp where b: "build_adaptive cs ov = Inr ad" "C = \<lparr>co_adaptive = ad, co_radar = rp\<rparr>"
    "radar_init (base_of cs ov) (nat (vpin_window_of cs ov)) (z_of cs ov) 500 (cooldown_of cs ov) (live_provider ad) bank False = Inr rp"
    using assms(1) by (auto simp: core_init_def split: sum.splits)
  have "provider (rp_bars rp) = live_provider ad"
    using b(3) by (auto simp: radar_init_def bar_engine_init_def split: sum.splits if_splits)
  moreover have "case ad of None \<Rightarrow> True | Some a \<Rightarrow> adaptive_ok a \<and> ad_min_usd a = cs_min_usd cs \<and> ad_max_usd a = cs_max_usd cs"
    using b(1) assms(2,3)
    by (auto simp: build_adaptive_def adaptive_init_def adaptive_ok_def within_bounds_def split: if_splits sum.splits)
  ultimately show ?thesis using radar_init_ok [OF b(3)] b(2) by (simp add: core_ok_def)
qed


definition demo_settings :: core_settings where
  "demo_settings = \<lparr>cs_tier = ''scanner '', cs_base = 1000000, cs_adaptive = True, cs_target_bars = 200, cs_min_usd = 20000,
     cs_max_usd = 5000000, cs_detectors = False, cs_sweep_trades = 5, cs_sweep_window = 30, cs_sweep_notional = 100000,
     cs_large_pct = 1/200, cs_large_notional = 25000, cs_ofi_bucket = 60, cs_ofi_history = 60, cs_ofi_k = 3, cs_ofi_notional = 50000\<rparr>"

definition demo_overrides :: overrides where
  "demo_overrides = \<lparr>ov_z = 0, ov_window = 50, ov_cooldown = None, ov_base = None\<rparr>"


section \<open>Connections, tiers and secrets\<close>

text \<open>Every discovered symbol is on exactly one connection, and no connection has more than 180.\<close>

theorem chunks_cover:
  "concat (ws_chunks xs) = xs \<and> list_all (\<lambda>c. c \<noteq> [] \<and> length c \<le> 180) (ws_chunks xs)
    \<and> length (ws_chunks xs) = (length xs + 179) div 180"
proof (induction xs rule: ws_chunks.induct)
  case (1 xs)
  show ?case
  proof (cases "xs = []")
    case True
    then show ?thesis by (subst ws_chunks.simps) (simp add: ws_chunks.simps)
  next
    case False
    let ?r = "drop max_per_ws xs"
    have unfold: "ws_chunks xs = take max_per_ws xs # ws_chunks ?r" using False by (subst ws_chunks.simps) simp
    have "Suc ((length xs - 180 + 179) div 180) = (length xs + 179) div 180" using False by (cases xs) auto
    then show ?thesis using 1 [OF False] False unfolding unfold by (auto simp: max_per_ws_def)
  qed
qed

text \<open>The window of a tier is used only when the alpha constant is 0; its default is 50, so that the window of the
  scanner tier never applies.\<close>

lemma tier_window_unused: "ov_window ov \<noteq> 0 \<Longrightarrow> vpin_window_of cs ov = ov_window ov"
  by (simp add: vpin_window_of_def)

lemma unknown_tier_is_active:
  "map_of sensitivity_tiers (py_lower (strip s)) = None \<Longrightarrow> resolve_sensitivity s = resolve_sensitivity ''active''"
  by (simp add: resolve_sensitivity_def sensitivity_tiers_def strip_def is_space_def py_lower_def lower_char_def)

text \<open>After the wipe neither the settings nor the listed variables hold a secret.  A token that was given under
  its name in lower case, which the settings read as well, is still in the environment.\<close>

lemma wipe_clears:
  "wipe_sensitive (c, env) = (c', env') \<Longrightarrow> sc_token c' = [] \<and> sc_api_key c' = [] \<and> sc_api_secret c' = []
    \<and> fst ` set env' = fst ` set env - set wiped_names"
  by (force simp: wipe_sensitive_def)

lemma lower_case_token_survives:
  "resolve_token [(''bot_token'', t)] = t \<and> snd (wipe_sensitive (c, [(''bot_token'', t)])) = [(''bot_token'', t)]"
  by (simp add: resolve_token_def env_lookup_def token_aliases_def List.map_filter_def py_lower_def lower_char_def
      wipe_sensitive_def wiped_names_def)

text \<open>A token of blanks is refused although it is as good as none.\<close>

lemma blank_token_refused: "strip (sc_db_url c) \<noteq> [] \<Longrightarrow> sc_token c = '' '' \<Longrightarrow> validate_settings c = Inl (ValueError ''Telegram Bot Token'')"
  by (simp add: validate_settings_def token_format_def strip_def is_space_def)

end
