(* ===== verification/Support.thy ===== *)
theory Support
  imports Rest_Client "HOL-Library.Multiset" "HOL-Library.List_Lexorder" "HOL-Library.Char_ord"
begin

text \<open>
  Smaller parts around the core: the chat history (\<open>src/src/infrastructure/database/session_db.py\<close>), the
  backups (\<open>backup.py\<close> beside it), the snapshot of the mid-term context (\<open>src/src/domain/state_snapshoter.py\<close>),
  the start-up calibration of the clock (\<open>src/src/infrastructure/time_sync.py\<close>), the equity of a unified account
  (\<open>rest_layer.py\<close> beside it), the blackout consensus and the hedge (\<open>macro_risk.py\<close>), the two defenders
  (\<open>src/src/application/defender.py\<close>, \<open>src/src/infrastructure/oob_defender.py\<close>), the score
  (\<open>src/src/domain/scoring.py\<close>), the GPU check (\<open>src/src/shared/gpu_monitor.py\<close>) and the memory guard
  (\<open>src/src/application/runtime_guardian.py\<close>).  JSON and the network are arguments.
\<close>

section \<open>The chat history\<close>

record chat_row =
  ch_id :: nat
  ch_session :: string
  ch_role :: string
  ch_content :: string
  ch_time :: int

definition save_message :: "int \<Rightarrow> string \<Rightarrow> string \<Rightarrow> string \<Rightarrow> chat_row list \<Rightarrow> chat_row list" where
  "save_message now session role content rows =
     rows @ [\<lparr>ch_id = Suc (Max (insert 0 (ch_id ` set rows))), ch_session = session, ch_role = role, ch_content = content, ch_time = now\<rparr>]"

text \<open>\<open>ORDER BY timestamp DESC, id DESC LIMIT ?\<close>, then reversed.\<close>

definition load_history :: "string \<Rightarrow> nat \<Rightarrow> chat_row list \<Rightarrow> (string \<times> string) list" where
  "load_history session max_rows rows =
     (let own = filter (\<lambda>r. ch_session r = session) rows;
          desc = sort_key (\<lambda>r. - ch_time r) (sort_key (\<lambda>r. - int (ch_id r)) own)
      in rev (map (\<lambda>r. (ch_role r, ch_content r)) (take max_rows desc)))"

definition clear_session :: "string \<Rightarrow> chat_row list \<Rightarrow> chat_row list" where
  "clear_session session rows = filter (\<lambda>r. ch_session r \<noteq> session) rows"

definition chat_ok :: "chat_row list \<Rightarrow> bool" where
  "chat_ok rows \<longleftrightarrow> sorted_wrt (<) (map ch_id rows) \<and> sorted (map ch_time rows)"

lemma sort_key_rev_id:
  fixes f :: "'a \<Rightarrow> int"
  assumes "sorted_wrt (\<lambda>a b. f a < f b) xs"
  shows "sort_key (\<lambda>r. - f r) xs = rev xs"
proof (rule sort_key_inj_key_eq)
  have "sorted_wrt (<) (map f xs)" using assms by (simp add: sorted_wrt_map)
  then have "distinct (map f xs)" by (simp add: strict_sorted_iff)
  then show "inj_on (\<lambda>r. - f r) (set xs)" by (simp add: distinct_map inj_on_def)
  have "sorted_wrt (\<lambda>a b. - f b \<le> - f a) xs" using assms by (rule sorted_wrt_mono_rel [rotated]) simp
  then show "sorted (map (\<lambda>r. - f r) (rev xs))" by (simp add: sorted_map sorted_wrt_rev)
qed simp

lemma sort_key_sorted:
  fixes f :: "'a \<Rightarrow> 'b::linorder"
  shows "sorted (map f xs) \<Longrightarrow> sort_key f xs = xs"
  by (induction xs) (auto simp: insort_is_Cons)

lemma load_history_eq:
  assumes "chat_ok rows"
  shows "load_history session n rows
    = map (\<lambda>r. (ch_role r, ch_content r)) (lastn n (filter (\<lambda>r. ch_session r = session) rows))"
proof -
  let ?own = "filter (\<lambda>r. ch_session r = session) rows"
  have ids: "sorted_wrt (\<lambda>a b. int (ch_id a) < int (ch_id b)) ?own"
    using assms by (simp add: chat_ok_def sorted_wrt_map sorted_wrt_filter)
  have times: "sorted (map ch_time ?own)" using assms by (simp add: chat_ok_def sorted_filter)
  have "sorted (map (\<lambda>r. - ch_time r) (rev ?own))"
    using times by (simp add: sorted_map sorted_wrt_rev)
  then have "sort_key (\<lambda>r. - ch_time r) (sort_key (\<lambda>r. - int (ch_id r)) ?own) = rev ?own"
    by (simp add: sort_key_rev_id [OF ids] sort_key_sorted)
  then show ?thesis by (simp add: load_history_def Let_def lastn_def take_rev rev_map [symmetric])
qed

lemma save_keeps_ok:
  assumes "chat_ok rows" "\<forall>r\<in>set rows. ch_time r \<le> now"
  shows "chat_ok (save_message now session role content rows)"
proof -
  have "\<forall>r\<in>set rows. ch_id r < Suc (Max (insert 0 (ch_id ` set rows)))" by (auto simp: less_Suc_eq_le)
  then show ?thesis using assms by (simp add: chat_ok_def save_message_def sorted_wrt_append sorted_append)
qed

text \<open>The history of a session is its latest messages in the order they were written, on a clock that does not go back.\<close>

definition save_all :: "(int \<times> string \<times> string \<times> string) list \<Rightarrow> chat_row list" where
  "save_all ms = fold (\<lambda>(t, s, r, c) rows. save_message t s r c rows) ms []"

lemma save_all_snoc: "save_all (ms @ [(t, s, r, c)]) = save_message t s r c (save_all ms)"
  by (simp add: save_all_def)

lemma save_all_ok:
  "sorted (map fst ms) \<Longrightarrow> chat_ok (save_all ms) \<and> ch_time ` set (save_all ms) \<subseteq> fst ` set ms
    \<and> map (\<lambda>x. (ch_session x, ch_role x, ch_content x)) (save_all ms) = map snd ms"
proof (induction ms rule: rev_induct)
  case (snoc m ms)
  obtain t s r c where m: "m = (t, s, r, c)" by (cases m)
  have IH: "chat_ok (save_all ms)" "ch_time ` set (save_all ms) \<subseteq> fst ` set ms"
    "map (\<lambda>x. (ch_session x, ch_role x, ch_content x)) (save_all ms) = map snd ms"
    using snoc by (simp_all add: sorted_append)
  have "\<forall>x\<in>set (save_all ms). ch_time x \<le> t" using IH(2) snoc.prems m by (fastforce simp: sorted_append)
  then have "chat_ok (save_all (ms @ [m]))" unfolding m save_all_snoc by (rule save_keeps_ok [OF IH(1)])
  then show ?case using IH unfolding m save_all_snoc by (auto simp: save_message_def)
qed (simp add: save_all_def chat_ok_def)

theorem history_is_recent:
  assumes "sorted (map fst ms)"
  shows "load_history session n (save_all ms) = lastn n (map (snd \<circ> snd) (filter (\<lambda>m. fst (snd m) = session) ms))"
proof -
  let ?v = "\<lambda>x. (ch_session x, ch_role x, ch_content x)"
  have "map snd (filter (\<lambda>m. fst m = session) (map ?v (save_all ms))) = map snd (filter (\<lambda>m. fst m = session) (map snd ms))"
    using save_all_ok [OF assms] by simp
  then have "map (\<lambda>x. (ch_role x, ch_content x)) (filter (\<lambda>x. ch_session x = session) (save_all ms))
      = map (snd \<circ> snd) (filter (\<lambda>m. fst (snd m) = session) ms)"
    by (simp add: filter_map comp_def)
  then show ?thesis
    using save_all_ok [OF assms] by (metis load_history_eq lastn_def drop_map length_map)
qed

section \<open>The backups\<close>

text \<open>The oldest names go until five are left; the name of a backup is its time stamp.\<close>

definition prune_backups :: "nat \<Rightarrow> string list \<Rightarrow> string list" where
  "prune_backups keep names = (let sorted_names = sort names in drop (length sorted_names - keep) sorted_names)"

lemma prune_keeps_newest:
  assumes "x \<in> set (prune_backups keep names)" "y \<in> set names" "y \<notin> set (prune_backups keep names)"
  shows "y \<le> x"
proof -
  let ?s = "sort names" and ?k = "length (sort names) - keep"
  have "set (take ?k ?s @ drop ?k ?s) = set names" by simp
  then have "y \<in> set (take ?k ?s) \<union> set (drop ?k ?s)" using assms(2) by (simp only: set_append)
  then have "y \<in> set (take ?k ?s)" using assms(3) by (simp add: prune_backups_def Let_def)
  moreover have "x \<in> set (drop ?k ?s)" using assms(1) by (simp add: prune_backups_def Let_def)
  moreover have "sorted (take ?k ?s @ drop ?k ?s)" by simp
  ultimately show ?thesis unfolding sorted_append by blast
qed

section \<open>The snapshot of the context\<close>

text \<open>
  A byte array of fixed length as ctypes treats it: an assignment writes the bytes and, where there is room, a zero
  behind them; reading stops at the first zero.
\<close>

definition snapshot_room :: nat where
  "snapshot_room = 4092"

definition assign_bytes :: "string \<Rightarrow> string \<Rightarrow> string" where
  "assign_bytes bs old = (if length bs < length old then bs @ CHR 0x00 # drop (Suc (length bs)) old else bs)"

definition read_bytes :: "string \<Rightarrow> string" where
  "read_bytes cells = takeWhile (\<lambda>c. c \<noteq> CHR 0x00) cells"

definition store_snapshot :: "('c \<Rightarrow> string) \<Rightarrow> 'c \<Rightarrow> string \<Rightarrow> py_error + string" where
  "store_snapshot dumps ctx cells =
     (let bs = dumps ctx
      in if snapshot_room < length bs then Inl (ValueError ''Context payload exceeds mmap size.'')
         else Inr (assign_bytes bs cells))"

definition hydrate_state :: "(string \<Rightarrow> 'c option) \<Rightarrow> 'c \<Rightarrow> string \<Rightarrow> 'c" where
  "hydrate_state loads nothing cells =
     (let raw = rev (dropWhile (\<lambda>c. c = CHR 0x00) (rev (read_bytes cells)))
      in if raw = [] then nothing else case loads raw of None \<Rightarrow> nothing | Some c \<Rightarrow> c)"

text \<open>An encoder whose texts are not empty, contain no zero and are read back.\<close>

definition json_ok :: "('c \<Rightarrow> string) \<Rightarrow> (string \<Rightarrow> 'c option) \<Rightarrow> bool" where
  "json_ok dumps loads \<longleftrightarrow> (\<forall>c. dumps c \<noteq> [] \<and> CHR 0x00 \<notin> set (dumps c) \<and> loads (dumps c) = Some c)"

lemma read_assigned:
  "CHR 0x00 \<notin> set bs \<Longrightarrow> length bs \<le> length old \<Longrightarrow> read_bytes (assign_bytes bs old) = bs"
  by (auto simp: read_bytes_def assign_bytes_def takeWhile_append intro!: takeWhile_eq_all_conv [THEN iffD2])

text \<open>A snapshot that is accepted is what the next start reads, whatever was in the file before - and with no snapshot
  at all, a file of zeros, the start has an empty context.\<close>

theorem snapshot_roundtrip:
  assumes "json_ok dumps loads" "length cells = snapshot_room" "store_snapshot dumps ctx cells = Inr cells'"
  shows "hydrate_state loads nothing cells' = ctx \<and> length cells' = snapshot_room
    \<and> hydrate_state loads nothing (replicate snapshot_room (CHR 0x00)) = nothing"
proof -
  have fits: "length (dumps ctx) \<le> length cells" and c: "cells' = assign_bytes (dumps ctx) cells"
    using assms(2,3) by (auto simp: store_snapshot_def Let_def split: if_splits)
  have j: "dumps ctx \<noteq> []" "CHR 0x00 \<notin> set (dumps ctx)" "loads (dumps ctx) = Some ctx"
    using assms(1) by (simp_all add: json_ok_def)
  have "dropWhile (\<lambda>x. x = CHR 0x00) (rev (dumps ctx)) = rev (dumps ctx)"
    using j(1,2) by (cases "dumps ctx" rule: rev_cases) auto
  then have "hydrate_state loads nothing cells' = ctx"
    using j read_assigned [OF j(2) fits] by (simp add: hydrate_state_def c Let_def)
  moreover have "length cells' = snapshot_room" using fits assms(2) by (auto simp: c assign_bytes_def)
  moreover have "read_bytes (replicate snapshot_room (CHR 0x00)) = []"
    by (simp add: read_bytes_def snapshot_room_def numeral_eq_Suc)
  ultimately show ?thesis by (simp add: hydrate_state_def)
qed

theorem snapshot_roundtrip_witness:
  "hydrate_state (\<lambda>s. if s = ''true'' then Some True else if s = ''false'' then Some False else None) False
    (assign_bytes ''true'' (replicate snapshot_room CHR ''x'')) = True"
proof -
  let ?dumps = "\<lambda>b. if b then ''true'' else ''false''"
  let ?loads = "\<lambda>s. if s = ''true'' then Some True else if s = ''false'' then Some False else None"
  have "json_ok ?dumps ?loads" by (simp add: json_ok_def)
  moreover have "store_snapshot ?dumps True (replicate snapshot_room CHR ''x'')
      = Inr (assign_bytes ''true'' (replicate snapshot_room CHR ''x''))"
    by (simp add: store_snapshot_def snapshot_room_def Let_def)
  ultimately show ?thesis
    using snapshot_roundtrip [of ?dumps ?loads "replicate snapshot_room CHR ''x''" True _ False] by simp
qed

section \<open>Start-up clock calibration\<close>

text \<open>A sample: the server's time, the round trip and the local clock after it, or an exception.\<close>

datatype clock_sample = Sample_failed | Sample real real real

definition sample_offset :: "clock_sample \<Rightarrow> real option" where
  "sample_offset s =
     (case s of Sample_failed \<Rightarrow> None
      | Sample server rtt local \<Rightarrow> if 1000 < rtt then None else Some (server + rtt / 2 - local))"

text \<open>The average of at most seven samples; \<open>Inl\<close> is the exception that stops the start.\<close>

definition calibrate_clock :: "real \<Rightarrow> clock_sample list \<Rightarrow> py_error + real" where
  "calibrate_clock max_offset samples =
     (let os = List.map_filter sample_offset (take 7 samples); avg = sum_list os / real (length os)
      in if os = [] then Inl (ValueError ''Cannot calibrate clock'')
         else if max_offset < \<bar>avg\<bar> then Inl (ValueError ''CRITICAL CLOCK DRIFT'')
         else Inr avg)"

text \<open>A sample of a server whose clock is ahead of ours by \<open>theta\<close> and whose answer was made during the round trip.\<close>

definition sample_causal :: "real \<Rightarrow> clock_sample \<Rightarrow> bool" where
  "sample_causal theta s \<longleftrightarrow> (case s of Sample_failed \<Rightarrow> True
     | Sample server rtt local \<Rightarrow> local + theta - rtt \<le> server \<and> server \<le> local + theta)"

lemma average_within:
  assumes "xs \<noteq> []" "\<forall>x\<in>set xs. \<bar>x - c\<bar> \<le> L"
  shows "\<bar>sum_list xs / real (length xs) - c\<bar> \<le> (L :: real)"
proof -
  have "sum_list xs \<le> (c + L) * real (length xs)"
    by (rule sum_list_bound) (use assms(2) in \<open>auto simp: abs_le_iff\<close>)
  moreover have "sum_list (map uminus xs) \<le> (L - c) * real (length (map uminus xs))"
    by (rule sum_list_bound) (use assms(2) in \<open>auto simp: abs_le_iff\<close>)
  moreover have "sum_list (map uminus xs) = - sum_list xs" by (induction xs) simp_all
  moreover have "0 < real (length xs)" using assms(1) by simp
  ultimately show ?thesis by (simp add: abs_le_iff field_simps)
qed

text \<open>A start that goes through knows the server's clock to half a second, and was within the limit.\<close>

theorem calibration_accurate:
  assumes "\<forall>s\<in>set samples. sample_causal theta s" "calibrate_clock max_offset samples = Inr avg"
  shows "\<bar>avg - theta\<bar> \<le> 500 \<and> \<bar>avg\<bar> \<le> max_offset"
proof -
  let ?os = "List.map_filter sample_offset (take 7 samples)"
  have avg: "?os \<noteq> []" "avg = sum_list ?os / real (length ?os)" "\<bar>avg\<bar> \<le> max_offset"
    using assms(2) by (auto simp: calibrate_clock_def Let_def split: if_splits)
  have "\<bar>x - theta\<bar> \<le> 500" if x: "x \<in> set ?os" for x
  proof -
    obtain s where "s \<in> set samples" "sample_offset s = Some x"
      using x by (auto simp: List.map_filter_def dest: in_set_takeD)
    then show ?thesis using assms(1)
      by (auto simp: sample_offset_def sample_causal_def abs_le_iff split: clock_sample.splits if_splits)
  qed
  then show ?thesis using average_within [OF avg(1), of theta 500] avg by simp
qed

section \<open>The equity of a unified account\<close>

text \<open>No account raises; a missing USDT row is 0, a row that is no number raises.\<close>

definition usable_equity :: "account_row list reply \<Rightarrow> py_error + flt" where
  "usable_equity r =
     (case r of
        Raised e \<Rightarrow> Inl (ConnectionError e)
      | Answer [] \<Rightarrow> Inl (ValueError ''UNIFIED account not found or not upgraded'')
      | Answer (acc # _) \<Rightarrow>
          (case List.find (\<lambda>c. cn_coin c = ''USDT'') (ac_coins acc) of
             None \<Rightarrow> Inr 0
           | Some c \<Rightarrow> (case cn_wallet c of Parsed v \<Rightarrow> Inr v | _ \<Rightarrow> Inl (ValueError ''walletBalance''))))"

text \<open>The two ways to ask for the balance disagree on an account without funds: 0 here, 1000 in the other client.\<close>

lemma empty_account_two_answers:
  assumes "has_keys C" "ac_coins acc = []" "ac_available acc = Missing" "ac_wallet acc = Missing" "ac_equity acc = Missing"
  shows "usable_equity (Answer [acc]) = Inr 0 \<and> wallet_balance C coin (Answer \<lparr>ls_code = 0, ls_rows = [acc]\<rparr>) = 1000"
  using assms by (simp add: usable_equity_def wallet_balance_def account_balance_def coin_balance_def first_truthy_def
      safe_float_def virtual_balance_def)

section \<open>Consensus on a blackout and the hedge\<close>

text \<open>The exchange's health call and the control calls: a status, a time-out or client error, or another exception.\<close>

datatype probe_result = Status int | Timed_out | Broken

datatype blackout_verdict = False_alarm | Exchange_dead | Local_network_dead

fun world_alive :: "probe_result list \<Rightarrow> bool" where
  "world_alive [] \<longleftrightarrow> False"
| "world_alive (r # rs) \<longleftrightarrow> (case r of Status s \<Rightarrow> s \<in> {200, 404, 403} | _ \<Rightarrow> False) \<or> world_alive rs"

text \<open>Another exception of the health call leaves the function: \<open>None\<close>.\<close>

definition verify_blackout :: "probe_result \<Rightarrow> probe_result list \<Rightarrow> blackout_verdict option" where
  "verify_blackout health controls =
     (if health = Status 200 then Some False_alarm
      else if health = Broken then None
      else Some (if world_alive controls then Exchange_dead else Local_network_dead))"

datatype hedge_order = Market_order symbol string flt | Limit_reduce symbol string flt flt

text \<open>The orders that were placed, where each placement returns or raises.\<close>

definition shadow_hedge :: "(hedge_order \<Rightarrow> bool) \<Rightarrow> symbol \<Rightarrow> flt \<Rightarrow> flt \<Rightarrow> hedge_order list" where
  "shadow_hedge places sy net_delta liq_price =
     (let q = \<bar>net_delta\<bar>; side = (if net_delta < 0 then ''BUY'' else ''SELL'');
          m = Market_order sy side q; l = Limit_reduce sy (if side = ''BUY'' then ''SELL'' else ''BUY'') q liq_price
      in if \<not> places m then [] else if \<not> places l then [m] else [m, l])"

text \<open>A hedge needs a control that answers: with the own network down none is made.\<close>

lemma no_hedge_when_cut_off: "world_alive controls = False \<Longrightarrow> verify_blackout health controls \<noteq> Some Exchange_dead"
  by (simp add: verify_blackout_def)

lemma hedge_without_lock:
  "places (Market_order sy ''SELL'' 3) \<Longrightarrow> \<not> places (Limit_reduce sy ''BUY'' 3 p) \<Longrightarrow>
    shadow_hedge places sy 3 p = [Market_order sy ''SELL'' 3]"
  by (simp add: shadow_hedge_def)

section \<open>The defenders\<close>

record panic_order =
  po_sym :: symbol
  po_exit_side :: string
  po_quantity :: flt
  po_limit :: flt
  po_reduce_only :: bool

definition protocol_zero :: "symbol \<Rightarrow> flt \<Rightarrow> flt \<Rightarrow> string \<Rightarrow> panic_order" where
  "protocol_zero sy price position side =
     (let ex = (if side = ''Buy'' then ''Sell'' else ''Buy'')
      in \<lparr>po_sym = sy, po_exit_side = ex, po_quantity = \<bar>position\<bar>,
          po_limit = round_to 4 (if ex = ''Sell'' then price * (995 / 1000) else price * (1005 / 1000)), po_reduce_only = True\<rparr>)"

text \<open>The price has four decimals: for a cheap coin the panic order is at the price 0.\<close>

lemma cheap_coin_panics_at_zero: "po_limit (protocol_zero sy (1 / 100000) q ''Buy'') = 0"
  by (simp add: protocol_zero_def round_to_def round_half_even_def)

record oob_defender =
  od_baseline :: "symbol \<rightharpoonup> flt"
  od_cooling :: "symbol set"

text \<open>The answer and, where a pulse is fired, the symbol; a symbol that cools down fires none.\<close>

definition evaluate_predictive_ofi :: "symbol \<Rightarrow> flt \<Rightarrow> flt \<Rightarrow> oob_defender \<Rightarrow> oob_defender \<times> bool" where
  "evaluate_predictive_ofi sy liq cusum D =
     (let base = (case od_baseline D sy of None \<Rightarrow> liq | Some b \<Rightarrow> b);
          drop_ratio = (base - liq) / (if base = 0 then 1 else base)
      in (D\<lparr>od_baseline := (od_baseline D)(sy \<mapsto> liq)\<rparr>, 4 / 10 < drop_ratio \<and> cusum < 1000))"

definition fire_pulse :: "symbol \<Rightarrow> oob_defender \<Rightarrow> oob_defender \<times> bool" where
  "fire_pulse sy D = (if sy \<in> od_cooling D then (D, False) else (D\<lparr>od_cooling := insert sy (od_cooling D)\<rparr>, True))"

definition pulse_over :: "symbol \<Rightarrow> oob_defender \<Rightarrow> oob_defender" where
  "pulse_over sy D = D\<lparr>od_cooling := od_cooling D - {sy}\<rparr>"

text \<open>The baseline follows every reading: liquidity that drains in steps of less than 40 percent is never noticed.\<close>

lemma slow_drain_unnoticed:
  assumes "od_baseline D sy = Some b" "0 < b" "6 / 10 * b \<le> liq"
  shows "\<not> snd (evaluate_predictive_ofi sy liq cusum D) \<and> od_baseline (fst (evaluate_predictive_ofi sy liq cusum D)) sy = Some liq"
  using assms by (simp add: evaluate_predictive_ofi_def Let_def field_simps)

section \<open>The score, the GPU and the memory\<close>

text \<open>The weight of the sentiment is an attribute of the settings, \<open>None\<close> where they have none: the access raises.\<close>

definition final_score :: "flt option \<Rightarrow> flt \<Rightarrow> flt \<Rightarrow> (int \<times> flt \<times> flt) option" where
  "final_score sent_weight vpin bullish =
     (case sent_weight of
        None \<Rightarrow> None
      | Some w \<Rightarrow>
          let micro = min 1 (vpin / (8 / 10)) * 100; sent = bullish * 100
          in Some (py_int (micro * (85 / 100) + sent * w), round_to 1 micro, round_to 1 sent))"

lemma final_score_range:
  assumes "final_score (Some w) vpin p = Some (s, m, b)" "0 \<le> vpin" "0 \<le> p" "p \<le> 1" "0 \<le> w" "w \<le> 15 / 100"
  shows "0 \<le> s \<and> s \<le> 100"
proof -
  define micro where "micro = min 1 (vpin / (8 / 10))"
  define pw where "pw = p * w"
  have bounds: "0 \<le> micro" "micro \<le> 1" "0 \<le> pw" using assms(2,3,5) by (auto simp: micro_def pw_def)
  have "pw \<le> 1 * (15 / 100)" unfolding pw_def using assms(3-6) by (intro mult_mono) auto
  moreover have "s = py_int (85 * micro + 100 * pw)"
    using assms(1) by (auto simp: final_score_def Let_def micro_def pw_def ac_simps)
  ultimately show ?thesis using bounds by (simp add: py_int_def floor_le_iff)
qed

record gpu_stats =
  gp_vram_used :: flt
  gp_temp :: flt

definition check_gpu :: "flt \<Rightarrow> flt \<Rightarrow> gpu_stats option \<Rightarrow> bool" where
  "check_gpu max_vram max_temp st =
     (case st of None \<Rightarrow> True | Some g \<Rightarrow> \<not> max_vram < gp_vram_used g \<and> \<not> max_temp < gp_temp g)"

text \<open>The answer and whether a collection ran.\<close>

definition check_memory :: "int \<Rightarrow> int \<Rightarrow> bool \<Rightarrow> bool \<times> bool" where
  "check_memory max_rss rss flatline = (if max_rss < rss then (False, False) else (True, flatline))"

text \<open>The collector is off outside a flatline: over the limit nothing is collected any more either.\<close>

lemma over_limit_never_collects: "max_rss < rss \<Longrightarrow> check_memory max_rss rss flatline = (False, False)"
  by (simp add: check_memory_def)

end
