(* ===== verification/Spec2Isabelle.thy ===== *)
theory Spec2Isabelle
  imports Cross_Asset Universe Throttle Multiplexer Schrodinger Intent_Gate Triple_Barrier
    Outbox Signal_Store Event_Bus Quarantine Microstructure Exit_Guard Anchor Resilience Epoch_Healer
    Tick_Clocks Feature_Store Legacy_Book Oracle_Healer Regime Sentinels Ingest_Buffer Notifier
    Seqlock_Bytes Bybit_Ingest Rest_Client Scouts Clock_Guard Lossy_Writers Formatter Radar_Core
    Support
begin

text \<open>
  GEKTOR is a Python radar for the Bybit futures market: it reads the exchange's trades and
  order books, looks for anomalies of the order flow, and hands alerts to an operator over an
  outbox.  Around the radar there are a guard of the operator's own reactions, a gate for the
  execution of signals, a ledger of the orders in flight, and the machinery that keeps all of
  this alive across lost connections and restarts.  This development models the program's own
  logic, one theory per component, and proves what makes each component correct, or states
  exactly where it is not.

  \<^bold>\<open>The trade path.\<close>
  Feed (\<open>infrastructure/bybit_ws_ingestion.py\<close>, \<open>infrastructure/adaptive_threshold.py\<close>) turns
  messages into ticks and keeps the thresholds.  Conflation (\<open>domain/conflation.py\<close>) builds dollar
  bars, Vpin (\<open>domain/vpin_engine.py\<close>, \<open>shared/alpha_config.py\<close>) their flow toxicity, Detectors
  (\<open>domain/liquidity_detectors.py\<close>) sweeps, large prints and imbalance pulses, and Radar
  (\<open>application/radar_pipeline.py\<close>, \<open>application/watchdog.py\<close>) composes them and limits the
  alerts.  The running sums and ring buffers are refined to lists of the newest elements, the
  tape is conserved, alerts of one key are spaced.  Tick_Clocks (\<open>domain/dollar_bar.py\<close>,
  \<open>domain/math_core.py\<close>, \<open>infrastructure/information_clocks.py\<close>) holds the program's other
  clocks: slicing a trade over bars loses nothing, the gap detector never fires.  Regime
  (\<open>domain/macro_regime.py\<close>, \<open>domain/cortex.py\<close>, \<open>domain/alpha_model.py\<close>,
  \<open>domain/quant_radar.py\<close>) judges the market: the panic of the leader, structural breaks, the
  size of an intent, and the divergence over a window of bars that is exactly the newest ones.
  Radar_Core (\<open>src/main.py\<close>, \<open>infrastructure/config.py\<close>) is the program around the radar: what the
  start builds out of the settings and when it refuses them, the hourly refresh of the thresholds
  between the ticks, the connections of the discovered symbols, the wiping of secrets.

  \<^bold>\<open>The exchange's clients.\<close>
  Bybit_Ingest (\<open>infrastructure/bybit.py\<close>) is the WebSocket client with its queue, watchdog, sequence
  guards, backpressure and sessions, and the private stream: what it delivers has no gaps, at the
  price of kills that the theorems state exactly.  Rest_Client (the same file) is the signed
  requests and the balance that is made of the answers.  Clock_Guard
  (\<open>infrastructure/monitoring.py\<close>, \<open>infrastructure/latency_shield.py\<close>) keeps the exchange's clock and
  drops late messages: the error of the calibration is bounded, and two of its filters can drop
  everything.  Seqlock_Bytes (\<open>infrastructure/seqlock_orderbook.py\<close>) is a segment of shared memory
  under a sequence lock, store by store.  Scouts (\<open>application/vanguard.py\<close>,
  \<open>domain/entities/purged_cv.py\<close>) chooses the symbols to watch, and the folds of the
  cross-validation.

  \<^bold>\<open>The order-book path.\<close>
  Digits holds the decimal texts, Wire (\<open>gektor_l2/scaling.py\<close>, \<open>wire_parse.py\<close>) parses decimals
  and rows; Universe
  (\<open>universe_manager.py\<close>) selects the instruments; Delta_Ring, Book_Side, Order_Book and Order_Size
  (\<open>nd_orderbook.py\<close>, \<open>book_state.py\<close>, \<open>conflation.py\<close>, \<open>constants.py\<close>) are the shared-memory
  ring and seqlock kept at their word widths, the sorted sides, snapshots, deltas and replay, and
  the affordable quantity; Cross_Asset (\<open>errors.py\<close> too) is the consistent snapshot of two
  books; Throttle (\<open>resync_gate.py\<close>, \<open>reconnect_throttle.py\<close>) is the gate for REST calls, as a
  step relation of concurrent calls, with the token bucket; Multiplexer (\<open>ws_multiplexer.py\<close>,
  \<open>protocols.py\<close>) handles messages, resynchronisation, acknowledgements, lost connections and hot
  swaps.  The sides refine maps, the ring a bounded queue, buffering during a recovery is
  transparent, the recovery brings a symbol back, and several defects of the handling of
  recovering symbols are stated as theorems.  Legacy_Book (\<open>domain/markets.py\<close>,
  \<open>infrastructure/hydration.py\<close>, \<open>infrastructure/shm_layout.py\<close>) is the program's second order book:
  its price lists follow its dictionaries, a snapshot with its playback buffer is the replay of
  the deltas behind it, and a live delta never reaches the shared levels.

  \<^bold>\<open>The operator and the orders.\<close>
  Tilt (\<open>domain/tilt_breaker.py\<close>) refines the state machine of the lockout.  Intent_Gate
  (\<open>domain/intent_ledger.py\<close>, \<open>domain/intent_capsule.py\<close>, \<open>application/operator_gate.py\<close>) is the
  signed capsule, its single use and the approval.  Schrodinger (\<open>domain/schrodinger_ledger.py\<close>,
  \<open>application/reconnect_reconciler.py\<close>) is the ledger of orders in flight and their
  reconciliation.  Bar_Ring and Triple_Barrier (\<open>domain/dollar_bars.py\<close>, \<open>domain/triple_barrier.py\<close>)
  label intents by the barrier the bars reach first.  Exit_Guard (\<open>domain/exit_protocol.py\<close>,
  \<open>domain/friction_guard.py\<close>) decides exits, filters by cost and audits trades.  Microstructure
  (\<open>application/microstructure.py\<close>) weighs the best levels, Anchor
  (\<open>domain/gravitational_anchor.py\<close>) blocks trading after a leader's shock.

  \<^bold>\<open>Persistence and survival.\<close>
  Outbox (\<open>application/outbox_relay.py\<close>, \<open>application/outbox_alert_sink.py\<close>) is the table of
  alerts with its relays, Signal_Store (\<open>infrastructure/sqlite_outbox.py\<close>) the signals under their
  idempotency keys, Event_Bus (\<open>infrastructure/event_bus.py\<close>, \<open>domain/entities/events.py\<close>) the
  bus with its write thread and recovery, Quarantine (\<open>application/quarantine.py\<close>) the stashes of
  broken symbols, Resilience (\<open>shared/resilience.py\<close>) the latency monitor and the healer,
  Epoch_Healer (\<open>infrastructure/state_healer.py\<close>) the reconciliation at start-up.  Oracle_Healer
  (\<open>application/state_healer.py\<close>, \<open>infrastructure/flight_recorder.py\<close>) is the other healer, whose
  audits bring the exposures in line with the exchange, over the recorder of orders in flight.
  Feature_Store (\<open>infrastructure/feature_store.py\<close>) is a file of bytes that refines a map from
  intents to features and labels through appends, labels, compactions and crashes.  Sentinels
  (\<open>application/sentinel.py\<close>, \<open>application/sentry_brain.py\<close>, \<open>domain/shadow_ledger.py\<close>,
  \<open>domain/entities/fill_simulator.py\<close>, \<open>infrastructure/conflation.py\<close>,
  \<open>infrastructure/shadow_ledger.py\<close>) holds the small guards and buffers: silent symbols are
  reported once, conflation loses no volume, virtual fills are backed by the tape.
  Ingest_Buffer (\<open>infrastructure/database/connection.py\<close>) is the buffer in front of the database: what
  the server took is committed at least once through any crash, what may be lost on the way to the
  spill file is bounded exactly, and a backlog runs backwards.  Notifier
  (\<open>infrastructure/telegram_notifier.py\<close>, \<open>infrastructure/telegram_gateway.py\<close>) and Formatter
  (\<open>application/formatters.py\<close>) send and word the messages: every message is well-formed HTML,
  whatever the payload holds.  Lossy_Writers (\<open>infrastructure/telemetry.py\<close>,
  \<open>infrastructure/spillover_writer.py\<close>, \<open>infrastructure/monitoring.py\<close>) holds the background writers
  and the throttle of the hydration, Support the smaller parts: session history, backups
  (\<open>infrastructure/database/\<close>), the snapshot of the state, calibration at start-up, panic orders,
  scores.

  \<^bold>\<open>The library.\<close>
  Prelude holds the names, the facts on lists and windows and the text functions; Interfaces the
  contracts that components share, as locales: a bounded log, a cooldown gate, and the isolation
  of keys.  They are interpreted where the components provide them: the quote ring of
  Delta_Ring, the stash of Quarantine, the samples of Resilience and the bars of Regime are bounded
  logs, the detectors and the limiter of Radar are cooldown gates, the detectors and their bank
  isolated by symbol, the flight recorder by order.  Lossy_Writers has the contract of a writer in
  the background, which the telemetry logger, the spill-over writer and the flight recorder fulfil,
  each with its own policy for a full queue.  Multiplexer has its own contract for the processor of a symbol's messages, which the
  order book fulfils.  The components' properties rest on the facts of the contracts.

  \<^bold>\<open>Conventions.\<close>
  Float and Decimal are real numbers, taken exactly; Python's int is int; shared memory is kept in
  words.  A clock reading, a random value and what a third party answers (the exchange's client,
  a JSON codec, a keyed hash, numpy's exponential) are arguments.  A dictionary is an association
  list or a map, a numpy array a list of its fixed length.  A coroutine is cut at its awaits: each
  stretch is a function, and interleavings are lists of events or step relations.  An exception is
  a value.  The ring replay runs at most \<open>Suc ring_capacity\<close> rounds, which suffices because each
  round reads a frame; the splitting loop of a trade into bars is a partial function, with
  theorems for when it returns and with how many bars; the reconnect loops, spins and polls
  are single rounds.

  \<^bold>\<open>Not modelled.\<close>
  \<open>bybit_orderbook_rest.py\<close> cannot be imported.  Sockets, HTTP sessions, the Redis server, the database engine,
  files, processes and signals, logging, metrics and the scripts that probe the machine before the
  start are input and output: their answers are arguments here.
  The training scripts call numeric libraries whose behaviour is not this program's.  Rounding of floats, the
  32-bit range of the latency buffer, and memory effects below one store are outside the model.
\<close>

section \<open>From the radar to the operator\<close>

text \<open>
  An alert that the radar emits is written by the sink, selected by the relay and handed to the
  notifier as the object the sink made of it.
\<close>

definition alert_row :: "((string \<times> json_val) list \<Rightarrow> string) \<Rightarrow> radar_alert \<Rightarrow> time \<Rightarrow> outbox \<Rightarrow> outbox_row" where
  "alert_row dumps a now T = \<lparr>ob_id = ob_next T, ob_payload = dumps (format_alert a), ob_priority = 1, ob_status = PENDING,
     ob_created = now, ob_execute_after = now, ob_retries = 0\<rparr>"

lemma sink_appends: "ob_rows (outbox_sink dumps a now T) = ob_rows T @ [alert_row dumps a now T]"
  by (simp add: outbox_sink_def insert_alert_def alert_row_def)

lemma select_all_due:
  assumes "length (filter (due now) (ob_rows T)) \<le> n"
  shows "set (select_due n now T) = set (filter (due now) (ob_rows T))"
  using assms by (simp add: select_due_def)


definition sample_alert :: radar_alert where
  "sample_alert = \<lparr>ra_symbol = ''BTCUSDT'', ra_timestamp = 3, ra_bar_open = 100, ra_bar_close = 101, ra_vpin = 9 / 10,
     ra_z_score = XFloat 4, ra_direction = Long, ra_absorption = False\<rparr>"


end
